(* ===== verification/Loam_Prelude.thy ===== *)
theory Loam_Prelude
  imports Main "HOL-Library.Word"
begin

text \<open>
  What every component of the model shares: the machine types, the little-endian integer
  codecs of the wire formats, Rust's saturating and checked additions, the scan of a fixed
  array for its first matching slot, the in-place prefix copy, and the loop lemmas.
\<close>

unbundle bit_operations_syntax

named_theorems le_simps \<open>little-endian field reads and writes\<close>
named_theorems arena_simps \<open>scans and single-slot updates of a fixed slot array\<close>

type_synonym u8 = "8 word"
type_synonym u16 = "16 word"
type_synonym u32 = "32 word"
type_synonym u64 = "64 word"
type_synonym bytes = "u8 list"

section \<open>Integer arithmetic of the source language\<close>

text \<open>\<open>saturating_add\<close>, \<open>saturating_sub\<close> and \<open>checked_add\<close> of the unsigned integers.\<close>

definition sat_add :: "'a::len word \<Rightarrow> 'a word \<Rightarrow> 'a word" where
  "sat_add a b = (if unat a + unat b < 2 ^ LENGTH('a) then a + b else - 1)"

definition sat_sub :: "'a::len word \<Rightarrow> 'a word \<Rightarrow> 'a word" where
  "sat_sub a b = (if b \<le> a then a - b else 0)"

definition checked_add :: "'a::len word \<Rightarrow> 'a word \<Rightarrow> 'a word option" where
  "checked_add a b = (if unat a + unat b < 2 ^ LENGTH('a) then Some (a + b) else None)"

lemma unat_minus_one_max: "unat (- 1 :: 'a::len word) = 2 ^ LENGTH('a) - 1"
  by (simp add: unsigned_minus_1_eq_mask mask_eq_exp_minus_1)

lemma unat_plus_exact:
  "unat (a::'a::len word) + unat b < 2 ^ LENGTH('a) \<Longrightarrow> unat (a + b) = unat a + unat b"
  by (simp add: unat_word_ariths)

lemma unat_sat_add: "unat (sat_add (a::'a::len word) b) = min (unat a + unat b) (2 ^ LENGTH('a) - 1)"
proof (cases "unat a + unat b < 2 ^ LENGTH('a)")
  case True
  then show ?thesis by (simp add: sat_add_def unat_plus_exact)
next
  case False
  have "(0::nat) < 2 ^ LENGTH('a)" by simp
  with False have "2 ^ LENGTH('a) - 1 \<le> unat a + unat b" by linarith
  with False show ?thesis by (simp add: sat_add_def unat_minus_one_max)
qed

lemma unat_sat_sub: "unat (sat_sub (a::'a::len word) b) = unat a - unat b"
  by (auto simp: sat_sub_def unat_sub word_le_nat_alt)

lemma sat_add_ge: "a \<le> sat_add (a::'a::len word) b"
proof -
  have "unat a < 2 ^ LENGTH('a)" by simp
  then have "unat a \<le> 2 ^ LENGTH('a) - 1" by linarith
  then show ?thesis by (simp add: word_le_nat_alt unat_sat_add)
qed

text \<open>The wrap test the two overflow checks compile to, also what they evaluate by.\<close>

lemma add_wraps_iff: "unat a + unat b < 2 ^ LENGTH('a) \<longleftrightarrow> \<not> a + b < (a::'a::len word)"
proof
  assume "unat a + unat b < 2 ^ LENGTH('a)"
  then have "unat (a + b) = unat a + unat b" by (simp add: unat_word_ariths)
  then show "\<not> a + b < a" by (simp add: word_less_nat_alt)
next
  assume nl: "\<not> a + b < a"
  show "unat a + unat b < 2 ^ LENGTH('a)"
  proof (rule ccontr)
    assume ge: "\<not> unat a + unat b < 2 ^ LENGTH('a)"
    have lt: "unat a < 2 ^ LENGTH('a)" "unat b < 2 ^ LENGTH('a)" by (rule unsigned_less)+
    then have "(unat a + unat b) mod 2 ^ LENGTH('a) = unat a + unat b - 2 ^ LENGTH('a)"
    proof -
      have "(unat a + unat b) mod 2 ^ LENGTH('a) = (unat a + unat b - 2 ^ LENGTH('a)) mod 2 ^ LENGTH('a)"
        using ge by (intro le_mod_geq) simp
      also have "\<dots> = unat a + unat b - 2 ^ LENGTH('a)" using lt by (intro mod_less) linarith
      finally show ?thesis .
    qed
    then have "unat (a + b) = unat a + unat b - 2 ^ LENGTH('a)"
      by (simp add: unat_word_ariths(1))
    then have "unat (a + b) < unat a" using ge lt(2) by linarith
    then have "a + b < a" by (simp add: word_less_nat_alt)
    then show False using nl by simp
  qed
qed

lemma sat_add_code [code]: "sat_add (a::'a::len word) b = (let c = a + b in if c < a then - 1 else c)"
  by (simp add: sat_add_def add_wraps_iff Let_def)

lemma checked_add_code [code]: "checked_add (a::'a::len word) b = (let c = a + b in if c < a then None else Some c)"
  by (simp add: checked_add_def add_wraps_iff Let_def)

lemma checked_add_Some: "checked_add (a::'a::len word) b = Some c \<Longrightarrow> unat c = unat a + unat b"
  by (auto simp: checked_add_def unat_plus_exact split: if_splits)

lemma unat_of_nat_small: "n < 2 ^ LENGTH('a) \<Longrightarrow> unat (word_of_nat n :: 'a::len word) = n"
  by (simp add: unat_of_nat take_bit_nat_eq_self)

lemma unat_ucast_up:
  "LENGTH('a) \<le> LENGTH('b) \<Longrightarrow> unat (ucast (w :: 'a::len word) :: 'b::len word) = unat w"
  by (simp add: unsigned_ucast_eq take_bit_nat_eq_self_iff)
    (meson less_le_trans one_le_numeral power_increasing unsigned_less)

lemma unat_u8_less: "unat (b :: u8) < 256"
  by (rule order_less_le_trans [OF unsigned_less]) simp

section \<open>Little-endian integers\<close>

text \<open>\<open>to_le_bytes\<close> and \<open>from_le_bytes\<close>, through the value the bytes stand for.\<close>

fun nat_to_le :: "nat \<Rightarrow> nat \<Rightarrow> bytes" where
  "nat_to_le 0 v = []"
| "nat_to_le (Suc n) v = word_of_nat (v mod 256) # nat_to_le n (v div 256)"

fun nat_from_le :: "bytes \<Rightarrow> nat" where
  "nat_from_le [] = 0"
| "nat_from_le (b # bs) = unat b + 256 * nat_from_le bs"

definition le_bytes :: "nat \<Rightarrow> 'a::len word \<Rightarrow> bytes" where
  "le_bytes n w = nat_to_le n (unat w)"

definition from_le :: "bytes \<Rightarrow> 'a::len word" where
  "from_le bs = word_of_nat (nat_from_le bs)"

lemma length_nat_to_le [simp]: "length (nat_to_le n v) = n"
  by (induction n arbitrary: v) auto

lemma length_le_bytes [simp, le_simps]: "length (le_bytes n w) = n"
  by (simp add: le_bytes_def)

lemma nat_from_to_le: "nat_from_le (nat_to_le n v) = v mod 256 ^ n"
proof (induction n arbitrary: v)
  case 0
  then show ?case by simp
next
  case (Suc n)
  have "unat (word_of_nat (v mod 256) :: u8) = v mod 256"
    by (rule unat_of_nat_small) simp
  moreover have "v mod (256 * 256 ^ n) = 256 * (v div 256 mod 256 ^ n) + v mod 256"
    by (rule mod_mult2_eq)
  ultimately show ?case by (simp add: Suc)
qed

lemma nat_to_from_le: "nat_to_le (length bs) (nat_from_le bs) = bs"
proof (induction bs)
  case (Cons b bs)
  have "unat b < 256" by (rule unat_u8_less)
  then show ?case using Cons by simp
qed simp

lemma nat_from_le_bound: "nat_from_le bs < 256 ^ length bs"
proof (induction bs)
  case (Cons b bs)
  have "unat b < 256" by (rule unat_u8_less)
  moreover have "Suc (nat_from_le bs) \<le> 256 ^ length bs" using Cons by simp
  then have "256 * Suc (nat_from_le bs) \<le> 256 * 256 ^ length bs"
    by (rule mult_le_mono2)
  ultimately show ?case by simp
qed simp

lemma from_le_bytes:
  assumes "LENGTH('a::len) = 8 * n"
  shows "from_le (le_bytes n (w :: 'a word)) = w"
proof -
  have "(256::nat) ^ n = 2 ^ LENGTH('a)"
    using power_mult [of "2::nat" 8 n] by (simp add: assms)
  then show ?thesis
    by (simp add: from_le_def le_bytes_def nat_from_to_le)
qed

lemma le_bytes_from:
  assumes "length bs = n" and "LENGTH('a::len) = 8 * n"
  shows "le_bytes n (from_le bs :: 'a word) = bs"
proof -
  have "(256::nat) ^ n = 2 ^ LENGTH('a)"
    using power_mult [of "2::nat" 8 n] by (simp add: assms)
  then have "nat_from_le bs < 2 ^ LENGTH('a)"
    using nat_from_le_bound [of bs] assms(1) by simp
  then show ?thesis
    using nat_to_from_le [of bs] assms(1)
    by (simp add: from_le_def le_bytes_def unat_of_nat_small)
qed

lemma from_le_u16 [le_simps]: "from_le (le_bytes 2 (w :: u16)) = w"
  by (rule from_le_bytes) simp

lemma from_le_u32 [le_simps]: "from_le (le_bytes 4 (w :: u32)) = w"
  by (rule from_le_bytes) simp

lemma from_le_u64 [le_simps]: "from_le (le_bytes 8 (w :: u64)) = w"
  by (rule from_le_bytes) simp

section \<open>Slices and fixed buffers\<close>

text \<open>
  \<open>sub_slice bs a n\<close> is \<open>bs[a..a+n]\<close>, where the code has checked the range, and
  \<open>copy_prefix src buf\<close> is \<open>buf[..src.len()].copy_from_slice(src)\<close>: the rest of the buffer
  keeps its bytes.
\<close>

definition sub_slice :: "'a list \<Rightarrow> nat \<Rightarrow> nat \<Rightarrow> 'a list" where
  "sub_slice bs a n = take n (drop a bs)"

definition copy_prefix :: "'a list \<Rightarrow> 'a list \<Rightarrow> 'a list" where
  "copy_prefix src buf = src @ drop (length src) buf"

text \<open>\<open>xs.swap(a, b)\<close>.\<close>

definition swap_lists :: "nat \<Rightarrow> nat \<Rightarrow> 'a list \<Rightarrow> 'a list" where
  "swap_lists a b xs = xs[a := xs ! b, b := xs ! a]"

lemma length_swap_lists [simp]: "length (swap_lists a b xs) = length xs"
  by (simp add: swap_lists_def)

lemma length_copy_prefix [simp]:
  "length src \<le> length buf \<Longrightarrow> length (copy_prefix src buf) = length buf"
  by (simp add: copy_prefix_def)

lemma take_copy_prefix [simp]: "take (length src) (copy_prefix src buf) = src"
  by (simp add: copy_prefix_def)

lemma sub_slice_append1 [simp, le_simps]:
  "a + n \<le> length xs \<Longrightarrow> sub_slice (xs @ ys) a n = sub_slice xs a n"
  by (simp add: sub_slice_def)

lemma sub_slice_append2 [simp, le_simps]:
  "length xs \<le> a \<Longrightarrow> sub_slice (xs @ ys) a n = sub_slice ys (a - length xs) n"
  by (simp add: sub_slice_def)

lemma sub_slice_all [simp, le_simps]: "length xs \<le> n \<Longrightarrow> sub_slice xs 0 n = xs"
  by (simp add: sub_slice_def)

lemma sub_slice_Cons [simp, le_simps]: "0 < a \<Longrightarrow> sub_slice (x # xs) a n = sub_slice xs (a - 1) n"
  by (cases a) (simp_all add: sub_slice_def)

lemma length_sub_slice: "a + n \<le> length xs \<Longrightarrow> length (sub_slice xs a n) = n"
  by (simp add: sub_slice_def)

section \<open>A check of every byte\<close>

fun all_from :: "nat \<Rightarrow> u8 \<Rightarrow> (u8 \<Rightarrow> bool) \<Rightarrow> bool" where
  "all_from 0 b P = True"
| "all_from (Suc n) b P = (P b \<and> all_from n (b + 1) P)"

lemma all_from_iff: "all_from n b P \<longleftrightarrow> (\<forall>i < n. P (b + word_of_nat i))"
proof (induction n arbitrary: b)
  case (Suc n)
  have "(\<forall>i < Suc n. P (b + word_of_nat i)) \<longleftrightarrow> P b \<and> (\<forall>i < n. P (b + 1 + word_of_nat i))"
    by (auto simp: less_Suc_eq_0_disj add.assoc)
  then show ?case using Suc by simp
qed simp

lemma all_bytes: "all_from 256 0 P \<Longrightarrow> P b"
proof -
  assume "all_from 256 0 P"
  then have "P (0 + word_of_nat (unat b))" using unat_u8_less [of b] by (simp only: all_from_iff)
  then show "P b" by simp
qed

section \<open>Scans of a slot array\<close>

text \<open>
  \<open>for s in slots { if P(s) { ... return } }\<close> acts on the first index that satisfies \<open>P\<close>.
\<close>

fun first_index :: "('a \<Rightarrow> bool) \<Rightarrow> 'a list \<Rightarrow> nat option" where
  "first_index P [] = None"
| "first_index P (x # xs) = (if P x then Some 0 else map_option Suc (first_index P xs))"

lemma first_index_None [arena_simps]: "first_index P xs = None \<longleftrightarrow> (\<forall>x \<in> set xs. \<not> P x)"
  by (induction xs) auto

lemma first_index_Some:
  "first_index P xs = Some i \<longleftrightarrow> i < length xs \<and> P (xs ! i) \<and> (\<forall>j < i. \<not> P (xs ! j))"
proof (induction xs arbitrary: i)
  case (Cons x xs)
  show ?case
  proof (cases i)
    case 0
    then show ?thesis by (auto split: if_splits)
  next
    case (Suc j)
    then show ?thesis
      using Cons [of j] by (auto simp: nth_Cons less_Suc_eq_0_disj split: nat.splits if_splits)
  qed
qed simp

lemma first_index_SomeD:
  "first_index P xs = Some i \<Longrightarrow> i < length xs \<and> P (xs ! i)"
  by (simp add: first_index_Some)

lemma find_first_index: "List.find P xs = map_option ((!) xs) (first_index P xs)"
  by (induction xs) (auto simp: option.map_comp comp_def)

lemma first_index_ex: "x \<in> set xs \<Longrightarrow> P x \<Longrightarrow> \<exists>i. first_index P xs = Some i"
  by (metis first_index_None not_None_eq)

section \<open>Counting and summing over a slot array\<close>

lemma filter_length_update:
  assumes "i < length xs"
  shows "length (filter P (xs[i := y])) + (if P (xs ! i) then 1 else 0)
       = length (filter P xs) + (if P y then 1 else 0)"
  using assms
proof (induction xs arbitrary: i)
  case (Cons x xs)
  then show ?case by (cases i) auto
qed simp

lemma sum_list_update_nat:
  assumes "i < length xs"
  shows "sum_list (map f (xs[i := y])) + f (xs ! i) = sum_list (map f xs) + (f y :: nat)"
  using assms
proof (induction xs arbitrary: i)
  case (Cons x xs)
  then show ?case by (cases i) auto
qed simp

lemma mem_sum_list_le: "x \<in> set xs \<Longrightarrow> f x \<le> sum_list (map f xs)" for f :: "'a \<Rightarrow> nat"
  by (induction xs) auto

section \<open>Loops that rewrite a range in place\<close>

text \<open>
  \<open>for p in 0..n { xs[base + p] = g(p, xs[base + p]) }\<close>: every cell of the range is rewritten
  once, from its own old value, and nothing else moves.
\<close>

lemma length_fold_update [simp]:
  "length (fold (\<lambda>p ys. ys[h p := g p ys]) ps xs) = length xs"
  by (induction ps arbitrary: xs) auto

lemma nth_fold_update_other:
  "(\<And>p. p \<in> set ps \<Longrightarrow> h p \<noteq> j) \<Longrightarrow> fold (\<lambda>p ys. ys[h p := g p ys]) ps xs ! j = xs ! j"
  by (induction ps arbitrary: xs) auto

lemma nth_fold_range:
  assumes "\<And>p ys. p < n \<Longrightarrow> length ys = length xs \<Longrightarrow>
      (\<And>j. j < base \<or> base + p \<le> j \<Longrightarrow> ys ! j = xs ! j) \<Longrightarrow> g p ys = r p"
    and "base + n \<le> length xs"
  shows "fold (\<lambda>p ys. ys[base + p := g p ys]) [0..<n] xs ! i
     = (if base \<le> i \<and> i < base + n then r (i - base) else xs ! i)"
  using assms
proof (induction n arbitrary: i)
  case 0
  then show ?case by auto
next
  case (Suc n)
  let ?F = "fold (\<lambda>p ys. ys[base + p := g p ys]) [0..<n] xs"
  have IH: "?F ! j = (if base \<le> j \<and> j < base + n then r (j - base) else xs ! j)" for j
    by (rule Suc.IH) (use Suc.prems in auto)
  have "g n ?F = r n"
    by (rule Suc.prems(1)) (auto simp: IH)
  moreover have "?F[base + n := r n] ! i = (if i = base + n then r n else ?F ! i)"
    using Suc.prems(2) by (auto simp: nth_list_update)
  ultimately show ?case
    by (auto simp: IH)
qed

section \<open>A loop that keeps the best index so far\<close>

definition best_index :: "(nat \<Rightarrow> bool) \<Rightarrow> (nat \<Rightarrow> 'k::linorder) \<Rightarrow> nat \<Rightarrow> nat option" where
  "best_index P f n =
     fold (\<lambda>i best. if \<not> P i then best
                     else (case best of None \<Rightarrow> Some i | Some b \<Rightarrow> if f i < f b then Some i else best))
       [0..<n] None"

lemma best_index_cases:
  "case best_index P f n of
     None \<Rightarrow> \<forall>i < n. \<not> P i
   | Some b \<Rightarrow> b < n \<and> P b \<and> (\<forall>i < n. P i \<longrightarrow> f b \<le> f i)"
proof (induction n)
  case (Suc n)
  have "best_index P f (Suc n) =
      (if \<not> P n then best_index P f n
       else case best_index P f n of None \<Rightarrow> Some n
            | Some b \<Rightarrow> if f n < f b then Some n else best_index P f n)"
    by (simp add: best_index_def split: option.split)
  then show ?case
    using Suc by (auto simp: less_Suc_eq split: option.splits)
qed (simp add: best_index_def)

lemma best_index_None: "best_index P f n = None \<longleftrightarrow> (\<forall>i < n. \<not> P i)"
  using best_index_cases [of n P f] by (auto split: option.splits)

lemma best_index_Some:
  "best_index P f n = Some b \<Longrightarrow> b < n \<and> P b \<and> (\<forall>i < n. P i \<longrightarrow> f b \<le> f i)"
  using best_index_cases [of n P f] by simp

section \<open>A cursor-paged sweep of a slot array\<close>

text \<open>
  \<open>while idx < N && count < max { if P(slots[idx]) { emit(slots[idx]); count += 1 } idx += 1 }\<close>:
  the index the page stopped at and what it emitted.
\<close>

function page_loop ::
  "('s \<Rightarrow> bool) \<Rightarrow> ('s \<Rightarrow> 'a) \<Rightarrow> 's list \<Rightarrow> nat \<Rightarrow> nat \<Rightarrow> nat \<Rightarrow> 'a list \<Rightarrow> nat \<times> 'a list" where
  "page_loop P g slots idx mx count out =
     (if idx < length slots \<and> count < mx then
        (if P (slots ! idx) then page_loop P g slots (idx + 1) mx (count + 1) (out @ [g (slots ! idx)])
         else page_loop P g slots (idx + 1) mx count out)
      else (idx, out))"
  by pat_completeness auto
termination
  by (relation "measure (\<lambda>(P, g, slots, idx, mx, count, out). length slots - idx)") auto

declare page_loop.simps [simp del]

lemma page_loop_spec:
  assumes "idx \<le> length slots"
  shows "case page_loop P g slots idx mx count out of (idx', out') \<Rightarrow>
     idx \<le> idx' \<and> idx' \<le> length slots \<and>
     out' = out @ map g (filter P (sub_slice slots idx (idx' - idx))) \<and>
     (count < mx \<longrightarrow> idx' = length slots \<or> idx < idx' \<and> count + length out' = mx + length out)"
  using assms
proof (induction P g slots idx mx count out rule: page_loop.induct)
  case (1 P g slots idx mx count out)
  show ?case
  proof (cases "idx < length slots \<and> count < mx")
    case False
    then show ?thesis using 1(3) by (subst page_loop.simps) (auto simp: sub_slice_def)
  next
    case True
    let ?s = "slots ! idx"
    have cut: "sub_slice slots idx (n - idx) = ?s # sub_slice slots (Suc idx) (n - Suc idx)"
      if "Suc idx \<le> n" for n
      using True that
      by (simp add: sub_slice_def Cons_nth_drop_Suc [symmetric] Suc_diff_le take_Suc_conv_app_nth flip: Suc_diff_Suc)
    show ?thesis
    proof (cases "P ?s")
      case hit: True
      obtain i' o' where run: "page_loop P g slots (idx + 1) mx (count + 1) (out @ [g ?s]) = (i', o')" by fastforce
      have "page_loop P g slots idx mx count out = (i', o')"
        using True hit run by (subst page_loop.simps) simp
      moreover have "i' = idx + 1 \<and> o' = out @ [g ?s]" if "\<not> count + 1 < mx"
        using run that by (simp add: page_loop.simps)
      moreover note 1(1) [OF True hit]
      ultimately show ?thesis using True hit run cut [of i'] by (cases "count + 1 < mx") auto
    next
      case no: False
      obtain i' o' where run: "page_loop P g slots (idx + 1) mx count out = (i', o')" by fastforce
      have "page_loop P g slots idx mx count out = (i', o')"
        using True no run by (subst page_loop.simps) simp
      then show ?thesis using 1(2) [OF True no] True no run cut [of i'] by auto
    qed
  qed
qed

text \<open>The page's answer: the next cursor, 0 once the sweep has reached the end, and the emitted.\<close>

definition page_answer :: "'s list \<Rightarrow> nat \<times> 'a list \<Rightarrow> u32 \<times> 'a list" where
  "page_answer slots r = (if length slots \<le> fst r then 0 else word_of_nat (fst r), snd r)"

lemma page_tiles:
  assumes "unat (cursor :: u32) \<le> length slots" "length slots < 2 ^ 32" "0 < mx"
    and "page_answer slots (page_loop P g slots (unat cursor) mx 0 []) = (nxt, out)"
  shows "(let stop = (if nxt = 0 then length slots else unat nxt) in
       out = map g (filter P (sub_slice slots (unat cursor) (stop - unat cursor))) \<and>
       (nxt \<noteq> 0 \<longrightarrow> cursor < nxt \<and> length out = mx))"
proof -
  obtain i o' where run: "page_loop P g slots (unat cursor) mx 0 [] = (i, o')" by fastforce
  have p: "unat cursor \<le> i" "i \<le> length slots"
    "o' = map g (filter P (sub_slice slots (unat cursor) (i - unat cursor)))"
    "i = length slots \<or> unat cursor < i \<and> length o' = mx"
    using page_loop_spec [OF assms(1), where P = P and g = g and mx = mx and count = 0 and out = "[]"] assms(3) run by auto
  have w: "unat (word_of_nat i :: u32) = i" using p(2) assms(2) by (simp add: unat_of_nat_small)
  then have "word_of_nat i \<noteq> (0 :: u32)" if "unat cursor < i" using that by (metis gr_implies_not0 unat_0)
  then show ?thesis
    using assms(4) p w by (auto simp: page_answer_def run Let_def word_less_nat_alt split: if_splits)
qed

end
