(* ===== verification/Loam_Limits.thy ===== *)
theory Loam_Limits
  imports Loam_Prelude
begin

text \<open>
  \<open>modules/common/mechanics/loam_limits.rs\<close>: the capacity profiles and the ceilings every
  component takes from them. A build selects exactly one profile; the model takes it as a
  value, and each profiled constant is a function of it.
\<close>

datatype profile = Minimal | Embedded | Node | Server

definition CONSTRAINED :: "profile \<Rightarrow> bool" where
  "CONSTRAINED p \<longleftrightarrow> p = Minimal \<or> p = Embedded"

definition MINIMAL :: "profile \<Rightarrow> bool" where "MINIMAL p \<longleftrightarrow> p = Minimal"
definition SERVER :: "profile \<Rightarrow> bool" where "SERVER p \<longleftrightarrow> p = Server"
definition SNAPSHOT_TIER :: "profile \<Rightarrow> bool" where "SNAPSHOT_TIER p \<longleftrightarrow> \<not> MINIMAL p"

definition MAX_ROOT :: nat where "MAX_ROOT = 64"
definition MAX_OBJECT_ID :: nat where "MAX_OBJECT_ID = 96"
definition MAX_PATH :: "profile \<Rightarrow> nat" where
  "MAX_PATH p = (if CONSTRAINED p then 160 else 1024)"

definition MAX_KEY_STRING :: "profile \<Rightarrow> nat" where
  "MAX_KEY_STRING p =
     (if MAX_OBJECT_ID < MAX_PATH p then (if MAX_ROOT < MAX_PATH p then MAX_PATH p else MAX_ROOT)
      else if MAX_ROOT < MAX_OBJECT_ID then MAX_OBJECT_ID else MAX_ROOT)"

definition NAMESPACE_SLOTS :: "profile \<Rightarrow> nat" where
  "NAMESPACE_SLOTS p = (if MINIMAL p then 64 else if CONSTRAINED p then 256 else 8192)"
definition OBJECT_SLOTS :: "profile \<Rightarrow> nat" where
  "OBJECT_SLOTS p = (if MINIMAL p then 64 else if CONSTRAINED p then 256 else 8192)"
definition BLOCK_SLOTS :: "profile \<Rightarrow> nat" where
  "BLOCK_SLOTS p = (if MINIMAL p then 8 else if CONSTRAINED p then 64 else 1024)"

definition CONTENT_TYPE_MAX :: nat where "CONTENT_TYPE_MAX = 128"
definition KEY_REF_MAX :: nat where "KEY_REF_MAX = 64"
definition LEASE_SLOTS :: nat where "LEASE_SLOTS = 16"
definition LEASE_TTL_MAX_MS :: u32 where "LEASE_TTL_MAX_MS = 300000"

definition OPS_PER_STEP :: "profile \<Rightarrow> nat" where
  "OPS_PER_STEP p = (if SERVER p then 8 else 4)"

record key_too_long =
  ktl_len :: nat
  ktl_max :: nat

definition check_key :: "profile \<Rightarrow> bytes \<Rightarrow> bytes \<Rightarrow> bytes \<Rightarrow> key_too_long + unit" where
  "check_key p namespace_root path object_id =
     (if MAX_ROOT < length namespace_root then
        Inl \<lparr>ktl_len = length namespace_root, ktl_max = MAX_ROOT\<rparr>
      else if MAX_PATH p < length path then
        Inl \<lparr>ktl_len = length path, ktl_max = MAX_PATH p\<rparr>
      else if MAX_OBJECT_ID < length object_id then
        Inl \<lparr>ktl_len = length object_id, ktl_max = MAX_OBJECT_ID\<rparr>
      else Inr ())"

text \<open>The compile-time assertions: every length fits the integer that stores it.\<close>

lemma MAX_ROOT_u8: "MAX_ROOT < 256"
  by (simp add: MAX_ROOT_def)

lemma MAX_OBJECT_ID_u8: "MAX_OBJECT_ID < 256"
  by (simp add: MAX_OBJECT_ID_def)

lemma MAX_PATH_u16: "MAX_PATH p < 65536"
  by (simp add: MAX_PATH_def)

lemma CONTENT_TYPE_MAX_u8: "CONTENT_TYPE_MAX < 256"
  by (simp add: CONTENT_TYPE_MAX_def)

lemma KEY_REF_MAX_u8: "KEY_REF_MAX < 256"
  by (simp add: KEY_REF_MAX_def)

lemma MAX_KEY_STRING_covers:
  "MAX_ROOT \<le> MAX_KEY_STRING p \<and> MAX_PATH p \<le> MAX_KEY_STRING p \<and> MAX_OBJECT_ID \<le> MAX_KEY_STRING p"
  by (simp add: MAX_KEY_STRING_def MAX_ROOT_def MAX_OBJECT_ID_def)

lemma check_key_ok:
  "check_key p r q d = Inr () \<longleftrightarrow>
     length r \<le> MAX_ROOT \<and> length q \<le> MAX_PATH p \<and> length d \<le> MAX_OBJECT_ID"
  by (auto simp: check_key_def)

end
