(* ===== verification/Slot_Arena.thy ===== *)
theory Slot_Arena
  imports Loam_Prelude
begin

text \<open>
  The contract the four slot arrays share (namespace bindings, leases, object descriptors,
  block volumes): a fixed array in which an occupied slot names a key, at most one slot names
  a key, and a scan finds it. \<open>arena_map\<close> is the finite map such an array stands for. A
  component shows that its scan predicate decides the stored key (\<open>hits_key\<close>) and gets
  from the locale what each single-slot write does to the map.
\<close>

definition arena_ok :: "('s \<Rightarrow> bool) \<Rightarrow> ('s \<Rightarrow> 'k option) \<Rightarrow> 's list \<Rightarrow> bool" where
  "arena_ok good key xs \<longleftrightarrow>
     (\<forall>s \<in> set xs. good s) \<and>
     (\<forall>i < length xs. \<forall>j < length xs. key (xs ! i) \<noteq> None \<longrightarrow> key (xs ! i) = key (xs ! j) \<longrightarrow> i = j)"

definition arena_map :: "('k \<Rightarrow> 's \<Rightarrow> bool) \<Rightarrow> 's list \<Rightarrow> 'k \<Rightarrow> 's option" where
  "arena_map hits xs = (\<lambda>k. List.find (hits k) xs)"

lemma arena_ok_wf: "arena_ok good key xs \<Longrightarrow> i < length xs \<Longrightarrow> good (xs ! i)"
  by (simp add: arena_ok_def)

lemma arena_ok_unique:
  "arena_ok good key xs \<Longrightarrow> i < length xs \<Longrightarrow> j < length xs \<Longrightarrow>
   key (xs ! i) = Some k \<Longrightarrow> key (xs ! j) = Some k \<Longrightarrow> i = j"
  by (simp add: arena_ok_def)

lemma arena_ok_distinct:
  assumes "arena_ok good key xs" "\<And>x. P x \<Longrightarrow> key x \<noteq> None"
  shows "distinct (map key (filter P xs))"
  using assms(1)
proof (induction xs)
  case (Cons x xs)
  have tl: "arena_ok good key xs" using Cons.prems unfolding arena_ok_def by (fastforce dest: spec [of _ "Suc _"])
  have "key y \<noteq> key x" if y: "y \<in> set xs" "P x" for y
  proof
    assume eq: "key y = key x"
    obtain i where i: "i < length xs" "xs ! i = y" using y(1) by (auto simp: in_set_conv_nth)
    show False using arena_ok_unique [OF Cons.prems, of 0 "Suc i"] eq i assms(2) [OF y(2)] by auto
  qed
  then show ?case using Cons.IH [OF tl] by force
qed simp

lemma arena_ok_replicate: "good e \<Longrightarrow> key e = None \<Longrightarrow> arena_ok good key (replicate n e)"
  by (auto simp: arena_ok_def)

locale slot_arena =
  fixes key :: "'s \<Rightarrow> 'k option"
    and hits :: "'k \<Rightarrow> 's \<Rightarrow> bool"
    and good :: "'s \<Rightarrow> bool"
  assumes hits_key: "good s \<Longrightarrow> hits k s \<longleftrightarrow> key s = Some k"
begin

lemma scan_Some:
  assumes "arena_ok good key xs"
  shows "first_index (hits k) xs = Some i \<longleftrightarrow> i < length xs \<and> key (xs ! i) = Some k"
proof
  assume "first_index (hits k) xs = Some i"
  then show "i < length xs \<and> key (xs ! i) = Some k"
    using hits_key arena_ok_wf [OF assms] by (auto simp: first_index_Some)
next
  assume i: "i < length xs \<and> key (xs ! i) = Some k"
  have "\<not> hits k (xs ! j)" if "j < i" for j
    using that i hits_key arena_ok_wf [OF assms, of j] arena_ok_unique [OF assms, of i j k] by auto
  then show "first_index (hits k) xs = Some i"
    using i hits_key arena_ok_wf [OF assms] by (simp add: first_index_Some)
qed

lemma scan_None:
  assumes "arena_ok good key xs"
  shows "first_index (hits k) xs = None \<longleftrightarrow> (\<forall>i < length xs. key (xs ! i) \<noteq> Some k)"
proof -
  have "\<forall>s \<in> set xs. hits k s \<longleftrightarrow> key s = Some k"
    using assms hits_key by (simp add: arena_ok_def)
  then show ?thesis
    by (simp add: first_index_None all_set_conv_all_nth)
qed

lemma map_Some:
  assumes "arena_ok good key xs"
  shows "arena_map hits xs k = Some s \<longleftrightarrow> (\<exists>i < length xs. key (xs ! i) = Some k \<and> xs ! i = s)"
  by (auto simp: arena_map_def find_first_index scan_Some [OF assms])

lemma map_None:
  assumes "arena_ok good key xs"
  shows "arena_map hits xs k = None \<longleftrightarrow> (\<forall>i < length xs. key (xs ! i) \<noteq> Some k)"
  by (simp add: arena_map_def find_first_index scan_None [OF assms])

lemma map_at:
  assumes "arena_ok good key xs" "i < length xs" "key (xs ! i) = Some k"
  shows "arena_map hits xs k = Some (xs ! i)"
  using assms(2,3) by (auto simp: map_Some [OF assms(1)])

lemma map_key:
  assumes "arena_ok good key xs" "arena_map hits xs k = Some s"
  shows "key s = Some k" "good s"
  using assms arena_ok_wf [OF assms(1)] by (auto simp: map_Some [OF assms(1)])

lemma put_ok:
  assumes ok: "arena_ok good key xs" and i: "i < length xs" and s: "good s" "key s = Some k"
    and here: "key (xs ! i) = Some k \<or> (\<forall>j < length xs. key (xs ! j) \<noteq> Some k)"
  shows "arena_ok good key (xs[i := s])"
proof -
  have u: "j = i" if "j < length xs" "key (xs ! j) = Some k" for j
    using here that arena_ok_unique [OF ok that(1) i that(2)] by blast
  show ?thesis
    unfolding arena_ok_def
  proof (intro conjI ballI allI impI)
    fix t assume "t \<in> set (xs[i := s])"
    then show "good t"
      using ok s(1) set_update_subset_insert [of xs i s] by (auto simp: arena_ok_def)
  next
    fix a b
    assume ab: "a < length (xs[i := s])" "b < length (xs[i := s])"
      "key (xs[i := s] ! a) \<noteq> None" "key (xs[i := s] ! a) = key (xs[i := s] ! b)"
    then show "a = b"
      using i s u ok by (auto simp: nth_list_update arena_ok_def split: if_splits)
  qed
qed

lemma put_map:
  assumes ok: "arena_ok good key xs" and i: "i < length xs" and s: "good s" "key s = Some k"
    and here: "key (xs ! i) = Some k \<or> key (xs ! i) = None \<and> (\<forall>j < length xs. key (xs ! j) \<noteq> Some k)"
  shows "arena_map hits (xs[i := s]) = (arena_map hits xs)(k \<mapsto> s)"
proof
  fix k'
  have ok': "arena_ok good key (xs[i := s])"
    by (rule put_ok [OF ok i s]) (use here in blast)
  show "arena_map hits (xs[i := s]) k' = ((arena_map hits xs)(k \<mapsto> s)) k'"
  proof (cases "k' = k")
    case True
    then show ?thesis
      using i s by (simp add: map_at [OF ok', of i])
  next
    case False
    have "arena_map hits (xs[i := s]) k' = Some t \<longleftrightarrow> arena_map hits xs k' = Some t" for t
      unfolding map_Some [OF ok'] map_Some [OF ok]
      using False here s i by (metis length_list_update nth_list_update option.inject option.distinct(1))
    then have "arena_map hits (xs[i := s]) k' = arena_map hits xs k'"
      by (metis option.exhaust)
    with False show ?thesis by simp
  qed
qed

lemma del_ok:
  assumes ok: "arena_ok good key xs" and s: "good s" "key s = None"
  shows "arena_ok good key (xs[i := s])"
  unfolding arena_ok_def
proof (intro conjI ballI allI impI)
  fix t assume "t \<in> set (xs[i := s])"
  then show "good t"
    using ok s(1) set_update_subset_insert [of xs i s] by (auto simp: arena_ok_def)
next
  fix a b
  assume ab: "a < length (xs[i := s])" "b < length (xs[i := s])"
    "key (xs[i := s] ! a) \<noteq> None" "key (xs[i := s] ! a) = key (xs[i := s] ! b)"
  then have "a \<noteq> i" "b \<noteq> i" using s(2) by (auto simp: nth_list_update split: if_splits)
  then show "a = b"
    using ok ab by (simp add: arena_ok_def)
qed

lemma del_map:
  assumes ok: "arena_ok good key xs" and i: "i < length xs" and s: "good s" "key s = None"
    and here: "key (xs ! i) = Some k"
  shows "arena_map hits (xs[i := s]) = (arena_map hits xs)(k := None)"
proof
  fix k'
  have ok': "arena_ok good key (xs[i := s])"
    by (rule del_ok [OF ok s])
  show "arena_map hits (xs[i := s]) k' = ((arena_map hits xs)(k := None)) k'"
  proof (cases "k' = k")
    case True
    have "\<forall>j < length (xs[i := s]). key (xs[i := s] ! j) \<noteq> Some k"
      using arena_ok_unique [OF ok _ i _ here] s(2) i by (auto simp: nth_list_update)
    then show ?thesis
      using True by (simp add: map_None [OF ok'])
  next
    case False
    have "arena_map hits (xs[i := s]) k' = Some t \<longleftrightarrow> arena_map hits xs k' = Some t" for t
      unfolding map_Some [OF ok'] map_Some [OF ok]
      using False here s i by (metis length_list_update nth_list_update option.inject option.distinct(1))
    then have "arena_map hits (xs[i := s]) k' = arena_map hits xs k'"
      by (metis option.exhaust)
    with False show ?thesis by simp
  qed
qed

end

end
