(* ===== verification/Namespace_State.thy ===== *)
theory Namespace_State
  imports Loam_Hash Loam_Limits Slot_Arena
begin

text \<open>
  \<open>modules/common/mechanics/namespace_pic_state.rs\<close>, the binding table: the slot as the code
  lays it out (fixed byte buffers with a length each), and every operation of
  \<open>PicNamespaceState\<close>. An operation takes the table and answers the new table with its
  \<open>Result\<close>; a refusal is \<open>Inl\<close>. The slot count \<open>N\<close> is the length of the slot list.
\<close>

section \<open>Data\<close>

datatype kind_code = File | Directory | Object | Volume | Symlink

definition kind_from_u8 :: "u8 \<Rightarrow> kind_code option" where
  "kind_from_u8 b =
     (if b = 0 then Some File else if b = 1 then Some Directory else if b = 2 then Some Object
      else if b = 3 then Some Volume else if b = 4 then Some Symlink else None)"

fun kind_to_u8 :: "kind_code \<Rightarrow> u8" where
  "kind_to_u8 File = 0"
| "kind_to_u8 Directory = 1"
| "kind_to_u8 Object = 2"
| "kind_to_u8 Volume = 3"
| "kind_to_u8 Symlink = 4"

definition KIND_TOMBSTONE :: u8 where "KIND_TOMBSTONE = 0xFE"

record meta =
  m_stamp_ms :: u64
  m_size :: u64
  m_content_type :: bytes
  m_key_ref :: bytes
  m_retain_until_ms :: u64
  m_hold :: bool

definition meta_none :: meta where
  "meta_none = \<lparr>m_stamp_ms = 0, m_size = 0, m_content_type = [], m_key_ref = [],
     m_retain_until_ms = 0, m_hold = False\<rparr>"

definition retained_at :: "u64 \<Rightarrow> bool \<Rightarrow> u64 \<Rightarrow> bool" where
  "retained_at retain_until_ms hold now \<longleftrightarrow>
     hold \<or> (retain_until_ms \<noteq> 0 \<and> now \<le> retain_until_ms)"

record binding_slot =
  bs_namespace_hash :: u64
  bs_path_hash :: u64
  bs_object_id_hash :: u64
  bs_revision :: u64
  bs_kind :: u8
  bs_occupied :: bool
  bs_object_id_bytes :: bytes
  bs_object_id_len :: u8
  bs_path_bytes :: bytes
  bs_path_len :: u16
  bs_root_bytes :: bytes
  bs_root_len :: u8
  bs_snapshotted :: u8
  bs_cmp_emitted :: u8
  bs_expires_at :: u64
  bs_locked :: u8
  bs_change_rev :: u64
  bs_stamp_ms :: u64
  bs_size :: u64
  bs_ctype_bytes :: bytes
  bs_ctype_len :: u8
  bs_key_ref_bytes :: bytes
  bs_key_ref_len :: u8
  bs_retain_until_ms :: u64
  bs_hold :: u8

definition empty_slot :: "profile \<Rightarrow> binding_slot" where
  "empty_slot p = \<lparr>
     bs_namespace_hash = 0, bs_path_hash = 0, bs_object_id_hash = 0, bs_revision = 0,
     bs_kind = 0, bs_occupied = False,
     bs_object_id_bytes = replicate MAX_OBJECT_ID 0, bs_object_id_len = 0,
     bs_path_bytes = replicate (MAX_PATH p) 0, bs_path_len = 0,
     bs_root_bytes = replicate MAX_ROOT 0, bs_root_len = 0,
     bs_snapshotted = 0, bs_cmp_emitted = 0, bs_expires_at = 0, bs_locked = 0,
     bs_change_rev = 0, bs_stamp_ms = 0, bs_size = 0,
     bs_ctype_bytes = replicate CONTENT_TYPE_MAX 0, bs_ctype_len = 0,
     bs_key_ref_bytes = replicate KEY_REF_MAX 0, bs_key_ref_len = 0,
     bs_retain_until_ms = 0, bs_hold = 0\<rparr>"

definition slot_content_type :: "binding_slot \<Rightarrow> bytes" where
  "slot_content_type s = take (min (unat (bs_ctype_len s)) CONTENT_TYPE_MAX) (bs_ctype_bytes s)"

definition slot_key_ref :: "binding_slot \<Rightarrow> bytes" where
  "slot_key_ref s = take (min (unat (bs_key_ref_len s)) KEY_REF_MAX) (bs_key_ref_bytes s)"

definition slot_meta :: "binding_slot \<Rightarrow> meta" where
  "slot_meta s = \<lparr>m_stamp_ms = bs_stamp_ms s, m_size = bs_size s,
     m_content_type = slot_content_type s, m_key_ref = slot_key_ref s,
     m_retain_until_ms = bs_retain_until_ms s, m_hold = (bs_hold s \<noteq> 0)\<rparr>"

definition slot_retained_at :: "binding_slot \<Rightarrow> u64 \<Rightarrow> bool" where
  "slot_retained_at s now \<longleftrightarrow>
     bs_occupied s \<and> bs_kind s \<noteq> KIND_TOMBSTONE \<and>
     retained_at (bs_retain_until_ms s) (bs_hold s \<noteq> 0) now"

definition set_meta :: "meta \<Rightarrow> binding_slot \<Rightarrow> binding_slot" where
  "set_meta m s =
     (let n = min (length (m_content_type m)) CONTENT_TYPE_MAX;
          k = min (length (m_key_ref m)) KEY_REF_MAX
      in s\<lparr>bs_stamp_ms := m_stamp_ms m, bs_size := m_size m,
           bs_ctype_bytes := copy_prefix (take n (m_content_type m)) (bs_ctype_bytes s),
           bs_ctype_len := word_of_nat n,
           bs_key_ref_bytes := copy_prefix (take k (m_key_ref m)) (bs_key_ref_bytes s),
           bs_key_ref_len := word_of_nat k,
           bs_retain_until_ms := m_retain_until_ms m,
           bs_hold := (if m_hold m then 1 else 0)\<rparr>)"

definition slot_root :: "binding_slot \<Rightarrow> bytes" where
  "slot_root s = take (unat (bs_root_len s)) (bs_root_bytes s)"

definition slot_path :: "binding_slot \<Rightarrow> bytes" where
  "slot_path s = take (unat (bs_path_len s)) (bs_path_bytes s)"

definition slot_object_id :: "binding_slot \<Rightarrow> bytes" where
  "slot_object_id s =
     (let len = unat (bs_object_id_len s) in
      if len = 0 \<or> MAX_OBJECT_ID < len then [] else take len (bs_object_id_bytes s))"

definition slot_matches :: "u64 \<Rightarrow> u64 \<Rightarrow> bytes \<Rightarrow> bytes \<Rightarrow> binding_slot \<Rightarrow> bool" where
  "slot_matches namespace_hash path_hash root path s \<longleftrightarrow>
     bs_occupied s \<and> bs_namespace_hash s = namespace_hash \<and> bs_path_hash s = path_hash \<and>
     slot_root s = root \<and> slot_path s = path"

definition binds_same :: "binding_slot \<Rightarrow> u64 \<Rightarrow> bytes \<Rightarrow> u8 \<Rightarrow> bool" where
  "binds_same s object_id_hash object_id kind \<longleftrightarrow>
     (if bs_kind s \<noteq> kind \<or> bs_object_id_hash s \<noteq> object_id_hash then False
      else if slot_object_id s = [] then True
      else slot_object_id s = object_id)"

datatype ns_error =
  AlreadyBound | NotBound | DestinationOccupied | OutOfCapacity | Locked | KeyTooLong

datatype ns_ok = Bound u64 | Renamed u64 | Unbound

type_synonym ns_result = "ns_error + ns_ok"

definition key_fits :: "profile \<Rightarrow> bytes \<Rightarrow> bytes \<Rightarrow> bytes \<Rightarrow> bool" where
  "key_fits p namespace_root path object_id \<longleftrightarrow>
     length namespace_root \<le> MAX_ROOT \<and> length path \<le> MAX_PATH p \<and>
     length object_id \<le> MAX_OBJECT_ID"

definition key_hash :: "bytes \<Rightarrow> bytes \<Rightarrow> u64 \<times> u64" where
  "key_hash namespace_root path = (fnv1a64 namespace_root, fnv1a64 path)"

record ns_state =
  ns_slots :: "binding_slot list"
  ns_change_seq :: u64
  ns_change_horizon :: u64

definition ns_new :: "profile \<Rightarrow> nat \<Rightarrow> ns_state" where
  "ns_new p n = \<lparr>ns_slots = replicate n (empty_slot p), ns_change_seq = 0, ns_change_horizon = 0\<rparr>"

definition forget_change :: "u64 \<Rightarrow> ns_state \<Rightarrow> ns_state" where
  "forget_change c st =
     (if ns_change_horizon st < c then st\<lparr>ns_change_horizon := c\<rparr> else st)"

definition key_hits :: "bytes \<times> bytes \<Rightarrow> binding_slot \<Rightarrow> bool" where
  \<comment> \<open>\<open>matches\<close> with the hashes every caller computes from the key it passes\<close>
  "key_hits k s =
     (let (ns_h, p_h) = key_hash (fst k) (snd k) in slot_matches ns_h p_h (fst k) (snd k) s)"

section \<open>Operations\<close>

definition ns_len :: "ns_state \<Rightarrow> nat" where
  "ns_len st = length (filter bs_occupied (ns_slots st))"

definition lookup_hashed :: "ns_state \<Rightarrow> u64 \<Rightarrow> u64 \<Rightarrow> bytes \<Rightarrow> bytes \<Rightarrow> binding_slot option" where
  "lookup_hashed st namespace_hash path_hash root path =
     List.find (slot_matches namespace_hash path_hash root path) (ns_slots st)"

definition ns_lookup :: "ns_state \<Rightarrow> bytes \<Rightarrow> bytes \<Rightarrow> binding_slot option" where
  "ns_lookup st namespace_root path =
     (let (ns_h, p_h) = key_hash namespace_root path in
      lookup_hashed st ns_h p_h namespace_root path)"

definition set_slot :: "ns_state \<Rightarrow> nat \<Rightarrow> binding_slot \<Rightarrow> u64 \<Rightarrow> ns_state" where
  \<comment> \<open>\<open>*s = slot; self.change_seq = seq\<close>\<close>
  "set_slot st i s seq = st\<lparr>ns_slots := (ns_slots st)[i := s], ns_change_seq := seq\<rparr>"

definition put_object_id :: "bytes \<Rightarrow> binding_slot \<Rightarrow> binding_slot" where
  \<comment> \<open>\<open>object_id_len = 0\<close>, then the bytes and their length when there are any\<close>
  "put_object_id object_id s =
     (if object_id = [] then s\<lparr>bs_object_id_len := 0\<rparr>
      else s\<lparr>bs_object_id_bytes := copy_prefix object_id (bs_object_id_bytes s),
             bs_object_id_len := word_of_nat (length object_id)\<rparr>)"

definition put_path :: "bytes \<Rightarrow> binding_slot \<Rightarrow> binding_slot" where
  "put_path path s =
     (if path = [] then s
      else s\<lparr>bs_path_bytes := copy_prefix path (bs_path_bytes s),
             bs_path_len := word_of_nat (length path)\<rparr>)"

definition put_root :: "bytes \<Rightarrow> binding_slot \<Rightarrow> binding_slot" where
  "put_root root s =
     (if root = [] then s
      else s\<lparr>bs_root_bytes := copy_prefix root (bs_root_bytes s),
             bs_root_len := word_of_nat (length root)\<rparr>)"

definition ns_bind ::
  "profile \<Rightarrow> ns_state \<Rightarrow> bytes \<Rightarrow> bytes \<Rightarrow> bytes \<Rightarrow> u8 \<Rightarrow> u64 \<Rightarrow> meta \<Rightarrow> ns_state \<times> ns_result" where
  "ns_bind p st namespace_root path object_id kind revision meta =
     (if \<not> key_fits p namespace_root path object_id
         \<or> CONTENT_TYPE_MAX < length (m_content_type meta)
         \<or> KEY_REF_MAX < length (m_key_ref meta) then (st, Inl KeyTooLong)
      else
        let (ns_h, p_h) = key_hash namespace_root path;
            oid_h = fnv1a64 object_id;
            seq = ns_change_seq st + 1
        in case first_index (slot_matches ns_h p_h namespace_root path) (ns_slots st) of
             Some i \<Rightarrow>
               (let s = ns_slots st ! i in
                if bs_locked s \<noteq> 0 \<and> \<not> binds_same s oid_h object_id kind then (st, Inl Locked)
                else if revision = bs_revision s \<and> binds_same s oid_h object_id kind then
                  (st, Inr (Bound revision))
                else if bs_revision s < revision then
                  (set_slot st i
                     ((set_meta meta (put_object_id object_id
                        (s\<lparr>bs_object_id_hash := oid_h, bs_revision := revision, bs_kind := kind,
                           bs_snapshotted := 0, bs_cmp_emitted := 0\<rparr>)))
                      \<lparr>bs_change_rev := seq\<rparr>) seq,
                   Inr (Bound revision))
                else (st, Inl AlreadyBound))
           | None \<Rightarrow>
               (case first_index (\<lambda>s. \<not> bs_occupied s) (ns_slots st) of
                  Some i \<Rightarrow>
                    (set_slot st i
                       ((set_meta meta (put_root namespace_root (put_path path (put_object_id object_id
                          ((empty_slot p)\<lparr>bs_namespace_hash := ns_h, bs_path_hash := p_h,
                             bs_object_id_hash := oid_h, bs_revision := revision, bs_kind := kind,
                             bs_occupied := True\<rparr>)))))
                        \<lparr>bs_change_rev := seq\<rparr>) seq,
                     Inr (Bound revision))
                | None \<Rightarrow> (st, Inl OutOfCapacity)))"

definition ns_commit_bind ::
  "profile \<Rightarrow> ns_state \<Rightarrow> bytes \<Rightarrow> bytes \<Rightarrow> bytes \<Rightarrow> u8 \<Rightarrow> u64 \<Rightarrow> meta \<Rightarrow> ns_state \<times> ns_result" where
  "ns_commit_bind p st namespace_root path object_id kind revision meta =
     (if \<not> key_fits p namespace_root path object_id
         \<or> CONTENT_TYPE_MAX < length (m_content_type meta)
         \<or> KEY_REF_MAX < length (m_key_ref meta) then (st, Inl KeyTooLong)
      else
        let (ns_h, p_h) = key_hash namespace_root path;
            oid_h = fnv1a64 object_id;
            seq = ns_change_seq st + 1
        in case first_index (slot_matches ns_h p_h namespace_root path) (ns_slots st) of
             Some i \<Rightarrow>
               (let s = ns_slots st ! i in
                if bs_locked s \<noteq> 0 then (st, Inl Locked)
                else
                  (set_slot st i
                     ((set_meta meta (put_object_id object_id
                        (s\<lparr>bs_object_id_hash := oid_h, bs_revision := revision, bs_kind := kind,
                           bs_snapshotted := 0, bs_cmp_emitted := 0, bs_expires_at := 0\<rparr>)))
                      \<lparr>bs_change_rev := seq\<rparr>) seq,
                   Inr (Bound revision)))
           | None \<Rightarrow> ns_bind p st namespace_root path object_id kind revision meta)"

text \<open>
  The scan of \<open>rename\<close>: the source's slot, a tombstone at the destination, the first free
  slot; a live destination ends it at once.
\<close>

fun rename_scan ::
  "(binding_slot \<Rightarrow> bool) \<Rightarrow> (binding_slot \<Rightarrow> bool) \<Rightarrow> binding_slot list \<Rightarrow> nat \<Rightarrow>
   nat option \<times> nat option \<times> nat option \<Rightarrow> ns_error + (nat option \<times> nat option \<times> nat option)" where
  "rename_scan is_from is_to [] i acc = Inr acc"
| "rename_scan is_from is_to (s # ss) i (src_at, dst_at, free_at) =
     (if is_from s then rename_scan is_from is_to ss (Suc i) (Some i, dst_at, free_at)
      else if is_to s then
        (if bs_kind s \<noteq> KIND_TOMBSTONE then Inl DestinationOccupied
         else rename_scan is_from is_to ss (Suc i) (src_at, Some i, free_at))
      else if \<not> bs_occupied s \<and> free_at = None then
        rename_scan is_from is_to ss (Suc i) (src_at, dst_at, Some i)
      else rename_scan is_from is_to ss (Suc i) (src_at, dst_at, free_at))"

definition move_slot :: "profile \<Rightarrow> bytes \<Rightarrow> u64 \<Rightarrow> u64 \<Rightarrow> binding_slot \<Rightarrow> binding_slot" where
  "move_slot p to to_rev seq src =
     src\<lparr>bs_path_hash := fnv1a64 to, bs_revision := to_rev, bs_snapshotted := 0,
         bs_cmp_emitted := 0, bs_path_bytes := copy_prefix to (replicate (MAX_PATH p) 0),
         bs_path_len := word_of_nat (length to), bs_change_rev := seq\<rparr>"

definition entomb :: "u64 \<Rightarrow> u64 \<Rightarrow> binding_slot \<Rightarrow> binding_slot" where
  \<comment> \<open>what \<open>rename\<close> and \<open>tombstone\<close> both write into a slot they delete in place\<close>
  "entomb revision seq s =
     (set_meta meta_none
        (s\<lparr>bs_kind := KIND_TOMBSTONE, bs_revision := revision, bs_object_id_hash := 0,
           bs_object_id_len := 0\<rparr>))
     \<lparr>bs_snapshotted := 0, bs_cmp_emitted := 0, bs_change_rev := seq\<rparr>"

definition ns_rename ::
  "profile \<Rightarrow> ns_state \<Rightarrow> bytes \<Rightarrow> bytes \<Rightarrow> bytes \<Rightarrow> u64 \<Rightarrow> ns_state \<times> ns_result" where
  "ns_rename p st namespace_root from to new_revision =
     (if \<not> key_fits p namespace_root from [] \<or> \<not> key_fits p namespace_root to [] then
        (st, Inl KeyTooLong)
      else
        let (ns_h, from_h) = key_hash namespace_root from;
            (_, to_h) = key_hash namespace_root to
        in case rename_scan (slot_matches ns_h from_h namespace_root from)
                  (slot_matches ns_h to_h namespace_root to) (ns_slots st) 0 (None, None, None) of
             Inl e \<Rightarrow> (st, Inl e)
           | Inr (src_at, dst_at, free_at) \<Rightarrow>
               (case src_at of
                  None \<Rightarrow> (st, Inl NotBound)
                | Some si \<Rightarrow>
                    (let src = ns_slots st ! si in
                     if bs_kind src = KIND_TOMBSTONE then (st, Inl NotBound)
                     else if bs_locked src \<noteq> 0 then (st, Inl Locked)
                     else
                       let to_rev =
                             (case dst_at of
                                Some d \<Rightarrow>
                                  (if new_revision \<le> bs_revision (ns_slots st ! d)
                                   then bs_revision (ns_slots st ! d) + 1 else new_revision)
                              | None \<Rightarrow> new_revision)
                       in case (case dst_at of Some d \<Rightarrow> Some d | None \<Rightarrow> free_at) of
                            None \<Rightarrow> (st, Inl OutOfCapacity)
                          | Some dst \<Rightarrow>
                              (let seq = ns_change_seq st + 1;
                                   slots1 = (ns_slots st)[dst := move_slot p to to_rev seq src];
                                   slots2 = slots1[si := (entomb new_revision (seq + 1) (slots1 ! si))
                                                         \<lparr>bs_expires_at := 0\<rparr>]
                               in (st\<lparr>ns_slots := slots2, ns_change_seq := seq + 1\<rparr>,
                                   Inr (Renamed new_revision))))))"

definition object_id_referenced :: "ns_state \<Rightarrow> bytes \<Rightarrow> bool" where
  "object_id_referenced st object_id =
     (let h = fnv1a64 object_id in
      list_ex (\<lambda>s. bs_occupied s \<and> bs_kind s \<noteq> KIND_TOMBSTONE \<and> bs_object_id_hash s = h \<and>
                   (bs_object_id_len s = 0 \<or> slot_object_id s = object_id)) (ns_slots st))"

definition ns_tombstone ::
  "profile \<Rightarrow> ns_state \<Rightarrow> bytes \<Rightarrow> bytes \<Rightarrow> u64 \<Rightarrow> ns_state \<times> ns_result" where
  "ns_tombstone p st namespace_root path revision =
     (if \<not> key_fits p namespace_root path [] then (st, Inl KeyTooLong)
      else
        let seq = ns_change_seq st + 1;
            (ns_h, p_h) = key_hash namespace_root path
        in case first_index (slot_matches ns_h p_h namespace_root path) (ns_slots st) of
             Some i \<Rightarrow>
               (let s = ns_slots st ! i in
                if bs_locked s \<noteq> 0 then (st, Inl Locked)
                else (set_slot st i (entomb revision seq s) seq, Inr Unbound))
           | None \<Rightarrow>
               (case first_index (\<lambda>s. \<not> bs_occupied s) (ns_slots st) of
                  Some i \<Rightarrow>
                    (set_slot st i
                       ((put_root namespace_root (put_path path
                          ((empty_slot p)\<lparr>bs_namespace_hash := ns_h, bs_path_hash := p_h,
                             bs_revision := revision, bs_kind := KIND_TOMBSTONE,
                             bs_occupied := True\<rparr>)))
                        \<lparr>bs_change_rev := seq\<rparr>) seq,
                     Inr Unbound)
                | None \<Rightarrow> (st, Inl OutOfCapacity)))"

definition edit_live ::
  "ns_state \<Rightarrow> bytes \<Rightarrow> bytes \<Rightarrow> (binding_slot \<Rightarrow> binding_slot) \<Rightarrow> ns_state \<times> ns_result" where
  \<comment> \<open>the loop \<open>set_expiry\<close> and \<open>set_lock\<close> share: edit the live slot of the key in place\<close>
  "edit_live st namespace_root path f =
     (let (ns_h, p_h) = key_hash namespace_root path in
      case first_index (\<lambda>s. slot_matches ns_h p_h namespace_root path s \<and> bs_kind s \<noteq> KIND_TOMBSTONE)
             (ns_slots st) of
        Some i \<Rightarrow>
          (let s = ns_slots st ! i in
           (st\<lparr>ns_slots := (ns_slots st)[i := f s]\<rparr>, Inr (Bound (bs_revision s))))
      | None \<Rightarrow> (st, Inl NotBound))"

definition ns_set_expiry :: "ns_state \<Rightarrow> bytes \<Rightarrow> bytes \<Rightarrow> u64 \<Rightarrow> ns_state \<times> ns_result" where
  "ns_set_expiry st namespace_root path t =
     edit_live st namespace_root path (\<lambda>s. s\<lparr>bs_expires_at := t\<rparr>)"

definition ns_set_lock :: "ns_state \<Rightarrow> bytes \<Rightarrow> bytes \<Rightarrow> bool \<Rightarrow> ns_state \<times> ns_result" where
  "ns_set_lock st namespace_root path locked =
     edit_live st namespace_root path (\<lambda>s. s\<lparr>bs_locked := (if locked then 1 else 0)\<rparr>)"

definition ns_is_locked :: "ns_state \<Rightarrow> bytes \<Rightarrow> bytes \<Rightarrow> bool" where
  "ns_is_locked st namespace_root path =
     (case ns_lookup st namespace_root path of Some s \<Rightarrow> bs_locked s \<noteq> 0 | None \<Rightarrow> False)"

definition slot_expired :: "u64 \<Rightarrow> binding_slot \<Rightarrow> bool" where
  "slot_expired now s \<longleftrightarrow>
     bs_occupied s \<and> bs_kind s \<noteq> KIND_TOMBSTONE \<and> bs_locked s = 0 \<and>
     \<not> slot_retained_at s now \<and> bs_expires_at s \<noteq> 0 \<and> bs_expires_at s \<le> now"

definition expired_page :: "ns_state \<Rightarrow> u64 \<Rightarrow> u32 \<Rightarrow> nat \<Rightarrow> u32 \<times> (bytes \<times> bytes) list" where
  \<comment> \<open>the keys emitted are answered as a list, in the order they are emitted\<close>
  "expired_page st now cursor mx =
     page_answer (ns_slots st)
       (page_loop (slot_expired now) (\<lambda>s. (slot_root s, slot_path s)) (ns_slots st) (unat cursor) mx 0 [])"

definition is_expired :: "ns_state \<Rightarrow> bytes \<Rightarrow> bytes \<Rightarrow> u64 \<Rightarrow> bool" where
  "is_expired st namespace_root path now =
     (case ns_lookup st namespace_root path of
        Some s \<Rightarrow> bs_locked s = 0 \<and> \<not> slot_retained_at s now \<and> bs_expires_at s \<noteq> 0 \<and>
                  bs_expires_at s \<le> now
      | None \<Rightarrow> False)"

definition ns_evict :: "profile \<Rightarrow> ns_state \<Rightarrow> (bytes \<times> bytes) option \<Rightarrow> ns_state \<times> bool" where
  \<comment> \<open>\<open>evict_one_snapshotted_sparing\<close>; \<open>evict_one_snapshotted\<close> is \<open>spare = None\<close>\<close>
  "ns_evict p st spare =
     (case first_index
             (\<lambda>s. \<not> (case spare of None \<Rightarrow> False | Some k \<Rightarrow> key_hits k s) \<and>
                  \<not> bs_locked s \<noteq> 0 \<and> bs_occupied s \<and> bs_snapshotted s \<noteq> 0) (ns_slots st) of
        Some i \<Rightarrow>
          (forget_change (bs_change_rev (ns_slots st ! i))
             (st\<lparr>ns_slots := (ns_slots st)[i := empty_slot p]\<rparr>), True)
      | None \<Rightarrow> (st, False))"

definition dirty_count :: "ns_state \<Rightarrow> nat" where
  "dirty_count st = length (filter (\<lambda>s. bs_occupied s \<and> bs_snapshotted s = 0) (ns_slots st))"

definition mark_emitted :: "ns_state \<Rightarrow> nat \<Rightarrow> u8 \<Rightarrow> ns_state" where
  "mark_emitted st i tag =
     (if i < length (ns_slots st)
      then st\<lparr>ns_slots := (ns_slots st)[i := (ns_slots st ! i)\<lparr>bs_cmp_emitted := tag\<rparr>]\<rparr>
      else st)"

definition finalize_emitted :: "ns_state \<Rightarrow> u8 \<Rightarrow> ns_state" where
  "finalize_emitted st tag =
     st\<lparr>ns_slots := map (\<lambda>s. if bs_occupied s \<and> bs_cmp_emitted s = tag
                             then s\<lparr>bs_snapshotted := 1, bs_cmp_emitted := 0\<rparr> else s)
                     (ns_slots st)\<rparr>"

text \<open>The two selections of a smallest key: the loop carries the best index so far.\<close>

definition min_key_above :: "ns_state \<Rightarrow> (bytes \<times> bytes) option \<Rightarrow> nat option" where
  "min_key_above st after =
     fold (\<lambda>i best.
        let s = ns_slots st ! i in
        if \<not> bs_occupied s then best
        else if (case after of
                   None \<Rightarrow> False
                 | Some (ar, ap) \<Rightarrow> key_cmp (slot_root s) (slot_path s) ar ap \<noteq> Greater) then best
        else
          (case best of
             None \<Rightarrow> Some i
           | Some b \<Rightarrow>
               (let bs = ns_slots st ! b in
                if key_cmp (slot_root s) (slot_path s) (slot_root bs) (slot_path bs) = Less
                then Some i else best)))
       [0..<length (ns_slots st)] None"

definition next_listed :: "ns_state \<Rightarrow> bytes \<Rightarrow> bytes \<Rightarrow> bytes \<Rightarrow> nat option" where
  "next_listed st namespace_root prefix after =
     fold (\<lambda>i best.
        let s = ns_slots st ! i in
        if \<not> bs_occupied s \<or> bs_path_len s = 0 \<or> slot_root s \<noteq> namespace_root then best
        else if take (length prefix) (slot_path s) \<noteq> prefix
                \<or> bytes_cmp (slot_path s) after \<noteq> Greater then best
        else
          (case best of
             None \<Rightarrow> Some i
           | Some b \<Rightarrow>
               (if bytes_cmp (slot_path s) (slot_path (ns_slots st ! b)) = Less
                then Some i else best)))
       [0..<length (ns_slots st)] None"

end
