(* ===== verification/Namespace_Inv.thy ===== *)
theory Namespace_Inv
  imports Namespace_State
begin

text \<open>
  The binding table's invariant and the map it stands for. \<open>slot_ok\<close> says a slot is whole: its
  buffers have their declared sizes, its lengths fit them, an occupied slot's hashes are those
  of the key bytes it stores. \<open>ns_ok\<close> adds that no two occupied slots name the same key. The
  interpretation of \<open>slot_arena\<close> turns the table into the map \<open>ns_map\<close> from keys to slots,
  and \<open>ns_view\<close> forgets what a reader of a binding cannot see.
\<close>

named_theorems slot_simps \<open>what the slot writers leave in each field\<close>

section \<open>Field lemmas\<close>

definition slot_key :: "binding_slot \<Rightarrow> (bytes \<times> bytes) option" where
  "slot_key s = (if bs_occupied s then Some (slot_root s, slot_path s) else None)"

definition slot_ok :: "profile \<Rightarrow> binding_slot \<Rightarrow> bool" where
  "slot_ok p s \<longleftrightarrow>
     length (bs_object_id_bytes s) = MAX_OBJECT_ID \<and> unat (bs_object_id_len s) \<le> MAX_OBJECT_ID \<and>
     length (bs_path_bytes s) = MAX_PATH p \<and> unat (bs_path_len s) \<le> MAX_PATH p \<and>
     length (bs_root_bytes s) = MAX_ROOT \<and> unat (bs_root_len s) \<le> MAX_ROOT \<and>
     length (bs_ctype_bytes s) = CONTENT_TYPE_MAX \<and> unat (bs_ctype_len s) \<le> CONTENT_TYPE_MAX \<and>
     length (bs_key_ref_bytes s) = KEY_REF_MAX \<and> unat (bs_key_ref_len s) \<le> KEY_REF_MAX \<and>
     (bs_occupied s \<longrightarrow> bs_namespace_hash s = fnv1a64 (slot_root s) \<and>
                        bs_path_hash s = fnv1a64 (slot_path s)) \<and>
     (bs_occupied s \<and> bs_kind s \<noteq> KIND_TOMBSTONE \<longrightarrow>
        bs_object_id_hash s = fnv1a64 (slot_object_id s))"

lemma key_hits_key: "slot_ok p s \<Longrightarrow> key_hits k s \<longleftrightarrow> slot_key s = Some k"
  by (cases k) (auto simp: key_hits_def key_hash_def slot_matches_def slot_key_def slot_ok_def)

lemma key_hits_pair: "key_hits (r, q) = slot_matches (fnv1a64 r) (fnv1a64 q) r q"
  by (rule ext) (simp add: key_hits_def key_hash_def)

interpretation ns: slot_arena slot_key key_hits "slot_ok p" for p
  by unfold_locales (rule key_hits_key)

definition ns_ok :: "profile \<Rightarrow> ns_state \<Rightarrow> bool" where
  "ns_ok p st \<longleftrightarrow> arena_ok (slot_ok p) slot_key (ns_slots st)"

definition ns_map :: "ns_state \<Rightarrow> bytes \<times> bytes \<Rightarrow> binding_slot option" where
  "ns_map st = arena_map key_hits (ns_slots st)"

lemma ns_lookup_map: "ns_lookup st r q = ns_map st (r, q)"
  by (simp add: ns_lookup_def lookup_hashed_def ns_map_def arena_map_def key_hash_def key_hits_pair)

lemma set_meta_frame [simp, slot_simps]:
  "bs_namespace_hash (set_meta m s) = bs_namespace_hash s"
  "bs_path_hash (set_meta m s) = bs_path_hash s"
  "bs_object_id_hash (set_meta m s) = bs_object_id_hash s"
  "bs_revision (set_meta m s) = bs_revision s"
  "bs_kind (set_meta m s) = bs_kind s"
  "bs_occupied (set_meta m s) = bs_occupied s"
  "bs_object_id_bytes (set_meta m s) = bs_object_id_bytes s"
  "bs_object_id_len (set_meta m s) = bs_object_id_len s"
  "bs_path_bytes (set_meta m s) = bs_path_bytes s"
  "bs_path_len (set_meta m s) = bs_path_len s"
  "bs_root_bytes (set_meta m s) = bs_root_bytes s"
  "bs_root_len (set_meta m s) = bs_root_len s"
  "bs_snapshotted (set_meta m s) = bs_snapshotted s"
  "bs_cmp_emitted (set_meta m s) = bs_cmp_emitted s"
  "bs_expires_at (set_meta m s) = bs_expires_at s"
  "bs_locked (set_meta m s) = bs_locked s"
  "bs_change_rev (set_meta m s) = bs_change_rev s"
  "slot_root (set_meta m s) = slot_root s"
  "slot_path (set_meta m s) = slot_path s"
  "slot_object_id (set_meta m s) = slot_object_id s"
  by (simp_all add: set_meta_def Let_def slot_root_def slot_path_def slot_object_id_def)

lemma put_object_id_frame [simp, slot_simps]:
  "bs_namespace_hash (put_object_id d s) = bs_namespace_hash s"
  "bs_path_hash (put_object_id d s) = bs_path_hash s"
  "bs_object_id_hash (put_object_id d s) = bs_object_id_hash s"
  "bs_revision (put_object_id d s) = bs_revision s"
  "bs_kind (put_object_id d s) = bs_kind s"
  "bs_occupied (put_object_id d s) = bs_occupied s"
  "bs_path_bytes (put_object_id d s) = bs_path_bytes s"
  "bs_path_len (put_object_id d s) = bs_path_len s"
  "bs_root_bytes (put_object_id d s) = bs_root_bytes s"
  "bs_root_len (put_object_id d s) = bs_root_len s"
  "bs_ctype_bytes (put_object_id d s) = bs_ctype_bytes s"
  "bs_ctype_len (put_object_id d s) = bs_ctype_len s"
  "bs_key_ref_bytes (put_object_id d s) = bs_key_ref_bytes s"
  "bs_key_ref_len (put_object_id d s) = bs_key_ref_len s"
  "bs_expires_at (put_object_id d s) = bs_expires_at s"
  "bs_locked (put_object_id d s) = bs_locked s"
  "slot_root (put_object_id d s) = slot_root s"
  "slot_path (put_object_id d s) = slot_path s"
  by (simp_all add: put_object_id_def slot_root_def slot_path_def)

lemma put_key_frame [simp, slot_simps]:
  "bs_occupied (put_root r (put_path q s)) = bs_occupied s"
  "bs_namespace_hash (put_root r (put_path q s)) = bs_namespace_hash s"
  "bs_path_hash (put_root r (put_path q s)) = bs_path_hash s"
  "bs_object_id_hash (put_root r (put_path q s)) = bs_object_id_hash s"
  "bs_kind (put_root r (put_path q s)) = bs_kind s"
  "bs_revision (put_root r (put_path q s)) = bs_revision s"
  "bs_locked (put_root r (put_path q s)) = bs_locked s"
  "bs_expires_at (put_root r (put_path q s)) = bs_expires_at s"
  "bs_object_id_bytes (put_root r (put_path q s)) = bs_object_id_bytes s"
  "bs_object_id_len (put_root r (put_path q s)) = bs_object_id_len s"
  "bs_ctype_bytes (put_root r (put_path q s)) = bs_ctype_bytes s"
  "bs_ctype_len (put_root r (put_path q s)) = bs_ctype_len s"
  "bs_key_ref_bytes (put_root r (put_path q s)) = bs_key_ref_bytes s"
  "bs_key_ref_len (put_root r (put_path q s)) = bs_key_ref_len s"
  "slot_object_id (put_root r (put_path q s)) = slot_object_id s"
  by (simp_all add: put_root_def put_path_def slot_object_id_def Let_def)

lemma small_lens:
  "n \<le> MAX_OBJECT_ID \<Longrightarrow> unat (word_of_nat n :: u8) = n"
  "n \<le> MAX_ROOT \<Longrightarrow> unat (word_of_nat n :: u8) = n"
  "n \<le> CONTENT_TYPE_MAX \<Longrightarrow> unat (word_of_nat n :: u8) = n"
  "n \<le> KEY_REF_MAX \<Longrightarrow> unat (word_of_nat n :: u8) = n"
  "n \<le> MAX_PATH p \<Longrightarrow> unat (word_of_nat n :: u16) = n"
  using MAX_OBJECT_ID_u8 MAX_ROOT_u8 CONTENT_TYPE_MAX_u8 KEY_REF_MAX_u8 MAX_PATH_u16 [of p]
  by (simp_all add: unat_of_nat_small)

lemma slot_object_id_put [slot_simps]:
  assumes "length d \<le> MAX_OBJECT_ID"
  shows "slot_object_id (put_object_id d s) = d"
  using assms small_lens(1) [OF assms]
  by (auto simp: slot_object_id_def put_object_id_def Let_def)

lemma slot_object_id_put_len [slot_simps]:
  assumes "length d \<le> MAX_OBJECT_ID"
  shows "unat (bs_object_id_len (put_object_id d s)) = length d"
  using small_lens(1) [OF assms] by (simp add: put_object_id_def)

lemma length_object_id_put [slot_simps]:
  "length d \<le> length (bs_object_id_bytes s) \<Longrightarrow>
   length (bs_object_id_bytes (put_object_id d s)) = length (bs_object_id_bytes s)"
  by (simp add: put_object_id_def)

lemma slot_meta_set [slot_simps]:
  assumes "length (m_content_type m) \<le> CONTENT_TYPE_MAX" "length (m_key_ref m) \<le> KEY_REF_MAX"
  shows "slot_meta (set_meta m s) = m"
  using assms small_lens(3) [OF assms(1)] small_lens(4) [OF assms(2)]
  by (simp add: slot_meta_def set_meta_def Let_def slot_content_type_def slot_key_ref_def)

lemma set_meta_sizes [slot_simps]:
  assumes "length (bs_ctype_bytes s) = CONTENT_TYPE_MAX" "length (bs_key_ref_bytes s) = KEY_REF_MAX"
  shows "length (bs_ctype_bytes (set_meta m s)) = CONTENT_TYPE_MAX"
    "unat (bs_ctype_len (set_meta m s)) \<le> CONTENT_TYPE_MAX"
    "length (bs_key_ref_bytes (set_meta m s)) = KEY_REF_MAX"
    "unat (bs_key_ref_len (set_meta m s)) \<le> KEY_REF_MAX"
  using assms
  by (simp_all add: set_meta_def Let_def small_lens)

lemma empty_slot_simps [simp]:
  "bs_occupied (empty_slot p) = False" "slot_key (empty_slot p) = None"
  "length (bs_object_id_bytes (empty_slot p)) = MAX_OBJECT_ID"
  "length (bs_path_bytes (empty_slot p)) = MAX_PATH p"
  "length (bs_root_bytes (empty_slot p)) = MAX_ROOT"
  "length (bs_ctype_bytes (empty_slot p)) = CONTENT_TYPE_MAX"
  "length (bs_key_ref_bytes (empty_slot p)) = KEY_REF_MAX"
  "bs_object_id_len (empty_slot p) = 0" "bs_path_len (empty_slot p) = 0"
  "bs_root_len (empty_slot p) = 0" "bs_ctype_len (empty_slot p) = 0"
  "bs_key_ref_len (empty_slot p) = 0" "bs_locked (empty_slot p) = 0"
  "bs_expires_at (empty_slot p) = 0"
  by (simp_all add: empty_slot_def slot_key_def)

lemma slot_ok_empty [simp]: "slot_ok p (empty_slot p)"
  by (simp add: slot_ok_def)

lemma fresh_key:
  assumes "length r \<le> MAX_ROOT" "length q \<le> MAX_PATH p"
    and "bs_root_len s = 0" "bs_path_len s = 0"
    and "length (bs_root_bytes s) = MAX_ROOT" "length (bs_path_bytes s) = MAX_PATH p"
  shows "slot_root (put_root r (put_path q s)) = r" "slot_path (put_root r (put_path q s)) = q"
    "length (bs_root_bytes (put_root r (put_path q s))) = MAX_ROOT"
    "length (bs_path_bytes (put_root r (put_path q s))) = MAX_PATH p"
    "unat (bs_root_len (put_root r (put_path q s))) \<le> MAX_ROOT"
    "unat (bs_path_len (put_root r (put_path q s))) \<le> MAX_PATH p"
  using assms small_lens(2) [OF assms(1)] small_lens(5) [OF assms(2)]
  by (simp_all add: put_root_def put_path_def slot_root_def slot_path_def)

section \<open>The slots the operations write\<close>

definition rebound :: "bytes \<Rightarrow> u8 \<Rightarrow> u64 \<Rightarrow> meta \<Rightarrow> u64 \<Rightarrow> binding_slot \<Rightarrow> binding_slot" where
  "rebound d kind revision m seq s =
     (set_meta m (put_object_id d
        (s\<lparr>bs_object_id_hash := fnv1a64 d, bs_revision := revision, bs_kind := kind,
           bs_snapshotted := 0, bs_cmp_emitted := 0\<rparr>)))\<lparr>bs_change_rev := seq\<rparr>"

definition fresh ::
  "profile \<Rightarrow> bytes \<Rightarrow> bytes \<Rightarrow> bytes \<Rightarrow> u8 \<Rightarrow> u64 \<Rightarrow> meta \<Rightarrow> u64 \<Rightarrow> binding_slot" where
  "fresh p r q d kind revision m seq =
     (set_meta m (put_root r (put_path q (put_object_id d
        ((empty_slot p)\<lparr>bs_namespace_hash := fnv1a64 r, bs_path_hash := fnv1a64 q,
           bs_object_id_hash := fnv1a64 d, bs_revision := revision, bs_kind := kind,
           bs_occupied := True\<rparr>)))))\<lparr>bs_change_rev := seq\<rparr>"

definition fresh_tomb :: "profile \<Rightarrow> bytes \<Rightarrow> bytes \<Rightarrow> u64 \<Rightarrow> u64 \<Rightarrow> binding_slot" where
  "fresh_tomb p r q revision seq =
     (put_root r (put_path q
        ((empty_slot p)\<lparr>bs_namespace_hash := fnv1a64 r, bs_path_hash := fnv1a64 q,
           bs_revision := revision, bs_kind := KIND_TOMBSTONE, bs_occupied := True\<rparr>)))
     \<lparr>bs_change_rev := seq\<rparr>"

lemma slot_get_upd [simp]:
  "slot_root (s\<lparr>bs_change_rev := c\<rparr>) = slot_root s" "slot_path (s\<lparr>bs_change_rev := c\<rparr>) = slot_path s"
  "slot_object_id (s\<lparr>bs_change_rev := c\<rparr>) = slot_object_id s"
  "slot_meta (s\<lparr>bs_change_rev := c\<rparr>) = slot_meta s"
  by (simp_all add: slot_root_def slot_path_def slot_object_id_def slot_meta_def
      slot_content_type_def slot_key_ref_def Let_def)

lemma slot_get_upd2 [simp]:
  "slot_root (s\<lparr>bs_object_id_hash := h, bs_revision := v, bs_kind := k, bs_snapshotted := a, bs_cmp_emitted := b\<rparr>) = slot_root s"
  "slot_path (s\<lparr>bs_object_id_hash := h, bs_revision := v, bs_kind := k, bs_snapshotted := a, bs_cmp_emitted := b\<rparr>) = slot_path s"
  by (simp_all add: slot_root_def slot_path_def)

lemma rebound_ok:
  assumes "slot_ok p s" "bs_occupied s" "length d \<le> MAX_OBJECT_ID"
  shows "slot_ok p (rebound d kind revision m seq s)"
  using assms by (simp add: slot_ok_def rebound_def slot_simps)

lemma rebound_key: "slot_key (rebound d kind revision m seq s) = slot_key s"
  by (simp add: slot_key_def rebound_def)

lemma fresh_ok:
  assumes "key_fits p r q d"
  shows "slot_ok p (fresh p r q d kind revision m seq)"
    and "slot_key (fresh p r q d kind revision m seq) = Some (r, q)"
  using assms
  by (simp_all add: slot_ok_def slot_key_def fresh_def slot_simps key_fits_def fresh_key [where p = p])

lemma fresh_tomb_ok:
  assumes "key_fits p r q d"
  shows "slot_ok p (fresh_tomb p r q revision seq)"
    and "slot_key (fresh_tomb p r q revision seq) = Some (r, q)"
  using assms
  by (simp_all add: slot_ok_def slot_key_def fresh_tomb_def slot_simps key_fits_def fresh_key [where p = p])

lemma entomb_key: "slot_key (entomb revision seq s) = slot_key s"
  by (simp add: slot_key_def entomb_def slot_root_def slot_path_def)

lemma entomb_ok:
  assumes "slot_ok p s" "bs_occupied s"
  shows "slot_ok p (entomb revision seq s)"
  using assms by (simp add: slot_ok_def entomb_def slot_simps slot_root_def slot_path_def)

end
