(* ===== verification/Namespace_Ops.thy ===== *)
theory Namespace_Ops
  imports Namespace_Inv
begin

text \<open>
  What each binding operation does to the map \<open>ns_map\<close>: the operations rewritten over the
  scan \<open>key_hits\<close> and the slots they write, and the abstract binding map \<open>abs_bind\<close>,
  \<open>abs_commit\<close>, \<open>abs_rename\<close>, \<open>abs_tombstone\<close> they refine.
\<close>

section \<open>One write\<close>

definition ns_full :: "ns_state \<Rightarrow> bool" where
  "ns_full st \<longleftrightarrow> list_all bs_occupied (ns_slots st)"

definition puts :: "profile \<Rightarrow> ns_state \<Rightarrow> bytes \<times> bytes \<Rightarrow> nat \<Rightarrow> binding_slot \<Rightarrow> bool" where
  "puts p st k i s \<longleftrightarrow>
     i < length (ns_slots st) \<and> slot_ok p s \<and> slot_key s = Some k \<and>
     (slot_key (ns_slots st ! i) = Some k \<or>
      slot_key (ns_slots st ! i) = None \<and> ns_map st k = None)"

lemma ns_map_slots [simp]:
  "ns_map (st\<lparr>ns_change_seq := c\<rparr>) = ns_map st" "ns_map (st\<lparr>ns_change_horizon := c\<rparr>) = ns_map st"
  "ns_ok p (st\<lparr>ns_change_seq := c\<rparr>) = ns_ok p st" "ns_ok p (st\<lparr>ns_change_horizon := c\<rparr>) = ns_ok p st"
  by (simp_all add: ns_map_def ns_ok_def)

lemma ns_map_NoneD:
  "ns_ok p st \<Longrightarrow> ns_map st k = None \<Longrightarrow> i < length (ns_slots st) \<Longrightarrow> slot_key (ns_slots st ! i) \<noteq> Some k"
  by (simp add: ns_ok_def ns_map_def ns.map_None)

lemma ns_map_at:
  "ns_ok p st \<Longrightarrow> i < length (ns_slots st) \<Longrightarrow> slot_key (ns_slots st ! i) = Some k \<Longrightarrow>
   ns_map st k = Some (ns_slots st ! i)"
  unfolding ns_ok_def ns_map_def by (rule ns.map_at)

lemma ns_map_SomeE:
  assumes "ns_ok p st" "ns_map st k = Some s"
  obtains i where "i < length (ns_slots st)" "slot_key (ns_slots st ! i) = Some k" "ns_slots st ! i = s"
  using assms by (auto simp: ns_ok_def ns_map_def ns.map_Some)

lemma ns_map_key:
  assumes "ns_ok p st" "ns_map st k = Some s"
  shows "slot_key s = Some k" "slot_ok p s" "bs_occupied s"
  using assms ns.map_key [of p "ns_slots st" k s]
  by (auto simp: ns_ok_def ns_map_def slot_key_def split: if_splits)

lemma scan_key:
  assumes "ns_ok p st"
  shows "first_index (slot_matches (fnv1a64 r) (fnv1a64 q) r q) (ns_slots st) = Some i \<longleftrightarrow>
      i < length (ns_slots st) \<and> slot_key (ns_slots st ! i) = Some (r, q)"
    and "first_index (slot_matches (fnv1a64 r) (fnv1a64 q) r q) (ns_slots st) = None \<longleftrightarrow>
      ns_map st (r, q) = None"
  using assms
  by (simp_all add: ns_ok_def ns_map_def key_hits_pair [symmetric] ns.scan_Some ns.map_None ns.scan_None)

lemma scan_keyD:
  assumes "ns_ok p st"
  shows "first_index (slot_matches (fnv1a64 r) (fnv1a64 q) r q) (ns_slots st) = Some i \<Longrightarrow>
      i < length (ns_slots st) \<and> slot_key (ns_slots st ! i) = Some (r, q)"
    and "first_index (slot_matches (fnv1a64 r) (fnv1a64 q) r q) (ns_slots st) = None \<Longrightarrow>
      ns_map st (r, q) = None"
  by (simp_all add: scan_key [OF assms])

lemma puts_ok:
  assumes "ns_ok p st" "puts p st k i s"
  shows "ns_ok p (set_slot st i s seq)" "ns_map (set_slot st i s seq) = (ns_map st)(k \<mapsto> s)"
proof -
  have "slot_key (ns_slots st ! i) = Some k \<or>
      slot_key (ns_slots st ! i) = None \<and> (\<forall>j < length (ns_slots st). slot_key (ns_slots st ! j) \<noteq> Some k)"
    using assms ns_map_NoneD [OF assms(1), of k] by (auto simp: puts_def)
  then show "ns_ok p (set_slot st i s seq)" "ns_map (set_slot st i s seq) = (ns_map st)(k \<mapsto> s)"
    using assms ns.put_ok [of p "ns_slots st" i s k] ns.put_map [of p "ns_slots st" i s k]
    by (auto simp: ns_ok_def ns_map_def set_slot_def puts_def)
qed

lemma free_slot:
  "first_index (\<lambda>s. \<not> bs_occupied s) (ns_slots st) = None \<longleftrightarrow> ns_full st"
  by (simp add: first_index_None ns_full_def list_all_iff)

lemma free_slot_key:
  "first_index (\<lambda>s. \<not> bs_occupied s) (ns_slots st) = Some i \<Longrightarrow>
   i < length (ns_slots st) \<and> slot_key (ns_slots st ! i) = None"
  by (auto dest!: first_index_SomeD simp: slot_key_def)

section \<open>The abstract binding map\<close>

record bview =
  v_object_id :: bytes
  v_kind :: u8
  v_revision :: u64
  v_meta :: meta
  v_expires_at :: u64
  v_locked :: bool

type_synonym bmap = "bytes \<times> bytes \<Rightarrow> bview option"

definition slot_view :: "binding_slot \<Rightarrow> bview" where
  "slot_view s = \<lparr>v_object_id = slot_object_id s, v_kind = bs_kind s, v_revision = bs_revision s,
     v_meta = slot_meta s, v_expires_at = bs_expires_at s, v_locked = (bs_locked s \<noteq> 0)\<rparr>"

definition ns_view :: "ns_state \<Rightarrow> bmap" where
  "ns_view st k = map_option slot_view (ns_map st k)"

definition same_target :: "bview \<Rightarrow> bytes \<Rightarrow> u8 \<Rightarrow> bool" where
  "same_target v d kind \<longleftrightarrow>
     v_kind v = kind \<and> fnv1a64 (v_object_id v) = fnv1a64 d \<and>
     (v_object_id v = [] \<or> v_object_id v = d)"

definition target_at :: "bytes \<Rightarrow> u8 \<Rightarrow> u64 \<Rightarrow> meta \<Rightarrow> bview \<Rightarrow> bview" where
  "target_at d kind revision m v =
     v\<lparr>v_object_id := d, v_kind := kind, v_revision := revision, v_meta := m\<rparr>"

definition new_view :: "bytes \<Rightarrow> u8 \<Rightarrow> u64 \<Rightarrow> meta \<Rightarrow> bview" where
  "new_view d kind revision m =
     \<lparr>v_object_id = d, v_kind = kind, v_revision = revision, v_meta = m, v_expires_at = 0,
      v_locked = False\<rparr>"

definition abs_bind ::
  "bool \<Rightarrow> bmap \<Rightarrow> bytes \<times> bytes \<Rightarrow> bytes \<Rightarrow> u8 \<Rightarrow> u64 \<Rightarrow> meta \<Rightarrow> bmap \<times> ns_result" where
  "abs_bind full b k d kind revision m =
     (case b k of
        Some v \<Rightarrow>
          if v_locked v \<and> \<not> same_target v d kind then (b, Inl Locked)
          else if revision = v_revision v \<and> same_target v d kind then (b, Inr (Bound revision))
          else if v_revision v < revision then
            (b(k \<mapsto> target_at d kind revision m v), Inr (Bound revision))
          else (b, Inl AlreadyBound)
      | None \<Rightarrow>
          if full then (b, Inl OutOfCapacity)
          else (b(k \<mapsto> new_view d kind revision m), Inr (Bound revision)))"

definition abs_commit ::
  "bool \<Rightarrow> bmap \<Rightarrow> bytes \<times> bytes \<Rightarrow> bytes \<Rightarrow> u8 \<Rightarrow> u64 \<Rightarrow> meta \<Rightarrow> bmap \<times> ns_result" where
  "abs_commit full b k d kind revision m =
     (case b k of
        Some v \<Rightarrow>
          if v_locked v then (b, Inl Locked)
          else (b(k \<mapsto> (target_at d kind revision m v)\<lparr>v_expires_at := 0\<rparr>), Inr (Bound revision))
      | None \<Rightarrow>
          if full then (b, Inl OutOfCapacity)
          else (b(k \<mapsto> new_view d kind revision m), Inr (Bound revision)))"

definition abs_tombstone :: "bool \<Rightarrow> bmap \<Rightarrow> bytes \<times> bytes \<Rightarrow> u64 \<Rightarrow> bmap \<times> ns_result" where
  "abs_tombstone full b k revision =
     (case b k of
        Some v \<Rightarrow>
          if v_locked v then (b, Inl Locked)
          else (b(k \<mapsto> target_at [] KIND_TOMBSTONE revision meta_none v), Inr Unbound)
      | None \<Rightarrow>
          if full then (b, Inl OutOfCapacity)
          else (b(k \<mapsto> new_view [] KIND_TOMBSTONE revision meta_none), Inr Unbound))"

definition abs_rename ::
  "bool \<Rightarrow> bmap \<Rightarrow> bytes \<Rightarrow> bytes \<Rightarrow> bytes \<Rightarrow> u64 \<Rightarrow> bmap \<times> ns_result" where
  "abs_rename full b r from to new_revision =
     (if \<exists>w. b (r, to) = Some w \<and> v_kind w \<noteq> KIND_TOMBSTONE then (b, Inl DestinationOccupied)
      else case b (r, from) of
        None \<Rightarrow> (b, Inl NotBound)
      | Some v \<Rightarrow>
          if v_kind v = KIND_TOMBSTONE then (b, Inl NotBound)
          else if v_locked v then (b, Inl Locked)
          else if full \<and> b (r, to) = None then (b, Inl OutOfCapacity)
          else
            (let to_rev = (case b (r, to) of
                             Some w \<Rightarrow> if new_revision \<le> v_revision w then v_revision w + 1
                                      else new_revision
                           | None \<Rightarrow> new_revision)
             in (b((r, to) \<mapsto> v\<lparr>v_revision := to_rev\<rparr>,
                   (r, from) \<mapsto> (target_at [] KIND_TOMBSTONE new_revision meta_none v)
                                  \<lparr>v_expires_at := 0\<rparr>),
                 Inr (Renamed new_revision))))"

section \<open>Views of the written slots\<close>

lemma rebound_view:
  assumes "length d \<le> MAX_OBJECT_ID" "length (m_content_type m) \<le> CONTENT_TYPE_MAX"
    "length (m_key_ref m) \<le> KEY_REF_MAX"
  shows "slot_view (rebound d kind revision m seq s) = target_at d kind revision m (slot_view s)"
  using assms by (simp add: slot_view_def rebound_def target_at_def slot_simps)

lemma fresh_view:
  assumes "key_fits p r q d" "length (m_content_type m) \<le> CONTENT_TYPE_MAX"
    "length (m_key_ref m) \<le> KEY_REF_MAX"
  shows "slot_view (fresh p r q d kind revision m seq) = new_view d kind revision m"
  using assms by (simp add: slot_view_def fresh_def new_view_def slot_simps key_fits_def)

lemma slot_meta_put_key [simp]:
  "slot_meta (put_root r (put_path q s)) = slot_meta s"
  by (simp add: put_root_def put_path_def slot_meta_def slot_content_type_def slot_key_ref_def)

lemma fresh_tomb_view:
  "slot_view (fresh_tomb p r q revision seq) = new_view [] KIND_TOMBSTONE revision meta_none"
proof -
  have "slot_meta ((empty_slot p)\<lparr>bs_namespace_hash := fnv1a64 r, bs_path_hash := fnv1a64 q,
      bs_revision := revision, bs_kind := KIND_TOMBSTONE, bs_occupied := True\<rparr>) = meta_none"
    by (simp add: slot_meta_def slot_content_type_def slot_key_ref_def meta_none_def empty_slot_def)
  then show ?thesis
    by (simp add: slot_view_def fresh_tomb_def new_view_def slot_object_id_def Let_def)
qed

lemma slot_meta_entomb: "slot_meta (entomb revision seq s) = meta_none"
proof -
  have "slot_meta (entomb revision seq s) = slot_meta (set_meta meta_none
      (s\<lparr>bs_kind := KIND_TOMBSTONE, bs_revision := revision, bs_object_id_hash := 0, bs_object_id_len := 0\<rparr>))"
    by (simp add: entomb_def slot_meta_def slot_content_type_def slot_key_ref_def)
  also have "\<dots> = meta_none"
    by (rule slot_meta_set) (simp_all add: meta_none_def)
  finally show ?thesis .
qed

lemma entomb_view: "slot_view (entomb revision seq s) = target_at [] KIND_TOMBSTONE revision meta_none (slot_view s)"
proof -
  have "slot_object_id (entomb revision seq s) = []" "bs_kind (entomb revision seq s) = KIND_TOMBSTONE"
    "bs_revision (entomb revision seq s) = revision" "bs_expires_at (entomb revision seq s) = bs_expires_at s"
    "bs_locked (entomb revision seq s) = bs_locked s"
    by (simp_all add: entomb_def slot_object_id_def)
  then show ?thesis
    by (simp add: slot_view_def target_at_def slot_meta_entomb)
qed

lemma binds_same_view:
  assumes "slot_ok p s" "bs_occupied s" "kind \<noteq> KIND_TOMBSTONE"
  shows "binds_same s (fnv1a64 d) d kind \<longleftrightarrow> same_target (slot_view s) d kind"
  using assms by (auto simp: binds_same_def same_target_def slot_view_def slot_ok_def)

lemma slot_view_sel [simp]:
  "v_object_id (slot_view s) = slot_object_id s" "v_kind (slot_view s) = bs_kind s"
  "v_revision (slot_view s) = bs_revision s" "v_meta (slot_view s) = slot_meta s"
  "v_expires_at (slot_view s) = bs_expires_at s" "v_locked (slot_view s) \<longleftrightarrow> bs_locked s \<noteq> 0"
  by (simp_all add: slot_view_def)

section \<open>Bind and commit\<close>

lemma ns_bind_eq:
  "ns_bind p st r q d kind revision m =
     (if \<not> key_fits p r q d \<or> CONTENT_TYPE_MAX < length (m_content_type m)
         \<or> KEY_REF_MAX < length (m_key_ref m) then (st, Inl KeyTooLong)
      else case first_index (slot_matches (fnv1a64 r) (fnv1a64 q) r q) (ns_slots st) of
             Some i \<Rightarrow>
               if bs_locked (ns_slots st ! i) \<noteq> 0 \<and> \<not> binds_same (ns_slots st ! i) (fnv1a64 d) d kind
               then (st, Inl Locked)
               else if revision = bs_revision (ns_slots st ! i)
                       \<and> binds_same (ns_slots st ! i) (fnv1a64 d) d kind
               then (st, Inr (Bound revision))
               else if bs_revision (ns_slots st ! i) < revision then
                 (set_slot st i (rebound d kind revision m (ns_change_seq st + 1) (ns_slots st ! i))
                    (ns_change_seq st + 1), Inr (Bound revision))
               else (st, Inl AlreadyBound)
           | None \<Rightarrow>
               (case first_index (\<lambda>s. \<not> bs_occupied s) (ns_slots st) of
                  Some i \<Rightarrow> (set_slot st i (fresh p r q d kind revision m (ns_change_seq st + 1))
                               (ns_change_seq st + 1), Inr (Bound revision))
                | None \<Rightarrow> (st, Inl OutOfCapacity)))"
  by (simp add: ns_bind_def key_hash_def Let_def rebound_def fresh_def split: option.split)

lemma puts_rebound:
  assumes "ns_ok p st" "i < length (ns_slots st)" "slot_key (ns_slots st ! i) = Some k"
    "length d \<le> MAX_OBJECT_ID"
  shows "puts p st k i (rebound d kind revision m seq (ns_slots st ! i))"
proof -
  have "slot_ok p (ns_slots st ! i)" "bs_occupied (ns_slots st ! i)"
    using assms ns_map_key [OF assms(1) ns_map_at [OF assms(1-3)]] by auto
  then show ?thesis
    using assms by (simp add: puts_def rebound_key rebound_ok)
qed

lemma puts_fresh:
  assumes "key_fits p r q d" "ns_map st (r, q) = None"
    "first_index (\<lambda>s. \<not> bs_occupied s) (ns_slots st) = Some i"
  shows "puts p st (r, q) i (fresh p r q d kind revision m seq)"
  using assms free_slot_key [OF assms(3)] by (simp add: puts_def fresh_ok)

lemma view_put:
  assumes "ns_ok p st" "puts p st k i s"
  shows "ns_view (set_slot st i s seq) = (ns_view st)(k \<mapsto> slot_view s)"
  by (auto simp: ns_view_def puts_ok [OF assms] fun_eq_iff)

lemma ns_bind_abs:
  assumes ok: "ns_ok p st" and fits: "key_fits p r q d"
    and m: "length (m_content_type m) \<le> CONTENT_TYPE_MAX" "length (m_key_ref m) \<le> KEY_REF_MAX"
    and kind: "kind \<noteq> KIND_TOMBSTONE"
    and run: "ns_bind p st r q d kind revision m = (st', res)"
  shows "ns_ok p st' \<and> (ns_view st', res) = abs_bind (ns_full st) (ns_view st) (r, q) d kind revision m"
proof (cases "first_index (slot_matches (fnv1a64 r) (fnv1a64 q) r q) (ns_slots st)")
  case None
  then have none: "ns_map st (r, q) = None" by (simp add: scan_key [OF ok])
  show ?thesis
  proof (cases "first_index (\<lambda>s. \<not> bs_occupied s) (ns_slots st)")
    case free: None
    then have "ns_full st" by (simp add: free_slot)
    then show ?thesis
      using run None free fits m none ok by (auto simp: ns_bind_eq abs_bind_def ns_view_def)
  next
    case (Some i)
    then have "\<not> ns_full st" using free_slot [of st] by simp
    then show ?thesis
      using run None Some fits m none puts_ok [OF ok puts_fresh [OF fits none Some]]
        view_put [OF ok puts_fresh [OF fits none Some]] fresh_view [OF fits m]
      by (auto simp: ns_bind_eq abs_bind_def ns_view_def)
  qed
next
  case (Some i)
  then have i: "i < length (ns_slots st)" "slot_key (ns_slots st ! i) = Some (r, q)"
    by (simp_all add: scan_key [OF ok])
  have at: "ns_map st (r, q) = Some (ns_slots st ! i)" by (rule ns_map_at [OF ok i])
  have d: "length d \<le> MAX_OBJECT_ID" using fits by (simp add: key_fits_def)
  note same = binds_same_view [OF ns_map_key(2,3) [OF ok at] kind, of d]
  note put = puts_rebound [OF ok i d]
  show ?thesis
    using run Some fits m at same puts_ok [OF ok put] view_put [OF ok put] rebound_view [OF d m] ok
    by (auto simp: ns_bind_eq abs_bind_def ns_view_def split: if_splits)
qed

lemma commit_slot:
  "(set_meta m (put_object_id d
      (s\<lparr>bs_object_id_hash := fnv1a64 d, bs_revision := revision, bs_kind := kind,
         bs_snapshotted := 0, bs_cmp_emitted := 0, bs_expires_at := 0\<rparr>)))\<lparr>bs_change_rev := seq\<rparr>
   = (rebound d kind revision m seq s)\<lparr>bs_expires_at := 0\<rparr>"
  by (rule binding_slot.equality) (simp_all add: rebound_def set_meta_def put_object_id_def Let_def)

lemma ns_commit_bind_eq:
  "ns_commit_bind p st r q d kind revision m =
     (if \<not> key_fits p r q d \<or> CONTENT_TYPE_MAX < length (m_content_type m)
         \<or> KEY_REF_MAX < length (m_key_ref m) then (st, Inl KeyTooLong)
      else case first_index (slot_matches (fnv1a64 r) (fnv1a64 q) r q) (ns_slots st) of
             Some i \<Rightarrow>
               if bs_locked (ns_slots st ! i) \<noteq> 0 then (st, Inl Locked)
               else (set_slot st i ((rebound d kind revision m (ns_change_seq st + 1) (ns_slots st ! i))
                                     \<lparr>bs_expires_at := 0\<rparr>) (ns_change_seq st + 1), Inr (Bound revision))
           | None \<Rightarrow> ns_bind p st r q d kind revision m)"
  by (simp add: ns_commit_bind_def key_hash_def Let_def commit_slot split: option.split)

lemma expires_upd [simp]:
  "slot_key (s\<lparr>bs_expires_at := t\<rparr>) = slot_key s"
  "slot_ok p (s\<lparr>bs_expires_at := t\<rparr>) = slot_ok p s"
  "slot_view (s\<lparr>bs_expires_at := t\<rparr>) = (slot_view s)\<lparr>v_expires_at := t\<rparr>"
  "slot_key (s\<lparr>bs_locked := l\<rparr>) = slot_key s"
  "slot_ok p (s\<lparr>bs_locked := l\<rparr>) = slot_ok p s"
  "slot_view (s\<lparr>bs_locked := l\<rparr>) = (slot_view s)\<lparr>v_locked := (l \<noteq> 0)\<rparr>"
  "slot_key (s\<lparr>bs_cmp_emitted := g\<rparr>) = slot_key s"
  "slot_ok p (s\<lparr>bs_cmp_emitted := g\<rparr>) = slot_ok p s"
  "slot_view (s\<lparr>bs_cmp_emitted := g\<rparr>) = slot_view s"
  "slot_key (s\<lparr>bs_snapshotted := g\<rparr>) = slot_key s"
  "slot_ok p (s\<lparr>bs_snapshotted := g\<rparr>) = slot_ok p s"
  "slot_view (s\<lparr>bs_snapshotted := g\<rparr>) = slot_view s"
  by (simp_all add: slot_key_def slot_ok_def slot_view_def slot_root_def slot_path_def
      slot_object_id_def slot_meta_def slot_content_type_def slot_key_ref_def Let_def)

lemma ns_commit_bind_abs:
  assumes ok: "ns_ok p st" and fits: "key_fits p r q d"
    and m: "length (m_content_type m) \<le> CONTENT_TYPE_MAX" "length (m_key_ref m) \<le> KEY_REF_MAX"
    and kind: "kind \<noteq> KIND_TOMBSTONE"
    and run: "ns_commit_bind p st r q d kind revision m = (st', res)"
  shows "ns_ok p st' \<and> (ns_view st', res) = abs_commit (ns_full st) (ns_view st) (r, q) d kind revision m"
proof (cases "first_index (slot_matches (fnv1a64 r) (fnv1a64 q) r q) (ns_slots st)")
  case None
  then have none: "ns_view st (r, q) = None" by (simp add: scan_key [OF ok] ns_view_def)
  have "ns_bind p st r q d kind revision m = (st', res)"
    using run None fits m by (simp add: ns_commit_bind_eq)
  from ns_bind_abs [OF ok fits m kind this] none show ?thesis
    by (simp add: abs_bind_def abs_commit_def)
next
  case (Some i)
  then have i: "i < length (ns_slots st)" "slot_key (ns_slots st ! i) = Some (r, q)"
    by (simp_all add: scan_key [OF ok])
  have at: "ns_map st (r, q) = Some (ns_slots st ! i)" by (rule ns_map_at [OF ok i])
  have d: "length d \<le> MAX_OBJECT_ID" using fits by (simp add: key_fits_def)
  have put: "puts p st (r, q) i ((rebound d kind revision m (ns_change_seq st + 1) (ns_slots st ! i))\<lparr>bs_expires_at := 0\<rparr>)"
    using puts_rebound [OF ok i d] by (simp add: puts_def)
  show ?thesis
    using run Some fits m at puts_ok [OF ok put] view_put [OF ok put] rebound_view [OF d m] ok
    by (auto simp: ns_commit_bind_eq abs_commit_def ns_view_def split: if_splits)
qed

section \<open>Tombstone\<close>

lemma ns_tombstone_eq:
  "ns_tombstone p st r q revision =
     (if \<not> key_fits p r q [] then (st, Inl KeyTooLong)
      else case first_index (slot_matches (fnv1a64 r) (fnv1a64 q) r q) (ns_slots st) of
             Some i \<Rightarrow>
               if bs_locked (ns_slots st ! i) \<noteq> 0 then (st, Inl Locked)
               else (set_slot st i (entomb revision (ns_change_seq st + 1) (ns_slots st ! i))
                       (ns_change_seq st + 1), Inr Unbound)
           | None \<Rightarrow>
               (case first_index (\<lambda>s. \<not> bs_occupied s) (ns_slots st) of
                  Some i \<Rightarrow> (set_slot st i (fresh_tomb p r q revision (ns_change_seq st + 1))
                               (ns_change_seq st + 1), Inr Unbound)
                | None \<Rightarrow> (st, Inl OutOfCapacity)))"
  by (simp add: ns_tombstone_def key_hash_def Let_def fresh_tomb_def split: option.split)

lemma puts_entomb:
  assumes "ns_ok p st" "i < length (ns_slots st)" "slot_key (ns_slots st ! i) = Some k"
  shows "puts p st k i (entomb revision seq (ns_slots st ! i))"
  using assms ns_map_key [OF assms(1) ns_map_at [OF assms]]
  by (simp add: puts_def entomb_key entomb_ok)

lemma puts_fresh_tomb:
  assumes "key_fits p r q []" "ns_map st (r, q) = None"
    "first_index (\<lambda>s. \<not> bs_occupied s) (ns_slots st) = Some i"
  shows "puts p st (r, q) i (fresh_tomb p r q revision seq)"
  using assms free_slot_key [OF assms(3)] by (simp add: puts_def fresh_tomb_ok)

lemma ns_tombstone_abs:
  assumes ok: "ns_ok p st" and fits: "key_fits p r q []"
    and run: "ns_tombstone p st r q revision = (st', res)"
  shows "ns_ok p st' \<and> (ns_view st', res) = abs_tombstone (ns_full st) (ns_view st) (r, q) revision"
proof (cases "first_index (slot_matches (fnv1a64 r) (fnv1a64 q) r q) (ns_slots st)")
  case None
  then have none: "ns_map st (r, q) = None" by (simp add: scan_key [OF ok])
  show ?thesis
  proof (cases "first_index (\<lambda>s. \<not> bs_occupied s) (ns_slots st)")
    case free: None
    then have "ns_full st" by (simp add: free_slot)
    then show ?thesis
      using run None free fits none ok by (auto simp: ns_tombstone_eq abs_tombstone_def ns_view_def)
  next
    case (Some i)
    then have "\<not> ns_full st" using free_slot [of st] by simp
    then show ?thesis
      using run None Some fits none puts_ok [OF ok puts_fresh_tomb [OF fits none Some]]
        view_put [OF ok puts_fresh_tomb [OF fits none Some]]
      by (auto simp: ns_tombstone_eq abs_tombstone_def ns_view_def fresh_tomb_view)
  qed
next
  case (Some i)
  then have i: "i < length (ns_slots st)" "slot_key (ns_slots st ! i) = Some (r, q)"
    by (simp_all add: scan_key [OF ok])
  note put = puts_entomb [OF ok i]
  show ?thesis
    using run Some fits ns_map_at [OF ok i] puts_ok [OF ok put] view_put [OF ok put] ok
    by (auto simp: ns_tombstone_eq abs_tombstone_def ns_view_def entomb_view split: if_splits)
qed

section \<open>Rename\<close>

text \<open>What the scan answers when no slot matches both names.\<close>

lemma rename_scan_spec:
  assumes "\<And>s. s \<in> set ss \<Longrightarrow> \<not> (F s \<and> T s)"
    and "\<And>s. s \<in> set ss \<Longrightarrow> F s \<or> T s \<Longrightarrow> bs_occupied s"
    and uF: "\<And>a b. a < length ss \<Longrightarrow> b < length ss \<Longrightarrow> F (ss ! a) \<Longrightarrow> F (ss ! b) \<Longrightarrow> a = b"
    and uT: "\<And>a b. a < length ss \<Longrightarrow> b < length ss \<Longrightarrow> T (ss ! a) \<Longrightarrow> T (ss ! b) \<Longrightarrow> a = b"
  shows "rename_scan F T ss i (sa, da, fa) =
     (if \<exists>s \<in> set ss. T s \<and> bs_kind s \<noteq> KIND_TOMBSTONE then Inl DestinationOccupied
      else Inr ((case first_index F ss of None \<Rightarrow> sa | Some j \<Rightarrow> Some (i + j)),
                (case first_index T ss of None \<Rightarrow> da | Some j \<Rightarrow> Some (i + j)),
                (case fa of Some f \<Rightarrow> Some f
                 | None \<Rightarrow> map_option ((+) i) (first_index (\<lambda>s. \<not> bs_occupied s) ss))))"
  using assms
proof (induction ss arbitrary: i sa da fa)
  case Nil
  then show ?case by (cases fa) auto
next
  case (Cons s ss)
  have u: "\<And>a b. a < length ss \<Longrightarrow> b < length ss \<Longrightarrow> F (ss ! a) \<Longrightarrow> F (ss ! b) \<Longrightarrow> a = b"
    "\<And>a b. a < length ss \<Longrightarrow> b < length ss \<Longrightarrow> T (ss ! a) \<Longrightarrow> T (ss ! b) \<Longrightarrow> a = b"
    using Cons.prems(3) [of "Suc _" "Suc _"] Cons.prems(4) [of "Suc _" "Suc _"] by auto
  have IH: "rename_scan F T ss j (x, y, z) =
     (if \<exists>s \<in> set ss. T s \<and> bs_kind s \<noteq> KIND_TOMBSTONE then Inl DestinationOccupied
      else Inr ((case first_index F ss of None \<Rightarrow> x | Some l \<Rightarrow> Some (j + l)),
                (case first_index T ss of None \<Rightarrow> y | Some l \<Rightarrow> Some (j + l)),
                (case z of Some f \<Rightarrow> Some f
                 | None \<Rightarrow> map_option ((+) j) (first_index (\<lambda>s. \<not> bs_occupied s) ss))))" for j x y z
    by (rule Cons.IH) (use Cons.prems(1,2) u in auto)
  have nF: "F s \<Longrightarrow> first_index F ss = None"
    using Cons.prems(3) [of 0 "Suc _"] by (auto simp: first_index_None in_set_conv_nth)
  have nT: "T s \<Longrightarrow> first_index T ss = None \<and> (\<forall>x \<in> set ss. \<not> T x)"
    using Cons.prems(4) [of 0 "Suc _"] by (auto simp: first_index_None in_set_conv_nth)
  have suc: "(\<lambda>x. Suc (i + x)) = (+) (Suc i)" by auto
  have s: "\<not> (F s \<and> T s)" "F s \<or> T s \<Longrightarrow> bs_occupied s"
    using Cons.prems(1,2) by auto
  consider "F s" "\<not> T s" "bs_occupied s" | "\<not> F s" "T s" "bs_occupied s" | "\<not> F s" "\<not> T s"
    using s by blast
  then show ?case
  proof cases
    case 1
    then show ?thesis
      by (simp add: IH nF option.map_comp comp_def suc split: option.split)
  next
    case 2
    then show ?thesis
      by (simp add: IH nT option.map_comp comp_def suc split: option.split)
  next
    case 3
    then show ?thesis
      by (auto simp: IH option.map_comp comp_def suc split: option.split)
  qed
qed

lemma move_slot_ok:
  assumes "slot_ok p s" "bs_occupied s" "slot_key s = Some (r, q)" "length to \<le> MAX_PATH p"
  shows "slot_ok p (move_slot p to v seq s)" "slot_key (move_slot p to v seq s) = Some (r, to)"
    "slot_view (move_slot p to v seq s) = (slot_view s)\<lparr>v_revision := v\<rparr>"
proof -
  have len: "unat (word_of_nat (length to) :: u16) = length to"
    using assms(4) by (rule small_lens(5))
  have "slot_path (move_slot p to v seq s) = to" "slot_root (move_slot p to v seq s) = slot_root s"
    "slot_object_id (move_slot p to v seq s) = slot_object_id s"
    "slot_meta (move_slot p to v seq s) = slot_meta s"
    using assms(4) len
    by (simp_all add: move_slot_def slot_path_def slot_root_def slot_object_id_def slot_meta_def
        slot_content_type_def slot_key_ref_def Let_def)
  then show "slot_ok p (move_slot p to v seq s)" "slot_key (move_slot p to v seq s) = Some (r, to)"
    "slot_view (move_slot p to v seq s) = (slot_view s)\<lparr>v_revision := v\<rparr>"
    using assms len by (simp_all add: slot_ok_def slot_key_def slot_view_def move_slot_def)
qed

lemma live_at_view:
  assumes ok: "ns_ok p st"
  shows "(\<exists>s \<in> set (ns_slots st). slot_matches (fnv1a64 r) (fnv1a64 q) r q s \<and> bs_kind s \<noteq> KIND_TOMBSTONE)
     \<longleftrightarrow> (\<exists>w. ns_view st (r, q) = Some w \<and> v_kind w \<noteq> KIND_TOMBSTONE)"
proof -
  have "slot_matches (fnv1a64 r) (fnv1a64 q) r q s \<longleftrightarrow> slot_key s = Some (r, q)" if "s \<in> set (ns_slots st)" for s
    using that ok key_hits_key [of p s "(r, q)"]
    by (simp add: key_hits_pair ns_ok_def arena_ok_def)
  then have "?thesis \<longleftrightarrow> ((\<exists>s \<in> set (ns_slots st). slot_key s = Some (r, q) \<and> bs_kind s \<noteq> KIND_TOMBSTONE)
     \<longleftrightarrow> (\<exists>s. ns_map st (r, q) = Some s \<and> bs_kind s \<noteq> KIND_TOMBSTONE))"
    by (auto simp: ns_view_def)
  moreover have "s \<in> set (ns_slots st) \<and> slot_key s = Some (r, q) \<longleftrightarrow> ns_map st (r, q) = Some s" for s
    using ns_map_at [OF ok] by (auto simp: in_set_conv_nth elim!: ns_map_SomeE [OF ok])
  ultimately show ?thesis by blast
qed

lemma rename_scan_ok:
  assumes ok: "ns_ok p st" and ne: "from \<noteq> to"
  shows "rename_scan (slot_matches (fnv1a64 r) (fnv1a64 from) r from)
           (slot_matches (fnv1a64 r) (fnv1a64 to) r to) (ns_slots st) 0 (None, None, None) =
     (if \<exists>w. ns_view st (r, to) = Some w \<and> v_kind w \<noteq> KIND_TOMBSTONE then Inl DestinationOccupied
      else Inr (first_index (slot_matches (fnv1a64 r) (fnv1a64 from) r from) (ns_slots st),
                first_index (slot_matches (fnv1a64 r) (fnv1a64 to) r to) (ns_slots st),
                first_index (\<lambda>s. \<not> bs_occupied s) (ns_slots st)))"
proof -
  have key: "slot_matches (fnv1a64 r) (fnv1a64 q) r q s \<longleftrightarrow> slot_key s = Some (r, q)"
    if "s \<in> set (ns_slots st)" for s q
    using that ok key_hits_key [of p s "(r, q)"]
    by (simp add: key_hits_pair ns_ok_def arena_ok_def)
  have u: "a = b" if "a < length (ns_slots st)" "b < length (ns_slots st)"
    "slot_matches (fnv1a64 r) (fnv1a64 q) r q (ns_slots st ! a)"
    "slot_matches (fnv1a64 r) (fnv1a64 q) r q (ns_slots st ! b)" for a b q
    using that key ok by (auto simp: ns_ok_def intro: arena_ok_unique [of "slot_ok p" slot_key])
  have "id = (+) (0::nat)" by auto
  then show ?thesis
    unfolding live_at_view [OF ok, symmetric]
    by (subst rename_scan_spec)
      (use ne key u in \<open>auto simp: slot_matches_def option.map_id0 split: option.split\<close>)
qed

lemma ns_rename_eq:
  assumes ok: "ns_ok p st" and ne: "from \<noteq> to"
    and fits: "key_fits p r from []" "key_fits p r to []"
    and src: "slot_key (ns_slots st ! si) = Some (r, from)" "si < length (ns_slots st)"
    and live: "bs_kind (ns_slots st ! si) \<noteq> KIND_TOMBSTONE" "bs_locked (ns_slots st ! si) = 0"
    and free: "\<not> (\<exists>w. ns_view st (r, to) = Some w \<and> v_kind w \<noteq> KIND_TOMBSTONE)"
    and dst: "(case first_index (slot_matches (fnv1a64 r) (fnv1a64 to) r to) (ns_slots st) of
                 Some d \<Rightarrow> Some d | None \<Rightarrow> first_index (\<lambda>s. \<not> bs_occupied s) (ns_slots st)) = Some dst"
    and rev: "to_rev = (case ns_view st (r, to) of
                 Some w \<Rightarrow> if new_revision \<le> v_revision w then v_revision w + 1 else new_revision
               | None \<Rightarrow> new_revision)"
  shows "ns_rename p st r from to new_revision =
    (let seq = ns_change_seq st + 1;
         st1 = set_slot st dst (move_slot p to to_rev seq (ns_slots st ! si)) seq
     in (set_slot st1 si ((entomb new_revision (seq + 1) (ns_slots st ! si))\<lparr>bs_expires_at := 0\<rparr>) (seq + 1),
         Inr (Renamed new_revision)))
    \<and> puts p st (r, to) dst (move_slot p to to_rev (ns_change_seq st + 1) (ns_slots st ! si))"
proof -
  have si: "first_index (slot_matches (fnv1a64 r) (fnv1a64 from) r from) (ns_slots st) = Some si"
    using src by (simp add: scan_key [OF ok])
  have occ: "slot_ok p (ns_slots st ! si)" "bs_occupied (ns_slots st ! si)"
    using ns_map_key [OF ok ns_map_at [OF ok src(2,1)]] by simp_all
  have lto: "length to \<le> MAX_PATH p" using fits by (simp add: key_fits_def)
  note mv = move_slot_ok(1,2) [OF occ src(1) lto]
  have tr: "to_rev = (case first_index (slot_matches (fnv1a64 r) (fnv1a64 to) r to) (ns_slots st) of
        Some d \<Rightarrow> (if new_revision \<le> bs_revision (ns_slots st ! d)
                   then bs_revision (ns_slots st ! d) + 1 else new_revision)
      | None \<Rightarrow> new_revision)"
  proof (cases "first_index (slot_matches (fnv1a64 r) (fnv1a64 to) r to) (ns_slots st)")
    case None
    moreover from None have "ns_view st (r, to) = None" by (simp add: scan_key [OF ok] ns_view_def)
    ultimately show ?thesis by (simp add: rev)
  next
    case (Some d)
    then have "ns_map st (r, to) = Some (ns_slots st ! d)"
      using ns_map_at [OF ok] by (simp add: scan_key [OF ok])
    then show ?thesis using Some by (simp add: rev ns_view_def)
  qed
  have puts: "puts p st (r, to) dst (move_slot p to v s (ns_slots st ! si))" for v s
  proof (cases "first_index (slot_matches (fnv1a64 r) (fnv1a64 to) r to) (ns_slots st)")
    case None
    then have "first_index (\<lambda>s. \<not> bs_occupied s) (ns_slots st) = Some dst" using dst by simp
    moreover from None have "ns_map st (r, to) = None" by (simp add: scan_key [OF ok])
    ultimately show ?thesis
      using free_slot_key [of st dst] mv by (simp add: puts_def)
  next
    case (Some d)
    then show ?thesis
      using dst mv scan_keyD(1) [OF ok Some] by (simp add: puts_def)
  qed
  have "dst \<noteq> si"
    using puts [of 0 0] src ne by (auto simp: puts_def)
  then have nth: "(ns_slots st)[dst := x] ! si = ns_slots st ! si" for x by simp
  show ?thesis
    using fits live dst puts
    by (simp add: ns_rename_def key_hash_def rename_scan_ok [OF ok ne] free si Let_def nth
        tr [symmetric] set_slot_def)
qed

lemma ns_rename_abs:
  assumes ok: "ns_ok p st" and ne: "from \<noteq> to"
    and fits: "key_fits p r from []" "key_fits p r to []"
    and run: "ns_rename p st r from to new_revision = (st', res)"
  shows "ns_ok p st' \<and> (ns_view st', res) = abs_rename (ns_full st) (ns_view st) r from to new_revision"
proof (cases "\<exists>w. ns_view st (r, to) = Some w \<and> v_kind w \<noteq> KIND_TOMBSTONE")
  case True
  then have "ns_rename p st r from to new_revision = (st, Inl DestinationOccupied)"
    using fits by (simp add: ns_rename_def key_hash_def rename_scan_ok [OF ok ne])
  with True ok run show ?thesis by (simp add: abs_rename_def)
next
  case free: False
  note scan = rename_scan_ok [OF ok ne, of r]
  show ?thesis
  proof (cases "ns_map st (r, from)")
    case None
    then have fi: "first_index (slot_matches (fnv1a64 r) (fnv1a64 from) r from) (ns_slots st) = None"
      by (simp add: scan_key [OF ok])
    have "ns_rename p st r from to new_revision = (st, Inl NotBound)"
      using fits by (simp add: ns_rename_def key_hash_def scan fi free)
    moreover have "ns_view st (r, from) = None" using None by (simp add: ns_view_def)
    ultimately show ?thesis
      using run free ok by (auto simp: abs_rename_def)
  next
    case (Some src)
    then obtain si where si: "si < length (ns_slots st)" "slot_key (ns_slots st ! si) = Some (r, from)"
      "ns_slots st ! si = src" by (rule ns_map_SomeE [OF ok])
    then have fi: "first_index (slot_matches (fnv1a64 r) (fnv1a64 from) r from) (ns_slots st) = Some si"
      by (simp add: scan_key [OF ok])
    have vf: "ns_view st (r, from) = Some (slot_view src)" using Some by (simp add: ns_view_def)
    show ?thesis
    proof (cases "bs_kind src = KIND_TOMBSTONE \<or> bs_locked src \<noteq> 0")
      case True
      then show ?thesis
        using run free fits ok vf fi si(3)
        by (auto simp: ns_rename_def key_hash_def scan abs_rename_def Let_def)
    next
      case False
      let ?dst = "case first_index (slot_matches (fnv1a64 r) (fnv1a64 to) r to) (ns_slots st) of
                 Some d \<Rightarrow> Some d | None \<Rightarrow> first_index (\<lambda>s. \<not> bs_occupied s) (ns_slots st)"
      have dn: "?dst = None \<longleftrightarrow> ns_full st \<and> ns_view st (r, to) = None"
        using free_slot [of st] scan_key(2) [OF ok, of r to]
        by (cases "first_index (slot_matches (fnv1a64 r) (fnv1a64 to) r to) (ns_slots st)")
          (auto simp: ns_view_def)
      show ?thesis
      proof (cases ?dst)
        case None
        then show ?thesis
          using run free fits ok vf fi si(3) False dn
          by (auto simp: ns_rename_def key_hash_def scan abs_rename_def Let_def)
      next
        case dst: (Some dst)
        define to_rev where "to_rev = (case ns_view st (r, to) of
            Some w \<Rightarrow> if new_revision \<le> v_revision w then v_revision w + 1 else new_revision
          | None \<Rightarrow> new_revision)"
        let ?seq = "ns_change_seq st + 1"
        let ?st1 = "set_slot st dst (move_slot p to to_rev ?seq src) ?seq"
        let ?tomb = "(entomb new_revision (?seq + 1) src)\<lparr>bs_expires_at := 0\<rparr>"
        have lto: "length to \<le> MAX_PATH p" using fits by (simp add: key_fits_def)
        have live: "bs_kind (ns_slots st ! si) \<noteq> KIND_TOMBSTONE" "bs_locked (ns_slots st ! si) = 0"
          using False si(3) by auto
        have eq: "ns_rename p st r from to new_revision =
            (set_slot ?st1 si ?tomb (?seq + 1), Inr (Renamed new_revision))"
          and p1: "puts p st (r, to) dst (move_slot p to to_rev ?seq src)"
          using ns_rename_eq [OF ok ne fits si(2) si(1) live free dst to_rev_def] si(3)
          by (simp_all add: Let_def)
        have ok1: "ns_ok p ?st1" and v1: "ns_view ?st1 = (ns_view st)((r, to) \<mapsto> (slot_view src)\<lparr>v_revision := to_rev\<rparr>)"
          using puts_ok(1) [OF ok p1] view_put [OF ok p1]
            move_slot_ok(3) [OF ns_map_key(2,3) [OF ok Some] _ lto] si by auto
        have "dst \<noteq> si" using p1 si(2) ne by (auto simp: puts_def)
        then have s1: "ns_slots ?st1 ! si = src" "si < length (ns_slots ?st1)"
          using si by (simp_all add: set_slot_def)
        then have p2: "puts p ?st1 (r, from) si ?tomb"
          using puts_entomb [OF ok1 s1(2), of "(r, from)" new_revision "?seq + 1"] si(2,3)
          by (simp add: puts_def)
        show ?thesis
          using run eq puts_ok(1) [OF ok1 p2] view_put [OF ok1 p2] v1 free False vf dn dst
          by (auto simp: abs_rename_def to_rev_def entomb_view Let_def)
      qed
    qed
  qed
qed

section \<open>Lock, expiry, eviction and the compactor's marks\<close>

lemma edit_live_ok:
  assumes ok: "ns_ok p st"
    and f: "\<And>s. slot_key (f s) = slot_key s" "\<And>s. slot_ok p (f s) = slot_ok p s"
    and run: "edit_live st r q f = (st', res)"
  shows "ns_ok p st' \<and>
    (case ns_map st (r, q) of
       Some s \<Rightarrow> if bs_kind s \<noteq> KIND_TOMBSTONE
                 then ns_map st' = (ns_map st)((r, q) \<mapsto> f s) \<and> res = Inr (Bound (bs_revision s))
                 else st' = st \<and> res = Inl NotBound
     | None \<Rightarrow> st' = st \<and> res = Inl NotBound)"
proof -
  let ?P = "\<lambda>s. slot_matches (fnv1a64 r) (fnv1a64 q) r q s \<and> bs_kind s \<noteq> KIND_TOMBSTONE"
  have key: "slot_matches (fnv1a64 r) (fnv1a64 q) r q s \<longleftrightarrow> slot_key s = Some (r, q)"
    if "s \<in> set (ns_slots st)" for s
    using that ok key_hits_key [of p s "(r, q)"] by (simp add: key_hits_pair ns_ok_def arena_ok_def)
  show ?thesis
  proof (cases "first_index ?P (ns_slots st)")
    case None
    then have "\<forall>s. ns_map st (r, q) = Some s \<longrightarrow> bs_kind s = KIND_TOMBSTONE"
      by (auto simp: first_index_None key elim!: ns_map_SomeE [OF ok])
    with None run ok show ?thesis
      by (auto simp: edit_live_def key_hash_def split: option.split)
  next
    case (Some i)
    then have i: "i < length (ns_slots st)" "slot_key (ns_slots st ! i) = Some (r, q)"
      "bs_kind (ns_slots st ! i) \<noteq> KIND_TOMBSTONE"
      using key by (auto dest!: first_index_SomeD)
    note at = ns_map_at [OF ok i(1,2)]
    have "puts p st (r, q) i (f (ns_slots st ! i))"
      using i ns_map_key [OF ok at] by (simp add: puts_def f)
    from puts_ok [OF ok this, of "ns_change_seq st"] run Some at i show ?thesis
      by (auto simp: edit_live_def key_hash_def set_slot_def Let_def)
  qed
qed

lemma evict_ok:
  assumes ok: "ns_ok p st" and run: "ns_evict p st spare = (st', freed)"
  shows "ns_ok p st' \<and>
    (if freed then \<exists>k s. ns_map st k = Some s \<and> ns_map st' = (ns_map st)(k := None) \<and>
                         bs_snapshotted s \<noteq> 0 \<and> bs_locked s = 0 \<and> spare \<noteq> Some k \<and>
                         ns_change_horizon st' = max (ns_change_horizon st) (bs_change_rev s)
     else st' = st)"
proof -
  let ?P = "\<lambda>s. \<not> (case spare of None \<Rightarrow> False | Some k \<Rightarrow> key_hits k s) \<and>
                \<not> bs_locked s \<noteq> 0 \<and> bs_occupied s \<and> bs_snapshotted s \<noteq> 0"
  show ?thesis
  proof (cases "first_index ?P (ns_slots st)")
    case None
    with run ok show ?thesis by (auto simp: ns_evict_def)
  next
    case (Some i)
    then have i: "i < length (ns_slots st)" "?P (ns_slots st ! i)"
      by (auto dest!: first_index_SomeD)
    then obtain k where k: "slot_key (ns_slots st ! i) = Some k" by (simp add: slot_key_def)
    note at = ns_map_at [OF ok i(1) k]
    have sp: "spare \<noteq> Some k"
      using i(2) k key_hits_key [OF ns_map_key(2) [OF ok at], of k] by auto
    have "arena_ok (slot_ok p) slot_key ((ns_slots st)[i := empty_slot p])"
      "arena_map key_hits ((ns_slots st)[i := empty_slot p]) = (arena_map key_hits (ns_slots st))(k := None)"
      using ok i k ns.del_ok [of p "ns_slots st" "empty_slot p" i]
        ns.del_map [of p "ns_slots st" i "empty_slot p" k] by (simp_all add: ns_ok_def)
    then have "ns_ok p st'" "ns_map st' = (ns_map st)(k := None)"
      "ns_change_horizon st' = max (ns_change_horizon st) (bs_change_rev (ns_slots st ! i))" "freed"
      using run Some by (auto simp: ns_evict_def forget_change_def ns_ok_def ns_map_def max_def)
    moreover from this have "\<exists>k s. ns_map st k = Some s \<and> ns_map st' = (ns_map st)(k := None) \<and>
        bs_snapshotted s \<noteq> 0 \<and> bs_locked s = 0 \<and> spare \<noteq> Some k \<and>
        ns_change_horizon st' = max (ns_change_horizon st) (bs_change_rev s)"
      using at i(2) sp by (intro exI [of _ k] exI [of _ "ns_slots st ! i"]) simp
    ultimately show ?thesis by simp
  qed
qed

lemma remark_ok:
  assumes ok: "ns_ok p st"
    and same: "list_all2 (\<lambda>s t. slot_key t = slot_key s \<and> (slot_ok p s \<longrightarrow> slot_ok p t) \<and>
                 slot_view t = slot_view s) (ns_slots st) ts"
  shows "ns_ok p (st\<lparr>ns_slots := ts\<rparr>)" "ns_view (st\<lparr>ns_slots := ts\<rparr>) = ns_view st"
proof -
  have len: "length ts = length (ns_slots st)" using same by (simp add: list_all2_lengthD)
  have nth: "slot_key (ts ! i) = slot_key (ns_slots st ! i)" "slot_ok p (ns_slots st ! i) \<Longrightarrow> slot_ok p (ts ! i)"
    "slot_view (ts ! i) = slot_view (ns_slots st ! i)" if "i < length ts" for i
    using that same len by (simp_all add: list_all2_conv_all_nth)
  show ok': "ns_ok p (st\<lparr>ns_slots := ts\<rparr>)"
    using ok len nth by (simp add: ns_ok_def arena_ok_def all_set_conv_all_nth) blast
  show "ns_view (st\<lparr>ns_slots := ts\<rparr>) = ns_view st"
  proof
    fix k
    show "ns_view (st\<lparr>ns_slots := ts\<rparr>) k = ns_view st k"
    proof (cases "ns_map st k")
      case None
      then have "ns_map (st\<lparr>ns_slots := ts\<rparr>) k = None"
        using ok ok' len nth by (simp add: ns_map_def ns_ok_def ns.map_None)
      with None show ?thesis by (simp add: ns_view_def)
    next
      case (Some s)
      then obtain i where "i < length (ns_slots st)" "slot_key (ns_slots st ! i) = Some k" "ns_slots st ! i = s"
        by (rule ns_map_SomeE [OF ok])
      then have "ns_map (st\<lparr>ns_slots := ts\<rparr>) k = Some (ts ! i)" "slot_view (ts ! i) = slot_view s"
        using ns_map_at [OF ok', of i k] len nth by auto
      with Some show ?thesis by (simp add: ns_view_def)
    qed
  qed
qed

lemma mark_emitted_ok:
  assumes "ns_ok p st"
  shows "ns_ok p (mark_emitted st i tag)" "ns_view (mark_emitted st i tag) = ns_view st"
  using assms
  by (auto simp: mark_emitted_def list_all2_conv_all_nth nth_list_update intro!: remark_ok)

lemma finalize_emitted_ok:
  assumes "ns_ok p st"
  shows "ns_ok p (finalize_emitted st tag)" "ns_view (finalize_emitted st tag) = ns_view st"
  using assms
  by (auto simp: finalize_emitted_def list_all2_conv_all_nth intro!: remark_ok)

end
