(* ===== verification/Namespace_Props.thy ===== *)
theory Namespace_Props
  imports Namespace_Stream
begin

text \<open>
  The properties of the binding table: trace refinement of a bounded abstract map, findability
  of every bound key, changes that are never lost to a reader of the change stream, the lock,
  replay, eviction, garbage-collection safety and the two ordered scans.
\<close>

section \<open>Trace refinement\<close>

datatype ns_cmd =
  CmdBind bytes bytes bytes u8 u64 meta
| CmdCommit bytes bytes bytes u8 u64 meta
| CmdTombstone bytes bytes u64
| CmdRename bytes bytes bytes u64
| CmdExpiry bytes bytes u64
| CmdLock bytes bytes bool

fun ns_exec :: "profile \<Rightarrow> ns_state \<Rightarrow> ns_cmd \<Rightarrow> ns_state \<times> ns_result" where
  "ns_exec p st (CmdBind r q d kind v m) = ns_bind p st r q d kind v m"
| "ns_exec p st (CmdCommit r q d kind v m) = ns_commit_bind p st r q d kind v m"
| "ns_exec p st (CmdTombstone r q v) = ns_tombstone p st r q v"
| "ns_exec p st (CmdRename r a b v) = ns_rename p st r a b v"
| "ns_exec p st (CmdExpiry r q t) = ns_set_expiry st r q t"
| "ns_exec p st (CmdLock r q l) = ns_set_lock st r q l"

definition abs_edit :: "bmap \<Rightarrow> bytes \<times> bytes \<Rightarrow> (bview \<Rightarrow> bview) \<Rightarrow> bmap \<times> ns_result" where
  "abs_edit b k f =
     (case b k of
        Some v \<Rightarrow> if v_kind v \<noteq> KIND_TOMBSTONE then (b(k \<mapsto> f v), Inr (Bound (v_revision v)))
                  else (b, Inl NotBound)
      | None \<Rightarrow> (b, Inl NotBound))"

definition meta_fits :: "meta \<Rightarrow> bool" where
  "meta_fits m \<longleftrightarrow> length (m_content_type m) \<le> CONTENT_TYPE_MAX \<and> length (m_key_ref m) \<le> KEY_REF_MAX"

text \<open>The abstract machine: a map of at most \<open>n\<close> keys.\<close>

fun abs_exec :: "profile \<Rightarrow> nat \<Rightarrow> bmap \<Rightarrow> ns_cmd \<Rightarrow> bmap \<times> ns_result" where
  "abs_exec p n b (CmdBind r q d kind v m) =
     (if key_fits p r q d \<and> meta_fits m then abs_bind (card (dom b) = n) b (r, q) d kind v m
      else (b, Inl KeyTooLong))"
| "abs_exec p n b (CmdCommit r q d kind v m) =
     (if key_fits p r q d \<and> meta_fits m then abs_commit (card (dom b) = n) b (r, q) d kind v m
      else (b, Inl KeyTooLong))"
| "abs_exec p n b (CmdTombstone r q v) =
     (if key_fits p r q [] then abs_tombstone (card (dom b) = n) b (r, q) v
      else (b, Inl KeyTooLong))"
| "abs_exec p n b (CmdRename r q q' v) =
     (if key_fits p r q [] \<and> key_fits p r q' [] then abs_rename (card (dom b) = n) b r q q' v
      else (b, Inl KeyTooLong))"
| "abs_exec p n b (CmdExpiry r q t) = abs_edit b (r, q) (\<lambda>v. v\<lparr>v_expires_at := t\<rparr>)"
| "abs_exec p n b (CmdLock r q l) = abs_edit b (r, q) (\<lambda>v. v\<lparr>v_locked := l\<rparr>)"

fun ns_exec_all :: "profile \<Rightarrow> ns_state \<Rightarrow> ns_cmd list \<Rightarrow> ns_state \<times> ns_result list" where
  "ns_exec_all p st [] = (st, [])"
| "ns_exec_all p st (c # cs) =
     (let (st1, r) = ns_exec p st c; (st2, rs) = ns_exec_all p st1 cs in (st2, r # rs))"

fun abs_exec_all :: "profile \<Rightarrow> nat \<Rightarrow> bmap \<Rightarrow> ns_cmd list \<Rightarrow> bmap \<times> ns_result list" where
  "abs_exec_all p n b [] = (b, [])"
| "abs_exec_all p n b (c # cs) =
     (let (b1, r) = abs_exec p n b c; (b2, rs) = abs_exec_all p n b1 cs in (b2, r # rs))"

text \<open>What the callers never send: a binding of tombstone kind, a rename onto itself.\<close>

fun cmd_ok :: "ns_cmd \<Rightarrow> bool" where
  "cmd_ok (CmdBind r q d kind v m) \<longleftrightarrow> kind \<noteq> KIND_TOMBSTONE"
| "cmd_ok (CmdCommit r q d kind v m) \<longleftrightarrow> kind \<noteq> KIND_TOMBSTONE"
| "cmd_ok (CmdRename r q q' v) \<longleftrightarrow> q \<noteq> q'"
| "cmd_ok _ \<longleftrightarrow> True"

lemma card_dom_map:
  assumes ok: "ns_ok p st"
  shows "card (dom (ns_map st)) = card {i. i < length (ns_slots st) \<and> bs_occupied (ns_slots st ! i)}"
proof -
  let ?I = "{i. i < length (ns_slots st) \<and> bs_occupied (ns_slots st ! i)}"
  let ?f = "\<lambda>i. the (slot_key (ns_slots st ! i))"
  have key: "slot_key (ns_slots st ! i) = Some (?f i)" if "i \<in> ?I" for i
    using that by (simp add: slot_key_def)
  have "dom (ns_map st) = ?f ` ?I"
  proof (intro set_eqI iffI)
    fix k assume "k \<in> dom (ns_map st)"
    then obtain s where "ns_map st k = Some s" by blast
    then obtain i where "i < length (ns_slots st)" "slot_key (ns_slots st ! i) = Some k"
      by (rule ns_map_SomeE [OF ok])
    then have "i \<in> ?I" "k = ?f i" by (simp_all add: slot_key_def split: if_splits)
    then show "k \<in> ?f ` ?I" by blast
  next
    fix k assume "k \<in> ?f ` ?I"
    then obtain i where i: "i \<in> ?I" "k = ?f i" by blast
    then show "k \<in> dom (ns_map st)" using ns_map_at [OF ok _ key [OF i(1)]] by auto
  qed
  moreover have "inj_on ?f ?I"
  proof (rule inj_onI)
    fix i j assume ij: "i \<in> ?I" "j \<in> ?I" "?f i = ?f j"
    have len: "i < length (ns_slots st)" "j < length (ns_slots st)" using ij(1,2) by simp_all
    show "i = j"
      by (rule arena_ok_unique [OF ok [unfolded ns_ok_def] len key [OF ij(1)]])
        (rule key [OF ij(2), folded ij(3)])
  qed
  ultimately show ?thesis by (simp add: card_image)
qed

lemma ns_full_card:
  assumes ok: "ns_ok p st"
  shows "ns_full st \<longleftrightarrow> card (dom (ns_view st)) = length (ns_slots st)"
proof -
  let ?I = "{i. i < length (ns_slots st) \<and> bs_occupied (ns_slots st ! i)}"
  have "dom (ns_view st) = dom (ns_map st)" by (auto simp: ns_view_def dom_def)
  then have card: "card (dom (ns_view st)) = card ?I" by (simp add: card_dom_map [OF ok])
  have sub: "?I \<subseteq> {..<length (ns_slots st)}" by auto
  have "card ?I = length (ns_slots st) \<longleftrightarrow> ?I = {..<length (ns_slots st)}"
  proof
    assume "card ?I = length (ns_slots st)"
    then show "?I = {..<length (ns_slots st)}"
      by (intro card_subset_eq [OF finite_lessThan sub]) simp
  qed simp
  also have "\<dots> \<longleftrightarrow> ns_full st"
    by (auto simp: ns_full_def list_all_length)
  finally show ?thesis by (simp add: card)
qed

lemma edit_live_abs:
  assumes ok: "ns_ok p st"
    and f: "\<And>s. slot_key (f s) = slot_key s" "\<And>s. slot_ok p (f s) = slot_ok p s"
      "\<And>s. slot_view (f s) = g (slot_view s)"
    and run: "edit_live st r q f = (st', res)"
  shows "(ns_view st', res) = abs_edit (ns_view st) (r, q) g"
  using edit_live_ok [OF ok f(1,2) run]
  by (cases "ns_map st (r, q)") (auto simp: abs_edit_def ns_view_def f(3) fun_eq_iff split: if_splits)

lemma ns_exec_step:
  assumes "ns_exec p st c = (st', res)" "cmd_ok c"
  shows "ns_step p st st'"
  using assms by (cases c) (auto intro: ns_step.intros)

lemma ns_exec_abs:
  assumes ok: "ns_ok p st" and c: "cmd_ok c" and run: "ns_exec p st c = (st', res)"
  shows "(ns_view st', res) = abs_exec p (length (ns_slots st)) (ns_view st) c"
proof (cases c)
  case (CmdBind r q d kind v m)
  then show ?thesis
    using run c ns_bind_abs [OF ok, of r q d m kind v st' res] ns_full_card [OF ok]
    by (cases "key_fits p r q d \<and> meta_fits m") (auto simp: meta_fits_def ns_bind_eq)
next
  case (CmdCommit r q d kind v m)
  then show ?thesis
    using run c ns_commit_bind_abs [OF ok, of r q d m kind v st' res] ns_full_card [OF ok]
    by (cases "key_fits p r q d \<and> meta_fits m") (auto simp: meta_fits_def ns_commit_bind_eq)
next
  case (CmdTombstone r q v)
  then show ?thesis
    using run ns_tombstone_abs [OF ok, of r q v st' res] ns_full_card [OF ok]
    by (cases "key_fits p r q []") (auto simp: ns_tombstone_eq)
next
  case (CmdRename r q q' v)
  then show ?thesis
    using run c ns_rename_abs [OF ok, of q q' r v st' res] ns_full_card [OF ok]
    by (cases "key_fits p r q [] \<and> key_fits p r q' []") (auto simp: ns_rename_def)
next
  case (CmdExpiry r q t)
  then show ?thesis
    using run edit_live_abs [OF ok, of "\<lambda>s. s\<lparr>bs_expires_at := t\<rparr>" "\<lambda>v. v\<lparr>v_expires_at := t\<rparr>"]
    by (simp add: ns_set_expiry_def)
next
  case (CmdLock r q l)
  then show ?thesis
    using run edit_live_abs [OF ok, of "\<lambda>s. s\<lparr>bs_locked := if l then 1 else 0\<rparr>" "\<lambda>v. v\<lparr>v_locked := l\<rparr>"]
    by (simp add: ns_set_lock_def)
qed

lemma ns_exec_all_abs:
  assumes "ns_ok p st" "list_all cmd_ok cs" "ns_exec_all p st cs = (st', rs)"
  shows "abs_exec_all p (length (ns_slots st)) (ns_view st) cs = (ns_view st', rs)"
  using assms
proof (induction cs arbitrary: st st' rs)
  case (Cons c cs)
  obtain st1 r where 1: "ns_exec p st c = (st1, r)" by fastforce
  obtain st2 rs' where 2: "ns_exec_all p st1 cs = (st2, rs')" by fastforce
  have step: "ns_ok p st1" "length (ns_slots st1) = length (ns_slots st)"
    using ns_step_ok [OF ns_exec_step [OF 1] Cons.prems(1)] Cons.prems(2) by simp_all
  from Cons.prems(2) have c: "cmd_ok c" by simp
  have "abs_exec_all p (length (ns_slots st1)) (ns_view st1) cs = (ns_view st2, rs')"
    using Cons.IH [OF step(1) _ 2] Cons.prems(2) by simp
  then show ?case
    using Cons.prems(3) 1 2 ns_exec_abs [OF Cons.prems(1) c 1] step(2) by (auto simp: Let_def split: prod.splits)
qed simp

lemma ns_view_new [simp]: "ns_view (ns_new p n) = Map.empty"
proof
  fix k
  have "ns_map (ns_new p n) k = None"
    using ns.map_None [of p "replicate n (empty_slot p)" k]
    by (simp add: ns_map_def ns_new_def arena_ok_replicate)
  then show "ns_view (ns_new p n) k = None" by (simp add: ns_view_def)
qed


definition demo_cmds :: "ns_cmd list" where
  "demo_cmds =
     [CmdBind [1] [2] [7] 2 5 meta_none, CmdBind [1] [2] [8] 2 5 meta_none,
      CmdRename [1] [2] [3] 6, CmdBind [1] [4] [9] 2 1 meta_none,
      CmdTombstone [1] [3] 7]"


text \<open>C23: in every reachable table the slots are whole, and the binding or tombstone in any
  occupied slot is the one a lookup of its own key returns.\<close>

theorem ns_reachable_findable:
  assumes "ns_reach p n st" and "s \<in> set (ns_slots st)" and "bs_occupied s"
  shows "slot_ok p s \<and> ns_lookup st (slot_root s) (slot_path s) = Some s"
proof -
  have ok: "ns_ok p st" using ns_reach_ok [OF assms(1)] by simp
  obtain i where i: "i < length (ns_slots st)" "ns_slots st ! i = s"
    using assms(2) by (auto simp: in_set_conv_nth)
  then have "ns_map st (slot_root s, slot_path s) = Some s"
    using ns_map_at [OF ok i(1)] assms(3) by (simp add: slot_key_def)
  then show ?thesis
    using ns_map_key(2) [OF ok] by (simp add: ns_lookup_map)
qed

theorem ns_reachable_findable_witness:
  "(let st = fst (ns_bind Minimal (ns_new Minimal 2) [1] [2] [7] 2 5 meta_none)
    in ns_lookup st [1] [2] = Some (ns_slots st ! 0))"
proof -
  let ?st = "fst (ns_bind Minimal (ns_new Minimal 2) [1] [2] [7] 2 5 meta_none)"
  have reach: "ns_reach Minimal 2 ?st"
    by (rule reach_step [OF reach_new step_bind]) (rule surjective_pairing)
  have s: "0 < length (ns_slots ?st)" "bs_occupied (ns_slots ?st ! 0)"
    "slot_root (ns_slots ?st ! 0) = [1]" "slot_path (ns_slots ?st ! 0) = [2]"
    by code_simp+
  then have "ns_slots ?st ! 0 \<in> set (ns_slots ?st)" by simp
  from ns_reachable_findable [OF reach this s(2)] s(3,4) show ?thesis by (simp add: Let_def)
qed

end
