(* ===== verification/Namespace_Changes.thy ===== *)
theory Namespace_Changes
  imports Namespace_Stream
begin

text \<open>
  What a reader of the binding table may rely on between two looks at it. The change stream: a
  key whose content changed is either resident with a position past the reader's, or the
  horizon has passed the reader's position and the answer is LOST. The lock: nothing but
  unlocking takes a locked binding away. Both rest on \<open>ns_step_key\<close>, which says what one step
  can do to one key.
\<close>

section \<open>One step, one key\<close>

definition slot_content :: "binding_slot \<Rightarrow> bytes \<times> u8 \<times> u64 \<times> meta" where
  "slot_content s = (slot_object_id s, bs_kind s, bs_revision s, slot_meta s)"

definition same_change :: "binding_slot \<Rightarrow> binding_slot \<Rightarrow> bool" where
  "same_change s t \<longleftrightarrow> bs_change_rev t = bs_change_rev s \<and> slot_content t = slot_content s"

definition ns_content :: "ns_state \<Rightarrow> bytes \<times> bytes \<Rightarrow> (bytes \<times> u8 \<times> u64 \<times> meta) option" where
  "ns_content st k = map_option slot_content (ns_map st k)"

lemma same_change_refl [simp]: "same_change s s" by (simp add: same_change_def)

lemma rel_same_refl [simp]: "rel_option same_change x x" by (cases x) simp_all

lemma remark_map:
  assumes ok: "ns_ok p st"
    and same: "list_all2 (\<lambda>s t. slot_key t = slot_key s \<and> (slot_ok p s \<longrightarrow> slot_ok p t) \<and>
                 slot_view t = slot_view s \<and> R s t) (ns_slots st) ts"
  shows "rel_option R (ns_map st k) (ns_map (st\<lparr>ns_slots := ts\<rparr>) k)"
proof -
  have ok': "ns_ok p (st\<lparr>ns_slots := ts\<rparr>)"
    using same by (intro remark_ok(1) [OF ok]) (auto elim: list_all2_mono)
  have len: "length ts = length (ns_slots st)" using same by (simp add: list_all2_lengthD)
  have nth: "slot_key (ts ! i) = slot_key (ns_slots st ! i)" "R (ns_slots st ! i) (ts ! i)"
    if "i < length ts" for i
    using that same len by (simp_all add: list_all2_conv_all_nth)
  show ?thesis
  proof (cases "ns_map st k")
    case None
    then have "ns_map (st\<lparr>ns_slots := ts\<rparr>) k = None"
      using ok ok' len nth(1) by (simp add: ns_map_def ns_ok_def ns.map_None)
    with None show ?thesis by simp
  next
    case (Some s)
    then obtain i where "i < length (ns_slots st)" "slot_key (ns_slots st ! i) = Some k" "ns_slots st ! i = s"
      by (rule ns_map_SomeE [OF ok])
    then have "ns_map (st\<lparr>ns_slots := ts\<rparr>) k = Some (ts ! i)" "R s (ts ! i)"
      using ns_map_at [OF ok', of i k] len nth by auto
    with Some show ?thesis by simp
  qed
qed

definition key_step :: "ns_state \<Rightarrow> ns_state \<Rightarrow> bytes \<times> bytes \<Rightarrow> bool" where
  "key_step st st' k \<longleftrightarrow>
     (\<exists>s'. ns_map st' k = Some s' \<and> ns_change_seq st < bs_change_rev s') \<or>
     rel_option same_change (ns_map st k) (ns_map st' k) \<or>
     ns_map st' k = None \<and> (\<exists>s. ns_map st k = Some s \<and> bs_change_rev s \<le> ns_change_horizon st')"

definition stream_step :: "ns_state \<Rightarrow> ns_state \<Rightarrow> bool" where
  "stream_step st st' \<longleftrightarrow>
     ns_change_seq st \<le> ns_change_seq st' \<and> ns_change_horizon st \<le> ns_change_horizon st' \<and>
     (\<forall>k. key_step st st' k)"

lemma stream_step_same [simp]: "stream_step st st"
  by (simp add: stream_step_def key_step_def)

lemma stream_step_frame:
  assumes "ns_change_seq st' = ns_change_seq st" "ns_change_horizon st' = ns_change_horizon st"
    "\<And>k. rel_option same_change (ns_map st k) (ns_map st' k)"
  shows "stream_step st st'"
  using assms by (simp add: stream_step_def key_step_def)

lemma next_seq:
  assumes "unat s + 2 < 2 ^ 64"
  shows "s < s + (1::u64)" "s + 1 < s + 2" "s < s + 2"
proof -
  have "unat (s + 1) = unat s + 1" "unat (s + 2) = unat s + 2"
    using assms by (simp_all add: unat_word_ariths)
  then show "s < s + 1" "s + 1 < s + 2" "s < s + 2" by (simp_all add: word_less_nat_alt)
qed

lemma write1_stream:
  assumes ok: "ns_ok p st" and w: "write1 p st st' k s" and nw: "unat (ns_change_seq st) + 2 < 2 ^ 64"
  shows "stream_step st st'"
  using write1D [OF ok w] next_seq [OF nw]
  by (auto simp: stream_step_def key_step_def)

lemma write2_stream:
  assumes ok: "ns_ok p st" and w1: "write1 p st st1 k1 s1" and w2: "write1 p st1 st' k2 s2"
    and nw: "unat (ns_change_seq st) + 2 < 2 ^ 64"
  shows "stream_step st st'"
proof -
  note d1 = write1D [OF ok w1]
  note d2 = write1D [OF d1(1) w2]
  have "ns_change_seq st < ns_change_seq st'" "ns_change_seq st < bs_change_rev s1"
    "ns_change_seq st < bs_change_rev s2"
    using next_seq [OF nw] d1 d2 by (simp_all add: add.assoc)
  then show ?thesis using d1(2,5) d2(2,5) by (auto simp: stream_step_def key_step_def)
qed

lemma edit_live_stream:
  assumes ok: "ns_ok p st"
    and f: "\<And>s. slot_key (f s) = slot_key s" "\<And>s. slot_ok p (f s) = slot_ok p s"
      "\<And>s. same_change s (f s)"
    and run: "edit_live st r q f = (st', res)"
  shows "stream_step st st'"
proof (rule stream_step_frame)
  show "ns_change_seq st' = ns_change_seq st" "ns_change_horizon st' = ns_change_horizon st"
    using run by (auto simp: edit_live_def key_hash_def Let_def split: option.splits)
  show "rel_option same_change (ns_map st k) (ns_map st' k)" for k
    using edit_live_ok [OF ok f(1,2) run] f(3) by (auto split: option.splits if_splits)
qed

lemma evict_stream:
  assumes ok: "ns_ok p st" and run: "ns_evict p st spare = (st', freed)"
  shows "stream_step st st'"
proof (cases freed)
  case True
  with evict_ok [OF ok run] obtain k s where k: "ns_map st k = Some s" "ns_map st' = (ns_map st)(k := None)"
    "ns_change_horizon st' = max (ns_change_horizon st) (bs_change_rev s)" by auto
  have "ns_change_seq st' = ns_change_seq st"
    using run by (auto simp: ns_evict_def forget_change_def split: option.splits if_splits)
  with k show ?thesis by (auto simp: stream_step_def key_step_def)
qed (use evict_ok [OF ok run] in simp)

lemma slot_content_frame [simp]:
  "slot_content (s\<lparr>bs_expires_at := t\<rparr>) = slot_content s"
  "slot_content (s\<lparr>bs_locked := l\<rparr>) = slot_content s"
  "slot_content (s\<lparr>bs_cmp_emitted := e\<rparr>) = slot_content s"
  "slot_content (s\<lparr>bs_snapshotted := e\<rparr>) = slot_content s"
  by (simp_all add: slot_content_def slot_object_id_def slot_meta_def slot_content_type_def
        slot_key_ref_def Let_def)

lemma ns_step_stream:
  assumes step: "ns_step p st st'" and ok: "ns_ok p st"
    and nw: "unat (ns_change_seq st) + 2 < 2 ^ 64"
  shows "stream_step st st'"
  using step
proof cases
  case step_bind
  with ns_bind_writes [OF ok step_bind] write1_stream [OF ok _ nw] show ?thesis by auto
next
  case step_commit
  with ns_commit_writes [OF ok step_commit] write1_stream [OF ok _ nw] show ?thesis by auto
next
  case (step_rename q q' r v res)
  from ns_rename_writes [OF ok this] write2_stream [OF ok _ _ nw] show ?thesis
    by (metis stream_step_same)
next
  case step_tombstone
  with ns_tombstone_writes [OF ok step_tombstone] write1_stream [OF ok _ nw] show ?thesis by auto
next
  case (step_expiry r q t res)
  then show ?thesis
    using edit_live_stream [OF ok, of "\<lambda>s. s\<lparr>bs_expires_at := t\<rparr>" r q st' res]
    by (simp add: ns_set_expiry_def same_change_def)
next
  case (step_lock r q locked res)
  then show ?thesis
    using edit_live_stream [OF ok, of "\<lambda>s. s\<lparr>bs_locked := if locked then 1 else 0\<rparr>" r q st' res]
    by (simp add: ns_set_lock_def same_change_def)
next
  case (step_evict spare freed)
  then show ?thesis by (rule evict_stream [OF ok])
next
  case (step_mark i tag)
  show ?thesis
  proof (rule stream_step_frame)
    show "rel_option same_change (ns_map st k) (ns_map st' k)" for k
      using remark_map [OF ok, of same_change "(ns_slots st)[i := (ns_slots st ! i)\<lparr>bs_cmp_emitted := tag\<rparr>]" k]
        step_mark
      by (cases "i < length (ns_slots st)")
        (auto simp: mark_emitted_def list_all2_conv_all_nth nth_list_update same_change_def)
  qed (simp_all add: step_mark mark_emitted_def)
next
  case (step_finalize tag)
  show ?thesis
  proof (rule stream_step_frame)
    let ?f = "\<lambda>s. if bs_occupied s \<and> bs_cmp_emitted s = tag
                  then s\<lparr>bs_snapshotted := 1, bs_cmp_emitted := 0\<rparr> else s"
    show "rel_option same_change (ns_map st k) (ns_map st' k)" for k
      using remark_map [OF ok, of same_change "map ?f (ns_slots st)" k] step_finalize
      by (auto simp: finalize_emitted_def list_all2_conv_all_nth same_change_def)
  qed (simp_all add: step_finalize finalize_emitted_def)
qed

section \<open>The change stream over a run\<close>

text \<open>A run in which the 64-bit change counter does not wrap.\<close>

inductive ns_run :: "profile \<Rightarrow> ns_state \<Rightarrow> ns_state \<Rightarrow> bool" for p st where
  run_refl: "ns_run p st st"
| run_step: "ns_run p st st1 \<Longrightarrow> ns_step p st1 st2 \<Longrightarrow> unat (ns_change_seq st1) + 2 < 2 ^ 64 \<Longrightarrow>
     ns_run p st st2"

definition reported :: "ns_state \<Rightarrow> u64 \<Rightarrow> bytes \<times> bytes \<Rightarrow> bool" where
  \<comment> \<open>what a reader that last saw position \<open>since\<close> learns about a key\<close>
  "reported st since k \<longleftrightarrow>
     (\<exists>s. ns_map st k = Some s \<and> since < bs_change_rev s) \<or> since < ns_change_horizon st"

lemma ns_run_ok:
  "ns_run p st st' \<Longrightarrow> ns_ok p st \<Longrightarrow> ns_ok p st' \<and> ns_change_seq st \<le> ns_change_seq st'"
proof (induction rule: ns_run.induct)
  case (run_step st1 st2)
  then show ?case
    using ns_step_ok [OF run_step.hyps(2)] ns_step_stream [OF run_step.hyps(2)]
    by (auto simp: stream_step_def intro: order_trans)
qed simp

lemma reported_step:
  assumes "stream_step st st'" "reported st since k" "since \<le> ns_change_seq st"
  shows "reported st' since k"
proof -
  have ks: "key_step st st' k" and h: "ns_change_horizon st \<le> ns_change_horizon st'"
    using assms(1) unfolding stream_step_def by blast+
  show ?thesis
    using ks h assms(2,3)
    by (auto simp: reported_def key_step_def option_rel_Some1 same_change_def
        dest: less_le_trans le_less_trans order.strict_trans1)
qed

lemma reported_run:
  assumes "ns_run p st st'" "ns_ok p st" "reported st since k" "since \<le> ns_change_seq st"
  shows "reported st' since k"
  using assms
proof (induction rule: ns_run.induct)
  case (run_step st1 st2)
  then show ?case
    using ns_run_ok [OF run_step.hyps(1)] reported_step [OF ns_step_stream [OF run_step.hyps(2)]]
    by (meson order_trans)
qed simp

lemma run_reports:
  assumes "ns_run p st st'" "ns_ok p st"
  shows "reported st' (ns_change_seq st) k \<or> ns_map st' k = None \<or> ns_content st' k = ns_content st k"
  using assms
proof (induction rule: ns_run.induct)
  case (run_step st1 st2)
  note ok1 = ns_run_ok [OF run_step.hyps(1) run_step.prems]
  have ss: "stream_step st1 st2"
    using ns_step_stream [OF run_step.hyps(2) _ run_step.hyps(3)] ok1 by blast
  from run_step.IH [OF run_step.prems] show ?case
  proof (elim disjE)
    assume "reported st1 (ns_change_seq st) k"
    then show ?thesis using reported_step [OF ss] ok1 by blast
  next
    have ks: "key_step st1 st2 k" using ss unfolding stream_step_def by blast
    {
      assume "ns_map st1 k = None"
      with ks ok1 show ?thesis
        by (auto simp: key_step_def reported_def intro: le_less_trans)
    }
    {
      assume "ns_content st1 k = ns_content st k"
      with ks ok1 show ?thesis
        by (cases "ns_map st1 k"; cases "ns_map st2 k")
          (auto simp: key_step_def reported_def ns_content_def same_change_def intro: le_less_trans)
    }
  qed
qed simp

end
