(* ===== verification/Namespace_Scan.thy ===== *)
theory Namespace_Scan
  imports Namespace_Stream
begin

text \<open>
  The ordered scans. Each \<open>while\<close> loop that keeps the best index so far is
  \<open>best_index\<close> over the occupied slots' keys, so it picks the least key; the compactor's merge
  cursor, iterated, lists the table's keys in order.
\<close>

section \<open>The compactor's merge cursor\<close>

definition occ_key :: "ns_state \<Rightarrow> nat \<Rightarrow> bytes \<times> bytes" where
  "occ_key st i = (slot_root (ns_slots st ! i), slot_path (ns_slots st ! i))"

lemma min_key_above_best:
  "min_key_above st after =
     best_index (\<lambda>i. bs_occupied (ns_slots st ! i) \<and> (\<forall>k. after = Some k \<longrightarrow> k < occ_key st i))
       (occ_key st) (length (ns_slots st))"
  unfolding min_key_above_def best_index_def
  by (intro fold_cong) (auto simp: key_cmp_lex occ_key_def Let_def fun_eq_iff split: option.split)

lemma occ_key_dom:
  assumes "ns_ok p st"
  shows "ns_map st k \<noteq> None \<longleftrightarrow>
    (\<exists>i < length (ns_slots st). bs_occupied (ns_slots st ! i) \<and> occ_key st i = k)"
proof
  assume "ns_map st k \<noteq> None"
  then obtain s where "ns_map st k = Some s" by blast
  then obtain i where "i < length (ns_slots st)" "slot_key (ns_slots st ! i) = Some k"
    by (rule ns_map_SomeE [OF assms])
  then show "\<exists>i < length (ns_slots st). bs_occupied (ns_slots st ! i) \<and> occ_key st i = k"
    by (auto simp: slot_key_def occ_key_def split: if_splits)
next
  assume "\<exists>i < length (ns_slots st). bs_occupied (ns_slots st ! i) \<and> occ_key st i = k"
  then show "ns_map st k \<noteq> None"
    using ns_map_at [OF assms] by (auto simp: slot_key_def occ_key_def)
qed

lemma occ_key_map:
  assumes "ns_ok p st" "i < length (ns_slots st)" "bs_occupied (ns_slots st ! i)"
  shows "ns_map st (occ_key st i) = Some (ns_slots st ! i)"
  using assms by (intro ns_map_at) (auto simp: slot_key_def occ_key_def)

text \<open>
  The loop the compactor runs over the table: each key is the cursor's next. \<open>fuel\<close> bounds it
  by the slot count, and one more call would answer \<open>None\<close>.
\<close>

fun merge_keys :: "ns_state \<Rightarrow> (bytes \<times> bytes) option \<Rightarrow> nat \<Rightarrow> (bytes \<times> bytes) list" where
  "merge_keys st after 0 = []"
| "merge_keys st after (Suc fuel) =
     (case min_key_above st after of
        None \<Rightarrow> []
      | Some i \<Rightarrow> occ_key st i # merge_keys st (Some (occ_key st i)) fuel)"

definition keys_above :: "ns_state \<Rightarrow> (bytes \<times> bytes) option \<Rightarrow> (bytes \<times> bytes) set" where
  "keys_above st after = {k. ns_map st k \<noteq> None \<and> (\<forall>a. after = Some a \<longrightarrow> a < k)}"

lemma ns_dom_occ: "ns_ok p st \<Longrightarrow> {k. ns_map st k \<noteq> None} \<subseteq> occ_key st ` {..<length (ns_slots st)}"
  by (rule subsetI) (unfold mem_Collect_eq occ_key_dom, blast)

lemma finite_ns_dom: "ns_ok p st \<Longrightarrow> finite {k. ns_map st k \<noteq> None}"
  by (rule finite_subset [OF ns_dom_occ]) simp_all

lemma finite_keys_above: "ns_ok p st \<Longrightarrow> finite (keys_above st after)"
  by (rule finite_subset [OF _ finite_ns_dom]) (auto simp: keys_above_def)

lemma keys_above_index:
  assumes "ns_ok p st"
  shows "k \<in> keys_above st after \<longleftrightarrow>
    (\<exists>i < length (ns_slots st). bs_occupied (ns_slots st ! i) \<and>
       (\<forall>a. after = Some a \<longrightarrow> a < occ_key st i) \<and> occ_key st i = k)"
  using occ_key_dom [OF assms, of k] unfolding keys_above_def by auto

lemma min_key_above_least:
  assumes ok: "ns_ok p st"
  shows "case min_key_above st after of
      None \<Rightarrow> keys_above st after = {}
    | Some i \<Rightarrow> occ_key st i \<in> keys_above st after \<and> (\<forall>k \<in> keys_above st after. occ_key st i \<le> k) \<and>
        i < length (ns_slots st) \<and> bs_occupied (ns_slots st ! i)"
proof (cases "min_key_above st after")
  case None
  then have "k \<notin> keys_above st after" for k
    using keys_above_index [OF ok, of k after] by (auto simp: min_key_above_best best_index_None)
  with None show ?thesis by auto
next
  case (Some i)
  note b = best_index_Some [OF Some [unfolded min_key_above_best]]
  have "occ_key st i \<in> keys_above st after" using b keys_above_index [OF ok] by blast
  moreover have "occ_key st i \<le> k" if "k \<in> keys_above st after" for k
    using b that keys_above_index [OF ok, of k after] by auto
  ultimately show ?thesis using Some b by auto
qed

lemma merge_keys_sorted:
  assumes ok: "ns_ok p st"
  shows "card (keys_above st after) \<le> fuel \<Longrightarrow>
    merge_keys st after fuel = sorted_list_of_set (keys_above st after)"
proof (induction fuel arbitrary: after)
  case 0
  then show ?case using finite_keys_above [OF ok, of after] by simp
next
  case (Suc fuel)
  note fin = finite_keys_above [OF ok, of after]
  show ?case
  proof (cases "min_key_above st after")
    case None
    then show ?thesis using min_key_above_least [OF ok, of after] by simp
  next
    case (Some i)
    define k where "k = occ_key st i"
    have k: "k \<in> keys_above st after" "\<forall>k' \<in> keys_above st after. k \<le> k'"
      using min_key_above_least [OF ok, of after] Some by (simp_all add: k_def)
    have rest: "keys_above st (Some k) = keys_above st after - {k}"
    proof (rule set_eqI, rule iffI)
      fix x assume "x \<in> keys_above st (Some k)"
      moreover have "\<forall>a. after = Some a \<longrightarrow> a < k" using k(1) unfolding keys_above_def by blast
      ultimately show "x \<in> keys_above st after - {k}"
        unfolding keys_above_def by (blast intro: order.strict_trans)
    next
      fix x assume x: "x \<in> keys_above st after - {k}"
      then have "k < x" using k(2) by (intro order.not_eq_order_implies_strict) blast+
      then show "x \<in> keys_above st (Some k)" using x unfolding keys_above_def by blast
    qed
    have "card (keys_above st (Some k)) \<le> fuel"
      using Suc.prems k(1) fin by (simp add: rest)
    then have "merge_keys st (Some k) fuel = sorted_list_of_set (keys_above st after - {k})"
      using Suc.IH rest by simp
    moreover have "Min (keys_above st after) = k"
      using k fin by (intro Min_eqI) auto
    moreover have "sorted_list_of_set (keys_above st after) = k # sorted_list_of_set (keys_above st after - {k})"
      using sorted_list_of_set_nonempty [of "keys_above st after"] fin k(1)
        \<open>Min (keys_above st after) = k\<close> by auto
    ultimately show ?thesis using Some by (simp add: k_def)
  qed
qed

lemma card_ns_dom: "ns_ok p st \<Longrightarrow> card {k. ns_map st k \<noteq> None} \<le> length (ns_slots st)"
  using surj_card_le [OF _ ns_dom_occ] by fastforce

section \<open>The listing step\<close>

lemma next_listed_best:
  "next_listed st r prefix after =
     best_index (\<lambda>i. bs_occupied (ns_slots st ! i) \<and> bs_path_len (ns_slots st ! i) \<noteq> 0 \<and>
         slot_root (ns_slots st ! i) = r \<and>
         take (length prefix) (slot_path (ns_slots st ! i)) = prefix \<and> after < slot_path (ns_slots st ! i))
       (\<lambda>i. slot_path (ns_slots st ! i)) (length (ns_slots st))"
  unfolding next_listed_def best_index_def
  by (intro fold_cong) (auto simp: bytes_cmp_lex Let_def fun_eq_iff split: option.split)

end
