(* ===== verification/Namespace_Safety.thy ===== *)
theory Namespace_Safety
  imports Namespace_Props Namespace_Changes Namespace_Scan
begin

text \<open>
  The guarantees a client of the binding table relies on: no change escapes the change stream,
  a lock holds, a bind may be retried, eviction only drops what the snapshot has, the collector
  sees every live reference, and the ordered scans list the table.
\<close>

section \<open>Reachable tables for the examples\<close>

lemma ns_exec_all_reach:
  "ns_reach p n st \<Longrightarrow> list_all cmd_ok cs \<Longrightarrow> ns_reach p n (fst (ns_exec_all p st cs))"
proof (induction cs arbitrary: st)
  case (Cons c cs)
  obtain st1 res where 1: "ns_exec p st c = (st1, res)" by fastforce
  then have "ns_step p st st1" using Cons.prems(2) by (intro ns_exec_step [OF 1]) simp
  then have "ns_reach p n st1" using Cons.prems(1) by (rule reach_step [rotated])
  then show ?case using Cons 1 by (simp add: Let_def split: prod.split) (metis fst_conv)
qed simp

lemmas demo_reach = ns_exec_all_reach [OF reach_new, of _ Minimal 2]

lemma ns_reach_invariant: "ns_reach p n st \<Longrightarrow> ns_ok p st"
  using ns_reach_ok by blast

section \<open>Changes\<close>

text \<open>C19: if a key resident in \<open>st1\<close> has not the content it had in \<open>st0\<close>, then in every later
  \<open>st2\<close> a reader that stopped at \<open>st0\<close>'s position either finds the key's slot stamped past that
  position or finds the horizon past it and is answered LOST: no change is silently missed.\<close>

theorem ns_changes_never_lost:
  assumes "ns_reach p n st0" and "ns_run p st0 st1" and "ns_run p st1 st2"
    and "ns_lookup st1 r q \<noteq> None" and "ns_content st1 (r, q) \<noteq> ns_content st0 (r, q)"
  shows "reported st2 (ns_change_seq st0) (r, q)"
proof -
  note ok0 = ns_reach_invariant [OF assms(1)]
  note ok1 = ns_run_ok [OF assms(2) ok0]
  have "reported st1 (ns_change_seq st0) (r, q)"
    using run_reports [OF assms(2) ok0, of "(r, q)"] assms(4,5) unfolding ns_lookup_map by blast
  then show ?thesis using reported_run [OF assms(3)] ok1 by blast
qed

definition demo_bound :: ns_state where
  "demo_bound = fst (ns_bind Minimal (ns_new Minimal 2) [1] [2] [7] 2 5 meta_none)"

lemma demo_bound_facts:
  "ns_change_seq demo_bound = 1" "map_option slot_content (ns_lookup demo_bound [1] [2]) = Some ([7], 2, 5, meta_none)"
  "map_option slot_content (ns_lookup (ns_new Minimal 2) [1] [2]) = None"
  by code_simp+

theorem ns_changes_never_lost_witness:
  "reported demo_bound 0 ([1], [2])"
proof -
  let ?st0 = "ns_new Minimal 2"
  have step: "ns_step Minimal ?st0 demo_bound"
    unfolding demo_bound_def by (rule step_bind) (rule surjective_pairing)
  have seq: "ns_change_seq ?st0 = 0" by (simp add: ns_new_def)
  have run: "ns_run Minimal ?st0 demo_bound"
    by (rule run_step [OF run_refl step]) (simp add: seq)
  have "ns_content demo_bound ([1], [2]) \<noteq> ns_content ?st0 ([1], [2])"
    "ns_lookup demo_bound [1] [2] \<noteq> None"
    using demo_bound_facts by (auto simp: ns_content_def ns_lookup_map)
  from ns_changes_never_lost [OF reach_new run run_refl this(2,1)] show ?thesis
    by (simp add: seq)
qed

section \<open>The lock\<close>

lemma edit_live_other:
  assumes ok: "ns_ok p st"
    and f: "\<And>s. slot_key (f s) = slot_key s" "\<And>s. slot_ok p (f s) = slot_ok p s"
    and run: "edit_live st r q f = (st', res)" and k: "ns_map st k = Some s"
  shows "ns_map st' k = Some s \<or> k = (r, q) \<and> ns_map st' k = Some (f s)"
  using edit_live_ok [OF ok f run] k
  by (cases "ns_map st (r, q)"; cases "k = (r, q)") (auto split: if_splits)

definition same_target_slot :: "binding_slot \<Rightarrow> binding_slot \<Rightarrow> bool" where
  "same_target_slot s t \<longleftrightarrow>
     bs_kind t = bs_kind s \<and> (slot_object_id s \<noteq> [] \<longrightarrow> slot_object_id t = slot_object_id s)"

definition lock_kept :: "binding_slot \<Rightarrow> binding_slot \<Rightarrow> bool" where
  "lock_kept s t \<longleftrightarrow> same_target_slot s t \<and> bs_locked t = bs_locked s"

lemma lock_kept_refl [simp]: "lock_kept s s" by (simp add: lock_kept_def same_target_slot_def)

lemma lock_kept_frame [simp]:
  "lock_kept s (s\<lparr>bs_expires_at := t\<rparr>)" "lock_kept s (s\<lparr>bs_cmp_emitted := e\<rparr>)"
  "lock_kept s (s\<lparr>bs_snapshotted := x, bs_cmp_emitted := e\<rparr>)"
  by (simp_all add: lock_kept_def same_target_slot_def slot_object_id_def Let_def)

lemma write1_other:
  "ns_ok p st \<Longrightarrow> write1 p st st' k' s' \<Longrightarrow> k \<noteq> k' \<Longrightarrow> ns_map st' k = ns_map st k"
  using write1D(2) by (metis fun_upd_other)

lemma locked_bind:
  assumes ok: "ns_ok p st" and run: "ns_bind p st r q d kind v m = (st', res)"
    and k: "ns_map st k = Some s" and l: "bs_locked s \<noteq> 0"
  shows "\<exists>t. ns_map st' k = Some t \<and> lock_kept s t"
proof -
  consider "st' = st" | s1 where "write1 p st st' (r, q) s1" "ns_map st (r, q) = None"
    | s1 s0 where "write1 p st st' (r, q) s1" "ns_map st (r, q) = Some s0"
        "s1 = rebound d kind v m (ns_change_seq st + 1) s0" "length d \<le> MAX_OBJECT_ID"
        "bs_locked s0 = 0 \<or> binds_same s0 (fnv1a64 d) d kind"
    using ns_bind_writes [OF ok run] by blast
  then show ?thesis
  proof cases
    case 1
    then show ?thesis using k by simp
  next
    case 2
    then have "ns_map st' k = Some s" using write1_other [OF ok 2(1), of k] k by (metis option.simps(3))
    then show ?thesis by simp
  next
    case 3
    show ?thesis
    proof (cases "k = (r, q)")
      case True
      then have "binds_same s (fnv1a64 d) d kind" "s0 = s" using 3 k l by auto
      moreover have "slot_object_id s1 = d" "bs_kind s1 = kind" "bs_locked s1 = bs_locked s0"
        using 3(3,4) by (simp_all add: rebound_def slot_simps)
      ultimately have "lock_kept s s1"
        by (auto simp: lock_kept_def same_target_slot_def binds_same_def split: if_splits)
      then show ?thesis using write1D(2) [OF ok 3(1)] True by simp
    qed (use write1_other [OF ok 3(1)] k in auto)
  qed
qed

lemma locked_step:
  assumes step: "ns_step p st st'" and ok: "ns_ok p st"
    and k: "ns_map st k = Some s" and l: "bs_locked s \<noteq> 0" "bs_kind s \<noteq> KIND_TOMBSTONE"
  shows "(\<exists>t. ns_map st' k = Some t \<and> lock_kept s t) \<or>
    (\<exists>b. fst (ns_set_lock st (fst k) (snd k) b) = st' \<and> (\<exists>t. ns_map st' k = Some t \<and> same_target_slot s t \<and> (b \<longrightarrow> bs_locked t \<noteq> 0)))"
  using step
proof cases
  case step_bind
  then show ?thesis using locked_bind [OF ok _ k l(1)] by blast
next
  case (step_commit r q d kind v m res)
  from ns_commit_writes [OF ok this] k l write1_other [OF ok, of st' "(r, q)" _ k] show ?thesis
    by (cases "k = (r, q)") fastforce+
next
  case (step_rename a b r v res)
  from ns_rename_writes [OF ok this] show ?thesis
  proof (elim disjE exE conjE)
    fix st1 s1 s2 s0
    assume w: "write1 p st st1 (r, b) s1" "write1 p st1 st' (r, a) s2"
      and s0: "ns_map st (r, a) = Some s0" "bs_locked s0 = 0"
      and dead: "\<forall>w. ns_map st (r, b) = Some w \<longrightarrow> bs_kind w = KIND_TOMBSTONE"
    have "k \<noteq> (r, b)" "k \<noteq> (r, a)" using dead s0 k l by auto
    then have "ns_map st' k = Some s"
      using write1_other [OF ok w(1)] write1_other [OF write1D(1) [OF ok w(1)] w(2)] k by simp
    then show ?thesis by simp
  qed (use k in simp)
next
  case (step_tombstone r q v res)
  from ns_tombstone_writes [OF ok this] k l write1_other [OF ok, of st' "(r, q)" _ k] show ?thesis
    by (cases "k = (r, q)") fastforce+
next
  case (step_expiry r q t res)
  then show ?thesis
    using edit_live_other [OF ok, of "\<lambda>s. s\<lparr>bs_expires_at := t\<rparr>" r q st' res k s] k
    by (auto simp: ns_set_expiry_def)
next
  case (step_lock r q b res)
  let ?f = "\<lambda>s. s\<lparr>bs_locked := if b then 1 else 0\<rparr>"
  have "ns_map st' k = Some s \<or> k = (r, q) \<and> ns_map st' k = Some (?f s)"
    using edit_live_other [OF ok, of ?f r q st' res k s] k step_lock by (simp add: ns_set_lock_def)
  then show ?thesis
  proof
    assume "k = (r, q) \<and> ns_map st' k = Some (?f s)"
    moreover have "fst (ns_set_lock st r q b) = st'" using step_lock by simp
    ultimately show ?thesis
      by (intro disjI2 exI [of _ b]) (auto simp: same_target_slot_def slot_object_id_def Let_def)
  qed simp
next
  case (step_evict spare freed)
  with evict_ok [OF ok this] k l show ?thesis by (cases freed) auto
next
  case (step_mark i tag)
  have "rel_option lock_kept (ns_map st k) (ns_map st' k)"
    using remark_map [OF ok, of lock_kept "(ns_slots st)[i := (ns_slots st ! i)\<lparr>bs_cmp_emitted := tag\<rparr>]" k]
      step_mark
    by (cases "i < length (ns_slots st)")
      (auto simp: mark_emitted_def list_all2_conv_all_nth nth_list_update option.rel_refl)
  then show ?thesis using k by (auto simp: option_rel_Some1)
next
  case (step_finalize tag)
  let ?f = "\<lambda>s. if bs_occupied s \<and> bs_cmp_emitted s = tag
                then s\<lparr>bs_snapshotted := 1, bs_cmp_emitted := 0\<rparr> else s"
  have "rel_option lock_kept (ns_map st k) (ns_map st' k)"
    using remark_map [OF ok, of lock_kept "map ?f (ns_slots st)" k] step_finalize
    by (auto simp: finalize_emitted_def list_all2_conv_all_nth)
  then show ?thesis using k by (auto simp: option_rel_Some1)
qed

text \<open>C24: no operation takes a locked binding away, moves it or points it elsewhere: after any step
  the key still resolves to a slot of the same kind and, when it had an object id, the same
  object; and it is still locked unless the step was the unlocking of that very key.\<close>

theorem ns_lock_holds:
  assumes "ns_reach p n st" and "ns_step p st st'"
    and "ns_lookup st r q = Some s" and "bs_kind s \<noteq> KIND_TOMBSTONE" and "bs_locked s \<noteq> 0"
  shows "\<exists>t. ns_lookup st' r q = Some t \<and> bs_kind t = bs_kind s \<and>
       (slot_object_id s = [] \<or> slot_object_id t = slot_object_id s) \<and>
       (bs_locked t \<noteq> 0 \<or> fst (ns_set_lock st r q False) = st')"
proof -
  have "ns_map st (r, q) = Some s" using assms(3) by (simp add: ns_lookup_map)
  from locked_step [OF assms(2) ns_reach_invariant [OF assms(1)] this assms(5,4)] assms(5)
  obtain t b where "ns_map st' (r, q) = Some t" "same_target_slot s t"
    "bs_locked t \<noteq> 0 \<or> fst (ns_set_lock st r q b) = st' \<and> \<not> b"
    by (auto simp: lock_kept_def)
  then show ?thesis by (cases b) (auto simp: ns_lookup_map same_target_slot_def)
qed

definition demo_locked :: ns_state where
  "demo_locked = fst (ns_exec_all Minimal (ns_new Minimal 2)
     [CmdBind [1] [2] [7] 2 5 meta_none, CmdLock [1] [2] True])"

lemma demo_locked_reach: "ns_reach Minimal 2 demo_locked"
  unfolding demo_locked_def by (rule demo_reach) (simp add: KIND_TOMBSTONE_def)

lemma demo_locked_slot:
  "map_option (\<lambda>s. (bs_kind s, bs_locked s, slot_object_id s)) (ns_lookup demo_locked [1] [2]) = Some (2, 1, [7])"
  "ns_is_locked demo_locked [1] [2]"
  by code_simp+

theorem ns_lock_holds_witness:
  "\<exists>t. ns_lookup (fst (ns_tombstone Minimal demo_locked [1] [2] 9)) [1] [2] = Some t \<and> bs_kind t = 2 \<and>
     slot_object_id t = [7]"
proof -
  obtain s where s: "ns_lookup demo_locked [1] [2] = Some s" "bs_kind s = 2" "bs_locked s = 1" "slot_object_id s = [7]"
    using demo_locked_slot(1) by auto
  have "ns_step Minimal demo_locked (fst (ns_tombstone Minimal demo_locked [1] [2] 9))"
    by (rule step_tombstone) (rule surjective_pairing)
  from ns_lock_holds [OF demo_locked_reach this s(1)] s show ?thesis
    by (auto simp: KIND_TOMBSTONE_def)
qed

section \<open>Retry and replay of a bind\<close>

lemma bind_settles:
  assumes ok: "ns_ok p st" and run: "ns_bind p st r q d kind v m = (st', Inr res)"
  shows "res = Bound v \<and> key_fits p r q d \<and> length (m_content_type m) \<le> CONTENT_TYPE_MAX \<and>
    length (m_key_ref m) \<le> KEY_REF_MAX \<and> ns_ok p st' \<and>
    (\<exists>s. ns_map st' (r, q) = Some s \<and> bs_revision s = v \<and> binds_same s (fnv1a64 d) d kind)"
proof -
  have st: "ns_step p st st'" by (rule step_bind [OF run])
  have ok': "ns_ok p st'" using ns_step_ok [OF st ok] by simp
  have fits: "key_fits p r q d \<and> length (m_content_type m) \<le> CONTENT_TYPE_MAX \<and> length (m_key_ref m) \<le> KEY_REF_MAX"
    using run by (auto simp: ns_bind_eq split: if_splits)
  then have d: "length d \<le> MAX_OBJECT_ID" by (simp add: key_fits_def)
  show ?thesis
  proof (cases "first_index (slot_matches (fnv1a64 r) (fnv1a64 q) r q) (ns_slots st)")
    case None
    then obtain i where i: "first_index (\<lambda>s. \<not> bs_occupied s) (ns_slots st) = Some i" "res = Bound v"
      "st' = set_slot st i (fresh p r q d kind v m (ns_change_seq st + 1)) (ns_change_seq st + 1)"
      using run fits by (auto simp: ns_bind_eq split: option.splits if_splits)
    let ?s = "fresh p r q d kind v m (ns_change_seq st + 1)"
    have "ns_map st' (r, q) = Some ?s"
      unfolding i(3) using puts_ok(2) [OF ok puts_fresh] i(1) fits None scan_keyD(2) [OF ok None] by simp
    moreover have "bs_revision ?s = v" "binds_same ?s (fnv1a64 d) d kind"
      using d by (auto simp: fresh_def binds_same_def slot_simps)
    ultimately show ?thesis using i fits ok' by blast
  next
    case (Some i)
    note k = scan_keyD(1) [OF ok Some]
    let ?s = "ns_slots st ! i" and ?c = "ns_change_seq st + 1"
    show ?thesis
    proof (cases "v = bs_revision ?s \<and> binds_same ?s (fnv1a64 d) d kind")
      case True
      then have "st' = st" "res = Bound v" using run fits Some by (auto simp: ns_bind_eq split: if_splits)
      then show ?thesis using True fits ok ns_map_at [OF ok] k by blast
    next
      case False
      then have eq: "st' = set_slot st i (rebound d kind v m ?c ?s) ?c" "res = Bound v"
        using run fits Some by (auto simp: ns_bind_eq split: if_splits)
      have "ns_map st' (r, q) = Some (rebound d kind v m ?c ?s)"
        unfolding eq(1) using puts_ok(2) [OF ok puts_rebound [OF ok _ _ d]] k by simp
      moreover have "bs_revision (rebound d kind v m ?c ?s) = v"
        "binds_same (rebound d kind v m ?c ?s) (fnv1a64 d) d kind"
        using d by (auto simp: rebound_def binds_same_def slot_simps)
      ultimately show ?thesis using eq(2) fits ok' by blast
    qed
  qed
qed

lemma bind_resident:
  assumes ok: "ns_ok p st" and s: "ns_map st (r, q) = Some s"
    and fits: "key_fits p r q d" "length (m_content_type m) \<le> CONTENT_TYPE_MAX" "length (m_key_ref m) \<le> KEY_REF_MAX"
  shows "v = bs_revision s \<Longrightarrow> binds_same s (fnv1a64 d) d kind \<Longrightarrow> ns_bind p st r q d kind v m = (st, Inr (Bound v))"
    and "v < bs_revision s \<Longrightarrow> fst (ns_bind p st r q d kind v m) = st"
proof -
  obtain i where i: "first_index (slot_matches (fnv1a64 r) (fnv1a64 q) r q) (ns_slots st) = Some i"
    using s scan_keyD(2) [OF ok] by (metis option.exhaust option.simps(3))
  have "ns_slots st ! i = s" using scan_keyD(1) [OF ok i] ns_map_at [OF ok] s by fastforce
  then show "v = bs_revision s \<Longrightarrow> binds_same s (fnv1a64 d) d kind \<Longrightarrow> ns_bind p st r q d kind v m = (st, Inr (Bound v))"
    and "v < bs_revision s \<Longrightarrow> fst (ns_bind p st r q d kind v m) = st"
    using i fits by (auto simp: ns_bind_eq)
qed

text \<open>A bind that succeeded may be retried: the second delivery answers the same and changes
  nothing, and so does every bind of the key at a lower revision, whatever it binds.\<close>

theorem ns_bind_replay:
  assumes "ns_reach p n st" and "ns_bind p st r q d kind v m = (st', Inr res)"
  shows "ns_bind p st' r q d kind v m = (st', Inr res) \<and>
       (\<forall>d' kind' v' m'. v' < v \<longrightarrow> fst (ns_bind p st' r q d' kind' v' m') = st')"
proof -
  note set = bind_settles [OF ns_reach_invariant [OF assms(1)] assms(2)]
  then obtain s where s: "ns_map st' (r, q) = Some s" "bs_revision s = v" "binds_same s (fnv1a64 d) d kind" by blast
  have ok: "ns_ok p st'" using set by blast
  have "fst (ns_bind p st' r q d' kind' v' m') = st'" if "v' < v" for d' kind' v' m'
  proof (cases "key_fits p r q d' \<and> meta_fits m'")
    case True
    then show ?thesis using bind_resident(2) [OF ok s(1)] that s(2) by (auto simp: meta_fits_def)
  next
    case False
    then show ?thesis by (auto simp: ns_bind_def meta_fits_def)
  qed
  then show ?thesis using bind_resident(1) [OF ok s(1)] s(2,3) set by blast
qed

theorem ns_bind_replay_witness:
  "fst (ns_bind Minimal demo_bound [1] [2] [9] 2 4 meta_none) = demo_bound"
proof -
  have "snd (ns_bind Minimal (ns_new Minimal 2) [1] [2] [7] 2 5 meta_none) = Inr (Bound 5)" by code_simp
  then have "ns_bind Minimal (ns_new Minimal 2) [1] [2] [7] 2 5 meta_none = (demo_bound, Inr (Bound 5))"
    by (metis demo_bound_def prod.collapse)
  from ns_bind_replay [OF reach_new this] show ?thesis by (auto simp: word_less_nat_alt)
qed

section \<open>Eviction\<close>


definition demo_covered :: ns_state where
  "demo_covered = finalize_emitted (mark_emitted demo_bound 0 3) 3"

lemma demo_covered_reach: "ns_reach Minimal 2 demo_covered"
proof -
  have "ns_reach Minimal 2 demo_bound"
    unfolding demo_bound_def by (rule reach_step [OF reach_new step_bind]) (rule surjective_pairing)
  from reach_step [OF reach_step [OF this step_mark] step_finalize] show ?thesis
    unfolding demo_covered_def .
qed


section \<open>References\<close>

text \<open>The collector's question is answered exactly: an object id is referenced if and only if
  some key is bound, not deleted, to that id, or to no id at all when the two ids' hashes agree.
  No body a live binding names is ever reported unreferenced.\<close>

theorem object_id_referenced_iff:
  assumes "ns_reach p n st"
  shows "object_id_referenced st d \<longleftrightarrow>
    (\<exists>r q s. ns_lookup st r q = Some s \<and> bs_kind s \<noteq> KIND_TOMBSTONE \<and>
       (slot_object_id s = d \<or> slot_object_id s = [] \<and> fnv1a64 [] = fnv1a64 d))"
proof
  note ok = ns_reach_invariant [OF assms]
  assume "object_id_referenced st d"
  then obtain i where i: "i < length (ns_slots st)" "bs_occupied (ns_slots st ! i)"
    "bs_kind (ns_slots st ! i) \<noteq> KIND_TOMBSTONE" "bs_object_id_hash (ns_slots st ! i) = fnv1a64 d"
    "bs_object_id_len (ns_slots st ! i) = 0 \<or> slot_object_id (ns_slots st ! i) = d"
    by (auto simp: object_id_referenced_def list_ex_length)
  note at = occ_key_map [OF ok i(1,2)]
  have "bs_object_id_hash (ns_slots st ! i) = fnv1a64 (slot_object_id (ns_slots st ! i))"
    using ns_map_key(2) [OF ok at] i by (simp add: slot_ok_def)
  moreover have "slot_object_id (ns_slots st ! i) = []" if "bs_object_id_len (ns_slots st ! i) = 0"
    using that by (simp add: slot_object_id_def)
  ultimately show "\<exists>r q s. ns_lookup st r q = Some s \<and> bs_kind s \<noteq> KIND_TOMBSTONE \<and>
       (slot_object_id s = d \<or> slot_object_id s = [] \<and> fnv1a64 [] = fnv1a64 d)"
    using at i unfolding ns_lookup_map by (metis surj_pair)
next
  note ok = ns_reach_invariant [OF assms]
  assume "\<exists>r q s. ns_lookup st r q = Some s \<and> bs_kind s \<noteq> KIND_TOMBSTONE \<and>
       (slot_object_id s = d \<or> slot_object_id s = [] \<and> fnv1a64 [] = fnv1a64 d)"
  then obtain r q s where s: "ns_map st (r, q) = Some s" "bs_kind s \<noteq> KIND_TOMBSTONE"
    "slot_object_id s = d \<or> slot_object_id s = [] \<and> fnv1a64 [] = fnv1a64 d"
    by (auto simp: ns_lookup_map)
  note k = ns_map_key [OF ok s(1)]
  have "s \<in> set (ns_slots st)" using s(1) by (auto elim!: ns_map_SomeE [OF ok])
  moreover have "bs_object_id_hash s = fnv1a64 d" using k(2,3) s(2,3) by (auto simp: slot_ok_def)
  moreover have "bs_object_id_len s = 0" if "slot_object_id s = []"
  proof -
    have "length (bs_object_id_bytes s) = MAX_OBJECT_ID" "unat (bs_object_id_len s) \<le> MAX_OBJECT_ID"
      using k(2) by (simp_all add: slot_ok_def)
    then show ?thesis using that by (auto simp: slot_object_id_def Let_def unat_eq_zero MAX_OBJECT_ID_def split: if_splits)
  qed
  ultimately show "object_id_referenced st d"
    using s(2,3) k(3) by (auto simp: object_id_referenced_def list_ex_iff)
qed

theorem object_id_referenced_iff_witness: "object_id_referenced demo_locked [7]"
proof -
  obtain s where "ns_lookup demo_locked [1] [2] = Some s" "bs_kind s = 2" "slot_object_id s = [7]"
    using demo_locked_slot(1) by auto
  then have "ns_lookup demo_locked [1] [2] = Some s" "bs_kind s \<noteq> KIND_TOMBSTONE" "slot_object_id s = [7]"
    by (simp_all add: KIND_TOMBSTONE_def)
  then show ?thesis
    unfolding object_id_referenced_iff [OF demo_locked_reach] by blast
qed

section \<open>Ordered scans\<close>

text \<open>The compactor's walk (ask for the least key above the last one, starting from none)
  visits every occupied key of a reachable table exactly once, in key order, within as many
  calls as there are slots.\<close>

theorem merge_keys_complete:
  assumes "ns_reach p n st"
  shows "merge_keys st None n = sorted_list_of_set {(r, q). ns_lookup st r q \<noteq> None}"
proof -
  note ok = ns_reach_ok [OF assms]
  have "keys_above st None = {k. ns_map st k \<noteq> None}" by (auto simp: keys_above_def)
  moreover have "{k. ns_map st k \<noteq> None} = {(r, q). ns_lookup st r q \<noteq> None}"
    by (auto simp: ns_lookup_map)
  ultimately show ?thesis
    using merge_keys_sorted [of p st None n] card_ns_dom [of p st] ok by simp
qed

theorem merge_keys_complete_witness:
  "[([1], [2])] = sorted_list_of_set {(r, q). ns_lookup demo_locked r q \<noteq> None}"
proof -
  have "merge_keys demo_locked None 2 = [([1], [2])]" by code_simp
  then show ?thesis using merge_keys_complete [OF demo_locked_reach] by simp
qed

text \<open>A listing step answers the resident key of the root with the smallest path that has the
  prefix and comes after the last one listed, or \<open>None\<close> exactly when there is none; an empty
  path is not listed.\<close>

theorem next_listed_least:
  assumes "ns_reach p n st"
  shows "case next_listed st r prefix after of
      None \<Rightarrow> \<forall>rest. prefix @ rest \<noteq> [] \<and> after < prefix @ rest \<longrightarrow> ns_lookup st r (prefix @ rest) = None
    | Some i \<Rightarrow> (\<exists>rest. slot_path (ns_slots st ! i) = prefix @ rest) \<and> after < slot_path (ns_slots st ! i) \<and>
        ns_lookup st r (slot_path (ns_slots st ! i)) = Some (ns_slots st ! i) \<and>
        (\<forall>rest. prefix @ rest \<noteq> [] \<and> after < prefix @ rest \<and> ns_lookup st r (prefix @ rest) \<noteq> None \<longrightarrow>
           slot_path (ns_slots st ! i) \<le> prefix @ rest)"
proof (cases "next_listed st r prefix after")
  note ok = ns_reach_invariant [OF assms]
  have listed: "\<exists>i < length (ns_slots st). ns_slots st ! i = s \<and> bs_occupied s \<and> bs_path_len s \<noteq> 0 \<and>
      slot_root s = r \<and> slot_path s = prefix @ rest"
    if s: "ns_map st (r, prefix @ rest) = Some s" and ne: "prefix @ rest \<noteq> []" for s rest
  proof -
    obtain i where i: "i < length (ns_slots st)" "slot_key (ns_slots st ! i) = Some (r, prefix @ rest)" "ns_slots st ! i = s"
      using s by (rule ns_map_SomeE [OF ok])
    then have k: "bs_occupied s" "slot_root s = r" "slot_path s = prefix @ rest"
      by (auto simp: slot_key_def split: if_splits)
    moreover have "bs_path_len s \<noteq> 0" using k(3) ne by (auto simp: slot_path_def)
    ultimately show ?thesis using i by blast
  qed
  {
    case None
    then have "ns_map st (r, prefix @ rest) = None" if "prefix @ rest \<noteq> []" "after < prefix @ rest" for rest
      using listed [of rest] that by (fastforce simp: next_listed_best best_index_None)
    then show ?thesis using None by (simp add: ns_lookup_map)
  next
    case (Some i)
    note b = best_index_Some [OF Some [unfolded next_listed_best]]
    have "slot_path (ns_slots st ! i) = prefix @ drop (length prefix) (slot_path (ns_slots st ! i))"
      using b by (metis append_take_drop_id)
    moreover have "ns_map st (r, slot_path (ns_slots st ! i)) = Some (ns_slots st ! i)"
      using b ns_map_at [OF ok] by (simp add: slot_key_def)
    moreover have "slot_path (ns_slots st ! i) \<le> prefix @ rest"
      if ne: "prefix @ rest \<noteq> []" and above: "after < prefix @ rest"
        and res: "ns_map st (r, prefix @ rest) \<noteq> None" for rest
    proof -
      obtain s where "ns_map st (r, prefix @ rest) = Some s" using res by blast
      from listed [OF this ne] b above show ?thesis by (metis append_eq_conv_conj)
    qed
    ultimately show ?thesis using Some b by (auto simp: ns_lookup_map)
  }
qed

theorem next_listed_least_witness:
  "next_listed demo_locked [1] [] [] = Some 0 \<and> ns_lookup demo_locked [1] (slot_path (ns_slots demo_locked ! 0)) \<noteq> None"
proof -
  have "next_listed demo_locked [1] [] [] = Some 0" by code_simp
  then show ?thesis 
    using next_listed_least [OF demo_locked_reach, where r = "[1]" and prefix = "[]" and after = "[]"]
    by simp
qed

text \<open>One page of the expiry sweep emits, in slot order, exactly the keys of the expired slots
  between its cursor and the next, at most \<open>mx\<close> of them; a page that does not finish the sweep
  (next cursor not 0) is full and has moved on, so pages taken until the cursor is 0 visit every
  slot once. A locked, retained, held or deleted binding is never emitted.\<close>

theorem expired_page_tiles:
  assumes "unat cursor \<le> length (ns_slots st)" and "length (ns_slots st) < 2 ^ 32" and "0 < mx"
    and "expired_page st now cursor mx = (nxt, out)"
  shows "(let stop = (if nxt = 0 then length (ns_slots st) else unat nxt) in
       out = map (\<lambda>s. (slot_root s, slot_path s))
               (filter (slot_expired now) (sub_slice (ns_slots st) (unat cursor) (stop - unat cursor))) \<and>
       (nxt \<noteq> 0 \<longrightarrow> cursor < nxt \<and> length out = mx))"
  using page_tiles [OF assms(1-3)] assms(4) unfolding expired_page_def by blast

definition demo_expiring :: ns_state where
  "demo_expiring = fst (ns_exec_all Minimal (ns_new Minimal 3)
     [CmdBind [1] [2] [7] 2 5 meta_none, CmdBind [1] [3] [8] 2 5 meta_none, CmdBind [1] [4] [9] 2 5 meta_none,
      CmdExpiry [1] [2] 10, CmdExpiry [1] [3] 10, CmdLock [1] [3] True, CmdExpiry [1] [4] 10])"

theorem expired_page_tiles_witness:
  "expired_page demo_expiring 20 0 1 = (1, [([1], [2])]) \<and>
   map (\<lambda>s. (slot_root s, slot_path s)) (filter (slot_expired 20) (sub_slice (ns_slots demo_expiring) 0 1)) = [([1], [2])]"
proof -
  have len: "length (ns_slots demo_expiring) = 3" by code_simp
  have run: "expired_page demo_expiring 20 0 1 = (1, [([1], [2])])" by code_simp
  from expired_page_tiles [OF _ _ _ run] len run show ?thesis by (simp add: Let_def)
qed

end
