(* ===== verification/Namespace_Leases.thy ===== *)
theory Namespace_Leases
  imports Namespace_State
begin

text \<open>
  \<open>LeaseTable\<close> of \<open>modules/common/mechanics/namespace_pic_state.rs\<close>: one writer per volume, with
  a fence that grows whenever the writer changes. Every operation of the table is here; the
  entries are an arena of slots keyed by \<open>(root, path)\<close>.
\<close>

section \<open>Data\<close>

definition LEASE_HOLDER_LEN :: nat where "LEASE_HOLDER_LEN = 16"

datatype lease_op = Acquire | Renew | Release

definition lease_op_from_u8 :: "u8 \<Rightarrow> lease_op option" where
  "lease_op_from_u8 b =
     (if b = 1 then Some Acquire else if b = 2 then Some Renew else if b = 3 then Some Release else None)"

datatype lease_status = Granted | Held | Lost | Busy | BadRequest | Stale

record lease_outcome =
  lo_status :: lease_status
  lo_fence :: u64
  lo_expires_at :: u64

definition bare :: "lease_status \<Rightarrow> lease_outcome" where
  "bare status = \<lparr>lo_status = status, lo_fence = 0, lo_expires_at = 0\<rparr>"

record lease_entry =
  le_used :: u8
  le_live :: u8
  le_holder :: bytes
  le_fence :: u64
  le_expires_at :: u64
  le_stamp :: u64
  le_flushing :: u8
  le_root_bytes :: bytes
  le_root_len :: u8
  le_path_bytes :: bytes
  le_path_len :: u16

definition empty_entry :: "profile \<Rightarrow> lease_entry" where
  "empty_entry p =
     \<lparr>le_used = 0, le_live = 0, le_holder = replicate LEASE_HOLDER_LEN 0, le_fence = 0,
      le_expires_at = 0, le_stamp = 0, le_flushing = 0,
      le_root_bytes = replicate MAX_ROOT 0, le_root_len = 0,
      le_path_bytes = replicate (MAX_PATH p) 0, le_path_len = 0\<rparr>"

definition lease_root :: "lease_entry \<Rightarrow> bytes" where
  "lease_root e = take (min (unat (le_root_len e)) MAX_ROOT) (le_root_bytes e)"

definition lease_path :: "profile \<Rightarrow> lease_entry \<Rightarrow> bytes" where
  "lease_path p e = take (min (unat (le_path_len e)) (MAX_PATH p)) (le_path_bytes e)"

definition lease_names :: "profile \<Rightarrow> bytes \<Rightarrow> bytes \<Rightarrow> lease_entry \<Rightarrow> bool" where
  "lease_names p root path e \<longleftrightarrow> le_used e \<noteq> 0 \<and> lease_root e = root \<and> lease_path p e = path"

definition held_at :: "lease_entry \<Rightarrow> u64 \<Rightarrow> bool" where
  "held_at e now \<longleftrightarrow> le_live e \<noteq> 0 \<and> now < le_expires_at e"

definition standing :: "lease_entry \<Rightarrow> lease_status \<Rightarrow> u64 \<Rightarrow> lease_outcome" where
  "standing e status now =
     (if held_at e now
      then \<lparr>lo_status = status, lo_fence = le_fence e, lo_expires_at = le_expires_at e\<rparr>
      else bare status)"

record lease_table =
  lt_entries :: "lease_entry list"
  lt_fence_floor :: u64
  lt_stamp_floor :: u64

definition lease_new :: "profile \<Rightarrow> nat \<Rightarrow> lease_table" where
  "lease_new p n =
     \<lparr>lt_entries = replicate n (empty_entry p), lt_fence_floor = 0, lt_stamp_floor = 0\<rparr>"

section \<open>Operations\<close>

definition lease :: "profile \<Rightarrow> lease_table \<Rightarrow> bytes \<Rightarrow> bytes \<Rightarrow> lease_entry option" where
  "lease p t root path = List.find (lease_names p root path) (lt_entries t)"

definition lease_find :: "profile \<Rightarrow> lease_table \<Rightarrow> bytes \<Rightarrow> bytes \<Rightarrow> nat option" where
  "lease_find p t root path = first_index (lease_names p root path) (lt_entries t)"

definition set_entry :: "lease_table \<Rightarrow> nat \<Rightarrow> lease_entry \<Rightarrow> lease_table" where
  "set_entry t i e = t\<lparr>lt_entries := (lt_entries t)[i := e]\<rparr>"

definition new_entry ::
  "profile \<Rightarrow> bytes \<Rightarrow> bytes \<Rightarrow> bytes \<Rightarrow> u64 \<Rightarrow> u64 \<Rightarrow> u64 \<Rightarrow> u8 \<Rightarrow> lease_entry" where
  \<comment> \<open>what \<open>apply_absent\<close> and \<open>restore\<close> both build: an empty entry with the key and terms written in\<close>
  "new_entry p root path holder fence expires_at stamp live =
     (empty_entry p)\<lparr>le_used := 1, le_live := live, le_holder := holder, le_fence := fence,
        le_expires_at := expires_at, le_stamp := stamp,
        le_root_bytes := copy_prefix root (le_root_bytes (empty_entry p)),
        le_root_len := word_of_nat (length root),
        le_path_bytes := copy_prefix path (le_path_bytes (empty_entry p)),
        le_path_len := word_of_nat (length path)\<rparr>"

definition raise_floors :: "u64 \<Rightarrow> u64 \<Rightarrow> lease_table \<Rightarrow> lease_table" where
  "raise_floors fence stamp t =
     t\<lparr>lt_fence_floor := (if lt_fence_floor t < fence then fence else lt_fence_floor t),
       lt_stamp_floor := (if lt_stamp_floor t < stamp then stamp else lt_stamp_floor t)\<rparr>"

definition claim_slot :: "profile \<Rightarrow> lease_table \<Rightarrow> u64 \<Rightarrow> lease_table \<times> nat option" where
  "claim_slot p t now =
     (case first_index (\<lambda>e. le_used e = 0) (lt_entries t) of
        Some i \<Rightarrow> (t, Some i)
      | None \<Rightarrow>
          (case first_index (\<lambda>e. \<not> held_at e now \<and> le_stamp e < now) (lt_entries t) of
             Some i \<Rightarrow>
               (let e = lt_entries t ! i
                in (set_entry (raise_floors (le_fence e) (le_stamp e) t) i (empty_entry p), Some i))
           | None \<Rightarrow> (t, None)))"

definition apply_absent ::
  "profile \<Rightarrow> lease_table \<Rightarrow> lease_op \<Rightarrow> bytes \<Rightarrow> bytes \<Rightarrow> bytes \<Rightarrow> u64 \<Rightarrow> u64 \<Rightarrow> lease_table \<times> lease_outcome"
where
  "apply_absent p t op root path holder now expires =
     (if now \<le> lt_stamp_floor t then (t, bare Stale)
      else if op \<noteq> Acquire then (t, bare Lost)
      else
        (case claim_slot p t now of
           (t1, None) \<Rightarrow> (t1, bare Busy)
         | (t1, Some slot) \<Rightarrow>
             (case checked_add (lt_fence_floor t1) 1 of
                None \<Rightarrow> (t1, bare Busy)
              | Some fence \<Rightarrow>
                  (set_entry t1 slot (new_entry p root path holder fence expires now 1),
                   \<lparr>lo_status = Granted, lo_fence = fence, lo_expires_at = expires\<rparr>))))"

definition judge_entry ::
  "lease_op \<Rightarrow> bytes \<Rightarrow> u64 \<Rightarrow> u64 \<Rightarrow> lease_entry \<Rightarrow> lease_entry \<times> lease_outcome" where
  \<comment> \<open>the \<open>match op\<close> of \<open>apply\<close>, on the entry whose stamp has just been set to \<open>now\<close>\<close>
  "judge_entry op holder now expires e =
     (let mine = (le_live e \<noteq> 0 \<and> le_holder e = holder) in
      case op of
        Acquire \<Rightarrow>
          (if held_at e now \<and> \<not> mine then (e, standing e Held now)
           else if \<not> (mine \<and> held_at e now) then
             (case checked_add (le_fence e) 1 of
                None \<Rightarrow> (e, bare Busy)
              | Some f \<Rightarrow>
                  (e\<lparr>le_fence := f, le_holder := holder, le_live := 1, le_flushing := 0,
                     le_expires_at := expires\<rparr>,
                   \<lparr>lo_status = Granted, lo_fence = f, lo_expires_at = expires\<rparr>))
           else (e\<lparr>le_expires_at := expires\<rparr>,
                 \<lparr>lo_status = Granted, lo_fence = le_fence e, lo_expires_at = expires\<rparr>))
      | Renew \<Rightarrow>
          (if mine \<and> held_at e now then
             (e\<lparr>le_expires_at := expires\<rparr>,
              \<lparr>lo_status = Granted, lo_fence = le_fence e, lo_expires_at = expires\<rparr>)
           else (e, standing e Lost now))
      | Release \<Rightarrow>
          (if mine then
             (e\<lparr>le_live := 0, le_flushing := 0\<rparr>,
              \<lparr>lo_status = Granted, lo_fence = le_fence e, lo_expires_at = 0\<rparr>)
           else (e, standing e Lost now)))"

definition lease_apply ::
  "profile \<Rightarrow> lease_table \<Rightarrow> u8 \<Rightarrow> bytes \<Rightarrow> bytes \<Rightarrow> bytes \<Rightarrow> u64 \<Rightarrow> u32 \<Rightarrow> lease_table \<times> lease_outcome"
where
  "lease_apply p t mode root path holder now ttl_ms =
     (case lease_op_from_u8 mode of
        None \<Rightarrow> (t, bare BadRequest)
      | Some op \<Rightarrow>
          (if now = 0 \<or> \<not> key_fits p root path [] \<or> path = [] then (t, bare BadRequest)
           else if op \<noteq> Release \<and> (ttl_ms = 0 \<or> LEASE_TTL_MAX_MS < ttl_ms) then (t, bare BadRequest)
           else
             let expires = sat_add now (ucast ttl_ms) in
             case lease_find p t root path of
               None \<Rightarrow> apply_absent p t op root path holder now expires
             | Some idx \<Rightarrow>
                 (let e = lt_entries t ! idx in
                  if now \<le> le_stamp e then (t, bare Stale)
                  else let (e', out) = judge_entry op holder now expires (e\<lparr>le_stamp := now\<rparr>)
                       in (set_entry t idx e', out))))"

definition lease_touch :: "profile \<Rightarrow> lease_table \<Rightarrow> bytes \<Rightarrow> bytes \<Rightarrow> u64 \<Rightarrow> lease_table \<times> bool option" where
  "lease_touch p t root path now =
     (case lease_find p t root path of
        None \<Rightarrow> (t, None)
      | Some i \<Rightarrow>
          (let e = lt_entries t ! i in
           if now \<le> le_stamp e then (t, Some False)
           else (set_entry t i (e\<lparr>le_stamp := now\<rparr>), Some True)))"

definition flush_lapsed :: "u64 \<Rightarrow> lease_entry \<Rightarrow> bool" where
  "flush_lapsed now e \<longleftrightarrow> le_used e \<noteq> 0 \<and> le_flushing e \<noteq> 0 \<and> \<not> held_at e now"

definition end_expired_flushes :: "lease_table \<Rightarrow> u64 \<Rightarrow> lease_table \<times> nat" where
  "end_expired_flushes t now =
     (if now = 0 then (t, 0)
      else (t\<lparr>lt_entries := map (\<lambda>e. if flush_lapsed now e then e\<lparr>le_flushing := 0\<rparr> else e) (lt_entries t)\<rparr>,
            length (filter (flush_lapsed now) (lt_entries t))))"

definition any_flushing :: "lease_table \<Rightarrow> bool" where
  "any_flushing t \<longleftrightarrow> list_ex (\<lambda>e. le_used e \<noteq> 0 \<and> le_flushing e \<noteq> 0) (lt_entries t)"

definition lease_holds :: "profile \<Rightarrow> lease_table \<Rightarrow> bytes \<Rightarrow> bytes \<Rightarrow> bytes \<Rightarrow> u64 \<Rightarrow> u64 \<Rightarrow> bool" where
  "lease_holds p t root path holder fence now \<longleftrightarrow>
     (case lease p t root path of
        Some e \<Rightarrow> held_at e now \<and> le_holder e = holder \<and> le_fence e = fence
      | None \<Rightarrow> False)"

definition is_flushing :: "profile \<Rightarrow> lease_table \<Rightarrow> bytes \<Rightarrow> bytes \<Rightarrow> bytes \<Rightarrow> bool" where
  "is_flushing p t root path holder \<longleftrightarrow>
     (case lease p t root path of
        Some e \<Rightarrow> le_flushing e \<noteq> 0 \<and> le_holder e = holder
      | None \<Rightarrow> False)"

definition set_flushing ::
  "profile \<Rightarrow> lease_table \<Rightarrow> bytes \<Rightarrow> bytes \<Rightarrow> bytes \<Rightarrow> bool \<Rightarrow> lease_table \<times> bool" where
  "set_flushing p t root path holder open_flush =
     (case lease_find p t root path of
        None \<Rightarrow> (t, False)
      | Some i \<Rightarrow>
          (let e = lt_entries t ! i in
           if le_holder e = holder
           then (set_entry t i (e\<lparr>le_flushing := (if open_flush then 1 else 0)\<rparr>), True)
           else (t, False)))"

definition lease_restore ::
  "profile \<Rightarrow> lease_table \<Rightarrow> bytes \<Rightarrow> bytes \<Rightarrow> bytes \<Rightarrow> u64 \<Rightarrow> u64 \<Rightarrow> u64 \<Rightarrow> bool \<Rightarrow> u64 \<Rightarrow> u64 \<Rightarrow>
   lease_table \<times> bool" where
  "lease_restore p t root path holder fence expires_at stamp live fence_floor stamp_floor =
     (if \<not> key_fits p root path [] \<or> path = [] then (t, False)
      else
        case (case lease_find p t root path of
                Some i \<Rightarrow> Some i
              | None \<Rightarrow> first_index (\<lambda>e. le_used e = 0) (lt_entries t)) of
          None \<Rightarrow> (t, False)
        | Some slot \<Rightarrow>
            (set_entry (raise_floors fence_floor stamp_floor t) slot
               (new_entry p root path holder fence expires_at stamp (if live then 1 else 0)), True))"

section \<open>The table as a map\<close>

definition lease_key :: "profile \<Rightarrow> lease_entry \<Rightarrow> (bytes \<times> bytes) option" where
  "lease_key p e = (if le_used e \<noteq> 0 then Some (lease_root e, lease_path p e) else None)"

definition entry_ok :: "profile \<Rightarrow> lease_entry \<Rightarrow> bool" where
  "entry_ok p e \<longleftrightarrow>
     le_used e \<noteq> 0 \<longrightarrow>
       lease_path p e \<noteq> [] \<and> key_fits p (lease_root e) (lease_path p e) [] \<and>
       e = (new_entry p (lease_root e) (lease_path p e) (le_holder e) (le_fence e) (le_expires_at e)
              (le_stamp e) (le_live e))\<lparr>le_flushing := le_flushing e\<rparr> \<and> le_live e \<le> 1 \<and> le_flushing e \<le> 1"

definition lease_hits :: "profile \<Rightarrow> bytes \<times> bytes \<Rightarrow> lease_entry \<Rightarrow> bool" where
  "lease_hits p k e \<longleftrightarrow> lease_names p (fst k) (snd k) e"

lemma lease_hits_key: "lease_hits p k e \<longleftrightarrow> lease_key p e = Some k"
  by (cases k) (auto simp: lease_hits_def lease_names_def lease_key_def)

interpretation leases: slot_arena "lease_key p" "lease_hits p" "entry_ok p" for p
  by unfold_locales (rule lease_hits_key)

definition lease_ok :: "profile \<Rightarrow> lease_table \<Rightarrow> bool" where
  "lease_ok p t \<longleftrightarrow> arena_ok (entry_ok p) (lease_key p) (lt_entries t)"

definition lease_map :: "profile \<Rightarrow> lease_table \<Rightarrow> bytes \<times> bytes \<Rightarrow> lease_entry option" where
  "lease_map p t = arena_map (lease_hits p) (lt_entries t)"

lemma lease_hits_names: "lease_hits p (r, q) = lease_names p r q"
  by (rule ext) (simp add: lease_hits_def)

lemma lease_lease_map: "lease p t r q = lease_map p t (r, q)"
  by (simp add: lease_def lease_map_def arena_map_def lease_hits_names)

lemma lease_find_Some:
  "lease_ok p t \<Longrightarrow> lease_find p t r q = Some i \<Longrightarrow>
   i < length (lt_entries t) \<and> lease_key p (lt_entries t ! i) = Some (r, q) \<and>
   lease_map p t (r, q) = Some (lt_entries t ! i)"
  using leases.scan_Some [of p "lt_entries t" "(r, q)" i] leases.map_at [of p "lt_entries t" i "(r, q)"]
  by (simp add: lease_ok_def lease_find_def lease_map_def lease_hits_names)

lemma lease_find_None: "lease_ok p t \<Longrightarrow> lease_find p t r q = None \<Longrightarrow> lease_map p t (r, q) = None"
  using leases.scan_None [of p "lt_entries t" "(r, q)"] leases.map_None [of p "lt_entries t" "(r, q)"]
  by (simp add: lease_ok_def lease_find_def lease_map_def lease_hits_names)

lemma lease_map_at:
  "lease_ok p t \<Longrightarrow> i < length (lt_entries t) \<Longrightarrow> lease_key p (lt_entries t ! i) = Some k \<Longrightarrow>
   lease_map p t k = Some (lt_entries t ! i)"
  unfolding lease_ok_def lease_map_def by (rule leases.map_at)

lemma lease_map_key:
  "lease_ok p t \<Longrightarrow> lease_map p t k = Some e \<Longrightarrow> lease_key p e = Some k \<and> entry_ok p e"
  unfolding lease_ok_def lease_map_def using leases.map_key by blast

lemma set_entry_put:
  assumes "lease_ok p t" "i < length (lt_entries t)" "entry_ok p e" "lease_key p e = Some k"
    and "lease_key p (lt_entries t ! i) = Some k \<or> lease_key p (lt_entries t ! i) = None \<and> lease_map p t k = None"
  shows "lease_ok p (set_entry t i e)" "lease_map p (set_entry t i e) = (lease_map p t)(k \<mapsto> e)"
proof -
  have "lease_key p (lt_entries t ! i) = Some k \<or>
      lease_key p (lt_entries t ! i) = None \<and> (\<forall>j < length (lt_entries t). lease_key p (lt_entries t ! j) \<noteq> Some k)"
    using assms(1,5) leases.map_None [of p "lt_entries t" k] by (auto simp: lease_ok_def lease_map_def)
  then show "lease_ok p (set_entry t i e)" "lease_map p (set_entry t i e) = (lease_map p t)(k \<mapsto> e)"
    using leases.put_ok [of p "lt_entries t" i e k] leases.put_map [of p "lt_entries t" i e k] assms(1-4)
    by (auto simp: lease_ok_def lease_map_def set_entry_def)
qed

lemma empty_entry_free [simp]: "le_used (empty_entry p) = 0" "lease_key p (empty_entry p) = None" "entry_ok p (empty_entry p)"
  by (simp_all add: empty_entry_def lease_key_def entry_ok_def)

lemma set_entry_drop:
  assumes "lease_ok p t" "i < length (lt_entries t)" "lease_key p (lt_entries t ! i) = Some k"
  shows "lease_ok p (set_entry t i (empty_entry p))"
    "lease_map p (set_entry t i (empty_entry p)) = (lease_map p t)(k := None)"
  using leases.del_ok [of p "lt_entries t" "empty_entry p" i]
    leases.del_map [of p "lt_entries t" i "empty_entry p" k] assms
  by (simp_all add: lease_ok_def lease_map_def set_entry_def)

lemma lease_floors_frame [simp]:
  "lease_ok p (raise_floors f s t) = lease_ok p t" "lease_map p (raise_floors f s t) = lease_map p t"
  "lt_entries (raise_floors f s t) = lt_entries t"
  "lt_fence_floor (raise_floors f s t) = max (lt_fence_floor t) f"
  "lt_stamp_floor (raise_floors f s t) = max (lt_stamp_floor t) s"
  by (auto simp: raise_floors_def lease_ok_def lease_map_def max_def)

lemma set_entry_floors [simp]:
  "lt_fence_floor (set_entry t i e) = lt_fence_floor t" "lt_stamp_floor (set_entry t i e) = lt_stamp_floor t"
  "length (lt_entries (set_entry t i e)) = length (lt_entries t)"
  by (simp_all add: set_entry_def)

lemma new_entry_sel [simp]:
  "le_used (new_entry p r q h f x s l) = 1" "le_holder (new_entry p r q h f x s l) = h"
  "le_fence (new_entry p r q h f x s l) = f" "le_expires_at (new_entry p r q h f x s l) = x"
  "le_stamp (new_entry p r q h f x s l) = s" "le_live (new_entry p r q h f x s l) = l"
  "le_flushing (new_entry p r q h f x s l) = 0"
  by (simp_all add: new_entry_def empty_entry_def)

lemma new_entry_key:
  assumes "key_fits p r q []"
  shows "lease_root (new_entry p r q h f x s l) = r" "lease_path p (new_entry p r q h f x s l) = q"
  using assms MAX_ROOT_u8 MAX_PATH_u16 [of p]
  by (simp_all add: lease_root_def lease_path_def new_entry_def key_fits_def unat_of_nat_small)

lemma new_entry_ok:
  assumes "key_fits p r q []" "q \<noteq> []" "l \<le> 1"
  shows "entry_ok p (new_entry p r q h f x s l)" "lease_key p (new_entry p r q h f x s l) = Some (r, q)"
  using assms new_entry_key [OF assms(1)] by (simp_all add: entry_ok_def lease_key_def)

end
