(* ===== verification/Lease_Props.thy ===== *)
theory Lease_Props
  imports Namespace_Leases
begin

text \<open>
  What the lease table guarantees over any sequence of records: \<open>lease_apply_cases\<close> says what
  one record can do to the map of leases; from it, fences and stamps only grow for a volume,
  recycled or not (\<open>grown\<close>), a fence names one writer for ever, a lease is not taken before it
  expires, a granted record replayed is stale, and the table survives a dump and restore.
\<close>

section \<open>What one record does\<close>

definition claimed :: "profile \<Rightarrow> u64 \<Rightarrow> lease_table \<Rightarrow> lease_table \<Rightarrow> bool" where
  "claimed p now t t1 \<longleftrightarrow> lease_ok p t1 \<and>
     (t1 = t \<or>
      (\<exists>k e. lease_map p t k = Some e \<and> \<not> held_at e now \<and> le_stamp e < now \<and>
         lease_map p t1 = (lease_map p t)(k := None) \<and>
         lt_fence_floor t1 = max (lt_fence_floor t) (le_fence e) \<and>
         lt_stamp_floor t1 = max (lt_stamp_floor t) (le_stamp e)))"

lemma claim_slot_claimed:
  assumes ok: "lease_ok p t" and run: "claim_slot p t now = (t1, res)"
  shows "claimed p now t t1"
    and "\<And>i. res = Some i \<Longrightarrow> i < length (lt_entries t1) \<and> lease_key p (lt_entries t1 ! i) = None"
proof -
  consider (free) i where "first_index (\<lambda>e. le_used e = 0) (lt_entries t) = Some i" "t1 = t" "res = Some i"
    | (recycle) i where "first_index (\<lambda>e. le_used e = 0) (lt_entries t) = None"
        "first_index (\<lambda>e. \<not> held_at e now \<and> le_stamp e < now) (lt_entries t) = Some i"
        "t1 = set_entry (raise_floors (le_fence (lt_entries t ! i)) (le_stamp (lt_entries t ! i)) t) i (empty_entry p)"
        "res = Some i"
    | (full) "t1 = t" "res = None"
    using run by (auto simp: claim_slot_def Let_def split: option.splits)
  then have "claimed p now t t1 \<and> (\<forall>i. res = Some i \<longrightarrow> i < length (lt_entries t1) \<and> lease_key p (lt_entries t1 ! i) = None)"
  proof cases
    case free
    then show ?thesis using first_index_SomeD [OF free(1)] ok by (auto simp: claimed_def lease_key_def)
  next
    case recycle
    have i: "i < length (lt_entries t)" "\<not> held_at (lt_entries t ! i) now" "le_stamp (lt_entries t ! i) < now"
      using first_index_SomeD [OF recycle(2)] by auto
    have "le_used (lt_entries t ! i) \<noteq> 0" using recycle(1) i(1) by (simp add: first_index_None)
    then obtain k where k: "lease_key p (lt_entries t ! i) = Some k" by (simp add: lease_key_def)
    let ?t0 = "raise_floors (le_fence (lt_entries t ! i)) (le_stamp (lt_entries t ! i)) t"
    have "lease_ok p t1" "lease_map p t1 = (lease_map p t)(k := None)"
      using set_entry_drop [of p ?t0 i k] ok i(1) k by (simp_all add: recycle(3))
    then have "claimed p now t t1"
      unfolding claimed_def using i lease_map_at [OF ok i(1) k]
      by (intro conjI disjI2 exI [of _ k] exI [of _ "lt_entries t ! i"]) (simp_all add: recycle(3))
    then show ?thesis using i(1) recycle(3,4) by (simp add: set_entry_def)
  next
    case full
    then show ?thesis using ok by (simp add: claimed_def)
  qed
  then show "claimed p now t t1"
    and "\<And>i. res = Some i \<Longrightarrow> i < length (lt_entries t1) \<and> lease_key p (lt_entries t1 ! i) = None"
    by auto
qed

lemma claimed_absent: "claimed p now t t1 \<Longrightarrow> lease_map p t k = None \<Longrightarrow> lease_map p t1 k = None"
  by (auto simp: claimed_def)

lemma judge_entry_frame:
  assumes "judge_entry op h now x e = (e', out)"
  shows "le_used e' = le_used e" "le_stamp e' = le_stamp e"
    "le_root_bytes e' = le_root_bytes e" "le_root_len e' = le_root_len e"
    "le_path_bytes e' = le_path_bytes e" "le_path_len e' = le_path_len e"
    "le_live e \<le> 1 \<Longrightarrow> le_live e' \<le> 1" "le_flushing e \<le> 1 \<Longrightarrow> le_flushing e' \<le> 1"
  using assms by (auto simp: judge_entry_def Let_def split: lease_op.splits if_splits option.splits)

lemma entry_ok_frame:
  assumes "entry_ok p e" "le_used e' = le_used e"
    "le_root_bytes e' = le_root_bytes e" "le_root_len e' = le_root_len e"
    "le_path_bytes e' = le_path_bytes e" "le_path_len e' = le_path_len e" "le_live e' \<le> 1"
    "le_flushing e' \<le> 1"
  shows "entry_ok p e'" "lease_key p e' = lease_key p e"
proof -
  have k: "lease_root e' = lease_root e" "lease_path p e' = lease_path p e"
    using assms by (simp_all add: lease_root_def lease_path_def)
  then show "lease_key p e' = lease_key p e" using assms(2) by (simp add: lease_key_def)
  show "entry_ok p e'"
    unfolding entry_ok_def
  proof (intro impI conjI)
    assume used: "le_used e' \<noteq> 0"
    let ?n = "new_entry p (lease_root e) (lease_path p e) (le_holder e) (le_fence e) (le_expires_at e) (le_stamp e) (le_live e)"
    have e: "e = ?n\<lparr>le_flushing := le_flushing e\<rparr>" and k': "lease_path p e \<noteq> []" "key_fits p (lease_root e) (lease_path p e) []"
      using used assms(1,2) by (auto simp: entry_ok_def)
    show "lease_path p e' \<noteq> []" "key_fits p (lease_root e') (lease_path p e') []" using k k' by simp_all
    have b: "le_used e = 1" "le_root_bytes e = le_root_bytes ?n" "le_root_len e = le_root_len ?n"
      "le_path_bytes e = le_path_bytes ?n" "le_path_len e = le_path_len ?n"
      by (subst e, simp)+
    show "e' = (new_entry p (lease_root e') (lease_path p e') (le_holder e') (le_fence e') (le_expires_at e')
              (le_stamp e') (le_live e'))\<lparr>le_flushing := le_flushing e'\<rparr>"
      using assms(2-6) b by (intro lease_entry.equality) (simp_all add: k, simp_all add: new_entry_def)
  qed (rule assms(7,8))+
qed

text \<open>The effect of \<open>apply\<close> on the map of leases, one case per way it can end.\<close>

lemma lease_apply_cases:
  assumes ok: "lease_ok p t" and run: "lease_apply p t mode r q h now ttl = (t', out)"
  obtains (refused) "t' = t" "lo_status out \<noteq> Granted"
  | (judged) op e e' where "lease_op_from_u8 mode = Some op" "lease_map p t (r, q) = Some e" "le_stamp e < now"
      "judge_entry op h now (sat_add now (ucast ttl)) (e\<lparr>le_stamp := now\<rparr>) = (e', out)"
      "lease_ok p t'" "lease_map p t' = (lease_map p t)((r, q) \<mapsto> e')"
      "lt_fence_floor t' = lt_fence_floor t" "lt_stamp_floor t' = lt_stamp_floor t"
  | (busy) "lease_map p t (r, q) = None" "claimed p now t t'" "lt_stamp_floor t < now" "lo_status out = Busy"
  | (fresh) t1 f where "lease_map p t (r, q) = None" "claimed p now t t1" "lt_stamp_floor t < now"
      "checked_add (lt_fence_floor t1) 1 = Some f" "lease_ok p t'"
      "lease_map p t' = (lease_map p t1)((r, q) \<mapsto> new_entry p r q h f (sat_add now (ucast ttl)) now 1)"
      "lt_fence_floor t' = lt_fence_floor t1" "lt_stamp_floor t' = lt_stamp_floor t1"
      "out = \<lparr>lo_status = Granted, lo_fence = f, lo_expires_at = sat_add now (ucast ttl)\<rparr>"
proof (cases "lease_op_from_u8 mode")
  case None
  with run show ?thesis by (intro refused) (auto simp: lease_apply_def bare_def)
next
  case (Some op)
  let ?x = "sat_add now (ucast ttl)"
  show ?thesis
  proof (cases "now = 0 \<or> \<not> key_fits p r q [] \<or> q = [] \<or> op \<noteq> Release \<and> (ttl = 0 \<or> LEASE_TTL_MAX_MS < ttl)")
    case True
    with run Some show ?thesis by (intro refused) (auto simp: lease_apply_def bare_def split: if_splits)
  next
    case False
    then have fits: "key_fits p r q []" "q \<noteq> []" by auto
    show ?thesis
    proof (cases "lease_find p t r q")
      case none: None
      then have absent: "lease_map p t (r, q) = None" by (rule lease_find_None [OF ok])
      have run': "apply_absent p t op r q h now ?x = (t', out)"
        using run Some False none by (auto simp: lease_apply_def Let_def split: if_splits)
      show ?thesis
      proof (cases "now \<le> lt_stamp_floor t \<or> op \<noteq> Acquire")
        case True
        with run' show ?thesis by (intro refused) (auto simp: apply_absent_def bare_def split: if_splits)
      next
        case acq: False
        obtain t1 res where c: "claim_slot p t now = (t1, res)" by fastforce
        note cl = claim_slot_claimed [OF ok c]
        show ?thesis
        proof (cases "res = None \<or> checked_add (lt_fence_floor t1) 1 = None")
          case True
          with run' acq c have "t' = t1" "lo_status out = Busy"
            by (auto simp: apply_absent_def bare_def split: option.splits)
          then show ?thesis using absent cl(1) acq by (intro busy) auto
        next
          case False
          then obtain i f where i: "res = Some i" "checked_add (lt_fence_floor t1) 1 = Some f" by auto
          let ?e = "new_entry p r q h f ?x now 1"
          have t': "t' = set_entry t1 i ?e" "out = \<lparr>lo_status = Granted, lo_fence = f, lo_expires_at = ?x\<rparr>"
            using run' acq c i by (auto simp: apply_absent_def)
          have put: "lease_ok p t'" "lease_map p t' = (lease_map p t1)((r, q) \<mapsto> ?e)"
            using set_entry_put [of p t1 i ?e "(r, q)"] cl(1) cl(2) [OF i(1)] new_entry_ok [OF fits, of 1]
              claimed_absent [OF cl(1) absent]
            by (simp_all add: t'(1) claimed_def)
          show ?thesis
            using acq i(2) put t' absent cl(1) by (intro fresh [of t1 f]) auto
        qed
      qed
    next
      case (Some i)
      note k = lease_find_Some [OF ok Some]
      let ?e = "lt_entries t ! i"
      show ?thesis
      proof (cases "now \<le> le_stamp ?e")
        case True
        with run Some \<open>lease_op_from_u8 mode = Some op\<close> False show ?thesis
          by (intro refused) (auto simp: lease_apply_def Let_def bare_def split: if_splits)
      next
        case late: False
        obtain e' o' where j: "judge_entry op h now ?x (?e\<lparr>le_stamp := now\<rparr>) = (e', o')" by fastforce
        have t': "t' = set_entry t i e'" "out = o'"
          using run Some \<open>lease_op_from_u8 mode = Some op\<close> False late j
          by (auto simp: lease_apply_def Let_def split: if_splits)
        have eok: "entry_ok p ?e" "le_used ?e \<noteq> 0"
          using k ok lease_map_key [OF ok] by (auto simp: lease_key_def split: if_splits)
        then have "le_live ?e \<le> 1" "le_flushing ?e \<le> 1" by (simp_all add: entry_ok_def)
        then have e': "entry_ok p e'" "lease_key p e' = Some (r, q)"
          using entry_ok_frame [OF eok(1), of e'] judge_entry_frame [OF j] k by simp_all
        have "lease_ok p t'" "lease_map p t' = (lease_map p t)((r, q) \<mapsto> e')"
          using set_entry_put [OF ok, of i e' "(r, q)"] k e' by (simp_all add: t'(1))
        then show ?thesis
          using k late j t' \<open>lease_op_from_u8 mode = Some op\<close> by (intro judged [of op ?e e']) auto
      qed
    qed
  qed
qed

section \<open>Records, and what they leave behind\<close>

datatype lease_cmd =
  LApply u8 bytes bytes bytes u64 u32
| LTouch bytes bytes u64
| LFlush bytes bytes bytes bool
| LEndFlushes u64

fun lease_exec :: "profile \<Rightarrow> lease_table \<Rightarrow> lease_cmd \<Rightarrow> lease_table \<times> lease_outcome option" where
  "lease_exec p t (LApply mode r q h now ttl) = (let (t', out) = lease_apply p t mode r q h now ttl in (t', Some out))"
| "lease_exec p t (LTouch r q now) = (fst (lease_touch p t r q now), None)"
| "lease_exec p t (LFlush r q h b) = (fst (set_flushing p t r q h b), None)"
| "lease_exec p t (LEndFlushes now) = (fst (end_expired_flushes t now), None)"

fun lease_exec_all :: "profile \<Rightarrow> lease_table \<Rightarrow> lease_cmd list \<Rightarrow> lease_table \<times> lease_outcome option list" where
  "lease_exec_all p t [] = (t, [])"
| "lease_exec_all p t (c # cs) =
     (let (t1, out) = lease_exec p t c; (t2, outs) = lease_exec_all p t1 cs in (t2, out # outs))"

text \<open>The last fence issued and the last record judged for a volume: the entry's, or the floors
  when the volume has none.\<close>

definition last_fence :: "profile \<Rightarrow> lease_table \<Rightarrow> bytes \<times> bytes \<Rightarrow> u64" where
  "last_fence p t k = (case lease_map p t k of Some e \<Rightarrow> le_fence e | None \<Rightarrow> lt_fence_floor t)"

definition last_stamp :: "profile \<Rightarrow> lease_table \<Rightarrow> bytes \<times> bytes \<Rightarrow> u64" where
  "last_stamp p t k = (case lease_map p t k of Some e \<Rightarrow> le_stamp e | None \<Rightarrow> lt_stamp_floor t)"

definition grown :: "profile \<Rightarrow> lease_table \<Rightarrow> lease_table \<Rightarrow> bool" where
  "grown p t t' \<longleftrightarrow> (\<forall>k. last_fence p t k \<le> last_fence p t' k \<and> last_stamp p t k \<le> last_stamp p t' k \<and>
     (\<forall>e'. lease_map p t' k = Some e' \<and> le_fence e' = last_fence p t k \<longrightarrow>
        (\<exists>e. lease_map p t k = Some e \<and> le_holder e' = le_holder e)))"

lemma grownI:
  assumes "\<And>k. last_fence p t k \<le> last_fence p t' k \<and> last_stamp p t k \<le> last_stamp p t' k \<and>
     (\<forall>e'. lease_map p t' k = Some e' \<and> le_fence e' = last_fence p t k \<longrightarrow>
        (\<exists>e. lease_map p t k = Some e \<and> le_holder e' = le_holder e))"
  shows "grown p t t'"
  using assms unfolding grown_def by blast

lemma grownD:
  assumes "grown p t t'"
  shows "last_fence p t k \<le> last_fence p t' k" "last_stamp p t k \<le> last_stamp p t' k"
    "lease_map p t' k = Some e' \<Longrightarrow> le_fence e' = last_fence p t k \<Longrightarrow>
       \<exists>e. lease_map p t k = Some e \<and> le_holder e' = le_holder e"
  using assms unfolding grown_def by blast+

lemma grown_refl [simp]: "grown p t t"
  by (rule grownI) (auto simp: last_fence_def)

lemma grown_trans: "grown p t t1 \<Longrightarrow> grown p t1 t2 \<Longrightarrow> grown p t t2"
proof (rule grownI, intro conjI allI impI)
  fix k assume g: "grown p t t1" "grown p t1 t2"
  note g1 = grownD [OF g(1), of k] and g2 = grownD [OF g(2), of k]
  show "last_fence p t k \<le> last_fence p t2 k" "last_stamp p t k \<le> last_stamp p t2 k"
    using g1(1,2) g2(1,2) by (blast intro: order_trans)+
  fix e' assume e': "lease_map p t2 k = Some e' \<and> le_fence e' = last_fence p t k"
  then have "last_fence p t2 k = last_fence p t k" by (simp add: last_fence_def)
  then have eq: "last_fence p t1 k = last_fence p t k" using g1(1) g2(1) by simp
  then obtain e1 where e1: "lease_map p t1 k = Some e1" "le_holder e' = le_holder e1" using g2(3) e' by auto
  moreover have "le_fence e1 = last_fence p t k" using e1(1) eq by (simp add: last_fence_def)
  ultimately show "\<exists>e. lease_map p t k = Some e \<and> le_holder e' = le_holder e" using g1(3) by metis
qed

lemma grown_put:
  assumes "lease_map p t' = (lease_map p t)(k \<mapsto> e')" "lease_map p t k = Some e"
    "lt_fence_floor t' = lt_fence_floor t" "lt_stamp_floor t' = lt_stamp_floor t"
    "le_stamp e \<le> le_stamp e'" "le_fence e < le_fence e' \<or> le_fence e' = le_fence e \<and> le_holder e' = le_holder e"
  shows "grown p t t'"
proof (rule grownI)
  show "last_fence p t k' \<le> last_fence p t' k' \<and> last_stamp p t k' \<le> last_stamp p t' k' \<and>
     (\<forall>e'. lease_map p t' k' = Some e' \<and> le_fence e' = last_fence p t k' \<longrightarrow>
        (\<exists>e. lease_map p t k' = Some e \<and> le_holder e' = le_holder e))" for k'
    using assms by (cases "k' = k"; cases "lease_map p t k'") (auto simp: last_fence_def last_stamp_def)
qed

lemma grown_drop:
  assumes "lease_map p t1 = (lease_map p t)(k := None)" "lease_map p t k = Some e"
    "lt_fence_floor t1 = max (lt_fence_floor t) (le_fence e)"
    "lt_stamp_floor t1 = max (lt_stamp_floor t) (le_stamp e)"
  shows "grown p t t1"
proof (rule grownI)
  show "last_fence p t k' \<le> last_fence p t1 k' \<and> last_stamp p t k' \<le> last_stamp p t1 k' \<and>
     (\<forall>e'. lease_map p t1 k' = Some e' \<and> le_fence e' = last_fence p t k' \<longrightarrow>
        (\<exists>e. lease_map p t k' = Some e \<and> le_holder e' = le_holder e))" for k'
    using assms by (cases "k' = k"; cases "lease_map p t k'") (auto simp: last_fence_def last_stamp_def)
qed

lemma grown_new:
  assumes "lease_map p t' = (lease_map p t)(k \<mapsto> e')" "lease_map p t k = None"
    "lt_fence_floor t' = lt_fence_floor t" "lt_stamp_floor t' = lt_stamp_floor t"
    "lt_fence_floor t < le_fence e'" "lt_stamp_floor t \<le> le_stamp e'"
  shows "grown p t t'"
proof (rule grownI)
  show "last_fence p t k' \<le> last_fence p t' k' \<and> last_stamp p t k' \<le> last_stamp p t' k' \<and>
     (\<forall>e'. lease_map p t' k' = Some e' \<and> le_fence e' = last_fence p t k' \<longrightarrow>
        (\<exists>e. lease_map p t k' = Some e \<and> le_holder e' = le_holder e))" for k'
    using assms by (cases "k' = k"; cases "lease_map p t k'") (auto simp: last_fence_def last_stamp_def)
qed

lemma grown_claimed: "claimed p now t t1 \<Longrightarrow> grown p t t1"
  using grown_drop by (auto simp: claimed_def)

lemma checked_succ:
  assumes "checked_add (f :: u64) 1 = Some g"
  shows "f < g"
  using checked_add_Some [OF assms] by (simp add: word_less_nat_alt)

lemma judge_entry_grows:
  assumes "judge_entry op h now x e = (e', out)"
  shows "le_fence e < le_fence e' \<or> le_fence e' = le_fence e \<and> le_holder e' = le_holder e"
  using assms
  by (auto simp: judge_entry_def Let_def dest: checked_succ split: lease_op.splits if_splits option.splits)

lemma lease_apply_grown:
  assumes ok: "lease_ok p t" and run: "lease_apply p t mode r q h now ttl = (t', out)"
  shows "lease_ok p t' \<and> grown p t t'"
  using ok run
proof (cases rule: lease_apply_cases)
  case refused
  then show ?thesis using ok by simp
next
  case (judged op e e')
  have "grown p t t'"
    using judged(2,3,6,7,8) judge_entry_frame(2) [OF judged(4)] judge_entry_grows [OF judged(4)]
    by (intro grown_put [of p t' t "(r, q)" e' e]) auto
  then show ?thesis using judged(5) by simp
next
  case busy
  then show ?thesis using grown_claimed [OF busy(2)] by (simp add: claimed_def)
next
  case (fresh t1 f)
  have none: "lease_map p t1 (r, q) = None" by (rule claimed_absent [OF fresh(2,1)])
  have st: "lt_stamp_floor t1 < now" using fresh(2,3) by (auto simp: claimed_def)
  have "grown p t1 t'"
    using none checked_succ [OF fresh(4)] st fresh(7,8) by (intro grown_new [OF fresh(6)]) auto
  then show ?thesis using fresh(5) grown_trans [OF grown_claimed [OF fresh(2)]] by blast
qed

lemma lease_touch_grown:
  assumes ok: "lease_ok p t"
  shows "lease_ok p (fst (lease_touch p t r q now)) \<and> grown p t (fst (lease_touch p t r q now))"
proof (cases "lease_find p t r q")
  case (Some i)
  note k = lease_find_Some [OF ok Some]
  let ?e = "lt_entries t ! i" and ?e' = "(lt_entries t ! i)\<lparr>le_stamp := now\<rparr>"
  have eok: "entry_ok p ?e" "le_used ?e \<noteq> 0"
    using k ok lease_map_key [OF ok] by (auto simp: lease_key_def split: if_splits)
  then have "entry_ok p ?e'" "lease_key p ?e' = Some (r, q)"
    using entry_ok_frame [OF eok(1), of ?e'] k by (auto simp: entry_ok_def)
  note put = set_entry_put [OF ok _ this, of i]
  have "grown p t (set_entry t i ?e')" if "le_stamp ?e < now"
    using put(2) k that by (intro grown_put [of p _ t "(r, q)" ?e' ?e]) auto
  then show ?thesis using Some ok put(1) k by (auto simp: lease_touch_def Let_def)
qed (simp add: lease_touch_def ok)

lemma set_flushing_grown:
  assumes ok: "lease_ok p t"
  shows "lease_ok p (fst (set_flushing p t r q h b)) \<and> grown p t (fst (set_flushing p t r q h b))"
proof (cases "lease_find p t r q")
  case (Some i)
  note k = lease_find_Some [OF ok Some]
  let ?e = "lt_entries t ! i" and ?e' = "(lt_entries t ! i)\<lparr>le_flushing := if b then 1 else 0\<rparr>"
  have eok: "entry_ok p ?e" "le_used ?e \<noteq> 0"
    using k ok lease_map_key [OF ok] by (auto simp: lease_key_def split: if_splits)
  then have "le_live ?e' \<le> 1" "le_flushing ?e' \<le> 1" by (simp_all add: entry_ok_def)
  then have "entry_ok p ?e'" "lease_key p ?e' = Some (r, q)"
    using entry_ok_frame [OF eok(1), of ?e'] k by simp_all
  note put = set_entry_put [OF ok _ this, of i]
  have "grown p t (set_entry t i ?e')"
    using put(2) k by (intro grown_put [of p _ t "(r, q)" ?e' ?e]) simp_all
  then show ?thesis using Some ok put(1) k by (simp add: set_flushing_def Let_def)
qed (simp add: set_flushing_def ok)

lemma end_flushes_entry:
  assumes "entry_ok p e"
  shows "entry_ok p (e\<lparr>le_flushing := 0\<rparr>)" "lease_key p (e\<lparr>le_flushing := 0\<rparr>) = lease_key p e"
proof -
  show "lease_key p (e\<lparr>le_flushing := 0\<rparr>) = lease_key p e"
    by (simp add: lease_key_def lease_root_def lease_path_def)
  show "entry_ok p (e\<lparr>le_flushing := 0\<rparr>)"
  proof (cases "le_used e = 0")
    case False
    then have "le_live e \<le> 1" using assms unfolding entry_ok_def by blast
    then show ?thesis by (intro entry_ok_frame(1) [OF assms]) simp_all
  qed (simp add: entry_ok_def)
qed

lemma end_flushes_map:
  assumes ok: "lease_ok p t" and run: "end_expired_flushes t now = (t', n)"
  shows "lease_ok p t'" "lt_fence_floor t' = lt_fence_floor t" "lt_stamp_floor t' = lt_stamp_floor t"
    "now \<noteq> 0 \<Longrightarrow> lease_map p t' k =
       map_option (\<lambda>e. if flush_lapsed now e then e\<lparr>le_flushing := 0\<rparr> else e) (lease_map p t k)"
    "now = 0 \<Longrightarrow> t' = t"
proof -
  let ?g = "\<lambda>e. if flush_lapsed now e then e\<lparr>le_flushing := 0\<rparr> else e"
  have key: "lease_key p (?g e) = lease_key p e" for e
    by (simp add: lease_key_def lease_root_def lease_path_def)
  show floors: "lt_fence_floor t' = lt_fence_floor t" "lt_stamp_floor t' = lt_stamp_floor t"
    using run by (auto simp: end_expired_flushes_def split: if_splits)
  show "now = 0 \<Longrightarrow> t' = t" using run by (simp add: end_expired_flushes_def)
  have ents: "lt_entries t' = (if now = 0 then lt_entries t else map ?g (lt_entries t))"
    using run by (auto simp: end_expired_flushes_def split: if_splits)
  have "arena_ok (entry_ok p) (lease_key p) (map ?g (lt_entries t))"
    using ok end_flushes_entry(1) key by (auto simp: lease_ok_def arena_ok_def)
  then show ok': "lease_ok p t'" using ok by (simp add: lease_ok_def ents)
  assume "now \<noteq> 0"
  have "lease_names p r q (?g e) = lease_names p r q e" for r q e
    by (simp add: lease_names_def lease_root_def lease_path_def)
  then have "List.find (lease_hits p k) (map ?g es) = map_option ?g (List.find (lease_hits p k) es)" for es
    by (induction es) (simp_all add: lease_hits_def)
  then show "lease_map p t' k = map_option ?g (lease_map p t k)"
    using \<open>now \<noteq> 0\<close> by (simp add: lease_map_def arena_map_def ents)
qed

lemma end_flushes_grown:
  assumes ok: "lease_ok p t"
  shows "lease_ok p (fst (end_expired_flushes t now)) \<and> grown p t (fst (end_expired_flushes t now))"
proof (cases "now = 0")
  case False
  obtain t' n where run: "end_expired_flushes t now = (t', n)" by fastforce
  note m = end_flushes_map [OF ok run]
  have "last_fence p t k \<le> last_fence p t' k \<and> last_stamp p t k \<le> last_stamp p t' k \<and>
     (\<forall>e'. lease_map p t' k = Some e' \<and> le_fence e' = last_fence p t k \<longrightarrow>
        (\<exists>e. lease_map p t k = Some e \<and> le_holder e' = le_holder e))" for k
    using m(2,3) m(4) [OF False, of k]
    by (cases "lease_map p t k") (auto simp: last_fence_def last_stamp_def)
  then show ?thesis using m(1) run by (simp add: grownI)
qed (simp add: end_expired_flushes_def ok)

lemma lease_exec_grown:
  assumes "lease_ok p t" "lease_exec p t c = (t', out)"
  shows "lease_ok p t' \<and> grown p t t'"
  using assms lease_touch_grown set_flushing_grown end_flushes_grown
  by (cases c) (auto simp: Let_def dest: lease_apply_grown split: prod.splits)

lemma lease_exec_all_grown:
  "lease_ok p t \<Longrightarrow> lease_exec_all p t cs = (t', outs) \<Longrightarrow> lease_ok p t' \<and> grown p t t'"
proof (induction cs arbitrary: t t' outs)
  case (Cons c cs)
  obtain t1 o1 where 1: "lease_exec p t c = (t1, o1)" by fastforce
  obtain t2 os where 2: "lease_exec_all p t1 cs = (t2, os)" by fastforce
  note g = lease_exec_grown [OF Cons.prems(1) 1]
  have "t' = t2" using Cons.prems(2) 1 2 by simp
  then show ?case using Cons.IH [OF conjunct1 [OF g] 2] g grown_trans by blast
qed simp

lemma lease_new_ok: "lease_ok p (lease_new p n)"
  by (simp add: lease_ok_def lease_new_def arena_ok_replicate)

inductive lease_reach :: "profile \<Rightarrow> nat \<Rightarrow> lease_table \<Rightarrow> bool" for p n where
  lease_reach_new: "lease_reach p n (lease_new p n)"
| lease_reach_step: "lease_reach p n t \<Longrightarrow> lease_exec p t c = (t', out) \<Longrightarrow> lease_reach p n t'"

lemma lease_reach_ok: "lease_reach p n t \<Longrightarrow> lease_ok p t"
  by (induction rule: lease_reach.induct) (use lease_new_ok lease_exec_grown in blast)+

section \<open>Grants\<close>

lemma sat_add_pos: "now \<noteq> 0 \<Longrightarrow> sat_add now (x :: u64) \<noteq> 0"
  using sat_add_ge [of now x] by (metis word_le_0_iff)

lemma granted_entry:
  assumes ok: "lease_ok p t" and run: "lease_apply p t mode r q h now ttl = (t', out)"
    and g: "lo_status out = Granted"
  shows "\<exists>e. lease_map p t' (r, q) = Some e \<and> le_fence e = lo_fence out \<and> le_holder e = h \<and>
    le_stamp e = now \<and> (lo_expires_at out \<noteq> 0 \<longrightarrow> le_live e \<noteq> 0 \<and> le_expires_at e = lo_expires_at out)"
  using ok run
proof (cases rule: lease_apply_cases)
  case (judged op e e')
  have "le_fence e' = lo_fence out \<and> le_holder e' = h \<and>
     (lo_expires_at out \<noteq> 0 \<longrightarrow> le_live e' \<noteq> 0 \<and> le_expires_at e' = lo_expires_at out)"
    using judged(4) g
    by (auto simp: judge_entry_def Let_def standing_def bare_def split: lease_op.splits if_splits option.splits)
  moreover have "le_stamp e' = now" using judge_entry_frame(2) [OF judged(4)] by simp
  ultimately show ?thesis using judged(6) by simp
qed (use g in simp_all)

text \<open>C11: a fence names one writer for ever: of two grants for a volume the later has at least the
  earlier's fence, and the same fence only if both went to the same holder, whatever records
  for this and other volumes came between and even if the volume's entry was recycled.\<close>

theorem lease_fence_one_writer:
  assumes "lease_reach p n t0"
    and "lease_apply p t0 m1 r q h1 now1 ttl1 = (t1, o1)" and "lo_status o1 = Granted"
    and "lease_exec_all p t1 cs = (t2, outs)"
    and "lease_apply p t2 m2 r q h2 now2 ttl2 = (t3, o2)" and "lo_status o2 = Granted"
  shows "lo_fence o1 \<le> lo_fence o2 \<and> (lo_fence o1 = lo_fence o2 \<longrightarrow> h1 = h2)"
proof -
  note ok0 = lease_reach_ok [OF assms(1)]
  note g1 = lease_apply_grown [OF ok0 assms(2)]
  note g2 = lease_exec_all_grown [OF conjunct1 [OF g1] assms(4)]
  note g3 = lease_apply_grown [OF conjunct1 [OF g2] assms(5)]
  have g: "grown p t1 t3" using g2 g3 grown_trans by blast
  obtain e1 where e1: "lease_map p t1 (r, q) = Some e1" "le_fence e1 = lo_fence o1" "le_holder e1 = h1"
    using granted_entry [OF ok0 assms(2,3)] by blast
  obtain e3 where e3: "lease_map p t3 (r, q) = Some e3" "le_fence e3 = lo_fence o2" "le_holder e3 = h2"
    using granted_entry [OF conjunct1 [OF g2] assms(5,6)] by blast
  have "last_fence p t1 (r, q) = lo_fence o1" "last_fence p t3 (r, q) = lo_fence o2"
    using e1 e3 by (simp_all add: last_fence_def)
  then show ?thesis
    using grownD(1) [OF g, of "(r, q)"] grownD(3) [OF g e3(1)] e1 e3 by auto
qed

definition demo_h1 :: bytes where "demo_h1 = replicate 16 1"
definition demo_h2 :: bytes where "demo_h2 = replicate 16 2"

theorem lease_fence_one_writer_witness:
  "(let t1 = fst (lease_apply Minimal (lease_new Minimal 1) 1 [1] [2] demo_h1 10 5);
        t2 = fst (lease_exec_all Minimal t1 [LApply 1 [1] [3] demo_h2 20 5])
    in lo_fence (snd (lease_apply Minimal t2 1 [1] [2] demo_h2 40 5)) = 3) \<and>
   (1::u64) \<le> 3"
proof -
  let ?p1 = "lease_apply Minimal (lease_new Minimal 1) 1 [1] [2] demo_h1 10 5"
  let ?p2 = "lease_exec_all Minimal (fst ?p1) [LApply 1 [1] [3] demo_h2 20 5]"
  let ?p3 = "lease_apply Minimal (fst ?p2) 1 [1] [2] demo_h2 40 5"
  have run: "lo_status (snd ?p1) = Granted" "lo_fence (snd ?p1) = 1" "lo_status (snd ?p3) = Granted" "lo_fence (snd ?p3) = 3"
    by code_simp+
  have "lo_fence (snd ?p1) \<le> lo_fence (snd ?p3)"
    using lease_fence_one_writer [OF lease_reach_new _ run(1) _ _ run(3)] by (metis prod.collapse)
  then show ?thesis using run by (simp add: Let_def)
qed

section \<open>A lease stands until it expires\<close>

definition lease_stands :: "profile \<Rightarrow> lease_table \<Rightarrow> bytes \<times> bytes \<Rightarrow> bytes \<Rightarrow> u64 \<Rightarrow> u64 \<Rightarrow> bool" where
  "lease_stands p t k h f x \<longleftrightarrow>
     (\<exists>e. lease_map p t k = Some e \<and> le_holder e = h \<and> le_fence e = f \<and> le_live e \<noteq> 0 \<and> le_expires_at e = x)"

text \<open>A record that may not end the lease: it is stamped before the expiry and is not the holder's
  own record for the volume.\<close>

fun not_ending :: "bytes \<times> bytes \<Rightarrow> bytes \<Rightarrow> u64 \<Rightarrow> lease_cmd \<Rightarrow> bool" where
  "not_ending k h x (LApply mode r q h' now ttl) \<longleftrightarrow> now < x \<and> (h' \<noteq> h \<or> (r, q) \<noteq> k)"
| "not_ending k h x _ \<longleftrightarrow> True"

lemma judge_entry_other:
  assumes "judge_entry op h' now x' e = (e', out)" "le_live e \<noteq> 0" "now < le_expires_at e" "h' \<noteq> le_holder e"
  shows "e' = e"
  using assms by (auto simp: judge_entry_def Let_def held_at_def split: lease_op.splits)

lemma stands_claimed:
  assumes "claimed p now t t1" "lease_stands p t k h f x" "now < x"
  shows "lease_stands p t1 k h f x"
  using assms unfolding claimed_def
proof (elim conjE disjE exE)
  fix k' e'
  assume d: "lease_map p t k' = Some e'" "\<not> held_at e' now" "lease_map p t1 = (lease_map p t)(k' := None)"
  obtain e where e: "lease_map p t k = Some e" "le_holder e = h" "le_fence e = f" "le_live e \<noteq> 0" "le_expires_at e = x"
    using assms(2) by (auto simp: lease_stands_def)
  then have "k \<noteq> k'" using d assms(3) by (auto simp: held_at_def)
  then have "lease_map p t1 k = Some e" using d(3) e(1) by simp
  then show ?thesis using e unfolding lease_stands_def by blast
qed simp

lemma stands_apply:
  assumes ok: "lease_ok p t" and run: "lease_apply p t mode r q h' now ttl = (t', out)"
    and st: "lease_stands p t k h f x" and ne: "now < x" "h' \<noteq> h \<or> (r, q) \<noteq> k"
  shows "lease_stands p t' k h f x"
  using ok run
proof (cases rule: lease_apply_cases)
  case refused
  then show ?thesis using st by simp
next
  case (judged op e e')
  obtain e0 where e0: "lease_map p t k = Some e0" "le_holder e0 = h" "le_fence e0 = f" "le_live e0 \<noteq> 0" "le_expires_at e0 = x"
    using st by (auto simp: lease_stands_def)
  show ?thesis
  proof (cases "(r, q) = k")
    case True
    then have "e = e0" "h' \<noteq> h" using judged(2) e0(1) ne(2) by auto
    then have "e' = e0\<lparr>le_stamp := now\<rparr>"
      using judge_entry_other [OF judged(4)] e0 ne(1) by simp
    then show ?thesis using judged(6) True e0 by (auto simp: lease_stands_def)
  next
    case False
    then show ?thesis using judged(6) e0 by (auto simp: lease_stands_def)
  qed
next
  case busy
  then show ?thesis using stands_claimed [OF busy(2) st ne(1)] by simp
next
  case (fresh t1 f')
  have "lease_stands p t1 k h f x" by (rule stands_claimed [OF fresh(2) st ne(1)])
  moreover have "k \<noteq> (r, q)" using st fresh(1) by (auto simp: lease_stands_def)
  ultimately show ?thesis using fresh(6) by (simp add: lease_stands_def)
qed

lemma stands_touch:
  assumes ok: "lease_ok p t" and st: "lease_stands p t k h f x"
  shows "lease_stands p (fst (lease_touch p t r q now)) k h f x"
proof (cases "lease_find p t r q")
  case (Some i)
  note l = lease_find_Some [OF ok Some]
  let ?e' = "(lt_entries t ! i)\<lparr>le_stamp := now\<rparr>"
  have "entry_ok p (lt_entries t ! i)" "le_used (lt_entries t ! i) \<noteq> 0"
    using l lease_map_key [OF ok] by (auto simp: lease_key_def split: if_splits)
  then have "entry_ok p ?e'" "lease_key p ?e' = Some (r, q)"
    using entry_ok_frame [of p "lt_entries t ! i" ?e'] l unfolding entry_ok_def by auto
  from set_entry_put(2) [OF ok _ this, of i] l st show ?thesis
    using Some by (auto simp: lease_touch_def Let_def lease_stands_def)
qed (use st in \<open>simp add: lease_touch_def\<close>)

lemma stands_flush:
  assumes ok: "lease_ok p t" and st: "lease_stands p t k h f x"
  shows "lease_stands p (fst (set_flushing p t r q h' b)) k h f x"
proof (cases "lease_find p t r q")
  case (Some i)
  note l = lease_find_Some [OF ok Some]
  let ?e' = "(lt_entries t ! i)\<lparr>le_flushing := if b then 1 else 0\<rparr>"
  have e: "entry_ok p (lt_entries t ! i)" "le_used (lt_entries t ! i) \<noteq> 0"
    using l lease_map_key [OF ok] by (auto simp: lease_key_def split: if_splits)
  then have "le_live ?e' \<le> 1" "le_flushing ?e' \<le> 1" by (simp_all add: entry_ok_def)
  then have "entry_ok p ?e'" "lease_key p ?e' = Some (r, q)"
    using entry_ok_frame [OF e(1), of ?e'] l by simp_all
  from set_entry_put(2) [OF ok _ this, of i] l st show ?thesis
    using Some by (auto simp: set_flushing_def Let_def lease_stands_def)
qed (use st in \<open>simp add: set_flushing_def\<close>)

lemma stands_end_flushes:
  assumes ok: "lease_ok p t" and st: "lease_stands p t k h f x"
  shows "lease_stands p (fst (end_expired_flushes t now)) k h f x"
proof -
  obtain t' n where run: "end_expired_flushes t now = (t', n)" by fastforce
  show ?thesis
    using end_flushes_map(4) [OF ok run, of k] end_flushes_map(5) [OF ok run] st run
    by (cases "now = 0"; cases "\<exists>e. lease_map p t k = Some e \<and> flush_lapsed now e") (auto simp: lease_stands_def)
qed

lemma stands_exec_all:
  "lease_ok p t \<Longrightarrow> lease_stands p t k h f x \<Longrightarrow> list_all (not_ending k h x) cs \<Longrightarrow>
   lease_exec_all p t cs = (t', outs) \<Longrightarrow> lease_stands p t' k h f x"
proof (induction cs arbitrary: t outs)
  case (Cons c cs)
  obtain t1 o1 where 1: "lease_exec p t c = (t1, o1)" by fastforce
  obtain t2 os where 2: "lease_exec_all p t1 cs = (t2, os)" by fastforce
  have ok1: "lease_ok p t1" using lease_exec_grown [OF Cons.prems(1) 1] by simp
  have "lease_stands p t1 k h f x"
    using 1 Cons.prems(1-3) stands_touch [of p t k h f x] stands_flush [of p t k h f x]
      stands_end_flushes [of p t k h f x]
    by (cases c) (auto simp: Let_def dest: stands_apply split: prod.splits)
  moreover have "t' = t2" using Cons.prems(4) 1 2 by simp
  ultimately show ?case using Cons.IH [OF ok1 _ _] Cons.prems(3) 2 by simp
qed simp

text \<open>A lease stands until it expires: after a grant with expiry \<open>x\<close>, no sequence of records
  that are stamped before \<open>x\<close> and are not the holder's own for that volume (contenders, recycling
  for other volumes, flushes, sweeps) takes it away; the holder still holds it under the granted
  fence at every time before \<open>x\<close>.\<close>

theorem lease_not_taken:
  assumes "lease_reach p n t0"
    and "lease_apply p t0 mode r q h now ttl = (t1, out)" and "lo_status out = Granted"
    and "lo_expires_at out \<noteq> 0" and "list_all (not_ending (r, q) h (lo_expires_at out)) cs"
    and "lease_exec_all p t1 cs = (t2, outs)" and "now' < lo_expires_at out"
  shows "lease_holds p t2 r q h (lo_fence out) now'"
proof -
  note ok0 = lease_reach_ok [OF assms(1)]
  have ok1: "lease_ok p t1" using lease_apply_grown [OF ok0 assms(2)] by simp
  have "lease_stands p t1 (r, q) h (lo_fence out) (lo_expires_at out)"
    using granted_entry [OF ok0 assms(2,3)] assms(4) by (auto simp: lease_stands_def)
  from stands_exec_all [OF ok1 this assms(5,6)] show ?thesis
    using assms(7) by (auto simp: lease_stands_def lease_holds_def lease_lease_map held_at_def)
qed

theorem lease_not_taken_witness:
  "lease_holds Minimal
     (fst (lease_exec_all Minimal (fst (lease_apply Minimal (lease_new Minimal 1) 1 [1] [2] demo_h1 10 5))
        [LApply 1 [1] [2] demo_h2 12 5, LApply 1 [1] [3] demo_h2 13 5, LEndFlushes 14])) [1] [2] demo_h1 1 14"
proof -
  let ?p1 = "lease_apply Minimal (lease_new Minimal 1) 1 [1] [2] demo_h1 10 5"
  let ?cs = "[LApply 1 [1] [2] demo_h2 12 5, LApply 1 [1] [3] demo_h2 13 5, LEndFlushes 14]"
  have run: "snd ?p1 = \<lparr>lo_status = Granted, lo_fence = 1, lo_expires_at = 15\<rparr>" by code_simp
  have ne: "list_all (not_ending ([1], [2]) demo_h1 (lo_expires_at (snd ?p1))) ?cs"
    unfolding run by code_simp
  have "lease_holds Minimal (fst (lease_exec_all Minimal (fst ?p1) ?cs)) [1] [2] demo_h1 (lo_fence (snd ?p1)) 14"
    using lease_not_taken [OF lease_reach_new surjective_pairing _ _ ne surjective_pairing, of 14] run by simp
  then show ?thesis using run by simp
qed

section \<open>Replay\<close>

lemma stale_apply:
  assumes ok: "lease_ok p t" and late: "now \<le> last_stamp p t (r, q)"
  shows "fst (lease_apply p t mode r q h now ttl) = t \<and>
    lo_status (snd (lease_apply p t mode r q h now ttl)) \<in> {Stale, BadRequest}"
proof (cases "lease_find p t r q")
  case None
  then have "now \<le> lt_stamp_floor t"
    using late lease_find_None [OF ok None] by (simp add: last_stamp_def)
  with None show ?thesis
    by (auto simp: lease_apply_def apply_absent_def bare_def Let_def split: option.splits)
next
  case (Some i)
  then have "now \<le> le_stamp (lt_entries t ! i)"
    using late lease_find_Some [OF ok Some] by (simp add: last_stamp_def)
  with Some show ?thesis
    by (auto simp: lease_apply_def bare_def Let_def split: option.splits)
qed

text \<open>C26: replay changes nothing: once a record of a volume has been granted at \<open>now\<close>, then after
  any further records every record of that volume stamped no later than \<open>now\<close>, the granted one
  among them, leaves the table as it is and is answered stale (or malformed).\<close>

theorem lease_replay_stale:
  assumes "lease_reach p n t0"
    and "lease_apply p t0 mode r q h now ttl = (t1, out)" and "lo_status out = Granted"
    and "lease_exec_all p t1 cs = (t2, outs)" and "now' \<le> now"
  shows "fst (lease_apply p t2 mode' r q h' now' ttl') = t2 \<and>
       lo_status (snd (lease_apply p t2 mode' r q h' now' ttl')) \<in> {Stale, BadRequest}"
proof -
  note ok0 = lease_reach_ok [OF assms(1)]
  have ok1: "lease_ok p t1" using lease_apply_grown [OF ok0 assms(2)] by simp
  note g = lease_exec_all_grown [OF ok1 assms(4)]
  have "last_stamp p t1 (r, q) = now"
    using granted_entry [OF ok0 assms(2,3)] by (auto simp: last_stamp_def)
  then have "now \<le> last_stamp p t2 (r, q)" using g grownD(2) by metis
  then have "now' \<le> last_stamp p t2 (r, q)" using assms(5) by (rule order_trans [rotated])
  then show ?thesis using stale_apply g by blast
qed

theorem lease_replay_stale_witness:
  "(let t1 = fst (lease_apply Minimal (lease_new Minimal 1) 1 [1] [2] demo_h1 10 5);
        t2 = fst (lease_exec_all Minimal t1 [LApply 3 [1] [2] demo_h1 12 0, LApply 1 [1] [3] demo_h2 20 5])
    in fst (lease_apply Minimal t2 1 [1] [2] demo_h1 10 5) = t2)"
proof -
  let ?p1 = "lease_apply Minimal (lease_new Minimal 1) 1 [1] [2] demo_h1 10 5"
  let ?p2 = "lease_exec_all Minimal (fst ?p1) [LApply 3 [1] [2] demo_h1 12 0, LApply 1 [1] [3] demo_h2 20 5]"
  have run: "lo_status (snd ?p1) = Granted" by code_simp
  have "fst (lease_apply Minimal (fst ?p2) 1 [1] [2] demo_h1 10 5) = fst ?p2"
    using lease_replay_stale [OF lease_reach_new surjective_pairing run surjective_pairing order_refl] by blast
  then show ?thesis by (simp only: Let_def)
qed

section \<open>Open flushes\<close>

text \<open>After a sweep at \<open>now\<close> every open flush is one whose holder's lease is unexpired, so the
  collector is blocked only by live writers; the sweep ends exactly the lapsed ones and touches
  nothing else of any lease.\<close>

theorem end_expired_flushes_exact:
  assumes "lease_reach p n t" and "now \<noteq> 0" and "end_expired_flushes t now = (t', ended)"
  shows "lease p t' r q =
       map_option (\<lambda>e. if le_flushing e \<noteq> 0 \<and> \<not> held_at e now then e\<lparr>le_flushing := 0\<rparr> else e) (lease p t r q) \<and>
     (any_flushing t' \<longleftrightarrow> (\<exists>r q e. lease p t r q = Some e \<and> le_flushing e \<noteq> 0 \<and> held_at e now))"
proof
  note ok = lease_reach_ok [OF assms(1)]
  note m = end_flushes_map [OF ok assms(3)]
  have used: "le_used e \<noteq> 0" if "lease_map p t k = Some e" for k e
    using lease_map_key [OF ok that] by (auto simp: lease_key_def split: if_splits)
  show eq: "lease p t' r q =
       map_option (\<lambda>e. if le_flushing e \<noteq> 0 \<and> \<not> held_at e now then e\<lparr>le_flushing := 0\<rparr> else e) (lease p t r q)" for r q
    using m(4) [OF assms(2), of "(r, q)"] used [of "(r, q)"]
    by (cases "lease_map p t (r, q)") (auto simp: lease_lease_map flush_lapsed_def)
  have "any_flushing t' \<longleftrightarrow> (\<exists>k e. lease_map p t' k = Some e \<and> le_flushing e \<noteq> 0)"
  proof
    assume "any_flushing t'"
    then obtain i where i: "i < length (lt_entries t')" "le_used (lt_entries t' ! i) \<noteq> 0" "le_flushing (lt_entries t' ! i) \<noteq> 0"
      by (auto simp: any_flushing_def list_ex_length)
    then show "\<exists>k e. lease_map p t' k = Some e \<and> le_flushing e \<noteq> 0"
      using lease_map_at [OF m(1) i(1)] by (auto simp: lease_key_def)
  next
    assume "\<exists>k e. lease_map p t' k = Some e \<and> le_flushing e \<noteq> 0"
    then obtain k e where "lease_map p t' k = Some e" "le_flushing e \<noteq> 0" by blast
    then show "any_flushing t'"
      using m(1) leases.map_Some [of p "lt_entries t'" k e] lease_map_key [OF m(1), of k e]
      by (auto simp: any_flushing_def list_ex_length lease_ok_def lease_map_def lease_key_def split: if_splits)
  qed
  also have "\<dots> \<longleftrightarrow> (\<exists>r q e. lease p t r q = Some e \<and> le_flushing e \<noteq> 0 \<and> held_at e now)"
  proof -
    have "(\<exists>e. lease_map p t' k = Some e \<and> le_flushing e \<noteq> 0) \<longleftrightarrow>
        (\<exists>e. lease_map p t k = Some e \<and> le_flushing e \<noteq> 0 \<and> held_at e now)" for k
      using eq [of "fst k" "snd k"] by (cases "lease_map p t k") (auto simp: lease_lease_map)
    then show ?thesis by (simp only: split_paired_Ex lease_lease_map)
  qed
  finally show "any_flushing t' \<longleftrightarrow> (\<exists>r q e. lease p t r q = Some e \<and> le_flushing e \<noteq> 0 \<and> held_at e now)" .
qed

definition demo_flush :: lease_table where
  "demo_flush = fst (lease_exec_all Minimal (lease_new Minimal 2)
     [LApply 1 [1] [2] demo_h1 10 5, LFlush [1] [2] demo_h1 True])"

lemma lease_reach_all: "lease_reach p n t \<Longrightarrow> lease_reach p n (fst (lease_exec_all p t cs))"
proof (induction cs arbitrary: t)
  case (Cons c cs)
  obtain t1 o1 where 1: "lease_exec p t c = (t1, o1)" by fastforce
  have "lease_reach p n t1" by (rule lease_reach_step [OF Cons.prems 1])
  from Cons.IH [OF this] show ?case using 1 by (cases "lease_exec_all p t1 cs") simp
qed simp

theorem end_expired_flushes_exact_witness:
  "any_flushing demo_flush \<and> \<not> any_flushing (fst (end_expired_flushes demo_flush 15))"
proof -
  have reach: "lease_reach Minimal 2 demo_flush"
    unfolding demo_flush_def by (rule lease_reach_all [OF lease_reach_new])
  have all: "list_all (\<lambda>e. \<not> held_at e 15) (lt_entries demo_flush)" "any_flushing demo_flush" by code_simp+
  have "\<not> held_at e 15" if "lease Minimal demo_flush r q = Some e" for r q e
    using all(1) that by (auto simp: lease_def find_Some_iff list_all_length)
  then show ?thesis
    using end_expired_flushes_exact [OF reach _ surjective_pairing, of 15] all(2) by auto
qed

section \<open>Dump and restore\<close>

text \<open>
  A rotated log opens with one restore record per used entry, in slot order (\<open>seed_lease\<close> of
  \<open>namespace_pic_body.rs\<close>), and replaying it reopens the flush the record marks.
\<close>

fun restore_entries :: "profile \<Rightarrow> u64 \<Rightarrow> u64 \<Rightarrow> lease_table \<Rightarrow> lease_entry list \<Rightarrow> lease_table \<times> bool" where
  "restore_entries p ff sf t [] = (t, True)"
| "restore_entries p ff sf t (e # es) =
     (if le_used e = 0 then restore_entries p ff sf t es
      else
        case lease_restore p t (lease_root e) (lease_path p e) (le_holder e) (le_fence e)
               (le_expires_at e) (le_stamp e) (le_live e \<noteq> 0) ff sf of
          (t1, False) \<Rightarrow> (t1, False)
        | (t1, True) \<Rightarrow>
            restore_entries p ff sf
              (if le_flushing e \<noteq> 0
               then fst (set_flushing p t1 (lease_root e) (lease_path p e) (le_holder e) True) else t1) es)"

definition packed :: "profile \<Rightarrow> nat \<Rightarrow> lease_entry list \<Rightarrow> lease_entry list" where
  "packed p n es = es @ replicate (n - length es) (empty_entry p)"

lemma bit_u8: "(b :: u8) \<le> 1 \<Longrightarrow> b \<noteq> 0 \<Longrightarrow> b = 1"
  by unat_arith

lemma restore_one:
  assumes e: "entry_ok p e" "le_used e \<noteq> 0"
    and dn: "list_all (\<lambda>e. le_used e \<noteq> 0) es" "length es < n"
    and ents: "lt_entries t = packed p n es" and ok: "lease_ok p t"
    and new: "\<forall>e' \<in> set es. lease_key p e' \<noteq> lease_key p e"
  shows "\<exists>t1. lease_restore p t (lease_root e) (lease_path p e) (le_holder e) (le_fence e)
               (le_expires_at e) (le_stamp e) (le_live e \<noteq> 0) ff sf = (t1, True) \<and>
     lt_entries (if le_flushing e \<noteq> 0
               then fst (set_flushing p t1 (lease_root e) (lease_path p e) (le_holder e) True) else t1)
       = packed p n (es @ [e]) \<and>
     lt_fence_floor t1 = max (lt_fence_floor t) ff \<and> lt_stamp_floor t1 = max (lt_stamp_floor t) sf"
proof -
  let ?k = "(lease_root e, lease_path p e)"
  let ?n = "new_entry p (lease_root e) (lease_path p e) (le_holder e) (le_fence e) (le_expires_at e)
              (le_stamp e) (if le_live e \<noteq> 0 then 1 else 0)"
  have fits: "key_fits p (lease_root e) (lease_path p e) []" "lease_path p e \<noteq> []" "le_live e \<le> 1" "le_flushing e \<le> 1"
    and ee: "e = (new_entry p (lease_root e) (lease_path p e) (le_holder e) (le_fence e) (le_expires_at e)
              (le_stamp e) (le_live e))\<lparr>le_flushing := le_flushing e\<rparr>"
    using e unfolding entry_ok_def by blast+
  have live: "(if le_live e \<noteq> 0 then 1 else 0) = le_live e" using bit_u8 [OF fits(3)] by auto
  have ee': "e = ?n\<lparr>le_flushing := le_flushing e\<rparr>" using ee by (simp only: live)
  have key: "lease_key p e = Some ?k" using e(2) by (simp add: lease_key_def)
  have nth: "lt_entries t ! i = (if i < length es then es ! i else empty_entry p)" if "i < n" for i
    using that dn(2) by (simp add: ents packed_def nth_append)
  have len: "length (lt_entries t) = n" using dn(2) by (simp add: ents packed_def)
  have "\<forall>i < length (lt_entries t). lease_key p (lt_entries t ! i) \<noteq> Some ?k"
    using nth len new key by simp
  then have none: "lease_find p t (lease_root e) (lease_path p e) = None"
    using leases.scan_None [of p "lt_entries t" ?k] ok by (simp add: lease_find_def lease_ok_def lease_hits_names)
  have free: "first_index (\<lambda>e. le_used e = 0) (lt_entries t) = Some (length es)"
    using dn nth len by (simp add: first_index_Some list_all_length)
  let ?t1 = "set_entry (raise_floors ff sf t) (length es) ?n"
  have run: "lease_restore p t (lease_root e) (lease_path p e) (le_holder e) (le_fence e)
               (le_expires_at e) (le_stamp e) (le_live e \<noteq> 0) ff sf = (?t1, True)"
    using fits none free by (simp add: lease_restore_def)
  have upd: "(packed p n es)[length es := x] = packed p n (es @ [x])" for x
  proof -
    obtain m where "n - length es = Suc m" "n - Suc (length es) = m" using dn(2) by (metis Suc_diff_Suc)
    then show ?thesis by (simp add: packed_def list_update_append)
  qed
  have upd2: "(packed p n (es @ [y]))[length es := x] = packed p n (es @ [x])" for x y
    by (simp add: packed_def list_update_append)
  have ents1: "lt_entries ?t1 = packed p n (es @ [?n])"
    by (simp add: set_entry_def ents upd)
  have nok: "entry_ok p ?n" "lease_key p ?n = Some ?k"
    using new_entry_ok [OF fits(1,2), of "if le_live e \<noteq> 0 then 1 else 0"] by simp_all
  have ok1: "lease_ok p ?t1"
    using set_entry_put(1) [of p "raise_floors ff sf t" "length es" ?n ?k] ok nok dn(2) len nth
      lease_find_None [OF ok none] by simp
  have ents2: "lt_entries (if le_flushing e \<noteq> 0
               then fst (set_flushing p ?t1 (lease_root e) (lease_path p e) (le_holder e) True) else ?t1)
       = packed p n (es @ [e])"
  proof (cases "le_flushing e = 0")
    case True

    have "?n\<lparr>le_flushing := 0\<rparr> = ?n" by (simp add: new_entry_def empty_entry_def)
    then have "e = ?n" using True ee' by metis
    then show ?thesis using True ents1 by simp
  next
    case False
    have at: "length es < length (lt_entries ?t1)" "lt_entries ?t1 ! length es = ?n"
      using dn(2) len by (simp_all add: set_entry_def)
    have "lease_find p ?t1 (lease_root e) (lease_path p e) = Some (length es)"
      using leases.scan_Some [of p "lt_entries ?t1" ?k "length es"] ok1 at nok(2)
      by (simp add: lease_find_def lease_ok_def lease_hits_names)
    then have "fst (set_flushing p ?t1 (lease_root e) (lease_path p e) (le_holder e) True) =
        set_entry ?t1 (length es) (?n\<lparr>le_flushing := 1\<rparr>)"
      using at by (simp add: set_flushing_def Let_def)
    moreover have "?n\<lparr>le_flushing := 1\<rparr> = e" using ee' bit_u8 [OF fits(4) False] by simp
    ultimately have "fst (set_flushing p ?t1 (lease_root e) (lease_path p e) (le_holder e) True) =
        set_entry ?t1 (length es) e" by (simp only:)
    moreover have "lt_entries (set_entry ?t1 (length es) e) = packed p n (es @ [e])"
      by (simp add: set_entry_def ents upd upd2)
    ultimately show ?thesis using False by (simp only: if_True simp_thms if_False)
  qed
  show ?thesis
    by (rule exI [of _ ?t1]) (use run ents2 in simp)
qed

lemma packed_ok:
  assumes "list_all (entry_ok p) es" "distinct (map (lease_key p) es)"
  shows "arena_ok (entry_ok p) (lease_key p) (packed p n es)"
  using assms
  by (auto simp: arena_ok_def packed_def list_all_iff nth_append distinct_conv_nth split: if_splits)

lemma restore_entries_packed:
  assumes "list_all (entry_ok p) es" "list_all (\<lambda>e. le_used e \<noteq> 0) fs"
    and "lt_entries t = packed p n fs" and "list_all (entry_ok p) fs"
    and "length fs + length (filter (\<lambda>e. le_used e \<noteq> 0) es) \<le> n"
    and "distinct (map (lease_key p) (fs @ filter (\<lambda>e. le_used e \<noteq> 0) es))"
  shows "\<exists>t'. restore_entries p ff sf t es = (t', True) \<and>
     lt_entries t' = packed p n (fs @ filter (\<lambda>e. le_used e \<noteq> 0) es) \<and>
     ((\<exists>e \<in> set es. le_used e \<noteq> 0) \<longrightarrow>
        lt_fence_floor t' = max (lt_fence_floor t) ff \<and> lt_stamp_floor t' = max (lt_stamp_floor t) sf) \<and>
     ((\<forall>e \<in> set es. le_used e = 0) \<longrightarrow> t' = t)"
  using assms
proof (induction es arbitrary: fs t)
  case (Cons e es)
  show ?case
  proof (cases "le_used e = 0")
    case True
    then show ?thesis using Cons.IH [of fs t] Cons.prems by simp
  next
    case False
    have "lease_key p e \<notin> lease_key p ` set fs" using Cons.prems(6) False by simp
    then have "\<forall>e' \<in> set fs. lease_key p e' \<noteq> lease_key p e" by (metis imageI)
    moreover have "lease_ok p t"
      unfolding lease_ok_def Cons.prems(3) using Cons.prems(4,6) by (intro packed_ok) simp_all
    ultimately obtain t1 where t1: "lease_restore p t (lease_root e) (lease_path p e) (le_holder e) (le_fence e)
               (le_expires_at e) (le_stamp e) (le_live e \<noteq> 0) ff sf = (t1, True)"
      "lt_entries (if le_flushing e \<noteq> 0
               then fst (set_flushing p t1 (lease_root e) (lease_path p e) (le_holder e) True) else t1)
         = packed p n (fs @ [e])"
      "lt_fence_floor t1 = max (lt_fence_floor t) ff" "lt_stamp_floor t1 = max (lt_stamp_floor t) sf"
      using restore_one [of p e fs n t ff sf] Cons.prems False by auto
    define t2 where "t2 = (if le_flushing e \<noteq> 0
               then fst (set_flushing p t1 (lease_root e) (lease_path p e) (le_holder e) True) else t1)"
    have ents2: "lt_entries t2 = packed p n (fs @ [e])" using t1(2) by (simp add: t2_def)
    have fl2: "lt_fence_floor t2 = max (lt_fence_floor t) ff" "lt_stamp_floor t2 = max (lt_stamp_floor t) sf"
      using t1(3,4) by (simp_all add: t2_def set_flushing_def Let_def split: option.split)
    have run: "restore_entries p ff sf t (e # es) = restore_entries p ff sf t2 es"
      using False t1(1) by (simp add: t2_def)
    from Cons.IH [of "fs @ [e]" t2] Cons.prems False ents2 obtain t' where
      t': "restore_entries p ff sf t2 es = (t', True)"
      "lt_entries t' = packed p n ((fs @ [e]) @ filter (\<lambda>e. le_used e \<noteq> 0) es)"
      "(\<exists>e \<in> set es. le_used e \<noteq> 0) \<longrightarrow>
        lt_fence_floor t' = max (lt_fence_floor t2) ff \<and> lt_stamp_floor t' = max (lt_stamp_floor t2) sf"
      "(\<forall>e \<in> set es. le_used e = 0) \<longrightarrow> t' = t2"
      by auto
    have "lt_fence_floor t' = max (lt_fence_floor t) ff" "lt_stamp_floor t' = max (lt_stamp_floor t) sf"
      using t'(3,4) fl2 by (cases "\<exists>e \<in> set es. le_used e \<noteq> 0"; auto)+
    then show ?thesis using run t'(1,2) False by auto
  qed
qed simp

lemma find_packed:
  "List.find (lease_names p r q) (packed p n (filter (\<lambda>e. le_used e \<noteq> 0) es)) = List.find (lease_names p r q) es"
proof -
  have app: "List.find P (xs @ ys) = (case List.find P xs of None \<Rightarrow> List.find P ys | Some x \<Rightarrow> Some x)"
    for P :: "lease_entry \<Rightarrow> bool" and xs ys by (induction xs) simp_all
  have rep: "List.find (lease_names p r q) (replicate m (empty_entry p)) = None" for m
    by (simp add: find_None_iff lease_names_def)
  have "List.find (lease_names p r q) (filter (\<lambda>e. le_used e \<noteq> 0) es) = List.find (lease_names p r q) es"
    by (induction es) (auto simp: lease_names_def)
  then show ?thesis by (simp add: packed_def app rep split: option.split)
qed

lemma lease_apply_len: "length (lt_entries (fst (lease_apply p t mode r q h now ttl))) = length (lt_entries t)"
proof -
  have claim: "length (lt_entries (fst (claim_slot p t now))) = length (lt_entries t)"
    by (simp add: claim_slot_def Let_def split: option.split)
  have "length (lt_entries (fst (apply_absent p t op r q h now x))) = length (lt_entries t)" for op x
    using claim by (cases "claim_slot p t now") (auto simp: apply_absent_def split: option.split)
  then show ?thesis by (simp add: lease_apply_def Let_def split: option.split prod.split)
qed

lemma lease_exec_len: "lease_exec p t c = (t', out) \<Longrightarrow> length (lt_entries t') = length (lt_entries t)"
  using lease_apply_len
  by (cases c) (auto simp: lease_touch_def set_flushing_def end_expired_flushes_def Let_def split: option.splits prod.splits if_splits,
      metis fst_conv)

lemma lease_reach_len: "lease_reach p n t \<Longrightarrow> length (lt_entries t) = n"
proof (induction rule: lease_reach.induct)
  case lease_reach_new
  show ?case by (simp add: lease_new_def)
next
  case (lease_reach_step t c t' out)
  then show ?case using lease_exec_len by metis
qed

lemma restored_leases:
  assumes "lease_ok p t"
  shows "\<exists>t'. restore_entries p (lt_fence_floor t) (lt_stamp_floor t) (lease_new p (length (lt_entries t))) (lt_entries t) = (t', True) \<and>
     (\<forall>r q. lease p t' r q = lease p t r q) \<and>
     ((\<exists>e\<in>set (lt_entries t). le_used e \<noteq> 0) \<longrightarrow> lt_fence_floor t' = lt_fence_floor t \<and> lt_stamp_floor t' = lt_stamp_floor t)"
proof -
  let ?n = "length (lt_entries t)" and ?u = "filter (\<lambda>e. le_used e \<noteq> 0) (lt_entries t)"
  have good: "list_all (entry_ok p) (lt_entries t)" using assms by (simp add: lease_ok_def arena_ok_def list_all_iff)
  have dist: "distinct (map (lease_key p) ?u)"
    using arena_ok_distinct [OF assms [unfolded lease_ok_def], of "\<lambda>e. le_used e \<noteq> 0"] by (simp add: lease_key_def)
  obtain t' where t': "restore_entries p (lt_fence_floor t) (lt_stamp_floor t) (lease_new p ?n) (lt_entries t) = (t', True)"
    "lt_entries t' = packed p ?n ?u" "(\<exists>e\<in>set (lt_entries t). le_used e \<noteq> 0) \<longrightarrow> lt_fence_floor t' = lt_fence_floor t \<and> lt_stamp_floor t' = lt_stamp_floor t"
    using restore_entries_packed [OF good, of "[]" "lease_new p ?n" ?n "lt_fence_floor t" "lt_stamp_floor t"] dist
    by (auto simp: lease_new_def packed_def)
  then show ?thesis by (auto simp: lease_def find_packed)
qed

text \<open>C27: a lease table survives a log rotation: replaying one restore record per used entry into
  an empty table of the same capacity never fails and gives back every volume's lease exactly,
  open flushes included, and the two floors, so fences go on from where they were.\<close>

theorem lease_restore_roundtrip:
  assumes "lease_reach p n t" and "\<exists>e \<in> set (lt_entries t). le_used e \<noteq> 0"
  shows "\<exists>t'. restore_entries p (lt_fence_floor t) (lt_stamp_floor t) (lease_new p n) (lt_entries t) = (t', True) \<and>
       (\<forall>r q. lease p t' r q = lease p t r q) \<and>
       lt_fence_floor t' = lt_fence_floor t \<and> lt_stamp_floor t' = lt_stamp_floor t"
  using restored_leases [OF lease_reach_ok [OF assms(1)]] assms(2) lease_reach_len [OF assms(1)] by blast

theorem lease_restore_roundtrip_witness:
  "snd (restore_entries Minimal 0 0 (lease_new Minimal 2) (lt_entries demo_flush)) \<and>
   lease_holds Minimal (fst (restore_entries Minimal 0 0 (lease_new Minimal 2) (lt_entries demo_flush))) [1] [2] demo_h1 1 14"
proof -
  have reach: "lease_reach Minimal 2 demo_flush"
    unfolding demo_flush_def by (rule lease_reach_all [OF lease_reach_new])
  have f: "lt_fence_floor demo_flush = 0" "lt_stamp_floor demo_flush = 0" "length (lt_entries demo_flush) = 2"
    "list_ex (\<lambda>e. le_used e \<noteq> 0) (lt_entries demo_flush)" "lease_holds Minimal demo_flush [1] [2] demo_h1 1 14"
    by code_simp+
  from lease_restore_roundtrip [OF reach] f show ?thesis
    by (auto simp: list_ex_iff lease_holds_def)
qed

end
