(* ===== verification/Object_State.thy ===== *)
theory Object_State
  imports Loam_Hash Loam_Limits Slot_Arena
begin

text \<open>
  \<open>modules/common/mechanics/object_pic_state.rs\<close>: the object descriptor table with its per-root
  usage and quota. The slots are an arena keyed by the object id; the usage of a root is
  adjusted by the mutations themselves.
\<close>

unbundle bit_operations_syntax

section \<open>Data\<close>

definition DIGEST_LEN :: nat where "DIGEST_LEN = 32"
definition ID_PREFIX :: bytes where "ID_PREFIX = [115, 104, 97, 50, 53, 54, 58]"
definition DERIVED_ID_LEN :: nat where "DERIVED_ID_LEN = 7 + 64"

fun digest_bytes :: "bytes \<Rightarrow> nat list \<Rightarrow> bytes option" where
  \<comment> \<open>the loop over the output bytes; \<open>?\<close> leaves with \<open>None\<close>\<close>
  "digest_bytes object_id [] = Some []"
| "digest_bytes object_id (i # is) =
     (case hex_val (object_id ! (7 + 2 * i)) of
        None \<Rightarrow> None
      | Some hi \<Rightarrow>
          (case hex_val (object_id ! (8 + 2 * i)) of
             None \<Rightarrow> None
           | Some lo \<Rightarrow> map_option (Cons (push_bit 4 hi OR lo)) (digest_bytes object_id is)))"

definition derived_digest :: "bytes \<Rightarrow> bytes option" where
  "derived_digest object_id =
     (if length object_id \<noteq> DERIVED_ID_LEN \<or> take 7 object_id \<noteq> ID_PREFIX then None
      else digest_bytes object_id [0..<DIGEST_LEN])"

record object_slot =
  os_object_id_hash :: u64
  os_namespace_hash :: u64
  os_size_bytes :: u64
  os_revision :: u64
  os_content_digest :: bytes
  os_id_derived :: bool
  os_data_class :: u8
  os_replica_count :: u8
  os_erasure :: "(u8 \<times> u8) option"
  os_occupied :: bool
  os_object_id_bytes :: bytes
  os_object_id_len :: u8

definition empty_object :: object_slot where
  "empty_object =
     \<lparr>os_object_id_hash = 0, os_namespace_hash = 0, os_size_bytes = 0, os_revision = 0,
      os_content_digest = replicate DIGEST_LEN 0, os_id_derived = False, os_data_class = 0,
      os_replica_count = 0, os_erasure = None, os_occupied = False,
      os_object_id_bytes = replicate MAX_OBJECT_ID 0, os_object_id_len = 0\<rparr>"

definition os_object_id :: "object_slot \<Rightarrow> bytes" where
  "os_object_id s = take (unat (os_object_id_len s)) (os_object_id_bytes s)"

definition os_matches :: "u64 \<Rightarrow> bytes \<Rightarrow> object_slot \<Rightarrow> bool" where
  "os_matches object_id_hash object_id s \<longleftrightarrow>
     os_occupied s \<and> os_object_id_hash s = object_id_hash \<and> os_object_id s = object_id"

datatype obj_error = ObjIdTooLong | QuotaExceeded | ObjAlreadyPresent | ObjNotPresent | ObjOutOfCapacity

datatype obj_ok = Put | Updated | Removed

record root_usage =
  ru_namespace_hash :: u64
  ru_objects :: u64
  ru_bytes :: u64
  ru_max_objects :: u64
  ru_max_bytes :: u64
  ru_in_use :: bool

definition empty_usage :: root_usage where
  "empty_usage = \<lparr>ru_namespace_hash = 0, ru_objects = 0, ru_bytes = 0, ru_max_objects = 0,
     ru_max_bytes = 0, ru_in_use = False\<rparr>"

definition would_exceed :: "root_usage \<Rightarrow> u64 \<Rightarrow> bool" where
  "would_exceed u add_bytes \<longleftrightarrow>
     (ru_max_objects u \<noteq> 0 \<and> ru_max_objects u < sat_add (ru_objects u) 1) \<or>
     (ru_max_bytes u \<noteq> 0 \<and> ru_max_bytes u < sat_add (ru_bytes u) add_bytes)"

definition MAX_QUOTA_ROOTS :: nat where "MAX_QUOTA_ROOTS = 32"

record obj_state =
  ob_slots :: "object_slot list"
  ob_roots :: "root_usage list"

definition obj_new :: "nat \<Rightarrow> obj_state" where
  "obj_new n = \<lparr>ob_slots = replicate n empty_object, ob_roots = replicate MAX_QUOTA_ROOTS empty_usage\<rparr>"

section \<open>Roots\<close>

definition root_is :: "u64 \<Rightarrow> root_usage \<Rightarrow> bool" where
  "root_is h r \<longleftrightarrow> ru_in_use r \<and> ru_namespace_hash r = h"

definition obj_usage :: "obj_state \<Rightarrow> bytes \<Rightarrow> root_usage option" where
  "obj_usage st namespace = List.find (root_is (fnv1a64 namespace)) (ob_roots st)"

definition root_slot :: "root_usage list \<Rightarrow> u64 \<Rightarrow> root_usage list \<times> nat option" where
  "root_slot roots h =
     (case first_index (root_is h) roots of
        Some i \<Rightarrow> (roots, Some i)
      | None \<Rightarrow>
          (case first_index (\<lambda>r. \<not> ru_in_use r) roots of
             Some i \<Rightarrow> (roots[i := empty_usage\<lparr>ru_namespace_hash := h, ru_in_use := True\<rparr>], Some i)
           | None \<Rightarrow> (roots, None)))"

definition credit :: "u64 \<Rightarrow> u64 \<Rightarrow> root_usage list \<Rightarrow> root_usage list" where
  "credit h bytes roots =
     (case root_slot roots h of
        (roots1, Some i) \<Rightarrow>
          roots1[i := (roots1 ! i)\<lparr>ru_objects := sat_add (ru_objects (roots1 ! i)) 1,
                                    ru_bytes := sat_add (ru_bytes (roots1 ! i)) bytes\<rparr>]
      | (roots1, None) \<Rightarrow> roots1)"

definition debit :: "u64 \<Rightarrow> u64 \<Rightarrow> root_usage list \<Rightarrow> root_usage list" where
  "debit h bytes roots =
     (case first_index (root_is h) roots of
        Some i \<Rightarrow>
          roots[i := (roots ! i)\<lparr>ru_objects := sat_sub (ru_objects (roots ! i)) 1,
                                  ru_bytes := sat_sub (ru_bytes (roots ! i)) bytes\<rparr>]
      | None \<Rightarrow> roots)"

definition set_quota :: "obj_state \<Rightarrow> bytes \<Rightarrow> u64 \<Rightarrow> u64 \<Rightarrow> obj_state \<times> (obj_error + unit)" where
  "set_quota st namespace max_objects max_bytes =
     (case root_slot (ob_roots st) (fnv1a64 namespace) of
        (roots, None) \<Rightarrow> (st\<lparr>ob_roots := roots\<rparr>, Inl ObjOutOfCapacity)
      | (roots, Some i) \<Rightarrow>
          (st\<lparr>ob_roots := roots[i := (roots ! i)\<lparr>ru_max_objects := max_objects, ru_max_bytes := max_bytes\<rparr>]\<rparr>,
           Inr ()))"

section \<open>Objects\<close>

definition obj_len :: "obj_state \<Rightarrow> nat" where
  "obj_len st = length (filter os_occupied (ob_slots st))"

definition obj_lookup_hashed :: "obj_state \<Rightarrow> u64 \<Rightarrow> bytes \<Rightarrow> object_slot option" where
  "obj_lookup_hashed st object_id_hash object_id = List.find (os_matches object_id_hash object_id) (ob_slots st)"

definition obj_lookup :: "obj_state \<Rightarrow> bytes \<Rightarrow> object_slot option" where
  "obj_lookup st object_id = obj_lookup_hashed st (fnv1a64 object_id) object_id"

definition new_object ::
  "bytes \<Rightarrow> bytes \<Rightarrow> u64 \<Rightarrow> u64 \<Rightarrow> u8 \<Rightarrow> u8 \<Rightarrow> (u8 \<times> u8) option \<Rightarrow> object_slot" where
  "new_object object_id namespace size_bytes revision data_class replica_count erasure =
     \<lparr>os_object_id_hash = fnv1a64 object_id, os_namespace_hash = fnv1a64 namespace,
      os_size_bytes = size_bytes, os_revision = revision,
      os_content_digest =
        (case derived_digest object_id of Some d \<Rightarrow> d | None \<Rightarrow> replicate DIGEST_LEN 0),
      os_id_derived = (derived_digest object_id \<noteq> None),
      os_data_class = data_class, os_replica_count = replica_count, os_erasure = erasure,
      os_occupied = True,
      os_object_id_bytes = copy_prefix object_id (replicate MAX_OBJECT_ID 0),
      os_object_id_len = word_of_nat (length object_id)\<rparr>"

definition put_new ::
  "obj_state \<Rightarrow> bytes \<Rightarrow> bytes \<Rightarrow> u64 \<Rightarrow> u64 \<Rightarrow> u8 \<Rightarrow> u8 \<Rightarrow> (u8 \<times> u8) option \<Rightarrow> obj_state \<times> (obj_error + obj_ok)"
where
  "put_new st object_id namespace size_bytes revision data_class replica_count erasure =
     (if MAX_OBJECT_ID < length object_id then (st, Inl ObjIdTooLong)
      else
        let id_h = fnv1a64 object_id in
        case obj_lookup_hashed st id_h object_id of
          Some existing \<Rightarrow>
            (if os_size_bytes existing = size_bytes then (st, Inr Put) else (st, Inl ObjAlreadyPresent))
        | None \<Rightarrow>
            (let ns_h = fnv1a64 namespace in
             if (case List.find (root_is ns_h) (ob_roots st) of
                   Some u \<Rightarrow> would_exceed u size_bytes | None \<Rightarrow> False) then (st, Inl QuotaExceeded)
             else
               case first_index (\<lambda>s. \<not> os_occupied s) (ob_slots st) of
                 Some i \<Rightarrow>
                   (\<lparr>ob_slots = (ob_slots st)
                       [i := new_object object_id namespace size_bytes revision data_class replica_count erasure],
                     ob_roots = credit ns_h size_bytes (ob_roots st)\<rparr>, Inr Put)
               | None \<Rightarrow> (st, Inl ObjOutOfCapacity)))"

definition obj_update ::
  "obj_state \<Rightarrow> bytes \<Rightarrow> bytes \<Rightarrow> u64 \<Rightarrow> u64 \<Rightarrow> u8 \<Rightarrow> u8 \<Rightarrow> (u8 \<times> u8) option \<Rightarrow> obj_state \<times> (obj_error + obj_ok)"
where
  "obj_update st object_id namespace size_bytes revision data_class replica_count erasure =
     (let id_h = fnv1a64 object_id; ns_h = fnv1a64 namespace in
      case first_index (os_matches id_h object_id) (ob_slots st) of
        Some i \<Rightarrow>
          (let s = ob_slots st ! i in
           (\<lparr>ob_slots = (ob_slots st)
               [i := s\<lparr>os_namespace_hash := ns_h, os_size_bytes := size_bytes, os_revision := revision,
                       os_data_class := data_class, os_replica_count := replica_count,
                       os_erasure := erasure\<rparr>],
             ob_roots = credit ns_h size_bytes
                          (debit (os_namespace_hash s) (os_size_bytes s) (ob_roots st))\<rparr>, Inr Updated))
      | None \<Rightarrow> (st, Inl ObjNotPresent))"

definition obj_remove :: "obj_state \<Rightarrow> bytes \<Rightarrow> obj_state \<times> (obj_error + obj_ok)" where
  "obj_remove st object_id =
     (case first_index (os_matches (fnv1a64 object_id) object_id) (ob_slots st) of
        Some i \<Rightarrow>
          (let s = ob_slots st ! i in
           (\<lparr>ob_slots = (ob_slots st)[i := empty_object],
             ob_roots = debit (os_namespace_hash s) (os_size_bytes s) (ob_roots st)\<rparr>, Inr Removed))
      | None \<Rightarrow> (st, Inl ObjNotPresent))"

definition obj_scan :: "obj_state \<Rightarrow> u32 \<Rightarrow> nat \<Rightarrow> u32 \<times> bytes list" where
  \<comment> \<open>\<open>out.len()\<close> is the page size; the digests written are answered as a list\<close>
  "obj_scan st cursor mx =
     page_answer (ob_slots st)
       (page_loop (\<lambda>s. os_occupied s \<and> os_id_derived s) os_content_digest (ob_slots st) (unat cursor) mx 0 [])"

definition total_size_bytes :: "obj_state \<Rightarrow> u64" where
  "total_size_bytes st =
     fold (\<lambda>s total. if os_occupied s then sat_add total (os_size_bytes s) else total) (ob_slots st) 0"

definition count_in_namespace :: "obj_state \<Rightarrow> bytes \<Rightarrow> nat" where
  "count_in_namespace st namespace =
     length (filter (\<lambda>s. os_occupied s \<and> os_namespace_hash s = fnv1a64 namespace) (ob_slots st))"

section \<open>The table as a map\<close>

definition object_key :: "object_slot \<Rightarrow> bytes option" where
  "object_key s = (if os_occupied s then Some (os_object_id s) else None)"

definition object_ok :: "object_slot \<Rightarrow> bool" where
  "object_ok s \<longleftrightarrow>
     length (os_object_id_bytes s) = MAX_OBJECT_ID \<and> unat (os_object_id_len s) \<le> MAX_OBJECT_ID \<and>
     (os_occupied s \<longrightarrow> os_object_id_hash s = fnv1a64 (os_object_id s) \<and>
        os_id_derived s = (derived_digest (os_object_id s) \<noteq> None) \<and>
        (\<forall>d. derived_digest (os_object_id s) = Some d \<longrightarrow> os_content_digest s = d))"

definition object_hits :: "bytes \<Rightarrow> object_slot \<Rightarrow> bool" where
  "object_hits k = os_matches (fnv1a64 k) k"

lemma object_hits_key: "object_ok s \<Longrightarrow> object_hits k s \<longleftrightarrow> object_key s = Some k"
  by (auto simp: object_hits_def os_matches_def object_key_def object_ok_def)

interpretation objects: slot_arena object_key object_hits object_ok
  by unfold_locales (rule object_hits_key)

definition obj_ok_state :: "obj_state \<Rightarrow> bool" where
  "obj_ok_state st \<longleftrightarrow> arena_ok object_ok object_key (ob_slots st)"

definition obj_map :: "obj_state \<Rightarrow> bytes \<Rightarrow> object_slot option" where
  "obj_map st = arena_map object_hits (ob_slots st)"

lemma obj_lookup_map [simp]: "obj_lookup st k = obj_map st k" "obj_lookup_hashed st (fnv1a64 k) k = obj_map st k"
  by (simp_all add: obj_lookup_def obj_lookup_hashed_def obj_map_def arena_map_def object_hits_def)

lemma obj_scan_Some:
  "obj_ok_state st \<Longrightarrow> first_index (os_matches (fnv1a64 k) k) (ob_slots st) = Some i \<Longrightarrow>
   i < length (ob_slots st) \<and> object_key (ob_slots st ! i) = Some k \<and> obj_map st k = Some (ob_slots st ! i)"
  using objects.scan_Some [of "ob_slots st" k i] objects.map_at [of "ob_slots st" i k]
  by (simp add: obj_ok_state_def obj_map_def object_hits_def)

lemma obj_scan_None:
  "obj_ok_state st \<Longrightarrow> first_index (os_matches (fnv1a64 k) k) (ob_slots st) = None \<Longrightarrow> obj_map st k = None"
  using objects.scan_None [of "ob_slots st" k] objects.map_None [of "ob_slots st" k]
  by (simp add: obj_ok_state_def obj_map_def object_hits_def)

lemma new_object_ok:
  assumes "length k \<le> MAX_OBJECT_ID"
  shows "object_ok (new_object k ns sz rv dc rc er)" "object_key (new_object k ns sz rv dc rc er) = Some k"
proof -
  have "unat (word_of_nat (length k) :: u8) = length k"
    using assms by (simp add: unat_of_nat_small MAX_OBJECT_ID_def)
  then show "object_ok (new_object k ns sz rv dc rc er)" "object_key (new_object k ns sz rv dc rc er) = Some k"
    using assms by (auto simp: new_object_def object_ok_def object_key_def os_object_id_def)
qed

lemma empty_object_ok [simp]: "object_ok empty_object" "object_key empty_object = None" "\<not> os_occupied empty_object"
  by (simp_all add: empty_object_def object_ok_def object_key_def)

lemma free_object_key:
  "first_index (\<lambda>s. \<not> os_occupied s) (ob_slots st) = Some i \<Longrightarrow>
   i < length (ob_slots st) \<and> object_key (ob_slots st ! i) = None"
  by (auto dest!: first_index_SomeD simp: object_key_def)

text \<open>The one way the slots change: one slot rewritten. \<open>obj_put\<close> and \<open>obj_del\<close> say what it does to the map.\<close>

lemma obj_put:
  assumes "obj_ok_state st" "i < length (ob_slots st)" "object_ok s" "object_key s = Some k"
    and "object_key (ob_slots st ! i) = Some k \<or> object_key (ob_slots st ! i) = None \<and> obj_map st k = None"
    and "ob_slots st' = (ob_slots st)[i := s]"
  shows "obj_ok_state st'" "obj_map st' = (obj_map st)(k \<mapsto> s)"
proof -
  have "object_key (ob_slots st ! i) = Some k \<or>
      object_key (ob_slots st ! i) = None \<and> (\<forall>j < length (ob_slots st). object_key (ob_slots st ! j) \<noteq> Some k)"
    using assms(1,5) objects.map_None [of "ob_slots st" k] by (auto simp: obj_ok_state_def obj_map_def)
  then show "obj_ok_state st'" "obj_map st' = (obj_map st)(k \<mapsto> s)"
    using objects.put_ok [of "ob_slots st" i s k] objects.put_map [of "ob_slots st" i s k] assms
    by (auto simp: obj_ok_state_def obj_map_def)
qed

lemma obj_del:
  assumes "obj_ok_state st" "i < length (ob_slots st)" "object_key (ob_slots st ! i) = Some k"
    and "ob_slots st' = (ob_slots st)[i := empty_object]"
  shows "obj_ok_state st'" "obj_map st' = (obj_map st)(k := None)"
  using objects.del_ok [of "ob_slots st" empty_object i] objects.del_map [of "ob_slots st" i empty_object k] assms
  by (simp_all add: obj_ok_state_def obj_map_def)

end
