(* ===== verification/Object_Props.thy ===== *)
theory Object_Props
  imports Object_State
begin

text \<open>
  The properties of the object table: the refinement of each operation to a map of ids, the
  exactness of the per-root usage over any run whose sizes fit 64 bits, the quota it enforces,
  and the descriptor scan. The root table is an arena too, keyed by the root's hash.
\<close>

section \<open>The root table as a map\<close>

definition root_key :: "root_usage \<Rightarrow> u64 option" where
  "root_key r = (if ru_in_use r then Some (ru_namespace_hash r) else None)"

lemma root_is_key: "root_is h r \<longleftrightarrow> root_key r = Some h"
  by (auto simp: root_is_def root_key_def)

interpretation roots: slot_arena root_key root_is "\<lambda>_. True"
  by unfold_locales (rule root_is_key)

definition roots_ok :: "root_usage list \<Rightarrow> bool" where
  "roots_ok rs \<longleftrightarrow> arena_ok (\<lambda>_. True) root_key rs"

definition root_map :: "root_usage list \<Rightarrow> u64 \<Rightarrow> root_usage option" where
  "root_map rs = arena_map root_is rs"

definition roots_full :: "root_usage list \<Rightarrow> bool" where
  "roots_full rs \<longleftrightarrow> list_all ru_in_use rs"

lemma find_root_map [simp]: "List.find (root_is h) rs = root_map rs h"
  by (simp add: root_map_def arena_map_def)

lemma root_scan_Some:
  "roots_ok rs \<Longrightarrow> first_index (root_is h) rs = Some i \<Longrightarrow>
   i < length rs \<and> root_key (rs ! i) = Some h \<and> root_map rs h = Some (rs ! i)"
  using roots.scan_Some [of rs h i] roots.map_at [of rs i h] by (simp add: roots_ok_def root_map_def)

lemma root_scan_None: "roots_ok rs \<Longrightarrow> first_index (root_is h) rs = None \<Longrightarrow> root_map rs h = None"
  using roots.scan_None [of rs h] roots.map_None [of rs h] by (simp add: roots_ok_def root_map_def)

lemma root_map_key: "roots_ok rs \<Longrightarrow> root_map rs h = Some u \<Longrightarrow> root_key u = Some h"
  using roots.map_key [of rs h u] by (simp add: roots_ok_def root_map_def)

lemma root_put:
  assumes "roots_ok rs" "i < length rs" "root_key r = Some h"
    and "root_key (rs ! i) = Some h \<or> root_key (rs ! i) = None \<and> root_map rs h = None"
  shows "roots_ok (rs[i := r])" "root_map (rs[i := r]) = (root_map rs)(h \<mapsto> r)"
proof -
  have "root_key (rs ! i) = Some h \<or> root_key (rs ! i) = None \<and> (\<forall>j < length rs. root_key (rs ! j) \<noteq> Some h)"
    using assms(1,4) roots.map_None [of rs h] by (auto simp: roots_ok_def root_map_def)
  then show "roots_ok (rs[i := r])" "root_map (rs[i := r]) = (root_map rs)(h \<mapsto> r)"
    using roots.put_ok [of rs i r h] roots.put_map [of rs i r h] assms
    by (auto simp: roots_ok_def root_map_def)
qed

lemma roots_full_put: "roots_full rs \<Longrightarrow> ru_in_use r \<Longrightarrow> roots_full (rs[i := r])"
  using set_update_subset_insert [of rs i r] by (auto simp: roots_full_def list_all_iff)

definition claimed_root :: "u64 \<Rightarrow> root_usage" where
  "claimed_root h = empty_usage\<lparr>ru_namespace_hash := h, ru_in_use := True\<rparr>"

lemma claimed_root_simps [simp]:
  "root_key (claimed_root h) = Some h" "ru_objects (claimed_root h) = 0" "ru_bytes (claimed_root h) = 0"
  "ru_in_use (claimed_root h)"
  by (simp_all add: claimed_root_def root_key_def empty_usage_def)

lemma root_slot_map:
  assumes ok: "roots_ok rs" and run: "root_slot rs h = (rs', res)"
  shows "roots_ok rs' \<and> length rs' = length rs \<and> (roots_full rs \<longrightarrow> roots_full rs') \<and>
    (case root_map rs h of
       Some u \<Rightarrow> rs' = rs \<and> (\<exists>i < length rs. res = Some i \<and> rs ! i = u)
     | None \<Rightarrow> if roots_full rs then rs' = rs \<and> res = None
               else root_map rs' = (root_map rs)(h \<mapsto> claimed_root h) \<and>
                    (\<exists>i < length rs. res = Some i \<and> rs' ! i = claimed_root h))"
proof (cases "first_index (root_is h) rs")
  case (Some i)
  then show ?thesis using run ok root_scan_Some [OF ok Some] by (auto simp: root_slot_def)
next
  case none: None
  note absent = root_scan_None [OF ok none]
  show ?thesis
  proof (cases "first_index (\<lambda>r. \<not> ru_in_use r) rs")
    case None
    then have "roots_full rs" by (simp add: first_index_None roots_full_def list_all_iff)
    then show ?thesis using run none None absent ok by (simp add: root_slot_def)
  next
    case (Some i)
    then have i: "i < length rs" "\<not> ru_in_use (rs ! i)" by (auto dest: first_index_SomeD)
    then have nf: "\<not> roots_full rs" by (auto simp: roots_full_def list_all_length)
    have rs': "rs' = rs[i := claimed_root h]" "res = Some i"
      using run none Some by (simp_all add: root_slot_def claimed_root_def)
    have "root_key (rs ! i) = None" using i(2) by (simp add: root_key_def)
    then show ?thesis
      using root_put [OF ok i(1), of "claimed_root h" h] absent nf i(1) by (simp add: rs')
  qed
qed

definition charged :: "u64 \<Rightarrow> root_usage \<Rightarrow> root_usage" where
  "charged b u = u\<lparr>ru_objects := sat_add (ru_objects u) 1, ru_bytes := sat_add (ru_bytes u) b\<rparr>"

definition discharged :: "u64 \<Rightarrow> root_usage \<Rightarrow> root_usage" where
  "discharged b u = u\<lparr>ru_objects := sat_sub (ru_objects u) 1, ru_bytes := sat_sub (ru_bytes u) b\<rparr>"

lemma charged_frame [simp]:
  "root_key (charged b u) = root_key u" "ru_in_use (charged b u) = ru_in_use u"
  "root_key (discharged b u) = root_key u" "ru_in_use (discharged b u) = ru_in_use u"
  "ru_max_objects (charged b u) = ru_max_objects u" "ru_max_bytes (charged b u) = ru_max_bytes u"
  "ru_max_objects (discharged b u) = ru_max_objects u" "ru_max_bytes (discharged b u) = ru_max_bytes u"
  by (simp_all add: charged_def discharged_def root_key_def)

lemma root_key_use: "root_key r = Some h \<Longrightarrow> ru_in_use r"
  by (simp add: root_key_def split: if_splits)

lemma credit_map:
  assumes ok: "roots_ok rs"
  shows "roots_ok (credit h b rs) \<and> (roots_full rs \<longrightarrow> roots_full (credit h b rs)) \<and>
    root_map (credit h b rs) =
      (case root_map rs h of
         Some u \<Rightarrow> (root_map rs)(h \<mapsto> charged b u)
       | None \<Rightarrow> if roots_full rs then root_map rs else (root_map rs)(h \<mapsto> charged b (claimed_root h)))"
proof -
  obtain rs' res where run: "root_slot rs h = (rs', res)" by fastforce
  note r = root_slot_map [OF ok run]
  show ?thesis
  proof (cases res)
    case None
    then show ?thesis using r run by (auto simp: credit_def split: option.splits if_splits)
  next
    case (Some i)
    have i: "i < length rs'" "root_key (rs' ! i) = Some h"
      "root_map rs' h = Some (rs' ! i)"
      using r Some root_map_key [OF ok, of h] by (auto split: option.splits if_splits)
    have eq: "credit h b rs = rs'[i := charged b (rs' ! i)]"
      using run Some by (simp add: credit_def charged_def)
    note put = root_put [of rs' i "charged b (rs' ! i)" h]
    have "roots_ok (credit h b rs)" "root_map (credit h b rs) = (root_map rs')(h \<mapsto> charged b (rs' ! i))"
      using put r i by (simp_all add: eq)
    moreover have "roots_full (credit h b rs)" if "roots_full rs"
      using roots_full_put [of rs' "charged b (rs' ! i)" i] r that root_key_use [OF i(2)] by (simp add: eq)
    ultimately show ?thesis
      using r Some by (auto split: option.splits if_splits)
  qed
qed

lemma debit_map:
  assumes ok: "roots_ok rs"
  shows "roots_ok (debit h b rs) \<and> (roots_full rs \<longrightarrow> roots_full (debit h b rs)) \<and>
    root_map (debit h b rs) =
      (case root_map rs h of Some u \<Rightarrow> (root_map rs)(h \<mapsto> discharged b u) | None \<Rightarrow> root_map rs)"
proof (cases "first_index (root_is h) rs")
  case None
  then show ?thesis using ok root_scan_None [OF ok None] by (simp add: debit_def)
next
  case (Some i)
  note k = root_scan_Some [OF ok Some]
  have eq: "debit h b rs = rs[i := discharged b (rs ! i)]" using Some by (simp add: debit_def discharged_def)
  show ?thesis
    using root_put [OF ok, of i "discharged b (rs ! i)" h] k root_key_use [of "rs ! i" h]
      roots_full_put [of rs "discharged b (rs ! i)" i] by (simp add: eq)
qed

section \<open>Accounting\<close>

definition charges :: "u64 \<Rightarrow> object_slot \<Rightarrow> bool" where
  "charges h s \<longleftrightarrow> os_occupied s \<and> os_namespace_hash s = h"

definition used_count :: "object_slot list \<Rightarrow> u64 \<Rightarrow> nat" where
  "used_count slots h = length (filter (charges h) slots)"

definition used_bytes :: "object_slot list \<Rightarrow> u64 \<Rightarrow> nat" where
  "used_bytes slots h = sum_list (map (\<lambda>s. if charges h s then unat (os_size_bytes s) else 0) slots)"

definition stored_bytes :: "object_slot list \<Rightarrow> nat" where
  "stored_bytes slots = sum_list (map (\<lambda>s. if os_occupied s then unat (os_size_bytes s) else 0) slots)"

lemma used_bytes_le: "used_bytes slots h \<le> stored_bytes slots"
  unfolding used_bytes_def stored_bytes_def by (intro sum_list_mono) (simp add: charges_def)

lemma used_update:
  assumes "i < length slots"
  shows "used_count (slots[i := s]) h + (if charges h (slots ! i) then 1 else 0)
       = used_count slots h + (if charges h s then 1 else 0)"
    and "used_bytes (slots[i := s]) h + (if charges h (slots ! i) then unat (os_size_bytes (slots ! i)) else 0)
       = used_bytes slots h + (if charges h s then unat (os_size_bytes s) else 0)"
  using filter_length_update [OF assms, of "charges h" s]
    sum_list_update_nat [OF assms, of "\<lambda>s. if charges h s then unat (os_size_bytes s) else 0" s]
  by (simp_all add: used_count_def used_bytes_def)

definition acct :: "object_slot list \<Rightarrow> root_usage list \<Rightarrow> bool" where
  "acct slots rs \<longleftrightarrow> roots_ok rs \<and>
     (\<forall>h u. root_map rs h = Some u \<longrightarrow>
        unat (ru_objects u) = used_count slots h \<and> unat (ru_bytes u) = used_bytes slots h) \<and>
     (\<forall>h. root_map rs h = None \<and> 0 < used_count slots h \<longrightarrow> roots_full rs)"

lemma acctI:
  assumes "roots_ok rs"
    and "\<And>h u. root_map rs h = Some u \<Longrightarrow> unat (ru_objects u) = used_count slots h \<and> unat (ru_bytes u) = used_bytes slots h"
    and "\<And>h. root_map rs h = None \<Longrightarrow> 0 < used_count slots h \<Longrightarrow> roots_full rs"
  shows "acct slots rs"
  using assms unfolding acct_def by blast

lemma acctD:
  assumes "acct slots rs"
  shows "roots_ok rs"
    and "root_map rs h = Some u \<Longrightarrow> unat (ru_objects u) = used_count slots h \<and> unat (ru_bytes u) = used_bytes slots h"
    and "root_map rs h = None \<Longrightarrow> 0 < used_count slots h \<Longrightarrow> roots_full rs"
  using assms unfolding acct_def by blast+

lemma acct_debit:
  assumes a: "acct slots rs" and i: "i < length slots" "os_occupied (slots ! i)"
  shows "acct (slots[i := empty_object]) (debit (os_namespace_hash (slots ! i)) (os_size_bytes (slots ! i)) rs)"
proof -
  let ?s = "slots ! i" and ?h = "os_namespace_hash (slots ! i)"
  have ne: "\<not> charges h empty_object" for h by (simp add: charges_def)
  have upd: "used_count (slots[i := empty_object]) h = used_count slots h - (if h = ?h then 1 else 0)"
    "used_bytes (slots[i := empty_object]) h = used_bytes slots h - (if h = ?h then unat (os_size_bytes ?s) else 0)" for h
    using used_update [OF i(1), of empty_object h] i(2) ne by (auto simp: charges_def split: if_splits)
  note d = debit_map [OF acctD(1) [OF a], of ?h "os_size_bytes ?s"]
  show ?thesis
  proof (rule acctI)
    show "roots_ok (debit ?h (os_size_bytes ?s) rs)" using d by blast
    fix h
    {
      fix u assume u: "root_map (debit ?h (os_size_bytes ?s) rs) h = Some u"
      show "unat (ru_objects u) = used_count (slots[i := empty_object]) h \<and> unat (ru_bytes u) = used_bytes (slots[i := empty_object]) h"
      proof (cases "h = ?h")
        case True
        then obtain v where "root_map rs ?h = Some v" "u = discharged (os_size_bytes ?s) v"
          using u d by (auto split: option.splits)
        then show ?thesis
          using acctD(2) [OF a, of ?h v] upd [of h] True by (simp add: discharged_def unat_sat_sub)
      next
        case False
        then have "root_map rs h = Some u" using u d by (auto split: option.splits)
        then show ?thesis using acctD(2) [OF a] upd [of h] False by simp
      qed
    }
    assume "root_map (debit ?h (os_size_bytes ?s) rs) h = None" "0 < used_count (slots[i := empty_object]) h"
    then have "root_map rs h = None" "0 < used_count slots h"
      using d upd [of h] by (auto split: option.splits if_splits)
    then show "roots_full (debit ?h (os_size_bytes ?s) rs)" using acctD(3) [OF a] d by blast
  qed
qed

lemma acct_credit:
  assumes a: "acct slots rs" and i: "i < length slots" "\<not> os_occupied (slots ! i)" and s: "os_occupied s"
    and fit: "used_bytes (slots[i := s]) (os_namespace_hash s) < 2 ^ 64" "length slots < 2 ^ 64"
  shows "acct (slots[i := s]) (credit (os_namespace_hash s) (os_size_bytes s) rs)"
proof -
  let ?h = "os_namespace_hash s"
  have ne: "\<not> charges h (slots ! i)" for h using i(2) by (simp add: charges_def)
  have upd: "used_count (slots[i := s]) h = used_count slots h + (if h = ?h then 1 else 0)"
    "used_bytes (slots[i := s]) h = used_bytes slots h + (if h = ?h then unat (os_size_bytes s) else 0)" for h
    using used_update [OF i(1), of s h] s ne by (auto simp: charges_def split: if_splits)
  note c = credit_map [OF acctD(1) [OF a], of ?h "os_size_bytes s"]
  have cnt: "used_count (slots[i := s]) ?h < 2 ^ 64"
    using fit(2) length_filter_le [of "charges ?h" "slots[i := s]"] by (simp add: used_count_def)
  have charge: "unat (ru_objects (charged (os_size_bytes s) v)) = used_count (slots[i := s]) ?h \<and>
      unat (ru_bytes (charged (os_size_bytes s) v)) = used_bytes (slots[i := s]) ?h"
    if "unat (ru_objects v) = used_count slots ?h" "unat (ru_bytes v) = used_bytes slots ?h" for v
    using that upd [of ?h] cnt fit(1) by (simp add: charged_def unat_sat_add min_def)
  show ?thesis
  proof (rule acctI)
    show "roots_ok (credit ?h (os_size_bytes s) rs)" using c by blast
    fix h
    {
      fix u assume u: "root_map (credit ?h (os_size_bytes s) rs) h = Some u"
      show "unat (ru_objects u) = used_count (slots[i := s]) h \<and> unat (ru_bytes u) = used_bytes (slots[i := s]) h"
      proof (cases "h = ?h")
        case True
        show ?thesis
        proof (cases "root_map rs ?h")
          case (Some v)
          then have "u = charged (os_size_bytes s) v" using u c True by simp
          then show ?thesis using charge [of v] acctD(2) [OF a Some] True by simp
        next
          case None
          then have nf: "\<not> roots_full rs" "u = charged (os_size_bytes s) (claimed_root ?h)"
            using u c True by (auto split: if_splits)
          then have "used_count slots ?h = 0" using acctD(3) [OF a None] by auto
          moreover from this have "used_bytes slots ?h = 0"
            by (auto simp: used_count_def used_bytes_def filter_empty_conv sum_list_eq_0_iff)
          ultimately show ?thesis using charge [of "claimed_root ?h"] nf(2) True by simp
        qed
      next
        case False
        then have "root_map rs h = Some u" using u c by (auto split: option.splits if_splits)
        then show ?thesis using acctD(2) [OF a] upd [of h] False by simp
      qed
    }
    assume n: "root_map (credit ?h (os_size_bytes s) rs) h = None" "0 < used_count (slots[i := s]) h"
    show "roots_full (credit ?h (os_size_bytes s) rs)"
    proof (cases "h = ?h")
      case True
      then have "roots_full rs" using n c by (auto split: option.splits if_splits)
      then show ?thesis using c by blast
    next
      case False
      then have "root_map rs h = None" "0 < used_count slots h"
        using n c upd [of h] by (auto split: option.splits if_splits)
      then show ?thesis using acctD(3) [OF a] c by blast
    qed
  qed
qed

section \<open>Runs of the table\<close>

datatype obj_cmd =
  OPut bytes bytes u64 u64 u8 u8 "(u8 \<times> u8) option"
| OUpdate bytes bytes u64 u64 u8 u8 "(u8 \<times> u8) option"
| ORemove bytes
| OQuota bytes u64 u64

fun obj_exec :: "obj_state \<Rightarrow> obj_cmd \<Rightarrow> obj_state" where
  "obj_exec st (OPut k ns sz rv dc rc er) = fst (put_new st k ns sz rv dc rc er)"
| "obj_exec st (OUpdate k ns sz rv dc rc er) = fst (obj_update st k ns sz rv dc rc er)"
| "obj_exec st (ORemove k) = fst (obj_remove st k)"
| "obj_exec st (OQuota ns mo mb) = fst (set_quota st ns mo mb)"

text \<open>Runs in which the declared sizes of the stored objects always sum to less than \<open>2 ^ 64\<close>.\<close>

inductive obj_reach :: "nat \<Rightarrow> obj_state \<Rightarrow> bool" for n where
  obj_reach_new: "n < 2 ^ 64 \<Longrightarrow> obj_reach n (obj_new n)"
| obj_reach_step: "obj_reach n st \<Longrightarrow> stored_bytes (ob_slots (obj_exec st c)) < 2 ^ 64 \<Longrightarrow>
     obj_reach n (obj_exec st c)"

definition obj_inv :: "nat \<Rightarrow> obj_state \<Rightarrow> bool" where
  "obj_inv n st \<longleftrightarrow> obj_ok_state st \<and> acct (ob_slots st) (ob_roots st) \<and> length (ob_slots st) = n \<and> n < 2 ^ 64"

lemma put_new_cases:
  assumes ok: "obj_ok_state st" and run: "put_new st k ns sz rv dc rc er = (st', res)"
  obtains (kept) "st' = st"
      "(\<exists>e. res = Inl e) \<or> res = Inr Put \<and> (\<exists>s. obj_map st k = Some s \<and> os_size_bytes s = sz)"
  | (stored) i where "res = Inr Put" "obj_map st k = None" "length k \<le> MAX_OBJECT_ID"
      "\<forall>u. root_map (ob_roots st) (fnv1a64 ns) = Some u \<longrightarrow> \<not> would_exceed u sz"
      "i < length (ob_slots st)" "\<not> os_occupied (ob_slots st ! i)"
      "ob_slots st' = (ob_slots st)[i := new_object k ns sz rv dc rc er]"
      "ob_roots st' = credit (fnv1a64 ns) sz (ob_roots st)"
      "obj_ok_state st'" "obj_map st' = (obj_map st)(k \<mapsto> new_object k ns sz rv dc rc er)"
proof (cases "MAX_OBJECT_ID < length k \<or> obj_map st k \<noteq> None \<or>
    (\<exists>u. root_map (ob_roots st) (fnv1a64 ns) = Some u \<and> would_exceed u sz) \<or>
    first_index (\<lambda>s. \<not> os_occupied s) (ob_slots st) = None")
  case True
  with run show ?thesis
    by (intro kept) (auto simp: put_new_def Let_def split: if_splits option.splits)
next
  case False
  then obtain i where i: "first_index (\<lambda>s. \<not> os_occupied s) (ob_slots st) = Some i" by auto
  have eq: "res = Inr Put" "ob_slots st' = (ob_slots st)[i := new_object k ns sz rv dc rc er]"
    "ob_roots st' = credit (fnv1a64 ns) sz (ob_roots st)"
    using run False i by (auto simp: put_new_def Let_def split: if_splits option.splits)
  note free = free_object_key [OF i]
  have "obj_ok_state st'" "obj_map st' = (obj_map st)(k \<mapsto> new_object k ns sz rv dc rc er)"
    using obj_put [OF ok _ new_object_ok _ eq(2)] free False by simp_all
  then show ?thesis
    using eq False free first_index_SomeD [OF i] by (intro stored [of i]) auto
qed

lemma new_object_sel [simp]:
  "os_occupied (new_object k ns sz rv dc rc er)" "os_size_bytes (new_object k ns sz rv dc rc er) = sz"
  "os_namespace_hash (new_object k ns sz rv dc rc er) = fnv1a64 ns"
  by (simp_all add: new_object_def)

lemma object_key_occ: "object_key s = Some k \<Longrightarrow> os_occupied s"
  by (simp add: object_key_def split: if_splits)

lemma obj_update_cases:
  assumes ok: "obj_ok_state st" and run: "obj_update st k ns sz rv dc rc er = (st', res)"
  obtains (absent) "st' = st" "res = Inl ObjNotPresent" "obj_map st k = None"
  | (updated) i s s' where "res = Inr Updated" "obj_map st k = Some s" "i < length (ob_slots st)"
      "ob_slots st ! i = s" "os_occupied s" "os_occupied s'"
      "s' = s\<lparr>os_namespace_hash := fnv1a64 ns, os_size_bytes := sz, os_revision := rv,
              os_data_class := dc, os_replica_count := rc, os_erasure := er\<rparr>"
      "ob_slots st' = (ob_slots st)[i := s']"
      "ob_roots st' = credit (fnv1a64 ns) sz (debit (os_namespace_hash s) (os_size_bytes s) (ob_roots st))"
      "obj_ok_state st'" "obj_map st' = (obj_map st)(k \<mapsto> s')"
proof (cases "first_index (os_matches (fnv1a64 k) k) (ob_slots st)")
  case None
  with run obj_scan_None [OF ok None] show ?thesis by (intro absent) (auto simp: obj_update_def)
next
  case (Some i)
  note k = obj_scan_Some [OF ok Some]
  let ?s = "ob_slots st ! i"
  let ?s' = "?s\<lparr>os_namespace_hash := fnv1a64 ns, os_size_bytes := sz, os_revision := rv,
                os_data_class := dc, os_replica_count := rc, os_erasure := er\<rparr>"
  have eq: "res = Inr Updated" "ob_slots st' = (ob_slots st)[i := ?s']"
    "ob_roots st' = credit (fnv1a64 ns) sz (debit (os_namespace_hash ?s) (os_size_bytes ?s) (ob_roots st))"
    using run Some by (auto simp: obj_update_def Let_def)
  have "object_ok ?s" using k ok by (auto simp: obj_ok_state_def arena_ok_def)
  then have "object_ok ?s'" "object_key ?s' = Some k"
    using k by (auto simp: object_ok_def object_key_def os_object_id_def split: if_splits)
  then have "obj_ok_state st'" "obj_map st' = (obj_map st)(k \<mapsto> ?s')"
    using obj_put [OF ok _ _ _ _ eq(2)] k by blast+
  then show ?thesis using eq k object_key_occ by (intro updated [of ?s i ?s']) auto
qed

lemma obj_remove_cases:
  assumes ok: "obj_ok_state st" and run: "obj_remove st k = (st', res)"
  obtains (absent) "st' = st" "res = Inl ObjNotPresent" "obj_map st k = None"
  | (removed) i s where "res = Inr Removed" "obj_map st k = Some s" "i < length (ob_slots st)"
      "ob_slots st ! i = s" "os_occupied s" "ob_slots st' = (ob_slots st)[i := empty_object]"
      "ob_roots st' = debit (os_namespace_hash s) (os_size_bytes s) (ob_roots st)"
      "obj_ok_state st'" "obj_map st' = (obj_map st)(k := None)"
proof (cases "first_index (os_matches (fnv1a64 k) k) (ob_slots st)")
  case None
  with run obj_scan_None [OF ok None] show ?thesis by (intro absent) (auto simp: obj_remove_def)
next
  case (Some i)
  note k = obj_scan_Some [OF ok Some]
  have eq: "res = Inr Removed" "ob_slots st' = (ob_slots st)[i := empty_object]"
    "ob_roots st' = debit (os_namespace_hash (ob_slots st ! i)) (os_size_bytes (ob_slots st ! i)) (ob_roots st)"
    using run Some by (auto simp: obj_remove_def Let_def)
  have "obj_ok_state st'" "obj_map st' = (obj_map st)(k := None)"
    using obj_del [OF ok _ _ eq(2)] k by blast+
  then show ?thesis using eq k object_key_occ by (intro removed) auto
qed

lemma quota_acct:
  assumes a: "acct slots rs" and run: "root_slot rs h = (rs', Some i)"
  shows "acct slots (rs'[i := (rs' ! i)\<lparr>ru_max_objects := mo, ru_max_bytes := mb\<rparr>])"
proof -
  note r = root_slot_map [OF acctD(1) [OF a] run]
  let ?u = "(rs' ! i)\<lparr>ru_max_objects := mo, ru_max_bytes := mb\<rparr>"
  have i: "i < length rs'" "root_key (rs' ! i) = Some h" "root_map rs' h = Some (rs' ! i)"
    using r root_map_key [OF acctD(1) [OF a], of h] by (auto split: option.splits if_splits)
  then have k: "root_key ?u = Some h" by (auto simp: root_key_def split: if_splits)
  have put: "roots_ok (rs'[i := ?u])" "root_map (rs'[i := ?u]) = (root_map rs')(h \<mapsto> ?u)"
    using root_put [of rs' i ?u h] r i k by auto
  have u: "unat (ru_objects (rs' ! i)) = used_count slots h \<and> unat (ru_bytes (rs' ! i)) = used_bytes slots h"
  proof (cases "root_map rs h")
    case (Some v)
    then show ?thesis using r acctD(2) [OF a Some] by auto
  next
    case None
    then have "rs' ! i = claimed_root h" "\<not> roots_full rs" using r by (auto split: if_splits)
    moreover from this have "used_count slots h = 0" using acctD(3) [OF a None] by auto
    moreover from this have "used_bytes slots h = 0"
      by (auto simp: used_count_def used_bytes_def filter_empty_conv sum_list_eq_0_iff)
    ultimately show ?thesis by simp
  qed
  have other: "root_map rs' h' = root_map rs h'" if "h' \<noteq> h" for h'
    using r that by (auto split: option.splits if_splits)
  show ?thesis
  proof (rule acctI)
    show "roots_ok (rs'[i := ?u])" by (rule put)
    show "unat (ru_objects v) = used_count slots h' \<and> unat (ru_bytes v) = used_bytes slots h'"
      if "root_map (rs'[i := ?u]) h' = Some v" for h' v
      using that put(2) u acctD(2) [OF a, of h' v] other [of h'] by (cases "h' = h") auto
    show "roots_full (rs'[i := ?u])" if "root_map (rs'[i := ?u]) h' = None" "0 < used_count slots h'" for h'
    proof -
      have "h' \<noteq> h" using that(1) put(2) by auto
      then have "roots_full rs" using that put(2) other acctD(3) [OF a, of h'] by auto
      then show ?thesis using r roots_full_put [of rs' ?u i] root_key_use [OF k] by blast
    qed
  qed
qed

lemma obj_exec_inv:
  assumes inv: "obj_inv n st" and fit: "stored_bytes (ob_slots (obj_exec st c)) < 2 ^ 64"
  shows "obj_inv n (obj_exec st c)"
proof -
  have ok: "obj_ok_state st" and a: "acct (ob_slots st) (ob_roots st)" and n: "length (ob_slots st) = n" "n < 2 ^ 64"
    using inv by (simp_all add: obj_inv_def)
  show ?thesis
  proof (cases c)
    case (OPut k ns sz rv dc rc er)
    obtain st' res where run: "put_new st k ns sz rv dc rc er = (st', res)" by fastforce
    from ok run show ?thesis
    proof (cases rule: put_new_cases)
      case kept
      then show ?thesis using OPut run inv by simp
    next
      case (stored i)
      have "used_bytes (ob_slots st') (fnv1a64 ns) < 2 ^ 64"
        using used_bytes_le fit OPut run by (metis fst_conv le_less_trans obj_exec.simps(1))
      then have "acct (ob_slots st') (ob_roots st')"
        using acct_credit [OF a stored(5,6), of "new_object k ns sz rv dc rc er"] stored(7,8) n by simp
      then show ?thesis using stored OPut run n by (simp add: obj_inv_def)
    qed
  next
    case (OUpdate k ns sz rv dc rc er)
    obtain st' res where run: "obj_update st k ns sz rv dc rc er = (st', res)" by fastforce
    from ok run show ?thesis
    proof (cases rule: obj_update_cases)
      case absent
      then show ?thesis using OUpdate run inv by simp
    next
      case (updated i s s')
      let ?slots = "(ob_slots st)[i := empty_object]"
      have e: "acct ?slots (debit (os_namespace_hash s) (os_size_bytes s) (ob_roots st))"
        using acct_debit [OF a, of i] updated by simp
      have "used_bytes (ob_slots st') (fnv1a64 ns) < 2 ^ 64"
        using used_bytes_le fit OUpdate run by (metis fst_conv le_less_trans obj_exec.simps(2))
      then have "acct (ob_slots st') (ob_roots st')"
        using acct_credit [OF e, of i s'] updated n by simp
      then show ?thesis using updated OUpdate run n by (simp add: obj_inv_def)
    qed
  next
    case (ORemove k)
    obtain st' res where run: "obj_remove st k = (st', res)" by fastforce
    from ok run show ?thesis
    proof (cases rule: obj_remove_cases)
      case absent
      then show ?thesis using ORemove run inv by simp
    next
      case (removed i s)
      then have "acct (ob_slots st') (ob_roots st')" using acct_debit [OF a, of i] by simp
      then show ?thesis using removed ORemove run n by (simp add: obj_inv_def)
    qed
  next
    case (OQuota ns mo mb)
    obtain rs' res where run: "root_slot (ob_roots st) (fnv1a64 ns) = (rs', res)" by fastforce
    note r = root_slot_map [OF acctD(1) [OF a] run]
    show ?thesis
    proof (cases res)
      case None
      then have "rs' = ob_roots st" using r by (auto split: option.splits if_splits)
      then show ?thesis using OQuota run None inv by (simp add: set_quota_def obj_inv_def obj_ok_state_def)
    next
      case (Some i)
      then show ?thesis
        using OQuota run inv quota_acct [OF a, of "fnv1a64 ns" rs' i, where mo = mo and mb = mb]
        by (simp add: set_quota_def obj_inv_def obj_ok_state_def)
    qed
  qed
qed

lemma obj_new_inv:
  assumes "n < 2 ^ 64"
  shows "obj_inv n (obj_new n)"
proof -
  have r: "roots_ok (replicate m empty_usage)" for m
    by (simp add: roots_ok_def arena_ok_replicate root_key_def empty_usage_def)
  moreover have "root_map (replicate m empty_usage) h = None" for m h
    using r [of m] roots.map_None [of "replicate m empty_usage" h]
    by (simp add: roots_ok_def root_map_def root_key_def empty_usage_def)
  moreover have "used_count (replicate n empty_object) h = 0" for h
    by (simp add: used_count_def charges_def empty_object_def)
  ultimately have "acct (ob_slots (obj_new n)) (ob_roots (obj_new n))"
    by (intro acctI) (simp_all add: obj_new_def)
  then show ?thesis using assms by (simp add: obj_inv_def obj_new_def obj_ok_state_def arena_ok_replicate)
qed

lemma obj_reach_inv: "obj_reach n st \<Longrightarrow> obj_inv n st"
  by (induction rule: obj_reach.induct) (use obj_new_inv obj_exec_inv in blast)+

lemma count_used: "count_in_namespace st ns = used_count (ob_slots st) (fnv1a64 ns)"
  by (simp add: count_in_namespace_def used_count_def charges_def [abs_def])

section \<open>The properties\<close>

text \<open>C20: the usage a root reports is exact: in every reachable table, for a root that has a usage
  entry, \<open>objects\<close> is the number of stored descriptors charged to it and \<open>bytes\<close> the sum of their
  sizes, across puts, duplicate puts, updates that move a root, removals and quota changes.\<close>

theorem obj_usage_exact:
  assumes "obj_reach n st" and "obj_usage st ns = Some u"
  shows "unat (ru_objects u) = count_in_namespace st ns \<and>
       unat (ru_bytes u) = (\<Sum>s \<leftarrow> ob_slots st. if charges (fnv1a64 ns) s then unat (os_size_bytes s) else 0)"
proof -
  have "acct (ob_slots st) (ob_roots st)" using obj_reach_inv [OF assms(1)] by (simp add: obj_inv_def)
  then show ?thesis
    using acctD(2) assms(2) by (auto simp: obj_usage_def count_used used_bytes_def)
qed

definition demo_objects :: obj_state where
  "demo_objects = obj_exec (obj_exec (obj_exec (obj_new 2) (OQuota [1] 1 100)) (OPut [7] [1] 60 1 0 1 None)) (OPut [8] [2] 5 1 0 1 None)"

lemma demo_objects_reach: "obj_reach 2 demo_objects"
proof -
  let ?s0 = "obj_new 2" and ?c1 = "OQuota [1] 1 100" and ?c2 = "OPut [7] [1] 60 1 0 1 None" and ?c3 = "OPut [8] [2] 5 1 0 1 None"
  have sizes: "map (\<lambda>s. if os_occupied s then os_size_bytes s else 0) (ob_slots (obj_exec ?s0 ?c1)) = [0, 0]"
    "map (\<lambda>s. if os_occupied s then os_size_bytes s else 0) (ob_slots (obj_exec (obj_exec ?s0 ?c1) ?c2)) = [60, 0]"
    "map (\<lambda>s. if os_occupied s then os_size_bytes s else 0) (ob_slots demo_objects) = [60, 5]"
    by code_simp+
  have stored: "stored_bytes slots = sum_list (map unat (map (\<lambda>s. if os_occupied s then os_size_bytes s else 0) slots))" for slots
    unfolding stored_bytes_def by (simp add: comp_def if_distrib cong: if_cong)
  show ?thesis
    unfolding demo_objects_def
    by (intro obj_reach_step obj_reach_new)
      (simp_all add: stored sizes sizes(3) [unfolded demo_objects_def] del: obj_exec.simps map_map)
qed

theorem obj_usage_exact_witness:
  "map_option ru_objects (obj_usage demo_objects [1]) = Some 1 \<and> count_in_namespace demo_objects [1] = 1"
proof -
  have u: "map_option ru_objects (obj_usage demo_objects [1]) = Some 1" by code_simp
  then obtain v where v: "obj_usage demo_objects [1] = Some v" "ru_objects v = 1" by auto
  from obj_usage_exact [OF demo_objects_reach v(1)] show ?thesis using u v(2) by simp
qed

text \<open>C28: a quota is never crossed by a put: in a reachable table, a put of a new id that succeeds
  leaves its root, if the root has ceilings, within both of them, counted over the stored
  descriptors themselves; and a refused put leaves the table exactly as it was.\<close>

theorem put_within_quota:
  assumes "obj_reach n st" and "put_new st k ns sz rv dc rc er = (st', res)"
    and "stored_bytes (ob_slots st') < 2 ^ 64"
  shows "(case res of
       Inl _ \<Rightarrow> st' = st
     | Inr _ \<Rightarrow> obj_lookup st k = None \<longrightarrow> (\<forall>u. obj_usage st' ns = Some u \<longrightarrow>
         (ru_max_objects u \<noteq> 0 \<longrightarrow> count_in_namespace st' ns \<le> unat (ru_max_objects u)) \<and>
         (ru_max_bytes u \<noteq> 0 \<longrightarrow>
            (\<Sum>s \<leftarrow> ob_slots st'. if charges (fnv1a64 ns) s then unat (os_size_bytes s) else 0) \<le> unat (ru_max_bytes u))))"
proof -
  have inv: "obj_inv n st" by (rule obj_reach_inv [OF assms(1)])
  then have ok: "obj_ok_state st" and rok: "roots_ok (ob_roots st)" by (simp_all add: obj_inv_def acct_def)
  have inv': "obj_inv n st'"
    using obj_exec_inv [OF inv, of "OPut k ns sz rv dc rc er"] assms(2,3) by simp
  show ?thesis
    using ok assms(2)
  proof (cases rule: put_new_cases)
    case kept
    then show ?thesis by (cases res) auto
  next
    case (stored i)
    have "(ru_max_objects u \<noteq> 0 \<longrightarrow> ru_objects u \<le> ru_max_objects u) \<and> (ru_max_bytes u \<noteq> 0 \<longrightarrow> ru_bytes u \<le> ru_max_bytes u)"
      if u: "root_map (ob_roots st') (fnv1a64 ns) = Some u" for u
    proof (cases "root_map (ob_roots st) (fnv1a64 ns)")
      case None
      then have "u = charged sz (claimed_root (fnv1a64 ns))"
        using credit_map [OF rok, of "fnv1a64 ns" sz] u stored(8) by (auto split: if_splits)
      then show ?thesis by (simp add: claimed_root_def empty_usage_def)
    next
      case (Some v)
      then have "u = charged sz v" "\<not> would_exceed v sz"
        using credit_map [OF rok, of "fnv1a64 ns" sz] u stored(4,8) by auto
      then show ?thesis by (auto simp: would_exceed_def charged_def not_less)
    qed
    moreover have "unat (ru_objects u) = count_in_namespace st' ns \<and> unat (ru_bytes u) = used_bytes (ob_slots st') (fnv1a64 ns)"
      if "root_map (ob_roots st') (fnv1a64 ns) = Some u" for u
      using inv' acctD(2) [OF _ that] by (auto simp: obj_inv_def count_used)
    ultimately show ?thesis
      using stored(1) by (auto simp: obj_usage_def used_bytes_def word_le_nat_alt)
  qed
qed

theorem put_within_quota_witness:
  "snd (put_new demo_objects [9] [1] 1 1 0 1 None) = Inl QuotaExceeded \<and>
   fst (put_new demo_objects [9] [1] 1 1 0 1 None) = demo_objects"
proof -
  let ?r = "put_new demo_objects [9] [1] 1 1 0 1 None"
  have res: "snd ?r = Inl QuotaExceeded" "map os_size_bytes (ob_slots (fst ?r)) = [60, 5]"
    "map os_occupied (ob_slots (fst ?r)) = [True, True]" by code_simp+
  obtain a b where ab: "ob_slots (fst ?r) = [a, b]" "os_size_bytes a = 60" "os_size_bytes b = 5" using res(2) by auto
  have "stored_bytes (ob_slots (fst ?r)) < 2 ^ 64" by (simp add: ab stored_bytes_def)
  from put_within_quota [OF demo_objects_reach surjective_pairing this] res(1) show ?thesis by simp
qed

text \<open>The descriptor table is a map from ids: a put answers \<open>Put\<close> and binds the id (or changes
  nothing when the id is there with that size), an update changes only the id it names and only
  when it is there, a removal unbinds exactly its id; every other id reads as before.\<close>

theorem obj_lookup_after:
  assumes "obj_reach n st"
  shows "(\<forall>st' res. put_new st k ns sz rv dc rc er = (st', res) \<longrightarrow>
       (\<forall>k'. obj_lookup st' k' =
          (if k' = k \<and> obj_lookup st k = None \<and> res = Inr Put then Some (new_object k ns sz rv dc rc er)
           else obj_lookup st k'))) \<and>
     (\<forall>st' res. obj_update st k ns sz rv dc rc er = (st', res) \<longrightarrow>
       res = (if obj_lookup st k = None then Inl ObjNotPresent else Inr Updated) \<and>
       (\<forall>k'. obj_lookup st' k' =
          (if k' = k then map_option (\<lambda>s. s\<lparr>os_namespace_hash := fnv1a64 ns, os_size_bytes := sz,
              os_revision := rv, os_data_class := dc, os_replica_count := rc, os_erasure := er\<rparr>) (obj_lookup st k)
           else obj_lookup st k'))) \<and>
     (\<forall>st' res. obj_remove st k = (st', res) \<longrightarrow>
       res = (if obj_lookup st k = None then Inl ObjNotPresent else Inr Removed) \<and>
       (\<forall>k'. obj_lookup st' k' = (if k' = k then None else obj_lookup st k')))"
proof -
  have ok: "obj_ok_state st" using obj_reach_inv [OF assms] by (simp add: obj_inv_def)
  have "obj_map st' k' = (if k' = k \<and> obj_map st k = None \<and> res = Inr Put then Some (new_object k ns sz rv dc rc er) else obj_map st k')"
    if "put_new st k ns sz rv dc rc er = (st', res)" for st' res k'
    using ok that by (cases rule: put_new_cases) auto
  moreover have "res = (if obj_map st k = None then Inl ObjNotPresent else Inr Updated) \<and>
      obj_map st' k' = (if k' = k then map_option (\<lambda>s. s\<lparr>os_namespace_hash := fnv1a64 ns, os_size_bytes := sz,
              os_revision := rv, os_data_class := dc, os_replica_count := rc, os_erasure := er\<rparr>) (obj_map st k) else obj_map st k')"
    if "obj_update st k ns sz rv dc rc er = (st', res)" for st' res k'
    using ok that by (cases rule: obj_update_cases) auto
  moreover have "res = (if obj_map st k = None then Inl ObjNotPresent else Inr Removed) \<and>
      obj_map st' k' = (if k' = k then None else obj_map st k')"
    if "obj_remove st k = (st', res)" for st' res k'
    using ok that by (cases rule: obj_remove_cases) auto
  ultimately show ?thesis by simp
qed

theorem obj_lookup_after_witness:
  "obj_lookup (fst (obj_remove demo_objects [7])) [8] = obj_lookup demo_objects [8] \<and>
   obj_lookup (fst (obj_remove demo_objects [7])) [7] = None"
proof -
  obtain st' res where run: "obj_remove demo_objects [7] = (st', res)" by fastforce
  have "\<forall>k'. obj_lookup st' k' = (if k' = [7] then None else obj_lookup demo_objects k')"
    using obj_lookup_after [OF demo_objects_reach, of "[7]"] run by blast
  then show ?thesis by (simp add: run del: obj_lookup_map)
qed

lemma hex_val_Some: "hex_val c = Some v \<longleftrightarrow> v < 16 \<and> c = hex_digit v"
proof
  assume "hex_val c = Some v"
  then show "v < 16 \<and> c = hex_digit v"
    by (auto simp: hex_val_def hex_digit_def split: if_splits; unat_arith)
qed (simp add: hex_val_digit)

lemma nibbles: "push_bit 4 (drop_bit 4 b) OR (b AND 15) = (b :: u8)"
proof (rule bit_word_eqI)
  fix n assume "n < LENGTH(8)"
  have m: "(15 :: u8) = mask 4" by (simp add: mask_eq_exp_minus_1)
  show "bit (push_bit 4 (drop_bit 4 b) OR (b AND 15)) n = bit b n"
    using \<open>n < LENGTH(8)\<close> unfolding m by (auto simp: bit_simps)
qed

lemma nibbles_inv:
  assumes "hi < 16" "lo < (16 :: u8)"
  shows "drop_bit 4 (push_bit 4 hi OR lo) = hi" "(push_bit 4 hi OR lo) AND 15 = lo"
proof -
  have m: "(15 :: u8) = mask 4" by (simp add: mask_eq_exp_minus_1)
  have *: "x AND mask 4 = x" if "x < 16" for x :: u8
  proof -
    have "unat x mod 16 = unat x" using that by (simp add: word_less_nat_alt)
    then show ?thesis by (simp add: word_unat_eq_iff unsigned_take_bit_eq take_bit_eq_mod unat_mod flip: take_bit_eq_mask)
  qed
  have hb: "\<not> bit hi n" "\<not> bit lo n" if "4 \<le> n" for n
    using * [OF assms(1)] * [OF assms(2)] that by (metis bit_and_iff bit_mask_iff not_less)+
  show "drop_bit 4 (push_bit 4 hi OR lo) = hi"
  proof (rule bit_word_eqI)
    fix n
    show "bit (drop_bit 4 (push_bit 4 hi OR lo)) n = bit hi n"
      using hb [of n] hb(2) [of "4 + n"] by (cases "4 \<le> n") (auto simp: bit_simps)
  qed
  show "(push_bit 4 hi OR lo) AND 15 = lo"
    unfolding m
  proof (rule bit_word_eqI)
    fix n
    show "bit ((push_bit 4 hi OR lo) AND mask 4) n = bit lo n"
      using hb [of n] by (cases "4 \<le> n") (auto simp: bit_simps)
  qed
qed

definition hex_pair :: "u8 \<Rightarrow> bytes" where
  "hex_pair b = [hex_digit (drop_bit 4 b), hex_digit (b AND 15)]"

lemma hex_pair_join: "hi < 16 \<Longrightarrow> lo < 16 \<Longrightarrow> hex_pair (push_bit 4 hi OR lo) = [hex_digit hi, hex_digit lo]"
  unfolding hex_pair_def by (simp only: nibbles_inv)

lemma nibble_lt: "drop_bit 4 b < (16 :: u8)" "b AND 15 < (16 :: u8)"
proof -
  show "drop_bit 4 b < (16 :: u8)"
    using unat_u8_less [of b] by (simp add: word_less_nat_alt drop_bit_eq_div unat_div)
  show "b AND 15 < (16 :: u8)"
    by (rule order.strict_trans1 [OF word_and_le1]) simp
qed

lemma hex_digit_inj: "a < 16 \<Longrightarrow> b < 16 \<Longrightarrow> hex_digit a = hex_digit b \<longleftrightarrow> a = b"
  by (metis hex_val_digit option.inject)

lemma digest_bytes_pairs:
  assumes "7 + 2 * (i + n) \<le> length k"
  shows "digest_bytes k [i..<i + n] = Some d \<longleftrightarrow>
    length d = n \<and> take (2 * n) (drop (7 + 2 * i) k) = concat (map hex_pair d)"
  using assms
proof (induction n arbitrary: i d)
  case 0
  then show ?case by auto
next
  case (Suc n)
  have up: "[i..<i + Suc n] = i # [Suc i..<Suc i + n]" by (simp add: upt_rec)
  have cut: "take (2 * Suc n) (drop (7 + 2 * i) k) =
      k ! (7 + 2 * i) # k ! (8 + 2 * i) # take (2 * n) (drop (7 + 2 * Suc i) k)"
    using Suc.prems by (simp add: Cons_nth_drop_Suc [symmetric])
  have IH: "digest_bytes k [Suc i..<Suc i + n] = Some d' \<longleftrightarrow>
      length d' = n \<and> take (2 * n) (drop (7 + 2 * Suc i) k) = concat (map hex_pair d')" for d'
    using Suc.prems by (intro Suc.IH) simp
  show ?case
  proof
    assume "digest_bytes k [i..<i + Suc n] = Some d"
    then obtain hi lo d' where hl: "hex_val (k ! (7 + 2 * i)) = Some hi" "hex_val (k ! (8 + 2 * i)) = Some lo"
      and d': "digest_bytes k [Suc i..<Suc i + n] = Some d'" "d = (push_bit 4 hi OR lo) # d'"
      unfolding up by (auto split: option.splits)
    then show "length d = Suc n \<and> take (2 * Suc n) (drop (7 + 2 * i) k) = concat (map hex_pair d)"
      using IH [of d'] unfolding cut hex_val_Some by (simp add: hex_pair_join)
  next
    assume "length d = Suc n \<and> take (2 * Suc n) (drop (7 + 2 * i) k) = concat (map hex_pair d)"
    then obtain b d' where d: "d = b # d'" "length d' = n"
      "k ! (7 + 2 * i) = hex_digit (drop_bit 4 b)" "k ! (8 + 2 * i) = hex_digit (b AND 15)"
      "take (2 * n) (drop (7 + 2 * Suc i) k) = concat (map hex_pair d')"
      unfolding cut by (cases d) (auto simp: hex_pair_def)
    then show "digest_bytes k [i..<i + Suc n] = Some d"
      using IH [of d'] unfolding up by (simp add: hex_val_digit nibble_lt nibbles)
  qed
qed

lemma length_hex_pairs: "length (concat (map hex_pair d)) = 2 * length d"
  by (induction d) (simp_all add: hex_pair_def)

text \<open>A digest is derived exactly from the content-derived id form: \<open>derived_digest\<close> answers
  \<open>d\<close> if and only if the id is \<open>sha256:\<close> followed by the 64 lowercase hex digits of the 32
  bytes \<open>d\<close>; encoding and decoding are inverse and no other id has a digest.\<close>

theorem derived_digest_iff:
  "derived_digest k = Some d \<longleftrightarrow>
     length d = 32 \<and> k = ID_PREFIX @ concat (map (\<lambda>b. [hex_digit (drop_bit 4 b), hex_digit (b AND 15)]) d)"
proof -
  have pair: "(\<lambda>b. [hex_digit (drop_bit 4 b), hex_digit (b AND 15)]) = hex_pair"
    by (rule ext) (simp add: hex_pair_def)
  have len: "length ID_PREFIX = 7" by (simp add: ID_PREFIX_def)
  show ?thesis
  proof (cases "length k = 71")
    case True
    have "digest_bytes k [0..<32] = Some d \<longleftrightarrow> length d = 32 \<and> drop 7 k = concat (map hex_pair d)"
      using digest_bytes_pairs [of 0 32 k d] True by simp
    moreover have "k = ID_PREFIX @ c \<longleftrightarrow> take 7 k = ID_PREFIX \<and> drop 7 k = c" for c
      using len by (metis append_eq_conv_conj)
    ultimately show ?thesis
      unfolding pair using True by (auto simp: derived_digest_def DERIVED_ID_LEN_def DIGEST_LEN_def)
  next
    case False
    then have "k \<noteq> ID_PREFIX @ concat (map hex_pair d)" if "length d = 32"
      using that len length_hex_pairs [of d] by auto
    then show ?thesis
      unfolding pair using False by (auto simp: derived_digest_def DERIVED_ID_LEN_def)
  qed
qed

text \<open>A page of the descriptor inventory lists, in slot order, exactly the digests of the
  content-derived ids stored between its cursor and the next, each the digest its id names;
  pages taken until the cursor is 0 visit every slot once.\<close>

theorem obj_scan_tiles:
  assumes "obj_reach n st" and "unat cursor \<le> n" and "n < 2 ^ 32" and "0 < mx"
    and "obj_scan st cursor mx = (nxt, out)"
  shows "(let stop = (if nxt = 0 then n else unat nxt) in
       map Some out = filter (\<lambda>d. d \<noteq> None)
          (map (\<lambda>s. if os_occupied s then derived_digest (os_object_id s) else None)
             (sub_slice (ob_slots st) (unat cursor) (stop - unat cursor))) \<and>
       (nxt \<noteq> 0 \<longrightarrow> cursor < nxt \<and> length out = mx))"
proof -
  have inv: "obj_ok_state st" "length (ob_slots st) = n" using obj_reach_inv [OF assms(1)] by (simp_all add: obj_inv_def)
  have good: "object_ok s" if "s \<in> set (ob_slots st)" for s
    using inv(1) that by (simp add: obj_ok_state_def arena_ok_def)
  have list: "map Some (map os_content_digest (filter (\<lambda>s. os_occupied s \<and> os_id_derived s) xs)) =
      filter (\<lambda>d. d \<noteq> None) (map (\<lambda>s. if os_occupied s then derived_digest (os_object_id s) else None) xs)"
    if "set xs \<subseteq> set (ob_slots st)" for xs
    using that
  proof (induction xs)
    case (Cons s xs)
    have "os_occupied s \<longrightarrow> os_id_derived s = (derived_digest (os_object_id s) \<noteq> None) \<and>
        (\<forall>d. derived_digest (os_object_id s) = Some d \<longrightarrow> os_content_digest s = d)"
      using good [of s] Cons.prems by (simp add: object_ok_def)
    then show ?case using Cons by auto
  qed simp
  have sub: "set (sub_slice (ob_slots st) a b) \<subseteq> set (ob_slots st)" for a b
    unfolding sub_slice_def by (meson in_set_dropD in_set_takeD subsetI)
  show ?thesis
    using page_tiles [of cursor "ob_slots st" mx _ _ nxt out, OF _ _ assms(4) assms(5) [unfolded obj_scan_def]]
      assms(2,3) inv(2) list [OF sub] by (auto simp: Let_def)
qed

theorem obj_scan_tiles_witness: "obj_scan demo_objects 0 4 = (0, []) \<and>
   filter (\<lambda>d. d \<noteq> None) (map (\<lambda>s. if os_occupied s then derived_digest (os_object_id s) else None)
      (sub_slice (ob_slots demo_objects) 0 2)) = []"
proof -
  have run: "obj_scan demo_objects 0 4 = (0, [])" by code_simp
  from obj_scan_tiles [OF demo_objects_reach _ _ _ run] run show ?thesis by (simp add: Let_def)
qed

text \<open>
  Without the bound on the sizes the usage drifts: \<open>bytes\<close> saturates at \<open>2 ^ 64 - 1\<close> and a removal
  then takes off more than the put could add.
\<close>

theorem usage_drifts:
  "(let st = obj_exec (obj_exec (obj_exec (obj_new 2) (OPut [7] [1] (- 1) 1 0 1 None)) (OPut [8] [1] 10 1 0 1 None)) (ORemove [7])
    in map_option ru_bytes (obj_usage st [1]) = Some 0 \<and> map_option os_size_bytes (obj_lookup st [8]) = Some 10)"
  unfolding Let_def by (rule conjI; code_simp)

end
