(* ===== verification/Block_State.thy ===== *)
theory Block_State
  imports Loam_Hash Loam_Limits Slot_Arena
begin

text \<open>
  \<open>modules/common/mechanics/block_pic_state.rs\<close>: thin volumes and their allocation high-water
  marks. The slots are an arena keyed by the volume id; every operation's effect on the map of
  volumes is stated once and the properties of a run rest on it.
\<close>

section \<open>Data and operations\<close>

record volume_slot =
  vs_volume_id_hash :: u64
  vs_logical_bytes :: u64
  vs_block_size :: u32
  vs_allocated_blocks :: u64
  vs_class :: u8
  vs_thin_provisioned :: bool
  vs_occupied :: bool
  vs_volume_id_bytes :: bytes
  vs_volume_id_len :: u8

definition empty_volume :: volume_slot where
  "empty_volume =
     \<lparr>vs_volume_id_hash = 0, vs_logical_bytes = 0, vs_block_size = 0, vs_allocated_blocks = 0,
      vs_class = 0, vs_thin_provisioned = False, vs_occupied = False,
      vs_volume_id_bytes = replicate MAX_OBJECT_ID 0, vs_volume_id_len = 0\<rparr>"

definition vs_volume_id :: "volume_slot \<Rightarrow> bytes" where
  "vs_volume_id s = take (unat (vs_volume_id_len s)) (vs_volume_id_bytes s)"

definition vs_matches :: "u64 \<Rightarrow> bytes \<Rightarrow> volume_slot \<Rightarrow> bool" where
  "vs_matches volume_id_hash volume_id s \<longleftrightarrow>
     vs_occupied s \<and> vs_volume_id_hash s = volume_id_hash \<and> vs_volume_id s = volume_id"

definition logical_block_count :: "volume_slot \<Rightarrow> u64" where
  "logical_block_count s =
     (if vs_block_size s = 0 then 0 else vs_logical_bytes s div ucast (vs_block_size s))"

definition free_blocks :: "volume_slot \<Rightarrow> u64" where
  "free_blocks s = sat_sub (logical_block_count s) (vs_allocated_blocks s)"

datatype blk_error =
  BlkIdTooLong | BlkAlreadyPresent | BlkNotPresent | BlkOutOfCapacity
| AllocationExceedsVolume | ReleaseExceedsAllocated

datatype blk_ok = Created | Allocated u64 u64 | Released u64

type_synonym blk_state = "volume_slot list"

definition blk_new :: "nat \<Rightarrow> blk_state" where
  "blk_new n = replicate n empty_volume"

definition blk_len :: "blk_state \<Rightarrow> nat" where
  "blk_len st = length (filter vs_occupied st)"

definition blk_lookup :: "blk_state \<Rightarrow> bytes \<Rightarrow> volume_slot option" where
  "blk_lookup st volume_id = List.find (vs_matches (fnv1a64 volume_id) volume_id) st"

definition create_volume ::
  "blk_state \<Rightarrow> bytes \<Rightarrow> u8 \<Rightarrow> u64 \<Rightarrow> u32 \<Rightarrow> bool \<Rightarrow> blk_state \<times> (blk_error + blk_ok)" where
  "create_volume st volume_id class_code logical_bytes block_size thin_provisioned =
     (if MAX_OBJECT_ID < length volume_id then (st, Inl BlkIdTooLong)
      else
        let h = fnv1a64 volume_id in
        if list_ex (vs_matches h volume_id) st then (st, Inl BlkAlreadyPresent)
        else
          case first_index (\<lambda>s. \<not> vs_occupied s) st of
            Some i \<Rightarrow>
              (st[i := \<lparr>vs_volume_id_hash = h, vs_logical_bytes = logical_bytes,
                        vs_block_size = block_size, vs_allocated_blocks = 0, vs_class = class_code,
                        vs_thin_provisioned = thin_provisioned, vs_occupied = True,
                        vs_volume_id_bytes = copy_prefix volume_id (replicate MAX_OBJECT_ID 0),
                        vs_volume_id_len = word_of_nat (length volume_id)\<rparr>], Inr Created)
          | None \<Rightarrow> (st, Inl BlkOutOfCapacity))"

definition blk_allocate :: "blk_state \<Rightarrow> bytes \<Rightarrow> u64 \<Rightarrow> blk_state \<times> (blk_error + blk_ok)" where
  "blk_allocate st volume_id count =
     (case first_index (vs_matches (fnv1a64 volume_id) volume_id) st of
        Some i \<Rightarrow>
          (let s = st ! i in
           if free_blocks s < count then (st, Inl AllocationExceedsVolume)
           else (st[i := s\<lparr>vs_allocated_blocks := sat_add (vs_allocated_blocks s) count\<rparr>],
                 Inr (Allocated (vs_allocated_blocks s) count)))
      | None \<Rightarrow> (st, Inl BlkNotPresent))"

definition blk_release :: "blk_state \<Rightarrow> bytes \<Rightarrow> u64 \<Rightarrow> blk_state \<times> (blk_error + blk_ok)" where
  "blk_release st volume_id count =
     (case first_index (vs_matches (fnv1a64 volume_id) volume_id) st of
        Some i \<Rightarrow>
          (let s = st ! i in
           if vs_allocated_blocks s < count then (st, Inl ReleaseExceedsAllocated)
           else (st[i := s\<lparr>vs_allocated_blocks := vs_allocated_blocks s - count\<rparr>],
                 Inr (Released count)))
      | None \<Rightarrow> (st, Inl BlkNotPresent))"

section \<open>The table as a map\<close>

definition volume_key :: "volume_slot \<Rightarrow> bytes option" where
  "volume_key s = (if vs_occupied s then Some (vs_volume_id s) else None)"

definition volume_ok :: "volume_slot \<Rightarrow> bool" where
  "volume_ok s \<longleftrightarrow>
     (vs_occupied s \<longrightarrow> vs_volume_id_hash s = fnv1a64 (vs_volume_id s)) \<and>
     vs_allocated_blocks s \<le> logical_block_count s"

definition volume_hits :: "bytes \<Rightarrow> volume_slot \<Rightarrow> bool" where
  "volume_hits k = vs_matches (fnv1a64 k) k"

lemma volume_hits_key: "volume_ok s \<Longrightarrow> volume_hits k s \<longleftrightarrow> volume_key s = Some k"
  by (auto simp: volume_hits_def vs_matches_def volume_key_def volume_ok_def)

interpretation volumes: slot_arena volume_key volume_hits volume_ok
  by unfold_locales (rule volume_hits_key)

definition blk_ok_state :: "blk_state \<Rightarrow> bool" where
  "blk_ok_state st \<longleftrightarrow> arena_ok volume_ok volume_key st"

lemma blk_lookup_map: "blk_lookup st k = arena_map volume_hits st k"
  by (simp add: blk_lookup_def arena_map_def volume_hits_def)

lemma blk_scan_Some:
  "blk_ok_state st \<Longrightarrow> first_index (vs_matches (fnv1a64 k) k) st = Some i \<Longrightarrow>
   i < length st \<and> volume_key (st ! i) = Some k \<and> blk_lookup st k = Some (st ! i) \<and> volume_ok (st ! i)"
  using volumes.scan_Some [of st k i] volumes.map_at [of st i k] arena_ok_wf [of volume_ok volume_key st i]
  by (simp add: blk_ok_state_def blk_lookup_map volume_hits_def)

lemma blk_scan_None:
  "blk_ok_state st \<Longrightarrow> first_index (vs_matches (fnv1a64 k) k) st = None \<Longrightarrow> blk_lookup st k = None"
  using volumes.scan_None [of st k] volumes.map_None [of st k]
  by (simp add: blk_ok_state_def blk_lookup_map volume_hits_def)

lemma blk_put:
  assumes "blk_ok_state st" "i < length st" "volume_ok s" "volume_key s = Some k"
    and "volume_key (st ! i) = Some k \<or> volume_key (st ! i) = None \<and> blk_lookup st k = None"
  shows "blk_ok_state (st[i := s])" "blk_lookup (st[i := s]) k' = (if k' = k then Some s else blk_lookup st k')"
proof -
  have "volume_key (st ! i) = Some k \<or> volume_key (st ! i) = None \<and> (\<forall>j < length st. volume_key (st ! j) \<noteq> Some k)"
    using assms(1,5) volumes.map_None [of st k] by (auto simp: blk_ok_state_def blk_lookup_map)
  then show "blk_ok_state (st[i := s])" "blk_lookup (st[i := s]) k' = (if k' = k then Some s else blk_lookup st k')"
    using volumes.put_ok [of st i s k] volumes.put_map [of st i s k] assms
    by (auto simp: blk_ok_state_def blk_lookup_map)
qed

section \<open>Effects\<close>

definition fresh_volume :: "bytes \<Rightarrow> u8 \<Rightarrow> u64 \<Rightarrow> u32 \<Rightarrow> bool \<Rightarrow> volume_slot" where
  "fresh_volume k c lb bs thin =
     \<lparr>vs_volume_id_hash = fnv1a64 k, vs_logical_bytes = lb, vs_block_size = bs, vs_allocated_blocks = 0,
      vs_class = c, vs_thin_provisioned = thin, vs_occupied = True,
      vs_volume_id_bytes = copy_prefix k (replicate MAX_OBJECT_ID 0), vs_volume_id_len = word_of_nat (length k)\<rparr>"

lemma fresh_volume_ok:
  assumes "length k \<le> MAX_OBJECT_ID"
  shows "volume_ok (fresh_volume k c lb bs thin)" "volume_key (fresh_volume k c lb bs thin) = Some k"
proof -
  have "unat (word_of_nat (length k) :: u8) = length k"
    using assms by (simp add: unat_of_nat_small MAX_OBJECT_ID_def)
  then show "volume_ok (fresh_volume k c lb bs thin)" "volume_key (fresh_volume k c lb bs thin) = Some k"
    by (simp_all add: fresh_volume_def volume_ok_def volume_key_def vs_volume_id_def)
qed

lemma create_volume_effect:
  assumes ok: "blk_ok_state st" and run: "create_volume st k c lb bs thin = (st', res)"
  shows "blk_ok_state st' \<and>
    (case res of
       Inr r \<Rightarrow> r = Created \<and> blk_lookup st k = None \<and>
         (\<forall>k'. blk_lookup st' k' = (if k' = k then Some (fresh_volume k c lb bs thin) else blk_lookup st k'))
     | Inl _ \<Rightarrow> st' = st)"
proof (cases "MAX_OBJECT_ID < length k \<or> list_ex (vs_matches (fnv1a64 k) k) st \<or> first_index (\<lambda>s. \<not> vs_occupied s) st = None")
  case True
  then show ?thesis using run ok by (auto simp: create_volume_def Let_def split: if_splits option.splits)
next
  case False
  then obtain i where i: "first_index (\<lambda>s. \<not> vs_occupied s) st = Some i" by auto
  have eq: "st' = st[i := fresh_volume k c lb bs thin]" "res = Inr Created"
    using run False i by (auto simp: create_volume_def fresh_volume_def Let_def split: if_splits)
  have "first_index (vs_matches (fnv1a64 k) k) st = None" using False by (auto simp: first_index_None list_ex_iff)
  then have absent: "blk_lookup st k = None" by (rule blk_scan_None [OF ok])
  have "i < length st" "volume_key (st ! i) = None" using i by (auto dest: first_index_SomeD simp: volume_key_def)
  then show ?thesis
    using blk_put [OF ok, of i _ k] fresh_volume_ok [of k] False absent eq by simp
qed

lemma unat_free_blocks:
  "volume_ok s \<Longrightarrow> unat (free_blocks s) = unat (logical_block_count s) - unat (vs_allocated_blocks s)"
  by (simp add: free_blocks_def unat_sat_sub)

lemma blk_allocate_effect:
  assumes ok: "blk_ok_state st" and run: "blk_allocate st k n = (st', res)"
  shows "blk_ok_state st' \<and>
    (case blk_lookup st k of
       None \<Rightarrow> st' = st \<and> res = Inl BlkNotPresent
     | Some s \<Rightarrow>
         if unat (vs_allocated_blocks s) + unat n \<le> unat (logical_block_count s) then
           res = Inr (Allocated (vs_allocated_blocks s) n) \<and>
           (\<forall>k'. blk_lookup st' k' =
              (if k' = k then Some (s\<lparr>vs_allocated_blocks := vs_allocated_blocks s + n\<rparr>) else blk_lookup st k')) \<and>
           unat (vs_allocated_blocks s + n) = unat (vs_allocated_blocks s) + unat n
         else st' = st \<and> res = Inl AllocationExceedsVolume)"
proof (cases "first_index (vs_matches (fnv1a64 k) k) st")
  case None
  then show ?thesis using run ok blk_scan_None [OF ok None] by (simp add: blk_allocate_def)
next
  case (Some i)
  note f = blk_scan_Some [OF ok Some]
  let ?s = "st ! i"
  have le: "unat (vs_allocated_blocks ?s) \<le> unat (logical_block_count ?s)"
    using f by (simp add: volume_ok_def word_le_nat_alt)
  have iff: "\<not> free_blocks ?s < n \<longleftrightarrow> unat (vs_allocated_blocks ?s) + unat n \<le> unat (logical_block_count ?s)"
    using f le by (auto simp: word_less_nat_alt unat_free_blocks)
  show ?thesis
  proof (cases "free_blocks ?s < n")
    case True
    then show ?thesis using run ok f iff Some by (simp add: blk_allocate_def Let_def)
  next
    case False
    then have fit: "unat (vs_allocated_blocks ?s) + unat n \<le> unat (logical_block_count ?s)" using iff by simp
    then have lt: "unat (vs_allocated_blocks ?s) + unat n < 2 ^ 64"
    proof -
      have "unat (logical_block_count ?s) < 2 ^ LENGTH(64)" by (rule unsigned_less)
      with fit show ?thesis by simp
    qed
    then have sum: "sat_add (vs_allocated_blocks ?s) n = vs_allocated_blocks ?s + n"
      "unat (vs_allocated_blocks ?s + n) = unat (vs_allocated_blocks ?s) + unat n"
      by (simp_all add: sat_add_def unat_plus_exact)
    let ?s' = "?s\<lparr>vs_allocated_blocks := vs_allocated_blocks ?s + n\<rparr>"
    have eq: "st' = st[i := ?s']" "res = Inr (Allocated (vs_allocated_blocks ?s) n)"
      using run Some False sum by (auto simp: blk_allocate_def Let_def)
    have "logical_block_count ?s' = logical_block_count ?s" by (simp add: logical_block_count_def)
    then have "volume_ok ?s'" "volume_key ?s' = Some k"
      using f fit sum by (auto simp: volume_ok_def volume_key_def vs_volume_id_def word_le_nat_alt split: if_splits)
    then show ?thesis using blk_put [OF ok, of i ?s' k] f fit eq sum by simp
  qed
qed

lemma blk_release_effect:
  assumes ok: "blk_ok_state st" and run: "blk_release st k n = (st', res)"
  shows "blk_ok_state st' \<and>
    (case blk_lookup st k of
       None \<Rightarrow> st' = st \<and> res = Inl BlkNotPresent
     | Some s \<Rightarrow>
         if n \<le> vs_allocated_blocks s then
           res = Inr (Released n) \<and>
           (\<forall>k'. blk_lookup st' k' =
              (if k' = k then Some (s\<lparr>vs_allocated_blocks := vs_allocated_blocks s - n\<rparr>) else blk_lookup st k'))
         else st' = st \<and> res = Inl ReleaseExceedsAllocated)"
proof (cases "first_index (vs_matches (fnv1a64 k) k) st")
  case None
  then show ?thesis using run ok blk_scan_None [OF ok None] by (simp add: blk_release_def)
next
  case (Some i)
  note f = blk_scan_Some [OF ok Some]
  let ?s = "st ! i"
  let ?s' = "?s\<lparr>vs_allocated_blocks := vs_allocated_blocks ?s - n\<rparr>"
  show ?thesis
  proof (cases "n \<le> vs_allocated_blocks ?s")
    case False
    then show ?thesis using run ok f Some by (auto simp: blk_release_def Let_def not_le)
  next
    case True
    have eq: "st' = st[i := ?s']" "res = Inr (Released n)"
      using run Some True by (auto simp: blk_release_def Let_def split: if_splits)
    have "vs_allocated_blocks ?s - n \<le> vs_allocated_blocks ?s"
      using True by (simp add: word_sub_le)
    moreover have "vs_allocated_blocks ?s \<le> logical_block_count ?s" using f by (simp add: volume_ok_def)
    moreover have "logical_block_count ?s' = logical_block_count ?s" by (simp add: logical_block_count_def)
    ultimately have "volume_ok ?s'" "volume_key ?s' = Some k"
      using f by (auto simp: volume_ok_def volume_key_def vs_volume_id_def split: if_splits)
    then show ?thesis using blk_put [OF ok, of i ?s' k] f True eq by simp
  qed
qed

section \<open>Runs\<close>

datatype blk_cmd = BCreate bytes u8 u64 u32 bool | BAllocate bytes u64 | BRelease bytes u64

fun blk_exec :: "blk_state \<Rightarrow> blk_cmd \<Rightarrow> blk_state \<times> (blk_error + blk_ok)" where
  "blk_exec st (BCreate k c lb bs thin) = create_volume st k c lb bs thin"
| "blk_exec st (BAllocate k n) = blk_allocate st k n"
| "blk_exec st (BRelease k n) = blk_release st k n"

fun blk_exec_all :: "blk_state \<Rightarrow> blk_cmd list \<Rightarrow> blk_state \<times> (blk_error + blk_ok) list" where
  "blk_exec_all st [] = (st, [])"
| "blk_exec_all st (c # cs) =
     (let (st1, r) = blk_exec st c; (st2, rs) = blk_exec_all st1 cs in (st2, r # rs))"

lemma blk_exec_ok: "blk_ok_state st \<Longrightarrow> blk_exec st c = (st', res) \<Longrightarrow> blk_ok_state st'"
  by (cases c) (auto dest: create_volume_effect blk_allocate_effect blk_release_effect)

lemma blk_exec_all_ok: "blk_ok_state st \<Longrightarrow> blk_exec_all st cs = (st', rs) \<Longrightarrow> blk_ok_state st'"
proof (induction cs arbitrary: st st' rs)
  case (Cons c cs)
  obtain st1 r where 1: "blk_exec st c = (st1, r)" by fastforce
  obtain st2 rs2 where 2: "blk_exec_all st1 cs = (st2, rs2)" by fastforce
  show ?case using Cons.IH [OF blk_exec_ok [OF Cons.prems(1) 1] 2] Cons.prems(2) 1 2 by simp
qed simp

lemma blk_new_ok: "blk_ok_state (blk_new n)"
  by (simp add: blk_ok_state_def blk_new_def arena_ok_replicate volume_ok_def volume_key_def empty_volume_def
      logical_block_count_def)

text \<open>No volume is ever over-allocated: after any sequence of creates, allocations and releases
  every volume's allocated blocks fit its logical size, and hence their bytes fit its bytes.\<close>

theorem blk_never_overallocated:
  assumes "blk_lookup (fst (blk_exec_all (blk_new n) cs)) k = Some s"
  shows "vs_allocated_blocks s \<le> logical_block_count s \<and>
       unat (vs_allocated_blocks s) * unat (vs_block_size s) \<le> unat (vs_logical_bytes s)"
proof -
  have ok: "blk_ok_state (fst (blk_exec_all (blk_new n) cs))"
    using blk_exec_all_ok [OF blk_new_ok] by (metis prod.collapse)
  then have le: "vs_allocated_blocks s \<le> logical_block_count s"
    using assms volumes.map_key(2) [of _ k s] by (simp add: blk_ok_state_def blk_lookup_map volume_ok_def)
  moreover have "unat (vs_allocated_blocks s) * unat (vs_block_size s) \<le> unat (vs_logical_bytes s)"
  proof (cases "vs_block_size s = 0")
    case False
    have b: "unat (ucast (vs_block_size s) :: u64) = unat (vs_block_size s)"
      by (simp add: unat_ucast_up)
    have "unat (vs_allocated_blocks s) \<le> unat (vs_logical_bytes s) div unat (vs_block_size s)"
      using le False b by (simp add: logical_block_count_def word_le_nat_alt unat_div)
    then show ?thesis
      by (meson div_times_less_eq_dividend le_trans mult_le_mono1)
  qed simp
  ultimately show ?thesis by blast
qed

definition demo_blocks :: "blk_cmd list" where
  "demo_blocks = [BCreate [5] 0 4096 512 True, BAllocate [5] 3, BAllocate [5] 5, BAllocate [5] 1, BRelease [5] 2]"

theorem blk_never_overallocated_witness:
  "snd (blk_exec_all (blk_new 1) demo_blocks) =
     [Inr Created, Inr (Allocated 0 3), Inr (Allocated 3 5), Inl AllocationExceedsVolume, Inr (Released 2)] \<and>
   (\<exists>s. blk_lookup (fst (blk_exec_all (blk_new 1) demo_blocks)) [5] = Some s \<and>
        vs_allocated_blocks s \<le> logical_block_count s)"
proof -
  have run: "snd (blk_exec_all (blk_new 1) demo_blocks) =
     [Inr Created, Inr (Allocated 0 3), Inr (Allocated 3 5), Inl AllocationExceedsVolume, Inr (Released 2)]"
    "blk_lookup (fst (blk_exec_all (blk_new 1) demo_blocks)) [5] \<noteq> None" by code_simp+
  then obtain s where s: "blk_lookup (fst (blk_exec_all (blk_new 1) demo_blocks)) [5] = Some s" by blast
  from blk_never_overallocated [OF s] run s show ?thesis by blast
qed

section \<open>Allocations do not overlap\<close>

definition allocated_of :: "blk_state \<Rightarrow> bytes \<Rightarrow> nat" where
  "allocated_of st k = (case blk_lookup st k of Some s \<Rightarrow> unat (vs_allocated_blocks s) | None \<Rightarrow> 0)"

lemma blk_exec_monotone:
  assumes ok: "blk_ok_state st" and run: "blk_exec st c = (st', res)" and c: "\<And>n. c \<noteq> BRelease k n"
  shows "allocated_of st k \<le> allocated_of st' k"
proof (cases c)
  case (BCreate k' c' lb bs thin)
  then show ?thesis using create_volume_effect [OF ok, of k' c' lb bs thin st' res] run
    by (cases res) (auto simp: allocated_of_def)
next
  case (BAllocate k' n)
  then show ?thesis using blk_allocate_effect [OF ok, of k' n st' res] run
    by (cases "blk_lookup st k'") (auto simp: allocated_of_def split: if_splits)
next
  case (BRelease k' n)
  then have "k' \<noteq> k" using c by blast
  then show ?thesis using BRelease blk_release_effect [OF ok, of k' n st' res] run
    by (cases "blk_lookup st k'") (auto simp: allocated_of_def split: if_splits)
qed

lemma blk_exec_all_monotone:
  "blk_ok_state st \<Longrightarrow> blk_exec_all st cs = (st', rs) \<Longrightarrow> (\<And>n. BRelease k n \<notin> set cs) \<Longrightarrow>
   allocated_of st k \<le> allocated_of st' k"
proof (induction cs arbitrary: st st' rs)
  case (Cons c cs)
  obtain st1 r where 1: "blk_exec st c = (st1, r)" by fastforce
  obtain st2 rs2 where 2: "blk_exec_all st1 cs = (st2, rs2)" by fastforce
  have "allocated_of st k \<le> allocated_of st1 k"
    using blk_exec_monotone [OF Cons.prems(1) 1] Cons.prems(3) by (metis list.set_intros(1))
  moreover have "allocated_of st1 k \<le> allocated_of st2 k"
    using Cons.IH [OF blk_exec_ok [OF Cons.prems(1) 1] 2] Cons.prems(3) by simp
  ultimately show ?case using Cons.prems(2) 1 2 by simp
qed simp

text \<open>C29: two allocations of a volume with no release of it between them never hand out the same
  block, whatever other operations run in between, and both ranges lie inside the volume.\<close>

theorem blk_allocations_disjoint:
  assumes "blk_allocate (fst (blk_exec_all (blk_new n) cs0)) k n1 = (st1, Inr (Allocated f1 c1))"
    and "\<And>m. BRelease k m \<notin> set cs"
    and "blk_allocate (fst (blk_exec_all st1 cs)) k n2 = (st3, Inr (Allocated f2 c2))"
  shows "unat f1 + unat c1 \<le> unat f2 \<and>
       (\<exists>s. blk_lookup st3 k = Some s \<and> unat f2 + unat c2 \<le> unat (logical_block_count s))"
proof -
  have ok0: "blk_ok_state (fst (blk_exec_all (blk_new n) cs0))"
    using blk_exec_all_ok [OF blk_new_ok] by (metis prod.collapse)
  note e1 = blk_allocate_effect [OF ok0 assms(1)]
  have a1: "allocated_of st1 k = unat f1 + unat c1"
    using e1 by (auto simp: allocated_of_def split: option.splits if_splits)
  obtain st2 rs where run: "blk_exec_all st1 cs = (st2, rs)" by fastforce
  have ok2: "blk_ok_state st2" using blk_exec_all_ok [OF _ run] e1 by blast
  have mono: "allocated_of st1 k \<le> allocated_of st2 k"
    using blk_exec_all_monotone [OF _ run assms(2)] e1 by blast
  have "blk_allocate st2 k n2 = (st3, Inr (Allocated f2 c2))" using assms(3) run by simp
  from blk_allocate_effect [OF ok2 this] obtain s where s: "blk_lookup st2 k = Some s" "f2 = vs_allocated_blocks s" "c2 = n2"
    "unat (vs_allocated_blocks s) + unat n2 \<le> unat (logical_block_count s)"
    "blk_lookup st3 k = Some (s\<lparr>vs_allocated_blocks := vs_allocated_blocks s + n2\<rparr>)"
    by (auto split: option.splits if_splits)
  then have "allocated_of st2 k = unat f2" by (simp add: allocated_of_def)
  moreover have "logical_block_count (s\<lparr>vs_allocated_blocks := vs_allocated_blocks s + n2\<rparr>) = logical_block_count s"
    by (simp add: logical_block_count_def)
  ultimately show ?thesis using a1 mono s by simp
qed

theorem blk_allocations_disjoint_witness: "unat (0 :: u64) + unat (3 :: u64) \<le> unat (3 :: u64)"
proof -
  let ?st0 = "fst (blk_exec_all (blk_new 2) [BCreate [5] 0 4096 512 True])"
  let ?a1 = "blk_allocate ?st0 [5] 3"
  let ?a2 = "blk_allocate (fst (blk_exec_all (fst ?a1) [BCreate [6] 0 4096 512 True, BAllocate [6] 2])) [5] 5"
  have r: "snd ?a1 = Inr (Allocated 0 3)" "snd ?a2 = Inr (Allocated 3 5)" by code_simp+
  have e: "?a1 = (fst ?a1, Inr (Allocated 0 3))" "?a2 = (fst ?a2, Inr (Allocated 3 5))"
    using r by (metis prod.collapse)+
  from blk_allocations_disjoint [OF e(1) _ e(2)] show ?thesis by simp
qed

end
