(* ===== verification/GF256.thy ===== *)
theory GF256
  imports Loam_Prelude
begin

text \<open>
  The byte field of \<open>modules/common/mechanics/loam_ec.rs\<close>: the exponential and logarithm tables
  built modulo \<open>0x11D\<close>, and multiplication and inversion by table. The type \<open>gf\<close> of bytes under
  exclusive-or and polynomial multiplication is shown to be a field, and the table operations
  to be its multiplication and inverse.
\<close>

unbundle bit_operations_syntax

section \<open>The tables\<close>

definition xtime16 :: "u16 \<Rightarrow> u16" where
  "xtime16 x = (let y = push_bit 1 x in if y AND 0x100 \<noteq> 0 then y XOR 0x11D else y)"

definition table_step :: "nat \<Rightarrow> u8 list \<times> u8 list \<times> u16 \<Rightarrow> u8 list \<times> u8 list \<times> u16" where
  \<comment> \<open>the body of the first loop: \<open>exp\<close>, \<open>log\<close> and the running power\<close>
  "table_step i = (\<lambda>(exp, log, x).
     (exp[i := ucast x], log[unat x := word_of_nat i], xtime16 x))"

definition build_tables :: "u8 list \<times> u8 list" where
  "build_tables =
     (let (exp, log, x) = fold table_step [0..<255] (replicate 512 0, replicate 256 0, 1)
      in (fold (\<lambda>j exp. exp[j := exp ! (j - 255)]) [255..<512] exp, log))"

definition EXP :: "u8 list" where "EXP = fst build_tables"
definition LOG :: "u8 list" where "LOG = snd build_tables"

definition gf_mul :: "u8 \<Rightarrow> u8 \<Rightarrow> u8" where
  "gf_mul a b =
     (if a = 0 \<or> b = 0 then 0 else EXP ! (unat (LOG ! unat a) + unat (LOG ! unat b)))"

definition gf_inv :: "u8 \<Rightarrow> u8" where
  "gf_inv a = EXP ! (255 - unat (LOG ! unat a))"

section \<open>Multiplication by the generator\<close>

definition xt :: "u8 \<Rightarrow> u8" where
  "xt a = push_bit 1 a XOR (if bit a 7 then 0x1D else 0)"

lemma xtime16_xt: "xtime16 (ucast a) = ucast (xt a)"
proof -
  have "all_from 256 0 (\<lambda>a. xtime16 (ucast a) = ucast (xt a))" by code_simp
  then show ?thesis by (rule all_bytes)
qed

lemma xt_xor: "xt (a XOR b) = xt a XOR xt b"
  by (simp add: xt_def bit_xor_iff xor.assoc xor.left_commute push_bit_xor)

lemma xt_zero [simp]: "xt 0 = 0"
  by (simp add: xt_def)

lemma xt_inj_zero: "xt a = 0 \<Longrightarrow> a = 0"
proof -
  have "all_from 256 0 (\<lambda>a. xt a = 0 \<longrightarrow> a = 0)" by code_simp
  then have "xt a = 0 \<longrightarrow> a = 0" by (rule all_bytes)
  then show "xt a = 0 \<Longrightarrow> a = 0" by blast
qed

lemma xt_inj: "xt a = xt b \<longleftrightarrow> a = b"
proof
  assume "xt a = xt b"
  then have "xt (a XOR b) = 0" by (simp add: xt_xor)
  then have "a XOR b = 0" by (rule xt_inj_zero)
  then have "(a XOR b) XOR b = 0 XOR b" by (simp only:)
  then show "a = b" by (simp only: xor.assoc xor_self_eq xor.right_neutral xor.left_neutral)
qed simp

definition gen_pow :: "nat \<Rightarrow> u8" where
  "gen_pow n = (xt ^^ n) 1"

lemma gen_pow_Suc: "gen_pow (Suc n) = xt (gen_pow n)"
  by (simp add: gen_pow_def)

lemma xt_pow_inj: "(xt ^^ n) a = (xt ^^ n) b \<longleftrightarrow> a = b"
  by (induction n) (simp_all add: xt_inj)

lemma gen_pow_nonzero: "gen_pow n \<noteq> 0"
proof (induction n)
  case (Suc n)
  then show ?case using xt_inj_zero by (auto simp: gen_pow_Suc)
qed (simp add: gen_pow_def)

fun iter_xt :: "nat \<Rightarrow> u8 \<Rightarrow> u8 list" where
  "iter_xt 0 a = []"
| "iter_xt (Suc n) a = a # iter_xt n (xt a)"

lemma iter_xt_pow: "iter_xt n ((xt ^^ i) a) = map (\<lambda>j. (xt ^^ (i + j)) a) [0..<n]"
proof (induction n arbitrary: i)
  case (Suc n)
  have "iter_xt n ((xt ^^ Suc i) a) = map (\<lambda>j. (xt ^^ (Suc i + j)) a) [0..<n]" by (rule Suc.IH)
  then show ?case
    by (simp del: upt_Suc add: upt_conv_Cons map_Suc_upt [symmetric] comp_def)
qed simp

lemma gen_order_eval: "list_all (\<lambda>v. v \<noteq> 1) (iter_xt 254 2) \<and> iter_xt 1 (last (iter_xt 255 2)) = [1]"
  by code_simp

lemma gen_pow_255: "gen_pow 255 = 1"
  and gen_pow_ne_1: "0 < d \<Longrightarrow> d < 255 \<Longrightarrow> gen_pow d \<noteq> 1"
proof -
  have two: "(2 :: u8) = (xt ^^ 1) 1" by (simp add: xt_def)
  have it: "iter_xt n 2 = map (\<lambda>j. gen_pow (Suc j)) [0..<n]" for n
    unfolding two iter_xt_pow by (simp add: gen_pow_def)
  have "last (map (\<lambda>j. gen_pow (Suc j)) [0..<255]) = gen_pow 255" by (simp add: last_conv_nth)
  then show "gen_pow 255 = 1" using gen_order_eval unfolding it by simp
  assume d: "0 < d" "d < 255"
  have "\<forall>j < 254. gen_pow (Suc j) \<noteq> 1"
    using gen_order_eval unfolding it by (simp add: list_all_length)
  then show "gen_pow d \<noteq> 1" using d by (cases d) auto
qed

lemma gen_pow_eq_iff:
  assumes "i < 255" "j < 255"
  shows "gen_pow i = gen_pow j \<longleftrightarrow> i = j"
proof -
  have ne: "gen_pow i \<noteq> gen_pow j" if ij: "i < j" "j < 255" for i j
  proof
    assume "gen_pow i = gen_pow j"
    then have "(xt ^^ i) 1 = (xt ^^ i) ((xt ^^ (j - i)) 1)"
      using ij(1) by (simp add: gen_pow_def flip: funpow_add comp_apply [of "xt ^^ i"])
    then have "gen_pow (j - i) = 1" by (simp add: xt_pow_inj gen_pow_def)
    then show False using gen_pow_ne_1 [of "j - i"] ij by simp
  qed
  show ?thesis using assms ne [of i j] ne [of j i] by (metis linorder_neqE_nat)
qed

lemma gen_pow_onto:
  assumes "a \<noteq> 0"
  shows "\<exists>i < 255. gen_pow i = a"
proof -
  have inj: "inj_on gen_pow {..<255}" by (auto simp: inj_on_def gen_pow_eq_iff)
  have "card (UNIV :: u8 set) = 256" by (simp add: card_word)
  then have "card (UNIV - {0 :: u8}) = 255" by (simp add: card_Diff_singleton)
  moreover have "gen_pow ` {..<255} \<subseteq> UNIV - {0}" using gen_pow_nonzero by auto
  moreover have "card (gen_pow ` {..<255}) = 255" using card_image [OF inj] by simp
  ultimately have "gen_pow ` {..<255} = UNIV - {0}"
    by (intro card_subset_eq) simp_all
  then have "a \<in> gen_pow ` {..<255}" using assms by simp
  then show ?thesis by auto
qed

section \<open>What the table builder leaves\<close>

lemma build_loop:
  assumes "n \<le> 255"
  shows "\<exists>exp log. fold table_step [0..<n]
            (replicate 512 0, replicate 256 0, 1) = (exp, log, ucast (gen_pow n)) \<and>
     length exp = 512 \<and> length log = 256 \<and> log ! 0 = 0 \<and>
     (\<forall>i < n. exp ! i = gen_pow i \<and> log ! unat (gen_pow i) = word_of_nat i)"
  using assms
proof (induction n)
  case 0
  show ?case by (simp add: gen_pow_def)
next
  case (Suc n)
  then obtain exp log where IH: "fold table_step [0..<n]
            (replicate 512 0, replicate 256 0, 1) = (exp, log, ucast (gen_pow n))"
    "length exp = 512" "length log = 256" "log ! 0 = 0"
    "\<forall>i < n. exp ! i = gen_pow i \<and> log ! unat (gen_pow i) = word_of_nat i" by auto
  have u: "unat (ucast (gen_pow n) :: u16) = unat (gen_pow n)" by (simp add: unat_ucast_up)
  have d: "ucast (ucast (gen_pow n) :: u16) = gen_pow n"
    by (rule bit_word_eqI) (simp add: bit_simps)
  show ?case
  proof (intro exI conjI allI impI)
    show "fold table_step [0..<Suc n]
            (replicate 512 0, replicate 256 0, 1)
        = (exp[n := gen_pow n], log[unat (gen_pow n) := word_of_nat n], ucast (gen_pow (Suc n)))"
      using IH(1) by (simp add: u d xtime16_xt gen_pow_Suc table_step_def)
    show "length (exp[n := gen_pow n]) = 512" "length (log[unat (gen_pow n) := word_of_nat n]) = 256"
      using IH by simp_all
    show "log[unat (gen_pow n) := word_of_nat n] ! 0 = 0"
      using IH gen_pow_nonzero [of n] by (simp add: nth_list_update unat_eq_0)
    fix i assume i: "i < Suc n"
    then have "i < 255" "n < 255" using Suc.prems by auto
    then have "unat (gen_pow i) = unat (gen_pow n) \<longleftrightarrow> i = n"
      by (simp add: gen_pow_eq_iff flip: word_unat_eq_iff)
    then show "exp[n := gen_pow n] ! i = gen_pow i"
      "log[unat (gen_pow n) := word_of_nat n] ! unat (gen_pow i) = word_of_nat i"
      using IH i Suc.prems unat_u8_less [of "gen_pow n"] by (auto simp: nth_list_update less_Suc_eq)
  qed
qed

lemma mirror_loop:
  assumes "length exp = 512" "\<forall>i < 255. exp ! i = gen_pow i" "n \<le> 257"
  shows "length (fold (\<lambda>j exp. exp[j := exp ! (j - 255)]) [255..<255 + n] exp) = 512 \<and>
    (\<forall>i < 255 + n. fold (\<lambda>j exp. exp[j := exp ! (j - 255)]) [255..<255 + n] exp ! i = gen_pow i)"
  using assms(3)
proof (induction n)
  case 0
  then show ?case using assms by simp
next
  case (Suc n)
  let ?e = "fold (\<lambda>j exp. exp[j := exp ! (j - 255)]) [255..<255 + n] exp"
  have IH: "length ?e = 512" "\<forall>i < 255 + n. ?e ! i = gen_pow i" using Suc by auto
  have "gen_pow (255 + n) = (xt ^^ n) ((xt ^^ 255) 1)"
    unfolding gen_pow_def by (subst add.commute) (simp only: funpow_add comp_apply)
  also have "\<dots> = gen_pow n" using gen_pow_255 by (simp only: gen_pow_def)
  finally have per: "gen_pow (255 + n) = gen_pow n" .
  have eq: "fold (\<lambda>j exp. exp[j := exp ! (j - 255)]) [255..<255 + Suc n] exp = ?e[255 + n := ?e ! n]"
    by (simp only: add_Suc_right upt_Suc) simp
  show ?case
    unfolding eq using IH per Suc.prems by (auto simp: nth_list_update less_Suc_eq)
qed

lemma EXP_LOG: "length EXP = 512" "i < 512 \<Longrightarrow> EXP ! i = gen_pow i"
  "i < 255 \<Longrightarrow> LOG ! unat (gen_pow i) = word_of_nat i" "LOG ! 0 = 0"
proof -
  obtain exp log where b: "fold table_step [0..<255]
            (replicate 512 0, replicate 256 0, 1) = (exp, log, ucast (gen_pow 255))"
    "length exp = 512" "length log = 256" "log ! 0 = 0"
    "\<forall>i < 255. exp ! i = gen_pow i \<and> log ! unat (gen_pow i) = word_of_nat i"
    using build_loop [of 255] by auto
  have E: "EXP = fold (\<lambda>j exp. exp[j := exp ! (j - 255)]) [255..<255 + 257] exp"
  proof -
    have "255 + 257 = (512 :: nat)" by simp
    then show ?thesis by (simp only: EXP_def build_tables_def b(1) Let_def split_conv fst_conv)
  qed
  have L: "LOG = log" by (simp only: LOG_def build_tables_def b(1) Let_def split_conv snd_conv)
  have "\<forall>i < 255. exp ! i = gen_pow i" using b(5) by blast
  note m = mirror_loop [OF b(2) this, of 257]
  show "length EXP = 512" unfolding E using m by blast
  show "EXP ! i = gen_pow i" if "i < 512"
  proof -
    have "i < 255 + 257" using that by simp
    with m show ?thesis unfolding E by blast
  qed
  show "i < 255 \<Longrightarrow> LOG ! unat (gen_pow i) = word_of_nat i" unfolding L using b(5) by blast
  show "LOG ! 0 = 0" unfolding L by (rule b(4))
qed

definition glog :: "u8 \<Rightarrow> nat" where "glog a = unat (LOG ! unat a)"

lemma glog: "a \<noteq> 0 \<Longrightarrow> glog a < 255 \<and> gen_pow (glog a) = a"
proof -
  assume "a \<noteq> 0"
  then obtain i where i: "i < 255" "gen_pow i = a" using gen_pow_onto by blast
  then have "glog a = i" using EXP_LOG(3) [OF i(1)] by (simp add: glog_def unat_of_nat_small)
  then show ?thesis using i by simp
qed

lemma gf_mul_pow: "a \<noteq> 0 \<Longrightarrow> b \<noteq> 0 \<Longrightarrow> gf_mul a b = gen_pow (glog a + glog b)"
  using glog [of a] glog [of b] EXP_LOG(2) [of "glog a + glog b"] by (simp add: gf_mul_def glog_def)

lemma gf_inv_pow: "a \<noteq> 0 \<Longrightarrow> gf_inv a = gen_pow (255 - glog a)"
  using EXP_LOG(2) [of "255 - glog a"] by (simp add: gf_inv_def glog_def)

section \<open>The field\<close>

typedef gf = "UNIV :: u8 set" morphisms byte gf by simp

lemma byte_gf [simp]: "byte (gf a) = a" by (simp add: gf_inverse)
lemma gf_byte [simp]: "gf (byte x) = x" by (rule byte_inverse)
lemma gf_eq_iff [simp]: "gf a = gf b \<longleftrightarrow> a = b" by (simp add: gf_inject)
lemma byte_eq_iff: "x = y \<longleftrightarrow> byte x = byte y" by (simp add: byte_inject)

instantiation gf :: ab_group_add
begin
definition zero_gf :: gf where "zero_gf = gf 0"
definition plus_gf :: "gf \<Rightarrow> gf \<Rightarrow> gf" where "plus_gf x y = gf (byte x XOR byte y)"
definition minus_gf :: "gf \<Rightarrow> gf \<Rightarrow> gf" where "minus_gf x y = gf (byte x XOR byte y)"
definition uminus_gf :: "gf \<Rightarrow> gf" where "uminus_gf x = (x :: gf)"
instance
  by standard (simp_all add: zero_gf_def plus_gf_def minus_gf_def uminus_gf_def byte_eq_iff ac_simps)
end

lemma gf_add: "gf a + gf b = gf (a XOR b)" by (simp add: plus_gf_def)
lemma gf_zero: "gf 0 = 0" by (simp add: zero_gf_def)
lemma byte_zero [simp]: "byte 0 = 0" by (simp add: zero_gf_def)
lemma byte_add: "byte (x + y) = byte x XOR byte y" by (simp add: plus_gf_def)
lemma gf_double [simp]: "x + x = (0 :: gf)" by (simp add: plus_gf_def zero_gf_def)
lemma gf_eq_zero [simp]: "gf a = 0 \<longleftrightarrow> a = 0" by (simp add: zero_gf_def)

lemma gf_add_eq_zero: "x + y = 0 \<longleftrightarrow> x = (y :: gf)"
  by (metis add.assoc add.right_neutral gf_double add.left_neutral)

definition gX :: "gf \<Rightarrow> gf" where "gX x = gf (xt (byte x))"

lemma gX_add: "gX (x + y) = gX x + gX y"
  by (simp add: gX_def plus_gf_def xt_xor)

lemma gX_zero [simp]: "gX 0 = 0" by (simp add: gX_def zero_gf_def)

lemma gX_pow_add: "(gX ^^ n) (x + y) = (gX ^^ n) x + (gX ^^ n) y"
  by (induction n) (simp_all add: gX_add)

lemma gX_pow_zero [simp]: "(gX ^^ n) 0 = 0"
  by (induction n) simp_all

lemma gX_pow_sum: "finite A \<Longrightarrow> (gX ^^ n) (\<Sum>i \<in> A. f i) = (\<Sum>i \<in> A. (gX ^^ n) (f i))"
  by (induction A rule: finite_induct) (simp_all add: gX_pow_add)

lemma gX_pow_gf: "(gX ^^ n) (gf a) = gf ((xt ^^ n) a)"
  by (induction n) (simp_all add: gX_def)

text \<open>Multiplication as the definition of polynomial product has it: \<open>b\<close>'s bits select multiples of \<open>a\<close>.\<close>

definition gmul :: "gf \<Rightarrow> gf \<Rightarrow> gf" where
  "gmul a b = (\<Sum>i<8. if bit (byte b) i then (gX ^^ i) a else 0)"

lemma gmul_add_left: "gmul (a + a') b = gmul a b + gmul a' b"
  unfolding gmul_def sum.distrib [symmetric] by (intro sum.cong) (auto simp: gX_pow_add)

lemma gmul_add_right: "gmul a (b + b') = gmul a b + gmul a b'"
  unfolding gmul_def sum.distrib [symmetric]
  by (intro sum.cong) (auto simp: byte_add bit_xor_iff)

lemma gmul_zero [simp]: "gmul 0 b = 0" "gmul a 0 = 0"
  by (simp_all add: gmul_def cong: if_cong)

lemma gmul_sum_left: "finite A \<Longrightarrow> gmul (\<Sum>i \<in> A. f i) b = (\<Sum>i \<in> A. gmul (f i) b)"
  by (induction A rule: finite_induct) (simp_all add: gmul_add_left)

lemma gmul_sum_right: "finite A \<Longrightarrow> gmul a (\<Sum>i \<in> A. f i) = (\<Sum>i \<in> A. gmul a (f i))"
  by (induction A rule: finite_induct) (simp_all add: gmul_add_right)

lemma gX_comm: "(gX ^^ n) ((gX ^^ i) a) = (gX ^^ i) ((gX ^^ n) a)"
  by (simp add: add.commute flip: comp_apply [of "gX ^^ n"] comp_apply [of "gX ^^ i"] funpow_add)

lemma gmul_pow_left: "gmul ((gX ^^ n) a) b = (gX ^^ n) (gmul a b)"
  unfolding gmul_def by (simp add: gX_pow_sum gX_comm if_distrib [of "gX ^^ n"] cong: if_cong)

lemma gX_pow_one: "(gX ^^ n) (gf 1) = gf (gen_pow n)"
  by (simp add: gX_pow_gf gen_pow_def)

lemma gen_pow_small: "i < 8 \<Longrightarrow> gen_pow i = push_bit i 1"
proof -
  have "list_all (\<lambda>i. gen_pow i = push_bit i 1) [0..<8]" by code_simp
  then show "i < 8 \<Longrightarrow> gen_pow i = push_bit i 1" by (simp add: list_all_length)
qed

lemma gmul_one_left: "gmul (gf 1) b = b"
proof -
  have "bit (byte (\<Sum>i<n. if bit (byte b) i then (gX ^^ i) (gf 1) else 0)) j \<longleftrightarrow> j < n \<and> bit (byte b) j"
    if "n \<le> 8" for n j
    using that
  proof (induction n)
    case (Suc n)
    then have p: "(gX ^^ n) (gf 1) = gf (2 ^ n)"
      by (simp add: gX_pow_one gen_pow_small push_bit_eq_mult)
    show ?case
      using Suc by (auto simp: byte_add bit_xor_iff p bit_exp_iff less_Suc_eq)
  qed simp
  note eight = this [OF order_refl]
  have "bit (byte (gmul (gf 1) b)) j = bit (byte b) j" if "j < 8" for j
    unfolding gmul_def eight using that by simp
  then have "byte (gmul (gf 1) b) = byte b" by (intro bit_word_eqI) simp
  then show ?thesis by (simp only: byte_eq_iff)
qed

lemma gX_8: "(gX ^^ 8) a = (gX ^^ 4) a + (gX ^^ 3) a + (gX ^^ 2) a + a"
proof -
  define L where "L x = (gX ^^ 8) x + (gX ^^ 4) x + (gX ^^ 3) x + (gX ^^ 2) x + x" for x
  have Ladd: "L (x + y) = L x + L y" for x y
    by (simp add: L_def gX_pow_add ac_simps)
  have Lsum: "finite A \<Longrightarrow> L (\<Sum>i \<in> A. f i) = (\<Sum>i \<in> A. L (f i))" for A and f :: "nat \<Rightarrow> gf"
    by (induction A rule: finite_induct) (simp_all add: Ladd, simp add: L_def)
  have L1: "L (gf 1) = 0"
  proof -
    have "(((gen_pow 8 XOR gen_pow 4) XOR gen_pow 3) XOR gen_pow 2) XOR 1 = 0" by code_simp
    then show ?thesis by (simp add: L_def gX_pow_one gf_add)
  qed
  have "L ((gX ^^ n) (gf 1)) = (gX ^^ n) (L (gf 1))" for n
    unfolding L_def gX_pow_add by (simp only: gX_comm [of n])
  then have Lpow: "L ((gX ^^ n) (gf 1)) = 0" for n by (simp add: L1)
  have "L (gmul (gf 1) a) = (\<Sum>i<8. L (if bit (byte a) i then (gX ^^ i) (gf 1) else 0))"
    unfolding gmul_def by (rule Lsum) simp
  also have "\<dots> = 0" by (intro sum.neutral) (auto simp: Lpow, simp add: L_def)
  finally have "L a = 0" by (simp add: gmul_one_left)
  then have "(gX ^^ 8) a + ((gX ^^ 4) a + (gX ^^ 3) a + (gX ^^ 2) a + a) = 0" by (simp add: L_def add.assoc)
  then show ?thesis unfolding gf_add_eq_zero .
qed

lemma sum_shift0: "f 0 = 0 \<Longrightarrow> (\<Sum>i<Suc n. f i) = (\<Sum>i<n. f (Suc i))" for f :: "nat \<Rightarrow> gf"
  by (induction n) simp_all

lemma gmul_gX_right: "gmul a (gX b) = gX (gmul a b)"
proof -
  let ?c = "\<lambda>i x. if bit (byte b) i then x else (0 :: gf)"
  have red: "gmul a (gf (if bit (byte b) 7 then 0x1D else 0)) = ?c 7 ((gX ^^ 4) a + (gX ^^ 3) a + (gX ^^ 2) a + a)"
  proof -
    have "gmul a (gf 0x1D) = a + (gX ^^ 2) a + (gX ^^ 3) a + (gX ^^ 4) a"
    proof -
      have s8: "(\<Sum>i<8. f i) = f 0 + f 1 + f 2 + f 3 + f 4 + f 5 + f 6 + f 7" for f :: "nat \<Rightarrow> gf"
        by (simp add: eval_nat_numeral)
      have "map (bit (0x1D :: u8)) [0, 1, 2, 3, 4, 5, 6, 7] = [True, False, True, True, True, False, False, False]"
        by code_simp
      then show ?thesis unfolding gmul_def s8 by simp
    qed
    then show ?thesis by (simp add: ac_simps gf_zero)
  qed
  have shift: "gmul a (gf (push_bit 1 (byte b))) = (\<Sum>i<7. ?c i ((gX ^^ Suc i) a))"
  proof -
    have "gmul a (gf (push_bit 1 (byte b))) = (\<Sum>i<Suc 7. if 0 < i \<and> bit (byte b) (i - 1) then (gX ^^ i) a else 0)"
    proof -
      have pb: "bit (push_bit 1 w) i \<longleftrightarrow> 0 < i \<and> bit w (i - 1)" if "i < 8" for i and w :: u8
        using that by (simp only: bit_push_bit_iff possible_bit_word One_nat_def) auto
      show ?thesis
        unfolding gmul_def byte_gf by (intro sum.cong) (simp_all only: pb lessThan_iff, simp)
    qed
    also have "\<dots> = (\<Sum>i<7. ?c i ((gX ^^ Suc i) a))"
      by (subst sum_shift0) (simp_all only: zero_less_Suc diff_Suc_1 simp_thms less_irrefl if_False)
    finally show ?thesis .
  qed
  have "gX b = gf (push_bit 1 (byte b)) + gf (if bit (byte b) 7 then 0x1D else 0)"
    by (simp add: gX_def xt_def gf_add)
  then have "gmul a (gX b) = (\<Sum>i<7. ?c i ((gX ^^ Suc i) a)) + ?c 7 ((gX ^^ 8) a)"
    by (simp only: gmul_add_right red shift gX_8)
  also have "\<dots> = (\<Sum>i<8. ?c i ((gX ^^ Suc i) a))"
  proof -
    have e: "8 = Suc 7" by simp
    show ?thesis by (simp only: e sum.lessThan_Suc)
  qed
  also have "\<dots> = gX (gmul a b)"
    unfolding gmul_def using gX_pow_sum [of "{..<8}" 1 "\<lambda>i. ?c i ((gX ^^ i) a)"]
    by (simp add: if_distrib [of gX] cong: if_cong)
  finally show ?thesis .
qed

lemma gmul_pow_right: "gmul a ((gX ^^ n) b) = (gX ^^ n) (gmul a b)"
  by (induction n) (simp_all add: gmul_gX_right)

lemma gmul_comm: "gmul a b = gmul b a"
proof -
  have *: "gmul (gmul (gf 1) a) b = (\<Sum>i<8. if bit (byte a) i then (gX ^^ i) (gmul (gf 1) b) else 0)" for a b
    unfolding gmul_def [of "gf 1" a]
    by (simp add: gmul_sum_left gmul_pow_left if_distrib [of "\<lambda>x. gmul x b"] cong: if_cong)
  have "gmul a b = (\<Sum>i<8. if bit (byte a) i then (gX ^^ i) b else 0)"
    using * [of a b] by (simp add: gmul_one_left cong: if_cong)
  then show ?thesis by (simp add: gmul_def)
qed

lemma gmul_assoc: "gmul (gmul a b) c = gmul a (gmul b c)"
proof -
  have "gmul a (gmul b c) = (\<Sum>i<8. gmul a (if bit (byte c) i then (gX ^^ i) b else 0))"
    unfolding gmul_def [of b c] by (rule gmul_sum_right) simp
  also have "\<dots> = (\<Sum>i<8. if bit (byte c) i then (gX ^^ i) (gmul a b) else 0)"
    by (intro sum.cong) (simp_all add: gmul_pow_right)
  finally show ?thesis by (simp only: gmul_def [of "gmul a b" c])
qed

lemma gmul_pows: "gmul (gf (gen_pow i)) (gf (gen_pow j)) = gf (gen_pow (i + j))"
proof -
  have "gmul ((gX ^^ i) (gf 1)) ((gX ^^ j) (gf 1)) = (gX ^^ i) ((gX ^^ j) (gf 1))"
    by (simp add: gmul_pow_left gmul_one_left)
  also have "\<dots> = (gX ^^ (i + j)) (gf 1)" by (simp add: funpow_add)
  finally show ?thesis by (simp add: gX_pow_one)
qed

instantiation gf :: field
begin
definition one_gf :: gf where "one_gf = gf 1"
definition times_gf :: "gf \<Rightarrow> gf \<Rightarrow> gf" where "times_gf = gmul"
definition inverse_gf :: "gf \<Rightarrow> gf" where "inverse_gf x = (if x = 0 then 0 else gf (gf_inv (byte x)))"
definition divide_gf :: "gf \<Rightarrow> gf \<Rightarrow> gf" where "divide_gf x y = x * inverse (y :: gf)"
instance
proof
  fix a b c :: gf
  show "a * b * c = a * (b * c)" by (simp add: times_gf_def gmul_assoc)
  show "a * b = b * a" unfolding times_gf_def by (rule gmul_comm)
  show "1 * a = a" by (simp add: times_gf_def one_gf_def gmul_one_left)
  show "(a + b) * c = a * c + b * c" by (simp add: times_gf_def gmul_add_left)
  show "(0 :: gf) \<noteq> 1" by (simp add: one_gf_def zero_gf_def)
  show "inverse (0 :: gf) = 0" by (simp add: inverse_gf_def)
  show "a div b = a * inverse b" by (simp add: divide_gf_def)
  assume "a \<noteq> 0"
  then have nz: "byte a \<noteq> 0" by (metis gf_byte gf_zero)
  have "inverse a * a = gmul (gf (gen_pow (255 - glog (byte a)))) (gf (gen_pow (glog (byte a))))"
    using \<open>a \<noteq> 0\<close> nz glog [OF nz] by (simp add: inverse_gf_def times_gf_def gf_inv_pow)
  also have "\<dots> = gf (gen_pow 255)" 
  proof -
    have "255 - glog (byte a) + glog (byte a) = 255" using glog [OF nz] by simp
    then show ?thesis by (simp only: gmul_pows)
  qed
  finally show "inverse a * a = 1" by (simp add: gen_pow_255 one_gf_def)
qed
end

text \<open>The byte operations are the field's.\<close>

lemma gf_mul_field: "gf (gf_mul a b) = gf a * gf b"
proof (cases "a = 0 \<or> b = 0")
  case True
  then show ?thesis by (auto simp: gf_mul_def gf_zero)
next
  case False
  then show ?thesis
    using gmul_pows [of "glog a" "glog b"] glog [of a] glog [of b] by (simp add: gf_mul_pow times_gf_def)
qed

lemma gf_inv_field: "a \<noteq> 0 \<Longrightarrow> gf (gf_inv a) = inverse (gf a)"
  by (simp add: inverse_gf_def)

lemma gf_one: "gf 1 = 1" by (simp add: one_gf_def)

lemma gf_minus: "x - y = x + (y :: gf)" by (simp add: minus_gf_def plus_gf_def)

lemmas gf_bytes = gf_add [symmetric] gf_mul_field gf_zero gf_one

section \<open>Evaluation without the tables\<close>

text \<open>
  Rebuilding the tables at every product would make evaluation hopeless, so the
  code equations compute in the field: shift-and-add products, and the inverse as
  the 254th power.
\<close>

fun shift_add :: "nat \<Rightarrow> nat \<Rightarrow> u8 \<Rightarrow> u8 \<Rightarrow> u8" where
  "shift_add 0 i a b = 0"
| "shift_add (Suc n) i a b = (if bit b i then a else 0) XOR shift_add n (Suc i) (xt a) b"

lemma shift_add_sum:
  "gf (shift_add n i ((xt ^^ i) a) b) = (\<Sum>j\<in>{i..<i + n}. if bit b j then (gX ^^ j) (gf a) else 0)"
proof (induction n arbitrary: i)
  case (Suc n)
  have "gf (shift_add n (Suc i) ((xt ^^ Suc i) a) b) = (\<Sum>j\<in>{Suc i..<Suc i + n}. if bit b j then (gX ^^ j) (gf a) else 0)"
    by (rule Suc.IH)
  moreover have "{i..<i + Suc n} = insert i {Suc i..<Suc i + n}" by auto
  ultimately show ?case by (simp add: gf_add [symmetric] gX_pow_gf gf_zero)
qed (simp add: gf_zero)

text \<open>The first argument stops the rewriting until the operands are known.\<close>

fun shift_add_at :: "bool \<Rightarrow> u8 \<Rightarrow> u8 \<Rightarrow> u8" where
  "shift_add_at True a b = 0"
| "shift_add_at False a b = shift_add 8 0 a b"

lemma gf_mul_shift_add: "gf_mul a b = shift_add 8 0 a b"
proof -
  have "gf (shift_add 8 0 a b) = gmul (gf a) (gf b)"
    using shift_add_sum [of 8 0 a b] by (simp add: gmul_def atLeast0LessThan)
  also have "\<dots> = gf (gf_mul a b)" by (simp add: gf_mul_field times_gf_def)
  finally show ?thesis by simp
qed

lemma gf_mul_code [code]: "gf_mul a b = shift_add_at (a = 0 \<or> b = 0) a b"
  by (cases "a = 0 \<or> b = 0") (auto simp: gf_mul_def simp flip: gf_mul_shift_add)

lemma gen_pow_power: "gf (gen_pow i) ^ n = gf (gen_pow (i * n))"
proof (induction n)
  case (Suc n)
  then show ?case using gmul_pows [of i "i * n"] by (simp add: times_gf_def)
qed (simp add: one_gf_def gen_pow_def)

lemma gf_fermat:
  assumes "a \<noteq> 0"
  shows "gf a ^ 255 = 1"
proof -
  have "gf a ^ 255 = gf (gen_pow (glog a * 255))"
    using glog [OF assms] gen_pow_power [of "glog a" 255] by simp
  also have "\<dots> = gf (gen_pow 255) ^ glog a" by (simp only: gen_pow_power mult.commute)
  finally show ?thesis by (simp add: gen_pow_255 gf_one)
qed

fun power_chain :: "nat \<Rightarrow> u8 \<Rightarrow> u8" where
  "power_chain 0 x = 1"
| "power_chain (Suc n) x = (let y = gf_mul x x in gf_mul y (power_chain n y))"

lemma power_chain: "gf (power_chain n x) = gf x ^ (2 * (2 ^ n - 1))"
proof (induction n arbitrary: x)
  case (Suc n)
  have e: "2 * (2 ^ Suc n - 1) = 2 + 2 * (2 * (2 ^ n - 1 :: nat))"
    using one_le_power [of "2 :: nat" n] by (simp only: power_Suc) linarith
  have "gf (power_chain (Suc n) x) = gf x * gf x * (gf x * gf x) ^ (2 * (2 ^ n - 1))"
    by (simp add: Let_def gf_mul_field Suc.IH)
  also have "\<dots> = gf x ^ (2 + 2 * (2 * (2 ^ n - 1)))"
    by (simp only: power_add power_mult power2_eq_square)
  finally show ?case by (simp only: e)
qed (simp add: gf_one)

fun power_chain_at :: "bool \<Rightarrow> u8 \<Rightarrow> u8" where
  "power_chain_at True a = 1"
| "power_chain_at False a = power_chain 7 a"

lemma gf_inv_code [code]: "gf_inv a = power_chain_at (a = 0) a"
proof (cases "a = 0")
  case True
  then show ?thesis using EXP_LOG(2) [of 255] EXP_LOG(4) by (simp add: gf_inv_def gen_pow_255)
next
  case False
  have "gf (gf_inv a) = inverse (gf a)" by (rule gf_inv_field [OF False])
  also have "\<dots> = gf a ^ 254"
  proof (rule inverse_unique)
    have "gf a * gf a ^ 254 = gf a ^ Suc 254" by (simp only: power_Suc)
    then show "gf a * gf a ^ 254 = 1" using gf_fermat [OF False] by simp
  qed
  also have "\<dots> = gf (power_chain 7 a)" by (simp add: power_chain)
  finally show ?thesis using False by simp
qed

end
