(* ===== verification/Linear_Algebra.thy ===== *)
theory Linear_Algebra
  imports Loam_Prelude
begin

text \<open>
  The algebra behind the erasure code, over any field: a Cauchy matrix has a
  trivial kernel, and the three row operations of Gauss-Jordan elimination keep
  a matrix's kernel and the product with the original matrix.  Matrices are
  functions of a row and a column, of which the leading n by n block counts.
\<close>

section \<open>Kernels and products\<close>

definition kernel_trivial :: "nat \<Rightarrow> (nat \<Rightarrow> nat \<Rightarrow> 'a::field) \<Rightarrow> bool" where
  "kernel_trivial n A \<longleftrightarrow>
     (\<forall>v. (\<forall>r<n. (\<Sum>c<n. A r c * v c) = 0) \<longrightarrow> (\<forall>c<n. v c = 0))"

definition is_product :: "nat \<Rightarrow> (nat \<Rightarrow> nat \<Rightarrow> 'a::field) \<Rightarrow> (nat \<Rightarrow> nat \<Rightarrow> 'a) \<Rightarrow> (nat \<Rightarrow> nat \<Rightarrow> 'a) \<Rightarrow> bool" where
  "is_product n B M A \<longleftrightarrow> (\<forall>r<n. \<forall>c<n. (\<Sum>t<n. B r t * M t c) = A r c)"

text \<open>The first columns of a matrix are those of the identity.\<close>

definition unit_cols :: "nat \<Rightarrow> nat \<Rightarrow> (nat \<Rightarrow> nat \<Rightarrow> 'a::field) \<Rightarrow> bool" where
  "unit_cols n k A \<longleftrightarrow> (\<forall>r<n. \<forall>c<k. A r c = (if r = c then 1 else 0))"

lemma kernel_trivialD:
  assumes "kernel_trivial n A" "\<And>r. r < n \<Longrightarrow> (\<Sum>c<n. A r c * v c) = 0" "c < n"
  shows "v c = 0"
  using assms by (auto simp: kernel_trivial_def)

lemma kernel_trivial_cong:
  assumes "\<And>r c. r < n \<Longrightarrow> c < n \<Longrightarrow> A r c = A' r c"
  shows "kernel_trivial n A = kernel_trivial n A'"
proof -
  have "(\<Sum>c<n. A r c * v c) = (\<Sum>c<n. A' r c * v c)" if "r < n" for r v
    using assms that by (intro sum.cong) auto
  then show ?thesis by (simp add: kernel_trivial_def)
qed

lemma pivot_exists:
  assumes ker: "kernel_trivial n A" and cols: "unit_cols n k A" and k: "k < n"
  shows "\<exists>r. k \<le> r \<and> r < n \<and> A r k \<noteq> 0"
proof (rule ccontr)
  assume none: "\<not> ?thesis"
  define v where "v c = (if c < k then - A c k else if c = k then 1 else 0)" for c
  have "(\<Sum>c<n. A r c * v c) = 0" if r: "r < n" for r
  proof -
    have "(\<Sum>c<n. A r c * v c) = (\<Sum>c\<in>{..<k} \<union> {k}. A r c * v c)"
      using k by (intro sum.mono_neutral_right) (auto simp: v_def)
    also have "\<dots> = (\<Sum>c<k. A r c * v c) + A r k * v k"
      by (subst sum.union_disjoint) auto
    also have "(\<Sum>c<k. A r c * v c) = (\<Sum>c<k. if r = c then v c else 0)"
      using cols r by (intro sum.cong) (auto simp: unit_cols_def)
    also have "\<dots> = (if r < k then v r else 0)" by simp
    also have "\<dots> + A r k * v k = 0" using none r by (auto simp: v_def not_less)
    finally show ?thesis .
  qed
  from kernel_trivialD [OF ker this k] show False by (simp add: v_def)
qed

section \<open>Row operations\<close>

definition swap_rows :: "nat \<Rightarrow> nat \<Rightarrow> (nat \<Rightarrow> nat \<Rightarrow> 'a) \<Rightarrow> nat \<Rightarrow> nat \<Rightarrow> 'a" where
  "swap_rows p q A = (\<lambda>r. A (if r = p then q else if r = q then p else r))"

definition scale_row :: "nat \<Rightarrow> 'a::field \<Rightarrow> (nat \<Rightarrow> nat \<Rightarrow> 'a) \<Rightarrow> nat \<Rightarrow> nat \<Rightarrow> 'a" where
  "scale_row q s A = (\<lambda>r c. if r = q then A r c * s else A r c)"

definition clear_rows :: "nat \<Rightarrow> (nat \<Rightarrow> 'a::field) \<Rightarrow> (nat \<Rightarrow> nat \<Rightarrow> 'a) \<Rightarrow> nat \<Rightarrow> nat \<Rightarrow> 'a" where
  "clear_rows q f A = (\<lambda>r c. if r = q then A r c else A r c - f r * A q c)"

lemma product_swap:
  assumes "is_product n B M A" "p < n" "q < n"
  shows "is_product n (swap_rows p q B) M (swap_rows p q A)"
  using assms by (auto simp: is_product_def swap_rows_def)

lemma product_scale:
  assumes "is_product n B M A"
  shows "is_product n (scale_row q s B) M (scale_row q s A)"
  unfolding is_product_def
proof (intro allI impI)
  fix r c assume rc: "r < n" "c < n"
  have "(\<Sum>t<n. B r t * s * M t c) = (\<Sum>t<n. B r t * M t c) * s"
    unfolding sum_distrib_right by (simp add: ac_simps)
  then show "(\<Sum>t<n. scale_row q s B r t * M t c) = scale_row q s A r c"
    using assms rc by (auto simp: is_product_def scale_row_def)
qed

lemma product_clear:
  assumes "is_product n B M A" "q < n"
  shows "is_product n (clear_rows q f B) M (clear_rows q f A)"
  unfolding is_product_def
proof (intro allI impI)
  fix r c assume rc: "r < n" "c < n"
  have "(\<Sum>t<n. (B r t - f r * B q t) * M t c) = (\<Sum>t<n. B r t * M t c) - f r * (\<Sum>t<n. B q t * M t c)"
    by (simp add: sum_distrib_left sum_subtractf algebra_simps)
  then show "(\<Sum>t<n. clear_rows q f B r t * M t c) = clear_rows q f A r c"
    using assms rc by (auto simp: is_product_def clear_rows_def)
qed

lemma kernel_swap:
  assumes ker: "kernel_trivial n A" and "p < n" "q < n"
  shows "kernel_trivial n (swap_rows p q A)"
  unfolding kernel_trivial_def
proof (intro allI impI)
  fix v c
  assume z: "\<forall>r<n. (\<Sum>c<n. swap_rows p q A r c * v c) = 0" and c: "c < n"
  have "(\<Sum>c<n. A r c * v c) = 0" if "r < n" for r
    using z [rule_format, of "if r = p then q else if r = q then p else r"] that assms(2,3)
    by (cases "r = p"; cases "r = q") (auto simp: swap_rows_def)
  from kernel_trivialD [OF ker this c] show "v c = 0" .
qed

lemma kernel_scale:
  assumes ker: "kernel_trivial n A" and s: "s \<noteq> 0"
  shows "kernel_trivial n (scale_row q s A)"
  unfolding kernel_trivial_def
proof (intro allI impI)
  fix v c
  assume z: "\<forall>r<n. (\<Sum>c<n. scale_row q s A r c * v c) = 0" and c: "c < n"
  have "(\<Sum>c<n. A r c * v c) = 0" if r: "r < n" for r
  proof (cases "r = q")
    case True
    have "(\<Sum>c<n. A r c * v c) * s = (\<Sum>c<n. scale_row q s A r c * v c)"
      unfolding sum_distrib_right by (simp add: scale_row_def True ac_simps)
    then show ?thesis using z r s by simp
  next
    case False
    then show ?thesis using z [rule_format, OF r] by (simp add: scale_row_def)
  qed
  from kernel_trivialD [OF ker this c] show "v c = 0" .
qed

lemma kernel_clear:
  assumes ker: "kernel_trivial n A" and q: "q < n"
  shows "kernel_trivial n (clear_rows q f A)"
  unfolding kernel_trivial_def
proof (intro allI impI)
  fix v c
  assume z: "\<forall>r<n. (\<Sum>c<n. clear_rows q f A r c * v c) = 0" and c: "c < n"
  have zq: "(\<Sum>c<n. A q c * v c) = 0" using z [rule_format, OF q] by (simp add: clear_rows_def)
  have "(\<Sum>c<n. A r c * v c) = 0" if r: "r < n" for r
  proof (cases "r = q")
    case False
    have "(\<Sum>c<n. (A r c - f r * A q c) * v c) = (\<Sum>c<n. A r c * v c) - f r * (\<Sum>c<n. A q c * v c)"
      by (simp add: sum_distrib_left sum_subtractf algebra_simps)
    then show ?thesis using z [rule_format, OF r] False zq by (simp add: clear_rows_def)
  qed (use zq in simp)
  from kernel_trivialD [OF ker this c] show "v c = 0" .
qed

text \<open>One column of the elimination makes one more column a unit column.\<close>

lemma unit_cols_step:
  assumes cols: "unit_cols n k A" and k: "k < n" and p: "k \<le> p" "p < n" and nz: "A p k \<noteq> 0"
  defines "S \<equiv> scale_row k (inverse (A p k)) (swap_rows p k A)"
  shows "unit_cols n (Suc k) (clear_rows k (\<lambda>r. S r k) S)"
  unfolding unit_cols_def
proof (intro allI impI)
  fix r c assume r: "r < n" and c: "c < Suc k"
  have U: "A r c = (if r = c then 1 else 0)" if "r < n" "c < k" for r c
    using cols that by (simp add: unit_cols_def)
  show "clear_rows k (\<lambda>r. S r k) S r c = (if r = c then 1 else 0)"
  proof (cases "c = k")
    case True
    then show ?thesis using nz by (auto simp: S_def clear_rows_def scale_row_def swap_rows_def)
  next
    case False
    then have ck: "c < k" using c by simp
    have "S k c = 0" using U [of p c] p ck by (simp add: S_def scale_row_def swap_rows_def)
    then show ?thesis using U [OF _ ck] r p ck k
      by (auto simp: S_def clear_rows_def scale_row_def swap_rows_def)
  qed
qed

section \<open>Cauchy matrices\<close>

lemma cauchy_row_step:
  fixes x x0 y y0 :: "'a::field"
  assumes "x - y \<noteq> 0" "x0 - y \<noteq> 0"
  shows "(x - y0) / (x - y) - (x0 - y0) / (x0 - y) = (x - x0) * ((y0 - y) / (x0 - y) / (x - y))"
  using assms by (simp add: divide_simps) (simp add: algebra_simps)

text \<open>
  A Cauchy matrix with at least as many rows as columns maps only the zero vector
  to zero: eliminate one column with one row, and the rest is a Cauchy matrix
  again, of the vector scaled by nonzero factors.
\<close>

lemma cauchy_kernel:
  fixes x :: "'r \<Rightarrow> 'a::field" and y :: "'c \<Rightarrow> 'a"
  assumes "finite D" "finite P" "card D \<le> card P" "inj_on x P" "inj_on y D"
    and "\<And>p i. p \<in> P \<Longrightarrow> i \<in> D \<Longrightarrow> x p - y i \<noteq> 0"
    and "\<And>p. p \<in> P \<Longrightarrow> (\<Sum>i\<in>D. v i / (x p - y i)) = 0"
  shows "\<forall>i\<in>D. v i = 0"
  using assms
proof (induction D arbitrary: P v rule: finite_induct)
  case (insert i0 D)
  then have "card P \<noteq> 0" by auto
  then obtain p0 where p0: "p0 \<in> P" by fastforce
  have nz: "x p - y i \<noteq> 0" if "p \<in> P" "i \<in> insert i0 D" for p i using insert.prems(5) that .
  have row: "v i0 / (x p - y i0) + (\<Sum>i\<in>D. v i / (x p - y i)) = 0" if "p \<in> P" for p
    using insert.prems(6) [OF that] insert.hyps by simp
  define w where "w i = v i * ((y i0 - y i) / (x p0 - y i))" for i
  have "\<forall>i\<in>D. w i = 0"
  proof (rule insert.IH [of "P - {p0}"])
    show "(\<Sum>i\<in>D. w i / (x p - y i)) = 0" if p: "p \<in> P - {p0}" for p
    proof -
      have pP: "p \<in> P" using p by simp
      have ne: "x p - x p0 \<noteq> 0" using p p0 insert.prems(3) by (auto dest: inj_onD)
      have a: "(x p - y i0) * (\<Sum>i\<in>D. v i / (x p - y i)) = - v i0"
        using row [OF pP] nz [OF pP] by (simp add: divide_simps add_eq_0_iff algebra_simps split: if_splits)
      have b: "(x p0 - y i0) * (\<Sum>i\<in>D. v i / (x p0 - y i)) = - v i0"
        using row [OF p0] nz [OF p0] by (simp add: divide_simps add_eq_0_iff algebra_simps split: if_splits)
      have "(x p - x p0) * (\<Sum>i\<in>D. w i / (x p - y i))
          = (\<Sum>i\<in>D. v i * ((x p - y i0) / (x p - y i) - (x p0 - y i0) / (x p0 - y i)))"
        unfolding sum_distrib_left
      proof (rule sum.cong [OF refl])
        fix i assume "i \<in> D"
        then show "(x p - x p0) * (w i / (x p - y i))
            = v i * ((x p - y i0) / (x p - y i) - (x p0 - y i0) / (x p0 - y i))"
          using cauchy_row_step [of "x p" "y i" "x p0" "y i0"] nz [OF pP] nz [OF p0]
          by (simp add: w_def)
      qed
      also have "\<dots> = (x p - y i0) * (\<Sum>i\<in>D. v i / (x p - y i)) - (x p0 - y i0) * (\<Sum>i\<in>D. v i / (x p0 - y i))"
        by (simp add: sum_distrib_left sum_subtractf right_diff_distrib ac_simps)
      finally show ?thesis using a b ne by simp
    qed
  qed (use insert p0 in \<open>auto simp: card_Diff_singleton_if inj_on_def\<close>)
  have D0: "v i = 0" if i: "i \<in> D" for i
  proof -
    have "y i0 - y i \<noteq> 0" using insert.prems(4) insert.hyps(2) i by (auto dest: inj_onD)
    then show ?thesis using \<open>\<forall>i\<in>D. w i = 0\<close> i nz [OF p0, of i] by (auto simp: w_def)
  qed
  then have "v i0 = 0" using row [OF p0] nz [OF p0] by simp
  then show ?case using D0 by simp
qed simp

end
