(* ===== verification/Erasure_Code.thy ===== *)
theory Erasure_Code
  imports GF256 Linear_Algebra
begin

text \<open>
  The systematic Cauchy Reed-Solomon code of \<open>mechanics/loam_ec.rs\<close>: one
  contiguous buffer of \<open>k + m\<close> shards, encoded and repaired in place.  Buffers
  are byte lists written by index, as the code writes them; a loop over a shard's
  bytes is a fold that reads the buffer it is writing.  The theory holds the
  operations; \<open>Erasure_Repair\<close> proves that repair gives back what encoding stored.
\<close>

section \<open>Parameters and errors\<close>

definition MAX_SHARDS :: nat where "MAX_SHARDS = 16"

datatype ec_error =
    BadParams
  | BufferTooSmall nat nat
  | NotEnoughShards u8 u8
  | BodyTooLarge nat nat

definition cauchy :: "u8 \<Rightarrow> u8 \<Rightarrow> u8 \<Rightarrow> u8" where
  "cauchy k j i = gf_inv ((k + j) XOR i)"

definition check_params :: "u8 \<Rightarrow> u8 \<Rightarrow> nat \<Rightarrow> bytes \<Rightarrow> ec_error + unit" where
  "check_params k m shard_len shards =
     (if k = 0 \<or> unat k + unat m > MAX_SHARDS \<or> shard_len = 0 then Inl BadParams
      else let needed = (unat k + unat m) * shard_len
           in if length shards < needed then Inl (BufferTooSmall needed (length shards))
              else Inr ())"

definition shard_len_for :: "nat \<Rightarrow> u8 \<Rightarrow> nat" where
  "shard_len_for body_len k =
     (if k = 0 then 0 else max ((body_len + unat k - 1) div unat k) 1)"

section \<open>Loops over a shard\<close>

text \<open>
  \<open>for p in 0..n { shards[base + p] = f(shards, p) }\<close>: each step sees the bytes
  the steps before it wrote.
\<close>

definition write_run :: "nat \<Rightarrow> nat \<Rightarrow> (bytes \<Rightarrow> nat \<Rightarrow> u8) \<Rightarrow> bytes \<Rightarrow> bytes" where
  "write_run base n f shards = fold (\<lambda>p s. s[base + p := f s p]) [0..<n] shards"

text \<open>For evaluation: a run over a buffer that is not known yet is left alone.\<close>

fun write_run_at :: "nat \<Rightarrow> nat \<Rightarrow> (bytes \<Rightarrow> nat \<Rightarrow> u8) \<Rightarrow> bytes \<Rightarrow> bytes" where
  "write_run_at base n f [] = fold (\<lambda>p s. s[base + p := f s p]) [0..<n] []"
| "write_run_at base n f (b # bs) = fold (\<lambda>p s. s[base + p := f s p]) [0..<n] (b # bs)"

lemma write_run_code [code]: "write_run base n f shards = write_run_at base n f shards"
  by (cases shards) (simp_all add: write_run_def)

definition mul_into :: "u8 \<Rightarrow> nat \<Rightarrow> nat \<Rightarrow> nat \<Rightarrow> bytes \<Rightarrow> bytes" where
  "mul_into c src base n = write_run base n (\<lambda>s p. s ! (base + p) XOR gf_mul c (s ! (src + p)))"

definition parity_row :: "u8 \<Rightarrow> nat \<Rightarrow> nat \<Rightarrow> bytes \<Rightarrow> bytes" where
  \<comment> \<open>parity shard \<open>j\<close> recomputed from the data shards\<close>
  "parity_row k shard_len j shards =
     (let base = (unat k + j) * shard_len;
          zeroed = write_run base shard_len (\<lambda>_ _. 0) shards
      in fold (\<lambda>i s. mul_into (cauchy k (word_of_nat j) (word_of_nat i)) (i * shard_len) base shard_len s)
           [0..<unat k] zeroed)"

section \<open>Encode and read back\<close>

definition encode :: "bytes \<Rightarrow> u8 \<Rightarrow> u8 \<Rightarrow> bytes \<Rightarrow> ec_error + nat \<times> bytes" where
  "encode body k m shards =
     (let shard_len = shard_len_for (length body) k
      in case check_params k m shard_len shards of
           Inl e \<Rightarrow> Inl e
         | Inr _ \<Rightarrow>
             if length body > unat k * shard_len then Inl (BodyTooLarge (length body) (unat k * shard_len))
             else
               let data = copy_prefix body (copy_prefix (replicate (unat k * shard_len) 0) shards)
               in Inr (shard_len, fold (parity_row k shard_len) [0..<unat m] data))"

definition body_from_shards :: "bytes \<Rightarrow> nat \<Rightarrow> u8 \<Rightarrow> nat \<Rightarrow> bytes \<Rightarrow> ec_error + bytes" where
  "body_from_shards shards shard_len k body_len out =
     (if k = 0 \<or> shard_len = 0 \<or> body_len > unat k * shard_len then Inl BadParams
      else if length shards < unat k * shard_len \<or> length out < body_len
      then Inl (BufferTooSmall body_len (min (length out) (length shards)))
      else Inr (copy_prefix (take body_len shards) out))"

section \<open>Gauss-Jordan inversion\<close>

definition identity_block :: "nat \<Rightarrow> u8 list list" where
  "identity_block n =
     map (\<lambda>i. if i < n then (replicate MAX_SHARDS 0)[i := 1] else replicate MAX_SHARDS 0) [0..<MAX_SHARDS]"

definition scale_to :: "nat \<Rightarrow> u8 \<Rightarrow> u8 list \<Rightarrow> u8 list" where
  "scale_to n s row = map (\<lambda>c. gf_mul (row ! c) s) [0..<n] @ drop n row"

definition add_multiple :: "nat \<Rightarrow> u8 \<Rightarrow> u8 list \<Rightarrow> u8 list \<Rightarrow> u8 list" where
  "add_multiple n f src row = map (\<lambda>c. row ! c XOR gf_mul f (src ! c)) [0..<n] @ drop n row"

definition clear_row :: "nat \<Rightarrow> nat \<Rightarrow> nat \<Rightarrow> u8 list list \<times> u8 list list \<Rightarrow> u8 list list \<times> u8 list list" where
  "clear_row n col r = (\<lambda>(mat, ivm).
     if r = col \<or> mat ! r ! col = 0 then (mat, ivm)
     else let f = mat ! r ! col
          in (mat[r := add_multiple n f (mat ! col) (mat ! r)],
              ivm[r := add_multiple n f (ivm ! col) (ivm ! r)]))"

definition invert_col ::
  "nat \<Rightarrow> nat \<Rightarrow> u8 list list \<times> u8 list list \<Rightarrow> ec_error + u8 list list \<times> u8 list list" where
  "invert_col n col = (\<lambda>(mat, ivm).
     case List.find (\<lambda>r. mat ! r ! col \<noteq> 0) [col..<n] of
       None \<Rightarrow> Inl BadParams
     | Some pivot \<Rightarrow>
         let (mat, ivm) = (if pivot \<noteq> col then (swap_lists pivot col mat, swap_lists pivot col ivm) else (mat, ivm));
             pinv = gf_inv (mat ! col ! col);
             mat = mat[col := scale_to n pinv (mat ! col)];
             ivm = ivm[col := scale_to n pinv (ivm ! col)]
         in Inr (fold (clear_row n col) [0..<n] (mat, ivm)))"

fun invert_cols ::
  "nat \<Rightarrow> nat list \<Rightarrow> u8 list list \<times> u8 list list \<Rightarrow> ec_error + u8 list list \<times> u8 list list" where
  "invert_cols n [] st = Inr st"
| "invert_cols n (col # cols) st =
     (case invert_col n col st of Inl e \<Rightarrow> Inl e | Inr st' \<Rightarrow> invert_cols n cols st')"

definition invert :: "u8 list list \<Rightarrow> nat \<Rightarrow> ec_error + u8 list list" where
  "invert mat n =
     (case invert_cols n [0..<n] (mat, identity_block n) of
        Inl e \<Rightarrow> Inl e
      | Inr (_, ivm) \<Rightarrow> Inr ivm)"

section \<open>Reconstruct\<close>

definition present :: "u32 \<Rightarrow> nat \<Rightarrow> bool" where
  "present present_mask s \<longleftrightarrow> present_mask AND push_bit s 1 \<noteq> 0"

definition count_ones :: "u32 \<Rightarrow> nat" where
  "count_ones w = length (filter (bit w) [0..<32])"

definition choose_basis :: "nat \<Rightarrow> u8 \<Rightarrow> u32 \<Rightarrow> u8 list \<times> nat" where
  "choose_basis total_shards k present_mask =
     fold (\<lambda>s (chosen, cnt).
         if present present_mask s \<and> cnt < unat k then (chosen[cnt := word_of_nat s], cnt + 1)
         else (chosen, cnt))
       [0..<total_shards] (replicate MAX_SHARDS 0, 0)"

definition generator_row :: "u8 \<Rightarrow> u8 \<Rightarrow> u8 list" where
  "generator_row k s =
     (if s < k then (replicate MAX_SHARDS 0)[unat s := 1]
      else fold (\<lambda>i row. row[i := cauchy k (s - k) (word_of_nat i)]) [0..<unat k] (replicate MAX_SHARDS 0))"

definition basis_matrix :: "u8 \<Rightarrow> u8 list \<Rightarrow> u8 list list" where
  "basis_matrix k chosen =
     fold (\<lambda>r mat. mat[r := generator_row k (chosen ! r)]) [0..<unat k]
       (replicate MAX_SHARDS (replicate MAX_SHARDS 0))"

definition solve_shard :: "u8 \<Rightarrow> nat \<Rightarrow> u8 list \<Rightarrow> u8 list list \<Rightarrow> nat \<Rightarrow> bytes \<Rightarrow> bytes" where
  \<comment> \<open>data shard \<open>i\<close> from the chosen ones\<close>
  "solve_shard k shard_len chosen ivm i =
     write_run (i * shard_len) shard_len (\<lambda>s p.
       fold (\<lambda>r acc. acc XOR gf_mul (ivm ! i ! r) (s ! (unat (chosen ! r) * shard_len + p))) [0..<unat k] 0)"

definition reconstruct :: "bytes \<Rightarrow> nat \<Rightarrow> u8 \<Rightarrow> u8 \<Rightarrow> u32 \<Rightarrow> ec_error + bytes" where
  "reconstruct shards shard_len k m present_mask =
     (case check_params k m shard_len shards of
        Inl e \<Rightarrow> Inl e
      | Inr _ \<Rightarrow>
          let total_shards = unat k + unat m;
              present_cnt = word_of_nat (count_ones (present_mask AND (push_bit total_shards 1 - 1))) :: u8
          in if present_cnt < k then Inl (NotEnoughShards present_cnt k)
             else
               let data_mask = push_bit (unat k) 1 - 1;
                   all_data_present = (present_mask AND data_mask = data_mask);
                   solved =
                     (if all_data_present then Inr shards
                      else
                        let chosen = fst (choose_basis total_shards k present_mask)
                        in case invert (basis_matrix k chosen) (unat k) of
                             Inl e \<Rightarrow> Inl e
                           | Inr ivm \<Rightarrow>
                               Inr (fold (\<lambda>i s. if present present_mask i then s
                                                 else solve_shard k shard_len chosen ivm i s)
                                      [0..<unat k] shards))
               in case solved of
                    Inl e \<Rightarrow> Inl e
                  | Inr shards \<Rightarrow>
                      Inr (fold (\<lambda>j s. if present present_mask (unat k + j) then s
                                        else parity_row k shard_len j s)
                             [0..<unat m] shards))"

end
