(* ===== verification/Erasure_Repair.thy ===== *)
theory Erasure_Repair
  imports Erasure_Code
begin

text \<open>
  What the erasure code promises: encoding leaves a codeword with the body in its
  data shards, and from any \<open>k\<close> of its shards repair restores every byte.  The
  loops over the buffer are described byte by byte, the inversion by its effect on
  the matrix as a function into the field.
\<close>

section \<open>Runs over the buffer\<close>

lemma length_write_run [simp]: "length (write_run base n f sh) = length sh"
proof -
  have "length (fold (\<lambda>p s. s[base + p := f s p]) ps s) = length s" for ps s
    by (induction ps arbitrary: s) simp_all
  then show ?thesis by (simp add: write_run_def)
qed

lemma write_run_nth:
  assumes len: "base + n \<le> length sh"
    and f: "\<And>s p. p < n \<Longrightarrow> length s = length sh \<Longrightarrow> (\<And>q. q < base \<or> base + p \<le> q \<Longrightarrow> s ! q = sh ! q)
              \<Longrightarrow> f s p = g p"
  shows "write_run base n f sh ! q = (if base \<le> q \<and> q < base + n then g (q - base) else sh ! q)"
proof -
  have "i \<le> n \<Longrightarrow> \<forall>q. write_run base i f sh ! q = (if base \<le> q \<and> q < base + i then g (q - base) else sh ! q)" for i
  proof (induction i)
    case (Suc i)
    let ?s = "write_run base i f sh"
    have IH: "?s ! q = (if base \<le> q \<and> q < base + i then g (q - base) else sh ! q)" for q
      using Suc by auto
    have "write_run base (Suc i) f sh = ?s[base + i := f ?s i]" by (simp add: write_run_def)
    moreover have "f ?s i = g i" using Suc.prems by (intro f) (auto simp: IH)
    ultimately show ?case using IH Suc.prems len
      by (auto simp: nth_list_update)
  qed (auto simp: write_run_def)
  then show ?thesis by blast
qed

lemma length_mul_into [simp]: "length (mul_into c src base n sh) = length sh"
  by (simp add: mul_into_def)

lemma mul_into_nth:
  assumes "base + n \<le> length sh" "src + n \<le> base"
  shows "mul_into c src base n sh ! q =
    (if base \<le> q \<and> q < base + n then sh ! q XOR gf_mul c (sh ! (src + (q - base))) else sh ! q)"
  unfolding mul_into_def
  by (subst write_run_nth [where g = "\<lambda>p. sh ! (base + p) XOR gf_mul c (sh ! (src + p))"])
     (use assms in auto)

section \<open>Parity\<close>

definition coeff :: "u8 \<Rightarrow> nat \<Rightarrow> nat \<Rightarrow> gf" where
  "coeff k j i = gf (cauchy k (word_of_nat j) (word_of_nat i))"

definition parity_value :: "u8 \<Rightarrow> nat \<Rightarrow> nat \<Rightarrow> bytes \<Rightarrow> nat \<Rightarrow> gf" where
  "parity_value k len j sh p = (\<Sum>i<unat k. coeff k j i * gf (sh ! (i * len + p)))"

lemma row_before:
  assumes "i < (a :: nat)" "p < len"
  shows "i * len + p < a * len"
proof -
  have "i * len + p < Suc i * len" using assms by simp
  also have "\<dots> \<le> a * len" using assms by (intro mult_le_mono1) simp
  finally show ?thesis .
qed

lemma row_end: "i < (a :: nat) \<Longrightarrow> i * len + len \<le> a * len"
  using mult_le_mono1 [of "Suc i" a len] by simp

lemma length_parity_row [simp]: "length (parity_row k len j sh) = length sh"
proof -
  have "length (fold (\<lambda>i s. mul_into (c i) (src i) base len s) xs s) = length s"
    for c src base s and xs :: "nat list"
    by (induction xs arbitrary: s) simp_all
  then show ?thesis by (simp add: parity_row_def Let_def)
qed

lemma parity_row_nth:
  assumes len: "(unat k + j) * len + len \<le> length sh"
  defines "base \<equiv> (unat k + j) * len"
  shows "gf (parity_row k len j sh ! q) =
    (if base \<le> q \<and> q < base + len then parity_value k len j sh (q - base) else gf (sh ! q))"
proof -
  define z where "z = write_run base len (\<lambda>_ _. 0) sh"
  have z: "z ! q = (if base \<le> q \<and> q < base + len then 0 else sh ! q)" for q
    unfolding z_def by (subst write_run_nth [where g = "\<lambda>_. 0"]) (use len in \<open>auto simp: base_def\<close>)
  define st where "st n = fold (\<lambda>i s. mul_into (cauchy k (word_of_nat j) (word_of_nat i)) (i * len) base len s) [0..<n] z" for n
  have ln: "length (st n) = length sh" for n by (induction n) (simp_all add: st_def z_def)
  have "n \<le> unat k \<Longrightarrow> \<forall>q. gf (st n ! q) =
      (if base \<le> q \<and> q < base + len then (\<Sum>i<n. coeff k j i * gf (sh ! (i * len + (q - base)))) else gf (sh ! q))" for n
  proof (induction n)
    case 0
    show ?case by (simp add: st_def z gf_zero)
  next
    case (Suc n)
    have src: "n * len + len \<le> base" unfolding base_def using Suc.prems by (intro row_end) simp
    have step: "st (Suc n) = mul_into (cauchy k (word_of_nat j) (word_of_nat n)) (n * len) base len (st n)"
      by (simp add: st_def)
    have IH: "gf (st n ! q) = (if base \<le> q \<and> q < base + len then (\<Sum>i<n. coeff k j i * gf (sh ! (i * len + (q - base)))) else gf (sh ! q))" for q
      using Suc by simp
    show ?case
    proof
      fix q
      show "gf (st (Suc n) ! q) = (if base \<le> q \<and> q < base + len then (\<Sum>i<Suc n. coeff k j i * gf (sh ! (i * len + (q - base)))) else gf (sh ! q))"
      proof (cases "base \<le> q \<and> q < base + len")
        case True
        have "gf (st n ! (n * len + (q - base))) = gf (sh ! (n * len + (q - base)))"
        proof -
          have "\<not> base \<le> n * len + (q - base)" using True src by linarith
          then show ?thesis using IH [of "n * len + (q - base)"] by (simp only: simp_thms if_False)
        qed
        then show ?thesis using True IH [of q] src len ln [of n]
          by (simp add: step mul_into_nth base_def [symmetric] gf_add [symmetric] gf_mul_field coeff_def)
      next
        case False
        then have "st (Suc n) ! q = st n ! q"
          unfolding step using src len ln [of n]
          by (subst mul_into_nth) (simp_all only: base_def [symmetric] if_False)
        then show ?thesis using IH [of q] False by (simp only: if_False)
      qed
    qed
  qed
  from this [of "unat k"] show ?thesis
    unfolding parity_row_def Let_def base_def [symmetric] z_def [symmetric] st_def [symmetric] parity_value_def by blast
qed

definition parity_ok :: "u8 \<Rightarrow> nat \<Rightarrow> nat \<Rightarrow> bytes \<Rightarrow> bool" where
  "parity_ok k len j sh \<longleftrightarrow> (\<forall>p<len. gf (sh ! ((unat k + j) * len + p)) = parity_value k len j sh p)"

definition codeword :: "u8 \<Rightarrow> u8 \<Rightarrow> nat \<Rightarrow> bytes \<Rightarrow> bool" where
  "codeword k m len sh \<longleftrightarrow> (\<forall>j<unat m. parity_ok k len j sh)"

lemma parity_value_cong:
  assumes "\<And>q. q < unat k * len \<Longrightarrow> sh ! q = sh' ! q" "p < len"
  shows "parity_value k len j sh p = parity_value k len j sh' p"
  unfolding parity_value_def using assms row_before by (intro sum.cong) auto

text \<open>The parity loop recomputes the rows it does not skip and touches nothing else.\<close>

lemma parity_rows:
  fixes skip :: "nat \<Rightarrow> bool" and k :: u8
  assumes len: "(unat k + m) * len \<le> length sh"
  defines "out \<equiv> fold (\<lambda>j s. if skip j then s else parity_row k len j s) [0..<m] sh"
  shows "length out = length sh \<and>
    (\<forall>q. (q < unat k * len \<or> (unat k + m) * len \<le> q) \<longrightarrow> out ! q = sh ! q) \<and>
    (\<forall>j<m. \<forall>p<len. gf (out ! ((unat k + j) * len + p)) =
        (if skip j then gf (sh ! ((unat k + j) * len + p)) else parity_value k len j sh p))"
  using len unfolding out_def
proof (induction m)
  case (Suc m)
  let ?s = "fold (\<lambda>j s. if skip j then s else parity_row k len j s) [0..<m] sh"
  let ?base = "(unat k + m) * len"
  have base: "?base + len \<le> length sh" using Suc.prems by simp
  then have IH: "length ?s = length sh"
      "\<And>q. q < unat k * len \<or> ?base \<le> q \<Longrightarrow> ?s ! q = sh ! q"
      "\<And>j p. j < m \<Longrightarrow> p < len \<Longrightarrow> gf (?s ! ((unat k + j) * len + p)) =
        (if skip j then gf (sh ! ((unat k + j) * len + p)) else parity_value k len j sh p)"
    using Suc.IH by auto
  have row: "gf (parity_row k len m ?s ! q) =
      (if ?base \<le> q \<and> q < ?base + len then parity_value k len m ?s (q - ?base) else gf (?s ! q))" for q
    using base IH(1) by (intro parity_row_nth) simp
  have pv: "parity_value k len m ?s p = parity_value k len m sh p" if "p < len" for p
    using IH(2) that by (intro parity_value_cong) auto
  have kb: "unat k * len \<le> ?base" by simp
  show ?case
  proof (cases "skip m")
    case True
    then show ?thesis using IH by (auto simp: less_Suc_eq)
  next
    case False
    have out: "fold (\<lambda>j s. if skip j then s else parity_row k len j s) [0..<Suc m] sh = parity_row k len m ?s"
      using False by simp
    have keep: "parity_row k len m ?s ! q = ?s ! q" if "q < ?base \<or> ?base + len \<le> q" for q
    proof -
      have "gf (parity_row k len m ?s ! q) = gf (?s ! q)" using row [of q] that by auto
      then show ?thesis by simp
    qed
    show ?thesis
      unfolding out
    proof (intro conjI allI impI)
      show "length (parity_row k len m ?s) = length sh" using IH(1) by simp
      show "parity_row k len m ?s ! q = sh ! q" if "q < unat k * len \<or> (unat k + Suc m) * len \<le> q" for q
      proof -
        have "(q < ?base \<or> ?base + len \<le> q) \<and> (q < unat k * len \<or> ?base \<le> q)"
          using that kb by (auto simp: algebra_simps)
        then show ?thesis by (elim conjE) (simp only: keep IH(2) simp_thms)
      qed
      fix j p assume j: "j < Suc m" and p: "p < len"
      show "gf (parity_row k len m ?s ! ((unat k + j) * len + p)) =
        (if skip j then gf (sh ! ((unat k + j) * len + p)) else parity_value k len j sh p)"
      proof (cases "j = m")
        case True
        then show ?thesis using row [of "?base + p"] pv p False by simp
      next
        case jm: False
        then have "(unat k + j) * len + p < ?base" using j p by (intro row_before) simp_all
        then show ?thesis using keep IH(3) [of j p] jm j p by simp
      qed
    qed
  qed
qed simp

section \<open>Encoding\<close>

lemma shard_len_covers: "k \<noteq> 0 \<Longrightarrow> n \<le> unat k * shard_len_for n k"
proof -
  assume "k \<noteq> 0"
  then have k: "0 < unat k" by (simp add: unat_gt_0)
  have "n \<le> unat k * ((n + unat k - 1) div unat k)"
  proof -
    have "n + unat k - 1 < unat k * ((n + unat k - 1) div unat k) + unat k"
      using dividend_less_div_times [OF k, of "n + unat k - 1"] by (simp add: mult.commute)
    then show ?thesis using k by linarith
  qed
  also have "\<dots> \<le> unat k * max ((n + unat k - 1) div unat k) 1" by simp
  finally show ?thesis using \<open>k \<noteq> 0\<close> by (simp add: shard_len_for_def)
qed

lemma shard_len_pos: "k \<noteq> 0 \<Longrightarrow> 0 < shard_len_for n k"
  by (simp add: shard_len_for_def)

lemma check_params_ok:
  "check_params k m len sh = Inr () \<longleftrightarrow>
     k \<noteq> 0 \<and> unat k + unat m \<le> MAX_SHARDS \<and> 0 < len \<and> (unat k + unat m) * len \<le> length sh"
  by (auto simp: check_params_def Let_def)

lemma encode_layout:
  assumes k: "k \<noteq> 0" "unat k + unat m \<le> MAX_SHARDS"
    and room: "(unat k + unat m) * shard_len_for (length body) k \<le> length sh"
  defines "len \<equiv> shard_len_for (length body) k"
  obtains out where "encode body k m sh = Inr (len, out)" "length out = length sh"
    "take (unat k * len) out = body @ replicate (unat k * len - length body) 0"
    "drop ((unat k + unat m) * len) out = drop ((unat k + unat m) * len) sh"
    "codeword k m len out"
proof -
  let ?data = "copy_prefix body (copy_prefix (replicate (unat k * len) 0) sh)"
  have cov: "length body \<le> unat k * len" unfolding len_def by (rule shard_len_covers [OF k(1)])
  have kl: "unat k * len \<le> (unat k + unat m) * len" by simp
  have room': "(unat k + unat m) * len \<le> length sh" using room by (simp only: len_def)
  with kl have klen: "unat k * len \<le> length sh" by linarith
  have ld: "length ?data = length sh" using cov klen by (simp add: copy_prefix_def)
  define out where "out = fold (parity_row k len) [0..<unat m] ?data"
  have fold_eq: "fold (parity_row k len) js s = fold (\<lambda>j s. if False then s else parity_row k len j s) js s" for js s
    by simp
  note rows = parity_rows [of k "unat m" len ?data "\<lambda>_. False", folded fold_eq, folded out_def]
  have r1: "length out = length sh" using rows room' ld by simp
  have r2: "out ! q = ?data ! q" if "q < unat k * len \<or> (unat k + unat m) * len \<le> q" for q
    using rows room' ld that by auto
  have r3: "gf (out ! ((unat k + j) * len + p)) = parity_value k len j ?data p" if "j < unat m" "p < len" for j p
    using rows room' ld that by simp
  show ?thesis
  proof (rule that [of out])
    have "check_params k m len sh = Inr ()"
      using k room' shard_len_pos [OF k(1), of "length body"] by (simp add: check_params_ok len_def)
    then show "encode body k m sh = Inr (len, out)"
      using cov by (simp add: encode_def Let_def len_def [symmetric] out_def)
    show "length out = length sh" by (rule r1)
    have "take (unat k * len) out = take (unat k * len) ?data"
      using r1 r2 ld klen by (intro nth_equalityI) auto
    also have "\<dots> = body @ replicate (unat k * len - length body) 0"
      using cov by (simp add: copy_prefix_def)
    finally show "take (unat k * len) out = body @ replicate (unat k * len - length body) 0" .
    have "drop ((unat k + unat m) * len) out = drop ((unat k + unat m) * len) ?data"
      using r1 r2 ld by (intro nth_equalityI) auto
    also have "\<dots> = drop ((unat k + unat m) * len) sh"
    proof -
      have "drop X (copy_prefix body (copy_prefix (replicate Y 0) sh)) = drop X sh"
        if "length body \<le> Y" "Y \<le> X" for X Y
        using that by (simp add: copy_prefix_def)
      from this [OF cov kl] show ?thesis .
    qed
    finally show "drop ((unat k + unat m) * len) out = drop ((unat k + unat m) * len) sh" .
    have "parity_value k len j out p = parity_value k len j ?data p" if "p < len" for j p
      using that r2 by (intro parity_value_cong) auto
    then show "codeword k m len out" unfolding codeword_def parity_ok_def using r3 by simp
  qed
qed

section \<open>Inversion\<close>

definition mx :: "u8 list list \<Rightarrow> nat \<Rightarrow> nat \<Rightarrow> gf" where
  "mx mat r c = gf (mat ! r ! c)"

definition square :: "u8 list list \<Rightarrow> bool" where
  "square mat \<longleftrightarrow> length mat = MAX_SHARDS \<and> (\<forall>r<MAX_SHARDS. length (mat ! r) = MAX_SHARDS)"

lemma square_update: "square mat \<Longrightarrow> length row = MAX_SHARDS \<Longrightarrow> square (mat[r := row])"
  by (cases "r < length mat") (auto simp: square_def nth_list_update)

lemma square_swap: "square mat \<Longrightarrow> a < MAX_SHARDS \<Longrightarrow> b < MAX_SHARDS \<Longrightarrow> square (swap_lists a b mat)"
  by (simp add: swap_lists_def square_update square_def nth_list_update)

lemma square_row [simp]: "square mat \<Longrightarrow> r < MAX_SHARDS \<Longrightarrow> length (mat ! r) = MAX_SHARDS"
  by (simp add: square_def)

lemma mx_swap:
  "square mat \<Longrightarrow> p < MAX_SHARDS \<Longrightarrow> q < MAX_SHARDS \<Longrightarrow> r < MAX_SHARDS \<Longrightarrow>
   mx (swap_lists p q mat) r c = swap_rows p q (mx mat) r c"
  by (auto simp: mx_def swap_lists_def swap_rows_def square_def nth_list_update)

lemma length_scale_to [simp]: "n \<le> length row \<Longrightarrow> length (scale_to n s row) = length row"
  by (simp add: scale_to_def)

lemma length_add_multiple [simp]: "n \<le> length row \<Longrightarrow> length (add_multiple n f src row) = length row"
  by (simp add: add_multiple_def)

lemma mx_scale:
  "square mat \<Longrightarrow> q < n \<Longrightarrow> n \<le> MAX_SHARDS \<Longrightarrow> r < n \<Longrightarrow> c < n \<Longrightarrow>
   mx (mat[q := scale_to n s (mat ! q)]) r c = scale_row q (gf s) (mx mat) r c"
  by (auto simp: mx_def scale_to_def scale_row_def square_def nth_list_update nth_append gf_mul_field)

lemma mx_add_multiple:
  "square mat \<Longrightarrow> i < n \<Longrightarrow> n \<le> MAX_SHARDS \<Longrightarrow> r < n \<Longrightarrow> c < n \<Longrightarrow>
   mx (mat[i := add_multiple n f (mat ! q) (mat ! i)]) r c =
     (if r = i then mx mat i c - gf f * mx mat q c else mx mat r c)"
  by (auto simp: mx_def add_multiple_def square_def nth_list_update nth_append gf_minus
      gf_add [symmetric] gf_mul_field)

lemma clear_rows_loop:
  assumes sq: "square A" "square B" and n: "n \<le> MAX_SHARDS" and q: "q < n" and i: "i \<le> n"
  shows "\<exists>A' B'. fold (clear_row n q) [0..<i] (A, B) = (A', B') \<and> square A' \<and> square B' \<and>
    (\<forall>r<n. \<forall>c<n. mx A' r c = (if r < i then clear_rows q (\<lambda>r. mx A r q) (mx A) r c else mx A r c)) \<and>
    (\<forall>r<n. \<forall>c<n. mx B' r c = (if r < i then clear_rows q (\<lambda>r. mx A r q) (mx B) r c else mx B r c))"
  using i
proof (induction i)
  case (Suc i)
  then obtain A' B' where IH: "fold (clear_row n q) [0..<i] (A, B) = (A', B')" "square A'" "square B'"
    and A': "\<And>r c. r < n \<Longrightarrow> c < n \<Longrightarrow> mx A' r c = (if r < i then clear_rows q (\<lambda>r. mx A r q) (mx A) r c else mx A r c)"
    and B': "\<And>r c. r < n \<Longrightarrow> c < n \<Longrightarrow> mx B' r c = (if r < i then clear_rows q (\<lambda>r. mx A r q) (mx B) r c else mx B r c)"
    by auto
  have i: "i < n" using Suc.prems by simp
  have Aq: "mx A' q c = mx A q c" "mx B' q c = mx B q c" if "c < n" for c
    using A' [OF q that] B' [OF q that] by (auto simp: clear_rows_def)
  have fi: "gf (A' ! i ! q) = mx A i q" using A' [OF i q] by (simp add: mx_def)
  have step: "fold (clear_row n q) [0..<Suc i] (A, B) = clear_row n q i (A', B')" using IH(1) by simp
  show ?case
  proof (cases "i = q \<or> A' ! i ! q = 0")
    case True
    then have "clear_row n q i (A', B') = (A', B')" by (simp add: clear_row_def)
    moreover have "clear_rows q (\<lambda>r. mx A r q) X i c = X i c" for X :: "nat \<Rightarrow> nat \<Rightarrow> gf" and c
      using True fi by (auto simp: clear_rows_def gf_zero)
    ultimately show ?thesis unfolding step using IH A' B' by (auto simp: less_Suc_eq)
  next
    case False
    let ?f = "A' ! i ! q"
    let ?A = "A'[i := add_multiple n ?f (A' ! q) (A' ! i)]"
    let ?B = "B'[i := add_multiple n ?f (B' ! q) (B' ! i)]"
    have "clear_row n q i (A', B') = (?A, ?B)" using False by (simp add: clear_row_def Let_def)
    moreover have "square ?A" "square ?B" using IH n i by (auto intro!: square_update)
    moreover have "mx ?A r c = (if r < Suc i then clear_rows q (\<lambda>r. mx A r q) (mx A) r c else mx A r c)"
      if "r < n" "c < n" for r c
      using mx_add_multiple [OF IH(2) i n that, of ?f q] A' [OF that] A' [OF i that(2)] Aq [OF that(2)] fi False
      by (auto simp: clear_rows_def)
    moreover have "mx ?B r c = (if r < Suc i then clear_rows q (\<lambda>r. mx A r q) (mx B) r c else mx B r c)"
      if "r < n" "c < n" for r c
      using mx_add_multiple [OF IH(3) i n that, of ?f q] B' [OF that] B' [OF i that(2)] Aq [OF that(2)] fi False
      by (auto simp: clear_rows_def)
    ultimately show ?thesis unfolding step by blast
  qed
qed (use sq in auto)

text \<open>The state of the elimination: the work matrix and the product matrix that makes it.\<close>

definition gj_inv :: "nat \<Rightarrow> (nat \<Rightarrow> nat \<Rightarrow> gf) \<Rightarrow> nat \<Rightarrow> u8 list list \<times> u8 list list \<Rightarrow> bool" where
  "gj_inv n M col = (\<lambda>(A, B). square A \<and> square B \<and> is_product n (mx B) M (mx A) \<and>
     unit_cols n col (mx A) \<and> kernel_trivial n (mx A))"

lemma matrix_congs:
  assumes "\<And>r c. r < n \<Longrightarrow> c < n \<Longrightarrow> A r c = A' r c"
  shows "(\<And>r c. r < n \<Longrightarrow> c < n \<Longrightarrow> B r c = B' r c) \<Longrightarrow> is_product n B M A = is_product n B' M A'"
    and "k \<le> n \<Longrightarrow> unit_cols n k A = unit_cols n k A'"
  using assms by (auto simp: is_product_def unit_cols_def)

lemma invert_col_step:
  assumes inv: "gj_inv n M q (A, B)" and q: "q < n" and n: "n \<le> MAX_SHARDS"
  shows "\<exists>st'. invert_col n q (A, B) = Inr st' \<and> gj_inv n M (Suc q) st'"
proof -
  have sq: "square A" "square B" and pr: "is_product n (mx B) M (mx A)"
    and uc: "unit_cols n q (mx A)" and ker: "kernel_trivial n (mx A)"
    using inv by (simp_all add: gj_inv_def)
  obtain r0 where "q \<le> r0" "r0 < n" "mx A r0 q \<noteq> 0" using pivot_exists [OF ker uc q] by blast
  then have "List.find (\<lambda>r. A ! r ! q \<noteq> 0) [q..<n] \<noteq> None"
    by (auto simp: find_None_iff mx_def)
  then obtain p where fp: "List.find (\<lambda>r. A ! r ! q \<noteq> 0) [q..<n] = Some p" by auto
  then have p: "q \<le> p" "p < n" and nz: "A ! p ! q \<noteq> 0"
    by (auto simp: find_Some_iff)
  define A1 where "A1 = (if p \<noteq> q then swap_lists p q A else A)"
  define B1 where "B1 = (if p \<noteq> q then swap_lists p q B else B)"
  have lim: "p < MAX_SHARDS" "q < MAX_SHARDS" using p q n by auto
  have sq1: "square A1" "square B1" using sq lim by (auto simp: A1_def B1_def square_swap)
  have sw: "mx A1 r c = swap_rows p q (mx A) r c" "mx B1 r c = swap_rows p q (mx B) r c" if "r < n" for r c
    using that sq lim n by (auto simp: A1_def B1_def mx_swap swap_rows_def)
  define s where "s = gf_inv (A1 ! q ! q)"
  have a1: "gf (A1 ! q ! q) = mx A p q" using sw(1) [OF q, of q] by (simp add: mx_def swap_rows_def)
  then have "A1 ! q ! q \<noteq> 0" using nz by (simp add: mx_def)
  then have s: "gf s = inverse (mx A p q)" "gf s \<noteq> 0" using a1 nz by (simp_all add: s_def gf_inv_field mx_def)
  define A2 where "A2 = A1[q := scale_to n s (A1 ! q)]"
  define B2 where "B2 = B1[q := scale_to n s (B1 ! q)]"
  have sq2: "square A2" "square B2" using sq1 lim n by (auto simp: A2_def B2_def intro!: square_update)
  define S where "S = scale_row q (inverse (mx A p q)) (swap_rows p q (mx A))"
  define T where "T = scale_row q (inverse (mx A p q)) (swap_rows p q (mx B))"
  have m2: "mx A2 r c = S r c" "mx B2 r c = T r c" if "r < n" "c < n" for r c
    using that mx_scale [OF sq1(1) q n that, of s] mx_scale [OF sq1(2) q n that, of s] s(1) sw
    by (auto simp: A2_def B2_def S_def T_def scale_row_def)
  obtain A3 B3 where f3: "fold (clear_row n q) [0..<n] (A2, B2) = (A3, B3)" "square A3" "square B3"
    and A3: "\<And>r c. r < n \<Longrightarrow> c < n \<Longrightarrow> mx A3 r c = clear_rows q (\<lambda>r. mx A2 r q) (mx A2) r c"
    and B3: "\<And>r c. r < n \<Longrightarrow> c < n \<Longrightarrow> mx B3 r c = clear_rows q (\<lambda>r. mx A2 r q) (mx B2) r c"
    using clear_rows_loop [OF sq2 n q order_refl] by auto
  have A3': "mx A3 r c = clear_rows q (\<lambda>r. S r q) S r c" if "r < n" "c < n" for r c
    using A3 [OF that] m2 q that by (simp add: clear_rows_def)
  have B3': "mx B3 r c = clear_rows q (\<lambda>r. S r q) T r c" if "r < n" "c < n" for r c
    using B3 [OF that] m2 q that by (simp add: clear_rows_def)
  have "is_product n (clear_rows q (\<lambda>r. S r q) T) M (clear_rows q (\<lambda>r. S r q) S)"
    unfolding S_def T_def using pr p q by (intro product_clear product_scale product_swap)
  moreover have "unit_cols n (Suc q) (clear_rows q (\<lambda>r. S r q) S)"
    unfolding S_def using nz by (intro unit_cols_step uc q p) (simp add: mx_def)
  moreover have "kernel_trivial n (clear_rows q (\<lambda>r. S r q) S)"
    unfolding S_def using ker p q s by (intro kernel_clear kernel_scale kernel_swap) simp_all
  ultimately have "gj_inv n M (Suc q) (A3, B3)"
    using f3(2,3) q matrix_congs(1) [OF A3' B3', where M = M] matrix_congs(2) [OF A3', where k = "Suc q"] kernel_trivial_cong [OF A3']
    by (simp add: gj_inv_def)
  moreover have "invert_col n q (A, B) = Inr (A3, B3)"
    using f3(1) by (simp add: invert_col_def fp Let_def A1_def B1_def A2_def B2_def s_def split: if_splits)
  ultimately show ?thesis by blast
qed

lemma invert_cols_all:
  assumes "gj_inv n M q st" "q \<le> n" "n \<le> MAX_SHARDS"
  shows "\<exists>st'. invert_cols n [q..<n] st = Inr st' \<and> gj_inv n M n st'"
  using assms
proof (induction "n - q" arbitrary: q st)
  case (Suc d)
  then have q: "q < n" by simp
  obtain A B where st: "st = (A, B)" by (cases st)
  obtain st' where s: "invert_col n q st = Inr st'" "gj_inv n M (Suc q) st'"
    using invert_col_step [OF _ q Suc.prems(3)] Suc.prems(1) unfolding st by blast
  have d: "d = n - Suc q" "Suc q \<le> n" using Suc.hyps(2) q by auto
  from Suc.hyps(1) [OF d(1) s(2) d(2) Suc.prems(3)] obtain st'' where
    "invert_cols n [Suc q..<n] st' = Inr st''" "gj_inv n M n st''" by blast
  then show ?case using s by (simp add: upt_conv_Cons q)
qed simp

lemma identity_block_mx:
  "n \<le> MAX_SHARDS \<Longrightarrow> r < n \<Longrightarrow> c < n \<Longrightarrow> mx (identity_block n) r c = (if r = c then 1 else 0)"
  by (simp add: mx_def identity_block_def gf_one gf_zero nth_list_update)

lemma invert_ok:
  assumes "square mat" "n \<le> MAX_SHARDS" "kernel_trivial n (mx mat)"
  shows "\<exists>B. invert mat n = Inr B \<and>
    (\<forall>r<n. \<forall>c<n. (\<Sum>t<n. mx B r t * mx mat t c) = (if r = c then 1 else 0))"
proof -
  have sqI: "square (identity_block n)" by (auto simp: square_def identity_block_def)
  have "is_product n (mx (identity_block n)) (mx mat) (mx mat)"
    unfolding is_product_def
  proof (intro allI impI)
    fix r c assume r: "r < n" and c: "c < n"
    have "(\<Sum>t<n. mx (identity_block n) r t * mx mat t c) = (\<Sum>t<n. if t = r then mx mat t c else 0)"
      using assms(2) r by (intro sum.cong) (auto simp: identity_block_mx)
    then show "(\<Sum>t<n. mx (identity_block n) r t * mx mat t c) = mx mat r c" using r by simp
  qed
  then have "gj_inv n (mx mat) 0 (mat, identity_block n)"
    using assms sqI by (simp add: gj_inv_def unit_cols_def)
  from invert_cols_all [OF this le0 assms(2)] obtain A B where
    st: "invert_cols n [0..<n] (mat, identity_block n) = Inr (A, B)" "gj_inv n (mx mat) n (A, B)"
    by (auto simp only: split_paired_Ex)
  have "(\<Sum>t<n. mx B r t * mx mat t c) = (if r = c then 1 else 0)" if "r < n" "c < n" for r c
  proof -
    have "(\<Sum>t<n. mx B r t * mx mat t c) = mx A r c" using st(2) that by (simp add: gj_inv_def is_product_def)
    also have "\<dots> = (if r = c then 1 else 0)" using st(2) that by (simp add: gj_inv_def unit_cols_def)
    finally show ?thesis .
  qed
  then show ?thesis using st(1) by (simp add: invert_def)
qed

section \<open>The presence mask and the basis\<close>

lemma present_bit: "s < 32 \<Longrightarrow> present w s \<longleftrightarrow> bit w s"
proof -
  assume s: "s < 32"
  have "w AND push_bit s 1 = (if bit w s then push_bit s 1 else 0)"
    using s by (intro bit_word_eqI) (auto simp: bit_simps)
  moreover have "push_bit s 1 \<noteq> (0 :: u32)"
  proof
    assume "push_bit s 1 = (0 :: u32)"
    then have "bit (push_bit s 1 :: u32) s = bit (0 :: u32) s" by (rule arg_cong)
    moreover have "bit (push_bit s 1 :: u32) s" unfolding bit_push_bit_iff using s by simp
    ultimately have "bit (0 :: u32) s" by (rule iffD1)
    then show False by simp
  qed
  ultimately show ?thesis by (cases "bit w s") (simp_all only: present_def if_True if_False simp_thms)
qed

definition held :: "u32 \<Rightarrow> nat \<Rightarrow> nat list" where
  "held w n = filter (present w) [0..<n]"

lemma low_mask_bit: "n \<le> 32 \<Longrightarrow> bit (push_bit n 1 - 1 :: u32) s \<longleftrightarrow> s < n"
proof -
  assume n: "n \<le> 32"
  have "push_bit n 1 - 1 = (mask n :: u32)" by (simp add: mask_eq_exp_minus_1 push_bit_of_1)
  then show ?thesis using n by (auto simp: bit_mask_iff)
qed

lemma count_present:
  assumes "n \<le> 32"
  shows "count_ones (w AND (push_bit n 1 - 1)) = length (held w n)"
proof -
  have "filter (bit (w AND (push_bit n 1 - 1))) [0..<32] = filter (\<lambda>s. s < n \<and> present w s) [0..<32]"
    using assms by (intro filter_cong) (auto simp: bit_and_iff low_mask_bit [simplified] present_bit simp del: upt_rec_numeral)
  also have "\<dots> = filter (\<lambda>s. s < n \<and> present w s) ([0..<n] @ [n..<32])"
    using upt_add_eq_append [of 0 n "32 - n"] assms by simp
  also have "\<dots> = filter (present w) [0..<n]"
    by (auto simp: filter_empty_conv intro!: filter_cong simp del: upt_rec_numeral)
  finally show ?thesis by (simp only: count_ones_def held_def)
qed

lemma data_mask_present:
  assumes "n \<le> 32"
  shows "(w AND (push_bit n 1 - 1) = push_bit n 1 - 1) \<longleftrightarrow> (\<forall>s<n. present w s)"
proof -
  have "(w AND (push_bit n 1 - 1) = push_bit n 1 - 1) \<longleftrightarrow> (\<forall>s. s < n \<longrightarrow> bit w s)"
    unfolding bit_eq_iff bit_and_iff low_mask_bit [OF assms] using assms by (auto dest: order_less_le_trans)
  then show ?thesis using assms by (auto simp: present_bit)
qed

lemma choose_basis_loop:
  assumes "unat k \<le> MAX_SHARDS"
  shows "fold (\<lambda>s (chosen, cnt).
         if present w s \<and> cnt < unat k then (chosen[cnt := word_of_nat s], cnt + 1) else (chosen, cnt))
       [0..<n] (replicate MAX_SHARDS 0, 0)
     = (let xs = take (unat k) (held w n) in (map word_of_nat xs @ replicate (MAX_SHARDS - length xs) 0, length xs))"
proof (induction n)
  case (Suc n)
  let ?h = "held w n"
  have h: "held w (Suc n) = (if present w n then ?h @ [n] else ?h)" by (simp add: held_def)
  consider "\<not> present w n" | "present w n" "length ?h < unat k" | "present w n" "unat k \<le> length ?h" by linarith
  then show ?case
  proof cases
    case 2
    have "length ?h < MAX_SHARDS" using 2 assms by simp
    then obtain d where d: "MAX_SHARDS - length ?h = Suc d" by (metis Suc_diff_Suc)
    then have "MAX_SHARDS - Suc (length ?h) = d" by simp
    then show ?thesis using 2 d by (simp add: Suc h list_update_append Let_def)
  qed (simp_all add: Suc h Let_def)
qed (simp add: held_def)

lemma choose_basis_nth:
  assumes "unat k \<le> length (held w n)" "unat k \<le> MAX_SHARDS" "r < unat k"
  shows "fst (choose_basis n k w) ! r = word_of_nat (held w n ! r)"
  using assms by (simp add: choose_basis_def choose_basis_loop Let_def nth_append)

text \<open>The generator: row \<open>s\<close> gives shard \<open>s\<close> from the data shards.\<close>

definition gen :: "u8 \<Rightarrow> nat \<Rightarrow> nat \<Rightarrow> gf" where
  "gen k s i = (if s < unat k then (if s = i then 1 else 0) else coeff k (s - unat k) i)"

lemma fold_list_update:
  "n \<le> length xs \<Longrightarrow> fold (\<lambda>i row. row[i := f i]) [0..<n] xs = map f [0..<n] @ drop n xs"
proof (induction n)
  case (Suc n)
  then obtain d where "drop n xs = xs ! n # drop (Suc n) xs" by (metis Cons_nth_drop_Suc Suc_le_lessD)
  then show ?case using Suc by (simp add: list_update_append)
qed simp

lemma generator_row_nth:
  assumes "i < unat k" "unat k \<le> MAX_SHARDS" "s < MAX_SHARDS"
  shows "length (generator_row k (word_of_nat s)) = MAX_SHARDS"
    and "gf (generator_row k (word_of_nat s) ! i) = gen k s i"
proof -
  have s: "unat (word_of_nat s :: u8) = s" using assms by (simp add: unat_of_nat_small MAX_SHARDS_def)
  have lt: "word_of_nat s < k \<longleftrightarrow> s < unat k" by (simp add: word_less_nat_alt s)
  have sk: "word_of_nat s - k = word_of_nat (s - unat k)" if "\<not> s < unat k"
    using that by (simp add: of_nat_diff)
  show "length (generator_row k (word_of_nat s)) = MAX_SHARDS"
    using assms by (simp add: generator_row_def fold_list_update)
  show "gf (generator_row k (word_of_nat s) ! i) = gen k s i"
  proof (cases "s < unat k")
    case True
    then show ?thesis using assms
      by (simp add: generator_row_def lt s gen_def nth_list_update gf_one gf_zero)
  next
    case False
    have "fold (\<lambda>i row. row[i := cauchy k (word_of_nat s - k) (word_of_nat i)]) [0..<unat k] (replicate MAX_SHARDS 0) ! i
        = cauchy k (word_of_nat s - k) (word_of_nat i)"
      using assms by (subst fold_list_update) (simp_all add: nth_append)
    then show ?thesis using False
      by (simp only: generator_row_def lt gen_def coeff_def sk [OF False] if_False)
  qed
qed

lemma basis_matrix_mx:
  assumes k: "unat k \<le> MAX_SHARDS"
    and B: "\<And>r. r < unat k \<Longrightarrow> B r < MAX_SHARDS \<and> chosen ! r = word_of_nat (B r)"
  shows "square (basis_matrix k chosen)"
    and "r < unat k \<Longrightarrow> c < unat k \<Longrightarrow> mx (basis_matrix k chosen) r c = gen k (B r) c"
proof -
  have bm: "basis_matrix k chosen =
      map (\<lambda>r. generator_row k (chosen ! r)) [0..<unat k] @ drop (unat k) (replicate MAX_SHARDS (replicate MAX_SHARDS 0))"
    unfolding basis_matrix_def using k by (subst fold_list_update) simp_all
  have row: "length (generator_row k (chosen ! r)) = MAX_SHARDS" if "r < unat k" for r
    using generator_row_nth(1) [OF that k] B [OF that] by simp
  show "square (basis_matrix k chosen)"
    unfolding square_def bm using k row by (auto simp: nth_append)
  show "mx (basis_matrix k chosen) r c = gen k (B r) c" if "r < unat k" "c < unat k"
    using generator_row_nth(2) [OF that(2) k] B [OF that(1)] that by (simp add: mx_def bm nth_append)
qed

lemma two_pow_8: "(256 :: nat) = 2 ^ LENGTH(8)" by simp

lemma coeff_inverse:
  assumes "unat k \<le> s" "i < unat k" "s < MAX_SHARDS"
  shows "coeff k (s - unat k) i = inverse (gf (word_of_nat s) - gf (word_of_nat i))"
    and "gf (word_of_nat s) - gf (word_of_nat i) \<noteq> 0"
proof -
  have small: "s < 2 ^ LENGTH(8)" "i < 2 ^ LENGTH(8)" using assms by (simp_all add: MAX_SHARDS_def)
  have ne: "(word_of_nat s :: u8) \<noteq> word_of_nat i"
    using assms(1,2) unat_of_nat_small [OF small(1)] unat_of_nat_small [OF small(2)] by auto
  have nz: "(word_of_nat s XOR word_of_nat i :: u8) \<noteq> 0"
  proof
    assume z: "(word_of_nat s XOR word_of_nat i :: u8) = 0"
    have "(word_of_nat s :: u8) = (word_of_nat s XOR word_of_nat i) XOR word_of_nat i"
      by (simp only: xor.assoc xor_self_eq xor.right_neutral)
    then show False using ne z by simp
  qed
  have ks: "k + word_of_nat (s - unat k) = word_of_nat s"
    using assms(1) by (simp add: of_nat_diff)
  show "coeff k (s - unat k) i = inverse (gf (word_of_nat s) - gf (word_of_nat i))"
    unfolding coeff_def cauchy_def ks gf_inv_field [OF nz] by (simp add: gf_minus gf_add)
  show "gf (word_of_nat s) - gf (word_of_nat i) \<noteq> 0"
    using nz by (simp add: gf_minus gf_add)
qed

text \<open>Any \<open>k\<close> distinct rows of the generator have a trivial kernel.\<close>

lemma basis_kernel:
  assumes inj: "inj_on B {..<unat k}" and lim: "\<And>r. r < unat k \<Longrightarrow> B r < MAX_SHARDS"
  shows "kernel_trivial (unat k) (\<lambda>r. gen k (B r))"
  unfolding kernel_trivial_def
proof (intro allI impI)
  fix v :: "nat \<Rightarrow> gf" and c
  assume z: "\<forall>r<unat k. (\<Sum>c<unat k. gen k (B r) c * v c) = 0" and c: "c < unat k"
  let ?K = "{..<unat k}"
  let ?I = "B ` ?K"
  have z': "(\<Sum>c<unat k. gen k s c * v c) = 0" if "s \<in> ?I" for s using z that by auto
  have data: "v i = 0" if "i \<in> ?I" "i < unat k" for i
  proof -
    have "(\<Sum>c<unat k. gen k i c * v c) = (\<Sum>c<unat k. if c = i then v c else 0)"
      using that by (intro sum.cong) (auto simp: gen_def)
    then show ?thesis using z' [OF that(1)] that(2) by simp
  qed
  define D where "D = ?K - ?I"
  define P where "P = ?I - ?K"
  let ?x = "\<lambda>s. gf (word_of_nat s)"
  have card: "card D \<le> card P"
  proof -
    have "card ?I = unat k" using card_image [OF inj] by simp
    then show ?thesis unfolding D_def P_def
      by (simp add: card_Diff_subset_Int Int_commute)
  qed
  have injx: "inj_on ?x {..<256}"
  proof (intro inj_onI)
    fix a b :: nat
    assume "a \<in> {..<256}" "b \<in> {..<256}" "?x a = ?x b"
    then show "a = b" using unat_of_nat_small [of a, where 'a = 8] unat_of_nat_small [of b, where 'a = 8]
      by (metis gf_eq_iff lessThan_iff two_pow_8)
  qed
  have PD: "p \<in> P \<Longrightarrow> unat k \<le> p \<and> p < MAX_SHARDS" "i \<in> D \<Longrightarrow> i < unat k" for p i
    using lim by (auto simp: P_def D_def)
  have "\<forall>i\<in>D. v i = 0"
  proof (rule cauchy_kernel [where x = ?x and y = ?x and P = P])
    show "finite D" "finite P" "card D \<le> card P" using card by (simp_all add: D_def P_def)
    show "inj_on ?x P" using PD(1) by (intro inj_on_subset [OF injx]) (fastforce simp: MAX_SHARDS_def)
    show "inj_on ?x D" using PD(2) unat_u8_less [of k] by (intro inj_on_subset [OF injx]) fastforce
    show "?x p - ?x i \<noteq> 0" if "p \<in> P" "i \<in> D" for p i
      using coeff_inverse(2) PD that by blast
    show "(\<Sum>i\<in>D. v i / (?x p - ?x i)) = 0" if p: "p \<in> P" for p
    proof -
      have "(\<Sum>i\<in>D. v i / (?x p - ?x i)) = (\<Sum>i\<in>D. gen k p i * v i)"
      proof (rule sum.cong [OF refl])
        fix i assume "i \<in> D"
        then show "v i / (?x p - ?x i) = gen k p i * v i"
          using coeff_inverse(1) [of k p i] PD(1) [OF p] PD(2)
          by (simp add: gen_def divide_inverse mult.commute)
      qed
      also have "\<dots> = (\<Sum>i<unat k. gen k p i * v i)"
        by (intro sum.mono_neutral_left) (auto simp: D_def data)
      finally show ?thesis using z' p by (simp add: P_def)
    qed
  qed
  then show "v c = 0" using data c by (cases "c \<in> ?I") (auto simp: D_def)
qed

end
