(* ===== verification/Erasure_Props.thy ===== *)
theory Erasure_Props
  imports Erasure_Repair
begin

text \<open>
  The erasure code end to end: repair from any \<open>k\<close> shards restores the codeword,
  and the body read back is the body that was encoded.
\<close>

lemma row_disjoint:
  assumes "p < (len :: nat)"
  shows "i * len \<le> s * len + p \<and> s * len + p < i * len + len \<longleftrightarrow> i = s"
proof
  assume a: "i * len \<le> s * len + p \<and> s * len + p < i * len + len"
  have "\<not> i < s" using row_end [of i s len] a by linarith
  moreover have "\<not> s < i" using row_before [of s i p len] a assms by linarith
  ultimately show "i = s" by simp
qed (use assms in simp)

lemma length_solve_shard [simp]: "length (solve_shard k len chosen ivm i sh) = length sh"
  by (simp add: solve_shard_def)

lemma solve_shard_nth:
  assumes room: "i * len + len \<le> length sh"
    and away: "\<And>r. r < unat k \<Longrightarrow> unat (chosen ! r) \<noteq> i"
  shows "gf (solve_shard k len chosen ivm i sh ! q) =
    (if i * len \<le> q \<and> q < i * len + len
     then \<Sum>r<unat k. mx ivm i r * gf (sh ! (unat (chosen ! r) * len + (q - i * len)))
     else gf (sh ! q))"
proof -
  let ?acc = "\<lambda>s p. fold (\<lambda>r acc. acc XOR gf_mul (ivm ! i ! r) (s ! (unat (chosen ! r) * len + p))) [0..<unat k] 0"
  have sum: "gf (fold (\<lambda>r acc. acc XOR gf_mul (ivm ! i ! r) (f r)) [0..<n] 0) = (\<Sum>r<n. mx ivm i r * gf (f r))" for f n
    by (induction n) (simp_all add: gf_zero gf_add [symmetric] gf_mul_field mx_def)
  have "solve_shard k len chosen ivm i sh ! q =
      (if i * len \<le> q \<and> q < i * len + len then ?acc sh (q - i * len) else sh ! q)"
    unfolding solve_shard_def
  proof (rule write_run_nth [OF room])
    fix s p
    assume p: "p < len" and s: "\<And>q. q < i * len \<or> i * len + p \<le> q \<Longrightarrow> s ! q = sh ! q"
    have "s ! (unat (chosen ! r) * len + p) = sh ! (unat (chosen ! r) * len + p)" if "r \<in> set [0..<unat k]" for r
    proof (rule s)
      show "unat (chosen ! r) * len + p < i * len \<or> i * len + p \<le> unat (chosen ! r) * len + p"
        using row_disjoint [OF p, of i "unat (chosen ! r)"] away [of r] that
          mult_le_mono1 [of i "unat (chosen ! r)" len] row_before [of "unat (chosen ! r)" i p len] p
        by (cases "unat (chosen ! r) < i") auto
    qed
    then show "?acc s p = ?acc sh p" by (intro fold_cong) auto
  qed
  then show ?thesis by (simp add: sum)
qed

text \<open>The loop over the missing data shards.\<close>

lemma solve_rows:
  fixes ivm :: "u8 list list"
  assumes n: "n \<le> unat k" and room: "unat k * len \<le> length sh"
    and away: "\<And>r. r < unat k \<Longrightarrow> present w (unat (chosen ! r))"
  defines "out \<equiv> fold (\<lambda>i s. if present w i then s else solve_shard k len chosen ivm i s) [0..<n] sh"
  shows "length out = length sh \<and>
    (\<forall>q. (\<forall>i<n. \<not> present w i \<longrightarrow> \<not> (i * len \<le> q \<and> q < i * len + len)) \<longrightarrow> out ! q = sh ! q) \<and>
    (\<forall>i<n. \<not> present w i \<longrightarrow> (\<forall>p<len. gf (out ! (i * len + p)) =
        (\<Sum>r<unat k. mx ivm i r * gf (sh ! (unat (chosen ! r) * len + p)))))"
  using n unfolding out_def
proof (induction n)
  case (Suc n)
  let ?s = "fold (\<lambda>i s. if present w i then s else solve_shard k len chosen ivm i s) [0..<n] sh"
  have nk: "n < unat k" using Suc.prems by simp
  have IH: "length ?s = length sh"
      "\<And>q. (\<And>i. i < n \<Longrightarrow> \<not> present w i \<Longrightarrow> \<not> (i * len \<le> q \<and> q < i * len + len)) \<Longrightarrow> ?s ! q = sh ! q"
      "\<And>i p. i < n \<Longrightarrow> \<not> present w i \<Longrightarrow> p < len \<Longrightarrow> gf (?s ! (i * len + p)) =
        (\<Sum>r<unat k. mx ivm i r * gf (sh ! (unat (chosen ! r) * len + p)))"
    using Suc by simp_all
  show ?case
  proof (cases "present w n")
    case True
    then show ?thesis using IH by (auto simp: less_Suc_eq)
  next
    case False
    have out: "fold (\<lambda>i s. if present w i then s else solve_shard k len chosen ivm i s) [0..<Suc n] sh
        = solve_shard k len chosen ivm n ?s" using False by simp
    have room': "n * len + len \<le> length ?s" using row_end [OF nk, of len] room IH(1) by linarith
    have row: "gf (solve_shard k len chosen ivm n ?s ! q) =
      (if n * len \<le> q \<and> q < n * len + len
       then \<Sum>r<unat k. mx ivm n r * gf (?s ! (unat (chosen ! r) * len + (q - n * len)))
       else gf (?s ! q))" for q
      by (rule solve_shard_nth [OF room']) (use away False in auto)
    have src: "?s ! (unat (chosen ! r) * len + p) = sh ! (unat (chosen ! r) * len + p)"
      if "r < unat k" "p < len" for r p
      using row_disjoint [OF that(2)] away [OF that(1)] by (intro IH(2)) auto
    have keep: "solve_shard k len chosen ivm n ?s ! q = ?s ! q" if "\<not> (n * len \<le> q \<and> q < n * len + len)" for q
    proof -
      have "gf (solve_shard k len chosen ivm n ?s ! q) = gf (?s ! q)" using row [of q] that by (simp only: if_False)
      then show ?thesis by simp
    qed
    show ?thesis unfolding out
    proof (intro conjI allI impI)
      show "length (solve_shard k len chosen ivm n ?s) = length sh" using IH(1) by simp
      fix q
      assume a: "\<forall>i<Suc n. \<not> present w i \<longrightarrow> \<not> (i * len \<le> q \<and> q < i * len + len)"
      show "solve_shard k len chosen ivm n ?s ! q = sh ! q"
        using keep [of q] IH(2) [of q] a False by (simp add: less_Suc_eq del: de_Morgan_conj)
    next
      fix i p assume i: "i < Suc n" and ni: "\<not> present w i" and p: "p < len"
      show "gf (solve_shard k len chosen ivm n ?s ! (i * len + p)) =
          (\<Sum>r<unat k. mx ivm i r * gf (sh ! (unat (chosen ! r) * len + p)))"
      proof (cases "i = n")
        case True
        have "gf (solve_shard k len chosen ivm n ?s ! (n * len + p)) =
            (\<Sum>r<unat k. mx ivm n r * gf (?s ! (unat (chosen ! r) * len + p)))"
          using row [of "n * len + p"] p by simp
        then show ?thesis unfolding True using src p by simp
      next
        case False
        then have "\<not> (n * len \<le> i * len + p \<and> i * len + p < n * len + len)"
          using row_disjoint [OF p, of n i] by auto
        then show ?thesis using keep IH(3) [of i p] False i ni p by auto
      qed
    qed
  qed
qed simp

text \<open>A codeword's shards are the generator's rows times its data.\<close>

lemma codeword_row:
  assumes "codeword k m len good" "s < unat k + unat m" "p < len"
  shows "gf (good ! (s * len + p)) = (\<Sum>i<unat k. gen k s i * gf (good ! (i * len + p)))"
proof (cases "s < unat k")
  case True
  have "(\<Sum>i<unat k. gen k s i * gf (good ! (i * len + p))) = (\<Sum>i<unat k. if i = s then gf (good ! (i * len + p)) else 0)"
    using True by (intro sum.cong) (auto simp: gen_def)
  then show ?thesis using True by simp
next
  case False
  then obtain j where j: "s = unat k + j" "j < unat m" using assms(2) by (metis le_Suc_ex nat_add_left_cancel_less not_le)
  then have "gf (good ! (s * len + p)) = parity_value k len j good p"
    using assms by (simp add: codeword_def parity_ok_def)
  then show ?thesis by (simp add: parity_value_def gen_def j(1))
qed

text \<open>The solved shard: the inverse of the basis times the basis' shards.\<close>

lemma solve_value:
  assumes cw: "codeword k m len good" and B: "\<And>r. r < unat k \<Longrightarrow> B r < unat k + unat m"
    and ivm: "\<And>r c. r < unat k \<Longrightarrow> c < unat k \<Longrightarrow>
        (\<Sum>t<unat k. mx ivm r t * gen k (B t) c) = (if r = c then 1 else 0)"
    and i: "i < unat k" and p: "p < len"
  shows "(\<Sum>r<unat k. mx ivm i r * gf (good ! (B r * len + p))) = gf (good ! (i * len + p))"
proof -
  have "(\<Sum>r<unat k. mx ivm i r * gf (good ! (B r * len + p)))
      = (\<Sum>r<unat k. \<Sum>c<unat k. mx ivm i r * (gen k (B r) c * gf (good ! (c * len + p))))"
    using codeword_row [OF cw B p] by (simp add: sum_distrib_left)
  also have "\<dots> = (\<Sum>c<unat k. (\<Sum>r<unat k. mx ivm i r * gen k (B r) c) * gf (good ! (c * len + p)))"
    by (subst sum.swap) (simp add: sum_distrib_right mult.assoc)
  also have "\<dots> = (\<Sum>c<unat k. if c = i then gf (good ! (c * len + p)) else 0)"
    using ivm [OF i] by (intro sum.cong) auto
  finally show ?thesis using i by simp
qed

section \<open>Repair\<close>

lemma held_basis:
  assumes "unat k \<le> length (held w n)" "unat k \<le> MAX_SHARDS" "n \<le> MAX_SHARDS"
  defines "chosen \<equiv> fst (choose_basis n k w)" and "B \<equiv> (\<lambda>r. held w n ! r)"
  shows "inj_on B {..<unat k}"
    and "r < unat k \<Longrightarrow> B r < n \<and> present w (B r) \<and> chosen ! r = word_of_nat (B r) \<and> unat (chosen ! r) = B r"
proof -
  have "distinct (held w n)" by (simp add: held_def)
  then show "inj_on B {..<unat k}"
    using assms(1) unfolding B_def by (intro inj_onI) (simp add: nth_eq_iff_index_eq)
  assume r: "r < unat k"
  then have "B r \<in> set (held w n)" using assms(1) unfolding B_def by (intro nth_mem) simp
  then have b: "B r < n" "present w (B r)" by (auto simp: held_def)
  have c: "chosen ! r = word_of_nat (B r)"
    using choose_basis_nth [OF assms(1,2) r] by (simp add: chosen_def B_def)
  show "B r < n \<and> present w (B r) \<and> chosen ! r = word_of_nat (B r) \<and> unat (chosen ! r) = B r"
    using b c assms(3) by (simp add: unat_of_nat_small MAX_SHARDS_def)
qed

text \<open>The inversion cannot fail on a basis: whatever \<open>k\<close> shards are held.\<close>

lemma basis_inverse:
  assumes "unat k \<le> length (held w n)" "unat k \<le> MAX_SHARDS" "n \<le> MAX_SHARDS"
  obtains ivm where "invert (basis_matrix k (fst (choose_basis n k w))) (unat k) = Inr ivm"
    "\<And>r c. r < unat k \<Longrightarrow> c < unat k \<Longrightarrow>
      (\<Sum>t<unat k. mx ivm r t * gen k (held w n ! t) c) = (if r = c then 1 else 0)"
proof -
  let ?B = "\<lambda>r. held w n ! r"
  let ?M = "basis_matrix k (fst (choose_basis n k w))"
  note hb = held_basis [OF assms]
  have lim: "?B r < MAX_SHARDS" if "r < unat k" for r using hb(2) [OF that] assms(3) by simp
  have sq: "square ?M" and mx: "\<And>r c. r < unat k \<Longrightarrow> c < unat k \<Longrightarrow> mx ?M r c = gen k (?B r) c"
    using basis_matrix_mx [OF assms(2), of ?B "fst (choose_basis n k w)"] hb(2) lim by blast+
  have "kernel_trivial (unat k) (mx ?M)"
    using basis_kernel [OF hb(1) lim] kernel_trivial_cong [of "unat k" "mx ?M" "\<lambda>r. gen k (?B r)"] mx by simp
  from invert_ok [OF sq assms(2) this] obtain ivm where iv: "invert ?M (unat k) = Inr ivm"
    "\<forall>r<unat k. \<forall>c<unat k. (\<Sum>t<unat k. mx ivm r t * mx ?M t c) = (if r = c then 1 else 0)" by blast
  show ?thesis by (rule that [OF iv(1)]) (use iv(2) mx in auto)
qed

text \<open>
  Repair in one equation: with parameters in order and enough shards held, the data
  shards are solved where any is missing, then the parity loop runs.
\<close>

lemma present_count:
  assumes "n \<le> MAX_SHARDS"
  shows "unat (word_of_nat (count_ones (w AND (push_bit n 1 - 1))) :: u8) = length (held w n)"
proof -
  have "length (held w n) \<le> n" using length_filter_le [of "present w" "[0..<n]"] by (simp add: held_def)
  then show ?thesis using assms count_present [of n w] by (simp add: unat_of_nat_small MAX_SHARDS_def del: push_bit_of_1)
qed

definition solved_data :: "bytes \<Rightarrow> nat \<Rightarrow> u8 \<Rightarrow> nat \<Rightarrow> u32 \<Rightarrow> u8 list list \<Rightarrow> bytes" where
  "solved_data sh len k n w ivm =
     (if \<forall>s<unat k. present w s then sh
      else fold (\<lambda>i s. if present w i then s else solve_shard k len (fst (choose_basis n k w)) ivm i s) [0..<unat k] sh)"

lemma reconstruct_eq:
  assumes ok: "check_params k m len sh = Inr ()"
    and enough: "unat k \<le> length (held w (unat k + unat m))"
  obtains ivm where
    "\<And>r c. r < unat k \<Longrightarrow> c < unat k \<Longrightarrow>
      (\<Sum>t<unat k. mx ivm r t * gen k (held w (unat k + unat m) ! t) c) = (if r = c then 1 else 0)"
    "reconstruct sh len k m w = Inr (fold (\<lambda>j s. if present w (unat k + j) then s else parity_row k len j s)
        [0..<unat m] (solved_data sh len k (unat k + unat m) w ivm))"
proof -
  have lim: "unat k + unat m \<le> MAX_SHARDS" using ok by (simp add: check_params_ok)
  then have klim: "unat k \<le> MAX_SHARDS" by simp
  obtain ivm where iv: "invert (basis_matrix k (fst (choose_basis (unat k + unat m) k w))) (unat k) = Inr ivm"
    "\<And>r c. r < unat k \<Longrightarrow> c < unat k \<Longrightarrow>
      (\<Sum>t<unat k. mx ivm r t * gen k (held w (unat k + unat m) ! t) c) = (if r = c then 1 else 0)"
    using basis_inverse [OF enough klim lim] by blast
  have cnt: "\<not> (word_of_nat (count_ones (w AND (push_bit (unat k + unat m) 1 - 1))) :: u8) < k"
    unfolding word_less_nat_alt present_count [OF lim] using enough by simp
  have dm: "(w AND (push_bit (unat k) 1 - 1) = push_bit (unat k) 1 - 1) \<longleftrightarrow> (\<forall>s<unat k. present w s)"
    using klim by (intro data_mask_present) (simp add: MAX_SHARDS_def)
  show ?thesis
  proof (rule that [OF iv(2)])
    show "reconstruct sh len k m w = Inr (fold (\<lambda>j s. if present w (unat k + j) then s else parity_row k len j s)
        [0..<unat m] (solved_data sh len k (unat k + unat m) w ivm))"
      unfolding reconstruct_def ok sum.case Let_def dm solved_data_def if_not_P [OF cnt]
    proof (cases "\<forall>s<unat k. present w s", goal_cases)
      case 1
      show ?case by (simp only: if_P [OF 1] sum.case)
    next
      case 2
      show ?case by (simp only: if_not_P [OF 2] iv(1) sum.case)
    qed
  qed
qed

lemma solved_data_ok:
  assumes cw: "codeword k m len good" and lg: "length good = length sh"
    and lim: "unat k + unat m \<le> MAX_SHARDS" and room: "(unat k + unat m) * len \<le> length sh"
    and agree: "\<And>s p. s < unat k + unat m \<Longrightarrow> present w s \<Longrightarrow> p < len \<Longrightarrow> sh ! (s * len + p) = good ! (s * len + p)"
    and enough: "unat k \<le> length (held w (unat k + unat m))"
    and ivm: "\<And>r c. r < unat k \<Longrightarrow> c < unat k \<Longrightarrow>
      (\<Sum>t<unat k. mx ivm r t * gen k (held w (unat k + unat m) ! t) c) = (if r = c then 1 else 0)"
  defines "out \<equiv> solved_data sh len k (unat k + unat m) w ivm"
  shows "length out = length sh"
    and "unat k * len \<le> q \<Longrightarrow> out ! q = sh ! q"
    and "i < unat k \<Longrightarrow> p < len \<Longrightarrow> out ! (i * len + p) = good ! (i * len + p)"
proof -
  let ?n = "unat k + unat m"
  let ?chosen = "fst (choose_basis ?n k w)"
  have klim: "unat k \<le> MAX_SHARDS" using lim by simp
  note hb = held_basis [OF enough klim lim]
  have "unat k * len \<le> ?n * len" by simp
  then have kroom: "unat k * len \<le> length sh" using room by linarith
  have pres: "\<And>r. r < unat k \<Longrightarrow> present w (unat (?chosen ! r))" by (metis hb(2))
  have "length out = length sh \<and> (\<forall>q. unat k * len \<le> q \<longrightarrow> out ! q = sh ! q) \<and>
      (\<forall>i<unat k. \<forall>p<len. out ! (i * len + p) = good ! (i * len + p))"
  proof (cases "\<forall>s<unat k. present w s")
    case True
    then have "out = sh" by (simp only: out_def solved_data_def if_P)
    then show ?thesis using agree True by simp
  next
    case False
    let ?f = "fold (\<lambda>i s. if present w i then s else solve_shard k len ?chosen ivm i s) [0..<unat k] sh"
    have out: "out = ?f" by (simp only: out_def solved_data_def if_not_P [OF False])
    have r1: "length ?f = length sh"
      and r2: "\<And>q. (\<And>i. i < unat k \<Longrightarrow> \<not> present w i \<Longrightarrow> \<not> (i * len \<le> q \<and> q < i * len + len)) \<Longrightarrow> ?f ! q = sh ! q"
      and r3: "\<And>i p. i < unat k \<Longrightarrow> \<not> present w i \<Longrightarrow> p < len \<Longrightarrow>
        gf (?f ! (i * len + p)) = (\<Sum>r<unat k. mx ivm i r * gf (sh ! (unat (?chosen ! r) * len + p)))"
      using solve_rows [where k = k and w = w and chosen = ?chosen and len = len and ivm = ivm and sh = sh,
          OF order_refl kroom pres] by blast+
    have tail: "?f ! q = sh ! q" if "unat k * len \<le> q" for q
    proof (rule r2)
      fix i assume "i < unat k"
      then show "\<not> (i * len \<le> q \<and> q < i * len + len)" using row_end [of i "unat k" len] that by linarith
    qed
    have "?f ! (i * len + p) = good ! (i * len + p)" if i: "i < unat k" and p: "p < len" for i p
    proof (cases "present w i")
      case True
      have "?f ! (i * len + p) = sh ! (i * len + p)"
        using row_disjoint [OF p] True by (intro r2) auto
      then show ?thesis using agree [of i p] i p True by simp
    next
      case False
      have "gf (?f ! (i * len + p)) = (\<Sum>r<unat k. mx ivm i r * gf (good ! (held w ?n ! r * len + p)))"
        unfolding r3 [OF i False p]
      proof (rule sum.cong [OF refl])
        fix r assume "r \<in> {..<unat k}"
        then have r: "r < unat k" by simp
        have "sh ! (unat (?chosen ! r) * len + p) = good ! (held w ?n ! r * len + p)"
          by (metis agree hb(2) p r)
        then show "mx ivm i r * gf (sh ! (unat (?chosen ! r) * len + p)) = mx ivm i r * gf (good ! (held w ?n ! r * len + p))"
          by (simp only:)
      qed
      also have "\<dots> = gf (good ! (i * len + p))"
        by (rule solve_value [OF cw _ ivm i p]) (use hb(2) in auto)
      finally show ?thesis by simp
    qed
    then show ?thesis unfolding out using r1 tail by blast
  qed
  then show "length out = length sh" "unat k * len \<le> q \<Longrightarrow> out ! q = sh ! q"
    "i < unat k \<Longrightarrow> p < len \<Longrightarrow> out ! (i * len + p) = good ! (i * len + p)" by simp_all
qed

lemma nth_rows:
  assumes "0 < len" "\<And>s p. s < n \<Longrightarrow> p < len \<Longrightarrow> xs ! (s * len + p) = ys ! (s * len + p)"
    and "q < n * (len :: nat)"
  shows "xs ! q = ys ! q"
proof -
  have "q div len < n" using assms by (simp add: less_mult_imp_div_less)
  from assms(2) [OF this, of "q mod len"] show ?thesis using assms(1) by simp
qed

lemma reconstruct_ok:
  assumes ok: "check_params k m len sh = Inr ()"
    and cw: "codeword k m len good" and lg: "length good = length sh"
    and agree: "\<And>s p. s < unat k + unat m \<Longrightarrow> present w s \<Longrightarrow> p < len \<Longrightarrow> sh ! (s * len + p) = good ! (s * len + p)"
    and enough: "unat k \<le> length (held w (unat k + unat m))"
  shows "\<exists>out. reconstruct sh len k m w = Inr out \<and>
    take ((unat k + unat m) * len) out = take ((unat k + unat m) * len) good \<and>
    drop ((unat k + unat m) * len) out = drop ((unat k + unat m) * len) sh"
proof -
  let ?n = "unat k + unat m"
  have P: "?n \<le> MAX_SHARDS" "0 < len" "?n * len \<le> length sh" using ok by (auto simp: check_params_ok)
  obtain ivm where ivm: "\<And>r c. r < unat k \<Longrightarrow> c < unat k \<Longrightarrow>
      (\<Sum>t<unat k. mx ivm r t * gen k (held w ?n ! t) c) = (if r = c then 1 else 0)"
    and eq: "reconstruct sh len k m w = Inr (fold (\<lambda>j s. if present w (unat k + j) then s else parity_row k len j s)
        [0..<unat m] (solved_data sh len k ?n w ivm))"
    using reconstruct_eq [OF ok enough] by blast
  define mid where "mid = solved_data sh len k ?n w ivm"
  note sd = solved_data_ok [OF cw lg P(1,3) agree enough ivm, folded mid_def]
  define out where "out = fold (\<lambda>j s. if present w (unat k + j) then s else parity_row k len j s) [0..<unat m] mid"
  have o1: "length out = length sh"
    and o2: "\<And>q. q < unat k * len \<or> ?n * len \<le> q \<Longrightarrow> out ! q = mid ! q"
    and o3: "\<And>j p. j < unat m \<Longrightarrow> p < len \<Longrightarrow> gf (out ! ((unat k + j) * len + p)) =
        (if present w (unat k + j) then gf (mid ! ((unat k + j) * len + p)) else parity_value k len j mid p)"
    using parity_rows [of k "unat m" len mid "\<lambda>j. present w (unat k + j)"] P(3) sd(1)
    unfolding out_def [symmetric] by auto
  have data: "mid ! q = good ! q" if "q < unat k * len" for q
    by (rule nth_rows [OF P(2) sd(3) that])
  have cell: "out ! (s * len + p) = good ! (s * len + p)" if s: "s < ?n" and p: "p < len" for s p
  proof (cases "s < unat k")
    case True
    then show ?thesis using o2 data row_before [OF True p] by simp
  next
    case False
    then obtain j where j: "s = unat k + j" "j < unat m" using s by (metis le_Suc_ex nat_add_left_cancel_less not_le)
    have "gf (out ! (s * len + p)) = gf (good ! (s * len + p))"
    proof (cases "present w s")
      case True
      have "unat k * len \<le> s * len + p" using False by (intro trans_le_add1 mult_le_mono1) simp
      then show ?thesis using o3 [OF j(2) p] sd(2) agree [OF s True p] True by (simp add: j(1))
    next
      case False
      have "parity_value k len j mid p = parity_value k len j good p"
        using data p by (intro parity_value_cong)
      then show ?thesis using o3 [OF j(2) p] False cw j p by (simp add: codeword_def parity_ok_def)
    qed
    then show ?thesis by simp
  qed
  have "take (?n * len) out = take (?n * len) good"
    using o1 lg nth_rows [OF P(2) cell] by (intro nth_equalityI) auto
  moreover have "out ! q = sh ! q" if "?n * len \<le> q" for q
  proof -
    have "unat k * len \<le> ?n * len" by simp
    then have "unat k * len \<le> q" using that by linarith
    then show ?thesis using o2 [of q] sd(2) [of q] that by simp
  qed
  then have "drop (?n * len) out = drop (?n * len) sh"
    using o1 by (intro nth_equalityI) auto
  ultimately show ?thesis using eq by (auto simp: out_def mid_def)
qed

section \<open>Properties\<close>

lemma card_held: "card {s. s < n \<and> present w s} = length (held w n)"
proof -
  have "set (held w n) = {s. s < n \<and> present w s}" by (auto simp: held_def)
  moreover have "distinct (held w n)" by (simp add: held_def)
  ultimately show ?thesis by (metis distinct_card)
qed

lemma encode_params:
  assumes "encode body k m buf = Inr (len, stored)"
  shows "len = shard_len_for (length body) k" and "check_params k m len buf = Inr ()"
  using assms by (auto simp: encode_def Let_def split: sum.splits if_splits)

text \<open>C12: the erasure code does its job.  Encode a body, lose or corrupt any shards
  but \<open>k\<close>, and repair gives back every byte of every shard; the body read out of the
  repaired buffer is the body that was encoded.\<close>

theorem ec_survives_erasures:
  assumes enc: "encode body k m buf = Inr (len, stored)"
    and dmg: "length damaged = length stored"
    and held: "\<forall>s < unat k + unat m. present w s \<longrightarrow>
        sub_slice damaged (s * len) len = sub_slice stored (s * len) len"
    and enough: "unat k \<le> card {s. s < unat k + unat m \<and> present w s}"
    and scratch: "length body \<le> length scratch"
  shows "\<exists>out. reconstruct damaged len k m w = Inr out \<and>
    take ((unat k + unat m) * len) out = take ((unat k + unat m) * len) stored \<and>
    body_from_shards out len k (length body) scratch = Inr (body @ drop (length body) scratch)"
proof -
  let ?n = "unat k + unat m"
  note ep = encode_params [OF enc]
  have P: "k \<noteq> 0" "?n \<le> MAX_SHARDS" "0 < len" "?n * len \<le> length buf"
    using ep(2) by (auto simp: check_params_ok)
  obtain out where lay: "encode body k m buf = Inr (len, out)" "length out = length buf"
    "take (unat k * len) out = body @ replicate (unat k * len - length body) 0" "codeword k m len out"
    using encode_layout [OF P(1,2), of body buf] P(4) unfolding ep(1) by metis
  then have st: "length stored = length buf" "codeword k m len stored"
    "take (unat k * len) stored = body @ replicate (unat k * len - length body) 0"
    using enc by auto
  have ok: "check_params k m len damaged = Inr ()" using P st(1) dmg by (auto simp: check_params_ok)
  have agree: "damaged ! (s * len + p) = stored ! (s * len + p)" if s: "s < ?n" "present w s" and p: "p < len" for s p
  proof -
    have "s * len + len \<le> length buf" using row_end [OF s(1), of len] P(4) by linarith
    moreover have "sub_slice damaged (s * len) len ! p = sub_slice stored (s * len) len ! p"
      using held s by simp
    ultimately show ?thesis using p dmg st(1) by (simp add: sub_slice_def)
  qed
  obtain fixed where r: "reconstruct damaged len k m w = Inr fixed"
    "take (?n * len) fixed = take (?n * len) stored" "drop (?n * len) fixed = drop (?n * len) damaged"
    using reconstruct_ok [OF ok st(2) dmg [symmetric] agree] enough unfolding card_held by blast
  have lf: "length fixed = length buf"
    using arg_cong [OF r(2), of length] arg_cong [OF r(3), of length] dmg st(1) P(4) by simp
  have kn: "unat k * len \<le> ?n * len" by simp
  have tk: "take (unat k * len) fixed = body @ replicate (unat k * len - length body) 0"
    using arg_cong [OF r(2), of "take (unat k * len)"] kn st(3) by (simp add: min_absorb1 del: mult_le_cancel2)
  have cov: "length body \<le> unat k * len" unfolding ep(1) by (rule shard_len_covers [OF P(1)])
  have "take (length body) fixed = body"
    using arg_cong [OF tk, of "take (length body)"] cov by (simp add: min_absorb1)
  moreover have "unat k * len \<le> length fixed" using kn lf P(4) by linarith
  ultimately have "body_from_shards fixed len k (length body) scratch = Inr (body @ drop (length body) scratch)"
    using P cov scratch by (simp add: body_from_shards_def copy_prefix_def)
  then show ?thesis using r by blast
qed

text \<open>Two data shards and one parity shard of a three byte body; the first data shard is lost.\<close>

lemma ec_survives_erasures_witness:
  "\<exists>out. reconstruct (replicate 2 7 @ drop 2 (snd (projr (encode [1, 2, 3] 2 1 (replicate 6 9))))) 2 2 1 6 = Inr out \<and>
    take 6 out = take 6 (snd (projr (encode [1, 2, 3] 2 1 (replicate 6 9)))) \<and>
    body_from_shards out 2 2 3 (replicate 4 0) = Inr [1, 2, 3, 0]"
proof -
  let ?buf = "replicate 6 (9 :: u8)"
  let ?st = "snd (projr (encode [1, 2, 3] 2 1 ?buf))"
  let ?dmg = "replicate 2 7 @ drop 2 ?st"
  have shards: "length ?st = 6" and enc: "encode [1, 2, 3] 2 1 ?buf = Inr (2, ?st)"
    by code_simp+
  have pr: "map (present 6) [0..<3] = [False, True, True]" by code_simp
  have ps: "present 6 s \<longleftrightarrow> s = 1 \<or> s = 2" if "s < 3" for s
    using arg_cong [OF pr, of "\<lambda>l. l ! s"] that by (auto simp: numeral_eq_Suc less_Suc_eq)
  then have "{s. s < unat (2 :: u8) + unat (1 :: u8) \<and> present 6 s} = {1, 2}" by auto
  moreover have "\<forall>s < unat (2 :: u8) + unat (1 :: u8). present 6 s \<longrightarrow>
      sub_slice ?dmg (s * 2) 2 = sub_slice ?st (s * 2) 2"
  proof (intro allI impI)
    have d: "drop 2 ?dmg = drop 2 ?st" by simp
    have sl: "sub_slice ?dmg (b + 2) 2 = sub_slice ?st (b + 2) 2" for b
      unfolding sub_slice_def drop_drop [symmetric] d ..
    fix s assume "s < unat (2 :: u8) + unat (1 :: u8)" "present 6 s"
    then have "s * 2 = (s - 1) * 2 + 2" using ps [of s] by auto
    then show "sub_slice ?dmg (s * 2) 2 = sub_slice ?st (s * 2) 2" using sl by (simp only:)
  qed
  moreover have three: "length [1, 2, 3 :: u8] = 3" by simp
  ultimately show ?thesis
    using ec_survives_erasures [OF enc, of ?dmg 6 "replicate 4 0", unfolded three] shards by simp
qed


text \<open>C31: the log and exponent tables the compiler builds compute the product of the
  field, which shift-and-add modulo the polynomial defines, and every nonzero byte
  times its inverse is one.\<close>

theorem gf_tables_compute_field:
  "gf_mul a b = shift_add 8 0 a b \<and> (a = 0 \<or> gf_mul a (gf_inv a) = 1)"
proof -
  have "gf (gf_mul a (gf_inv a)) = gf 1" if "a \<noteq> 0"
    using that by (simp add: gf_mul_field gf_inv_field gf_one)
  then show ?thesis using gf_mul_shift_add by auto
qed

end
