(* ===== verification/Fleet_Wire.thy ===== *)
theory Fleet_Wire
  imports Loam_Prelude
begin

text \<open>
  \<open>modules/common/replicated/loam_placement_wire.rs\<close>: the two frames of the placement
  router, the fleet update it reads and the fleet snapshot it broadcasts.  Encoders
  write into a caller's buffer and leave what follows the frame alone; decoders check
  the length before each read.
\<close>

section \<open>Constants and errors\<close>

definition OP_FLEET_EPOCH :: u8 where "OP_FLEET_EPOCH = 0x60"
definition OP_FLEET_UPDATE :: u8 where "OP_FLEET_UPDATE = 0x61"
definition MAX_FLEET :: nat where "MAX_FLEET = 16"

datatype fleet_wire_error =
    FwTruncated
  | FwBadOpcode u8
  | FwFleetTooLarge nat nat
  | FwBufferTooSmall nat nat

text \<open>\<open>xs.get(i).copied().unwrap_or(0)\<close> for each of the first \<open>n\<close> positions.\<close>

definition pad_zero :: "nat \<Rightarrow> bytes \<Rightarrow> bytes" where
  "pad_zero n xs = map (\<lambda>i. if i < length xs then xs ! i else 0) [0..<n]"

section \<open>Snapshots\<close>

definition encode_fleet_epoch ::
  "bytes \<Rightarrow> u64 \<Rightarrow> bytes \<Rightarrow> bytes \<Rightarrow> bytes \<Rightarrow> fleet_wire_error + nat \<times> bytes" where
  "encode_fleet_epoch dst epoch members domains states =
     (if length members > MAX_FLEET then Inl (FwFleetTooLarge (length members) MAX_FLEET)
      else
        let n = length members;
            needed = 1 + 8 + 1 + n + n + n
        in if length dst < needed then Inl (FwBufferTooSmall needed (length dst))
           else Inr (needed,
             copy_prefix
               ([OP_FLEET_EPOCH] @ le_bytes 8 epoch @ [word_of_nat n] @ members @
                pad_zero n domains @ pad_zero n states) dst))"

record fleet_epoch =
  fe_epoch :: u64
  fe_members :: bytes
  fe_domains :: bytes
  fe_states :: bytes

definition decode_fleet_epoch :: "bytes \<Rightarrow> fleet_wire_error + fleet_epoch" where
  "decode_fleet_epoch src =
     (if length src < 10 then Inl FwTruncated
      else if src ! 0 \<noteq> OP_FLEET_EPOCH then Inl (FwBadOpcode (src ! 0))
      else
        let count = unat (src ! 9)
        in if count > MAX_FLEET then Inl (FwFleetTooLarge count MAX_FLEET)
           else if 10 + count * 3 > length src then Inl FwTruncated
           else Inr \<lparr>fe_epoch = from_le (sub_slice src 1 8),
                     fe_members = sub_slice src 10 count,
                     fe_domains = sub_slice src (10 + count) count,
                     fe_states = sub_slice src (10 + count * 2) count\<rparr>)"

section \<open>Updates\<close>

definition encode_fleet_update ::
  "bytes \<Rightarrow> bytes \<Rightarrow> bytes \<Rightarrow> bytes \<Rightarrow> fleet_wire_error + nat \<times> bytes" where
  "encode_fleet_update dst members domains states =
     (if length members > MAX_FLEET then Inl (FwFleetTooLarge (length members) MAX_FLEET)
      else
        let n = length members;
            needed = 1 + 1 + n + n + n
        in if length dst < needed then Inl (FwBufferTooSmall needed (length dst))
           else Inr (needed,
             copy_prefix
               ([OP_FLEET_UPDATE] @ [word_of_nat n] @ members @ pad_zero n domains @ pad_zero n states) dst))"

record fleet_update =
  fu_members :: bytes
  fu_domains :: bytes
  fu_states :: bytes

definition decode_fleet_update :: "bytes \<Rightarrow> fleet_wire_error + fleet_update" where
  "decode_fleet_update src =
     (if length src < 2 then Inl FwTruncated
      else if src ! 0 \<noteq> OP_FLEET_UPDATE then Inl (FwBadOpcode (src ! 0))
      else
        let count = unat (src ! 1)
        in if count > MAX_FLEET then Inl (FwFleetTooLarge count MAX_FLEET)
           else if 2 + count * 3 > length src then Inl FwTruncated
           else Inr \<lparr>fu_members = sub_slice src 2 count,
                     fu_domains = sub_slice src (2 + count) count,
                     fu_states = sub_slice src (2 + count * 2) count\<rparr>)"

definition peek_opcode :: "bytes \<Rightarrow> u8 option" where
  "peek_opcode src = (case src of [] \<Rightarrow> None | b # _ \<Rightarrow> Some b)"

section \<open>Round trips\<close>

lemma length_pad_zero [simp]: "length (pad_zero n xs) = n"
  by (simp add: pad_zero_def)

lemma pad_zero_id [simp]: "n = length xs \<Longrightarrow> pad_zero n xs = xs"
  by (auto simp: pad_zero_def intro: nth_equalityI)

lemma pad_zero_nth: "i < n \<Longrightarrow> pad_zero n xs ! i = (if i < length xs then xs ! i else 0)"
  by (simp add: pad_zero_def)

text \<open>A decoder reads the frame and no byte after it.\<close>

lemma fleet_epoch_roundtrip:
  assumes "encode_fleet_epoch dst epoch members domains states = Inr (n, out)"
  shows "length out = length dst" "n = 10 + 3 * length members" "n \<le> length dst" "length members \<le> MAX_FLEET"
    "decode_fleet_epoch (take n out @ rest) = Inr \<lparr>fe_epoch = epoch, fe_members = members,
       fe_domains = pad_zero (length members) domains, fe_states = pad_zero (length members) states\<rparr>"
proof -
  let ?m = "length members"
  let ?frame = "[OP_FLEET_EPOCH] @ le_bytes 8 epoch @ [word_of_nat ?m] @ members @
                pad_zero ?m domains @ pad_zero ?m states"
  have m: "?m \<le> 16" and n: "n = 10 + 3 * ?m" and out: "out = copy_prefix ?frame dst" "n \<le> length dst"
    using assms by (auto simp: encode_fleet_epoch_def Let_def MAX_FLEET_def split: if_splits)
  have lf: "length ?frame = n" by (simp add: n)
  show "length out = length dst" "n = 10 + 3 * ?m" "n \<le> length dst" "?m \<le> MAX_FLEET"
    using m n out lf by (simp_all add: MAX_FLEET_def)
  have tk: "take n out = ?frame" unfolding out(1) using lf by (metis take_copy_prefix)
  have um: "unat (word_of_nat ?m :: u8) = ?m" using m by (simp add: unat_of_nat_small)
  have b9: "(?frame @ rest) ! 9 = word_of_nat ?m" by (simp add: nth_append)
  show "decode_fleet_epoch (take n out @ rest) = Inr \<lparr>fe_epoch = epoch, fe_members = members,
       fe_domains = pad_zero ?m domains, fe_states = pad_zero ?m states\<rparr>"
    unfolding tk decode_fleet_epoch_def b9 um Let_def
    using m by (simp add: MAX_FLEET_def from_le_u64)
qed

lemma fleet_update_roundtrip:
  assumes "encode_fleet_update dst members domains states = Inr (n, out)"
  shows "length out = length dst" "n = 2 + 3 * length members" "n \<le> length dst"
    "decode_fleet_update (take n out @ rest) = Inr \<lparr>fu_members = members,
       fu_domains = pad_zero (length members) domains, fu_states = pad_zero (length members) states\<rparr>"
proof -
  let ?m = "length members"
  let ?frame = "[OP_FLEET_UPDATE] @ [word_of_nat ?m] @ members @ pad_zero ?m domains @ pad_zero ?m states"
  have m: "?m \<le> 16" and n: "n = 2 + 3 * ?m" and out: "out = copy_prefix ?frame dst" "n \<le> length dst"
    using assms by (auto simp: encode_fleet_update_def Let_def MAX_FLEET_def split: if_splits)
  have lf: "length ?frame = n" by (simp add: n)
  show "length out = length dst" "n = 2 + 3 * ?m" "n \<le> length dst" using n out lf by simp_all
  have tk: "take n out = ?frame" unfolding out(1) using lf by (metis take_copy_prefix)
  have um: "unat (word_of_nat ?m :: u8) = ?m" using m by (simp add: unat_of_nat_small)
  have b1: "(?frame @ rest) ! 1 = word_of_nat ?m" by simp
  show "decode_fleet_update (take n out @ rest) = Inr \<lparr>fu_members = members,
       fu_domains = pad_zero ?m domains, fu_states = pad_zero ?m states\<rparr>"
    unfolding tk decode_fleet_update_def b1 um Let_def
    using m by (simp add: MAX_FLEET_def)
qed

lemma encode_fleet_epoch_fits:
  "length members \<le> MAX_FLEET \<Longrightarrow> 10 + 3 * length members \<le> length dst \<Longrightarrow>
   \<exists>n out. encode_fleet_epoch dst epoch members domains states = Inr (n, out)"
  by (simp add: encode_fleet_epoch_def Let_def)

end
