(* ===== verification/Placement.thy ===== *)
theory Placement
  imports Fleet_Wire Loam_Hash
begin

text \<open>
  \<open>modules/common/replicated/loam_placement.rs\<close>: rendezvous placement over a fleet
  snapshot.  The members are ranked by a hash of key and member, the ranked list is
  walked once for the best member of each failure domain and once more to fill up.
  The output buffer is the caller's: a pick returns how many entries it wrote and the
  buffer after it.
\<close>

section \<open>The fleet\<close>

definition PL_DIGEST_LEN :: nat where "PL_DIGEST_LEN = 32"

definition MEMBER_ACTIVE :: u8 where "MEMBER_ACTIVE = 0"
definition MEMBER_DRAINING :: u8 where "MEMBER_DRAINING = push_bit 0 1"
definition MEMBER_COLD :: u8 where "MEMBER_COLD = push_bit 1 1"

record fleet =
  fl_epoch :: u64
  fl_members :: bytes
  fl_domains :: bytes
  fl_states :: bytes
  fl_count :: u8

definition empty_fleet :: fleet where
  "empty_fleet = \<lparr>fl_epoch = 0, fl_members = replicate MAX_FLEET 0, fl_domains = replicate MAX_FLEET 0,
     fl_states = replicate MAX_FLEET MEMBER_ACTIVE, fl_count = 0\<rparr>"

definition fleet_from_parts :: "u64 \<Rightarrow> bytes \<Rightarrow> bytes \<Rightarrow> bytes \<Rightarrow> fleet" where
  "fleet_from_parts epoch members domains states =
     (let n = min (length members) MAX_FLEET;
          d = min (length domains) n;
          c = min (length states) n
      in \<lparr>fl_epoch = epoch,
          fl_members = copy_prefix (take n members) (replicate MAX_FLEET 0),
          fl_domains = copy_prefix (take d domains) (replicate MAX_FLEET 0),
          fl_states = copy_prefix (take c states) (replicate MAX_FLEET MEMBER_ACTIVE),
          fl_count = word_of_nat n\<rparr>)"

definition fleet_from_slice_with_domains :: "u64 \<Rightarrow> bytes \<Rightarrow> bytes \<Rightarrow> fleet" where
  "fleet_from_slice_with_domains epoch members domains = fleet_from_parts epoch members domains []"

definition fleet_from_slice :: "u64 \<Rightarrow> bytes \<Rightarrow> fleet" where
  "fleet_from_slice epoch members = fleet_from_slice_with_domains epoch members []"

definition states_slice :: "fleet \<Rightarrow> bytes" where
  "states_slice f = take (unat (fl_count f)) (fl_states f)"

definition members_slice :: "fleet \<Rightarrow> bytes" where
  "members_slice f = take (unat (fl_count f)) (fl_members f)"

definition domains_slice :: "fleet \<Rightarrow> bytes" where
  "domains_slice f = take (unat (fl_count f)) (fl_domains f)"

text \<open>The three scans for a member share their loop: the first position that holds it.\<close>

definition member_pos :: "fleet \<Rightarrow> u8 \<Rightarrow> nat option" where
  "member_pos f member = List.find (\<lambda>i. fl_members f ! i = member) [0..<unat (fl_count f)]"

definition writable_state :: "u8 \<Rightarrow> bool" where
  "writable_state st \<longleftrightarrow> st AND (MEMBER_DRAINING OR MEMBER_COLD) = 0"

definition cold_state :: "u8 \<Rightarrow> bool" where
  "cold_state st \<longleftrightarrow> st AND MEMBER_COLD \<noteq> 0 \<and> st AND MEMBER_DRAINING = 0"

definition accepts_writes :: "fleet \<Rightarrow> u8 \<Rightarrow> bool" where
  "accepts_writes f member =
     (case member_pos f member of None \<Rightarrow> False | Some i \<Rightarrow> writable_state (fl_states f ! i))"

definition is_cold :: "fleet \<Rightarrow> u8 \<Rightarrow> bool" where
  "is_cold f member =
     (case member_pos f member of None \<Rightarrow> False | Some i \<Rightarrow> fl_states f ! i AND MEMBER_COLD \<noteq> 0)"

definition writable_count :: "fleet \<Rightarrow> nat" where
  "writable_count f = length (filter writable_state (states_slice f))"

definition cold_count :: "fleet \<Rightarrow> nat" where
  "cold_count f = length (filter cold_state (states_slice f))"

definition domain_of :: "fleet \<Rightarrow> u8 \<Rightarrow> u8" where
  "domain_of f member = (case member_pos f member of None \<Rightarrow> 0 | Some i \<Rightarrow> fl_domains f ! i)"

definition domain_count :: "fleet \<Rightarrow> nat" where
  "domain_count f =
     snd (fold (\<lambda>i (seen, n).
           let d = unat (fl_domains f ! i)
           in if \<not> seen ! d then (seen[d := True], n + 1) else (seen, n))
         [0..<unat (fl_count f)] (replicate 256 False, 0))"

section \<open>Ranking\<close>

definition weight :: "bytes \<Rightarrow> u8 \<Rightarrow> u64" where
  "weight key member =
     (let h = fold (\<lambda>i h. (h XOR ucast (key ! i)) * 0x100000001b3) [0..<PL_DIGEST_LEN] 0xcbf29ce484222325
      in (h XOR ucast member) * 0x100000001b3)"

type_synonym ranked = "u64 \<times> u8 \<times> u8"

definition max_from :: "nat \<Rightarrow> nat \<Rightarrow> ranked list \<Rightarrow> nat" where
  \<comment> \<open>the inner loop: the first position from \<open>i\<close> on that holds the largest weight\<close>
  "max_from cnt i ws = fold (\<lambda>j mx. if fst (ws ! mx) < fst (ws ! j) then j else mx) [i + 1..<cnt] i"

definition select_step :: "nat \<Rightarrow> nat \<Rightarrow> ranked list \<Rightarrow> ranked list" where
  "select_step cnt i ws =
     (let max_idx = max_from cnt i ws in if max_idx \<noteq> i then swap_lists i max_idx ws else ws)"

definition rank_members :: "bytes \<Rightarrow> fleet \<Rightarrow> ranked list" where
  "rank_members key f =
     (let cnt = unat (fl_count f);
          ws = fold (\<lambda>i ws. ws[i := (weight key (fl_members f ! i), fl_members f ! i, fl_domains f ! i)])
                 [0..<cnt] (replicate MAX_FLEET (0, 0, 0))
      in fold (select_step cnt) [0..<cnt] ws)"

section \<open>Picking\<close>

fun take_domains :: "nat \<Rightarrow> ranked list \<Rightarrow> bool list \<times> nat \<times> bytes \<Rightarrow> bool list \<times> nat \<times> bytes" where
  \<comment> \<open>the first pass: one member of each domain, in rank order\<close>
  "take_domains limit [] st = st"
| "take_domains limit ((w, m, dm) # rs) (used, taken, out) =
     (if taken = limit then (used, taken, out)
      else
        let d = unat dm
        in if \<not> used ! d then take_domains limit rs (used[d := True], taken + 1, out[taken := m])
           else take_domains limit rs (used, taken, out))"

fun fill_ranked :: "nat \<Rightarrow> ranked list \<Rightarrow> nat \<times> bytes \<Rightarrow> nat \<times> bytes" where
  \<comment> \<open>the second pass: whoever is not taken yet, in rank order\<close>
  "fill_ranked limit [] st = st"
| "fill_ranked limit ((w, m, dm) # rs) (taken, out) =
     (if taken = limit then (taken, out)
      else if list_ex (\<lambda>k. out ! k = m) [0..<taken] then fill_ranked limit rs (taken, out)
      else fill_ranked limit rs (taken + 1, out[taken := m]))"

definition pick_targets :: "bytes \<Rightarrow> u8 \<Rightarrow> fleet \<Rightarrow> bytes \<Rightarrow> nat \<times> bytes" where
  "pick_targets key n f out =
     (let limit = min (min (unat n) (unat (fl_count f))) (length out)
      in if limit = 0 then (0, out)
         else
           let rs = take (unat (fl_count f)) (rank_members key f);
               (used, taken, out) = take_domains limit rs (replicate 256 False, 0, out)
           in if taken < limit then fill_ranked limit rs (taken, out) else (taken, out))"

definition keep_members :: "(u8 \<Rightarrow> bool) \<Rightarrow> fleet \<Rightarrow> fleet" where
  \<comment> \<open>the loop both filtered picks build their fleet with\<close>
  "keep_members P f =
     (let (ms, ds, k) =
        fold (\<lambda>i (ms, ds, k).
            if P (fl_states f ! i) then (ms[k := fl_members f ! i], ds[k := fl_domains f ! i], k + 1)
            else (ms, ds, k))
          [0..<unat (fl_count f)] (replicate MAX_FLEET 0, replicate MAX_FLEET 0, 0)
      in \<lparr>fl_epoch = fl_epoch f, fl_members = ms, fl_domains = ds,
          fl_states = replicate MAX_FLEET MEMBER_ACTIVE, fl_count = word_of_nat k\<rparr>)"

definition pick_write_targets :: "bytes \<Rightarrow> u8 \<Rightarrow> fleet \<Rightarrow> bytes \<Rightarrow> nat \<times> bytes" where
  "pick_write_targets key n f out = pick_targets key n (keep_members writable_state f) out"

definition pick_cold_targets :: "bytes \<Rightarrow> u8 \<Rightarrow> fleet \<Rightarrow> bytes \<Rightarrow> nat \<times> bytes" where
  "pick_cold_targets key n f out = pick_targets key n (keep_members cold_state f) out"

definition colocated_count :: "bytes \<Rightarrow> nat \<Rightarrow> fleet \<Rightarrow> nat" where
  "colocated_count out n f =
     snd (fold (\<lambda>m (seen, dup).
           let d = unat (domain_of f m)
           in if seen ! d then (seen, dup + 1) else (seen[d := True], dup))
         (take n out) (replicate 256 False, 0))"

end
