(* ===== verification/Placement_Props.thy ===== *)
theory Placement_Props
  imports Placement "HOL-Library.Multiset"
begin

text \<open>
  What placement promises.  The ranking is the sort by weight, the two passes are
  described on the ranked list by \<open>picks\<close>, and the properties follow: the picks are
  distinct members in as many failure domains as there can be, they depend on the set
  of members alone, and a member leaving disturbs only the keys placed on it.
\<close>

section \<open>Ranking is sorting\<close>

text \<open>A fleet as the constructors and the decoder build it.\<close>

definition fleet_ok :: "fleet \<Rightarrow> bool" where
  "fleet_ok f \<longleftrightarrow> length (fl_members f) = MAX_FLEET \<and> length (fl_domains f) = MAX_FLEET \<and>
     length (fl_states f) = MAX_FLEET \<and> unat (fl_count f) \<le> MAX_FLEET"

definition fleet_distinct :: "fleet \<Rightarrow> bool" where
  "fleet_distinct f \<longleftrightarrow> fleet_ok f \<and> distinct (members_slice f)"

definition ranked_of :: "bytes \<Rightarrow> fleet \<Rightarrow> ranked list" where
  "ranked_of key f = map (\<lambda>(m, d). (weight key m, m, d)) (zip (members_slice f) (domains_slice f))"

lemma lengths_slice:
  assumes "fleet_ok f"
  shows "length (members_slice f) = unat (fl_count f)" "length (domains_slice f) = unat (fl_count f)"
    "length (states_slice f) = unat (fl_count f)"
  using assms by (simp_all add: fleet_ok_def members_slice_def domains_slice_def states_slice_def)

lemma weight_inj: "weight key a = weight key b \<longleftrightarrow> a = b"
proof
  assume eq: "weight key a = weight key b"
  let ?h = "fold (\<lambda>i h. (h XOR ucast (key ! i)) * 0x100000001b3) [0..<PL_DIGEST_LEN] 0xcbf29ce484222325 :: u64"
  have inv: "(0x100000001b3 * 0xCE965057AFF6957B :: u64) = 1" by simp
  have cancel: "x = y" if "x * 0x100000001b3 = y * 0x100000001b3" for x y :: u64
  proof -
    have "x * 0x100000001b3 * 0xCE965057AFF6957B = y * 0x100000001b3 * 0xCE965057AFF6957B"
      by (rule arg_cong [OF that])
    then show ?thesis by (simp only: mult.assoc inv mult_1_right)
  qed
  have "(?h XOR ucast a) = (?h XOR ucast b)" using eq unfolding weight_def Let_def by (rule cancel)
  then have "?h XOR (?h XOR ucast a) = ?h XOR (?h XOR ucast b)" by (rule arg_cong)
  then have "(ucast a :: u64) = ucast b" by (simp only: xor.assoc [symmetric] xor_self_eq xor.left_neutral)
  then have "unat (ucast a :: u64) = unat (ucast b :: u64)" by (rule arg_cong)
  then show "a = b" by (simp add: unat_ucast_up flip: word_unat_eq_iff)
qed simp

lemma max_from_spec:
  assumes "i < cnt"
  shows "i \<le> max_from cnt i ws \<and> max_from cnt i ws < cnt \<and>
    (\<forall>j. i \<le> j \<and> j < cnt \<longrightarrow> fst (ws ! j) \<le> fst (ws ! max_from cnt i ws))"
proof -
  let ?f = "\<lambda>j mx. if fst (ws ! mx) < fst (ws ! j) then j else mx"
  have "i < n \<Longrightarrow> n \<le> cnt \<Longrightarrow> i \<le> fold ?f [i + 1..<n] i \<and> fold ?f [i + 1..<n] i < n \<and>
      (\<forall>j. i \<le> j \<and> j < n \<longrightarrow> fst (ws ! j) \<le> fst (ws ! fold ?f [i + 1..<n] i))" for n
  proof (induction n)
    case (Suc n)
    show ?case
    proof (cases "i < n")
      case True
      then have u: "[i + 1..<Suc n] = [i + 1..<n] @ [n]" by simp
      show ?thesis unfolding u fold_append comp_apply using Suc True
        by (auto simp: less_Suc_eq intro: order.trans dest: order.strict_implies_order)
    next
      case False
      then have "n = i" using Suc.prems by simp
      then show ?thesis by (auto simp: less_Suc_eq)
    qed
  qed simp
  from this [of cnt] show ?thesis using assms by (simp add: max_from_def)
qed

definition prefix_max :: "nat \<Rightarrow> nat \<Rightarrow> ranked list \<Rightarrow> bool" where
  "prefix_max cnt i ws \<longleftrightarrow> (\<forall>a b. a < i \<and> a < b \<and> b < cnt \<longrightarrow> fst (ws ! b) \<le> fst (ws ! a))"

lemma select_step_ok:
  assumes "i < cnt" "cnt \<le> length ws" "prefix_max cnt i ws"
  shows "prefix_max cnt (Suc i) (select_step cnt i ws)" "length (select_step cnt i ws) = length ws"
    "mset (take cnt (select_step cnt i ws)) = mset (take cnt ws)"
proof -
  let ?m = "max_from cnt i ws"
  have m: "i \<le> ?m" "?m < cnt" "\<And>j. i \<le> j \<Longrightarrow> j < cnt \<Longrightarrow> fst (ws ! j) \<le> fst (ws ! ?m)"
    using max_from_spec [OF assms(1), of ws] by auto
  have sel: "select_step cnt i ws = swap_lists i ?m ws"
    by (simp add: select_step_def Let_def swap_lists_def)
  have n: "swap_lists i ?m ws ! j = ws ! (if j = i then ?m else if j = ?m then i else j)" if "j < cnt" for j
    using that assms m by (auto simp: swap_lists_def nth_list_update)
  show "prefix_max cnt (Suc i) (select_step cnt i ws)"
    unfolding sel prefix_max_def
  proof (intro allI impI)
    fix a b assume ab: "a < Suc i \<and> a < b \<and> b < cnt"
    let ?b = "if b = i then ?m else if b = ?m then i else b"
    show "fst (swap_lists i ?m ws ! b) \<le> fst (swap_lists i ?m ws ! a)"
    proof (cases "a = i")
      case True
      have "fst (ws ! ?b) \<le> fst (ws ! ?m)" using m ab True assms(1) by (intro m(3)) auto
      then show ?thesis using n [of a] n [of b] ab True assms(1) by simp
    next
      case False
      then have ai: "a < i" using ab by simp
      have "a < ?b \<and> ?b < cnt" using ab ai m assms(1) by auto
      then have "fst (ws ! ?b) \<le> fst (ws ! a)" using assms(3) ai unfolding prefix_max_def by blast
      then show ?thesis using n [of a] n [of b] ab ai m(1) by simp
    qed
  qed
  show "length (select_step cnt i ws) = length ws" by (simp add: sel)
  have "take cnt (swap_lists i ?m ws) = (take cnt ws)[i := take cnt ws ! ?m, ?m := take cnt ws ! i]"
    using assms(1,2) m(2) by (simp add: swap_lists_def take_update_swap)
  then show "mset (take cnt (select_step cnt i ws)) = mset (take cnt ws)"
    using mset_swap [of ?m "take cnt ws" i] assms(1,2) m(2) by (simp add: sel)
qed

lemma select_loop:
  assumes "i \<le> cnt" "cnt \<le> length ws"
  shows "prefix_max cnt i (fold (select_step cnt) [0..<i] ws) \<and>
    length (fold (select_step cnt) [0..<i] ws) = length ws \<and>
    mset (take cnt (fold (select_step cnt) [0..<i] ws)) = mset (take cnt ws)"
  using assms(1)
proof (induction i)
  case (Suc i)
  let ?w = "fold (select_step cnt) [0..<i] ws"
  have IH: "prefix_max cnt i ?w" "length ?w = length ws" "mset (take cnt ?w) = mset (take cnt ws)"
    using Suc by auto
  have "i < cnt" "cnt \<le> length ?w" using Suc.prems assms(2) IH(2) by simp_all
  note st = select_step_ok [OF this IH(1)]
  show ?case using st IH by simp
qed (simp add: prefix_max_def)

lemma rank_start:
  "n \<le> MAX_FLEET \<Longrightarrow>
   fold (\<lambda>i ws. ws[i := g i]) [0..<n] (replicate MAX_FLEET z) = map g [0..<n] @ replicate (MAX_FLEET - n) z"
proof (induction n)
  case (Suc n)
  then obtain d where d: "MAX_FLEET - n = Suc d" "MAX_FLEET - Suc n = d" by (metis Suc_diff_Suc Suc_le_lessD)
  then show ?case using Suc by (simp add: list_update_append)
qed simp

text \<open>The ranked list of the code is the members sorted by falling weight.\<close>

lemma rank_members_sort:
  assumes "fleet_distinct f"
  shows "take (unat (fl_count f)) (rank_members key f) = rev (sort_key fst (ranked_of key f))"
proof -
  let ?n = "unat (fl_count f)"
  have ok: "fleet_ok f" and dist: "distinct (members_slice f)" using assms by (simp_all add: fleet_distinct_def)
  have n: "?n \<le> MAX_FLEET" using ok by (simp add: fleet_ok_def)
  let ?g = "\<lambda>i. (weight key (fl_members f ! i), fl_members f ! i, fl_domains f ! i)"
  define w0 where "w0 = map ?g [0..<?n] @ replicate (MAX_FLEET - ?n) (0 :: u64, 0 :: u8, 0 :: u8)"
  define w where "w = fold (select_step ?n) [0..<?n] w0"
  have rm: "rank_members key f = w"
    unfolding rank_members_def Let_def w_def w0_def rank_start [OF n] ..
  have l0: "?n \<le> length w0" using n by (simp add: w0_def)
  note sl = select_loop [OF order_refl l0, folded w_def]
  have t0: "take ?n w0 = ranked_of key f"
    using ok lengths_slice [OF ok]
    by (intro nth_equalityI) (auto simp: w0_def ranked_of_def members_slice_def domains_slice_def fleet_ok_def)
  have m: "mset (ranked_of key f) = mset (rev (take ?n w))" using sl t0 by simp
  have "inj_on fst (set (ranked_of key f))"
  proof (rule inj_onI)
    fix a b assume ab: "a \<in> set (ranked_of key f)" "b \<in> set (ranked_of key f)" "fst a = fst b"
    then obtain i j where i: "i < ?n" "a = (weight key (members_slice f ! i), members_slice f ! i, domains_slice f ! i)"
      and j: "j < ?n" "b = (weight key (members_slice f ! j), members_slice f ! j, domains_slice f ! j)"
      using lengths_slice [OF ok] by (auto simp: ranked_of_def in_set_conv_nth)
    then have "members_slice f ! i = members_slice f ! j" using ab(3) by (simp add: weight_inj)
    then have "i = j" using dist i(1) j(1) lengths_slice [OF ok] by (simp add: nth_eq_iff_index_eq)
    then show "a = b" using i j by simp
  qed
  moreover have "sorted (map fst (rev (take ?n w)))"
  proof -
    have lw: "length w = length w0" and pm: "prefix_max ?n ?n w" using sl by simp_all
    have "sorted_wrt (\<lambda>x y. fst y \<le> fst x) (take ?n w)"
      unfolding sorted_wrt_iff_nth_less using pm lw l0 by (auto simp: prefix_max_def)
    then show ?thesis by (simp add: sorted_map sorted_wrt_rev)
  qed
  ultimately have "sort_key fst (ranked_of key f) = rev (take ?n w)"
    using m by (intro sort_key_inj_key_eq)
  then show ?thesis by (simp add: rm)
qed

section \<open>The two passes\<close>

fun firsts :: "u8 set \<Rightarrow> ranked list \<Rightarrow> bytes" where
  "firsts D [] = []"
| "firsts D ((w, m, d) # rs) = (if d \<in> D then firsts D rs else m # firsts (insert d D) rs)"

definition rmem :: "ranked \<Rightarrow> u8" where "rmem r = fst (snd r)"
definition rdom :: "ranked \<Rightarrow> u8" where "rdom r = snd (snd r)"

definition picks :: "ranked list \<Rightarrow> nat \<Rightarrow> bytes" where
  "picks rs limit =
     (let p = take limit (firsts {} rs)
      in p @ take (limit - length p) (filter (\<lambda>m. m \<notin> set p) (map rmem rs)))"

definition used_by :: "u8 set \<Rightarrow> bool list \<Rightarrow> bool" where
  "used_by D used \<longleftrightarrow> length used = 256 \<and> (\<forall>d :: u8. used ! unat d \<longleftrightarrow> d \<in> D)"

lemma used_by_step: "used_by D used \<Longrightarrow> used_by (insert d D) (used[unat d := True])"
  using unat_u8_less by (auto simp: used_by_def nth_list_update simp flip: word_unat_eq_iff)

lemma take_domains_firsts:
  assumes "used_by D used" "taken \<le> limit" "limit \<le> length out"
  shows "\<exists>used'. take_domains limit rs (used, taken, out) =
    (used', taken + length (take (limit - taken) (firsts D rs)),
     take taken out @ take (limit - taken) (firsts D rs) @ drop (taken + length (take (limit - taken) (firsts D rs))) out)"
  using assms
proof (induction limit rs "(used, taken, out)" arbitrary: D used taken out rule: take_domains.induct)
  case (2 limit w m d rs used taken out)
  show ?case
  proof (cases "taken = limit")
    case False
    then have lt: "taken < limit" using 2 by simp
    show ?thesis
    proof (cases "d \<in> D")
      case True
      then have "used ! unat d" using 2(3) by (simp add: used_by_def)
      then show ?thesis using 2(2) [OF False refl _ 2(3-5)] False True by simp
    next
      case nd: False
      then have "\<not> used ! unat d" using 2(3) by (simp add: used_by_def)
      moreover obtain e where e: "limit - taken = Suc e" "limit - Suc taken = e" using lt by (metis Suc_diff_Suc)
      moreover have "take (Suc taken) (out[taken := m]) = take taken out @ [m]"
        using lt 2(5) by (simp add: take_Suc_conv_app_nth)
      ultimately show ?thesis
        using 2(1) [OF False refl _ used_by_step [OF 2(3), of d]] False nd lt 2(5) by simp
    qed
  qed simp
qed simp

lemma fill_ranked_filter:
  assumes "taken \<le> limit" "limit \<le> length out" "distinct (map rmem rs)"
  defines "new \<equiv> take (limit - taken) (filter (\<lambda>m. m \<notin> set (take taken out)) (map rmem rs))"
  shows "fill_ranked limit rs (taken, out) =
    (taken + length new, take taken out @ new @ drop (taken + length new) out)"
  using assms(1-3) unfolding new_def
proof (induction limit rs "(taken, out)" arbitrary: taken out rule: fill_ranked.induct)
  case (2 limit w m d rs taken out)
  show ?case
  proof (cases "taken = limit")
    case False
    then have lt: "taken < limit" using 2 by simp
    have ex: "list_ex (\<lambda>k. out ! k = m) [0..<taken] \<longleftrightarrow> m \<in> set (take taken out)"
      using lt 2(4) by (auto simp: list_ex_iff in_set_conv_nth)
    have dm: "m \<notin> set (map rmem rs)" "distinct (map rmem rs)" using 2(5) by (auto simp: rmem_def)
    show ?thesis
    proof (cases "m \<in> set (take taken out)")
      case True
      then show ?thesis using 2(1) [OF False] ex False 2(3,4) dm by (simp add: rmem_def)
    next
      case nm: False
      obtain e where e: "limit - taken = Suc e" "limit - Suc taken = e" using lt by (metis Suc_diff_Suc)
      have tk: "take (Suc taken) (out[taken := m]) = take taken out @ [m]"
        using lt 2(4) by (simp add: take_Suc_conv_app_nth)
      have "filter (\<lambda>x. x \<notin> set (take taken out @ [m])) (map rmem rs) = filter (\<lambda>x. x \<notin> set (take taken out)) (map rmem rs)"
        using dm(1) by (intro filter_cong) auto
      then show ?thesis using 2(2) [OF False] ex False nm lt 2(4) dm e tk by (simp add: rmem_def)
    qed
  qed simp
qed simp

lemma set_firsts: "set (firsts D rs) \<subseteq> set (map rmem rs)"
  by (induction D rs rule: firsts.induct) (auto simp: rmem_def)

lemma distinct_firsts: "distinct (map rmem rs) \<Longrightarrow> distinct (firsts D rs)"
proof (induction D rs rule: firsts.induct)
  case (2 D w m d rs)
  then show ?case using set_firsts [of "insert d D" rs] by (auto simp: rmem_def)
qed simp

lemma picks_facts:
  assumes "distinct (map rmem rs)" "limit \<le> length rs"
  shows "distinct (picks rs limit)" "set (picks rs limit) \<subseteq> set (map rmem rs)" "length (picks rs limit) = limit"
proof -
  define p where "p = take limit (firsts {} rs)"
  define r where "r = filter (\<lambda>m. m \<notin> set p) (map rmem rs)"
  have pk: "picks rs limit = p @ take (limit - length p) r" by (simp only: picks_def Let_def p_def r_def)
  have dp: "distinct p" and sp: "set p \<subseteq> set (map rmem rs)"
    using distinct_firsts [OF assms(1)] set_firsts [of "{}" rs] by (auto simp: p_def dest: in_set_takeD)
  have dr: "distinct r" using assms(1) by (simp add: r_def)
  have sr: "set r = set (map rmem rs) - set p" by (auto simp: r_def)
  have tr: "set (take n r) \<subseteq> set r" "distinct (take n r)" for n using dr by (auto dest: in_set_takeD)
  show "distinct (picks rs limit)" "set (picks rs limit) \<subseteq> set (map rmem rs)"
    using dp tr [of "limit - length p"] sp sr unfolding pk by (auto simp del: set_map)
  have "card (set r) + card (set p) = card (set (map rmem rs))"
    unfolding sr using sp by (simp add: card_Diff_subset card_mono del: set_map)
  then have "length r + length p = length rs" using dr dp assms(1) by (simp only: distinct_card length_map)
  moreover have "length p \<le> limit" by (simp add: p_def)
  ultimately show "length (picks rs limit) = limit"
    using assms(2) unfolding pk by simp
qed

lemma pick_targets_picks:
  fixes key out :: bytes and n :: u8
  assumes "fleet_distinct f"
  defines "limit \<equiv> min (min (unat n) (unat (fl_count f))) (length out)"
    and "rs \<equiv> rev (sort_key fst (ranked_of key f))"
  shows "pick_targets key n f out = (limit, picks rs limit @ drop limit out)"
    and "distinct (map rmem rs)" "limit \<le> length rs"
proof -
  have ok: "fleet_ok f" and dist: "distinct (members_slice f)" using assms(1) by (simp_all add: fleet_distinct_def)
  have "map rmem (ranked_of key f) = members_slice f"
    using lengths_slice [OF ok] by (simp add: ranked_of_def rmem_def map_fst_zip split_def comp_def)
  then have mm: "mset (map rmem rs) = mset (members_slice f)"
    unfolding rs_def by (metis mset_map mset_rev mset_sort)
  then show drs: "distinct (map rmem rs)" using dist by (metis mset_eq_imp_distinct_iff)
  have "length rs = unat (fl_count f)" using arg_cong [OF mm, of size] lengths_slice [OF ok] by simp
  then show lrs: "limit \<le> length rs" by (simp add: limit_def)
  show "pick_targets key n f out = (limit, picks rs limit @ drop limit out)"
  proof (cases "limit = 0")
    case True
    then show ?thesis by (simp add: pick_targets_def limit_def [symmetric] picks_def)
  next
    case False
    have ub: "used_by {} (replicate 256 False)" using unat_u8_less by (simp add: used_by_def)
    have lo: "limit \<le> length out" by (simp add: limit_def)
    define p where "p = take limit (firsts {} rs)"
    obtain used where td: "take_domains limit rs (replicate 256 False, 0, out) = (used, length p, p @ drop (length p) out)"
      using take_domains_firsts [OF ub le0 lo, of rs] unfolding p_def by auto
    have pl: "length p \<le> limit" by (simp add: p_def)
    have tk: "take (length p) (p @ drop (length p) out) = p"
      "\<And>k. drop (length p + k) (p @ drop (length p) out) = drop (length p + k) out"
      by (simp_all add: add.commute)
    let ?new = "take (limit - length p) (filter (\<lambda>m. m \<notin> set p) (map rmem rs))"
    have fr: "fill_ranked limit rs (length p, p @ drop (length p) out) = (length p + length ?new, p @ ?new @ drop (length p + length ?new) out)"
      using fill_ranked_filter [of "length p" limit "p @ drop (length p) out" rs] pl lo drs unfolding tk by simp
    have pk: "picks rs limit = p @ ?new" by (simp only: picks_def Let_def p_def)
    have ln: "length p + length ?new = limit"
      using picks_facts(3) [OF drs lrs] unfolding pk by simp
    have rsd: "take (unat (fl_count f)) (rank_members key f) = rs"
      unfolding rs_def by (rule rank_members_sort [OF assms(1)])
    show ?thesis
    proof (cases "length p < limit")
      case True
      then show ?thesis using False
        unfolding pick_targets_def Let_def limit_def [symmetric] rsd td split_conv fr ln pk by simp
    next
      case nl: False
      then have "length p = limit" using pl by simp
      then show ?thesis using False nl
        unfolding pick_targets_def Let_def limit_def [symmetric] rsd td split_conv pk by simp
    qed
  qed
qed

section \<open>Failure domains\<close>

text \<open>The domains of a list of members, by a ranked list that names each member once.\<close>

definition rdom_of :: "ranked list \<Rightarrow> u8 \<Rightarrow> u8" where
  "rdom_of rs m = (case List.find (\<lambda>r. rmem r = m) rs of Some r \<Rightarrow> rdom r | None \<Rightarrow> 0)"

lemma rdom_of_in:
  assumes "distinct (map rmem rs)" "r \<in> set rs"
  shows "rdom_of rs (rmem r) = rdom r"
  using assms by (induction rs) (auto simp: rdom_of_def)

lemma firsts_domains:
  assumes dom: "\<And>r. r \<in> set rs \<Longrightarrow> g (rmem r) = rdom r"
  shows "distinct (map g (firsts D rs)) \<and> g ` set (firsts D rs) = rdom ` set rs - D"
  using assms
proof (induction D rs rule: firsts.induct)
  case (2 D w m d rs)
  have g: "g m = d" and rd: "rdom (w, m, d) = d"
    using 2(3) [of "(w, m, d)"] by (simp_all add: rmem_def rdom_def)
  have IH: "distinct (map g (firsts E rs)) \<and> g ` set (firsts E rs) = rdom ` set rs - E"
    if "E = (if d \<in> D then D else insert d D)" for E
    using 2 that by (cases "d \<in> D") auto
  show ?case using IH [OF refl] g rd by auto
qed simp

text \<open>As many domains as there are picks, or all there are.\<close>

lemma picks_domains:
  assumes d: "distinct (map rmem rs)" and l: "limit \<le> length rs"
  shows "card (rdom_of rs ` set (picks rs limit)) = min limit (card (rdom ` set rs))"
proof -
  let ?g = "rdom_of rs"
  let ?F = "firsts {} rs"
  have F: "distinct (map ?g ?F)" "?g ` set ?F = rdom ` set rs"
    using firsts_domains [of rs ?g "{}"] rdom_of_in [OF d] by auto
  have lF: "length ?F = card (rdom ` set rs)"
    using F distinct_card [OF F(1)] by simp
  have sub: "?g ` set (picks rs limit) \<subseteq> rdom ` set rs"
    using picks_facts(2) [OF d l] rdom_of_in [OF d] by fastforce
  have pre: "set (take limit ?F) \<subseteq> set (picks rs limit)" by (auto simp: picks_def Let_def)
  show ?thesis
  proof (cases "limit \<le> length ?F")
    case True
    have "picks rs limit = take limit ?F" using True by (simp add: picks_def Let_def)
    moreover have "distinct (map ?g (take limit ?F))" using F(1) by (simp add: take_map [symmetric])
    from distinct_card [OF this] have "card (?g ` set (take limit ?F)) = limit" using True by simp
    ultimately show ?thesis using True lF by simp
  next
    case False
    then have "?g ` set ?F \<subseteq> ?g ` set (picks rs limit)" using pre by auto
    then have "?g ` set (picks rs limit) = rdom ` set rs" using sub F(2) by auto
    then show ?thesis using False lF by simp
  qed
qed

section \<open>Members that are not picked\<close>

lemma firsts_without:
  assumes "x \<notin> set (take l (firsts D rs))"
  shows "take l (firsts D (filter (\<lambda>r. rmem r \<noteq> x) rs)) = take l (firsts D rs)"
  using assms
proof (induction D rs arbitrary: l rule: firsts.induct)
  case (2 D w m d rs)
  show ?case
  proof (cases l)
    case (Suc k)
    show ?thesis
    proof (cases "d \<in> D")
      case True
      then show ?thesis using 2(1) [OF True, of l] 2(3) by (simp add: rmem_def)
    next
      case False
      then show ?thesis using 2(2) [OF False, of k] 2(3) Suc by (auto simp: rmem_def)
    qed
  qed simp
qed simp

lemma take_filter_without:
  "x \<notin> set (take n xs) \<Longrightarrow> take n (filter (\<lambda>y. y \<noteq> x) xs) = take n xs"
  by (induction xs arbitrary: n) (auto simp: take_Cons split: nat.splits)

lemma picks_without:
  assumes "x \<notin> set (picks rs limit)"
  shows "picks (filter (\<lambda>r. rmem r \<noteq> x) rs) limit = picks rs limit"
proof -
  let ?p = "take limit (firsts {} rs)"
  have p: "take limit (firsts {} (filter (\<lambda>r. rmem r \<noteq> x) rs)) = ?p"
    using assms by (intro firsts_without) (auto simp: picks_def Let_def)
  have "map rmem (filter (\<lambda>r. rmem r \<noteq> x) rs) = filter (\<lambda>m. m \<noteq> x) (map rmem rs)"
    by (simp add: filter_map comp_def)
  then have "filter (\<lambda>m. m \<notin> set ?p) (map rmem (filter (\<lambda>r. rmem r \<noteq> x) rs))
      = filter (\<lambda>m. m \<noteq> x) (filter (\<lambda>m. m \<notin> set ?p) (map rmem rs))"
    by (simp add: conj_commute)
  moreover have "x \<notin> set (take (limit - length ?p) (filter (\<lambda>m. m \<notin> set ?p) (map rmem rs)))"
    using assms by (auto simp: picks_def Let_def)
  ultimately show ?thesis by (simp only: picks_def Let_def p take_filter_without simp_thms)
qed

section \<open>Looking a member up\<close>

lemma member_pos_nth:
  assumes "fleet_distinct f" "i < unat (fl_count f)"
  shows "member_pos f (fl_members f ! i) = Some i"
proof -
  let ?c = "unat (fl_count f)"
  have ok: "fleet_ok f" and dist: "distinct (members_slice f)" using assms(1) by (simp_all add: fleet_distinct_def)
  have lc: "?c \<le> length (fl_members f)" using ok by (simp add: fleet_ok_def)
  have inj: "fl_members f ! a = fl_members f ! b \<longleftrightarrow> a = b" if "a < ?c" "b < ?c" for a b
    using nth_eq_iff_index_eq [OF dist, of a b] that lc by (simp add: members_slice_def)
  have "List.find (\<lambda>j. fl_members f ! j = fl_members f ! i) [0..<?c] = Some i"
    unfolding find_Some_iff using assms(2) inj by (intro exI [of _ i]) auto
  then show ?thesis by (simp add: member_pos_def)
qed

lemma domain_of_zip:
  assumes "fleet_distinct f" "(m, d) \<in> set (zip (members_slice f) (domains_slice f))"
  shows "domain_of f m = d"
proof -
  have ok: "fleet_ok f" using assms(1) by (simp add: fleet_distinct_def)
  obtain i where i: "i < unat (fl_count f)" "m = fl_members f ! i" "d = fl_domains f ! i"
    using assms(2) lengths_slice [OF ok] by (auto simp: in_set_zip members_slice_def domains_slice_def)
  then show ?thesis using member_pos_nth [OF assms(1) i(1)] by (simp add: domain_of_def)
qed

lemma seen_fold:
  assumes "used_by D seen"
  shows "\<exists>seen'. fold (\<lambda>x (seen, n). let d = unat (g x) in if \<not> seen ! d then (seen[d := True], n + 1) else (seen, n))
      xs (seen, n) = (seen', n + card (g ` set xs - D))"
  using assms
proof (induction xs arbitrary: D seen n)
  case (Cons x xs)
  let ?d = "g x"
  show ?case
  proof (cases "?d \<in> D")
    case True
    then have "seen ! unat ?d" "g ` set (x # xs) - D = g ` set xs - D"
      using Cons.prems by (auto simp: used_by_def)
    then show ?thesis using Cons.IH [OF Cons.prems, of n] by (simp add: Let_def)
  next
    case False
    then have ns: "\<not> seen ! unat ?d" using Cons.prems by (simp add: used_by_def)
    have "g ` set (x # xs) - D = insert ?d (g ` set xs - insert ?d D)" using False by auto
    then have "card (g ` set (x # xs) - D) = Suc (card (g ` set xs - insert ?d D))" by simp
    then show ?thesis using Cons.IH [OF used_by_step [OF Cons.prems, of ?d], of "n + 1"] ns by (simp add: Let_def)
  qed
qed simp

lemma used_by_none: "used_by {} (replicate 256 False)"
  using unat_u8_less by (simp add: used_by_def)

lemma domain_count_card:
  assumes "fleet_ok f"
  shows "domain_count f = card (set (domains_slice f))"
proof -
  have "set (domains_slice f) = (\<lambda>i. fl_domains f ! i) ` set [0..<unat (fl_count f)]"
  proof -
    have "domains_slice f = map (\<lambda>i. fl_domains f ! i) [0..<unat (fl_count f)]"
      using assms by (intro nth_equalityI) (simp_all add: domains_slice_def fleet_ok_def)
    then show ?thesis by (metis set_map)
  qed
  then show ?thesis
    using seen_fold [OF used_by_none, of "\<lambda>i. fl_domains f ! i" "[0..<unat (fl_count f)]" 0]
    unfolding domain_count_def by auto
qed

lemma colocated_card:
  "colocated_count out n f + card (domain_of f ` set (take n out)) = length (take n out)"
proof -
  have "used_by D seen \<Longrightarrow>
      snd (fold (\<lambda>m (seen, dup). let d = unat (domain_of f m) in if seen ! d then (seen, dup + 1) else (seen[d := True], dup))
        xs (seen, k)) + card (domain_of f ` set xs - D) = k + length xs" for D seen k xs
  proof (induction xs arbitrary: D seen k)
    case (Cons x xs)
    let ?d = "domain_of f x"
    show ?case
    proof (cases "?d \<in> D")
      case True
      then have "seen ! unat ?d" "domain_of f ` set (x # xs) - D = domain_of f ` set xs - D"
        using Cons.prems by (auto simp: used_by_def)
      then show ?thesis using Cons.IH [OF Cons.prems, of "k + 1"] by (simp add: Let_def)
    next
      case False
      then have ns: "\<not> seen ! unat ?d" using Cons.prems by (simp add: used_by_def)
      have "domain_of f ` set (x # xs) - D = insert ?d (domain_of f ` set xs - insert ?d D)" using False by auto
      then have "card (domain_of f ` set (x # xs) - D) = Suc (card (domain_of f ` set xs - insert ?d D))" by simp
      then show ?thesis using Cons.IH [OF used_by_step [OF Cons.prems, of ?d], of k] ns by (simp add: Let_def)
    qed
  qed simp
  from this [OF used_by_none, of "take n out" 0] show ?thesis by (simp add: colocated_count_def)
qed

section \<open>Properties\<close>

lemma ranked_members:
  fixes key :: bytes
  assumes "fleet_distinct f"
  defines "rs \<equiv> rev (sort_key fst (ranked_of key f))"
  shows "set (map rmem rs) = set (members_slice f)" "rdom ` set rs = set (domains_slice f)"
    and "r \<in> set rs \<Longrightarrow> rdom r = domain_of f (rmem r)"
proof -
  have ok: "fleet_ok f" using assms(1) by (simp add: fleet_distinct_def)
  have "map rmem (ranked_of key f) = members_slice f" "map rdom (ranked_of key f) = domains_slice f"
    using lengths_slice [OF ok]
    by (simp_all add: ranked_of_def rmem_def rdom_def map_fst_zip map_snd_zip split_def comp_def)
  then show "set (map rmem rs) = set (members_slice f)" "rdom ` set rs = set (domains_slice f)"
    unfolding rs_def by (metis set_map set_rev set_sort)+
  show "rdom r = domain_of f (rmem r)" if "r \<in> set rs"
    using that domain_of_zip [OF assms(1)] unfolding rs_def
    by (auto simp: ranked_of_def rmem_def rdom_def)
qed

lemma pick_spread:
  assumes "fleet_distinct f" and "pick_targets key n f out = (r, out')"
  shows "r = min (min (unat n) (unat (fl_count f))) (length out) \<and>
    distinct (take r out') \<and> set (take r out') \<subseteq> set (members_slice f) \<and>
    length out' = length out \<and> drop r out' = drop r out \<and>
    card (domain_of f ` set (take r out')) = min r (domain_count f) \<and>
    colocated_count out' r f = r - domain_count f"
proof -
  let ?limit = "min (min (unat n) (unat (fl_count f))) (length out)"
  let ?rs = "rev (sort_key fst (ranked_of key f))"
  note pt = pick_targets_picks(1) [OF assms(1), where key = key and n = n and out = out]
    pick_targets_picks(2) [OF assms(1), where key = key]
    pick_targets_picks(3) [OF assms(1), where key = key and n = n and out = out]
  note pf = picks_facts [OF pt(2,3)]
  have ok: "fleet_ok f" using assms(1) by (simp add: fleet_distinct_def)
  have r: "r = ?limit" and out': "out' = picks ?rs ?limit @ drop ?limit out"
    using pt(1) assms(2) by simp_all
  have lo: "?limit \<le> length out" by simp
  have tk: "take r out' = picks ?rs ?limit" unfolding r out' using pf(3) by simp
  have dm: "domain_of f m = rdom_of ?rs m" if "m \<in> set (take r out')" for m
  proof -
    obtain e where "e \<in> set ?rs" "m = rmem e" using \<open>m \<in> _\<close> pf(2) tk by fastforce
    then show ?thesis using rdom_of_in [OF pt(2)] ranked_members(3) [OF assms(1)] by metis
  qed
  have img: "domain_of f ` set (take r out') = rdom_of ?rs ` set (take r out')"
    by (rule image_cong [OF refl dm])
  have cd: "card (domain_of f ` set (take r out')) = min r (domain_count f)"
  proof -
    have e: "rdom_of ?rs ` set (take r out') = rdom_of ?rs ` set (picks ?rs ?limit)" by (simp only: tk)
    show ?thesis
      unfolding img e picks_domains [OF pt(2,3)] ranked_members(2) [OF assms(1)] domain_count_card [OF ok]
      by (simp only: r)
  qed
  have lt: "length (take r out') = r" unfolding tk using pf(3) r by simp
  have "colocated_count out' r f = r - domain_count f"
    using colocated_card [of out' r f] unfolding cd lt by linarith
  moreover have "length out' = length out" "drop r out' = drop r out"
    using pf(3) lo unfolding r out' by simp_all
  moreover have "distinct (take r out')" "set (take r out') \<subseteq> set (members_slice f)"
    unfolding tk using pf ranked_members(1) [OF assms(1), of key] by blast+
  ultimately show ?thesis using r cd by blast
qed

text \<open>C32: placement gives as many distinct members as it can, in as many failure
  domains as there can be; the rest of the caller's buffer is untouched, and the
  health surface counts exactly the replicas that add no independence.\<close>

theorem pick_targets_spread:
  assumes "fleet_distinct f" and "pick_targets key n f out = (r, out')"
  shows "r = min (min (unat n) (unat (fl_count f))) (length out) \<and>
    distinct (take r out') \<and> set (take r out') \<subseteq> set (members_slice f) \<and>
    length out' = length out \<and> drop r out' = drop r out \<and>
    card (domain_of f ` set (take r out')) = min r (domain_count f) \<and>
    colocated_count out' r f = r - domain_count f"
  using pick_spread [OF assms] .

text \<open>C33: members that hold no replica of a key do not matter to it.  A fleet that
  differs by the absence of one such member, or only in the order of its list, gives
  the same targets in the same order.\<close>

theorem pick_targets_minimal_disruption:
  assumes f: "fleet_distinct f" and g: "fleet_distinct g"
    and same: "mset (zip (members_slice g) (domains_slice g)) =
        mset (filter (\<lambda>(m, d). m \<noteq> x) (zip (members_slice f) (domains_slice f)))"
    and pick: "pick_targets key n f out = (r, out')" and unpicked: "x \<notin> set (take r out')"
  shows "pick_targets key n g out = (r, out')"
proof -
  let ?limit = "\<lambda>h. min (min (unat n) (unat (fl_count h))) (length out)"
  let ?rs = "\<lambda>h. rev (sort_key fst (ranked_of key h))"
  note pf = pick_targets_picks(1) [OF f, where key = key and n = n and out = out]
    pick_targets_picks(2) [OF f, where key = key]
    pick_targets_picks(3) [OF f, where key = key and n = n and out = out] and pg = pick_targets_picks(1) [OF g, where key = key and n = n and out = out]
    pick_targets_picks(2) [OF g, where key = key]
    pick_targets_picks(3) [OF g, where key = key and n = n and out = out]
  have r: "r = ?limit f" and out': "out' = picks (?rs f) (?limit f) @ drop (?limit f) out"
    using pf(1) pick by simp_all
  have tk: "take r out' = picks (?rs f) (?limit f)" unfolding r out' using picks_facts(3) [OF pf(2,3)] by simp
  have okf: "fleet_ok f" "fleet_ok g" using f g by (simp_all add: fleet_distinct_def)
  let ?w = "\<lambda>(m, d). (weight key m, m, d)"
  have "mset (ranked_of key g) = image_mset ?w (mset (filter (\<lambda>(m, d). m \<noteq> x) (zip (members_slice f) (domains_slice f))))"
    unfolding ranked_of_def mset_map same ..
  also have "\<dots> = mset (filter (\<lambda>e. rmem e \<noteq> x) (ranked_of key f))"
    by (simp add: ranked_of_def filter_map comp_def split_def rmem_def flip: mset_filter)
  finally have mg: "mset (ranked_of key g) = mset (filter (\<lambda>e. rmem e \<noteq> x) (ranked_of key f))" .
  have inj: "inj_on fst (set (ranked_of key g))"
  proof (rule inj_onI)
    fix a b assume ab: "a \<in> set (ranked_of key g)" "b \<in> set (ranked_of key g)" "fst a = fst b"
    then obtain m d m' d' where a: "a = (weight key m, m, d)" "(m, d) \<in> set (zip (members_slice g) (domains_slice g))"
      and b: "b = (weight key m', m', d')" "(m', d') \<in> set (zip (members_slice g) (domains_slice g))"
      by (auto simp: ranked_of_def)
    then have "m = m'" using ab(3) by (simp add: weight_inj)
    then show "a = b" using a b domain_of_zip [OF g] by metis
  qed
  have "sort_key fst (ranked_of key g) = filter (\<lambda>e. rmem e \<noteq> x) (sort_key fst (ranked_of key f))"
  proof (rule sort_key_inj_key_eq [OF _ inj])
    show "mset (ranked_of key g) = mset (filter (\<lambda>e. rmem e \<noteq> x) (sort_key fst (ranked_of key f)))"
      using mg by simp
    show "sorted (map fst (filter (\<lambda>e. rmem e \<noteq> x) (sort_key fst (ranked_of key f))))"
      by (simp add: sorted_filter)
  qed
  then have rs: "?rs g = filter (\<lambda>e. rmem e \<noteq> x) (?rs f)" by (simp add: rev_filter)
  have lg: "?limit g = ?limit f"
  proof (cases "x \<in> set (members_slice f)")
    case False
    then have "filter (\<lambda>(m, d). m \<noteq> x) (zip (members_slice f) (domains_slice f)) = zip (members_slice f) (domains_slice f)"
      by (auto simp: filter_id_conv dest: set_zip_leftD)
    then have "unat (fl_count g) = unat (fl_count f)"
      using arg_cong [OF same, of size] lengths_slice [OF okf(1)] lengths_slice [OF okf(2)] by simp
    then show ?thesis by simp
  next
    case True
    let ?ms = "map rmem (?rs f)"
    have xm: "x \<in> set ?ms" using True ranked_members(1) [OF f] by simp
    have "length (filter (\<lambda>m. m \<noteq> x) ?ms) = card (set ?ms - {x})"
      using distinct_card [OF distinct_filter [OF pf(2), of "\<lambda>m. m \<noteq> x"]] by (metis set_minus_filter_out)
    also have "\<dots> = length ?ms - 1"
      unfolding card_Diff_singleton [OF xm] distinct_card [OF pf(2)] ..
    finally have "length (filter (\<lambda>m. m \<noteq> x) ?ms) = length ?ms - 1" .
    then have lrs: "length (?rs g) = length (?rs f) - 1"
      unfolding rs length_map filter_map by (simp only: length_map comp_def)
    have lc: "length (?rs h) = unat (fl_count h)" if "fleet_ok h" for h
      using lengths_slice [OF that] by (simp add: ranked_of_def)
    have "\<not> length (?rs f) \<le> ?limit f"
    proof
      assume "length (?rs f) \<le> ?limit f"
      then have eq: "length (?rs f) = ?limit f" using pf(3) by (rule order_antisym)
      have c1: "card (set (picks (?rs f) (?limit f))) = ?limit f"
        using distinct_card [OF picks_facts(1) [OF pf(2,3)]] picks_facts(3) [OF pf(2,3)] by (simp only:)
      have c2: "card (set (map rmem (?rs f))) = length (?rs f)"
        using distinct_card [OF pf(2)] by (simp only: length_map)
      have "card (set (picks (?rs f) (?limit f))) = card (set (map rmem (?rs f)))"
        unfolding c1 c2 eq ..
      then have "set (picks (?rs f) (?limit f)) = set (map rmem (?rs f))"
        using picks_facts(2) [OF pf(2,3)] by (intro card_subset_eq) auto
      then show False using xm unpicked tk by simp
    qed
    then show ?thesis using lrs lc [OF okf(1)] lc [OF okf(2)] by (auto simp: min_def)
  qed
  have "picks (?rs g) (?limit g) = picks (?rs f) (?limit f)"
    unfolding rs lg using unpicked tk by (intro picks_without) simp
  then show ?thesis using pg(1) r out' lg by simp
qed

section \<open>Filtered fleets\<close>

lemma keep_members_loop:
  assumes "n \<le> MAX_FLEET"
  shows "fold (\<lambda>i (ms, ds, k).
            if P i then (ms[k := a i], ds[k := b i], k + 1) else (ms, ds, k))
          [0..<n] (replicate MAX_FLEET 0, replicate MAX_FLEET 0, 0) =
    (let idx = filter P [0..<n]
     in (map a idx @ replicate (MAX_FLEET - length idx) 0, map b idx @ replicate (MAX_FLEET - length idx) 0, length idx))"
  using assms
proof (induction n)
  case (Suc n)
  let ?idx = "filter P [0..<n]"
  have "length ?idx \<le> n" using length_filter_le [of P "[0..<n]"] by simp
  then obtain d where d: "MAX_FLEET - length ?idx = Suc d" "MAX_FLEET - Suc (length ?idx) = d"
    using Suc.prems by (metis Suc_diff_Suc Suc_le_lessD order_le_less_trans)
  then show ?case using Suc by (simp add: Let_def list_update_append)
qed simp

lemma keep_members_slices:
  fixes P :: "u8 \<Rightarrow> bool"
  assumes "fleet_ok f"
  defines "idx \<equiv> filter (\<lambda>i. P (fl_states f ! i)) [0..<unat (fl_count f)]"
  shows "members_slice (keep_members P f) = map (\<lambda>i. fl_members f ! i) idx"
    and "domains_slice (keep_members P f) = map (\<lambda>i. fl_domains f ! i) idx"
    and "fleet_ok (keep_members P f)" "unat (fl_count (keep_members P f)) = length idx"
proof -
  have n: "unat (fl_count f) \<le> MAX_FLEET" using assms(1) by (simp add: fleet_ok_def)
  have "length idx \<le> unat (fl_count f)"
    using length_filter_le [of "\<lambda>i. P (fl_states f ! i)" "[0..<unat (fl_count f)]"] by (simp add: idx_def)
  then have li: "length idx \<le> MAX_FLEET" "unat (word_of_nat (length idx) :: u8) = length idx"
    using n by (simp_all add: unat_of_nat_small MAX_FLEET_def)
  have km: "keep_members P f = \<lparr>fl_epoch = fl_epoch f,
      fl_members = map (\<lambda>i. fl_members f ! i) idx @ replicate (MAX_FLEET - length idx) 0,
      fl_domains = map (\<lambda>i. fl_domains f ! i) idx @ replicate (MAX_FLEET - length idx) 0,
      fl_states = replicate MAX_FLEET MEMBER_ACTIVE, fl_count = word_of_nat (length idx)\<rparr>"
    unfolding keep_members_def keep_members_loop [OF n] Let_def split_conv idx_def ..
  show "members_slice (keep_members P f) = map (\<lambda>i. fl_members f ! i) idx"
    "domains_slice (keep_members P f) = map (\<lambda>i. fl_domains f ! i) idx"
    "fleet_ok (keep_members P f)" "unat (fl_count (keep_members P f)) = length idx"
    using li by (simp_all add: km members_slice_def domains_slice_def fleet_ok_def)
qed

lemma keep_members_distinct:
  assumes f: "fleet_distinct f"
  shows "fleet_distinct (keep_members P f)"
    and "set (members_slice (keep_members P f)) = {m \<in> set (members_slice f).
           case member_pos f m of None \<Rightarrow> False | Some i \<Rightarrow> P (fl_states f ! i)}"
    and "unat (fl_count (keep_members P f)) = length (filter P (states_slice f))"
    and "m \<in> set (members_slice (keep_members P f)) \<Longrightarrow> domain_of (keep_members P f) m = domain_of f m"
proof -
  let ?n = "unat (fl_count f)"
  let ?idx = "filter (\<lambda>i. P (fl_states f ! i)) [0..<?n]"
  have ok: "fleet_ok f" and dist: "distinct (members_slice f)" using f by (simp_all add: fleet_distinct_def)
  note sl = keep_members_slices [OF ok, of P]
  have ms: "members_slice f = map (\<lambda>i. fl_members f ! i) [0..<?n]" "states_slice f = map (\<lambda>i. fl_states f ! i) [0..<?n]"
    using ok by (auto intro!: nth_equalityI simp: members_slice_def states_slice_def fleet_ok_def)
  have "inj_on (\<lambda>i. fl_members f ! i) (set [0..<?n])" using dist unfolding ms by (simp add: distinct_map)
  then have "distinct (members_slice (keep_members P f))"
    unfolding sl(1) by (auto simp: distinct_map intro: inj_on_subset)
  then show fd: "fleet_distinct (keep_members P f)" using sl(3) by (simp add: fleet_distinct_def)
  have pos: "member_pos f (fl_members f ! i) = Some i" if "i < ?n" for i by (rule member_pos_nth [OF f that])
  show "set (members_slice (keep_members P f)) = {m \<in> set (members_slice f).
      case member_pos f m of None \<Rightarrow> False | Some i \<Rightarrow> P (fl_states f ! i)}"
    unfolding sl(1) ms using pos by auto
  show "unat (fl_count (keep_members P f)) = length (filter P (states_slice f))"
    unfolding sl(4) ms by (simp add: filter_map comp_def)
  assume "m \<in> set (members_slice (keep_members P f))"
  then obtain i where i: "i \<in> set ?idx" "m = fl_members f ! i" unfolding sl(1) by auto
  have "(m, fl_domains f ! i) \<in> set (zip (members_slice (keep_members P f)) (domains_slice (keep_members P f)))"
    unfolding sl(1,2) i(2) zip_map_map zip_same_conv_map using i(1) by auto
  then have "domain_of (keep_members P f) m = fl_domains f ! i" by (rule domain_of_zip [OF fd])
  then show "domain_of (keep_members P f) m = domain_of f m"
    using pos [of i] i by (simp add: domain_of_def [of f])
qed

lemma pick_kept:
  assumes f: "fleet_distinct f" and pick: "pick_targets key n (keep_members P f) out = (r, out')"
  defines "ok \<equiv> {m \<in> set (members_slice f). case member_pos f m of None \<Rightarrow> False | Some i \<Rightarrow> P (fl_states f ! i)}"
  shows "r = min (min (unat n) (length (filter P (states_slice f)))) (length out) \<and>
    distinct (take r out') \<and> set (take r out') \<subseteq> ok \<and>
    card (domain_of f ` set (take r out')) = min r (card (domain_of f ` ok))"
proof -
  let ?g = "keep_members P f"
  note km = keep_members_distinct [OF f, where P = P]
  have okg: "fleet_ok ?g" using km(1) by (simp add: fleet_distinct_def)
  note sp = pick_spread [OF km(1) pick]
  have sub: "set (take r out') \<subseteq> ok" using sp km(2) by (auto simp: ok_def)
  have e1: "domain_of ?g ` set (take r out') = domain_of f ` set (take r out')"
    using sp km(4) by (intro image_cong) auto
  have e2: "set (domains_slice ?g) = domain_of ?g ` set (members_slice ?g)"
  proof -
    have "domains_slice ?g = map (domain_of ?g) (members_slice ?g)"
    proof (rule nth_equalityI)
      fix i assume i: "i < length (domains_slice ?g)"
      then have "(members_slice ?g ! i, domains_slice ?g ! i) \<in> set (zip (members_slice ?g) (domains_slice ?g))"
        using lengths_slice [OF okg] by (auto simp: set_zip)
      then show "domains_slice ?g ! i = map (domain_of ?g) (members_slice ?g) ! i"
        using domain_of_zip [OF km(1)] i lengths_slice [OF okg] by simp
    qed (use lengths_slice [OF okg] in simp)
    then show ?thesis by (metis set_map)
  qed
  have e3: "domain_of ?g ` set (members_slice ?g) = domain_of f ` ok"
    unfolding ok_def km(2) [symmetric] using km(4) by (intro image_cong) auto
  show ?thesis using sp sub unfolding km(3) domain_count_card [OF okg] e1 e2 e3 by blast
qed


text \<open>Four members in three racks; three replicas; the member that holds none leaves.\<close>

definition demo_fleet :: fleet where
  "demo_fleet = fleet_from_parts 7 [1, 2, 3, 4] [0, 0, 1, 2] [0, 0, 1, 2]"

lemma demo_fleet_distinct: "fleet_distinct demo_fleet"
  by (simp add: demo_fleet_def fleet_from_parts_def fleet_distinct_def fleet_ok_def members_slice_def
      copy_prefix_def MAX_FLEET_def Let_def)

lemma pick_targets_spread_witness:
  "fleet_distinct demo_fleet \<and>
   pick_targets (replicate 32 5) 3 demo_fleet (replicate 5 0) = (3, [2, 3, 4, 0, 0]) \<and>
   card (domain_of demo_fleet ` set (take 3 [2, 3, 4, 0, 0])) = min 3 (domain_count demo_fleet)"
proof -
  have "pick_targets (replicate 32 5) 3 demo_fleet (replicate 5 0) = (3, [2, 3, 4, 0, 0])" by code_simp
  with pick_targets_spread [OF demo_fleet_distinct this] demo_fleet_distinct show ?thesis by blast
qed

lemma pick_targets_minimal_disruption_witness:
  "pick_targets (replicate 32 5) 3 (fleet_from_parts 8 [4, 3, 2] [2, 1, 0] []) (replicate 5 0) = (3, [2, 3, 4, 0, 0])"
proof (rule pick_targets_minimal_disruption [OF demo_fleet_distinct, where x = 1])
  let ?g = "fleet_from_parts 8 [4, 3, 2] [2, 1, 0] []"
  show "fleet_distinct ?g"
    by (simp add: fleet_from_parts_def fleet_distinct_def fleet_ok_def members_slice_def
        copy_prefix_def MAX_FLEET_def Let_def)
  show "mset (zip (members_slice ?g) (domains_slice ?g)) =
      mset (filter (\<lambda>(m, d). m \<noteq> 1) (zip (members_slice demo_fleet) (domains_slice demo_fleet)))"
    by (simp add: demo_fleet_def fleet_from_parts_def members_slice_def domains_slice_def
        copy_prefix_def MAX_FLEET_def Let_def)
  show "pick_targets (replicate 32 5) 3 demo_fleet (replicate 5 0) = (3, [2, 3, 4, 0, 0])" by code_simp
  show "1 \<notin> set (take 3 [2, 3, 4, 0, 0 :: u8])" by simp
qed


end
