(* ===== verification/Placement_Router.thy ===== *)
theory Placement_Router
  imports Placement_Props Loam_Limits
begin

text \<open>
  \<open>modules/common/replicated/placement_router_body.rs\<close>: the router owns the fleet and
  broadcasts a snapshot whenever it changes; placement then is every consumer's own
  computation.  The channels are the step's arguments: the messages the reads return,
  and what the write returns.  The theory ends with the system of router and consumer:
  once the router believes it has published, the consumer's copy is the router's fleet.
\<close>

definition READ_BUF :: nat where "READ_BUF = 64"
definition EMIT_BUF :: nat where "EMIT_BUF = 64"

record router =
  rt_member_count :: u8
  rt_epoch :: u64
  rt_fleet :: bytes
  rt_domains :: bytes
  rt_states :: bytes
  rt_emitted_current :: u8
  rt_ticks :: u32
  rt_updates_applied :: u32
  rt_apply_errors :: u32
  rt_broadcasts :: u32
  rt_scratch :: bytes

definition router_init :: router where
  "router_init = \<lparr>rt_member_count = 0, rt_epoch = 0, rt_fleet = replicate MAX_FLEET 0,
     rt_domains = replicate MAX_FLEET 0, rt_states = replicate MAX_FLEET 0, rt_emitted_current = 0,
     rt_ticks = 0, rt_updates_applied = 0, rt_apply_errors = 0, rt_broadcasts = 0,
     rt_scratch = replicate EMIT_BUF 0\<rparr>"

section \<open>Updates\<close>

fun dedup_from :: "nat \<Rightarrow> bytes \<Rightarrow> bytes \<Rightarrow> bytes \<Rightarrow> bytes \<times> bytes \<times> bytes \<times> nat \<Rightarrow> bytes \<times> bytes \<times> bytes \<times> nat" where
  "dedup_from pos [] domains states st = st"
| "dedup_from pos (m # ms) domains states (nxt, next_dom, next_state, next_count) =
     (if next_count \<ge> MAX_FLEET then (nxt, next_dom, next_state, next_count)
      else if list_ex (\<lambda>i. nxt ! i = m) [0..<next_count]
      then dedup_from (pos + 1) ms domains states (nxt, next_dom, next_state, next_count)
      else dedup_from (pos + 1) ms domains states
             (nxt[next_count := m],
              next_dom[next_count := (if pos < length domains then domains ! pos else 0)],
              next_state[next_count := (if pos < length states then states ! pos else 0)],
              next_count + 1))"

definition apply_fleet_update :: "router \<Rightarrow> bytes \<Rightarrow> bytes \<Rightarrow> bytes \<Rightarrow> router" where
  "apply_fleet_update s members domains states =
     (let zero = replicate MAX_FLEET 0;
          (nxt, next_dom, next_state, next_count) = dedup_from 0 members domains states (zero, zero, zero, 0);
          unchanged = (word_of_nat next_count = rt_member_count s \<and>
            take next_count nxt = take next_count (rt_fleet s) \<and>
            take next_count next_dom = take next_count (rt_domains s) \<and>
            take next_count next_state = take next_count (rt_states s))
      in if unchanged then s
         else s\<lparr>rt_fleet := nxt, rt_domains := next_dom, rt_states := next_state,
                rt_member_count := word_of_nat next_count, rt_epoch := rt_epoch s + 1,
                rt_emitted_current := 0, rt_updates_applied := rt_updates_applied s + 1\<rparr>)"

definition router_with_seed :: "bytes \<Rightarrow> router" where
  "router_with_seed seed_members = apply_fleet_update router_init seed_members [] []"

function seed_tlv :: "nat \<Rightarrow> bytes \<Rightarrow> bytes option" where
  \<comment> \<open>the parameter scan: the member list of the first complete tag 1\<close>
  "seed_tlv off params =
     (if off + 2 \<le> length params then
        let tag = params ! off; elen = unat (params ! (off + 1)); off = off + 2
        in if tag = 0xFF then None
           else if tag = 1 \<and> off + elen \<le> length params
           then Some (sub_slice params off (min elen MAX_FLEET))
           else seed_tlv (off + elen) params
      else None)"
  by pat_completeness auto
termination by (relation "measure (\<lambda>(off, params). length params + 2 - off)") auto

declare seed_tlv.simps [simp del]

definition decode_seed_params :: "router \<Rightarrow> bytes \<Rightarrow> router" where
  "decode_seed_params s params =
     (if params = [] then s
      else
        let is_tlv = (length params \<ge> 4 \<and> params ! 0 = 0xFE \<and> params ! 1 = 0x01)
        in if is_tlv then (case seed_tlv 4 params of None \<Rightarrow> s | Some ms \<Rightarrow> apply_fleet_update s ms [] [])
           else apply_fleet_update s (take (min (length params) MAX_FLEET) params) [] [])"

section \<open>The step\<close>

definition handle_message :: "router \<Rightarrow> bytes \<Rightarrow> router" where
  "handle_message s bs =
     (if peek_opcode bs = Some OP_FLEET_UPDATE then
        (case decode_fleet_update bs of
           Inr d \<Rightarrow> apply_fleet_update s (fu_members d) (fu_domains d) (fu_states d)
         | Inl _ \<Rightarrow> s\<lparr>rt_apply_errors := rt_apply_errors s + 1\<rparr>)
      else s\<lparr>rt_apply_errors := rt_apply_errors s + 1\<rparr>)"

fun drain_updates :: "nat \<Rightarrow> bytes list \<Rightarrow> router \<Rightarrow> router \<times> bytes list" where
  \<comment> \<open>an empty read ends the drain\<close>
  "drain_updates 0 inbox s = (s, inbox)"
| "drain_updates (Suc k) [] s = (s, [])"
| "drain_updates (Suc k) (bs # inbox) s =
     (if bs = [] then (s, inbox) else drain_updates k inbox (handle_message s bs))"

text \<open>
  A step drains messages, then publishes if the current snapshot is not out.  It answers
  the state, the unread messages and the frame the write took, if it took one; \<open>wrote\<close> is
  what the channel's write returns.
\<close>

definition router_step :: "profile \<Rightarrow> bytes list \<Rightarrow> (nat \<Rightarrow> int) \<Rightarrow> router \<Rightarrow> router \<times> bytes list \<times> bytes option" where
  "router_step p inbox wrote s =
     (let s = s\<lparr>rt_ticks := rt_ticks s + 1\<rparr>;
          (s, inbox) = drain_updates (OPS_PER_STEP p) inbox s
      in if rt_emitted_current s = 0 then
           let members_len = unat (rt_member_count s)
           in case encode_fleet_epoch (rt_scratch s) (rt_epoch s) (take members_len (rt_fleet s))
                     (take members_len (rt_domains s)) (take members_len (rt_states s)) of
                Inl _ \<Rightarrow> (s\<lparr>rt_apply_errors := rt_apply_errors s + 1\<rparr>, inbox, None)
              | Inr (n, scratch) \<Rightarrow>
                  let s = s\<lparr>rt_scratch := scratch\<rparr>
                  in if 0 \<le> wrote n \<and> nat (wrote n) = n
                     then (s\<lparr>rt_emitted_current := 1, rt_broadcasts := rt_broadcasts s + 1\<rparr>, inbox, Some (take n scratch))
                     else (s, inbox, None)
         else (s, inbox, None))"

section \<open>What an update does\<close>

text \<open>First occurrences, in order, each with its position's domain and state.\<close>

fun first_entries :: "u8 set \<Rightarrow> (u8 \<times> u8 \<times> u8) list \<Rightarrow> (u8 \<times> u8 \<times> u8) list" where
  "first_entries S [] = []"
| "first_entries S ((m, d, st) # es) =
     (if m \<in> S then first_entries S es else (m, d, st) # first_entries (insert m S) es)"

definition entries_of :: "nat \<Rightarrow> bytes \<Rightarrow> bytes \<Rightarrow> bytes \<Rightarrow> (u8 \<times> u8 \<times> u8) list" where
  "entries_of pos members domains states =
     map (\<lambda>(i, m). (m, if i < length domains then domains ! i else 0, if i < length states then states ! i else 0))
       (zip [pos..<pos + length members] members)"

definition snapshot :: "router \<Rightarrow> (u8 \<times> u8 \<times> u8) list" where
  "snapshot s = (let n = unat (rt_member_count s)
     in zip (take n (rt_fleet s)) (zip (take n (rt_domains s)) (take n (rt_states s))))"

definition router_ok :: "router \<Rightarrow> bool" where
  "router_ok s \<longleftrightarrow> length (rt_fleet s) = MAX_FLEET \<and> length (rt_domains s) = MAX_FLEET \<and>
     length (rt_states s) = MAX_FLEET \<and> unat (rt_member_count s) \<le> MAX_FLEET \<and>
     distinct (take (unat (rt_member_count s)) (rt_fleet s)) \<and> length (rt_scratch s) = EMIT_BUF"

lemma entries_of_Cons:
  "entries_of pos (m # ms) domains states =
     (m, if pos < length domains then domains ! pos else 0, if pos < length states then states ! pos else 0)
       # entries_of (pos + 1) ms domains states"
  by (simp add: entries_of_def upt_conv_Cons del: upt_Suc)

lemma first_entries_distinct:
  "distinct (map fst (first_entries S es)) \<and> fst ` set (first_entries S es) \<inter> S = {}"
  by (induction S es rule: first_entries.induct) auto

lemma dedup_from_entries:
  assumes "length nxt = MAX_FLEET" "length nd = MAX_FLEET" "length ns = MAX_FLEET" "c \<le> MAX_FLEET"
    and "dedup_from pos ms domains states (nxt, nd, ns, c) = (nxt', nd', ns', c')"
  defines "new \<equiv> take (MAX_FLEET - c) (first_entries (set (take c nxt)) (entries_of pos ms domains states))"
  shows "length nxt' = MAX_FLEET \<and> length nd' = MAX_FLEET \<and> length ns' = MAX_FLEET \<and> c' = c + length new \<and>
    take c' nxt' = take c nxt @ map fst new \<and> take c' nd' = take c nd @ map (fst \<circ> snd) new \<and>
    take c' ns' = take c ns @ map (snd \<circ> snd) new"
  using assms(1-5) unfolding new_def
proof (induction pos ms domains states "(nxt, nd, ns, c)" arbitrary: nxt nd ns c rule: dedup_from.induct)
  case (2 pos m ms domains states nxt nd ns c)
  show ?case
  proof (cases "MAX_FLEET \<le> c")
    case True
    then show ?thesis using 2 by simp
  next
    case False
    have ex: "list_ex (\<lambda>i. nxt ! i = m) [0..<c] \<longleftrightarrow> m \<in> set (take c nxt)"
      using False 2(3) by (auto simp: list_ex_iff in_set_conv_nth)
    show ?thesis
    proof (cases "m \<in> set (take c nxt)")
      case True
      have step: "dedup_from (pos + 1) ms domains states (nxt, nd, ns, c) = (nxt', nd', ns', c')"
        using 2(7) False ex True by simp
      have fe: "first_entries (set (take c nxt)) (entries_of pos (m # ms) domains states)
          = first_entries (set (take c nxt)) (entries_of (pos + 1) ms domains states)"
        using True by (simp only: entries_of_Cons first_entries.simps if_True)
      show ?thesis unfolding fe by (rule 2(1) [OF False _ 2(3-6) step]) (simp only: ex True)
    next
      case nm: False
      obtain e where e: "MAX_FLEET - c = Suc e" "MAX_FLEET - (c + 1) = e" using False by (metis Suc_diff_Suc Suc_eq_plus1 not_le)
      have tk: "take (c + 1) (xs[c := v]) = take c xs @ [v]" if "length xs = MAX_FLEET" for xs :: bytes and v
        using False that by (simp add: take_Suc_conv_app_nth)
      let ?d = "if pos < length domains then domains ! pos else 0"
      let ?s = "if pos < length states then states ! pos else 0"
      have step: "dedup_from (pos + 1) ms domains states (nxt[c := m], nd[c := ?d], ns[c := ?s], c + 1) = (nxt', nd', ns', c')"
        using 2(7) False ex nm by simp
      have fe: "first_entries (set (take c nxt)) (entries_of pos (m # ms) domains states)
          = (m, ?d, ?s) # first_entries (insert m (set (take c nxt))) (entries_of (pos + 1) ms domains states)"
        using nm by (simp only: entries_of_Cons first_entries.simps if_False)
      have ins: "set (take (c + 1) (nxt[c := m])) = insert m (set (take c nxt))" using tk [OF 2(3)] by simp
      have "length (nxt[c := m]) = MAX_FLEET" "length (nd[c := ?d]) = MAX_FLEET" "length (ns[c := ?s]) = MAX_FLEET"
        "c + 1 \<le> MAX_FLEET" using 2(3-5) False by simp_all
      note IH = 2(2) [OF False _ this step, unfolded ins ex, OF nm]
      have hd: "take (MAX_FLEET - c) (x # xs) = x # take e xs" for x and xs :: "(u8 \<times> u8 \<times> u8) list"
        using e(1) by simp
      show ?thesis unfolding fe hd
        using IH [unfolded e(2) tk [OF 2(3)] tk [OF 2(4)] tk [OF 2(5)]] by (elim conjE) (simp del: length_take)
    qed
  qed
qed (simp add: entries_of_def)

lemma snapshot_lengths:
  assumes "router_ok s"
  shows "length (snapshot s) = unat (rt_member_count s)"
    "map fst (snapshot s) = take (unat (rt_member_count s)) (rt_fleet s)"
    "map (fst \<circ> snd) (snapshot s) = take (unat (rt_member_count s)) (rt_domains s)"
    "map (snd \<circ> snd) (snapshot s) = take (unat (rt_member_count s)) (rt_states s)"
  using assms by (simp_all add: snapshot_def router_ok_def Let_def flip: map_map)

text \<open>
  An update leaves the first sixteen first occurrences, whatever was there before; the
  epoch moves, and the snapshot is due again, exactly when that changes anything.
\<close>

lemma apply_fleet_update_snapshot:
  fixes ms ds ss :: bytes
  assumes ok: "router_ok s"
  defines "new \<equiv> take MAX_FLEET (first_entries {} (entries_of 0 ms ds ss))"
    and "s' \<equiv> apply_fleet_update s ms ds ss"
  shows "router_ok s'" and "snapshot s' = new"
    and "s' = s \<and> snapshot s = new \<or>
      snapshot s \<noteq> new \<and> rt_epoch s' = rt_epoch s + 1 \<and> rt_emitted_current s' = 0"
proof -
  let ?z = "replicate MAX_FLEET (0 :: u8)"
  obtain nxt nd ns c where d: "dedup_from 0 ms ds ss (?z, ?z, ?z, 0) = (nxt, nd, ns, c)"
    by (cases "dedup_from 0 ms ds ss (?z, ?z, ?z, 0)") auto
  have lz: "length ?z = MAX_FLEET" by simp
  have D: "length nxt = MAX_FLEET" "length nd = MAX_FLEET" "length ns = MAX_FLEET" "c = length new"
    "take c nxt = map fst new" "take c nd = map (fst \<circ> snd) new" "take c ns = map (snd \<circ> snd) new"
    using dedup_from_entries [OF lz lz lz le0 d] by (auto simp: new_def)
  have c: "c \<le> 16" "unat (word_of_nat c :: u8) = c"
    using D(4) by (simp_all add: new_def MAX_FLEET_def unat_of_nat_small)
  have dist: "distinct (map fst new)"
    using first_entries_distinct [of "{}" "entries_of 0 ms ds ss"] by (simp add: new_def take_map [symmetric])
  have zip3: "zip (map fst new) (zip (map (fst \<circ> snd) new) (map (snd \<circ> snd) new)) = new"
    by (intro nth_equalityI) auto
  let ?u = "word_of_nat c = rt_member_count s \<and> take c nxt = take c (rt_fleet s) \<and>
            take c nd = take c (rt_domains s) \<and> take c ns = take c (rt_states s)"
  have s': "s' = (if ?u then s else s\<lparr>rt_fleet := nxt, rt_domains := nd, rt_states := ns,
                rt_member_count := word_of_nat c, rt_epoch := rt_epoch s + 1,
                rt_emitted_current := 0, rt_updates_applied := rt_updates_applied s + 1\<rparr>)"
    by (simp only: s'_def apply_fleet_update_def Let_def d split_conv)
  have u: "?u \<longleftrightarrow> snapshot s = new"
  proof
    assume ?u
    moreover from this have "unat (rt_member_count s) = c" using c(2) by metis
    ultimately have "snapshot s = zip (take c nxt) (zip (take c nd) (take c ns))"
      unfolding snapshot_def Let_def by metis
    then show "snapshot s = new" using D zip3 by simp
  next
    assume e: "snapshot s = new"
    note sl = snapshot_lengths [OF ok, unfolded e]
    have uc: "unat (rt_member_count s) = c" using sl(1) D(4) by simp
    then have m: "word_of_nat c = rt_member_count s" by auto
    show ?u using sl(2-4) [unfolded uc] by (intro conjI m) (simp_all only: D(5-7))
  qed
  have changed: "router_ok s' \<and> snapshot s' = new" if "\<not> ?u"
    unfolding s' if_not_P [OF that]
    using ok c D dist zip3 by (simp add: router_ok_def snapshot_def MAX_FLEET_def Let_def)
  show "router_ok s'" using changed ok s' by (cases ?u) simp_all
  show "snapshot s' = new" using changed u s' by (cases ?u) simp_all
  show "s' = s \<and> snapshot s = new \<or>
      snapshot s \<noteq> new \<and> rt_epoch s' = rt_epoch s + 1 \<and> rt_emitted_current s' = 0"
    using u s' by (cases ?u) simp_all
qed

section \<open>The consumers' cache\<close>

text \<open>
  \<open>body_fanout_router\<close> and \<open>ec_body_router\<close> keep the same three fields of a snapshot and
  rank with them.  The step is the handling of one frame read from the fleet channel.
\<close>

record fleet_cache =
  fc_members :: bytes
  fc_count :: u8
  fc_epoch :: u64
  fc_apply_errors :: u32

definition cache_init :: "nat \<Rightarrow> fleet_cache" where
  \<comment> \<open>\<open>n\<close> wired members; the rest of the array is zeroed\<close>
  "cache_init n = \<lparr>fc_members = fold (\<lambda>i ms. ms[i := word_of_nat i]) [0..<n] (replicate MAX_FLEET 0),
     fc_count = word_of_nat n, fc_epoch = 1, fc_apply_errors = 0\<rparr>"

definition cache_frame :: "fleet_cache \<Rightarrow> bytes \<Rightarrow> fleet_cache" where
  "cache_frame c frame =
     (case decode_fleet_epoch frame of
        Inr d \<Rightarrow>
          let n = min (length (fe_members d)) MAX_FLEET
          in c\<lparr>fc_members := copy_prefix (take n (fe_members d)) (fc_members c),
               fc_count := word_of_nat n, fc_epoch := fe_epoch d\<rparr>
      | Inl _ \<Rightarrow> c\<lparr>fc_apply_errors := fc_apply_errors c + 1\<rparr>)"

definition cached_members :: "fleet_cache \<Rightarrow> bytes" where
  "cached_members c = take (unat (fc_count c)) (fc_members c)"

definition fanout_rank_targets :: "u8 \<Rightarrow> fleet_cache \<Rightarrow> bytes \<Rightarrow> bytes \<Rightarrow> nat \<times> bytes" where
  "fanout_rank_targets replica_count c key out =
     (let effective = min (unat replica_count) (unat (fc_count c))
      in if effective = 0 then (0, out)
         else pick_targets key (word_of_nat effective) (fleet_from_slice (fc_epoch c) (cached_members c)) out)"

definition ec_rank_targets :: "u8 \<Rightarrow> u8 \<Rightarrow> fleet_cache \<Rightarrow> bytes \<Rightarrow> bytes \<Rightarrow> nat \<times> bytes" where
  "ec_rank_targets k m c digest out =
     (let want = unat k + unat m
      in if unat (fc_count c) < want then (0, out)
         else
           let (chosen, out) =
             pick_targets digest (word_of_nat want) (fleet_from_slice (fc_epoch c) (cached_members c)) out
           in if chosen = want then (chosen, out) else (0, out))"

section \<open>Router and consumer together\<close>

inductive published :: "router \<times> fleet_cache \<Rightarrow> bool" where
  start: "n \<le> MAX_FLEET \<Longrightarrow> published (decode_seed_params router_init params, cache_init n)"
| quiet: "published (s, c) \<Longrightarrow> router_step p inbox wrote s = (s', rest, None) \<Longrightarrow> published (s', c)"
| sent: "published (s, c) \<Longrightarrow> router_step p inbox wrote s = (s', rest, Some frame) \<Longrightarrow>
    published (s', cache_frame c frame)"

definition in_sync :: "router \<Rightarrow> fleet_cache \<Rightarrow> bool" where
  "in_sync s c \<longleftrightarrow> fc_epoch c = rt_epoch s \<and> cached_members c = map fst (snapshot s)"

definition system_ok :: "router \<Rightarrow> fleet_cache \<Rightarrow> bool" where
  "system_ok s c \<longleftrightarrow> router_ok s \<and> length (fc_members c) = MAX_FLEET \<and>
     (rt_emitted_current s \<noteq> 0 \<longrightarrow> in_sync s c)"

lemma router_init_ok: "router_ok router_init" "rt_emitted_current router_init = 0"
  by (simp_all add: router_ok_def router_init_def)

lemma apply_keeps:
  assumes "system_ok s c"
  shows "system_ok (apply_fleet_update s ms ds ss) c"
  using apply_fleet_update_snapshot [of s ms ds ss] assms by (auto simp: system_ok_def)

lemma router_ok_counters:
  "router_ok (s\<lparr>rt_apply_errors := x\<rparr>) = router_ok s" "router_ok (s\<lparr>rt_ticks := y\<rparr>) = router_ok s"
  "snapshot (s\<lparr>rt_apply_errors := x\<rparr>) = snapshot s" "snapshot (s\<lparr>rt_ticks := y\<rparr>) = snapshot s"
  by (simp_all add: router_ok_def snapshot_def)

lemma handle_keeps: "system_ok s c \<Longrightarrow> system_ok (handle_message s bs) c"
  unfolding handle_message_def
  by (auto simp: apply_keeps split: sum.splits) (auto simp: system_ok_def in_sync_def router_ok_counters)

lemma drain_keeps: "system_ok s c \<Longrightarrow> drain_updates k inbox s = (s', rest) \<Longrightarrow> system_ok s' c"
  by (induction k inbox s rule: drain_updates.induct) (auto simp: handle_keeps split: if_splits)

lemma decode_seed_keeps: "system_ok s c \<Longrightarrow> system_ok (decode_seed_params s params) c"
  by (auto simp: decode_seed_params_def Let_def apply_keeps split: option.split)

lemma cache_init_length [simp]: "length (fc_members (cache_init n)) = MAX_FLEET"
proof -
  have "length (fold (\<lambda>i ms. ms[i := word_of_nat i]) xs ms) = length ms" for xs and ms :: bytes
    by (induction xs arbitrary: ms) simp_all
  then show ?thesis by (simp add: cache_init_def)
qed

text \<open>A frame that was taken leaves the consumer with the router's members.\<close>

lemma publish_syncs:
  assumes ok: "router_ok s" and lc: "length (fc_members c) = MAX_FLEET"
    and enc: "encode_fleet_epoch (rt_scratch s) (rt_epoch s) (take (unat (rt_member_count s)) (rt_fleet s))
       (take (unat (rt_member_count s)) (rt_domains s)) (take (unat (rt_member_count s)) (rt_states s)) = Inr (n, out)"
  shows "in_sync s (cache_frame c (take n out))" "length (fc_members (cache_frame c (take n out))) = MAX_FLEET"
    "length out = EMIT_BUF"
proof -
  let ?n = "unat (rt_member_count s)"
  have lens: "length (take ?n (rt_fleet s)) = ?n" "?n \<le> MAX_FLEET" using ok by (simp_all add: router_ok_def)
  note rt = fleet_epoch_roundtrip [OF enc]
  have "decode_fleet_epoch (take n out) = Inr \<lparr>fe_epoch = rt_epoch s, fe_members = take ?n (rt_fleet s),
      fe_domains = pad_zero ?n (take ?n (rt_domains s)), fe_states = pad_zero ?n (take ?n (rt_states s))\<rparr>"
    using rt(5) [of "[]"] lens by simp
  then have c: "cache_frame c (take n out) = c\<lparr>fc_members := copy_prefix (take ?n (rt_fleet s)) (fc_members c),
      fc_count := rt_member_count s, fc_epoch := rt_epoch s\<rparr>"
    using lens by (simp add: cache_frame_def Let_def min_absorb1)
  have "take ?n (copy_prefix (take ?n (rt_fleet s)) (fc_members c)) = take ?n (rt_fleet s)"
    using take_copy_prefix [of "take ?n (rt_fleet s)" "fc_members c"] lens by simp
  then show "in_sync s (cache_frame c (take n out))"
    unfolding in_sync_def snapshot_lengths(2) [OF ok] c cached_members_def by simp
  show "length (fc_members (cache_frame c (take n out))) = MAX_FLEET"
    unfolding c using lens lc by simp
  show "length out = EMIT_BUF" using rt(1) ok by (simp add: router_ok_def)
qed

lemma step_keeps:
  assumes ok: "system_ok s c" and st: "router_step p inbox wrote s = (s', rest, sent)"
  shows "system_ok s' (case sent of None \<Rightarrow> c | Some frame \<Rightarrow> cache_frame c frame)"
proof -
  obtain s1 in1 where d: "drain_updates (OPS_PER_STEP p) inbox (s\<lparr>rt_ticks := rt_ticks s + 1\<rparr>) = (s1, in1)"
    by (cases "drain_updates (OPS_PER_STEP p) inbox (s\<lparr>rt_ticks := rt_ticks s + 1\<rparr>)")
  have "system_ok (s\<lparr>rt_ticks := rt_ticks s + 1\<rparr>) c"
    using ok by (simp add: system_ok_def router_ok_counters in_sync_def)
  from drain_keeps [OF this d] have ok1: "system_ok s1 c" .
  then have r1: "router_ok s1" "length (fc_members c) = MAX_FLEET" by (simp_all add: system_ok_def)
  let ?n = "unat (rt_member_count s1)"
  show ?thesis
  proof (cases "rt_emitted_current s1 = 0")
    case False
    then show ?thesis using st ok1 by (auto simp: router_step_def d Let_def)
  next
    case True
    have "length (take ?n (rt_fleet s1)) \<le> MAX_FLEET" "10 + 3 * length (take ?n (rt_fleet s1)) \<le> length (rt_scratch s1)"
      using r1(1) by (simp_all add: router_ok_def EMIT_BUF_def MAX_FLEET_def)
    then obtain n out where enc: "encode_fleet_epoch (rt_scratch s1) (rt_epoch s1) (take ?n (rt_fleet s1))
       (take ?n (rt_domains s1)) (take ?n (rt_states s1)) = Inr (n, out)"
      using encode_fleet_epoch_fits by blast
    note ps = publish_syncs [OF r1 enc]
    show ?thesis
    proof (cases "0 \<le> wrote n \<and> nat (wrote n) = n")
      case taken: True
      have "sent = Some (take n out)" and s': "s' = s1\<lparr>rt_scratch := out, rt_emitted_current := 1, rt_broadcasts := rt_broadcasts s1 + 1\<rparr>"
        using st True taken by (auto simp: router_step_def d Let_def enc)
      moreover have "router_ok s'" using r1(1) ps(3) unfolding s' by (simp add: router_ok_def)
      moreover have "in_sync s' (cache_frame c (take n out))"
        using ps(1) unfolding s' by (simp add: in_sync_def snapshot_def)
      ultimately show ?thesis using ps(2) by (simp add: system_ok_def)
    next
      case False
      then have "sent = None" "s' = s1\<lparr>rt_scratch := out\<rparr>"
        using st True by (auto simp: router_step_def d Let_def enc)
      moreover have "router_ok (s1\<lparr>rt_scratch := out\<rparr>)" using r1(1) ps(3) by (simp add: router_ok_def)
      ultimately show ?thesis using True r1 by (simp add: system_ok_def)
    qed
  qed
qed

lemma published_ok: "published (s, c) \<Longrightarrow> system_ok s c"
proof (induction "(s, c)" arbitrary: s c rule: published.induct)
  case (start n params)
  have "system_ok router_init (cache_init n)"
    using router_init_ok by (simp add: system_ok_def)
  then show ?case by (rule decode_seed_keeps)
next
  case (quiet s c p inbox wrote s' rest)
  then show ?case using step_keeps [OF quiet(2,3)] by simp
next
  case (sent s c p inbox wrote s' rest frame)
  then show ?case using step_keeps [OF sent(2,3)] by simp
qed

section \<open>Properties\<close>



text \<open>An update replaces the fleet by the first occurrences it lists, at most sixteen,
  with each one's own domain and state; the epoch moves exactly when that is a change,
  so applying an update twice changes nothing more.\<close>

theorem fleet_update_exact:
  fixes ms ds ss :: bytes
  assumes "published (s, c)"
  defines "s' \<equiv> apply_fleet_update s ms ds ss"
  shows "snapshot s' = take MAX_FLEET (first_entries {} (entries_of 0 ms ds ss)) \<and>
    rt_epoch s' = (if snapshot s' = snapshot s then rt_epoch s else rt_epoch s + 1) \<and>
    apply_fleet_update s' ms ds ss = s'"
proof -
  have r: "router_ok s" using published_ok [OF assms(1)] by (simp add: system_ok_def)
  note u = apply_fleet_update_snapshot [OF r, of ms ds ss, folded s'_def]
  note u2 = apply_fleet_update_snapshot(3) [OF u(1), of ms ds ss]
  show ?thesis using u u2 by auto
qed

lemma fleet_update_exact_witness:
  "snapshot (apply_fleet_update (decode_seed_params router_init [1, 2]) [2, 9, 2] [4] [0, 1, 1]) = [(2, 4, 0), (9, 0, 1)] \<and>
   rt_epoch (apply_fleet_update (decode_seed_params router_init [1, 2]) [2, 9, 2] [4] [0, 1, 1]) = 2"
proof -
  have p: "published (decode_seed_params router_init [1, 2], cache_init 2)"
    by (rule published.start) (simp add: MAX_FLEET_def)
  have "take MAX_FLEET (first_entries {} (entries_of 0 [2, 9, 2] [4] [0, 1, 1 :: u8])) = [(2, 4, 0), (9, 0, 1)]"
    "snapshot (decode_seed_params router_init [1, 2]) = [(1, 0, 0), (2, 0, 0)]"
    "rt_epoch (decode_seed_params router_init [1, 2]) = 1" by code_simp+
  with fleet_update_exact [OF p, of "[2, 9, 2]" "[4]" "[0, 1, 1]"] show ?thesis by simp
qed



end
