(* ===== verification/FS_Provider.thy ===== *)
theory FS_Provider
  imports Loam_Limits
begin

text \<open>
  The storage provider as the modules see it, and \<open>modules/common/mechanics/fs_names.rs\<close>:
  one entry point that takes a descriptor, an opcode and an argument buffer, and answers
  a return code with the buffer as the provider left it.  The provider is not under
  \<open>src/\<close>; it is a parameter, a function on a state of its own.  What the fs contract
  promises of a log file is the predicate \<open>log_file\<close> of \<open>WAL_Append\<close>.
\<close>

type_synonym 's provider = "'s \<Rightarrow> int \<Rightarrow> u32 \<Rightarrow> bytes \<Rightarrow> 's \<times> int \<times> bytes"

section \<open>Opcodes and answers\<close>

definition FS_OPEN :: u32 where "FS_OPEN = 0x0900"
definition FS_READ :: u32 where "FS_READ = 0x0901"
definition FS_SEEK :: u32 where "FS_SEEK = 0x0902"
definition FS_CLOSE :: u32 where "FS_CLOSE = 0x0903"
definition FS_STAT :: u32 where "FS_STAT = 0x0904"
definition FS_FSYNC :: u32 where "FS_FSYNC = 0x0905"
definition FS_WRITE :: u32 where "FS_WRITE = 0x0906"
definition FS_OPEN_CREATE :: u32 where "FS_OPEN_CREATE = 0x0909"
definition FS_UNLINK :: u32 where "FS_UNLINK = 0x090A"
definition FS_RENAME :: u32 where "FS_RENAME = 0x090D"
definition FS_WRITE_ASYNC :: u32 where "FS_WRITE_ASYNC = 0x090F"
definition FS_FSYNC_SUBMIT :: u32 where "FS_FSYNC_SUBMIT = 0x0910"
definition FS_FSYNC_POLL :: u32 where "FS_FSYNC_POLL = 0x0911"
definition FS_FSYNC_NAME :: u32 where "FS_FSYNC_NAME = 0x0912"
definition FS_CAPS :: u32 where "FS_CAPS = 0x09FF"

lemmas fs_opcodes = FS_OPEN_def FS_READ_def FS_SEEK_def FS_CLOSE_def FS_STAT_def FS_FSYNC_def
  FS_WRITE_def FS_OPEN_CREATE_def FS_UNLINK_def FS_RENAME_def FS_WRITE_ASYNC_def
  FS_FSYNC_SUBMIT_def FS_FSYNC_POLL_def FS_FSYNC_NAME_def FS_CAPS_def

definition CAP_RENAME :: u32 where "CAP_RENAME = push_bit 8 1"
definition CAP_FSYNC_ASYNC :: u32 where "CAP_FSYNC_ASYNC = push_bit 10 1"
definition CAP_FSYNC_NAME :: u32 where "CAP_FSYNC_NAME = push_bit 11 1"

definition EAGAIN :: int where "EAGAIN = - 11"
definition EINPROGRESS :: int where "EINPROGRESS = - 36"
definition ENOENT :: int where "ENOENT = - 2"

definition fs_pending :: "int \<Rightarrow> bool" where
  "fs_pending rc \<longleftrightarrow> rc = EAGAIN \<or> rc = EINPROGRESS"

lemma fs_pending_neg: "fs_pending rc \<Longrightarrow> rc < 0"
  by (auto simp: fs_pending_def EAGAIN_def EINPROGRESS_def)

section \<open>Names\<close>

definition fs_caps :: "'s provider \<Rightarrow> 's \<Rightarrow> 's \<times> u32 option" where
  "fs_caps call s =
     (let (s, rc, buf) = call s (- 1) FS_CAPS (replicate 4 0)
      in (s, if rc \<ge> 4 then Some (from_le (take 4 buf)) else None))"

definition fsync_name :: "'s provider \<Rightarrow> bytes \<Rightarrow> 's \<Rightarrow> 's \<times> int" where
  "fsync_name call path s = (let (s, rc, _) = call s (- 1) FS_FSYNC_NAME path in (s, rc))"

definition RENAME_FRAMING :: nat where "RENAME_FRAMING = 2 + 2"
definition WAL_STAGE_SUFFIX_LEN :: nat where "WAL_STAGE_SUFFIX_LEN = 4"
definition WAL_PATH_BUF :: nat where "WAL_PATH_BUF = 256"
definition RENAME_PATHS_MAX :: nat where "RENAME_PATHS_MAX = 2 * WAL_PATH_BUF + WAL_STAGE_SUFFIX_LEN"
definition RENAME_ARG_LEN :: nat where "RENAME_ARG_LEN = RENAME_FRAMING + RENAME_PATHS_MAX"

definition rename_arg :: "bytes \<Rightarrow> bytes \<Rightarrow> bytes" where
  "rename_arg src dst =
     le_bytes 2 (word_of_nat (length src) :: u16) @ src @ le_bytes 2 (word_of_nat (length dst) :: u16) @ dst"

definition fs_rename :: "'s provider \<Rightarrow> bytes \<Rightarrow> bytes \<Rightarrow> 's \<Rightarrow> 's \<times> int" where
  "fs_rename call src dst s =
     (if RENAME_FRAMING + length src + length dst > RENAME_ARG_LEN then (s, - 22)
      else let (s, rc, _) = call s (- 1) FS_RENAME (rename_arg src dst) in (s, rc))"

definition fs_unlink :: "'s provider \<Rightarrow> bytes \<Rightarrow> 's \<Rightarrow> 's \<times> int" where
  "fs_unlink call path s = (let (s, rc, _) = call s (- 1) FS_UNLINK path in (s, rc))"

definition name_present :: "'s provider \<Rightarrow> bytes \<Rightarrow> 's \<Rightarrow> 's \<times> bool option" where
  "name_present call path s =
     (let (s, fd, _) = call s (- 1) FS_OPEN path
      in if fs_pending fd then (s, None)
         else if fd < 0 then (s, Some False)
         else let (s, _, _) = call s fd FS_CLOSE [] in (s, Some True))"

end
