(* ===== verification/WAL_Log.thy ===== *)
theory WAL_Log
  imports FS_Provider
begin

text \<open>
  The log of \<open>modules/common/mechanics/wal_io.rs\<close> as bytes: the checksum, the record
  frame, and the reading of a log file as a list of records, which is what a replay
  must hand out.  A torn tail ends the reading.
\<close>

section \<open>CRC-32\<close>

definition crc_shift :: "u32 \<Rightarrow> u32" where
  "crc_shift c = (if c AND 1 \<noteq> 0 then 0xEDB88320 XOR drop_bit 1 c else drop_bit 1 c)"

definition build_crc32_table :: "u32 list" where
  "build_crc32_table =
     fold (\<lambda>i table. table[i := fold (\<lambda>_. crc_shift) [0..<8] (word_of_nat i)]) [0..<256] (replicate 256 0)"

definition CRC32_TABLE :: "u32 list" where "CRC32_TABLE = build_crc32_table"

definition crc_byte :: "u8 \<Rightarrow> u32 \<Rightarrow> u32" where
  "crc_byte b crc = drop_bit 8 crc XOR CRC32_TABLE ! unat ((crc XOR ucast b) AND 0xFF)"

definition crc32 :: "bytes \<Rightarrow> u32" where
  "crc32 bs = fold crc_byte bs 0xFFFFFFFF XOR 0xFFFFFFFF"

text \<open>The table holds eight shifts of each index; evaluation computes them directly.\<close>

lemma crc_table_nth:
  assumes "i < 256"
  shows "CRC32_TABLE ! i = (crc_shift ^^ 8) (word_of_nat i)"
proof -
  have eight: "fold (\<lambda>_. crc_shift) [0..<8] x = (crc_shift ^^ 8) x" for x
    by (simp add: numeral_eq_Suc upt_rec)
  have "fold (\<lambda>i table. table[i := f i]) [0..<n] xs ! j = (if j < n then f j else xs ! j)"
    if "n \<le> length xs" "j < length xs" for f :: "nat \<Rightarrow> u32" and n j xs
    using that
  proof (induction n)
    case (Suc n)
    have "length (fold (\<lambda>i table. table[i := f i]) [0..<n] xs) = length xs" for n
      by (induction n) simp_all
    then show ?case using Suc by (auto simp: nth_list_update)
  qed simp
  then show ?thesis using assms by (simp only: CRC32_TABLE_def build_crc32_table_def length_replicate order_refl if_True eight)
qed

fun crc_shifts :: "nat \<Rightarrow> u32 \<Rightarrow> u32" where
  "crc_shifts 0 c = c"
| "crc_shifts (Suc n) c = crc_shifts n (crc_shift c)"

lemma crc_shifts_pow: "crc_shifts n c = (crc_shift ^^ n) c"
  by (induction n arbitrary: c) (simp_all add: funpow_swap1)

lemma crc_byte_code [code]:
  "crc_byte b crc = drop_bit 8 crc XOR crc_shifts 8 ((crc XOR ucast b) AND 0xFF)"
proof -
  have "unat (x AND 0xFF) < 256" for x :: u32
  proof -
    have "x AND 0xFF = take_bit 8 x" by (simp add: take_bit_eq_mask mask_eq_exp_minus_1)
    then have "unat (x AND 0xFF) = take_bit 8 (unat x)" by (simp only: unsigned_take_bit_eq)
    then show ?thesis using take_bit_nat_less_exp [of 8 "unat x"] by simp
  qed
  then show ?thesis by (simp add: crc_byte_def crc_table_nth crc_shifts_pow)
qed

lemma crc_shifts_numeral: "crc_shifts (numeral k) c = crc_shifts (pred_numeral k) (crc_shift c)"
  by (simp add: numeral_eq_Suc)

lemmas crc_eval = crc32_def crc_byte_code crc_shift_def crc_shifts_numeral

section \<open>Records\<close>

definition MAX_WAL_REC :: nat where "MAX_WAL_REC = 4096"
definition APPEND_SCRATCH :: nat where "APPEND_SCRATCH = 8 + MAX_WAL_REC"

definition record_frame :: "bytes \<Rightarrow> bytes" where
  "record_frame payload = le_bytes 4 (word_of_nat (length payload) :: u32) @ le_bytes 4 (crc32 payload) @ payload"

lemma length_record_frame [simp]: "length (record_frame p) = 8 + length p"
  by (simp add: record_frame_def)

definition writable_record :: "bytes \<Rightarrow> bool" where
  "writable_record p \<longleftrightarrow> p \<noteq> [] \<and> length p \<le> MAX_WAL_REC"

text \<open>A log file as records; \<open>cap\<close> is the size of the replay buffer.\<close>

function parse_log :: "nat \<Rightarrow> bytes \<Rightarrow> bytes list" where
  "parse_log cap bs =
     (if length bs < 8 then []
      else
        let len = unat (from_le (take 4 bs) :: u32)
        in if len = 0 \<or> len > MAX_WAL_REC \<or> len > cap \<or> length bs < 8 + len then []
           else if crc32 (sub_slice bs 8 len) \<noteq> from_le (sub_slice bs 4 4) then []
           else sub_slice bs 8 len # parse_log cap (drop (8 + len) bs))"
  by pat_completeness auto
termination by (relation "measure (length \<circ> snd)") auto

declare parse_log.simps [simp del]

lemma frame_fields:
  assumes "length p \<le> MAX_WAL_REC"
  shows "unat (from_le (take 4 (record_frame p @ rest)) :: u32) = length p"
    and "(from_le (sub_slice (record_frame p @ rest) 4 4) :: u32) = crc32 p"
    and "sub_slice (record_frame p @ rest) 8 (length p) = p"
    and "drop (8 + length p) (record_frame p @ rest) = rest"
proof -
  have "take 4 (record_frame p @ rest) = le_bytes 4 (word_of_nat (length p) :: u32)"
    by (simp add: record_frame_def)
  then show "unat (from_le (take 4 (record_frame p @ rest)) :: u32) = length p"
    using assms by (simp add: from_le_u32 unat_of_nat_small MAX_WAL_REC_def)
  show "(from_le (sub_slice (record_frame p @ rest) 4 4) :: u32) = crc32 p"
    by (simp add: record_frame_def sub_slice_def from_le_u32)
  show "sub_slice (record_frame p @ rest) 8 (length p) = p" "drop (8 + length p) (record_frame p @ rest) = rest"
    by (simp_all add: record_frame_def sub_slice_def)
qed

lemma parse_frame:
  assumes "writable_record p" "length p \<le> cap"
  shows "parse_log cap (record_frame p @ rest) = p # parse_log cap rest"
proof -
  have p: "length p \<le> MAX_WAL_REC" "p \<noteq> []" using assms by (simp_all add: writable_record_def)
  note ff = frame_fields [OF p(1), of rest]
  show ?thesis
    unfolding parse_log.simps [of cap "record_frame p @ rest"] Let_def ff
    using p assms(2) by simp
qed

lemma parse_torn:
  assumes "writable_record p" "n < 8 + length p"
  shows "parse_log cap (take n (record_frame p)) = []"
proof (cases "n < 8")
  case True
  then show ?thesis by (simp add: parse_log.simps)
next
  case False
  have p: "length p \<le> MAX_WAL_REC" using assms by (simp add: writable_record_def)
  have "take 4 (take n (record_frame p)) = take 4 (record_frame p @ [])" using False by (simp add: min_absorb1)
  then have "unat (from_le (take 4 (take n (record_frame p))) :: u32) = length p"
    using frame_fields(1) [OF p, of "[]"] by simp
  then show ?thesis using assms(2) False by (simp add: parse_log.simps Let_def)
qed

text \<open>Whole records followed by part of one more, or all of it.\<close>

lemma parse_records:
  assumes "\<forall>p\<in>set ps. writable_record p \<and> length p \<le> cap"
  shows "parse_log cap (concat (map record_frame ps) @ rest) = ps @ parse_log cap rest"
  using assms by (induction ps) (simp_all add: parse_frame)

lemma parse_nil [simp]: "parse_log cap [] = []"
  by (simp add: parse_log.simps)

lemma parse_tail:
  assumes "writable_record p" "length p \<le> cap"
  shows "parse_log cap (take n (record_frame p)) = (if n < 8 + length p then [] else [p])"
  using parse_torn [OF assms(1), of n] parse_frame [OF assms, of "[]"] by simp

section \<open>The configured path\<close>

function wal_path_tlv :: "nat \<Rightarrow> bytes \<Rightarrow> nat \<Rightarrow> (unit + bytes) option" where
  \<comment> \<open>None: no path; an error, or the path of the first tag 1\<close>
  "wal_path_tlv off params room =
     (if off + 2 \<le> length params then
        let tag = params ! off; elen = unat (params ! (off + 1)); off = off + 2
        in if tag = 0xFF then None
           else if tag = 1 then
             (if off + elen > length params \<or> elen > room then Some (Inl ())
              else Some (Inr (sub_slice params off elen)))
           else wal_path_tlv (off + elen) params room
      else None)"
  by pat_completeness auto
termination by (relation "measure (\<lambda>(off, params, room). length params + 2 - off)") auto

declare wal_path_tlv.simps [simp del]

definition decode_wal_path :: "bytes \<Rightarrow> bytes \<Rightarrow> unit + nat \<times> bytes" where
  "decode_wal_path params out =
     (if params = [] then Inr (0, out)
      else if length params < 4 \<or> params ! 0 \<noteq> 0xFE \<or> params ! 1 \<noteq> 0x01 then Inl ()
      else case wal_path_tlv 4 params (length out) of
             None \<Rightarrow> Inr (0, out)
           | Some (Inl e) \<Rightarrow> Inl e
           | Some (Inr path) \<Rightarrow> Inr (length path, copy_prefix path out))"

end
