(* ===== verification/WAL_Append.thy ===== *)
theory WAL_Append
  imports WAL_Log
begin

text \<open>
  Opening and appending: the step machines \<open>WalOpener\<close> and \<open>WalAppender\<close> of
  \<open>wal_io.rs\<close>.  Each loop iteration is a function from the machine and the provider's
  state to the same and, where the code returns, the answer; the loop repeats it.
  The 32-bit counters never pass the frame buffer's 4104 bytes and are naturals here.
\<close>

section \<open>Opening\<close>

datatype wal_open_error = WoNotFound | WoOpenFailed int | WoNameUnfenceable

datatype open_poll = OpPending | OpReady int | OpFailed wal_open_error

datatype open_phase = OPEN_IDLE | OPEN_FILE | OPEN_CAPS | OPEN_NAME

record wal_opener =
  wo_phase :: open_phase
  wo_create :: bool
  wo_fd :: int

definition opener_new :: wal_opener where
  "opener_new = \<lparr>wo_phase = OPEN_IDLE, wo_create = False, wo_fd = - 1\<rparr>"

definition opener_busy :: "wal_opener \<Rightarrow> bool" where
  "opener_busy o' \<longleftrightarrow> wo_phase o' \<noteq> OPEN_IDLE"

definition wal_close :: "'s provider \<Rightarrow> int \<Rightarrow> 's \<Rightarrow> 's \<times> int" where
  "wal_close call fd s = (let (s, rc, _) = call s fd FS_CLOSE [] in (s, rc))"

definition opener_ready :: "wal_opener \<Rightarrow> wal_opener \<times> open_poll" where
  "opener_ready w = (w\<lparr>wo_fd := - 1, wo_phase := OPEN_IDLE\<rparr>, OpReady (wo_fd w))"

definition opener_abandon :: "'s provider \<Rightarrow> wal_opener \<Rightarrow> 's \<Rightarrow> wal_opener \<times> 's" where
  "opener_abandon call w s =
     (w\<lparr>wo_fd := - 1, wo_phase := OPEN_IDLE\<rparr>, if wo_fd w \<ge> 0 then fst (wal_close call (wo_fd w) s) else s)"

definition opener_fail :: "'s provider \<Rightarrow> wal_open_error \<Rightarrow> wal_opener \<Rightarrow> 's \<Rightarrow> wal_opener \<times> 's \<times> open_poll" where
  "opener_fail call e w s = (let (w, s) = opener_abandon call w s in (w, s, OpFailed e))"

definition opener_step :: "'s provider \<Rightarrow> bytes \<Rightarrow> wal_opener \<Rightarrow> 's \<Rightarrow> wal_opener \<times> 's \<times> open_poll option" where
  "opener_step call path w s =
     (case wo_phase w of
        OPEN_FILE \<Rightarrow>
          let (s, fd, _) = call s (- 1) (if wo_create w then FS_OPEN_CREATE else FS_OPEN) path
          in if fs_pending fd then (w, s, Some OpPending)
             else if fd < 0 then
               (w\<lparr>wo_phase := OPEN_IDLE\<rparr>, s,
                Some (OpFailed (if fd = - 2 \<or> fd = - 19 then WoNotFound else WoOpenFailed fd)))
             else
               let w = w\<lparr>wo_fd := fd\<rparr>
               in if \<not> wo_create w then (let (w, r) = opener_ready w in (w, s, Some r))
                  else (w\<lparr>wo_phase := OPEN_CAPS\<rparr>, s, None)
      | OPEN_CAPS \<Rightarrow>
          let (s, caps) = fs_caps call s
          in (case caps of
                None \<Rightarrow> (w, s, Some OpPending)
              | Some caps \<Rightarrow>
                  if caps AND CAP_FSYNC_NAME = 0 then
                    (let (w, s, r) = opener_fail call WoNameUnfenceable w s in (w, s, Some r))
                  else (w\<lparr>wo_phase := OPEN_NAME\<rparr>, s, None))
      | _ \<Rightarrow>
          let (s, rc) = fsync_name call path s
          in if fs_pending rc then (w, s, Some OpPending)
             else if rc < 0 then (let (w, s, r) = opener_fail call WoNameUnfenceable w s in (w, s, Some r))
             else (let (w, r) = opener_ready w in (w, s, Some r)))"

definition open_rank :: "open_phase \<Rightarrow> nat" where
  "open_rank ph = (case ph of OPEN_FILE \<Rightarrow> 2 | OPEN_CAPS \<Rightarrow> 1 | _ \<Rightarrow> 0)"

lemma opener_step_ranks:
  "opener_step call path w s = (w', s', None) \<Longrightarrow> open_rank (wo_phase w') < open_rank (wo_phase w)"
  by (auto simp: opener_step_def open_rank_def opener_fail_def opener_abandon_def opener_ready_def Let_def
      split: open_phase.splits prod.splits if_splits option.splits)

function opener_loop :: "'s provider \<Rightarrow> bytes \<Rightarrow> wal_opener \<Rightarrow> 's \<Rightarrow> wal_opener \<times> 's \<times> open_poll" where
  "opener_loop call path w s =
     (case opener_step call path w s of
        (w, s, Some r) \<Rightarrow> (w, s, r)
      | (w, s, None) \<Rightarrow> opener_loop call path w s)"
  by pat_completeness auto
termination
  by (relation "measure (\<lambda>(call, path, w, s). open_rank (wo_phase w))")
     (auto dest: opener_step_ranks [OF sym])

declare opener_loop.simps [simp del]

definition opener_poll :: "'s provider \<Rightarrow> bytes \<Rightarrow> bool \<Rightarrow> wal_opener \<Rightarrow> 's \<Rightarrow> wal_opener \<times> 's \<times> open_poll" where
  "opener_poll call path create w s =
     opener_loop call path
       (if wo_phase w = OPEN_IDLE then w\<lparr>wo_phase := OPEN_FILE, wo_create := create, wo_fd := - 1\<rparr> else w) s"

section \<open>Appending\<close>

datatype wal_append_error =
    WaPayloadTooLarge | WaEmptyPayload | WaBusy | WaBroken
  | WaSeekFailed int | WaWriteFailed int | WaShortWrite int nat | WaFsyncFailed int

datatype wal_replay_error = WrSeekFailed int | WrReadFailed int | WrStatFailed int

datatype append_state = ApIdle | ApPending | ApDurable | ApFailed wal_append_error

datatype append_phase = PHASE_IDLE | PHASE_SEEK | PHASE_WRITE | PHASE_SUBMIT | PHASE_POLL | PHASE_FSYNC

record wal_appender =
  ap_phase :: append_phase
  ap_caps_known :: bool
  ap_broken :: bool
  ap_caps :: u32
  ap_frame_len :: nat
  ap_written :: nat
  ap_ticket :: bytes
  ap_frame :: bytes

definition appender_new :: wal_appender where
  "appender_new = \<lparr>ap_phase = PHASE_IDLE, ap_caps_known = False, ap_broken = False, ap_caps = 0,
     ap_frame_len = 0, ap_written = 0, ap_ticket = replicate 8 0, ap_frame = replicate APPEND_SCRATCH 0\<rparr>"

definition appender_busy :: "wal_appender \<Rightarrow> bool" where
  "appender_busy a \<longleftrightarrow> ap_phase a \<noteq> PHASE_IDLE"

definition appender_reset :: "wal_appender \<Rightarrow> wal_appender" where
  "appender_reset a = a\<lparr>ap_phase := PHASE_IDLE, ap_broken := False, ap_frame_len := 0, ap_written := 0\<rparr>"

definition wal_size :: "'s provider \<Rightarrow> int \<Rightarrow> 's \<Rightarrow> 's \<times> (wal_replay_error + u32)" where
  "wal_size call fd s =
     (let (s, rc, buf) = call s fd FS_STAT (replicate 8 0)
      in (s, if rc < 0 then Inl (WrStatFailed rc) else Inr (from_le (take 4 buf))))"

definition fs_seek :: "'s provider \<Rightarrow> int \<Rightarrow> u32 \<Rightarrow> 's \<Rightarrow> 's \<times> int" where
  \<comment> \<open>the offset is a nonnegative \<open>i32\<close>; its bytes are those of the \<open>u32\<close>\<close>
  "fs_seek call fd offset s = (let (s, rc, _) = call s fd FS_SEEK (le_bytes 4 offset) in (s, rc))"

definition async_tier :: "'s provider \<Rightarrow> int \<Rightarrow> wal_appender \<Rightarrow> 's \<Rightarrow> wal_appender \<times> 's \<times> bool" where
  "async_tier call fd a s =
     (let (a, s) =
        (if \<not> ap_caps_known a then
           let (s, rc, out) = call s fd FS_CAPS (replicate 4 0)
           in if rc \<ge> 4 then (a\<lparr>ap_caps := from_le (take 4 out), ap_caps_known := True\<rparr>, s) else (a, s)
         else (a, s))
      in (a, s, ap_caps a AND CAP_FSYNC_ASYNC \<noteq> 0))"

definition append_finish :: "wal_appender \<Rightarrow> wal_appender \<times> append_state" where
  "append_finish a = (a\<lparr>ap_phase := PHASE_IDLE, ap_written := 0\<rparr>, ApDurable)"

definition append_fail :: "wal_append_error \<Rightarrow> wal_appender \<Rightarrow> wal_appender \<times> append_state" where
  "append_fail e a =
     (let broken = (ap_broken a \<or> ap_written a > 0 \<or> ap_phase a \<in> {PHASE_SUBMIT, PHASE_POLL, PHASE_FSYNC})
      in (a\<lparr>ap_broken := broken, ap_phase := PHASE_IDLE, ap_written := 0\<rparr>, ApFailed e))"

definition failing :: "wal_append_error \<Rightarrow> wal_appender \<Rightarrow> 's \<Rightarrow> wal_appender \<times> 's \<times> append_state option" where
  "failing e a s = (let (a, r) = append_fail e a in (a, s, Some r))"

definition seek_step :: "'s provider \<Rightarrow> int \<Rightarrow> wal_appender \<Rightarrow> 's \<Rightarrow> wal_appender \<times> 's \<times> append_state option" where
  "seek_step call fd a s =
     (let (s, sz) = wal_size call fd s
      in case sz of
           Inl (WrStatFailed rc) \<Rightarrow> if fs_pending rc then (a, s, Some ApPending) else failing (WaSeekFailed rc) a s
         | Inl _ \<Rightarrow> failing (WaSeekFailed (- 22)) a s
         | Inr tail_at \<Rightarrow>
             if tail_at > 0x7FFFFFFF then failing (WaSeekFailed (- 22)) a s
             else
               let (s, rc) = fs_seek call fd tail_at s
               in if fs_pending rc then (a, s, Some ApPending)
                  else if rc < 0 then failing (WaSeekFailed rc) a s
                  else (a\<lparr>ap_phase := PHASE_WRITE\<rparr>, s, None))"

definition write_step :: "'s provider \<Rightarrow> int \<Rightarrow> wal_appender \<Rightarrow> 's \<Rightarrow> wal_appender \<times> 's \<times> append_state option" where
  "write_step call fd a s =
     (let off = ap_written a;
          want = ap_frame_len a - off;
          (a, s, async) = async_tier call fd a s;
          (s, rc, _) = call s fd (if async then FS_WRITE_ASYNC else FS_WRITE) (sub_slice (ap_frame a) off want)
      in if fs_pending rc then (a, s, Some ApPending)
         else if rc < 0 then failing (WaWriteFailed rc) a s
         else if rc = 0 then failing (WaShortWrite 0 want) a s
         else
           let a = a\<lparr>ap_written := ap_written a + min (nat rc) want\<rparr>
           in if ap_written a < ap_frame_len a then (a, s, None)
              else
                let (a, s, async) = async_tier call fd a s
                in (a\<lparr>ap_phase := (if async then PHASE_SUBMIT else PHASE_FSYNC)\<rparr>, s, None))"

definition submit_step :: "'s provider \<Rightarrow> int \<Rightarrow> wal_appender \<Rightarrow> 's \<Rightarrow> wal_appender \<times> 's \<times> append_state option" where
  "submit_step call fd a s =
     (let (s, rc, ticket) = call s fd FS_FSYNC_SUBMIT (ap_ticket a);
          a = a\<lparr>ap_ticket := ticket\<rparr>
      in if fs_pending rc then (a, s, Some ApPending)
         else if rc < 0 then failing (WaFsyncFailed rc) a s
         else (a\<lparr>ap_phase := PHASE_POLL\<rparr>, s, None))"

definition poll_fence_step :: "'s provider \<Rightarrow> int \<Rightarrow> wal_appender \<Rightarrow> 's \<Rightarrow> wal_appender \<times> 's \<times> append_state option" where
  "poll_fence_step call fd a s =
     (let (s, rc, ticket) = call s fd FS_FSYNC_POLL (ap_ticket a);
          a = a\<lparr>ap_ticket := ticket\<rparr>
      in if fs_pending rc then (a, s, Some ApPending)
         else if rc < 0 then failing (WaFsyncFailed rc) a s
         else if rc \<noteq> 0 then (a, s, Some ApPending)
         else (let (a, r) = append_finish a in (a, s, Some r)))"

definition fsync_step :: "'s provider \<Rightarrow> int \<Rightarrow> wal_appender \<Rightarrow> 's \<Rightarrow> wal_appender \<times> 's \<times> append_state option" where
  "fsync_step call fd a s =
     (let (s, rc, _) = call s fd FS_FSYNC []
      in if fs_pending rc then (a, s, Some ApPending)
         else if rc < 0 then failing (WaFsyncFailed rc) a s
         else (let (a, r) = append_finish a in (a, s, Some r)))"

definition append_step :: "'s provider \<Rightarrow> int \<Rightarrow> wal_appender \<Rightarrow> 's \<Rightarrow> wal_appender \<times> 's \<times> append_state option" where
  "append_step call fd a s =
     (case ap_phase a of
        PHASE_IDLE \<Rightarrow> (a, s, Some ApIdle)
      | PHASE_SEEK \<Rightarrow> seek_step call fd a s
      | PHASE_WRITE \<Rightarrow> write_step call fd a s
      | PHASE_SUBMIT \<Rightarrow> submit_step call fd a s
      | PHASE_POLL \<Rightarrow> poll_fence_step call fd a s
      | PHASE_FSYNC \<Rightarrow> fsync_step call fd a s)"

definition append_rank :: "wal_appender \<Rightarrow> nat" where
  "append_rank a =
     (case ap_phase a of
        PHASE_SEEK \<Rightarrow> ap_frame_len a - ap_written a + 4
      | PHASE_WRITE \<Rightarrow> ap_frame_len a - ap_written a + 3
      | PHASE_SUBMIT \<Rightarrow> 2 | PHASE_POLL \<Rightarrow> 1 | PHASE_FSYNC \<Rightarrow> 1 | PHASE_IDLE \<Rightarrow> 0)"

lemma async_tier_frame:
  assumes "async_tier call fd a s = (a', s', async)"
  shows "ap_phase a' = ap_phase a" "ap_frame_len a' = ap_frame_len a" "ap_written a' = ap_written a"
    "ap_broken a' = ap_broken a" "ap_frame a' = ap_frame a" "ap_ticket a' = ap_ticket a"
  using assms by (auto simp: async_tier_def Let_def split: if_splits prod.splits)

lemma append_step_ranks:
  assumes "append_step call fd a s = (a', s', None)"
  shows "append_rank a' < append_rank a"
proof (cases "ap_phase a")
  case PHASE_WRITE
  have st: "write_step call fd a s = (a', s', None)" using assms PHASE_WRITE by (simp add: append_step_def)
  obtain a1 s1 as1 where t: "async_tier call fd a s = (a1, s1, as1)" by (cases "async_tier call fd a s")
  show ?thesis
    using st PHASE_WRITE async_tier_frame [OF t]
    by (auto simp: write_step_def t Let_def failing_def append_fail_def append_rank_def dest!: async_tier_frame
        split: prod.splits if_splits)
qed (use assms in \<open>auto simp: append_step_def seek_step_def submit_step_def poll_fence_step_def fsync_step_def
      failing_def append_fail_def append_finish_def append_rank_def Let_def
      split: prod.splits if_splits sum.splits wal_replay_error.splits\<close>)

function appender_poll :: "'s provider \<Rightarrow> int \<Rightarrow> wal_appender \<Rightarrow> 's \<Rightarrow> wal_appender \<times> 's \<times> append_state" where
  "appender_poll call fd a s =
     (case append_step call fd a s of
        (a, s, Some r) \<Rightarrow> (a, s, r)
      | (a, s, None) \<Rightarrow> appender_poll call fd a s)"
  by pat_completeness auto
termination
  by (relation "measure (\<lambda>(call, fd, a, s). append_rank a)")
     (auto dest: append_step_ranks [OF sym])

declare appender_poll.simps [simp del]

definition appender_begin :: "'s provider \<Rightarrow> int \<Rightarrow> bytes \<Rightarrow> wal_appender \<Rightarrow> 's \<Rightarrow> wal_appender \<times> 's \<times> append_state" where
  "appender_begin call fd payload a s =
     (if ap_broken a then (a, s, ApFailed WaBroken)
      else if ap_phase a \<noteq> PHASE_IDLE then (a, s, ApFailed WaBusy)
      else if payload = [] then (a, s, ApFailed WaEmptyPayload)
      else if length payload > MAX_WAL_REC then (a, s, ApFailed WaPayloadTooLarge)
      else
        let frame = copy_prefix
              (le_bytes 4 (word_of_nat (length payload) :: u32) @ le_bytes 4 (crc32 payload) @ payload) (ap_frame a)
        in appender_poll call fd
             (a\<lparr>ap_frame := frame, ap_frame_len := 8 + length payload, ap_written := 0, ap_phase := PHASE_SEEK\<rparr>) s)"

definition appender_payload :: "wal_appender \<Rightarrow> bytes" where
  "appender_payload a =
     (let stop_at = min (ap_frame_len a) (length (ap_frame a))
      in if stop_at < 8 then [] else sub_slice (ap_frame a) 8 (stop_at - 8))"

definition idle_buffer :: "wal_appender \<Rightarrow> bytes" where
  "idle_buffer a = (if ap_phase a \<noteq> PHASE_IDLE then [] else ap_frame a)"

end
