(* ===== verification/WAL_Durable.thy ===== *)
theory WAL_Durable
  imports WAL_Append
begin

text \<open>
  What an acknowledged append is worth.  The storage provider enters through the fs
  contract, \<open>log_file\<close>: what each call on the log's descriptor does to the file's bytes,
  to the descriptor's offset, to the length known to be durable and to the lengths its
  fence tickets cover.  A history is any sequence of begins and polls of one appender,
  with the provider free to make bytes durable in between.
\<close>

section \<open>The fs contract on a log\<close>

record 's log_view =
  lv_content :: "'s \<Rightarrow> bytes"
  lv_pos :: "'s \<Rightarrow> nat"
  lv_synced :: "'s \<Rightarrow> nat"
  lv_fence :: "'s \<Rightarrow> bytes \<Rightarrow> nat"

definition untouched :: "'s log_view \<Rightarrow> 's \<Rightarrow> 's \<Rightarrow> bool" where
  "untouched v s s' \<longleftrightarrow> lv_content v s' = lv_content v s \<and> lv_pos v s' = lv_pos v s \<and> lv_synced v s \<le> lv_synced v s'"

definition quiet :: "'s log_view \<Rightarrow> 's \<Rightarrow> 's \<Rightarrow> bool" where
  "quiet v s s' \<longleftrightarrow> untouched v s s' \<and> lv_fence v s' = lv_fence v s"

definition log_file :: "'s provider \<Rightarrow> int \<Rightarrow> 's log_view \<Rightarrow> bool" where
  "log_file call fd v \<longleftrightarrow>
     (\<forall>s arg s' rc buf. call s fd FS_STAT arg = (s', rc, buf) \<longrightarrow>
        untouched v s s' \<and> (rc \<ge> 0 \<longrightarrow> unat (from_le (take 4 buf) :: u32) = length (lv_content v s))) \<and>
     (\<forall>s arg s' rc buf. call s fd FS_SEEK arg = (s', rc, buf) \<longrightarrow>
        lv_content v s' = lv_content v s \<and> lv_synced v s \<le> lv_synced v s' \<and>
        (rc \<ge> 0 \<longrightarrow> lv_pos v s' = unat (from_le arg :: u32))) \<and>
     (\<forall>s op arg s' rc buf. op \<in> {FS_WRITE, FS_WRITE_ASYNC} \<longrightarrow> call s fd op arg = (s', rc, buf) \<longrightarrow>
        lv_synced v s \<le> lv_synced v s' \<and> rc \<le> int (length arg) \<and>
        (if rc < 0 then untouched v s s'
         else lv_pos v s \<le> length (lv_content v s) \<longrightarrow>
           lv_content v s' = take (lv_pos v s) (lv_content v s) @ take (nat rc) arg
                               @ drop (lv_pos v s + nat rc) (lv_content v s) \<and>
           lv_pos v s' = lv_pos v s + nat rc)) \<and>
     (\<forall>s arg s' rc buf. call s fd FS_FSYNC arg = (s', rc, buf) \<longrightarrow>
        untouched v s s' \<and> (rc \<ge> 0 \<longrightarrow> length (lv_content v s) \<le> lv_synced v s')) \<and>
     (\<forall>s arg s' rc buf. call s fd FS_FSYNC_SUBMIT arg = (s', rc, buf) \<longrightarrow>
        untouched v s s' \<and> (rc \<ge> 0 \<longrightarrow> length (lv_content v s) \<le> lv_fence v s' buf)) \<and>
     (\<forall>s arg s' rc buf. call s fd FS_FSYNC_POLL arg = (s', rc, buf) \<longrightarrow>
        untouched v s s' \<and> lv_fence v s arg \<le> lv_fence v s' buf \<and> (rc = 0 \<longrightarrow> lv_fence v s arg \<le> lv_synced v s')) \<and>
     (\<forall>s arg s' rc buf. call s fd FS_CAPS arg = (s', rc, buf) \<longrightarrow> untouched v s s')"

lemma log_laws:
  assumes "log_file call fd v" and "call s fd op arg = (s', rc, buf)"
  shows log_stat: "op = FS_STAT \<Longrightarrow> untouched v s s' \<and> (rc \<ge> 0 \<longrightarrow> unat (from_le (take 4 buf) :: u32) = length (lv_content v s))"
    and log_seek: "op = FS_SEEK \<Longrightarrow> lv_content v s' = lv_content v s \<and> lv_synced v s \<le> lv_synced v s' \<and>
        (rc \<ge> 0 \<longrightarrow> lv_pos v s' = unat (from_le arg :: u32))"
    and log_write: "op = FS_WRITE \<or> op = FS_WRITE_ASYNC \<Longrightarrow> lv_synced v s \<le> lv_synced v s' \<and> rc \<le> int (length arg) \<and>
        (rc < 0 \<longrightarrow> untouched v s s') \<and>
        (rc \<ge> 0 \<longrightarrow> lv_pos v s = length (lv_content v s) \<longrightarrow>
           lv_content v s' = lv_content v s @ take (nat rc) arg \<and> lv_pos v s' = length (lv_content v s'))"
    and log_fsync: "op = FS_FSYNC \<Longrightarrow> untouched v s s' \<and> (rc \<ge> 0 \<longrightarrow> length (lv_content v s) \<le> lv_synced v s')"
    and log_submit: "op = FS_FSYNC_SUBMIT \<Longrightarrow> untouched v s s' \<and> (rc \<ge> 0 \<longrightarrow> length (lv_content v s) \<le> lv_fence v s' buf)"
    and log_poll: "op = FS_FSYNC_POLL \<Longrightarrow> untouched v s s' \<and> lv_fence v s arg \<le> lv_fence v s' buf \<and>
        (rc = 0 \<longrightarrow> lv_fence v s arg \<le> lv_synced v s')"
    and log_caps: "op = FS_CAPS \<Longrightarrow> untouched v s s'"
proof -
  note law = assms(1) [unfolded log_file_def] and c = assms(2)
  show "op = FS_STAT \<Longrightarrow> untouched v s s' \<and> (rc \<ge> 0 \<longrightarrow> unat (from_le (take 4 buf) :: u32) = length (lv_content v s))"
    using law [THEN conjunct1] c by blast
  show "op = FS_SEEK \<Longrightarrow> lv_content v s' = lv_content v s \<and> lv_synced v s \<le> lv_synced v s' \<and>
        (rc \<ge> 0 \<longrightarrow> lv_pos v s' = unat (from_le arg :: u32))"
    using law [THEN conjunct2, THEN conjunct1] c by blast
  show "op = FS_WRITE \<or> op = FS_WRITE_ASYNC \<Longrightarrow> lv_synced v s \<le> lv_synced v s' \<and> rc \<le> int (length arg) \<and>
        (rc < 0 \<longrightarrow> untouched v s s') \<and>
        (rc \<ge> 0 \<longrightarrow> lv_pos v s = length (lv_content v s) \<longrightarrow>
           lv_content v s' = lv_content v s @ take (nat rc) arg \<and> lv_pos v s' = length (lv_content v s'))"
    using law [THEN conjunct2, THEN conjunct2, THEN conjunct1, rule_format, OF _ c]
    by (auto split: if_splits)
  show "op = FS_FSYNC \<Longrightarrow> untouched v s s' \<and> (rc \<ge> 0 \<longrightarrow> length (lv_content v s) \<le> lv_synced v s')"
    using law [THEN conjunct2, THEN conjunct2, THEN conjunct2, THEN conjunct1] c by blast
  show "op = FS_FSYNC_SUBMIT \<Longrightarrow> untouched v s s' \<and> (rc \<ge> 0 \<longrightarrow> length (lv_content v s) \<le> lv_fence v s' buf)"
    using law [THEN conjunct2, THEN conjunct2, THEN conjunct2, THEN conjunct2, THEN conjunct1] c by blast
  show "op = FS_FSYNC_POLL \<Longrightarrow> untouched v s s' \<and> lv_fence v s arg \<le> lv_fence v s' buf \<and>
        (rc = 0 \<longrightarrow> lv_fence v s arg \<le> lv_synced v s')"
    using law [THEN conjunct2, THEN conjunct2, THEN conjunct2, THEN conjunct2, THEN conjunct2, THEN conjunct1] c by blast
  show "op = FS_CAPS \<Longrightarrow> untouched v s s'"
    using law [THEN conjunct2, THEN conjunct2, THEN conjunct2, THEN conjunct2, THEN conjunct2, THEN conjunct2] c by blast
qed

section \<open>Histories of one appender\<close>

definition newly_acked :: "append_state \<Rightarrow> bytes \<Rightarrow> bytes list" where
  "newly_acked r p = (if r = ApDurable then [p] else [])"

inductive wal_hist :: "'s provider \<Rightarrow> int \<Rightarrow> 's log_view \<Rightarrow> 's \<Rightarrow> bytes list \<Rightarrow> wal_appender \<Rightarrow> 's \<Rightarrow> bool"
  for call fd v s0 where
    opened: "wal_hist call fd v s0 [] appender_new s0"
  | began: "wal_hist call fd v s0 acked a s \<Longrightarrow> appender_begin call fd p a s = (a', s', r) \<Longrightarrow>
      wal_hist call fd v s0 (acked @ newly_acked r p) a' s'"
  | polled: "wal_hist call fd v s0 acked a s \<Longrightarrow> appender_poll call fd a s = (a', s', r) \<Longrightarrow>
      wal_hist call fd v s0 (acked @ newly_acked r (appender_payload a)) a' s'"
  | waited: "wal_hist call fd v s0 acked a s \<Longrightarrow> quiet v s s' \<Longrightarrow> wal_hist call fd v s0 acked a s'"

section \<open>The invariant\<close>

definition in_flight :: "wal_appender \<Rightarrow> bytes" where
  "in_flight a = take (ap_frame_len a) (ap_frame a)"

lemma frame_frame:
  assumes "ap_frame a = ap_frame b" "ap_frame_len a = ap_frame_len b"
  shows "appender_payload a = appender_payload b" "in_flight a = in_flight b"
  using assms by (simp_all add: appender_payload_def in_flight_def Let_def)

lemma frame_updates [simp]:
  "appender_payload (a\<lparr>ap_ticket := t\<rparr>) = appender_payload a" "in_flight (a\<lparr>ap_ticket := t\<rparr>) = in_flight a"
  "appender_payload (a\<lparr>ap_phase := ph\<rparr>) = appender_payload a" "in_flight (a\<lparr>ap_phase := ph\<rparr>) = in_flight a"
  "appender_payload (a\<lparr>ap_written := n\<rparr>) = appender_payload a" "in_flight (a\<lparr>ap_written := n\<rparr>) = in_flight a"
  "appender_payload (a\<lparr>ap_broken := b\<rparr>) = appender_payload a" "in_flight (a\<lparr>ap_broken := b\<rparr>) = in_flight a"
  by (simp_all add: appender_payload_def in_flight_def Let_def)

text \<open>Part of one record, or all of it.\<close>

definition torn :: "bytes \<Rightarrow> bytes \<Rightarrow> bool" where
  "torn p bs \<longleftrightarrow> writable_record p \<and> (\<exists>k. bs = take k (record_frame p))"

lemma torn_take: "writable_record p \<Longrightarrow> torn p (take k (record_frame p))"
  by (auto simp: torn_def)

lemma torn_whole: "writable_record p \<Longrightarrow> torn p (record_frame p)"
  using torn_take [of p "length (record_frame p)"] by simp

lemma torn_nothing: "writable_record p \<Longrightarrow> torn p []"
  using torn_take [of p 0] by simp

text \<open>What follows the acknowledged records in the file, in each phase.\<close>

definition tail_ok :: "'s log_view \<Rightarrow> wal_appender \<Rightarrow> 's \<Rightarrow> bytes \<Rightarrow> bool" where
  "tail_ok v a s tail \<longleftrightarrow>
     (case ap_phase a of
        PHASE_IDLE \<Rightarrow> if ap_broken a then torn (appender_payload a) tail else tail = []
      | PHASE_SEEK \<Rightarrow> tail = [] \<and> ap_written a = 0
      | PHASE_WRITE \<Rightarrow> tail = take (ap_written a) (in_flight a) \<and> lv_pos v s = length (lv_content v s)
                        \<and> ap_written a < ap_frame_len a
      | PHASE_POLL \<Rightarrow> tail = in_flight a \<and> length (lv_content v s) \<le> lv_fence v s (ap_ticket a)
      | _ \<Rightarrow> tail = in_flight a)"

definition frame_ok :: "wal_appender \<Rightarrow> bool" where
  "frame_ok a \<longleftrightarrow> length (ap_frame a) = APPEND_SCRATCH \<and>
     (ap_phase a \<noteq> PHASE_IDLE \<longrightarrow>
        \<not> ap_broken a \<and> writable_record (appender_payload a) \<and> in_flight a = record_frame (appender_payload a)
        \<and> ap_frame_len a = 8 + length (appender_payload a))"

definition wal_inv :: "'s log_view \<Rightarrow> bytes \<Rightarrow> bytes list \<Rightarrow> wal_appender \<Rightarrow> 's \<Rightarrow> bool" where
  "wal_inv v base acked a s \<longleftrightarrow>
     frame_ok a \<and> (\<forall>p\<in>set acked. writable_record p) \<and>
     length (base @ concat (map record_frame acked)) \<le> lv_synced v s \<and>
     (\<exists>tail. lv_content v s = base @ concat (map record_frame acked) @ tail \<and> tail_ok v a s tail)"

lemma tail_ok_untouched:
  assumes "tail_ok v a s tail" "untouched v s s'" "ap_phase a \<noteq> PHASE_POLL \<or> lv_fence v s' = lv_fence v s"
  shows "tail_ok v a s' tail"
  using assms by (cases "ap_phase a") (simp_all add: untouched_def tail_ok_def)

lemma wal_inv_untouched:
  assumes "wal_inv v base acked a s" "untouched v s s'" "ap_phase a \<noteq> PHASE_POLL \<or> lv_fence v s' = lv_fence v s"
  shows "wal_inv v base acked a s'"
proof -
  obtain tail where t: "lv_content v s = base @ concat (map record_frame acked) @ tail" "tail_ok v a s tail"
    using assms(1) by (auto simp: wal_inv_def)
  have "tail_ok v a s' tail" by (rule tail_ok_untouched [OF t(2) assms(2,3)])
  then show ?thesis using assms(1,2) t(1) by (auto simp: wal_inv_def untouched_def)
qed

text \<open>A failure leaves what the phase had written, and marks the log broken if that is anything.\<close>

lemma wal_inv_fail:
  assumes "wal_inv v base acked a s" "ap_phase a \<noteq> PHASE_IDLE"
    and "append_fail e a = (a', r)"
  shows "wal_inv v base acked a' s" "r = ApFailed e"
    "ap_frame a' = ap_frame a" "ap_frame_len a' = ap_frame_len a"
proof -
  obtain tail where t: "lv_content v s = base @ concat (map record_frame acked) @ tail" "tail_ok v a s tail"
    and f: "frame_ok a" using assms(1) by (auto simp: wal_inv_def)
  have a': "a' = a\<lparr>ap_broken := (ap_broken a \<or> ap_written a > 0 \<or> ap_phase a \<in> {PHASE_SUBMIT, PHASE_POLL, PHASE_FSYNC}),
      ap_phase := PHASE_IDLE, ap_written := 0\<rparr>" and r: "r = ApFailed e"
    using assms(3) by (auto simp: append_fail_def Let_def)
  have "tail_ok v a' s tail"
    using t(2) f assms(2) unfolding a'
    by (cases "ap_phase a") (auto simp: tail_ok_def frame_ok_def intro: torn_take torn_whole)
  moreover have "frame_ok a'" using f by (simp add: a' frame_ok_def)
  ultimately show "wal_inv v base acked a' s" using assms(1) t(1) by (auto simp: wal_inv_def)
  show "r = ApFailed e" "ap_frame a' = ap_frame a" "ap_frame_len a' = ap_frame_len a" by (simp_all add: r a')
qed

text \<open>What one iteration of the loop owes: the invariant with the record it acknowledged,
  if it did, and the same record in flight.\<close>

definition step_keeps :: "'s log_view \<Rightarrow> bytes \<Rightarrow> bytes list \<Rightarrow> wal_appender \<Rightarrow> wal_appender \<times> 's \<times> append_state option \<Rightarrow> bool" where
  "step_keeps v base acked a res \<longleftrightarrow>
     (case res of (a', s', r) \<Rightarrow>
        wal_inv v base (acked @ (case r of None \<Rightarrow> [] | Some r \<Rightarrow> newly_acked r (appender_payload a))) a' s' \<and>
        ap_frame a' = ap_frame a \<and> ap_frame_len a' = ap_frame_len a)"

lemma keeps_failing:
  assumes "wal_inv v base acked a s" "ap_phase a \<noteq> PHASE_IDLE"
    and same: "ap_frame a0 = ap_frame a" "ap_frame_len a0 = ap_frame_len a"
  shows "step_keeps v base acked a0 (failing e a s)"
proof -
  obtain a' r where f: "append_fail e a = (a', r)" by fastforce
  show ?thesis
    using wal_inv_fail [OF assms(1,2) f] same
    by (simp add: step_keeps_def failing_def f newly_acked_def)
qed

lemma keeps_pending:
  "step_keeps v base acked a0 (a, s, Some ApPending) \<longleftrightarrow>
     wal_inv v base acked a s \<and> ap_frame a = ap_frame a0 \<and> ap_frame_len a = ap_frame_len a0"
  "step_keeps v base acked a0 (a, s, Some ApIdle) \<longleftrightarrow>
     wal_inv v base acked a s \<and> ap_frame a = ap_frame a0 \<and> ap_frame_len a = ap_frame_len a0"
  "step_keeps v base acked a0 (a, s, None) \<longleftrightarrow>
     wal_inv v base acked a s \<and> ap_frame a = ap_frame a0 \<and> ap_frame_len a = ap_frame_len a0"
  by (simp_all add: step_keeps_def newly_acked_def)

text \<open>The fence answered: the whole file is durable, and the record in flight is its last.\<close>

lemma keeps_finish:
  assumes inv: "wal_inv v base acked a s" and ph: "ap_phase a \<in> {PHASE_POLL, PHASE_FSYNC}"
    and durable: "length (lv_content v s) \<le> lv_synced v s"
    and same: "ap_frame a0 = ap_frame a" "ap_frame_len a0 = ap_frame_len a"
  shows "step_keeps v base acked a0 (let (a, r) = append_finish a in (a, s, Some r))"
proof -
  obtain tail where t: "lv_content v s = base @ concat (map record_frame acked) @ tail" "tail_ok v a s tail"
    using inv by (auto simp: wal_inv_def)
  have f: "frame_ok a" "\<forall>p\<in>set acked. writable_record p" using inv by (simp_all add: wal_inv_def)
  have p: "appender_payload a0 = appender_payload a" by (rule frame_frame(1) [OF same])
  have tail: "tail = record_frame (appender_payload a)" and w: "writable_record (appender_payload a)" "\<not> ap_broken a"
    using t(2) f(1) ph by (auto simp: tail_ok_def frame_ok_def)
  then have "wal_inv v base (acked @ [appender_payload a]) (a\<lparr>ap_phase := PHASE_IDLE, ap_written := 0\<rparr>) s"
    using f t(1) durable by (auto simp: wal_inv_def frame_ok_def tail_ok_def)
  then show ?thesis by (simp add: step_keeps_def append_finish_def newly_acked_def p same)
qed

lemma keeps_fsync:
  assumes log: "log_file call fd v" and inv: "wal_inv v base acked a s" and ph: "ap_phase a = PHASE_FSYNC"
  shows "step_keeps v base acked a (fsync_step call fd a s)"
proof -
  obtain s' rc buf where c: "call s fd FS_FSYNC [] = (s', rc, buf)" by (metis prod_cases3)
  have u: "untouched v s s'" and d: "rc \<ge> 0 \<Longrightarrow> length (lv_content v s) \<le> lv_synced v s'"
    using log_fsync [OF log c refl] by auto
  have i: "wal_inv v base acked a s'" using wal_inv_untouched [OF inv u] ph by simp
  have len: "length (lv_content v s') = length (lv_content v s)" using u by (simp add: untouched_def)
  show ?thesis
    using keeps_failing [OF i] keeps_finish [OF i _ _ refl refl] ph d i
    by (auto simp: fsync_step_def c keeps_pending len)
qed

lemma keeps_submit:
  assumes log: "log_file call fd v" and inv: "wal_inv v base acked a s" and ph: "ap_phase a = PHASE_SUBMIT"
  shows "step_keeps v base acked a (submit_step call fd a s)"
proof -
  obtain s' rc buf where c: "call s fd FS_FSYNC_SUBMIT (ap_ticket a) = (s', rc, buf)" by (metis prod_cases3)
  have u: "untouched v s s'" and d: "rc \<ge> 0 \<Longrightarrow> length (lv_content v s) \<le> lv_fence v s' buf"
    using log_submit [OF log c refl] by auto
  define b where "b = a\<lparr>ap_ticket := buf\<rparr>"
  have b: "ap_frame b = ap_frame a" "ap_frame_len b = ap_frame_len a" "ap_phase b = PHASE_SUBMIT"
    by (simp_all add: b_def ph)
  have i: "wal_inv v base acked b s'" 
    using wal_inv_untouched [OF inv u] ph
    by (simp add: b_def wal_inv_def frame_ok_def tail_ok_def)
  have len: "length (lv_content v s') = length (lv_content v s)" using u by (simp add: untouched_def)
  have go: "wal_inv v base acked (b\<lparr>ap_phase := PHASE_POLL\<rparr>) s'" if "rc \<ge> 0"
    using i d [OF that, folded len] b(3)
    by (simp add: b_def wal_inv_def frame_ok_def tail_ok_def)
  show ?thesis
    using keeps_failing [OF i] go i b by (auto simp: submit_step_def c keeps_pending b_def [symmetric] Let_def)
qed

lemma keeps_poll_fence:
  assumes log: "log_file call fd v" and inv: "wal_inv v base acked a s" and ph: "ap_phase a = PHASE_POLL"
  shows "step_keeps v base acked a (poll_fence_step call fd a s)"
proof -
  obtain s' rc buf where c: "call s fd FS_FSYNC_POLL (ap_ticket a) = (s', rc, buf)" by (metis prod_cases3)
  have u: "untouched v s s'" and f: "lv_fence v s (ap_ticket a) \<le> lv_fence v s' buf"
    and d: "rc = 0 \<Longrightarrow> lv_fence v s (ap_ticket a) \<le> lv_synced v s'"
    using log_poll [OF log c refl] by auto
  define b where "b = a\<lparr>ap_ticket := buf\<rparr>"
  have b: "ap_frame b = ap_frame a" "ap_frame_len b = ap_frame_len a" "ap_phase b = PHASE_POLL"
    by (simp_all add: b_def ph)
  have len: "length (lv_content v s') = length (lv_content v s)" using u by (simp add: untouched_def)
  have cov: "length (lv_content v s) \<le> lv_fence v s (ap_ticket a)"
    using inv ph by (auto simp: wal_inv_def tail_ok_def)
  have i: "wal_inv v base acked b s'"
    using inv u f cov ph
    by (auto simp: b_def wal_inv_def frame_ok_def tail_ok_def untouched_def)
  show ?thesis
    using keeps_failing [OF i] keeps_finish [OF i _ _ b(1,2) [symmetric]] b i d cov
    by (auto simp: poll_fence_step_def c keeps_pending b_def [symmetric] Let_def len)
qed

lemma keeps_seek:
  assumes log: "log_file call fd v" and inv: "wal_inv v base acked a s" and ph: "ap_phase a = PHASE_SEEK"
  shows "step_keeps v base acked a (seek_step call fd a s)"
proof -
  obtain s1 rc1 buf1 where c1: "call s fd FS_STAT (replicate 8 0) = (s1, rc1, buf1)" by (metis prod_cases3)
  have u1: "untouched v s s1" and size: "rc1 \<ge> 0 \<Longrightarrow> unat (from_le (take 4 buf1) :: u32) = length (lv_content v s)"
    using log_stat [OF log c1 refl] by auto
  have i1: "wal_inv v base acked a s1" using wal_inv_untouched [OF inv u1] ph by simp
  define at where "at = (from_le (take 4 buf1) :: u32)"
  obtain s2 rc2 buf2 where c2: "call s1 fd FS_SEEK (le_bytes 4 at) = (s2, rc2, buf2)" by (metis prod_cases3)
  have c: "lv_content v s2 = lv_content v s1" and sy: "lv_synced v s1 \<le> lv_synced v s2"
    and pos: "rc2 \<ge> 0 \<Longrightarrow> lv_pos v s2 = unat at"
    using log_seek [OF log c2 refl] by (auto simp: from_le_u32)
  have i2: "wal_inv v base acked a s2"
    using i1 c sy ph by (auto simp: wal_inv_def tail_ok_def)
  have go: "wal_inv v base acked (a\<lparr>ap_phase := PHASE_WRITE\<rparr>) s2" if "rc1 \<ge> 0" "rc2 \<ge> 0"
  proof -
    have "lv_pos v s2 = length (lv_content v s2)"
      using pos [OF that(2)] size [OF that(1)] c u1 by (simp add: at_def untouched_def)
    then show ?thesis using i2 ph by (auto simp: wal_inv_def tail_ok_def frame_ok_def)
  qed
  show ?thesis
    using keeps_failing [OF i1] keeps_failing [OF i2] i1 i2 ph go
    by (auto simp: seek_step_def wal_size_def fs_seek_def c1 c2 at_def [symmetric] keeps_pending Let_def
        split: if_splits)
qed

lemma wal_inv_same:
  assumes "wal_inv v base acked a s"
    and "ap_phase a' = ap_phase a" "ap_frame_len a' = ap_frame_len a" "ap_written a' = ap_written a"
    "ap_broken a' = ap_broken a" "ap_frame a' = ap_frame a" "ap_ticket a' = ap_ticket a"
  shows "wal_inv v base acked a' s"
proof -
  note ff = frame_frame [OF assms(6,3)]
  have "tail_ok v a' s tail = tail_ok v a s tail" for tail
    by (cases "ap_phase a") (simp_all add: tail_ok_def assms(2-) ff)
  moreover have "frame_ok a' = frame_ok a" by (simp add: frame_ok_def assms(2-) ff)
  ultimately show ?thesis using assms(1) by (simp add: wal_inv_def)
qed

lemma async_tier_keeps:
  assumes log: "log_file call fd v" and inv: "wal_inv v base acked a s" and ph: "ap_phase a = PHASE_WRITE"
    and t: "async_tier call fd a s = (a', s', async)"
  shows "wal_inv v base acked a' s'"
proof -
  obtain s1 rc buf where c: "call s fd FS_CAPS (replicate 4 0) = (s1, rc, buf)" by (metis prod_cases3)
  have "s' = s \<or> s' = s1" using t c by (auto simp: async_tier_def Let_def split: if_splits)
  moreover have "wal_inv v base acked a s1"
    using wal_inv_untouched [OF inv log_caps [OF log c refl]] ph by simp
  ultimately have "wal_inv v base acked a s'" using inv by blast
  then show ?thesis by (rule wal_inv_same) (rule async_tier_frame [OF t])+
qed

text \<open>A write moves the file and the cursor together.\<close>

lemma keeps_moved:
  assumes inv: "wal_inv v base acked a s" and ph: "ap_phase a = PHASE_WRITE"
    and moved: "lv_content v s' = lv_content v s @ take n (sub_slice (ap_frame a) (ap_written a) (ap_frame_len a - ap_written a))"
    and n: "n \<le> ap_frame_len a - ap_written a" and sy: "lv_synced v s \<le> lv_synced v s'"
    and pos: "lv_pos v s' = length (lv_content v s')"
  shows "wal_inv v base acked (a\<lparr>ap_written := ap_written a + n,
           ap_phase := (if ap_written a + n < ap_frame_len a then PHASE_WRITE
                        else if async then PHASE_SUBMIT else PHASE_FSYNC)\<rparr>) s'"
    (is "wal_inv v base acked ?b s'")
proof -
  have f: "frame_ok a" "\<not> ap_broken a" using inv ph by (auto simp: wal_inv_def frame_ok_def)
  have t: "lv_content v s = base @ concat (map record_frame acked) @ take (ap_written a) (in_flight a)"
    and lt: "ap_written a < ap_frame_len a"
    using inv ph by (auto simp: wal_inv_def tail_ok_def)
  have "take n (sub_slice (ap_frame a) (ap_written a) (ap_frame_len a - ap_written a))
      = take n (drop (ap_written a) (in_flight a))"
    by (simp add: sub_slice_def in_flight_def drop_take)
  then have c: "lv_content v s' = base @ concat (map record_frame acked) @ take (ap_written a + n) (in_flight a)"
    by (simp add: moved t take_add)
  have "take (ap_written a + n) (in_flight a) = in_flight a" if "\<not> ap_written a + n < ap_frame_len a"
    using that by (simp add: in_flight_def)
  then have "tail_ok v ?b s' (take (ap_written a + n) (in_flight a))"
    using pos by (auto simp: tail_ok_def)
  moreover have "frame_ok ?b" using f ph by (simp add: frame_ok_def)
  ultimately show ?thesis using inv sy c by (auto simp: wal_inv_def)
qed

lemma keeps_write:
  assumes log: "log_file call fd v" and inv: "wal_inv v base acked a s" and ph: "ap_phase a = PHASE_WRITE"
  shows "step_keeps v base acked a (write_step call fd a s)"
proof -
  define want where "want = ap_frame_len a - ap_written a"
  obtain a1 s1 async1 where t1: "async_tier call fd a s = (a1, s1, async1)" by (metis prod_cases3)
  note fr1 = async_tier_frame [OF t1]
  have i1: "wal_inv v base acked a1 s1" by (rule async_tier_keeps [OF log inv ph t1])
  define op where "op = (if async1 then FS_WRITE_ASYNC else FS_WRITE)"
  define arg where "arg = sub_slice (ap_frame a1) (ap_written a) want"
  obtain s2 rc buf where c: "call s1 fd op arg = (s2, rc, buf)" by (metis prod_cases3)
  have sy: "lv_synced v s1 \<le> lv_synced v s2" and most: "rc \<le> int (length arg)"
    and neg: "rc < 0 \<Longrightarrow> untouched v s1 s2"
    and moved: "rc \<ge> 0 \<Longrightarrow> lv_pos v s1 = length (lv_content v s1) \<Longrightarrow>
        lv_content v s2 = lv_content v s1 @ take (nat rc) arg \<and> lv_pos v s2 = length (lv_content v s2)"
    using log_write [OF log c] by (auto simp: op_def split: if_splits)
  have pos1: "lv_pos v s1 = length (lv_content v s1)"
    using i1 fr1 ph by (auto simp: wal_inv_def tail_ok_def)
  have rc_want: "nat rc \<le> want" "min (nat rc) want = nat rc"
    using most by (auto simp: arg_def sub_slice_def)
  have i2: "wal_inv v base acked a1 s2" if "rc < 0"
    using wal_inv_untouched [OF i1 neg [OF that]] fr1 ph by simp
  have i0: "wal_inv v base acked a1 s2" if "rc = 0"
    using i1 moved pos1 that sy by (auto simp: wal_inv_def tail_ok_def fr1 ph)
  have go: "wal_inv v base acked (a1\<lparr>ap_written := ap_written a1 + nat rc,
           ap_phase := (if ap_written a1 + nat rc < ap_frame_len a1 then PHASE_WRITE
                        else if async then PHASE_SUBMIT else PHASE_FSYNC)\<rparr>) s2" if "rc > 0" for async
    by (rule keeps_moved [OF i1]) (use moved pos1 rc_want sy fr1 ph that in \<open>auto simp: arg_def want_def\<close>)
  define b where "b = a1\<lparr>ap_written := ap_written a1 + nat rc\<rparr>"
  have wr: "write_step call fd a s =
      (if fs_pending rc then (a1, s2, Some ApPending)
       else if rc < 0 then failing (WaWriteFailed rc) a1 s2
       else if rc = 0 then failing (WaShortWrite 0 want) a1 s2
       else if ap_written b < ap_frame_len b then (b, s2, None)
       else (case async_tier call fd b s2 of (a, s, async) \<Rightarrow>
               (a\<lparr>ap_phase := (if async then PHASE_SUBMIT else PHASE_FSYNC)\<rparr>, s, None)))"
    unfolding write_step_def t1 Let_def prod.case c [unfolded op_def arg_def want_def] b_def rc_want(2) [unfolded want_def]
    by (simp only: want_def)
  show ?thesis
  proof (cases "rc > 0")
    case False
    then show ?thesis
      using keeps_failing [of v base acked a1 s2] i2 i0 fr1 ph fs_pending_neg [of rc]
      by (auto simp: wr keeps_pending split: if_splits)
  next
    case rc: True
    then have np: "\<not> fs_pending rc" using fs_pending_neg by fastforce
    obtain a3 s3 async3 where t3: "async_tier call fd b s2 = (a3, s3, async3)" by (metis prod_cases3)
    note fr3 = async_tier_frame [OF t3]
    have "b\<lparr>ap_phase := PHASE_WRITE\<rparr> = b" using fr1(1) ph by (cases a1) (simp add: b_def)
    then have more: "wal_inv v base acked b s2" if "ap_written b < ap_frame_len b"
      using go [OF rc] that by (simp add: b_def)
    have "s3 = s2 \<or> untouched v s2 s3"
      using t3 log_caps [OF log] by (auto simp: async_tier_def Let_def split: if_splits prod.splits)
    then have "wal_inv v base acked (a1\<lparr>ap_written := ap_written a1 + nat rc,
        ap_phase := (if async3 then PHASE_SUBMIT else PHASE_FSYNC)\<rparr>) s3" if "\<not> ap_written b < ap_frame_len b"
      using go [OF rc, of async3] wal_inv_untouched [OF go [OF rc, of async3]] that by (auto simp: b_def split: if_splits)
    then have whole: "wal_inv v base acked (a3\<lparr>ap_phase := (if async3 then PHASE_SUBMIT else PHASE_FSYNC)\<rparr>) s3"
      if "\<not> ap_written b < ap_frame_len b"
      by (rule wal_inv_same) (use that fr3 in \<open>simp_all add: b_def\<close>)
    show ?thesis
      using rc np more whole fr3 fr1
      by (auto simp: wr t3 keeps_pending) (simp_all add: b_def)
  qed
qed

lemma keeps_append_step:
  assumes "log_file call fd v" "wal_inv v base acked a s"
  shows "step_keeps v base acked a (append_step call fd a s)"
  using keeps_seek [OF assms] keeps_write [OF assms] keeps_submit [OF assms] keeps_poll_fence [OF assms]
    keeps_fsync [OF assms] assms(2)
  by (cases "ap_phase a") (simp_all add: append_step_def keeps_pending)

lemma keeps_poll:
  "log_file call fd v \<Longrightarrow> wal_inv v base acked a s \<Longrightarrow> appender_poll call fd a s = (a', s', r) \<Longrightarrow>
    wal_inv v base (acked @ newly_acked r (appender_payload a)) a' s'"
proof (induction call fd a s rule: appender_poll.induct)
  case (1 call fd a s)
  obtain a1 s1 r1 where st: "append_step call fd a s = (a1, s1, r1)" by (metis prod_cases3)
  have k: "wal_inv v base (acked @ (case r1 of None \<Rightarrow> [] | Some r \<Rightarrow> newly_acked r (appender_payload a))) a1 s1"
    "ap_frame a1 = ap_frame a" "ap_frame_len a1 = ap_frame_len a"
    using keeps_append_step [OF 1(2,3)] by (simp_all add: st step_keeps_def)
  show ?case
  proof (cases r1)
    case None
    then show ?thesis
      using 1(1) [OF st [symmetric]] 1(2,4) k
      by (simp add: appender_poll.simps [of call fd a s] st frame_frame [of a1 a])
  next
    case (Some r)
    then show ?thesis using 1(4) k by (simp add: appender_poll.simps [of call fd a s] st)
  qed
qed

lemma begun_frame:
  assumes "length (ap_frame a) = APPEND_SCRATCH" "writable_record p"
  defines "b \<equiv> a\<lparr>ap_frame := copy_prefix (record_frame p) (ap_frame a), ap_frame_len := 8 + length p,
             ap_written := 0, ap_phase := PHASE_SEEK\<rparr>"
  shows "appender_payload b = p" "in_flight b = record_frame p" "length (ap_frame b) = APPEND_SCRATCH"
proof -
  have fits: "8 + length p \<le> APPEND_SCRATCH" using assms(2) by (simp add: writable_record_def APPEND_SCRATCH_def)
  have frame: "ap_frame b = record_frame p @ drop (8 + length p) (ap_frame a)" by (simp add: b_def copy_prefix_def)
  show "length (ap_frame b) = APPEND_SCRATCH" using fits assms(1) by (simp add: frame)
  show "in_flight b = record_frame p" by (simp add: in_flight_def frame) (simp add: b_def)
  have "ap_frame_len b = 8 + length p" by (simp add: b_def)
  moreover have "drop 8 (record_frame p @ rest) = p @ rest" for rest by (simp add: record_frame_def)
  ultimately show "appender_payload b = p"
    using fits assms(1) by (simp add: appender_payload_def sub_slice_def frame)
qed

lemma keeps_begin:
  assumes log: "log_file call fd v" and inv: "wal_inv v base acked a s"
    and b: "appender_begin call fd p a s = (a', s', r)"
  shows "wal_inv v base (acked @ newly_acked r p) a' s'"
proof (cases "ap_broken a \<or> ap_phase a \<noteq> PHASE_IDLE \<or> p = [] \<or> length p > MAX_WAL_REC")
  case True
  then show ?thesis using b inv by (auto simp: appender_begin_def newly_acked_def split: if_splits)
next
  case False
  then have w: "writable_record p" by (simp add: writable_record_def)
  define c where "c = a\<lparr>ap_frame := copy_prefix (record_frame p) (ap_frame a), ap_frame_len := 8 + length p,
             ap_written := 0, ap_phase := PHASE_SEEK\<rparr>"
  have len: "length (ap_frame a) = APPEND_SCRATCH" using inv by (simp add: wal_inv_def frame_ok_def)
  note bf = begun_frame [OF len w, folded c_def]
  have "ap_phase c = PHASE_SEEK" "ap_broken c = ap_broken a" "ap_frame_len c = 8 + length p" "ap_written c = 0"
    by (simp_all add: c_def)
  then have "wal_inv v base acked c s"
    using inv False w bf by (simp add: wal_inv_def frame_ok_def tail_ok_def)
  moreover have "appender_poll call fd c s = (a', s', r)"
    using b False by (simp add: appender_begin_def c_def record_frame_def)
  ultimately show ?thesis using keeps_poll [OF log] bf(1) by fastforce
qed

lemma wal_hist_inv:
  assumes "wal_hist call fd v s0 acked a s" "log_file call fd v"
    and "lv_content v s0 = base" "length base \<le> lv_synced v s0"
  shows "wal_inv v base acked a s"
  using assms(1)
proof induction
  case opened
  then show ?case using assms(3,4) by (simp add: wal_inv_def frame_ok_def tail_ok_def appender_new_def)
next
  case began
  then show ?case using keeps_begin [OF assms(2)] by blast
next
  case polled
  then show ?case using keeps_poll [OF assms(2)] by blast
next
  case waited
  then show ?case by (auto simp: quiet_def intro: wal_inv_untouched)
qed

lemma wal_inv_torn:
  assumes "wal_inv v base acked a s"
  obtains tail where "lv_content v s = base @ concat (map record_frame acked) @ tail"
    and "tail = [] \<or> torn (appender_payload a) tail"
proof -
  obtain tail where t: "lv_content v s = base @ concat (map record_frame acked) @ tail" "tail_ok v a s tail"
    and f: "frame_ok a" using assms by (auto simp: wal_inv_def)
  have "tail = [] \<or> torn (appender_payload a) tail"
    using t(2) f by (cases "ap_phase a") (auto simp: tail_ok_def frame_ok_def intro: torn_take torn_whole split: if_splits)
  then show ?thesis using that t(1) by blast
qed

lemma parse_prefix:
  assumes "\<forall>p\<in>set ps. writable_record p" "MAX_WAL_REC \<le> cap"
    and "take (length (concat (map record_frame ps))) f = concat (map record_frame ps)"
  shows "parse_log cap f = ps @ parse_log cap (drop (length (concat (map record_frame ps))) f)"
proof -
  have "\<forall>p\<in>set ps. writable_record p \<and> length p \<le> cap"
    using assms(1,2) by (auto simp: writable_record_def)
  note parse_records [OF this, of "drop (length (concat (map record_frame ps))) f"]
  moreover have "f = concat (map record_frame ps) @ drop (length (concat (map record_frame ps))) f"
    by (metis assms(3) append_take_drop_id)
  ultimately show ?thesis by metis
qed

section \<open>An append lands when the provider answers\<close>

definition fs_answers :: "'s provider \<Rightarrow> int \<Rightarrow> 's log_view \<Rightarrow> nat \<Rightarrow> bool" where
  \<comment> \<open>no call on a log of at most \<open>most\<close> bytes is refused or left undecided\<close>
  "fs_answers call fd v most \<longleftrightarrow>
     (\<forall>s op arg s' rc buf. call s fd op arg = (s', rc, buf) \<longrightarrow> length (lv_content v s) \<le> most \<longrightarrow>
        (op \<in> {FS_STAT, FS_SEEK, FS_FSYNC, FS_FSYNC_SUBMIT} \<longrightarrow> rc \<ge> 0) \<and>
        (op = FS_FSYNC_POLL \<longrightarrow> rc = 0) \<and>
        (op \<in> {FS_WRITE, FS_WRITE_ASYNC} \<and> arg \<noteq> [] \<and> lv_pos v s \<le> length (lv_content v s) \<longrightarrow> rc > 0))"

lemma fs_answersD:
  assumes "fs_answers call fd v most" "call s fd op arg = (s', rc, buf)" "length (lv_content v s) \<le> most"
  shows "op \<in> {FS_STAT, FS_SEEK, FS_FSYNC, FS_FSYNC_SUBMIT} \<Longrightarrow> rc \<ge> 0" "op = FS_FSYNC_POLL \<Longrightarrow> rc = 0"
    "op \<in> {FS_WRITE, FS_WRITE_ASYNC} \<Longrightarrow> arg \<noteq> [] \<Longrightarrow> lv_pos v s \<le> length (lv_content v s) \<Longrightarrow> rc > 0"
  using assms unfolding fs_answers_def by blast+

lemma wal_inv_bound:
  assumes "wal_inv v base acked a s" "ap_phase a \<noteq> PHASE_IDLE"
  shows "length (lv_content v s) \<le> length (base @ concat (map record_frame acked)) + ap_frame_len a"
    and "ap_phase a = PHASE_SEEK \<Longrightarrow> length (lv_content v s) = length (base @ concat (map record_frame acked))"
proof -
  obtain tail where t: "lv_content v s = base @ concat (map record_frame acked) @ tail" "tail_ok v a s tail"
    using assms(1) by (auto simp: wal_inv_def)
  have "length tail \<le> ap_frame_len a"
    using t(2) assms(2) by (cases "ap_phase a") (auto simp: tail_ok_def in_flight_def)
  then show "length (lv_content v s) \<le> length (base @ concat (map record_frame acked)) + ap_frame_len a"
    using t(1) by simp
  show "ap_phase a = PHASE_SEEK \<Longrightarrow> length (lv_content v s) = length (base @ concat (map record_frame acked))"
    using t by (simp add: tail_ok_def)
qed

lemma step_lands:
  assumes log: "log_file call fd v" and ans: "fs_answers call fd v most" and inv: "wal_inv v base acked a s"
    and ph: "ap_phase a \<noteq> PHASE_IDLE"
    and room: "length (base @ concat (map record_frame acked)) + ap_frame_len a \<le> most"
      "length (base @ concat (map record_frame acked)) \<le> 0x7FFFFFFF"
    and st: "append_step call fd a s = (a', s', r)"
  shows "(r = None \<and> ap_phase a' \<noteq> PHASE_IDLE) \<or> r = Some ApDurable"
proof -
  have most: "length (lv_content v s) \<le> most" using wal_inv_bound(1) [OF inv ph] room(1) by linarith
  note ans_s = fs_answersD [OF ans _ most]
  show ?thesis
  proof (cases "ap_phase a")
    case PHASE_IDLE
    then show ?thesis using ph by blast
  next
    case PHASE_SEEK
    obtain s1 rc1 buf1 where c1: "call s fd FS_STAT (replicate 8 0) = (s1, rc1, buf1)" by (metis prod_cases3)
    have rc1: "rc1 \<ge> 0" using ans_s(1) [OF c1] by simp
    have u1: "untouched v s s1" and size: "unat (from_le (take 4 buf1) :: u32) = length (lv_content v s)"
      using log_stat [OF log c1 refl] rc1 by auto
    have small: "\<not> (from_le (take 4 buf1) :: u32) > 0x7FFFFFFF"
    proof -
      have "unat (from_le (take 4 buf1) :: u32) \<le> unat (0x7FFFFFFF :: u32)"
        using size room(2) wal_inv_bound(2) [OF inv ph PHASE_SEEK] by simp
      then show ?thesis by (simp add: not_less word_le_nat_alt)
    qed
    obtain s2 rc2 buf2 where c2: "call s1 fd FS_SEEK (le_bytes 4 (from_le (take 4 buf1) :: u32)) = (s2, rc2, buf2)"
      by (metis prod_cases3)
    have "length (lv_content v s1) \<le> most" using most u1 by (simp add: untouched_def)
    then have "rc2 \<ge> 0" using fs_answersD(1) [OF ans c2] by simp
    then show ?thesis
      using st rc1 small fs_pending_neg [of rc2] fs_pending_neg [of rc1]
      by (auto simp: append_step_def PHASE_SEEK seek_step_def wal_size_def fs_seek_def c1 c2 Let_def split: if_splits)
  next
    case PHASE_WRITE
    obtain a1 s1 async where t: "async_tier call fd a s = (a1, s1, async)" by (metis prod_cases3)
    have i1: "wal_inv v base acked a1 s1" by (rule async_tier_keeps [OF log inv PHASE_WRITE t])
    note fr = async_tier_frame [OF t]
    have pos: "lv_pos v s1 = length (lv_content v s1)" and lt: "ap_written a < ap_frame_len a"
      using i1 fr PHASE_WRITE by (auto simp: wal_inv_def tail_ok_def)
    have most1: "length (lv_content v s1) \<le> most"
      using wal_inv_bound(1) [OF i1] fr PHASE_WRITE room(1) by simp
    have len: "length (in_flight a1) = ap_frame_len a1"
      using i1 fr PHASE_WRITE by (auto simp: wal_inv_def frame_ok_def)
    then have ne: "sub_slice (ap_frame a1) (ap_written a) (ap_frame_len a - ap_written a) \<noteq> []"
      using lt fr(2) by (auto simp: sub_slice_def in_flight_def)
    obtain s2 rc buf where c: "call s1 fd (if async then FS_WRITE_ASYNC else FS_WRITE)
        (sub_slice (ap_frame a1) (ap_written a) (ap_frame_len a - ap_written a)) = (s2, rc, buf)"
      by (metis prod_cases3)
    have "rc > 0" using fs_answersD(3) [OF ans c most1 _ ne] pos by simp
    then show ?thesis
      using st fs_pending_neg [of rc] fr(1) PHASE_WRITE
      by (auto simp: append_step_def write_step_def t Let_def c split: if_splits prod.splits)
  next
    case PHASE_SUBMIT
    obtain s1 rc buf where c: "call s fd FS_FSYNC_SUBMIT (ap_ticket a) = (s1, rc, buf)" by (metis prod_cases3)
    have "rc \<ge> 0" using ans_s(1) [OF c] by simp
    then show ?thesis
      using st fs_pending_neg [of rc] by (auto simp: append_step_def PHASE_SUBMIT submit_step_def c Let_def split: if_splits)
  next
    case PHASE_POLL
    obtain s1 rc buf where c: "call s fd FS_FSYNC_POLL (ap_ticket a) = (s1, rc, buf)" by (metis prod_cases3)
    have "rc = 0" using ans_s(2) [OF c] by simp
    then show ?thesis
      using st fs_pending_neg [of rc]
      by (auto simp: append_step_def PHASE_POLL poll_fence_step_def append_finish_def c Let_def split: if_splits)
  next
    case PHASE_FSYNC
    obtain s1 rc buf where c: "call s fd FS_FSYNC [] = (s1, rc, buf)" by (metis prod_cases3)
    have "rc \<ge> 0" using ans_s(1) [OF c] by simp
    then show ?thesis
      using st fs_pending_neg [of rc]
      by (auto simp: append_step_def PHASE_FSYNC fsync_step_def append_finish_def c Let_def split: if_splits)
  qed
qed

lemma poll_lands:
  "log_file call fd v \<Longrightarrow> fs_answers call fd v most \<Longrightarrow> wal_inv v base acked a s \<Longrightarrow> ap_phase a \<noteq> PHASE_IDLE \<Longrightarrow>
   length (base @ concat (map record_frame acked)) + ap_frame_len a \<le> most \<Longrightarrow>
   length (base @ concat (map record_frame acked)) \<le> 0x7FFFFFFF \<Longrightarrow>
   snd (snd (appender_poll call fd a s)) = ApDurable"
proof (induction call fd a s rule: appender_poll.induct)
  case (1 call fd a s)
  obtain a1 s1 r where st: "append_step call fd a s = (a1, s1, r)" by (metis prod_cases3)
  note k = keeps_append_step [OF 1(2,4), unfolded st step_keeps_def, simplified]
  show ?case
    using step_lands [OF 1(2-7) st] 1(1) [OF st [symmetric] refl] 1(2,3,6,7) k
    by (auto simp: appender_poll.simps [of call fd a s] st)
qed

lemma poll_idle:
  "appender_poll call fd a s = (a', s', ApDurable) \<Longrightarrow> \<not> ap_broken a \<Longrightarrow> ap_phase a' = PHASE_IDLE \<and> \<not> ap_broken a'"
proof (induction call fd a s rule: appender_poll.induct)
  case (1 call fd a s)
  obtain a1 s1 r where st: "append_step call fd a s = (a1, s1, r)" by (metis prod_cases3)
  have nb: "\<not> ap_broken a1" if "r = None \<or> r = Some ApDurable"
    using st that 1(3)
    by (auto simp: append_step_def seek_step_def write_step_def submit_step_def poll_fence_step_def fsync_step_def
        failing_def append_fail_def append_finish_def Let_def
        split: append_phase.splits prod.splits if_splits sum.splits wal_replay_error.splits dest!: async_tier_frame(4))
  have "ap_phase a1 = PHASE_IDLE" if "r = Some ApDurable"
    using st that
    by (auto simp: append_step_def seek_step_def write_step_def submit_step_def poll_fence_step_def fsync_step_def
        failing_def append_fail_def append_finish_def Let_def
        split: append_phase.splits prod.splits if_splits sum.splits wal_replay_error.splits)
  then show ?case
    using 1(1) [OF st [symmetric] refl] 1(2) nb
    by (cases r) (auto simp: appender_poll.simps [of call fd a s] st)
qed

section \<open>An append lands\<close>

lemma append_lands:
  assumes log: "log_file call fd v" and ans: "fs_answers call fd v (length (lv_content v s) + 8 + length p)"
    and inv: "wal_inv v base acked a s"
    and ready: "ap_phase a = PHASE_IDLE" "\<not> ap_broken a" and p: "writable_record p"
    and room: "length (lv_content v s) \<le> 0x7FFFFFFF"
  shows "\<exists>a' s'. appender_begin call fd p a s = (a', s', ApDurable) \<and>
           lv_content v s' = lv_content v s @ record_frame p \<and> length (lv_content v s') \<le> lv_synced v s' \<and>
           ap_phase a' = PHASE_IDLE \<and> \<not> ap_broken a'"
proof -
  have len: "length (ap_frame a) = APPEND_SCRATCH" using inv by (simp add: wal_inv_def frame_ok_def)
  have content: "lv_content v s = base @ concat (map record_frame acked)"
    using inv ready by (auto simp: wal_inv_def tail_ok_def)
  define c where "c = a\<lparr>ap_frame := copy_prefix (record_frame p) (ap_frame a), ap_frame_len := 8 + length p,
             ap_written := 0, ap_phase := PHASE_SEEK\<rparr>"
  note bf = begun_frame [OF len p, folded c_def]
  have c: "ap_phase c = PHASE_SEEK" "\<not> ap_broken c" "ap_frame_len c = 8 + length p" "ap_written c = 0"
    using ready by (simp_all add: c_def)
  have ic: "wal_inv v base acked c s"
    using inv ready c p bf content by (simp add: wal_inv_def frame_ok_def tail_ok_def)
  have bg: "appender_begin call fd p a s = appender_poll call fd c s"
    using ready p by (simp add: appender_begin_def c_def record_frame_def writable_record_def)
  obtain a' s' r where po: "appender_poll call fd c s = (a', s', r)" by (metis prod_cases3)
  have r: "r = ApDurable"
    using poll_lands [OF log ans ic] po c room content by simp
  have k: "wal_inv v base (acked @ [p]) a' s'" using keeps_poll [OF log ic po] r bf by (simp add: newly_acked_def)
  have idle: "ap_phase a' = PHASE_IDLE" "\<not> ap_broken a'"
    using poll_idle [OF po [unfolded r]] c by simp_all
  have "lv_content v s' = base @ concat (map record_frame (acked @ [p]))"
    using k idle by (auto simp: wal_inv_def tail_ok_def)
  then show ?thesis using bg po r idle k content by (auto simp: wal_inv_def)
qed

end
