(* ===== verification/WAL_Replay.thy ===== *)
theory WAL_Replay
  imports WAL_Append
begin

text \<open>
  The resumable replay of \<open>wal_io.rs\<close>, \<open>WalReplay\<close>: however the provider cuts its reads
  and whatever budget each poll has, the callback is handed the records that \<open>parse_log\<close>
  reads from the file, in order, until it stops the replay.  The callback is a function on
  a state of its own.  \<open>handed\<close> stays below the 32-bit budget and is a natural; \<open>applied\<close>
  wraps.
\<close>

section \<open>Reading\<close>

datatype read_some_result = RsFull | RsPending nat | RsEof nat | RsFailed int

definition put_at :: "nat \<Rightarrow> bytes \<Rightarrow> bytes \<Rightarrow> bytes" where
  \<comment> \<open>a write through a pointer \<open>off\<close> bytes into the buffer\<close>
  "put_at off src buf = take off buf @ src @ drop (off + length src) buf"

function read_some :: "'s provider \<Rightarrow> int \<Rightarrow> nat \<Rightarrow> nat \<Rightarrow> bytes \<Rightarrow> 's \<Rightarrow> bytes \<times> 's \<times> read_some_result" where
  "read_some call fd filled til buf s =
     (if filled < til then
        let want = til - filled;
            (s, n, got) = call s fd FS_READ (sub_slice buf filled want);
            buf = put_at filled got buf
        in if fs_pending n then (buf, s, RsPending filled)
           else if n < 0 then (buf, s, RsFailed n)
           else if n = 0 then (buf, s, RsEof filled)
           else read_some call fd (filled + min (nat n) want) til buf s
      else (buf, s, RsFull))"
  by pat_completeness auto
termination by (relation "measure (\<lambda>(call, fd, filled, til, buf, s). til - filled)") auto

declare read_some.simps [simp del]

section \<open>The replay\<close>

datatype replay_poll_result = RpPending | RpDone u32 | RpFailed wal_replay_error

datatype replay_phase = REPLAY_SEEK | REPLAY_HDR | REPLAY_BODY | REPLAY_DONE

record wal_replay =
  rp_phase :: replay_phase
  rp_hdr :: bytes
  rp_filled :: nat
  rp_len :: nat
  rp_applied :: u32

definition replay_new :: wal_replay where
  "replay_new = \<lparr>rp_phase = REPLAY_SEEK, rp_hdr = replicate 8 0, rp_filled = 0, rp_len = 0, rp_applied = 0\<rparr>"

definition replay_done :: "wal_replay \<Rightarrow> wal_replay \<times> replay_poll_result" where
  "replay_done w = (w\<lparr>rp_phase := REPLAY_DONE\<rparr>, RpDone (rp_applied w))"

definition replay_fail :: "wal_replay_error \<Rightarrow> wal_replay \<Rightarrow> wal_replay \<times> replay_poll_result" where
  "replay_fail e w = (w\<lparr>rp_phase := REPLAY_DONE\<rparr>, RpFailed e)"

text \<open>What a poll works on: the machine, the caller's buffer, the records handed in this
  call, the callback's state and the provider's.\<close>

type_synonym ('c, 's) replaying = "wal_replay \<times> bytes \<times> nat \<times> 'c \<times> 's"

definition replay_seek_step ::
  "'s provider \<Rightarrow> int \<Rightarrow> ('c, 's) replaying \<Rightarrow> ('c, 's) replaying \<times> replay_poll_result option" where
  "replay_seek_step call fd st =
     (case st of (w, scratch, handed, c, s) \<Rightarrow>
        let (s, rc, _) = call s fd FS_SEEK (le_bytes 4 (0 :: u32))
        in if fs_pending rc then ((w, scratch, handed, c, s), Some RpPending)
           else if rc < 0 then (let (w, r) = replay_fail (WrSeekFailed rc) w in ((w, scratch, handed, c, s), Some r))
           else ((w\<lparr>rp_phase := REPLAY_HDR, rp_filled := 0\<rparr>, scratch, handed, c, s), None))"

definition replay_hdr_step ::
  "'s provider \<Rightarrow> int \<Rightarrow> nat \<Rightarrow> ('c, 's) replaying \<Rightarrow> ('c, 's) replaying \<times> replay_poll_result option" where
  "replay_hdr_step call fd budget st =
     (case st of (w, scratch, handed, c, s) \<Rightarrow>
        if handed \<ge> budget then ((w, scratch, handed, c, s), Some RpPending)
        else
          let (hdr, s, res) = read_some call fd (min (rp_filled w) (length (rp_hdr w))) (length (rp_hdr w)) (rp_hdr w) s;
              w = w\<lparr>rp_hdr := hdr\<rparr>
          in case res of
               RsPending n \<Rightarrow> ((w\<lparr>rp_filled := n\<rparr>, scratch, handed, c, s), Some RpPending)
             | RsFailed rc \<Rightarrow> (let (w, r) = replay_fail (WrReadFailed rc) w in ((w, scratch, handed, c, s), Some r))
             | RsEof _ \<Rightarrow> (let (w, r) = replay_done w in ((w, scratch, handed, c, s), Some r))
             | RsFull \<Rightarrow>
                 let len = unat (from_le (take 4 hdr) :: u32)
                 in if len = 0 \<or> len > MAX_WAL_REC \<or> len > length scratch
                    then (let (w, r) = replay_done w in ((w, scratch, handed, c, s), Some r))
                    else ((w\<lparr>rp_len := len, rp_filled := 0, rp_phase := REPLAY_BODY\<rparr>, scratch, handed, c, s), None))"

definition replay_body_step ::
  "'s provider \<Rightarrow> int \<Rightarrow> ('c \<Rightarrow> bytes \<Rightarrow> 'c \<times> bool) \<Rightarrow> ('c, 's) replaying \<Rightarrow> ('c, 's) replaying \<times> replay_poll_result option" where
  "replay_body_step call fd cb st =
     (case st of (w, scratch, handed, c, s) \<Rightarrow>
        let len = min (rp_len w) (length scratch);
            (scratch, s, res) = read_some call fd (min (rp_filled w) len) len scratch s
        in case res of
             RsPending n \<Rightarrow> ((w\<lparr>rp_filled := n\<rparr>, scratch, handed, c, s), Some RpPending)
           | RsFailed rc \<Rightarrow> (let (w, r) = replay_fail (WrReadFailed rc) w in ((w, scratch, handed, c, s), Some r))
           | RsEof _ \<Rightarrow> (let (w, r) = replay_done w in ((w, scratch, handed, c, s), Some r))
           | RsFull \<Rightarrow>
               if crc32 (take len scratch) \<noteq> from_le (sub_slice (rp_hdr w) 4 4)
               then (let (w, r) = replay_done w in ((w, scratch, handed, c, s), Some r))
               else
                 let w = w\<lparr>rp_applied := rp_applied w + 1\<rparr>;
                     (c, go) = cb c (take len scratch)
                 in if \<not> go then (let (w, r) = replay_done w in ((w, scratch, handed + 1, c, s), Some r))
                    else ((w\<lparr>rp_filled := 0, rp_phase := REPLAY_HDR\<rparr>, scratch, handed + 1, c, s), None))"

definition replay_step ::
  "'s provider \<Rightarrow> int \<Rightarrow> ('c \<Rightarrow> bytes \<Rightarrow> 'c \<times> bool) \<Rightarrow> nat \<Rightarrow> ('c, 's) replaying \<Rightarrow>
   ('c, 's) replaying \<times> replay_poll_result option" where
  "replay_step call fd cb budget st =
     (case rp_phase (fst st) of
        REPLAY_SEEK \<Rightarrow> replay_seek_step call fd st
      | REPLAY_HDR \<Rightarrow> replay_hdr_step call fd budget st
      | REPLAY_BODY \<Rightarrow> replay_body_step call fd cb st
      | REPLAY_DONE \<Rightarrow> (st, Some (RpDone (rp_applied (fst st)))))"

definition replay_rank :: "nat \<Rightarrow> ('c, 's) replaying \<Rightarrow> nat" where
  "replay_rank budget st =
     (case st of (w, _, handed, _) \<Rightarrow>
        if handed < budget
        then 3 * (budget - handed) + (case rp_phase w of REPLAY_SEEK \<Rightarrow> 2 | REPLAY_HDR \<Rightarrow> 1 | _ \<Rightarrow> 0)
        else (case rp_phase w of REPLAY_HDR \<Rightarrow> 0 | _ \<Rightarrow> 1))"

lemma replay_step_ranks:
  assumes "replay_step call fd cb budget st = (st', None)"
  shows "replay_rank budget st' < replay_rank budget st"
  using assms
  by (cases st; cases st'; cases "rp_phase (fst st)")
     (auto simp: replay_step_def replay_seek_step_def replay_hdr_step_def replay_body_step_def replay_done_def
       replay_fail_def replay_rank_def Let_def split: if_splits prod.splits read_some_result.splits)

function replay_loop ::
  "'s provider \<Rightarrow> int \<Rightarrow> ('c \<Rightarrow> bytes \<Rightarrow> 'c \<times> bool) \<Rightarrow> nat \<Rightarrow> ('c, 's) replaying \<Rightarrow> ('c, 's) replaying \<times> replay_poll_result" where
  "replay_loop call fd cb budget st =
     (case replay_step call fd cb budget st of
        (st, Some r) \<Rightarrow> (st, r)
      | (st, None) \<Rightarrow> replay_loop call fd cb budget st)"
  by pat_completeness auto
termination
  by (relation "measure (\<lambda>(call, fd, cb, budget, st). replay_rank budget st)") (auto dest: replay_step_ranks [OF sym])

declare replay_loop.simps [simp del]

definition replay_poll ::
  "'s provider \<Rightarrow> int \<Rightarrow> ('c \<Rightarrow> bytes \<Rightarrow> 'c \<times> bool) \<Rightarrow> nat \<Rightarrow> wal_replay \<Rightarrow> bytes \<Rightarrow> 'c \<Rightarrow> 's \<Rightarrow>
   wal_replay \<times> bytes \<times> 'c \<times> 's \<times> replay_poll_result" where
  "replay_poll call fd cb budget w scratch c s =
     (let ((w, scratch, _, c, s), r) = replay_loop call fd cb budget (w, scratch, 0, c, s) in (w, scratch, c, s, r))"

section \<open>What the provider promises of a log being read\<close>

record 's read_view =
  rv_content :: "'s \<Rightarrow> bytes"
  rv_pos :: "'s \<Rightarrow> nat"

definition log_reads :: "'s provider \<Rightarrow> int \<Rightarrow> 's read_view \<Rightarrow> bool" where
  "log_reads call fd v \<longleftrightarrow>
     (\<forall>s arg s' rc buf. call s fd FS_SEEK arg = (s', rc, buf) \<longrightarrow>
        rv_content v s' = rv_content v s \<and> (rc \<ge> 0 \<longrightarrow> rv_pos v s' = unat (from_le arg :: u32))) \<and>
     (\<forall>s arg s' rc got. call s fd FS_READ arg = (s', rc, got) \<longrightarrow>
        rv_content v s' = rv_content v s \<and> length got = length arg \<and>
        (rc \<ge> 0 \<longrightarrow> nat rc \<le> length arg \<and> take (nat rc) got = take (nat rc) (drop (rv_pos v s) (rv_content v s)) \<and>
           rv_pos v s' = rv_pos v s + nat rc) \<and>
        (rc = 0 \<longrightarrow> arg \<noteq> [] \<longrightarrow> length (rv_content v s) \<le> rv_pos v s) \<and>
        (fs_pending rc \<longrightarrow> rv_pos v s' = rv_pos v s))"

lemma reads_laws:
  assumes "log_reads call fd v" and "call s fd op arg = (s', rc, buf)"
  shows reads_seek: "op = FS_SEEK \<Longrightarrow> rv_content v s' = rv_content v s \<and> (rc \<ge> 0 \<longrightarrow> rv_pos v s' = unat (from_le arg :: u32))"
    and reads_read: "op = FS_READ \<Longrightarrow> rv_content v s' = rv_content v s \<and> length buf = length arg \<and>
        (rc \<ge> 0 \<longrightarrow> nat rc \<le> length arg \<and> take (nat rc) buf = take (nat rc) (drop (rv_pos v s) (rv_content v s)) \<and>
           rv_pos v s' = rv_pos v s + nat rc) \<and>
        (rc = 0 \<longrightarrow> arg \<noteq> [] \<longrightarrow> length (rv_content v s) \<le> rv_pos v s) \<and>
        (fs_pending rc \<longrightarrow> rv_pos v s' = rv_pos v s)"
  using assms unfolding log_reads_def by blast+

text \<open>\<open>filled\<close> bytes of the file from offset \<open>q\<close> on are in the buffer, and the offset follows them.\<close>

definition holds_from :: "'s read_view \<Rightarrow> nat \<Rightarrow> nat \<Rightarrow> bytes \<Rightarrow> 's \<Rightarrow> bool" where
  "holds_from v q filled buf s \<longleftrightarrow>
     rv_pos v s = q + filled \<and> q + filled \<le> length (rv_content v s) \<and>
     take filled buf = take filled (drop q (rv_content v s))"

lemma length_put_at [simp]: "off + length src \<le> length buf \<Longrightarrow> length (put_at off src buf) = length buf"
  by (simp add: put_at_def)

lemma take_put_at: "off \<le> length buf \<Longrightarrow> take off (put_at off src buf) = take off buf"
  by (simp add: put_at_def)

lemma take_put_more: "off \<le> length buf \<Longrightarrow> n \<le> length src \<Longrightarrow> take (off + n) (put_at off src buf) = take off buf @ take n src"
  by (simp add: put_at_def)

lemma read_some_reads:
  "log_reads call fd v \<Longrightarrow> read_some call fd filled til buf s = (buf', s', res) \<Longrightarrow>
   holds_from v q filled buf s \<Longrightarrow> filled \<le> til \<Longrightarrow> til \<le> length buf \<Longrightarrow>
   rv_content v s' = rv_content v s \<and> length buf' = length buf \<and>
   (case res of
      RsFull \<Rightarrow> holds_from v q til buf' s'
    | RsPending n \<Rightarrow> n \<le> til \<and> holds_from v q n buf' s'
    | RsEof n \<Rightarrow> length (rv_content v s) < q + til
    | RsFailed rc \<Rightarrow> True)"
proof (induction call fd filled til buf s rule: read_some.induct)
  case (1 call fd filled til buf s)
  show ?case
  proof (cases "filled < til")
    case False
    then show ?thesis using 1(3-) by (auto simp: read_some.simps [of call fd til til buf s])
  next
    case True
    define arg where "arg = sub_slice buf filled (til - filled)"
    obtain s1 n got where c: "call s fd FS_READ arg = (s1, n, got)" by (metis prod_cases3)
    have len: "length arg = til - filled" using True 1(6) by (simp add: arg_def sub_slice_def)
    note rd = reads_read [OF 1(2) c refl, unfolded len]
    define buf1 where "buf1 = put_at filled got buf"
    have buf1: "length buf1 = length buf" "take filled buf1 = take filled buf"
      using rd 1(5,6) by (simp_all add: buf1_def take_put_at)
    have unf: "read_some call fd filled til buf s =
        (if fs_pending n then (buf1, s1, RsPending filled)
         else if n < 0 then (buf1, s1, RsFailed n)
         else if n = 0 then (buf1, s1, RsEof filled)
         else read_some call fd (filled + min (nat n) (til - filled)) til buf1 s1)"
      using True by (simp add: read_some.simps [of call fd filled til buf s] arg_def [symmetric] c buf1_def)
    have h: "rv_pos v s = q + filled" "q + filled \<le> length (rv_content v s)"
      "take filled buf = take filled (drop q (rv_content v s))"
      using 1(4) by (simp_all add: holds_from_def)
    show ?thesis
    proof (cases "n > 0")
      case False
      then show ?thesis
        using 1(3) rd h buf1 True len by (auto simp: unf holds_from_def split: if_splits)
    next
      case pos: True
      then have np: "\<not> fs_pending n" using fs_pending_neg by fastforce
      have n: "nat n \<le> til - filled" "take (nat n) got = take (nat n) (drop (q + filled) (rv_content v s))"
        "rv_pos v s1 = q + filled + nat n" "length got = til - filled"
        using rd pos h(1) by simp_all
      then have "length (take (nat n) (drop (q + filled) (rv_content v s))) = nat n" by (metis length_take min.absorb2)
      then have fits: "q + filled + nat n \<le> length (rv_content v s)" using h(2) by simp
      have "take (filled + nat n) buf1 = take filled buf @ take (nat n) got"
        using n(1,4) 1(5,6) by (simp add: buf1_def take_put_more)
      then have "holds_from v q (filled + nat n) buf1 s1"
        using n rd h fits by (simp add: holds_from_def take_add add.commute)
      moreover have "filled + nat n \<le> til" using n(1) True by linarith
      ultimately show ?thesis
        using 1(1) [OF True refl c [unfolded arg_def, symmetric] refl refl buf1_def np] 1(2,3,5,6) pos np n(1) rd buf1
        by (cases res) (simp_all add: unf)
    qed
  qed
qed

section \<open>Handing out records\<close>

text \<open>The callback on a list of records, until it stops the replay: its state and how many it saw.\<close>

fun offer :: "('c \<Rightarrow> bytes \<Rightarrow> 'c \<times> bool) \<Rightarrow> 'c \<Rightarrow> bytes list \<Rightarrow> 'c \<times> nat" where
  "offer cb c [] = (c, 0)"
| "offer cb c (p # ps) =
     (case cb c p of
        (c, True) \<Rightarrow> (case offer cb c ps of (c, n) \<Rightarrow> (c, Suc n))
      | (c, False) \<Rightarrow> (c, 1))"

definition after :: "nat \<Rightarrow> 'c \<times> nat \<Rightarrow> 'c \<times> nat" where
  "after k r = (fst r, k + snd r)"

lemma parse_step:
  fixes bs :: bytes
  defines "len \<equiv> unat (from_le (take 4 bs) :: u32)"
  assumes "8 \<le> length bs" "len \<noteq> 0" "len \<le> MAX_WAL_REC" "len \<le> cap"
  shows "parse_log cap bs =
     (if length bs < 8 + len \<or> crc32 (sub_slice bs 8 len) \<noteq> from_le (sub_slice bs 4 4) then []
      else sub_slice bs 8 len # parse_log cap (drop (8 + len) bs))"
  using assms(2-) by (simp add: parse_log.simps [of cap bs] Let_def len_def [symmetric])

lemma parse_stop:
  assumes "length bs < 8 \<or> unat (from_le (take 4 bs) :: u32) = 0 \<or> unat (from_le (take 4 bs) :: u32) > MAX_WAL_REC
           \<or> unat (from_le (take 4 bs) :: u32) > cap"
  shows "parse_log cap bs = []"
  using assms by (auto simp: parse_log.simps [of cap bs] Let_def)

definition replay_inv ::
  "'s read_view \<Rightarrow> ('c \<Rightarrow> bytes \<Rightarrow> 'c \<times> bool) \<Rightarrow> nat \<Rightarrow> bytes \<Rightarrow> 'c \<Rightarrow> wal_replay \<Rightarrow> bytes \<Rightarrow> 'c \<Rightarrow> 's \<Rightarrow> bool" where
  "replay_inv v cb cap F c0 w scratch c s \<longleftrightarrow>
     rv_content v s = F \<and> length scratch = cap \<and> length (rp_hdr w) = 8 \<and>
     (\<exists>q k. offer cb c0 (parse_log cap F) = after k (offer cb c (parse_log cap (drop q F))) \<and> rp_applied w = word_of_nat k \<and>
        (case rp_phase w of
           REPLAY_SEEK \<Rightarrow> q = 0
         | REPLAY_HDR \<Rightarrow> rp_filled w \<le> 8 \<and> holds_from v q (rp_filled w) (rp_hdr w) s
         | REPLAY_BODY \<Rightarrow> rp_hdr w = take 8 (drop q F) \<and> rp_len w = unat (from_le (take 4 (rp_hdr w)) :: u32) \<and>
             rp_len w \<noteq> 0 \<and> rp_len w \<le> MAX_WAL_REC \<and> rp_len w \<le> cap \<and> rp_filled w \<le> rp_len w \<and>
             holds_from v (q + 8) (rp_filled w) scratch s
         | REPLAY_DONE \<Rightarrow> False))"

lemma replay_invI:
  fixes q k :: nat
  assumes "rv_content v s = F" "length scratch = cap" "length (rp_hdr w) = 8"
    and "offer cb c0 (parse_log cap F) = after k (offer cb c (parse_log cap (drop q F)))" "rp_applied w = word_of_nat k"
    and "case rp_phase w of
           REPLAY_SEEK \<Rightarrow> q = 0
         | REPLAY_HDR \<Rightarrow> rp_filled w \<le> 8 \<and> holds_from v q (rp_filled w) (rp_hdr w) s
         | REPLAY_BODY \<Rightarrow> rp_hdr w = take 8 (drop q F) \<and> rp_len w = unat (from_le (take 4 (rp_hdr w)) :: u32) \<and>
             rp_len w \<noteq> 0 \<and> rp_len w \<le> MAX_WAL_REC \<and> rp_len w \<le> cap \<and> rp_filled w \<le> rp_len w \<and>
             holds_from v (q + 8) (rp_filled w) scratch s
         | REPLAY_DONE \<Rightarrow> False"
  shows "replay_inv v cb cap F c0 w scratch c s"
  using assms unfolding replay_inv_def by blast

definition replay_ok ::
  "'s read_view \<Rightarrow> ('c \<Rightarrow> bytes \<Rightarrow> 'c \<times> bool) \<Rightarrow> nat \<Rightarrow> bytes \<Rightarrow> 'c \<Rightarrow>
   ('c, 's) replaying \<times> replay_poll_result option \<Rightarrow> bool" where
  "replay_ok v cb cap F c0 res \<longleftrightarrow>
     (case res of ((w, scratch, handed, c, s), r) \<Rightarrow>
        case r of
          Some (RpDone n) \<Rightarrow> \<exists>k. offer cb c0 (parse_log cap F) = (c, k) \<and> n = word_of_nat k
        | Some (RpFailed e) \<Rightarrow> True
        | _ \<Rightarrow> replay_inv v cb cap F c0 w scratch c s)"

lemma ok_seek:
  assumes rd: "log_reads call fd v" and inv: "replay_inv v cb cap F c0 w scratch c s" and ph: "rp_phase w = REPLAY_SEEK"
  shows "replay_ok v cb cap F c0 (replay_seek_step call fd (w, scratch, handed, c, s))"
proof -
  obtain s1 rc buf where c1: "call s fd FS_SEEK (le_bytes 4 (0 :: u32)) = (s1, rc, buf)" by (metis prod_cases3)
  have "rv_content v s1 = rv_content v s" "rc \<ge> 0 \<Longrightarrow> rv_pos v s1 = 0"
    using reads_seek [OF rd c1 refl] by (auto simp: from_le_u32)
  then show ?thesis
    using inv ph
    by (auto simp: replay_ok_def replay_seek_step_def c1 Let_def replay_fail_def replay_inv_def holds_from_def)
qed

lemma ok_hdr:
  assumes rd: "log_reads call fd v" and inv: "replay_inv v cb cap F c0 w scratch c s" and ph: "rp_phase w = REPLAY_HDR"
  shows "replay_ok v cb cap F c0 (replay_hdr_step call fd budget (w, scratch, handed, c, s))"
proof (cases "handed \<ge> budget")
  case True
  then show ?thesis using inv by (simp add: replay_ok_def replay_hdr_step_def)
next
  case False
  obtain q k where F: "rv_content v s = F" "length scratch = cap" "length (rp_hdr w) = 8"
    and k: "offer cb c0 (parse_log cap F) = after k (offer cb c (parse_log cap (drop q F)))" "rp_applied w = word_of_nat k"
    and h: "rp_filled w \<le> 8" "holds_from v q (rp_filled w) (rp_hdr w) s"
    using inv ph by (auto simp: replay_inv_def)
  obtain hdr s1 res where r: "read_some call fd (rp_filled w) 8 (rp_hdr w) s = (hdr, s1, res)" by (metis prod_cases3)
  note rs = read_some_reads [OF rd r h(2) h(1)] 
  have stop: "offer cb c0 (parse_log cap F) = (c, k)" if "parse_log cap (drop q F) = []"
    using k(1) that by (simp add: after_def)
  have hs: "replay_hdr_step call fd budget (w, scratch, handed, c, s) =
      (let w = w\<lparr>rp_hdr := hdr\<rparr>
       in case res of
            RsPending n \<Rightarrow> ((w\<lparr>rp_filled := n\<rparr>, scratch, handed, c, s1), Some RpPending)
          | RsFailed rc \<Rightarrow> ((w\<lparr>rp_phase := REPLAY_DONE\<rparr>, scratch, handed, c, s1), Some (RpFailed (WrReadFailed rc)))
          | RsEof _ \<Rightarrow> ((w\<lparr>rp_phase := REPLAY_DONE\<rparr>, scratch, handed, c, s1), Some (RpDone (rp_applied w)))
          | RsFull \<Rightarrow>
              let len = unat (from_le (take 4 hdr) :: u32)
              in if len = 0 \<or> len > MAX_WAL_REC \<or> len > length scratch
                 then ((w\<lparr>rp_phase := REPLAY_DONE\<rparr>, scratch, handed, c, s1), Some (RpDone (rp_applied w)))
                 else ((w\<lparr>rp_len := len, rp_filled := 0, rp_phase := REPLAY_BODY\<rparr>, scratch, handed, c, s1), None))"
    using False h(1)
    by (simp add: replay_hdr_step_def F(3) min_absorb1 r replay_fail_def replay_done_def Let_def split: read_some_result.split)
  show ?thesis
  proof (cases res)
    case RsFull
    then have hd: "hdr = take 8 (drop q F)" "length hdr = 8" "holds_from v q 8 hdr s1" "rv_content v s1 = F"
      using rs F by (auto simp: holds_from_def)
    have len8: "\<not> length (drop q F) < 8" using hd(1,2) by (metis length_take min.strict_order_iff min.commute less_irrefl)
    have t4: "take 4 hdr = take 4 (drop q F)" using hd(1) by simp
    have hb: "holds_from v (q + 8) 0 scratch s1" using hd(3) by (simp add: holds_from_def)
    define len where "len = unat (from_le (take 4 hdr) :: u32)"
    define w1 where "w1 = w\<lparr>rp_hdr := hdr, rp_len := len, rp_filled := 0, rp_phase := REPLAY_BODY\<rparr>"
    show ?thesis
    proof (cases "len = 0 \<or> len > MAX_WAL_REC \<or> len > cap")
      case True
      then have "parse_log cap (drop q F) = []" by (intro parse_stop) (auto simp: len_def t4)
      then show ?thesis using True stop k(2) F(2) RsFull by (auto simp: replay_ok_def hs Let_def len_def [symmetric])
    next
      case good: False
      have "replay_inv v cb cap F c0 w1 scratch c s1"
        by (rule replay_invI [OF hd(4) F(2) _ k(1)])
           (use good hd(1,2) k(2) hb in \<open>simp_all add: w1_def len_def\<close>)
      then show ?thesis using good F(2) RsFull by (auto simp: replay_ok_def hs Let_def len_def [symmetric] w1_def)
    qed
  next
    case (RsEof n)
    then have "length (drop q F) < 8" using rs F by auto
    then show ?thesis
      using False RsEof stop parse_stop [of "drop q F" cap] k(2)
      by (auto simp: replay_ok_def hs Let_def)
  next
    case (RsPending n)
    then show ?thesis
      using False rs F k ph by (auto simp: replay_ok_def hs Let_def replay_inv_def)
  qed (simp add: replay_ok_def hs Let_def)
qed

lemma ok_body:
  assumes rd: "log_reads call fd v" and inv: "replay_inv v cb cap F c0 w scratch c s" and ph: "rp_phase w = REPLAY_BODY"
  shows "replay_ok v cb cap F c0 (replay_body_step call fd cb (w, scratch, handed, c, s))"
proof -
  obtain q k where F: "rv_content v s = F" "length scratch = cap" "length (rp_hdr w) = 8"
    and k: "offer cb c0 (parse_log cap F) = after k (offer cb c (parse_log cap (drop q F)))" "rp_applied w = word_of_nat k"
    and hdr: "rp_hdr w = take 8 (drop q F)" "rp_len w = unat (from_le (take 4 (rp_hdr w)) :: u32)"
    and len: "rp_len w \<noteq> 0" "rp_len w \<le> MAX_WAL_REC" "rp_len w \<le> cap" "rp_filled w \<le> rp_len w"
    and h: "holds_from v (q + 8) (rp_filled w) scratch s"
    using inv ph by (auto simp: replay_inv_def)
  define n where "n = rp_len w"
  obtain buf s1 res where r: "read_some call fd (rp_filled w) n scratch s = (buf, s1, res)" by (metis prod_cases3)
  have rs: "rv_content v s1 = F" "length buf = cap"
    "case res of RsFull \<Rightarrow> holds_from v (q + 8) n buf s1 | RsPending m \<Rightarrow> m \<le> n \<and> holds_from v (q + 8) m buf s1
       | RsEof m \<Rightarrow> length F < q + 8 + n | RsFailed rc \<Rightarrow> True"
    using read_some_reads [OF rd r h] len F by (auto simp: n_def)
  define bs where "bs = drop q F"
  have hd: "rp_hdr w = take 8 bs" by (simp add: hdr(1) bs_def)
  have R: "8 \<le> length bs" "unat (from_le (take 4 bs) :: u32) = n" "sub_slice bs 4 4 = sub_slice (rp_hdr w) 4 4"
    using hdr(2) F(3) by (simp_all add: n_def sub_slice_def hd drop_take)
  note parse = parse_step [OF R(1), unfolded R(2), folded n_def, OF len(1-3) [folded n_def]]
  have stop: "offer cb c0 (parse_log cap F) = (c, k)" if "parse_log cap bs = []"
    using k(1) that by (simp add: after_def bs_def)
  have bsp: "replay_body_step call fd cb (w, scratch, handed, c, s) =
      (case res of
         RsPending m \<Rightarrow> ((w\<lparr>rp_filled := m\<rparr>, buf, handed, c, s1), Some RpPending)
       | RsFailed rc \<Rightarrow> ((w\<lparr>rp_phase := REPLAY_DONE\<rparr>, buf, handed, c, s1), Some (RpFailed (WrReadFailed rc)))
       | RsEof _ \<Rightarrow> ((w\<lparr>rp_phase := REPLAY_DONE\<rparr>, buf, handed, c, s1), Some (RpDone (rp_applied w)))
       | RsFull \<Rightarrow>
           if crc32 (take n buf) \<noteq> from_le (sub_slice (rp_hdr w) 4 4)
           then ((w\<lparr>rp_phase := REPLAY_DONE\<rparr>, buf, handed, c, s1), Some (RpDone (rp_applied w)))
           else
             (case cb c (take n buf) of (c, go) \<Rightarrow>
                if \<not> go then ((w\<lparr>rp_applied := rp_applied w + 1, rp_phase := REPLAY_DONE\<rparr>, buf, handed + 1, c, s1),
                              Some (RpDone (rp_applied w + 1)))
                else ((w\<lparr>rp_applied := rp_applied w + 1, rp_filled := 0, rp_phase := REPLAY_HDR\<rparr>, buf, handed + 1, c, s1), None)))"
    using len F(2)
    by (simp add: replay_body_step_def n_def [symmetric] min_absorb1 r replay_fail_def replay_done_def Let_def
        split: read_some_result.split prod.split)
  show ?thesis
  proof (cases res)
    case (RsEof m)
    then have "length bs < 8 + n" using rs(3) by (auto simp: bs_def)
    then show ?thesis using RsEof stop parse k(2) by (auto simp: replay_ok_def bsp)
  next
    case (RsPending m)
    have "replay_inv v cb cap F c0 (w\<lparr>rp_filled := m\<rparr>) buf c s1"
      by (rule replay_invI [OF rs(1,2) _ k(1)]) (use F(3) k(2) ph hdr len rs(3) RsPending in \<open>simp_all add: n_def\<close>)
    then show ?thesis using RsPending by (simp add: replay_ok_def bsp)
  next
    case RsFull
    then have full: "holds_from v (q + 8) n buf s1" using rs(3) by simp
    have pay: "take n buf = sub_slice bs 8 n" "\<not> length bs < 8 + n"
      using full rs(1) by (auto simp: holds_from_def sub_slice_def bs_def add.commute)
    show ?thesis
    proof (cases "crc32 (take n buf) = from_le (sub_slice (rp_hdr w) 4 4)")
      case False
      then have "parse_log cap bs = []" using parse pay R(3) by simp
      then show ?thesis using False stop k(2) RsFull by (auto simp: replay_ok_def bsp)
    next
      case True
      then have p: "parse_log cap bs = take n buf # parse_log cap (drop (8 + n) bs)" using parse pay R(3) by simp
      obtain c1 go where c1: "cb c (take n buf) = (c1, go)" by fastforce
      show ?thesis
      proof (cases go)
        case False
        then have "offer cb c0 (parse_log cap F) = (c1, k + 1)"
          using k(1) p c1 by (simp add: after_def bs_def)
        moreover have "rp_applied w + 1 = word_of_nat (k + 1)" using k(2) by simp
        ultimately show ?thesis using False True c1 RsFull by (auto simp: replay_ok_def bsp)
      next
        case go: True
        have "offer cb c0 (parse_log cap F) = after (k + 1) (offer cb c1 (parse_log cap (drop (q + 8 + n) F)))"
          using k(1) p c1 go by (simp add: after_def bs_def add.commute add.left_commute split: prod.split)
        then have "replay_inv v cb cap F c0 (w\<lparr>rp_applied := rp_applied w + 1, rp_filled := 0, rp_phase := REPLAY_HDR\<rparr>) buf c1 s1"
          by (rule replay_invI [OF rs(1,2), where q = "q + 8 + n", rotated])
             (use F(3) k(2) full in \<open>simp_all add: holds_from_def\<close>)
        then show ?thesis using go True c1 RsFull by (simp add: replay_ok_def bsp)
      qed
    qed
  qed (simp add: replay_ok_def bsp)
qed

lemma ok_step:
  assumes "log_reads call fd v" "replay_inv v cb cap F c0 w scratch c s"
  shows "replay_ok v cb cap F c0 (replay_step call fd cb budget (w, scratch, handed, c, s))"
  using ok_seek [OF assms] ok_hdr [OF assms] ok_body [OF assms] assms(2)
  by (cases "rp_phase w") (simp_all add: replay_step_def replay_inv_def)

lemma ok_loop:
  "log_reads call fd v \<Longrightarrow> replay_inv v cb cap F c0 (fst st) (fst (snd st)) (fst (snd (snd (snd st)))) (snd (snd (snd (snd st)))) \<Longrightarrow>
   replay_loop call fd cb budget st = (st', r) \<Longrightarrow> replay_ok v cb cap F c0 (st', Some r)"
proof (induction call fd cb budget st rule: replay_loop.induct)
  case (1 call fd cb budget st)
  obtain w scratch handed c s where st: "st = (w, scratch, handed, c, s)" by (cases st)
  obtain st1 r1 where step: "replay_step call fd cb budget st = (st1, r1)" by fastforce
  have ok: "replay_ok v cb cap F c0 (st1, r1)"
    using ok_step [OF 1(2), where budget = budget and handed = handed] 1(3) step by (fastforce simp: st)
  show ?case
  proof (cases r1)
    case None
    then show ?thesis
      using 1(1) [OF step [symmetric]] 1(2,4) ok step
      by (cases st1) (simp add: replay_ok_def replay_loop.simps [of call fd cb budget st])
  next
    case (Some r')
    then show ?thesis using 1(4) ok step by (simp add: replay_loop.simps [of call fd cb budget st])
  qed
qed

lemma ok_poll:
  assumes "log_reads call fd v" "replay_inv v cb cap F c0 w scratch c s"
    and "replay_poll call fd cb budget w scratch c s = (w', scratch', c', s', r)"
  shows "case r of
           RpDone n \<Rightarrow> \<exists>k. offer cb c0 (parse_log cap F) = (c', k) \<and> n = word_of_nat k
         | RpFailed e \<Rightarrow> True
         | RpPending \<Rightarrow> replay_inv v cb cap F c0 w' scratch' c' s'"
  using ok_loop [of call fd v cb cap F c0 "(w, scratch, 0, c, s)" budget] assms
  by (auto simp: replay_poll_def replay_ok_def split: prod.splits replay_poll_result.splits)

text \<open>A replay: polls with any budgets while the answer is Pending, the provider free to
  fetch in between.\<close>

inductive replay_hist ::
  "'s provider \<Rightarrow> int \<Rightarrow> 's read_view \<Rightarrow> ('c \<Rightarrow> bytes \<Rightarrow> 'c \<times> bool) \<Rightarrow> bytes \<Rightarrow> 'c \<Rightarrow> 's \<Rightarrow>
   wal_replay \<Rightarrow> bytes \<Rightarrow> 'c \<Rightarrow> 's \<Rightarrow> replay_poll_result \<Rightarrow> bool"
  for call fd v cb scratch0 c0 s0 where
    start: "replay_hist call fd v cb scratch0 c0 s0 replay_new scratch0 c0 s0 RpPending"
  | polled: "replay_hist call fd v cb scratch0 c0 s0 w scratch c s RpPending \<Longrightarrow>
      replay_poll call fd cb budget w scratch c s = (w', scratch', c', s', r) \<Longrightarrow>
      replay_hist call fd v cb scratch0 c0 s0 w' scratch' c' s' r"
  | waited: "replay_hist call fd v cb scratch0 c0 s0 w scratch c s r \<Longrightarrow>
      rv_content v s' = rv_content v s \<Longrightarrow> rv_pos v s' = rv_pos v s \<Longrightarrow>
      replay_hist call fd v cb scratch0 c0 s0 w scratch c s' r"

lemma replay_hist_ok:
  assumes "replay_hist call fd v cb scratch0 c0 s0 w scratch c s r" "log_reads call fd v"
  shows "case r of
           RpDone n \<Rightarrow> \<exists>k. offer cb c0 (parse_log (length scratch0) (rv_content v s0)) = (c, k) \<and> n = word_of_nat k
         | RpFailed e \<Rightarrow> True
         | RpPending \<Rightarrow> replay_inv v cb (length scratch0) (rv_content v s0) c0 w scratch c s"
  using assms(1)
proof induction
  case start
  have "replay_inv v cb (length scratch0) (rv_content v s0) c0 replay_new scratch0 c0 s0"
    by (rule replay_invI [where q = 0 and k = 0]) (simp_all add: replay_new_def after_def)
  then show ?case by simp
next
  case polled
  then show ?case using ok_poll [OF assms(2)] by fastforce
next
  case (waited w scratch c s r s')
  have "holds_from v q n buf s' = holds_from v q n buf s" for q n buf by (simp add: holds_from_def waited(2,3))
  then have "replay_inv v cb cap F c0 w scratch c s'" if "replay_inv v cb cap F c0 w scratch c s" for cap F
    using that by (cases "rp_phase w") (simp_all add: replay_inv_def waited(2))
  then show ?case using waited(4) by (cases r) simp_all
qed

section \<open>A replay ends when the provider answers\<close>

definition reads_answer :: "'s provider \<Rightarrow> int \<Rightarrow> bool" where
  "reads_answer call fd \<longleftrightarrow>
     (\<forall>s op arg s' rc buf. call s fd op arg = (s', rc, buf) \<longrightarrow> op \<in> {FS_SEEK, FS_READ} \<longrightarrow> rc \<ge> 0)"

lemma answered:
  assumes "reads_answer call fd" "call s fd op arg = (s', rc, buf)" "op = FS_SEEK \<or> op = FS_READ"
  shows "\<not> fs_pending rc" "\<not> rc < 0"
proof -
  have "rc \<ge> 0" using assms unfolding reads_answer_def by blast
  then show "\<not> fs_pending rc" "\<not> rc < 0" using fs_pending_neg [of rc] by auto
qed

lemma read_some_answers:
  "reads_answer call fd \<Longrightarrow> read_some call fd filled til buf s = (buf', s', res) \<Longrightarrow> res = RsFull \<or> (\<exists>n. res = RsEof n)"
proof (induction call fd filled til buf s rule: read_some.induct)
  case (1 call fd filled til buf s)
  obtain s1 n got where c: "call s fd FS_READ (sub_slice buf filled (til - filled)) = (s1, n, got)" by (metis prod_cases3)
  note a = answered [OF 1(2) c, simplified]
  show ?case
  proof (cases "filled < til")
    case False
    then show ?thesis using 1(3) by (simp add: read_some.simps [of call fd filled til buf s])
  next
    case True
    show ?thesis
    proof (cases "n = 0")
      case n: True
      then show ?thesis using 1(3) True a by (auto simp: read_some.simps [of call fd filled til buf s] c)
    next
      case False
      have "read_some call fd filled til buf s =
          read_some call fd (filled + min (nat n) (til - filled)) til (put_at filled got buf) s1"
        using True a False by (simp add: read_some.simps [of call fd filled til buf s] c)
      then show ?thesis
        using 1(1) [OF True refl c [symmetric] refl refl refl a False 1(2)] 1(3) by simp
    qed
  qed
qed

text \<open>Where a step leaves the count of handed records, and how it can answer.\<close>

definition tally_ok :: "nat \<Rightarrow> ('c, 's) replaying \<Rightarrow> bool" where
  "tally_ok budget st \<longleftrightarrow>
     (case st of (w, scratch, handed, c, s) \<Rightarrow>
        handed \<le> budget \<and> (rp_phase w = REPLAY_BODY \<longrightarrow> handed < budget) \<and> rp_applied w = word_of_nat handed)"

lemma tally_step:
  assumes ans: "reads_answer call fd" and t: "tally_ok budget st" and st: "replay_step call fd cb budget st = (st', r)"
  shows "(r = None \<and> tally_ok budget st') \<or> (r = Some RpPending \<and> tally_ok budget st' \<and> fst (snd (snd st')) = budget)
         \<or> (\<exists>n. r = Some (RpDone n))"
proof -
  obtain w scratch handed c s where s: "st = (w, scratch, handed, c, s)" by (cases st)
  show ?thesis
  proof (cases "rp_phase w")
    case REPLAY_SEEK
    obtain s1 rc buf where c: "call s fd FS_SEEK (le_bytes 4 (0 :: u32)) = (s1, rc, buf)" by (metis prod_cases3)
    show ?thesis
      using st t answered [OF ans c] by (auto simp: s replay_step_def REPLAY_SEEK replay_seek_step_def c tally_ok_def)
  next
    case REPLAY_HDR
    obtain hdr s1 res where r: "read_some call fd (min (rp_filled w) (length (rp_hdr w))) (length (rp_hdr w)) (rp_hdr w) s = (hdr, s1, res)"
      by (metis prod_cases3)
    show ?thesis
      using st t read_some_answers [OF ans r]
      by (auto simp: s replay_step_def REPLAY_HDR replay_hdr_step_def r tally_ok_def replay_done_def Let_def split: if_splits)
  next
    case REPLAY_BODY
    obtain buf s1 res where r: "read_some call fd (min (rp_filled w) (min (rp_len w) (length scratch)))
        (min (rp_len w) (length scratch)) scratch s = (buf, s1, res)"
      by (metis prod_cases3)
    show ?thesis
      using st t read_some_answers [OF ans r]
      by (auto simp: s replay_step_def REPLAY_BODY replay_body_step_def r tally_ok_def replay_done_def Let_def
          split: if_splits prod.splits)
  next
    case REPLAY_DONE
    then show ?thesis using st by (auto simp: s replay_step_def)
  qed
qed

lemma tally_loop:
  "reads_answer call fd \<Longrightarrow> tally_ok budget st \<Longrightarrow> replay_loop call fd cb budget st = (st', r) \<Longrightarrow>
   (r = RpPending \<and> tally_ok budget st' \<and> fst (snd (snd st')) = budget) \<or> (\<exists>n. r = RpDone n)"
proof (induction call fd cb budget st rule: replay_loop.induct)
  case (1 call fd cb budget st)
  obtain st1 r1 where step: "replay_step call fd cb budget st = (st1, r1)" by fastforce
  show ?case
    using tally_step [OF 1(2,3) step] 1(1) [OF step [symmetric]] 1(2,4)
    by (cases r1) (auto simp: replay_loop.simps [of call fd cb budget st] step)
qed

text \<open>The records a file holds are fewer than its bytes, so a budget above them is enough.\<close>

lemma replay_finishes:
  assumes rd: "log_reads call fd v" and ans: "reads_answer call fd"
    and budget: "snd (offer cb c0 (parse_log (length scratch) (rv_content v s))) < budget" "budget < 2 ^ 32"
    and poll: "replay_poll call fd cb budget replay_new scratch c0 s = (w', scratch', c', s', r)"
  shows "\<exists>n. r = RpDone n"
proof (rule ccontr)
  assume no: "\<nexists>n. r = RpDone n"
  obtain handed where loop: "replay_loop call fd cb budget (replay_new, scratch, 0, c0, s) = ((w', scratch', handed, c', s'), r)"
    using poll by (auto simp: replay_poll_def split: prod.splits)
  have t: "tally_ok budget (replay_new, scratch, 0, c0, s)" by (simp add: tally_ok_def replay_new_def)
  have p: "r = RpPending" "rp_applied w' = word_of_nat budget"
    using tally_loop [OF ans t loop] no by (auto simp: tally_ok_def)
  have "replay_inv v cb (length scratch) (rv_content v s) c0 replay_new scratch c0 s"
    by (rule replay_invI [where q = 0 and k = 0]) (simp_all add: replay_new_def after_def)
  from ok_poll [OF rd this poll]
  have "replay_inv v cb (length scratch) (rv_content v s) c0 w' scratch' c' s'" by (simp add: p(1))
  then obtain q k where "offer cb c0 (parse_log (length scratch) (rv_content v s)) =
      after k (offer cb c' (parse_log (length scratch) (drop q (rv_content v s))))" and k2: "rp_applied w' = word_of_nat k"
    unfolding replay_inv_def by blast
  then have k: "k \<le> snd (offer cb c0 (parse_log (length scratch) (rv_content v s)))" by (simp add: after_def)
  have "(word_of_nat budget :: u32) = word_of_nat k" using p(2) k2 by simp
  then have "unat (word_of_nat budget :: u32) = unat (word_of_nat k :: u32)" by simp
  then have "budget = k" using budget k by (simp add: unat_of_nat_small)
  then show False using budget(1) k by simp
qed

end
