(* ===== verification/WAL_Rotate.thy ===== *)
theory WAL_Rotate
  imports WAL_Append
begin

text \<open>
  The resumable rotation of \<open>wal_io.rs\<close>, \<open>WalRotator\<close>: a staging log beside the live one,
  seeded, fenced and renamed over it.  The seed callback is a function on a state of its
  own, as the replay's is.  The 16- and 32-bit cursors are naturals: the stage path fits its
  260 bytes, a frame its buffer, and a seed index stays below the seed count.
\<close>

datatype rotate_outcome = RoPending | RoRotated int | RoSkipped | RoLost

datatype rot_phase =
    ROT_IDLE | ROT_CAPS | ROT_CLEAR | ROT_CREATE | ROT_SEED | ROT_FSYNC | ROT_RENAME | ROT_REOPEN | ROT_DISCARD

definition ROT_SUFFIX :: bytes where "ROT_SUFFIX = [46, 114, 111, 116]"

definition ROTATE_PATH_BUF :: nat where "ROTATE_PATH_BUF = WAL_PATH_BUF + length ROT_SUFFIX"

record wal_rotator =
  rt_phase :: rot_phase
  rt_framed :: bool
  rt_stage_len :: nat
  rt_stage_fd :: int
  rt_seed_at :: nat
  rt_frame_len :: nat
  rt_written :: nat
  rt_stage :: bytes
  rt_opener :: wal_opener

definition rotator_new :: wal_rotator where
  "rotator_new = \<lparr>rt_phase = ROT_IDLE, rt_framed = False, rt_stage_len = 0, rt_stage_fd = - 1, rt_seed_at = 0,
     rt_frame_len = 0, rt_written = 0, rt_stage = replicate ROTATE_PATH_BUF 0, rt_opener = opener_new\<rparr>"

definition rotator_busy :: "wal_rotator \<Rightarrow> bool" where
  "rotator_busy w \<longleftrightarrow> rt_phase w \<noteq> ROT_IDLE"

definition stage_path :: "wal_rotator \<Rightarrow> bytes" where
  "stage_path w = take (min (rt_stage_len w) (length (rt_stage w))) (rt_stage w)"

text \<open>A seed callback: record \<open>i\<close> into the buffer, answering its length; and what a poll works on.\<close>

type_synonym 'c seeder = "'c \<Rightarrow> nat \<Rightarrow> bytes \<Rightarrow> 'c \<times> bytes \<times> nat option"

type_synonym ('c, 's) rotating = "wal_rotator \<times> bytes \<times> 'c \<times> 's"

definition frame_seed_record :: "'c seeder \<Rightarrow> nat \<Rightarrow> bytes \<Rightarrow> 'c \<Rightarrow> bytes \<times> 'c \<times> nat option" where
  "frame_seed_record seed i scratch c =
     (if length scratch < 8 then (scratch, c, None)
      else
        let (c, payload, res) = seed c i (drop 8 scratch);
            scratch = take 8 scratch @ payload
        in case res of
             None \<Rightarrow> (scratch, c, None)
           | Some n \<Rightarrow>
               if n = 0 then (scratch, c, Some 0)
               else if n > MAX_WAL_REC then (scratch, c, None)
               else if 8 + n > length scratch then (scratch, c, None)
               else (copy_prefix (le_bytes 4 (word_of_nat n :: u32) @ le_bytes 4 (crc32 (sub_slice scratch 8 n))) scratch,
                     c, Some (8 + n)))"

definition rot_skipped :: "wal_rotator \<Rightarrow> bytes \<Rightarrow> 'c \<Rightarrow> 's \<Rightarrow> ('c, 's) rotating \<times> rotate_outcome option" where
  "rot_skipped w scratch c s = ((w\<lparr>rt_phase := ROT_IDLE\<rparr>, scratch, c, s), Some RoSkipped)"

definition rot_caps_step :: "'s provider \<Rightarrow> ('c, 's) rotating \<Rightarrow> ('c, 's) rotating \<times> rotate_outcome option" where
  "rot_caps_step call st =
     (case st of (w, scratch, c, s) \<Rightarrow>
        let (s, caps) = fs_caps call s
        in case caps of
             None \<Rightarrow> ((w, scratch, c, s), Some RoPending)
           | Some caps \<Rightarrow>
               if caps AND CAP_RENAME = 0 then rot_skipped w scratch c s
               else ((w\<lparr>rt_phase := ROT_CLEAR\<rparr>, scratch, c, s), None))"

definition rot_clear_step :: "'s provider \<Rightarrow> ('c, 's) rotating \<Rightarrow> ('c, 's) rotating \<times> rotate_outcome option" where
  "rot_clear_step call st =
     (case st of (w, scratch, c, s) \<Rightarrow>
        let (s, rc) = fs_unlink call (stage_path w) s
        in if fs_pending rc then ((w, scratch, c, s), Some RoPending)
           else if rc < 0 \<and> rc \<noteq> ENOENT then rot_skipped w scratch c s
           else ((w\<lparr>rt_phase := ROT_CREATE\<rparr>, scratch, c, s), None))"

definition rot_create_step :: "'s provider \<Rightarrow> ('c, 's) rotating \<Rightarrow> ('c, 's) rotating \<times> rotate_outcome option" where
  "rot_create_step call st =
     (case st of (w, scratch, c, s) \<Rightarrow>
        let (s, sfd, _) = call s (- 1) FS_OPEN_CREATE (stage_path w)
        in if fs_pending sfd then ((w, scratch, c, s), Some RoPending)
           else if sfd < 0 then rot_skipped w scratch c s
           else ((w\<lparr>rt_stage_fd := sfd, rt_phase := ROT_SEED\<rparr>, scratch, c, s), None))"

definition rot_write :: "'s provider \<Rightarrow> ('c, 's) rotating \<Rightarrow> ('c, 's) rotating \<times> rotate_outcome option" where
  \<comment> \<open>the framed record's next write\<close>
  "rot_write call st =
     (case st of (w, scratch, c, s) \<Rightarrow>
        let stop_at = min (rt_frame_len w) (length scratch);
            off = min (rt_written w) stop_at;
            want = stop_at - off;
            (s, rc, _) = call s (rt_stage_fd w) FS_WRITE (sub_slice scratch off want)
        in if fs_pending rc then ((w, scratch, c, s), Some RoPending)
           else if rc \<le> 0 then ((w\<lparr>rt_phase := ROT_DISCARD\<rparr>, scratch, c, s), None)
           else
             let w = w\<lparr>rt_written := rt_written w + min (nat rc) want\<rparr>
             in if rt_written w \<ge> stop_at
                then ((w\<lparr>rt_framed := False, rt_seed_at := rt_seed_at w + 1\<rparr>, scratch, c, s), None)
                else ((w, scratch, c, s), None))"

definition rot_seed_step ::
  "'s provider \<Rightarrow> nat \<Rightarrow> 'c seeder \<Rightarrow> ('c, 's) rotating \<Rightarrow> ('c, 's) rotating \<times> rotate_outcome option" where
  "rot_seed_step call seed_count seed st =
     (case st of (w, scratch, c, s) \<Rightarrow>
        if rt_framed w then rot_write call st
        else if rt_seed_at w \<ge> seed_count then ((w\<lparr>rt_phase := ROT_FSYNC\<rparr>, scratch, c, s), None)
        else
          let (scratch, c, res) = frame_seed_record seed (rt_seed_at w) scratch c
          in case res of
               None \<Rightarrow> ((w\<lparr>rt_phase := ROT_DISCARD\<rparr>, scratch, c, s), None)
             | Some n \<Rightarrow>
                 if n = 0 then ((w\<lparr>rt_seed_at := rt_seed_at w + 1\<rparr>, scratch, c, s), None)
                 else rot_write call (w\<lparr>rt_frame_len := n, rt_written := 0, rt_framed := True\<rparr>, scratch, c, s))"

definition rot_fsync_step :: "'s provider \<Rightarrow> ('c, 's) rotating \<Rightarrow> ('c, 's) rotating \<times> rotate_outcome option" where
  "rot_fsync_step call st =
     (case st of (w, scratch, c, s) \<Rightarrow>
        let (s, rc, _) = call s (rt_stage_fd w) FS_FSYNC []
        in if fs_pending rc then ((w, scratch, c, s), Some RoPending)
           else if rc < 0 then ((w\<lparr>rt_phase := ROT_DISCARD\<rparr>, scratch, c, s), None)
           else
             let (s, _) = wal_close call (rt_stage_fd w) s
             in ((w\<lparr>rt_stage_fd := - 1, rt_phase := ROT_RENAME\<rparr>, scratch, c, s), None))"

definition rot_rename_step ::
  "'s provider \<Rightarrow> int \<Rightarrow> bytes \<Rightarrow> ('c, 's) rotating \<Rightarrow> ('c, 's) rotating \<times> rotate_outcome option" where
  "rot_rename_step call fd path st =
     (case st of (w, scratch, c, s) \<Rightarrow>
        let (s, rc) = fs_rename call (stage_path w) path s
        in if fs_pending rc then ((w, scratch, c, s), Some RoPending)
           else if rc < 0 then ((w\<lparr>rt_phase := ROT_DISCARD\<rparr>, scratch, c, s), None)
           else
             let (s, _) = wal_close call fd s
             in ((w\<lparr>rt_phase := ROT_REOPEN\<rparr>, scratch, c, s), None))"

definition rot_reopen_step ::
  "'s provider \<Rightarrow> bytes \<Rightarrow> ('c, 's) rotating \<Rightarrow> ('c, 's) rotating \<times> rotate_outcome option" where
  "rot_reopen_step call path st =
     (case st of (w, scratch, c, s) \<Rightarrow>
        let (op, s, r) = opener_poll call path True (rt_opener w) s;
            w = w\<lparr>rt_opener := op\<rparr>
        in case r of
             OpPending \<Rightarrow> ((w, scratch, c, s), Some RoPending)
           | OpReady new_fd \<Rightarrow> ((w\<lparr>rt_phase := ROT_IDLE\<rparr>, scratch, c, s), Some (RoRotated new_fd))
           | OpFailed _ \<Rightarrow> ((w\<lparr>rt_phase := ROT_IDLE\<rparr>, scratch, c, s), Some RoLost))"

definition rot_discard_step :: "'s provider \<Rightarrow> ('c, 's) rotating \<Rightarrow> ('c, 's) rotating \<times> rotate_outcome option" where
  "rot_discard_step call st =
     (case st of (w, scratch, c, s) \<Rightarrow>
        let (w, s) = (if rt_stage_fd w \<ge> 0 then (w\<lparr>rt_stage_fd := - 1\<rparr>, fst (wal_close call (rt_stage_fd w) s)) else (w, s));
            (s, rc) = fs_unlink call (stage_path w) s
        in if fs_pending rc then ((w, scratch, c, s), Some RoPending)
           else rot_skipped w scratch c s)"

definition rot_step ::
  "'s provider \<Rightarrow> int \<Rightarrow> bytes \<Rightarrow> nat \<Rightarrow> 'c seeder \<Rightarrow> ('c, 's) rotating \<Rightarrow> ('c, 's) rotating \<times> rotate_outcome option" where
  "rot_step call fd path seed_count seed st =
     (case rt_phase (fst st) of
        ROT_CAPS \<Rightarrow> rot_caps_step call st
      | ROT_CLEAR \<Rightarrow> rot_clear_step call st
      | ROT_CREATE \<Rightarrow> rot_create_step call st
      | ROT_SEED \<Rightarrow> rot_seed_step call seed_count seed st
      | ROT_FSYNC \<Rightarrow> rot_fsync_step call st
      | ROT_RENAME \<Rightarrow> rot_rename_step call fd path st
      | ROT_REOPEN \<Rightarrow> rot_reopen_step call path st
      | ROT_DISCARD \<Rightarrow> rot_discard_step call st
      | ROT_IDLE \<Rightarrow> (case st of (w, scratch, c, s) \<Rightarrow> rot_skipped w scratch c s))"

section \<open>The loop ends\<close>

definition rot_rank :: "rot_phase \<Rightarrow> nat" where
  "rot_rank ph = (case ph of ROT_CAPS \<Rightarrow> 6 | ROT_CLEAR \<Rightarrow> 5 | ROT_CREATE \<Rightarrow> 4 | ROT_SEED \<Rightarrow> 3 | ROT_FSYNC \<Rightarrow> 2
     | ROT_RENAME \<Rightarrow> 1 | _ \<Rightarrow> 0)"

definition seeds_left :: "nat \<Rightarrow> wal_rotator \<Rightarrow> nat" where
  "seeds_left seed_count w =
     (if rt_framed w then 2 * (seed_count - rt_seed_at w) + (if rt_seed_at w \<ge> seed_count then 1 else 0)
      else if rt_seed_at w \<ge> seed_count then 0 else 2 * (seed_count - rt_seed_at w) + 1)"

definition rot_measures :: "nat \<Rightarrow> (('c, 's) rotating \<Rightarrow> nat) list" where
  "rot_measures seed_count =
     [\<lambda>st. rot_rank (rt_phase (fst st)), \<lambda>st. seeds_left seed_count (fst st),
      \<lambda>st. min (rt_frame_len (fst st)) (length (fst (snd st))) - rt_written (fst st)]"

lemma rot_write_ranks:
  assumes "rot_write call st = (st', None)" "rt_phase (fst st) = ROT_SEED" "rt_framed (fst st)"
  shows "(st', st) \<in> measures (rot_measures seed_count)"
proof -
  obtain w scratch c s where st: "st = (w, scratch, c, s)" by (cases st)
  define fin where "fin = min (rt_frame_len w) (length scratch)"
  define want where "want = fin - min (rt_written w) fin"
  obtain s1 rc buf where call: "call s (rt_stage_fd w) FS_WRITE (sub_slice scratch (min (rt_written w) fin) want) = (s1, rc, buf)"
    by (metis prod_cases3)
  define w1 where "w1 = w\<lparr>rt_written := rt_written w + min (nat rc) want\<rparr>"
  have w1: "rt_phase w1 = ROT_SEED" "rt_framed w1" "rt_seed_at w1 = rt_seed_at w" "rt_frame_len w1 = rt_frame_len w"
    "rt_written w1 = rt_written w + min (nat rc) want"
    using assms(2,3) by (simp_all add: w1_def st)
  have rc: "\<not> fs_pending rc" using assms(1) by (auto simp: rot_write_def st Let_def fin_def [symmetric] want_def [symmetric] call)
  have st': "st' = (if rc \<le> 0 then (w\<lparr>rt_phase := ROT_DISCARD\<rparr>, scratch, c, s1)
      else if rt_written w1 \<ge> fin then (w1\<lparr>rt_framed := False, rt_seed_at := rt_seed_at w1 + 1\<rparr>, scratch, c, s1)
      else (w1, scratch, c, s1))"
    using assms(1) rc
    by (auto simp: rot_write_def st Let_def fin_def [symmetric] want_def [symmetric] call w1_def [symmetric] split: if_splits)
  show ?thesis
  proof (cases "rc \<le> 0")
    case True
    then show ?thesis using assms(2) st' by (simp add: rot_measures_def rot_rank_def st)
  next
    case pos: False
    show ?thesis
    proof (cases "rt_written w1 \<ge> fin")
      case True
      then have "seeds_left seed_count (fst st') < seeds_left seed_count w"
        using pos st' w1 assms(3) by (auto simp: seeds_left_def st)
      then show ?thesis using pos True st' w1 assms(2) by (simp add: rot_measures_def st)
    next
      case False
      then have "fin - rt_written w1 < fin - rt_written w" using pos w1(5) by (auto simp: want_def)
      moreover have "seeds_left seed_count w1 = seeds_left seed_count w" using w1 assms(3) by (simp add: seeds_left_def st)
      ultimately show ?thesis using pos False st' w1 assms(2) by (simp add: rot_measures_def st fin_def)
    qed
  qed
qed

lemma rot_seed_ranks:
  assumes "rot_seed_step call seed_count seed st = (st', None)" "rt_phase (fst st) = ROT_SEED"
  shows "(st', st) \<in> measures (rot_measures seed_count)"
proof -
  obtain w scratch c s where st: "st = (w, scratch, c, s)" by (cases st)
  consider (framed) "rt_framed w" | (over) "\<not> rt_framed w" "rt_seed_at w \<ge> seed_count"
    | (more) "\<not> rt_framed w" "rt_seed_at w < seed_count" by fastforce
  then show ?thesis
  proof cases
    case framed
    then show ?thesis using rot_write_ranks [of call st st'] assms by (simp add: rot_seed_step_def st)
  next
    case over
    then show ?thesis using assms by (auto simp: rot_seed_step_def st rot_measures_def rot_rank_def)
  next
    case more
    obtain scratch1 c1 res where f: "frame_seed_record seed (rt_seed_at w) scratch c = (scratch1, c1, res)"
      by (metis prod_cases3)
    show ?thesis
    proof (cases "\<exists>n. res = Some n \<and> n \<noteq> 0")
      case False
      then show ?thesis
        using assms more
        by (cases res) (auto simp: rot_seed_step_def st f rot_measures_def rot_rank_def seeds_left_def)
    next
      case True
      then obtain n where n: "res = Some n" "n \<noteq> 0" by blast
      define st1 where "st1 = (w\<lparr>rt_frame_len := n, rt_written := 0, rt_framed := True\<rparr>, scratch1, c1, s)"
      have "rot_write call st1 = (st', None)" using assms(1) more n by (simp add: rot_seed_step_def st f st1_def)
      then have "rot_rank (rt_phase (fst st')) < 3 \<or> rot_rank (rt_phase (fst st')) = 3 \<and> seeds_left seed_count (fst st') \<le> seeds_left seed_count (fst st1)"
        using rot_write_ranks [of call st1 st' seed_count] assms(2)
        by (auto simp: st1_def st rot_measures_def rot_rank_def)
      moreover have "seeds_left seed_count (fst st1) < seeds_left seed_count w"
        using more by (simp add: st1_def seeds_left_def)
      ultimately show ?thesis using assms(2) by (auto simp: st rot_measures_def rot_rank_def)
    qed
  qed
qed

lemma rot_step_ranks:
  assumes "rot_step call fd path seed_count seed st = (st', None)"
  shows "(st', st) \<in> measures (rot_measures seed_count)"
proof (cases "rt_phase (fst st) = ROT_SEED")
  case True
  then show ?thesis using assms rot_seed_ranks by (simp add: rot_step_def)
next
  case False
  then show ?thesis
    using assms
    by (cases st; cases st'; cases "rt_phase (fst st)")
       (auto simp: rot_step_def rot_caps_step_def rot_clear_step_def rot_create_step_def rot_fsync_step_def
         rot_rename_step_def rot_reopen_step_def rot_discard_step_def rot_skipped_def rot_measures_def rot_rank_def Let_def
         split: prod.splits if_splits option.splits open_poll.splits)
qed

function rot_loop ::
  "'s provider \<Rightarrow> int \<Rightarrow> bytes \<Rightarrow> nat \<Rightarrow> 'c seeder \<Rightarrow> ('c, 's) rotating \<Rightarrow> ('c, 's) rotating \<times> rotate_outcome" where
  "rot_loop call fd path seed_count seed st =
     (case rot_step call fd path seed_count seed st of
        (st, Some r) \<Rightarrow> (st, r)
      | (st, None) \<Rightarrow> rot_loop call fd path seed_count seed st)"
  by pat_completeness auto
termination
proof (relation "inv_image (measures [\<lambda>x. rot_rank (rt_phase (fst (snd x))), \<lambda>x. seeds_left (fst x) (fst (snd x)),
      \<lambda>x. min (rt_frame_len (fst (snd x))) (length (fst (snd (snd x)))) - rt_written (fst (snd x))])
      (\<lambda>(call, fd, path, seed_count, seed, st). (seed_count, st))", goal_cases)
  case (2 call fd path seed_count seed st x1 x2)
  then have "rot_step call fd path seed_count seed st = (x1, None)" by simp
  from rot_step_ranks [OF this] show ?case by (auto simp: rot_measures_def)
qed simp

declare rot_loop.simps [simp del]

definition rot_begin :: "bytes \<Rightarrow> wal_rotator \<Rightarrow> wal_rotator" where
  "rot_begin path w =
     w\<lparr>rt_stage := copy_prefix (path @ ROT_SUFFIX) (rt_stage w), rt_stage_len := length path + length ROT_SUFFIX,
       rt_stage_fd := - 1, rt_seed_at := 0, rt_framed := False, rt_frame_len := 0, rt_written := 0, rt_phase := ROT_CAPS\<rparr>"

definition rotate_seeded ::
  "'s provider \<Rightarrow> int \<Rightarrow> bytes \<Rightarrow> nat \<Rightarrow> 'c seeder \<Rightarrow> ('c, 's) rotating \<Rightarrow> ('c, 's) rotating \<times> rotate_outcome" where
  "rotate_seeded call fd path seed_count seed st =
     (case st of (w, scratch, c, s) \<Rightarrow>
        if rt_phase w = ROT_IDLE then
          if length path + length ROT_SUFFIX > length (rt_stage w) then ((w, scratch, c, s), RoSkipped)
          else rot_loop call fd path seed_count seed (rot_begin path w, scratch, c, s)
        else rot_loop call fd path seed_count seed st)"

definition wal_rotate :: "'s provider \<Rightarrow> int \<Rightarrow> bytes \<Rightarrow> wal_rotator \<Rightarrow> 's \<Rightarrow> wal_rotator \<times> 's \<times> rotate_outcome" where
  "wal_rotate call fd path w s =
     (let ((w, _, _, s), r) = rotate_seeded call fd path 0 (\<lambda>c i buf. (c, buf, Some 0)) (w, [], (), s) in (w, s, r))"

end
