(* ===== verification/WAL_Atomic.thy ===== *)
theory WAL_Atomic
  imports WAL_Rotate
begin

text \<open>
  The rotation is atomic: whatever the provider answers and wherever a crash falls, the next
  boot finds at the log's path the old log or the new one with every seed record, and the
  outcome says which.  The provider enters through what the fs contract says of a staging
  name, its file and \<open>RENAME\<close>.
\<close>

section \<open>The fs contract on a staging log\<close>

record 's rot_view =
  ro_crash :: "'s \<Rightarrow> bytes set"
  ro_staged :: "'s \<Rightarrow> bytes option"
  ro_fd :: "'s \<Rightarrow> int"
  ro_fenced :: "'s \<Rightarrow> bool"

definition still :: "'s rot_view \<Rightarrow> 's \<Rightarrow> 's \<Rightarrow> bool" where
  "still v s s' \<longleftrightarrow> ro_crash v s' = ro_crash v s \<and> ro_staged v s' = ro_staged v s \<and> ro_fd v s' = ro_fd v s \<and>
     ro_fenced v s' = ro_fenced v s"

definition staging :: "'s provider \<Rightarrow> bytes \<Rightarrow> bytes \<Rightarrow> bytes \<Rightarrow> 's rot_view \<Rightarrow> bool" where
  \<comment> \<open>\<open>old\<close> is the log the rotation started from\<close>
  "staging call path stage old v \<longleftrightarrow>
     (\<forall>s fd op arg s' rc buf. call s fd op arg = (s', rc, buf) \<longrightarrow>
        (op \<in> {FS_CAPS, FS_FSYNC_NAME, FS_CLOSE} \<or> op = FS_OPEN_CREATE \<and> arg = path \<longrightarrow> still v s s') \<and>
        (op = FS_UNLINK \<and> arg = stage \<longrightarrow>
           ro_crash v s' = ro_crash v s \<and> (rc \<ge> 0 \<or> rc = ENOENT \<longrightarrow> ro_staged v s' = None)) \<and>
        (op = FS_OPEN_CREATE \<and> arg = stage \<longrightarrow>
           ro_crash v s' = ro_crash v s \<and>
           (ro_staged v s \<in> {None, Some []} \<longrightarrow>
              (fs_pending rc \<longrightarrow> ro_staged v s' \<in> {None, Some []}) \<and>
              (rc \<ge> 0 \<longrightarrow> ro_staged v s' = Some [] \<and> ro_fd v s' = rc))) \<and>
        (op = FS_WRITE \<and> fd = ro_fd v s \<longrightarrow>
           ro_crash v s' = ro_crash v s \<and> rc \<le> int (length arg) \<and>
           (fs_pending rc \<longrightarrow> still v s s') \<and>
           (rc \<ge> 0 \<longrightarrow> ro_fd v s' = ro_fd v s \<and>
              (\<forall>b. ro_staged v s = Some b \<longrightarrow> ro_staged v s' = Some (b @ take (nat rc) arg)))) \<and>
        (op = FS_FSYNC \<and> fd = ro_fd v s \<longrightarrow>
           ro_crash v s' = ro_crash v s \<and> ro_staged v s' = ro_staged v s \<and> ro_fd v s' = ro_fd v s \<and>
           (rc \<ge> 0 \<longrightarrow> ro_fenced v s')) \<and>
        (op = FS_RENAME \<and> arg = rename_arg stage path \<longrightarrow>
           (\<forall>b. ro_staged v s = Some b \<and> ro_fenced v s \<and> ro_crash v s \<subseteq> {old, b} \<longrightarrow>
              (rc \<ge> 0 \<longrightarrow> ro_crash v s' = {b}) \<and>
              (fs_pending rc \<longrightarrow> ro_crash v s' \<subseteq> {old, b} \<and> ro_staged v s' = Some b \<and> ro_fenced v s') \<and>
              (rc < 0 \<and> \<not> fs_pending rc \<longrightarrow> ro_crash v s' = {old}))))"

lemma staging_laws:
  assumes "staging call path stage old v" and "call s fd op arg = (s', rc, buf)"
  shows stg_still: "op \<in> {FS_CAPS, FS_FSYNC_NAME, FS_CLOSE} \<or> op = FS_OPEN_CREATE \<and> arg = path \<Longrightarrow> still v s s'"
    and stg_unlink: "op = FS_UNLINK \<Longrightarrow> arg = stage \<Longrightarrow>
        ro_crash v s' = ro_crash v s \<and> (rc \<ge> 0 \<or> rc = ENOENT \<longrightarrow> ro_staged v s' = None)"
    and stg_create: "op = FS_OPEN_CREATE \<Longrightarrow> arg = stage \<Longrightarrow>
        ro_crash v s' = ro_crash v s \<and> (ro_staged v s \<in> {None, Some []} \<longrightarrow>
           (fs_pending rc \<longrightarrow> ro_staged v s' \<in> {None, Some []}) \<and>
           (rc \<ge> 0 \<longrightarrow> ro_staged v s' = Some [] \<and> ro_fd v s' = rc))"
    and stg_write: "op = FS_WRITE \<Longrightarrow> fd = ro_fd v s \<Longrightarrow>
        ro_crash v s' = ro_crash v s \<and> rc \<le> int (length arg) \<and> (fs_pending rc \<longrightarrow> still v s s') \<and>
        (rc \<ge> 0 \<longrightarrow> ro_fd v s' = ro_fd v s \<and>
           (\<forall>b. ro_staged v s = Some b \<longrightarrow> ro_staged v s' = Some (b @ take (nat rc) arg)))"
    and stg_fsync: "op = FS_FSYNC \<Longrightarrow> fd = ro_fd v s \<Longrightarrow>
        ro_crash v s' = ro_crash v s \<and> ro_staged v s' = ro_staged v s \<and> ro_fd v s' = ro_fd v s \<and>
        (rc \<ge> 0 \<longrightarrow> ro_fenced v s')"
    and stg_rename: "op = FS_RENAME \<Longrightarrow> arg = rename_arg stage path \<Longrightarrow> ro_staged v s = Some b \<Longrightarrow> ro_fenced v s \<Longrightarrow>
        ro_crash v s \<subseteq> {old, b} \<Longrightarrow>
        (rc \<ge> 0 \<longrightarrow> ro_crash v s' = {b}) \<and>
        (fs_pending rc \<longrightarrow> ro_crash v s' \<subseteq> {old, b} \<and> ro_staged v s' = Some b \<and> ro_fenced v s') \<and>
        (rc < 0 \<and> \<not> fs_pending rc \<longrightarrow> ro_crash v s' = {old})"
proof -
  note law = assms(1) [unfolded staging_def, THEN spec, THEN spec, THEN spec, THEN spec, THEN spec, THEN spec, THEN spec,
      THEN mp, OF assms(2)]
  show "op \<in> {FS_CAPS, FS_FSYNC_NAME, FS_CLOSE} \<or> op = FS_OPEN_CREATE \<and> arg = path \<Longrightarrow> still v s s'"
    using law [THEN conjunct1] by blast
  show "op = FS_UNLINK \<Longrightarrow> arg = stage \<Longrightarrow>
        ro_crash v s' = ro_crash v s \<and> (rc \<ge> 0 \<or> rc = ENOENT \<longrightarrow> ro_staged v s' = None)"
    using law [THEN conjunct2, THEN conjunct1] by blast
  show "op = FS_OPEN_CREATE \<Longrightarrow> arg = stage \<Longrightarrow>
        ro_crash v s' = ro_crash v s \<and> (ro_staged v s \<in> {None, Some []} \<longrightarrow>
           (fs_pending rc \<longrightarrow> ro_staged v s' \<in> {None, Some []}) \<and>
           (rc \<ge> 0 \<longrightarrow> ro_staged v s' = Some [] \<and> ro_fd v s' = rc))"
    using law [THEN conjunct2, THEN conjunct2, THEN conjunct1] by blast
  show "op = FS_WRITE \<Longrightarrow> fd = ro_fd v s \<Longrightarrow>
        ro_crash v s' = ro_crash v s \<and> rc \<le> int (length arg) \<and> (fs_pending rc \<longrightarrow> still v s s') \<and>
        (rc \<ge> 0 \<longrightarrow> ro_fd v s' = ro_fd v s \<and>
           (\<forall>b. ro_staged v s = Some b \<longrightarrow> ro_staged v s' = Some (b @ take (nat rc) arg)))"
    using law [THEN conjunct2, THEN conjunct2, THEN conjunct2, THEN conjunct1] by blast
  show "op = FS_FSYNC \<Longrightarrow> fd = ro_fd v s \<Longrightarrow>
        ro_crash v s' = ro_crash v s \<and> ro_staged v s' = ro_staged v s \<and> ro_fd v s' = ro_fd v s \<and>
        (rc \<ge> 0 \<longrightarrow> ro_fenced v s')"
    using law [THEN conjunct2, THEN conjunct2, THEN conjunct2, THEN conjunct2, THEN conjunct1] by blast
  show "op = FS_RENAME \<Longrightarrow> arg = rename_arg stage path \<Longrightarrow> ro_staged v s = Some b \<Longrightarrow> ro_fenced v s \<Longrightarrow>
        ro_crash v s \<subseteq> {old, b} \<Longrightarrow>
        (rc \<ge> 0 \<longrightarrow> ro_crash v s' = {b}) \<and>
        (fs_pending rc \<longrightarrow> ro_crash v s' \<subseteq> {old, b} \<and> ro_staged v s' = Some b \<and> ro_fenced v s') \<and>
        (rc < 0 \<and> \<not> fs_pending rc \<longrightarrow> ro_crash v s' = {old})"
    using law [THEN conjunct2, THEN conjunct2, THEN conjunct2, THEN conjunct2, THEN conjunct2] by blast
qed

section \<open>Seeds\<close>

definition seeds :: "'c seeder \<Rightarrow> (nat \<Rightarrow> bytes) \<Rightarrow> bool" where
  \<comment> \<open>the callback answers record \<open>i\<close>, or refuses\<close>
  "seeds seed recs \<longleftrightarrow>
     (\<forall>c i buf. case seed c i buf of (c', buf', res) \<Rightarrow> length buf' = length buf \<and>
        (case res of None \<Rightarrow> True | Some n \<Rightarrow> n = length (recs i) \<and> (n \<le> length buf \<longrightarrow> take n buf' = recs i)))"

definition seeded :: "(nat \<Rightarrow> bytes) \<Rightarrow> nat \<Rightarrow> bytes" where
  "seeded recs n = concat (map record_frame (filter (\<lambda>p. p \<noteq> []) (map recs [0..<n])))"

lemma seeded_Suc: "seeded recs (Suc n) = seeded recs n @ (if recs n = [] then [] else record_frame (recs n))"
  by (simp add: seeded_def)

lemma frame_seed:
  assumes "seeds seed recs" "frame_seed_record seed i scratch c = (scratch', c', res)"
  shows "case res of None \<Rightarrow> True
    | Some n \<Rightarrow> if n = 0 then recs i = []
        else recs i \<noteq> [] \<and> n = 8 + length (recs i) \<and> n \<le> length scratch' \<and> take n scratch' = record_frame (recs i)"
proof (cases "length scratch < 8")
  case True
  then show ?thesis using assms(2) by (auto simp: frame_seed_record_def)
next
  case False
  obtain c1 payload r where s: "seed c i (drop 8 scratch) = (c1, payload, r)" by (metis prod_cases3)
  have p: "length payload = length scratch - 8"
    "\<And>n. r = Some n \<Longrightarrow> n = length (recs i) \<and> (n \<le> length scratch - 8 \<longrightarrow> take n payload = recs i)"
    using assms(1) [unfolded seeds_def, THEN spec [of _ c], THEN spec [of _ i], THEN spec [of _ "drop 8 scratch"]] by (auto simp: s)
  define scratch1 where "scratch1 = take 8 scratch @ payload"
  have sl: "sub_slice scratch1 8 n = take n payload" for n using False by (simp add: scratch1_def sub_slice_def)
  have len: "length scratch1 = length scratch" using False p(1) by (simp add: scratch1_def)
  show ?thesis
  proof (cases "\<exists>n. r = Some n \<and> n \<noteq> 0 \<and> n \<le> MAX_WAL_REC \<and> 8 + n \<le> length scratch1")
    case no: False
    then show ?thesis
      using assms(2) False p(2)
      by (auto simp: frame_seed_record_def s scratch1_def [symmetric] Let_def split: option.splits if_splits)
  next
    case True
    then obtain n where n: "r = Some n" "n \<noteq> 0" "n \<le> MAX_WAL_REC" "8 + n \<le> length scratch1" by blast
    have rec: "n = length (recs i)" "take n payload = recs i" using p(2) [OF n(1)] n(4) len by auto
    have "drop 8 scratch1 = payload" using False by (simp add: scratch1_def)
    then have "take (8 + n) (copy_prefix (le_bytes 4 (word_of_nat n :: u32) @ le_bytes 4 (crc32 (recs i))) scratch1)
        = record_frame (recs i)"
      using rec by (simp add: copy_prefix_def record_frame_def take_add)
    then show ?thesis
      using assms(2) False n rec len
      by (auto simp: frame_seed_record_def s scratch1_def [symmetric] Let_def sl)
  qed
qed

section \<open>The opener leaves the names alone\<close>

lemma still_refl [simp]: "still v s s"
  by (simp add: still_def)

lemma still_trans: "still v s s' \<Longrightarrow> still v s' s'' \<Longrightarrow> still v s s''"
  by (simp add: still_def)

definition creating :: "wal_opener \<Rightarrow> bool" where
  "creating w \<longleftrightarrow> wo_phase w = OPEN_IDLE \<or> wo_create w"

lemma close_still:
  "staging call path stage old v \<Longrightarrow> still v s (fst (wal_close call fd s))"
  using stg_still [of call path stage old v s fd FS_CLOSE "[]"]
  by (cases "call s fd FS_CLOSE []") (auto simp: wal_close_def)

lemma caps_still:
  "staging call path stage old v \<Longrightarrow> still v s (fst (fs_caps call s))"
  using stg_still [of call path stage old v s "- 1" FS_CAPS "replicate 4 0"]
  by (cases "call s (- 1) FS_CAPS (replicate 4 0)") (auto simp: fs_caps_def)

lemma fsync_name_still:
  "staging call path stage old v \<Longrightarrow> still v s (fst (fsync_name call p s))"
  using stg_still [of call path stage old v s "- 1" FS_FSYNC_NAME p]
  by (cases "call s (- 1) FS_FSYNC_NAME p") (auto simp: fsync_name_def)

lemma abandon_still:
  "staging call path stage old v \<Longrightarrow> still v s (snd (opener_abandon call w s))"
  by (simp add: opener_abandon_def close_still)

lemma opener_step_still:
  assumes stg: "staging call path stage old v" and w: "wo_phase w \<noteq> OPEN_IDLE" "wo_create w"
    and st: "opener_step call path w s = (w', s', r)"
  shows "still v s s' \<and> wo_create w' \<and> (r = None \<longrightarrow> wo_phase w' \<noteq> OPEN_IDLE)"
proof (cases "wo_phase w")
  case OPEN_IDLE
  then show ?thesis using w by simp
next
  case OPEN_FILE
  obtain s1 fd buf where c: "call s (- 1) FS_OPEN_CREATE path = (s1, fd, buf)" by (metis prod_cases3)
  have "still v s s1" using stg_still [OF stg c] by simp
  then show ?thesis
    using st w(2) by (auto simp: opener_step_def OPEN_FILE c Let_def split: if_splits)
next
  case OPEN_CAPS
  obtain s1 caps where c: "fs_caps call s = (s1, caps)" by fastforce
  have "still v s s1" using caps_still [OF stg, of s] by (simp add: c)
  then show ?thesis
    using st w(2) still_trans [OF _ abandon_still [OF stg], of s s1 w]
    by (auto simp: opener_step_def OPEN_CAPS c Let_def opener_fail_def opener_abandon_def split: option.splits if_splits)
next
  case OPEN_NAME
  obtain s1 rc where c: "fsync_name call path s = (s1, rc)" by fastforce
  have "still v s s1" using fsync_name_still [OF stg, of s path] by (simp add: c)
  then show ?thesis
    using st w(2) still_trans [OF _ abandon_still [OF stg], of s s1 w]
    by (auto simp: opener_step_def OPEN_NAME c Let_def opener_fail_def opener_abandon_def opener_ready_def split: if_splits)
qed

lemma opener_loop_still:
  "staging call path stage old v \<Longrightarrow> wo_phase w \<noteq> OPEN_IDLE \<Longrightarrow> wo_create w \<Longrightarrow>
   opener_loop call path w s = (w', s', r) \<Longrightarrow> still v s s' \<and> wo_create w'"
proof (induction call path w s rule: opener_loop.induct)
  case (1 call path w s)
  obtain w1 s1 r1 where st: "opener_step call path w s = (w1, s1, r1)" by (metis prod_cases3)
  show ?case
    using opener_step_still [OF 1(2-4) st] 1(1) [OF st [symmetric] refl] 1(2,5) still_trans
    by (cases r1) (auto simp: opener_loop.simps [of call path w s] st)
qed

lemma opener_poll_still:
  assumes "staging call path stage old v" "creating w" "opener_poll call path True w s = (w', s', r)"
  shows "still v s s'" "creating w'"
  using opener_loop_still [OF assms(1), of "if wo_phase w = OPEN_IDLE
      then w\<lparr>wo_phase := OPEN_FILE, wo_create := True, wo_fd := - 1\<rparr> else w" s w' s' r] assms(2,3)
  by (auto simp: opener_poll_def creating_def split: if_splits)

section \<open>The invariant\<close>

definition rot_inv :: "'s rot_view \<Rightarrow> bytes \<Rightarrow> (nat \<Rightarrow> bytes) \<Rightarrow> nat \<Rightarrow> bytes \<Rightarrow> wal_rotator \<Rightarrow> bytes \<Rightarrow> 's \<Rightarrow> bool" where
  "rot_inv v stage recs seed_count old w scratch s \<longleftrightarrow>
     stage_path w = stage \<and> creating (rt_opener w) \<and>
     (rt_phase w \<in> {ROT_CAPS, ROT_CLEAR, ROT_CREATE} \<longrightarrow> rt_seed_at w = 0 \<and> \<not> rt_framed w) \<and>
     (case rt_phase w of
        ROT_IDLE \<Rightarrow> False
      | ROT_CREATE \<Rightarrow> ro_crash v s = {old} \<and> ro_staged v s \<in> {None, Some []}
      | ROT_SEED \<Rightarrow> ro_crash v s = {old} \<and> ro_fd v s = rt_stage_fd w \<and> rt_seed_at w \<le> seed_count \<and>
          (if rt_framed w then
             rt_seed_at w < seed_count \<and> recs (rt_seed_at w) \<noteq> [] \<and> rt_frame_len w = 8 + length (recs (rt_seed_at w)) \<and>
             rt_frame_len w \<le> length scratch \<and> take (rt_frame_len w) scratch = record_frame (recs (rt_seed_at w)) \<and>
             rt_written w < rt_frame_len w \<and>
             ro_staged v s = Some (seeded recs (rt_seed_at w) @ take (rt_written w) (record_frame (recs (rt_seed_at w))))
           else ro_staged v s = Some (seeded recs (rt_seed_at w)))
      | ROT_FSYNC \<Rightarrow> ro_crash v s = {old} \<and> ro_fd v s = rt_stage_fd w \<and> ro_staged v s = Some (seeded recs seed_count)
      | ROT_RENAME \<Rightarrow> ro_crash v s \<subseteq> {old, seeded recs seed_count} \<and> ro_staged v s = Some (seeded recs seed_count) \<and>
          ro_fenced v s
      | ROT_REOPEN \<Rightarrow> ro_crash v s = {seeded recs seed_count}
      | _ \<Rightarrow> ro_crash v s = {old})"

definition rot_ok :: "'s rot_view \<Rightarrow> bytes \<Rightarrow> (nat \<Rightarrow> bytes) \<Rightarrow> nat \<Rightarrow> bytes \<Rightarrow> ('c, 's) rotating \<times> rotate_outcome option \<Rightarrow> bool" where
  "rot_ok v stage recs seed_count old res \<longleftrightarrow>
     (case res of ((w, scratch, c, s), r) \<Rightarrow>
        case r of
          Some RoSkipped \<Rightarrow> ro_crash v s = {old}
        | Some (RoRotated _) \<Rightarrow> ro_crash v s = {seeded recs seed_count}
        | Some RoLost \<Rightarrow> ro_crash v s = {seeded recs seed_count}
        | _ \<Rightarrow> rot_inv v stage recs seed_count old w scratch s)"

lemma stage_path_phase [simp]:
  "stage_path (w\<lparr>rt_phase := ph\<rparr>) = stage_path w" "stage_path (w\<lparr>rt_stage_fd := fd\<rparr>) = stage_path w"
  "stage_path (w\<lparr>rt_written := n\<rparr>) = stage_path w" "stage_path (w\<lparr>rt_seed_at := n\<rparr>) = stage_path w"
  "stage_path (w\<lparr>rt_framed := b\<rparr>) = stage_path w" "stage_path (w\<lparr>rt_frame_len := n\<rparr>) = stage_path w"
  "stage_path (w\<lparr>rt_opener := op\<rparr>) = stage_path w"
  by (simp_all add: stage_path_def)

lemma ok_caps:
  assumes stg: "staging call path stage old v" and inv: "rot_inv v stage recs seed_count old w scratch s"
    and ph: "rt_phase w = ROT_CAPS"
  shows "rot_ok v stage recs seed_count old (rot_caps_step call (w, scratch, c, s))"
proof -
  obtain s1 caps where c: "fs_caps call s = (s1, caps)" by fastforce
  have "still v s s1" using caps_still [OF stg, of s] by (simp add: c)
  then show ?thesis
    using inv ph
    by (auto simp: rot_ok_def rot_caps_step_def c rot_skipped_def rot_inv_def still_def split: option.split)
qed

lemma ok_clear:
  assumes stg: "staging call path stage old v" and inv: "rot_inv v stage recs seed_count old w scratch s"
    and ph: "rt_phase w = ROT_CLEAR"
  shows "rot_ok v stage recs seed_count old (rot_clear_step call (w, scratch, c, s))"
proof -
  have sp: "stage_path w = stage" using inv by (simp add: rot_inv_def)
  obtain s1 rc buf where c: "call s (- 1) FS_UNLINK stage = (s1, rc, buf)" by (metis prod_cases3)
  have u: "ro_crash v s1 = {old}" "rc \<ge> 0 \<or> rc = ENOENT \<Longrightarrow> ro_staged v s1 = None" and op: "creating (rt_opener w)"
    and z: "rt_seed_at w = 0" "\<not> rt_framed w"
    using stg_unlink [OF stg c refl refl] inv ph by (auto simp: rot_inv_def)
  have "rot_clear_step call (w, scratch, c, s) =
      (if fs_pending rc then ((w, scratch, c, s1), Some RoPending)
       else if rc < 0 \<and> rc \<noteq> ENOENT then rot_skipped w scratch c s1
       else ((w\<lparr>rt_phase := ROT_CREATE\<rparr>, scratch, c, s1), None))"
    by (simp add: rot_clear_step_def fs_unlink_def sp c)
  then show ?thesis
    using u op sp ph z by (cases "rc \<ge> 0 \<or> rc = ENOENT") (auto simp: rot_ok_def rot_skipped_def rot_inv_def)
qed

lemma ok_create:
  assumes stg: "staging call path stage old v" and inv: "rot_inv v stage recs seed_count old w scratch s"
    and ph: "rt_phase w = ROT_CREATE"
  shows "rot_ok v stage recs seed_count old (rot_create_step call (w, scratch, c, s))"
proof -
  have sp: "stage_path w = stage" using inv by (simp add: rot_inv_def)
  obtain s1 rc buf where c: "call s (- 1) FS_OPEN_CREATE stage = (s1, rc, buf)" by (metis prod_cases3)
  have before: "ro_crash v s = {old}" "ro_staged v s \<in> {None, Some []}" and op: "creating (rt_opener w)"
    and w: "rt_seed_at w = 0" "\<not> rt_framed w"
    using inv ph by (simp_all add: rot_inv_def)
  have u: "ro_crash v s1 = {old}" "fs_pending rc \<Longrightarrow> ro_staged v s1 \<in> {None, Some []}"
    "rc \<ge> 0 \<Longrightarrow> ro_staged v s1 = Some [] \<and> ro_fd v s1 = rc"
    using stg_create [OF stg c refl refl] before by blast+
  have "rot_create_step call (w, scratch, c, s) =
      (if fs_pending rc then ((w, scratch, c, s1), Some RoPending)
       else if rc < 0 then rot_skipped w scratch c s1
       else ((w\<lparr>rt_stage_fd := rc, rt_phase := ROT_SEED\<rparr>, scratch, c, s1), None))"
    by (simp add: rot_create_step_def sp c)
  then show ?thesis
    using u op sp ph w by (simp add: rot_ok_def rot_skipped_def rot_inv_def seeded_def)
qed

lemma ok_fsync:
  assumes stg: "staging call path stage old v" and inv: "rot_inv v stage recs seed_count old w scratch s"
    and ph: "rt_phase w = ROT_FSYNC"
  shows "rot_ok v stage recs seed_count old (rot_fsync_step call (w, scratch, c, s))"
proof -
  have fd: "rt_stage_fd w = ro_fd v s" using inv ph by (simp add: rot_inv_def)
  obtain s1 rc buf where c: "call s (ro_fd v s) FS_FSYNC [] = (s1, rc, buf)" by (metis prod_cases3)
  have op: "creating (rt_opener w)" "stage_path w = stage" using inv by (simp_all add: rot_inv_def)
  have u: "ro_crash v s1 = {old}" "ro_fd v s1 = ro_fd v s" "ro_staged v s1 = Some (seeded recs seed_count)"
    "rc \<ge> 0 \<Longrightarrow> ro_fenced v s1"
    using stg_fsync [OF stg c refl refl] inv ph by (simp_all add: rot_inv_def)
  obtain s2 rc2 where cl: "wal_close call (ro_fd v s) s1 = (s2, rc2)" by fastforce
  have u2: "still v s1 s2" using close_still [OF stg, of s1 "ro_fd v s"] by (simp add: cl)
  have "rot_fsync_step call (w, scratch, c, s) =
      (if fs_pending rc then ((w, scratch, c, s1), Some RoPending)
       else if rc < 0 then ((w\<lparr>rt_phase := ROT_DISCARD\<rparr>, scratch, c, s1), None)
       else ((w\<lparr>rt_stage_fd := - 1, rt_phase := ROT_RENAME\<rparr>, scratch, c, s2), None))"
    by (simp add: rot_fsync_step_def fd c cl)
  then show ?thesis
    using u u2 op ph fd by (simp add: rot_ok_def rot_inv_def still_def)
qed

lemma ok_rename:
  assumes stg: "staging call path stage old v" and inv: "rot_inv v stage recs seed_count old w scratch s"
    and ph: "rt_phase w = ROT_RENAME" and fits: "RENAME_FRAMING + length stage + length path \<le> RENAME_ARG_LEN"
  shows "rot_ok v stage recs seed_count old (rot_rename_step call fd path (w, scratch, c, s))"
proof -
  have sp: "stage_path w = stage" using inv by (simp add: rot_inv_def)
  obtain s1 rc buf where c: "call s (- 1) FS_RENAME (rename_arg stage path) = (s1, rc, buf)" by (metis prod_cases3)
  have "ro_staged v s = Some (seeded recs seed_count)" "ro_fenced v s" "ro_crash v s \<subseteq> {old, seeded recs seed_count}"
    using inv ph by (auto simp: rot_inv_def)
  note rn = stg_rename [OF stg c refl refl this]
  obtain s2 rc2 where cl: "wal_close call fd s1 = (s2, rc2)" by fastforce
  have u2: "still v s1 s2" using close_still [OF stg, of s1 fd] by (simp add: cl)
  have op: "creating (rt_opener w)" using inv by (simp add: rot_inv_def)
  have "rot_rename_step call fd path (w, scratch, c, s) =
      (if fs_pending rc then ((w, scratch, c, s1), Some RoPending)
       else if rc < 0 then ((w\<lparr>rt_phase := ROT_DISCARD\<rparr>, scratch, c, s1), None)
       else ((w\<lparr>rt_phase := ROT_REOPEN\<rparr>, scratch, c, s2), None))"
    using fits by (simp add: rot_rename_step_def fs_rename_def sp c cl not_less)
  then show ?thesis
    using rn u2 op sp ph by (simp add: rot_ok_def rot_inv_def still_def)
qed

lemma ok_reopen:
  assumes stg: "staging call path stage old v" and inv: "rot_inv v stage recs seed_count old w scratch s"
    and ph: "rt_phase w = ROT_REOPEN"
  shows "rot_ok v stage recs seed_count old (rot_reopen_step call path (w, scratch, c, s))"
proof -
  obtain op s1 r where c: "opener_poll call path True (rt_opener w) s = (op, s1, r)" by (metis prod_cases3)
  have "creating (rt_opener w)" using inv by (simp add: rot_inv_def)
  note os = opener_poll_still [OF stg this c]
  show ?thesis
    using os inv ph
    by (auto simp: rot_ok_def rot_reopen_step_def c rot_inv_def Let_def still_def split: open_poll.split)
qed

lemma ok_discard:
  assumes stg: "staging call path stage old v" and inv: "rot_inv v stage recs seed_count old w scratch s"
    and ph: "rt_phase w = ROT_DISCARD"
  shows "rot_ok v stage recs seed_count old (rot_discard_step call (w, scratch, c, s))"
proof -
  have sp: "stage_path w = stage" using inv by (simp add: rot_inv_def)
  define s1 where "s1 = (if rt_stage_fd w \<ge> 0 then fst (wal_close call (rt_stage_fd w) s) else s)"
  have s1: "still v s s1" using close_still [OF stg] by (simp add: s1_def)
  obtain s2 rc buf where c: "call s1 (- 1) FS_UNLINK stage = (s2, rc, buf)" by (metis prod_cases3)
  have u: "ro_crash v s2 = {old}" and op: "creating (rt_opener w)"
    using stg_unlink [OF stg c refl refl] s1 inv ph by (simp_all add: rot_inv_def still_def)
  define w1 where "w1 = (if rt_stage_fd w \<ge> 0 then w\<lparr>rt_stage_fd := - 1\<rparr> else w)"
  have w1: "stage_path w1 = stage" "rt_phase w1 = ROT_DISCARD" "rt_opener w1 = rt_opener w"
    using sp ph by (simp_all add: w1_def)
  have "rot_discard_step call (w, scratch, c, s) =
      (if fs_pending rc then ((w1, scratch, c, s2), Some RoPending) else rot_skipped w1 scratch c s2)"
    using c by (cases "rt_stage_fd w \<ge> 0") (simp_all add: rot_discard_step_def fs_unlink_def sp s1_def w1_def)
  then show ?thesis
    using u op w1 by (simp add: rot_ok_def rot_skipped_def rot_inv_def)
qed

lemma ok_write:
  assumes stg: "staging call path stage old v" and inv: "rot_inv v stage recs seed_count old w scratch s"
    and ph: "rt_phase w = ROT_SEED" "rt_framed w"
  shows "rot_ok v stage recs seed_count old (rot_write call (w, scratch, c, s))"
proof -
  define p where "p = recs (rt_seed_at w)"
  define n where "n = rt_written w"
  have i: "stage_path w = stage" "creating (rt_opener w)" "ro_crash v s = {old}" "ro_fd v s = rt_stage_fd w"
    "rt_seed_at w < seed_count" "p \<noteq> []" "rt_frame_len w = 8 + length p" "rt_frame_len w \<le> length scratch"
    "take (rt_frame_len w) scratch = record_frame p" "n < rt_frame_len w"
    "ro_staged v s = Some (seeded recs (rt_seed_at w) @ take n (record_frame p))"
    using inv [unfolded rot_inv_def ph(1) rot_phase.case if_P [OF ph(2)], folded p_def n_def] by blast+
  have fin: "min (rt_frame_len w) (length scratch) = 8 + length p" "min n (8 + length p) = n" "n < 8 + length p"
    "take (8 + length p) scratch = record_frame p"
    using i(7-10) by simp_all
  define arg where "arg = sub_slice scratch n (8 + length p - n)"
  have arg: "arg = drop n (record_frame p)" using fin(4) by (metis arg_def sub_slice_def drop_take)
  obtain s1 rc buf where c: "call s (rt_stage_fd w) FS_WRITE arg = (s1, rc, buf)" by (metis prod_cases3)
  have len: "length arg = 8 + length p - n" by (simp add: arg)
  note sw = stg_write [OF stg c refl i(4) [symmetric]]
  have u: "ro_crash v s1 = {old}" "rc \<le> int (8 + length p - n)" "fs_pending rc \<Longrightarrow> still v s s1"
    "rc \<ge> 0 \<Longrightarrow> ro_fd v s1 = rt_stage_fd w"
    using sw i(3,4) by (simp_all only: len)
  have u5: "ro_staged v s1 = Some (seeded recs (rt_seed_at w) @ take (n + nat rc) (record_frame p))" if "rc \<ge> 0"
  proof -
    have "ro_staged v s1 = Some ((seeded recs (rt_seed_at w) @ take n (record_frame p)) @ take (nat rc) arg)"
      using sw that i(11) by blast
    then show ?thesis by (simp add: arg take_add)
  qed
  have m: "min (nat rc) (8 + length p - n) = nat rc" using u(2) by simp
  have wr: "rot_write call (w, scratch, c, s) =
      (if fs_pending rc then ((w, scratch, c, s1), Some RoPending)
       else if rc \<le> 0 then ((w\<lparr>rt_phase := ROT_DISCARD\<rparr>, scratch, c, s1), None)
       else if n + nat rc \<ge> 8 + length p
       then ((w\<lparr>rt_written := n + nat rc, rt_framed := False, rt_seed_at := rt_seed_at w + 1\<rparr>, scratch, c, s1), None)
       else ((w\<lparr>rt_written := n + nat rc\<rparr>, scratch, c, s1), None))"
    by (simp add: rot_write_def Let_def n_def [symmetric] fin(1,2) arg_def [symmetric] c m)
  have ok: "rot_inv v stage recs seed_count old w scratch s1" if "fs_pending rc"
    using inv ph u(3) [OF that] fin(4) [unfolded p_def] by (simp add: rot_inv_def still_def)
  have whole: "take (n + nat rc) (record_frame p) = record_frame p" if "n + nat rc \<ge> 8 + length p"
    using that by simp
  show ?thesis
  proof (cases "rc > 0 \<and> \<not> fs_pending rc")
    case False
    then show ?thesis using ok i(1,2) u(1) by (auto simp: wr rot_ok_def rot_inv_def)
  next
    case True
    then have st: "ro_fd v s1 = rt_stage_fd w" "ro_staged v s1 = Some (seeded recs (rt_seed_at w) @ take (n + nat rc) (record_frame p))"
      using u(4) u5 by simp_all
    show ?thesis
    proof (cases "n + nat rc \<ge> 8 + length p")
      case complete: True
      then show ?thesis
        using True st i fin(4) whole u(1) ph by (simp add: wr rot_ok_def rot_inv_def seeded_Suc p_def [symmetric])
    next
      case False
      then show ?thesis
        using True st i fin(4) u(1) ph by (simp add: wr rot_ok_def rot_inv_def p_def [symmetric])
    qed
  qed
qed

lemma ok_seed:
  assumes stg: "staging call path stage old v" and inv: "rot_inv v stage recs seed_count old w scratch s"
    and ph: "rt_phase w = ROT_SEED" and sd: "seeds seed recs"
  shows "rot_ok v stage recs seed_count old (rot_seed_step call seed_count seed (w, scratch, c, s))"
proof -
  consider (framed) "rt_framed w" | (over) "\<not> rt_framed w" "rt_seed_at w \<ge> seed_count"
    | (more) "\<not> rt_framed w" "rt_seed_at w < seed_count" by fastforce
  then show ?thesis
  proof cases
    case framed
    then show ?thesis using ok_write [OF stg inv ph] by (simp add: rot_seed_step_def)
  next
    case over
    moreover have "rt_seed_at w = seed_count" using over inv ph by (simp add: rot_inv_def)
    ultimately show ?thesis using inv ph by (simp add: rot_seed_step_def rot_ok_def rot_inv_def)
  next
    case more
    obtain scratch1 c1 res where f: "frame_seed_record seed (rt_seed_at w) scratch c = (scratch1, c1, res)"
      by (metis prod_cases3)
    note fr = frame_seed [OF sd f]
    show ?thesis
    proof (cases res)
      case None
      then show ?thesis using more inv ph by (simp add: rot_seed_step_def f rot_ok_def rot_inv_def)
    next
      case (Some n)
      show ?thesis
      proof (cases "n = 0")
        case True
        then show ?thesis using more inv ph fr Some by (simp add: rot_seed_step_def f rot_ok_def rot_inv_def seeded_Suc)
      next
        case False
        define w1 where "w1 = w\<lparr>rt_frame_len := n, rt_written := 0, rt_framed := True\<rparr>"
        have fr': "recs (rt_seed_at w) \<noteq> []" "n = 8 + length (recs (rt_seed_at w))" "n \<le> length scratch1"
          "take n scratch1 = record_frame (recs (rt_seed_at w))"
          using fr [unfolded Some option.case if_not_P [OF False]] by blast+
        have "rot_inv v stage recs seed_count old w1 scratch1 s"
          using more inv ph fr' by (simp add: rot_inv_def w1_def)
        then have "rot_ok v stage recs seed_count old (rot_write call (w1, scratch1, c1, s))"
          by (rule ok_write [OF stg]) (simp_all add: w1_def ph)
        then show ?thesis using more Some False by (simp add: rot_seed_step_def f w1_def)
      qed
    qed
  qed
qed

lemma ok_rot_step:
  assumes "staging call path stage old v" "rot_inv v stage recs seed_count old w scratch s" "seeds seed recs"
    and "RENAME_FRAMING + length stage + length path \<le> RENAME_ARG_LEN"
  shows "rot_ok v stage recs seed_count old (rot_step call fd path seed_count seed (w, scratch, c, s))"
  using ok_caps [OF assms(1,2)] ok_clear [OF assms(1,2)] ok_create [OF assms(1,2)] ok_seed [OF assms(1,2) _ assms(3)]
    ok_fsync [OF assms(1,2)] ok_rename [OF assms(1,2) _ assms(4)] ok_reopen [OF assms(1,2)] ok_discard [OF assms(1,2)] assms(2)
  by (cases "rt_phase w") (simp_all add: rot_step_def, simp add: rot_inv_def)

lemma ok_rot_loop:
  "staging call path stage old v \<Longrightarrow> seeds seed recs \<Longrightarrow> RENAME_FRAMING + length stage + length path \<le> RENAME_ARG_LEN \<Longrightarrow>
   (case st of (w, scratch, c, s) \<Rightarrow> rot_inv v stage recs seed_count old w scratch s) \<Longrightarrow>
   rot_ok v stage recs seed_count old (case rot_loop call fd path seed_count seed st of (st, r) \<Rightarrow> (st, Some r))"
proof (induction call fd path seed_count seed st rule: rot_loop.induct)
  case (1 call fd path seed_count seed st)
  obtain w scratch c s where st: "st = (w, scratch, c, s)" by (cases st)
  obtain st1 r1 where step: "rot_step call fd path seed_count seed st = (st1, r1)" by fastforce
  have ok: "rot_ok v stage recs seed_count old (st1, r1)"
    using ok_rot_step [OF 1(2) _ 1(3,4), where w = w and scratch = scratch and s = s and fd = fd and c = c and seed_count = seed_count] 1(5) step by (simp add: st)
  show ?case
    using 1(1) [OF step [symmetric] _ 1(2-4)] ok step
    by (cases r1; cases st1) (simp_all add: rot_ok_def rot_loop.simps [of call fd path seed_count seed st])
qed

section \<open>Rotations\<close>

text \<open>One rotation: polls while the answer is Pending, the provider free to move in between.\<close>

inductive rot_hist ::
  "'s provider \<Rightarrow> int \<Rightarrow> bytes \<Rightarrow> nat \<Rightarrow> 'c seeder \<Rightarrow> 's rot_view \<Rightarrow> ('c, 's) rotating \<Rightarrow>
   ('c, 's) rotating \<Rightarrow> rotate_outcome \<Rightarrow> bool"
  for call fd path seed_count seed v st0 where
    start: "rot_hist call fd path seed_count seed v st0 st0 RoPending"
  | polled: "rot_hist call fd path seed_count seed v st0 st RoPending \<Longrightarrow>
      rotate_seeded call fd path seed_count seed st = (st', r) \<Longrightarrow> rot_hist call fd path seed_count seed v st0 st' r"
  | waited: "rot_hist call fd path seed_count seed v st0 (w, scratch, c, s) r \<Longrightarrow> still v s s' \<Longrightarrow>
      rot_hist call fd path seed_count seed v st0 (w, scratch, c, s') r"

definition fresh_rotator :: "wal_rotator \<Rightarrow> bool" where
  "fresh_rotator w \<longleftrightarrow> rt_phase w = ROT_IDLE \<and> length (rt_stage w) = ROTATE_PATH_BUF \<and> creating (rt_opener w)"

lemma rot_begin_inv:
  assumes "fresh_rotator w" "length path + length ROT_SUFFIX \<le> ROTATE_PATH_BUF" "ro_crash v s = {old}"
  shows "rot_inv v (path @ ROT_SUFFIX) recs seed_count old (rot_begin path w) scratch s"
proof -
  have "stage_path (rot_begin path w) = path @ ROT_SUFFIX"
    using assms(1,2) by (simp add: stage_path_def rot_begin_def fresh_rotator_def copy_prefix_def)
  then show ?thesis using assms(1,3) by (simp add: rot_inv_def rot_begin_def fresh_rotator_def)
qed

lemma rot_inv_still:
  assumes "rot_inv v stage recs seed_count old w scratch s" "still v s s'"
  shows "rot_inv v stage recs seed_count old w scratch s'"
proof -
  have "ro_crash v s' = ro_crash v s" "ro_staged v s' = ro_staged v s" "ro_fd v s' = ro_fd v s" "ro_fenced v s' = ro_fenced v s"
    using assms(2) by (simp_all add: still_def)
  then have "rot_inv v stage recs seed_count old w scratch s' = rot_inv v stage recs seed_count old w scratch s"
    unfolding rot_inv_def by (simp only:)
  then show ?thesis using assms(1) by simp
qed

lemma rot_hist_ok:
  assumes hist: "rot_hist call fd path seed_count seed v (w0, scratch0, c0, s0) st r"
    and stg: "staging call path (path @ ROT_SUFFIX) old v" and sd: "seeds seed recs"
    and w0: "fresh_rotator w0" and s0: "ro_crash v s0 = {old}"
  shows "(r = RoPending \<and> (case st of (w, scratch, c, s) \<Rightarrow> fresh_rotator w \<and> ro_crash v s = {old})) \<or>
         (r = RoSkipped \<and> (case st of (w, scratch, c, s) \<Rightarrow> ro_crash v s = {old})) \<or>
         (length path + length ROT_SUFFIX \<le> ROTATE_PATH_BUF \<and>
          rot_ok v (path @ ROT_SUFFIX) recs seed_count old (st, Some r))"
  using hist
proof induction
  case start
  then show ?case using w0 s0 by simp
next
  case (polled st st' r)
  obtain w scratch c s where st: "st = (w, scratch, c, s)" by (cases st)
  have fits: "RENAME_FRAMING + length (path @ ROT_SUFFIX) + length path \<le> RENAME_ARG_LEN"
    if "length path + length ROT_SUFFIX \<le> ROTATE_PATH_BUF"
    using that by (simp add: ROTATE_PATH_BUF_def RENAME_FRAMING_def RENAME_ARG_LEN_def RENAME_PATHS_MAX_def
        WAL_STAGE_SUFFIX_LEN_def WAL_PATH_BUF_def ROT_SUFFIX_def)
  show ?case
  proof (cases "rt_phase w = ROT_IDLE")
    case True
    then have idle: "fresh_rotator w" "ro_crash v s = {old}"
      using polled(3) by (auto simp: st rot_ok_def rot_inv_def)
    show ?thesis
    proof (cases "length path + length ROT_SUFFIX \<le> ROTATE_PATH_BUF")
      case False
      then show ?thesis using polled(2) idle True by (auto simp: rotate_seeded_def st fresh_rotator_def rot_ok_def)
    next
      case small: True
      have "rot_inv v (path @ ROT_SUFFIX) recs seed_count old (rot_begin path w) scratch s"
        by (rule rot_begin_inv [OF idle(1) small idle(2)])
      moreover have "rot_loop call fd path seed_count seed (rot_begin path w, scratch, c, s) = (st', r)"
        using polled(2) True small idle(1) by (simp add: rotate_seeded_def st fresh_rotator_def not_less)
      ultimately show ?thesis
        using ok_rot_loop [OF stg sd fits [OF small], where st = "(rot_begin path w, scratch, c, s)" and seed_count = seed_count and fd = fd] small by simp
    qed
  next
    case False
    then have inv: "rot_inv v (path @ ROT_SUFFIX) recs seed_count old w scratch s"
      using polled(3) by (auto simp: st rot_ok_def fresh_rotator_def)
    have small: "length path + length ROT_SUFFIX \<le> ROTATE_PATH_BUF"
      using polled(3) False by (auto simp: st fresh_rotator_def)
    have "rot_loop call fd path seed_count seed (w, scratch, c, s) = (st', r)"
      using polled(2) False by (simp add: rotate_seeded_def st)
    then show ?thesis
      using ok_rot_loop [OF stg sd fits [OF small], where st = "(w, scratch, c, s)" and seed_count = seed_count and fd = fd]
        inv small by simp
  qed
next
  case (waited w scratch c s r s')
  show ?case using waited(2,3) rot_inv_still [OF _ waited(2)]
    by (cases r) (auto simp: rot_ok_def still_def)
qed

end
