(* ===== verification/WAL_Props.thy ===== *)
theory WAL_Props
  imports WAL_Durable WAL_Replay WAL_Atomic
begin

text \<open>
  What the log of \<open>wal_io.rs\<close> is worth to the modules that keep one: what an acknowledged
  append survives, what a replay hands out, what a rotation may leave, and what happens to
  appends past a torn tail.
\<close>

section \<open>A provider that keeps the contract\<close>

text \<open>An in-memory log that writes at most five bytes a call and reads at most three, for the
  witnesses.\<close>

record mem_log =
  ml_bytes :: bytes
  ml_at :: nat
  ml_synced :: nat

definition mem_fs :: "mem_log provider" where
  "mem_fs s fd op arg =
     (if op = FS_STAT then
        if length (ml_bytes s) < 2 ^ 32 then (s, 8, le_bytes 4 (word_of_nat (length (ml_bytes s)) :: u32) @ replicate 4 0)
        else (s, - 75, arg)
      else if op = FS_SEEK then (s\<lparr>ml_at := unat (from_le arg :: u32)\<rparr>, 0, arg)
      else if op = FS_WRITE \<or> op = FS_WRITE_ASYNC then
        if ml_at s > length (ml_bytes s) then (s, - 22, arg)
        else (let n = min 5 (length arg)
              in (s\<lparr>ml_bytes := take (ml_at s) (ml_bytes s) @ take n arg @ drop (ml_at s + n) (ml_bytes s),
                    ml_at := ml_at s + n\<rparr>, int n, arg))
      else if op = FS_FSYNC then (s\<lparr>ml_synced := length (ml_bytes s)\<rparr>, 0, arg)
      else if op = FS_FSYNC_SUBMIT then
        if length (ml_bytes s) < 2 ^ 64 then (s, 0, le_bytes 8 (word_of_nat (length (ml_bytes s)) :: u64))
        else (s, - 75, arg)
      else if op = FS_FSYNC_POLL then (s\<lparr>ml_synced := max (ml_synced s) (unat (from_le arg :: u64))\<rparr>, 0, arg)
      else if op = FS_READ then
        (let n = min 3 (length arg); got = take n (drop (ml_at s) (ml_bytes s))
         in (s\<lparr>ml_at := ml_at s + length got\<rparr>, int (length got), copy_prefix got arg))
      else if op = FS_CAPS then (s, 4, le_bytes 4 CAP_FSYNC_ASYNC)
      else (s, - 38, arg))"

definition mem_view :: "mem_log log_view" where
  "mem_view = \<lparr>lv_content = ml_bytes, lv_pos = ml_at, lv_synced = (\<lambda>s. min (ml_synced s) (length (ml_bytes s))),
     lv_fence = (\<lambda>s t. min (unat (from_le t :: u64)) (length (ml_bytes s)))\<rparr>"

lemma mem_fs_log: "log_file mem_fs fd mem_view"
  unfolding log_file_def
  by (intro conjI allI impI)
     (auto simp: mem_fs_def mem_view_def untouched_def fs_opcodes from_le_u32 from_le_u64 unat_of_nat_small Let_def
       split: if_splits)

definition mem_start :: "bytes \<Rightarrow> mem_log" where
  "mem_start bs = \<lparr>ml_bytes = bs, ml_at = 0, ml_synced = length bs\<rparr>"

lemma mem_start_view:
  "lv_content mem_view (mem_start bs) = bs" "lv_synced mem_view (mem_start bs) = length bs"
  by (simp_all add: mem_view_def mem_start_def)

definition mem_begin :: "bytes \<Rightarrow> bytes \<Rightarrow> wal_appender \<times> mem_log \<times> append_state" where
  "mem_begin bs p = appender_begin mem_fs 0 p appender_new (mem_start bs)"

lemma mem_begin_hist:
  "wal_hist mem_fs 0 mem_view (mem_start bs) (newly_acked (snd (snd (mem_begin bs p))) p)
     (fst (mem_begin bs p)) (fst (snd (mem_begin bs p)))"
  using wal_hist.began [OF wal_hist.opened, of mem_fs 0 p "mem_start bs"]
  by (cases "mem_begin bs p") (simp add: mem_begin_def)

lemma mem_fs_answers:
  assumes "most < 2 ^ 32"
  shows "fs_answers mem_fs fd mem_view most"
  using assms unfolding fs_answers_def
  by (intro conjI allI impI)
     (auto simp: mem_fs_def mem_view_def fs_opcodes Let_def split: if_splits)

text \<open>C37: appends land\<close>

theorem wal_append_lands:
  assumes log: "log_file call fd v" and ans: "fs_answers call fd v (length (lv_content v s) + 8 + length p)"
    and hist: "wal_hist call fd v s0 acked a s" "length (lv_content v s0) \<le> lv_synced v s0"
    and ready: "ap_phase a = PHASE_IDLE" "\<not> ap_broken a" and p: "writable_record p"
    and room: "length (lv_content v s) \<le> 0x7FFFFFFF"
  shows "\<exists>a' s'. appender_begin call fd p a s = (a', s', ApDurable) \<and>
           lv_content v s' = lv_content v s @ record_frame p \<and> length (lv_content v s') \<le> lv_synced v s' \<and>
           ap_phase a' = PHASE_IDLE \<and> \<not> ap_broken a'"
  by (rule append_lands [OF log ans wal_hist_inv [OF hist(1) log refl hist(2)] ready p room])

lemma wal_append_lands_witness:
  "\<exists>a s. appender_begin mem_fs 0 [1, 2, 3] appender_new (mem_start (record_frame [7])) = (a, s, ApDurable) \<and>
     ml_bytes s = record_frame [7] @ record_frame [1, 2, 3] \<and> length (ml_bytes s) \<le> ml_synced s"
proof -
  have "\<exists>a' s'. appender_begin mem_fs 0 [1, 2, 3] appender_new (mem_start (record_frame [7])) = (a', s', ApDurable) \<and>
      lv_content mem_view s' = lv_content mem_view (mem_start (record_frame [7])) @ record_frame [1, 2, 3] \<and>
      length (lv_content mem_view s') \<le> lv_synced mem_view s' \<and> ap_phase a' = PHASE_IDLE \<and> \<not> ap_broken a'"
    by (rule wal_append_lands [OF mem_fs_log mem_fs_answers wal_hist.opened])
       (simp_all add: mem_start_view appender_new_def writable_record_def MAX_WAL_REC_def)
  then show ?thesis by (auto simp: mem_view_def mem_start_def)
qed


text \<open>A concrete history: one append to a log that holds one record, or a zero-filled tail.\<close>

lemma mem_begin_lands:
  assumes "length bs \<le> 0x7FFFFFFF" "writable_record p"
  shows "snd (snd (mem_begin bs p)) = ApDurable" "ml_bytes (fst (snd (mem_begin bs p))) = bs @ record_frame p"
    "lv_synced mem_view (fst (snd (mem_begin bs p))) = length bs + 8 + length p"
proof -
  have inv: "wal_inv mem_view bs [] appender_new (mem_start bs)"
    by (rule wal_hist_inv [OF wal_hist.opened mem_fs_log]) (simp_all add: mem_start_view)
  have room: "fs_answers mem_fs 0 mem_view (length (lv_content mem_view (mem_start bs)) + 8 + length p)"
    using assms by (intro mem_fs_answers) (simp add: mem_start_view writable_record_def MAX_WAL_REC_def)
  obtain a s where r: "appender_begin mem_fs 0 p appender_new (mem_start bs) = (a, s, ApDurable)"
    "lv_content mem_view s = bs @ record_frame p" "length (lv_content mem_view s) \<le> lv_synced mem_view s"
    using append_lands [OF mem_fs_log room inv _ _ assms(2)] assms(1) by (auto simp: appender_new_def mem_start_view)
  show "snd (snd (mem_begin bs p)) = ApDurable" "ml_bytes (fst (snd (mem_begin bs p))) = bs @ record_frame p"
    "lv_synced mem_view (fst (snd (mem_begin bs p))) = length bs + 8 + length p"
    using r by (simp_all add: mem_begin_def mem_view_def)
qed

lemma mem_acked:
  assumes "length bs \<le> 0x7FFFFFFF" "writable_record p"
  shows "wal_hist mem_fs 0 mem_view (mem_start bs) [p] (fst (mem_begin bs p)) (fst (snd (mem_begin bs p)))"
  using mem_begin_hist [of bs p] mem_begin_lands [OF assms] by (simp add: newly_acked_def)

lemma writable_123: "writable_record [1, 2, 3]"
  by (simp add: writable_record_def MAX_WAL_REC_def)

lemma writable_7: "writable_record [7]"
  by (simp add: writable_record_def MAX_WAL_REC_def)

text \<open>C3: acknowledged records survive\<close>

theorem wal_acked_survive:
  assumes log: "log_file call fd v" and hist: "wal_hist call fd v s0 acked a s"
    and old: "lv_content v s0 = concat (map record_frame old)" "length (lv_content v s0) \<le> lv_synced v s0"
      "\<forall>p\<in>set old. writable_record p"
    and cap: "MAX_WAL_REC \<le> cap"
    and crash: "take (lv_synced v s) f = take (lv_synced v s) (lv_content v s)"
  shows "\<exists>rest. parse_log cap f = old @ acked @ rest"
proof -
  have inv: "wal_inv v (concat (map record_frame old)) acked a s"
    using wal_hist_inv [OF hist log old(1)] old(1,2) by simp
  let ?kept = "concat (map record_frame (old @ acked))"
  have len: "length ?kept \<le> lv_synced v s" using inv by (simp add: wal_inv_def)
  obtain tail where t: "lv_content v s = ?kept @ tail" using inv by (auto simp: wal_inv_def)
  have "take (length ?kept) f = take (length ?kept) (lv_content v s)"
    using crash len by (metis min.absorb1 take_take)
  then have "take (length ?kept) f = ?kept" by (simp add: t)
  moreover have "\<forall>p\<in>set (old @ acked). writable_record p" using old(3) inv by (auto simp: wal_inv_def)
  ultimately show ?thesis using parse_prefix [of "old @ acked" cap f] cap by auto
qed

lemma wal_acked_survive_witness:
  "\<exists>rest. parse_log 4096 (record_frame [7] @ record_frame [1, 2, 3] @ [9, 9]) = [[7]] @ [[1, 2, 3]] @ rest"
proof -
  have c: "lv_content mem_view (fst (snd (mem_begin (record_frame [7]) [1, 2, 3]))) = record_frame [7] @ record_frame [1, 2, 3]"
    using mem_begin_lands [of "record_frame [7]" "[1, 2, 3]"] writable_123 by (simp add: mem_view_def)
  show ?thesis
    by (rule wal_acked_survive [OF mem_fs_log mem_acked [of "record_frame [7]" "[1, 2, 3]"]])
       (simp_all add: writable_7 writable_123 mem_start_view mem_begin_lands MAX_WAL_REC_def c)
qed

text \<open>A crash leaves at most one more\<close>

theorem wal_crash_exact:
  assumes log: "log_file call fd v" and hist: "wal_hist call fd v s0 acked a s"
    and old: "lv_content v s0 = concat (map record_frame old)" "length (lv_content v s0) \<le> lv_synced v s0"
      "\<forall>p\<in>set old. writable_record p"
    and cap: "MAX_WAL_REC \<le> cap" and n: "lv_synced v s \<le> n"
  shows "parse_log cap (take n (lv_content v s)) \<in> {old @ acked, old @ acked @ [appender_payload a]}"
proof -
  have inv: "wal_inv v (concat (map record_frame old)) acked a s"
    using wal_hist_inv [OF hist log old(1)] old(1,2) by simp
  let ?kept = "concat (map record_frame (old @ acked))"
  obtain tail where t: "lv_content v s = ?kept @ tail" "tail = [] \<or> torn (appender_payload a) tail"
    using wal_inv_torn [OF inv] by auto
  have len: "length ?kept \<le> n" using inv n by (simp add: wal_inv_def)
  have w: "\<forall>p\<in>set (old @ acked). writable_record p" using old(3) inv by (auto simp: wal_inv_def)
  have "take n (lv_content v s) = ?kept @ take (n - length ?kept) tail" using len by (simp add: t(1))
  then have "parse_log cap (take n (lv_content v s)) = old @ acked @ parse_log cap (take (n - length ?kept) tail)"
    using parse_prefix [OF w cap, of "take n (lv_content v s)"] by simp
  moreover have "parse_log cap (take m tail) \<in> {[], [appender_payload a]}" for m
  proof (cases "tail = []")
    case False
    then obtain k where k: "writable_record (appender_payload a)" "tail = take k (record_frame (appender_payload a))"
      using t(2) by (auto simp: torn_def)
    moreover have "length (appender_payload a) \<le> cap" using k(1) cap by (simp add: writable_record_def)
    ultimately show ?thesis using parse_tail [of "appender_payload a" cap "min m k"] by (auto simp: min.commute)
  qed simp
  ultimately show ?thesis by auto
qed

lemma wal_crash_exact_witness:
  "\<exists>p. parse_log 4096 (record_frame [7] @ record_frame [1, 2, 3]) \<in> {[[7], [1, 2, 3]], [[7], [1, 2, 3], p]}"
proof -
  let ?s = "fst (snd (mem_begin (record_frame [7]) [1, 2, 3]))"
  have c: "lv_content mem_view ?s = record_frame [7] @ record_frame [1, 2, 3]"
    using mem_begin_lands [of "record_frame [7]" "[1, 2, 3]"] writable_123 by (simp add: mem_view_def)
  have sy: "lv_synced mem_view ?s \<le> 20"
    using mem_begin_lands [of "record_frame [7]" "[1, 2, 3]"] writable_123 by simp
  have "parse_log 4096 (take 20 (lv_content mem_view ?s)) \<in>
      {[[7]] @ [[1, 2, 3]], [[7]] @ [[1, 2, 3]] @ [appender_payload (fst (mem_begin (record_frame [7]) [1, 2, 3]))]}"
    by (rule wal_crash_exact [OF mem_fs_log mem_acked _ _ _ _ sy])
       (simp_all add: writable_7 writable_123 mem_start_view MAX_WAL_REC_def)
  then show ?thesis by (auto simp: c)
qed

text \<open>Bytes no reading of the log gets past: a header that is no record's, as a zero-filled
  tail's is, or a whole record whose checksum fails.\<close>

definition unreadable :: "bytes \<Rightarrow> bool" where
  "unreadable bs \<longleftrightarrow> 8 \<le> length bs \<and>
     (let len = unat (from_le (take 4 bs) :: u32)
      in len = 0 \<or> len > MAX_WAL_REC \<or> 8 + len \<le> length bs \<and> crc32 (sub_slice bs 8 len) \<noteq> from_le (sub_slice bs 4 4))"

lemma parse_unreadable:
  assumes "unreadable bad"
  shows "parse_log cap (bad @ rest) = []"
proof -
  have "take 4 (bad @ rest) = take 4 bad" "sub_slice (bad @ rest) 4 4 = sub_slice bad 4 4"
    "8 + n \<le> length bad \<Longrightarrow> sub_slice (bad @ rest) 8 n = sub_slice bad 8 n" for n
    using assms by (simp_all add: unreadable_def sub_slice_def)
  then show ?thesis
    using assms by (auto simp: unreadable_def parse_log.simps [of cap "bad @ rest"] Let_def)
qed

text \<open>C38: appends past a torn tail are lost\<close>

theorem wal_past_torn_tail_lost:
  assumes log: "log_file call fd v" and hist: "wal_hist call fd v s0 acked a s"
    and boot: "lv_content v s0 = concat (map record_frame old) @ bad" "length (lv_content v s0) \<le> lv_synced v s0"
      "\<forall>p\<in>set old. writable_record p" "unreadable bad"
    and cap: "MAX_WAL_REC \<le> cap" and crash: "take (lv_synced v s) f = take (lv_synced v s) (lv_content v s)"
  shows "parse_log cap f = old"
proof -
  let ?old = "concat (map record_frame old)"
  have inv: "wal_inv v (?old @ bad) acked a s"
    using wal_hist_inv [OF hist log boot(1)] boot(1,2) by simp
  obtain tail where t: "lv_content v s = (?old @ bad) @ concat (map record_frame acked) @ tail" using inv by (auto simp: wal_inv_def)
  have len: "length (?old @ bad) \<le> lv_synced v s" using inv by (simp add: wal_inv_def)
  have "take (length (?old @ bad)) f = take (length (?old @ bad)) (lv_content v s)"
    using crash len by (metis min.absorb1 take_take)
  then have f: "f = ?old @ bad @ drop (length (?old @ bad)) f"
    using append_take_drop_id [of "length (?old @ bad)" f] by (simp add: t)
  have w: "\<forall>p\<in>set old. writable_record p \<and> length p \<le> cap" using boot(3) cap by (auto simp: writable_record_def)
  show ?thesis
    using parse_records [OF w, of "bad @ drop (length (?old @ bad)) f"] parse_unreadable [OF boot(4)] f by simp
qed

lemma wal_past_torn_tail_lost_witness:
  "wal_hist mem_fs 0 mem_view (mem_start (record_frame [7] @ replicate 8 0)) [[1, 2, 3]]
     (fst (mem_begin (record_frame [7] @ replicate 8 0) [1, 2, 3])) (fst (snd (mem_begin (record_frame [7] @ replicate 8 0) [1, 2, 3]))) \<and>
   parse_log 4096 (record_frame [7] @ replicate 8 0 @ record_frame [1, 2, 3]) = [[7]]"
proof
  let ?b = "record_frame [7] @ replicate 8 0"
  have c: "lv_content mem_view (fst (snd (mem_begin ?b [1, 2, 3]))) = ?b @ record_frame [1, 2, 3]"
    using mem_begin_lands [of ?b "[1, 2, 3]"] writable_123 by (simp add: mem_view_def)
  show h: "wal_hist mem_fs 0 mem_view (mem_start ?b) [[1, 2, 3]] (fst (mem_begin ?b [1, 2, 3])) (fst (snd (mem_begin ?b [1, 2, 3])))"
    by (rule mem_acked) (simp_all add: writable_123)
  have z: "unreadable (replicate 8 0)"
    by (simp add: unreadable_def numeral_eq_Suc from_le_def)
  show "parse_log 4096 (record_frame [7] @ replicate 8 0 @ record_frame [1, 2, 3]) = [[7]]"
    by (rule wal_past_torn_tail_lost [OF mem_fs_log h, of "[[7]]" "replicate 8 0"])
       (simp_all add: writable_7 z mem_start_view MAX_WAL_REC_def c)
qed

section \<open>Replay\<close>

definition mem_reading :: "mem_log read_view" where
  "mem_reading = \<lparr>rv_content = ml_bytes, rv_pos = ml_at\<rparr>"

lemma mem_fs_reads: "log_reads mem_fs fd mem_reading"
  unfolding log_reads_def
  by (intro conjI allI impI)
     (auto simp: mem_fs_def mem_reading_def fs_opcodes Let_def copy_prefix_def fs_pending_def EAGAIN_def EINPROGRESS_def min_def
       split: if_splits)

lemma mem_fs_reads_answer: "reads_answer mem_fs fd"
  by (auto simp: reads_answer_def mem_fs_def fs_opcodes Let_def)

definition collect :: "bytes list \<Rightarrow> bytes \<Rightarrow> bytes list \<times> bool" where
  "collect seen p = (seen @ [p], True)"

lemma offer_collect: "offer collect seen ps = (seen @ ps, length ps)"
  by (induction ps arbitrary: seen) (simp_all add: collect_def)

lemma offer_at_most: "snd (offer cb c ps) \<le> length ps"
proof (induction ps arbitrary: c)
  case (Cons p ps)
  obtain c1 go where c1: "cb c p = (c1, go)" by fastforce
  show ?case using Cons [of c1] by (cases go) (auto simp: c1 split: prod.split)
qed simp

definition mem_image :: bytes where
  "mem_image = record_frame [7] @ record_frame [1, 2, 3] @ [9, 9]"

lemma parse_mem_image: "parse_log 4096 mem_image = [[7], [1, 2, 3]]"
  using parse_records [of "[[7], [1, 2, 3]]" 4096 "[9, 9]"] writable_7 writable_123
  by (simp add: mem_image_def parse_log.simps [of _ "[9, 9]"])

text \<open>C18: a replay hands out the log\<close>

theorem wal_replay_exact:
  assumes "log_reads call fd v" "replay_hist call fd v cb scratch0 c0 s0 w scratch c s (RpDone n)"
  shows "\<exists>k. offer cb c0 (parse_log (length scratch0) (rv_content v s0)) = (c, k) \<and> n = word_of_nat k"
  using replay_hist_ok [OF assms(2,1)] by simp

lemma mem_replay_done:
  obtains w scratch c s n where
    "replay_poll mem_fs 0 collect 3 replay_new (replicate 4096 0) [] (mem_start mem_image) = (w, scratch, c, s, RpDone n)"
proof -
  obtain w scratch c s r where
    p: "replay_poll mem_fs 0 collect 3 replay_new (replicate 4096 0) [] (mem_start mem_image) = (w, scratch, c, s, r)"
    by (metis prod_cases5)
  have "\<exists>n. r = RpDone n"
    by (rule replay_finishes [OF mem_fs_reads mem_fs_reads_answer _ _ p])
       (simp_all add: mem_reading_def mem_start_def parse_mem_image collect_def)
  then show ?thesis using that p by blast
qed

lemma wal_replay_exact_witness:
  "\<exists>w scratch s. replay_poll mem_fs 0 collect 3 replay_new (replicate 4096 0) [] (mem_start mem_image)
     = (w, scratch, [[7], [1, 2, 3]], s, RpDone 2)"
proof -
  obtain w scratch c s n where
    p: "replay_poll mem_fs 0 collect 3 replay_new (replicate 4096 0) [] (mem_start mem_image) = (w, scratch, c, s, RpDone n)"
    by (rule mem_replay_done)
  have "\<exists>k. offer collect [] (parse_log (length (replicate 4096 (0 :: u8))) (rv_content mem_reading (mem_start mem_image))) = (c, k)
      \<and> n = word_of_nat k"
    by (rule wal_replay_exact [OF mem_fs_reads replay_hist.polled [OF replay_hist.start p]])
  then have "c = [[7], [1, 2, 3]] \<and> n = 2"
    by (auto simp: mem_reading_def mem_start_def parse_mem_image collect_def)
  then show ?thesis using p by auto
qed

text \<open>C39: a replay ends\<close>

theorem wal_replay_finishes:
  assumes "log_reads call fd v" "reads_answer call fd"
    and "length (parse_log (length scratch) (rv_content v s)) < budget" "budget < 2 ^ 32"
  shows "\<exists>w' scratch' c' s' n. replay_poll call fd cb budget replay_new scratch c s = (w', scratch', c', s', RpDone n)"
proof -
  obtain w' scratch' c' s' r where p: "replay_poll call fd cb budget replay_new scratch c s = (w', scratch', c', s', r)"
    by (metis prod_cases5)
  have "snd (offer cb c (parse_log (length scratch) (rv_content v s))) < budget"
    using offer_at_most [of cb c "parse_log (length scratch) (rv_content v s)"] assms(3) by linarith
  from replay_finishes [OF assms(1,2) this assms(4) p] show ?thesis using p by blast
qed

lemma wal_replay_finishes_witness:
  "\<exists>w scratch c s n. replay_poll mem_fs 0 collect 3 replay_new (replicate 4096 0) [] (mem_start mem_image) = (w, scratch, c, s, RpDone n)"
  by (rule wal_replay_finishes [OF mem_fs_reads mem_fs_reads_answer])
     (simp_all add: mem_reading_def mem_start_def parse_mem_image)

section \<open>Rotation\<close>

text \<open>C9: a rotation is atomic\<close>

theorem wal_rotation_atomic:
  assumes "staging call path (path @ ROT_SUFFIX) old v" "seeds seed recs"
    and hist: "rot_hist call fd path seed_count seed v (w0, scratch0, c0, s0) (w, scratch, c, s) r"
    and "fresh_rotator w0" "ro_crash v s0 = {old}"
  shows "ro_crash v s \<subseteq> {old, seeded recs seed_count} \<and>
         (r = RoSkipped \<longrightarrow> ro_crash v s = {old}) \<and>
         ((\<exists>fd'. r = RoRotated fd') \<or> r = RoLost \<longrightarrow> ro_crash v s = {seeded recs seed_count})"
proof -
  have "ro_crash v s \<subseteq> {old, seeded recs seed_count}" if "rot_inv v (path @ ROT_SUFFIX) recs seed_count old w scratch s"
    using that by (cases "rt_phase w") (auto simp: rot_inv_def)
  then show ?thesis
    using rot_hist_ok [OF hist assms(1,2,4,5)] by (cases r) (auto simp: rot_ok_def)
qed

text \<open>A provider with one live name and one staging name.\<close>

record mem_names =
  mn_live :: bytes
  mn_staged :: "bytes option"
  mn_fenced :: bool

definition names_fs :: "bytes \<Rightarrow> mem_names provider" where
  "names_fs path s fd op arg =
     (let stage = path @ ROT_SUFFIX
      in if op = FS_CAPS then (s, 4, le_bytes 4 (CAP_RENAME OR CAP_FSYNC_NAME))
         else if op = FS_FSYNC_NAME \<or> op = FS_CLOSE then (s, 0, arg)
         else if op = FS_UNLINK then
           if arg = stage then (s\<lparr>mn_staged := None\<rparr>, if mn_staged s = None then ENOENT else 0, arg) else (s, - 38, arg)
         else if op = FS_OPEN_CREATE then
           if arg = stage then
             (s\<lparr>mn_staged := (case mn_staged s of None \<Rightarrow> Some [] | Some b \<Rightarrow> Some b), mn_fenced := False\<rparr>, 5, arg)
           else (s, 6, arg)
         else if op = FS_WRITE \<and> fd = 5 then
           (s\<lparr>mn_staged := map_option (\<lambda>b. b @ arg) (mn_staged s), mn_fenced := False\<rparr>, int (length arg), arg)
         else if op = FS_FSYNC \<and> fd = 5 then (s\<lparr>mn_fenced := True\<rparr>, 0, arg)
         else if op = FS_RENAME \<and> arg = rename_arg stage path then
           (case mn_staged s of None \<Rightarrow> (s, - 2, arg) | Some b \<Rightarrow> (s\<lparr>mn_live := b, mn_staged := None\<rparr>, 0, arg))
         else (s, - 38, arg))"

definition names_view :: "mem_names rot_view" where
  "names_view = \<lparr>ro_crash = (\<lambda>s. {mn_live s}), ro_staged = mn_staged, ro_fd = (\<lambda>s. 5), ro_fenced = mn_fenced\<rparr>"

lemma names_fs_staging: "staging (names_fs path) path (path @ ROT_SUFFIX) old names_view"
  unfolding staging_def
  by (intro conjI allI impI)
     (auto simp: names_fs_def names_view_def still_def fs_opcodes Let_def ROT_SUFFIX_def fs_pending_def EAGAIN_def
       EINPROGRESS_def ENOENT_def split: if_splits option.splits)

definition seed_seven :: "unit seeder" where
  "seed_seven c i buf = (c, if buf = [] then buf else copy_prefix [7] buf, if i = 1 then Some 0 else Some 1)"

lemma rot_loop_next:
  "rot_step call fd path seed_count seed st = (st', None) \<Longrightarrow>
   rot_loop call fd path seed_count seed st = rot_loop call fd path seed_count seed st'"
  by (simp add: rot_loop.simps [of call fd path seed_count seed st])

lemma rot_loop_ends:
  "rot_step call fd path seed_count seed st = (st', Some r) \<Longrightarrow> rot_loop call fd path seed_count seed st = (st', r)"
  by (simp add: rot_loop.simps [of call fd path seed_count seed st])

definition rot_state :: "rot_phase \<Rightarrow> bool \<Rightarrow> int \<Rightarrow> nat \<Rightarrow> nat \<Rightarrow> nat \<Rightarrow> wal_rotator" where
  "rot_state ph fr fd i n k = \<lparr>rt_phase = ph, rt_framed = fr, rt_stage_len = 5, rt_stage_fd = fd, rt_seed_at = i,
     rt_frame_len = n, rt_written = k, rt_stage = copy_prefix ([119] @ ROT_SUFFIX) (replicate ROTATE_PATH_BUF 0), rt_opener = opener_new\<rparr>"

lemma rot_state_stage: "stage_path (rot_state ph fr fd i n k) = [119] @ ROT_SUFFIX"
  by (simp add: stage_path_def rot_state_def copy_prefix_def ROT_SUFFIX_def)

lemma rot_state_simps:
  "rt_phase (rot_state ph fr fd i n k) = ph" "rt_framed (rot_state ph fr fd i n k) = fr"
  "rt_stage_fd (rot_state ph fr fd i n k) = fd" "rt_seed_at (rot_state ph fr fd i n k) = i"
  "rt_frame_len (rot_state ph fr fd i n k) = n" "rt_written (rot_state ph fr fd i n k) = k"
  "rt_opener (rot_state ph fr fd i n k) = opener_new"
  "(rot_state ph fr fd i n k)\<lparr>rt_phase := ph'\<rparr> = rot_state ph' fr fd i n k"
  "(rot_state ph fr fd i n k)\<lparr>rt_framed := fr'\<rparr> = rot_state ph fr' fd i n k"
  "(rot_state ph fr fd i n k)\<lparr>rt_stage_fd := fd'\<rparr> = rot_state ph fr fd' i n k"
  "(rot_state ph fr fd i n k)\<lparr>rt_seed_at := i'\<rparr> = rot_state ph fr fd i' n k"
  "(rot_state ph fr fd i n k)\<lparr>rt_frame_len := n'\<rparr> = rot_state ph fr fd i n' k"
  "(rot_state ph fr fd i n k)\<lparr>rt_written := k'\<rparr> = rot_state ph fr fd i n k'"
  by (simp_all add: rot_state_def)

lemma names_open:
  "opener_poll (names_fs [119]) [119] True opener_new s = (opener_new\<lparr>wo_create := True\<rparr>, s, OpReady 6)"
proof -
  let ?call = "names_fs [119]"
  note ev = names_fs_def fs_opcodes fs_pending_def EAGAIN_def EINPROGRESS_def ROT_SUFFIX_def opener_new_def
  have 1: "opener_step ?call [119] (opener_new\<lparr>wo_phase := OPEN_FILE, wo_create := True\<rparr>) s =
      (opener_new\<lparr>wo_phase := OPEN_CAPS, wo_create := True, wo_fd := 6\<rparr>, s, None)"
    by (simp add: opener_step_def ev)
  have 2: "opener_step ?call [119] (opener_new\<lparr>wo_phase := OPEN_CAPS, wo_create := True, wo_fd := 6\<rparr>) s =
      (opener_new\<lparr>wo_phase := OPEN_NAME, wo_create := True, wo_fd := 6\<rparr>, s, None)"
    by (simp add: opener_step_def ev fs_caps_def from_le_u32 CAP_RENAME_def CAP_FSYNC_NAME_def)
  have 3: "opener_step ?call [119] (opener_new\<lparr>wo_phase := OPEN_NAME, wo_create := True, wo_fd := 6\<rparr>) s =
      (opener_new\<lparr>wo_create := True\<rparr>, s, Some (OpReady 6))"
    by (simp add: opener_step_def ev fsync_name_def opener_ready_def)
  have "opener_loop ?call [119] (opener_new\<lparr>wo_phase := OPEN_FILE, wo_create := True\<rparr>) s =
      (opener_new\<lparr>wo_create := True\<rparr>, s, OpReady 6)"
    by (simp only: opener_loop.simps [of ?call "[119]" "opener_new\<lparr>wo_phase := OPEN_FILE, wo_create := True\<rparr>"] 1
        opener_loop.simps [of ?call "[119]" "opener_new\<lparr>wo_phase := OPEN_CAPS, wo_create := True, wo_fd := 6\<rparr>"] 2
        opener_loop.simps [of ?call "[119]" "opener_new\<lparr>wo_phase := OPEN_NAME, wo_create := True, wo_fd := 6\<rparr>"] 3
        prod.case option.case)
  then show ?thesis by (simp add: opener_poll_def opener_new_def)
qed

lemma rotator_begun: "rot_begin [119] rotator_new = rot_state ROT_CAPS False (- 1) 0 0 0"
  by (simp add: rot_begin_def rotator_new_def rot_state_def ROT_SUFFIX_def)

lemma names_seeds:
  assumes "i \<le> count" "L < 2 ^ 32"
    and "\<And>i scratch c. i < count \<Longrightarrow> length scratch = L \<Longrightarrow>
      \<exists>scratch' c' n. frame_seed_record seed i scratch c = (scratch', c', Some n) \<and> length scratch' = L \<and> n \<le> L"
    and "length scratch = L"
  shows "\<exists>n' k' scratch' c' b'. rot_loop (names_fs [119]) fd [119] count seed
       (rot_state ROT_SEED False 5 i n k, scratch, c, \<lparr>mn_live = l, mn_staged = Some b, mn_fenced = False\<rparr>) =
     rot_loop (names_fs [119]) fd [119] count seed
       (rot_state ROT_FSYNC False 5 count n' k', scratch', c', \<lparr>mn_live = l, mn_staged = Some b', mn_fenced = False\<rparr>)"
  using assms(1,4)
proof (induction "count - i" arbitrary: i n k scratch c b)
  case 0
  then have "i = count" by simp
  then have "rot_loop (names_fs [119]) fd [119] count seed
       (rot_state ROT_SEED False 5 i n k, scratch, c, \<lparr>mn_live = l, mn_staged = Some b, mn_fenced = False\<rparr>) =
     rot_loop (names_fs [119]) fd [119] count seed
       (rot_state ROT_FSYNC False 5 count n k, scratch, c, \<lparr>mn_live = l, mn_staged = Some b, mn_fenced = False\<rparr>)"
    by (intro rot_loop_next) (simp add: rot_step_def rot_state_simps rot_seed_step_def)
  then show ?case by blast
next
  case (Suc d)
  then have i: "i < count" by simp
  obtain scratch' c' r where f: "frame_seed_record seed i scratch c = (scratch', c', Some r)" "length scratch' = L" "r \<le> L"
    using assms(3) [OF i Suc.prems(2)] by blast
  note ev = rot_step_def rot_state_simps rot_seed_step_def f(1)
  have "\<exists>n' k' b'. rot_loop (names_fs [119]) fd [119] count seed
       (rot_state ROT_SEED False 5 i n k, scratch, c, \<lparr>mn_live = l, mn_staged = Some b, mn_fenced = False\<rparr>) =
     rot_loop (names_fs [119]) fd [119] count seed
       (rot_state ROT_SEED False 5 (Suc i) n' k', scratch', c', \<lparr>mn_live = l, mn_staged = Some b', mn_fenced = False\<rparr>)"
  proof (cases "r = 0")
    case True
    then show ?thesis using i by (intro exI, intro rot_loop_next) (simp add: ev)
  next
    case False
    then show ?thesis using i f(2,3) assms(2)
      by (intro exI, intro rot_loop_next)
         (simp add: ev rot_write_def names_fs_def fs_opcodes sub_slice_def fs_pending_def EAGAIN_def EINPROGRESS_def)
  qed
  then show ?case using Suc.hyps(1) [of "Suc i"] Suc.hyps(2) i f(2) by fastforce
qed

text \<open>Over that provider, a seeder that never refuses gets its log renamed into place.\<close>

lemma names_rotates:
  assumes "\<And>i scratch c. i < count \<Longrightarrow> length scratch = L \<Longrightarrow>
      \<exists>scratch' c' n. frame_seed_record seed i scratch c = (scratch', c', Some n) \<and> length scratch' = L \<and> n \<le> L"
    and "L < 2 ^ 32"
  shows "\<exists>w scratch c' s. rotate_seeded (names_fs [119]) 3 [119] count seed
     (rotator_new, replicate L 0, c, \<lparr>mn_live = l, mn_staged = None, mn_fenced = False\<rparr>) = ((w, scratch, c', s), RoRotated 6)"
proof -
  let ?loop = "rot_loop (names_fs [119]) 3 [119] count seed"
  let ?z = "replicate L (0 :: u8)"
  note ev = rot_step_def rot_state_simps rot_state_stage names_fs_def fs_opcodes
  have "?loop (rot_state ROT_CAPS False (- 1) 0 0 0, ?z, c, \<lparr>mn_live = l, mn_staged = None, mn_fenced = False\<rparr>) =
      ?loop (rot_state ROT_CLEAR False (- 1) 0 0 0, ?z, c, \<lparr>mn_live = l, mn_staged = None, mn_fenced = False\<rparr>)"
    by (rule rot_loop_next) (simp add: ev rot_caps_step_def fs_caps_def from_le_u32 CAP_RENAME_def CAP_FSYNC_NAME_def)
  also have "\<dots> = ?loop (rot_state ROT_CREATE False (- 1) 0 0 0, ?z, c, \<lparr>mn_live = l, mn_staged = None, mn_fenced = False\<rparr>)"
    by (rule rot_loop_next) (simp add: ev rot_clear_step_def fs_unlink_def fs_pending_def ENOENT_def EAGAIN_def EINPROGRESS_def)
  also have "\<dots> = ?loop (rot_state ROT_SEED False 5 0 0 0, ?z, c, \<lparr>mn_live = l, mn_staged = Some [], mn_fenced = False\<rparr>)"
    by (rule rot_loop_next) (simp add: ev rot_create_step_def fs_pending_def EAGAIN_def EINPROGRESS_def)
  finally obtain n k scratch c' b where seeded: "?loop (rot_state ROT_CAPS False (- 1) 0 0 0, ?z, c, \<lparr>mn_live = l, mn_staged = None, mn_fenced = False\<rparr>) =
      ?loop (rot_state ROT_FSYNC False 5 count n k, scratch, c', \<lparr>mn_live = l, mn_staged = Some b, mn_fenced = False\<rparr>)"
    using names_seeds [where i = 0 and count = count and L = L and seed = seed and scratch = ?z and fd = 3 and l = l and b = "[]" and c = c and n = 0 and k = 0,
        OF le0 assms(2,1)] by auto
  also have "\<dots> = ?loop (rot_state ROT_RENAME False (- 1) count n k, scratch, c', \<lparr>mn_live = l, mn_staged = Some b, mn_fenced = True\<rparr>)"
    by (rule rot_loop_next) (simp add: ev rot_fsync_step_def wal_close_def fs_pending_def EAGAIN_def EINPROGRESS_def)
  also have "\<dots> = ?loop (rot_state ROT_REOPEN False (- 1) count n k, scratch, c', \<lparr>mn_live = b, mn_staged = None, mn_fenced = True\<rparr>)"
    by (rule rot_loop_next)
       (simp add: ev rot_rename_step_def fs_rename_def wal_close_def fs_pending_def EAGAIN_def EINPROGRESS_def
         RENAME_FRAMING_def RENAME_ARG_LEN_def RENAME_PATHS_MAX_def WAL_STAGE_SUFFIX_LEN_def WAL_PATH_BUF_def ROT_SUFFIX_def)
  also have "\<dots> = (((rot_state ROT_IDLE False (- 1) count n k)\<lparr>rt_opener := opener_new\<lparr>wo_create := True\<rparr>\<rparr>,
      scratch, c', \<lparr>mn_live = b, mn_staged = None, mn_fenced = True\<rparr>), RoRotated 6)"
    by (rule rot_loop_ends)
       (simp add: rot_step_def rot_state_simps rot_reopen_step_def names_open, simp add: rot_state_def)
  finally show ?thesis by (simp add: rotate_seeded_def rotator_begun ROT_SUFFIX_def) (simp add: rotator_new_def ROTATE_PATH_BUF_def WAL_PATH_BUF_def)
qed

lemma seed_seven_run:
  "\<exists>w scratch s. rotate_seeded (names_fs [119]) 3 [119] 2 seed_seven
     (rotator_new, replicate 16 0, (), \<lparr>mn_live = [1, 2], mn_staged = None, mn_fenced = False\<rparr>)
     = ((w, scratch, (), s), RoRotated 6)"
proof -
  have "\<exists>scratch' c' n. frame_seed_record seed_seven i scratch c = (scratch', c', Some n) \<and> length scratch' = 16 \<and> n \<le> 16"
    if "length scratch = 16" for i c and scratch :: bytes
    using that by (auto simp: frame_seed_record_def seed_seven_def MAX_WAL_REC_def Let_def)
  from names_rotates [of 2 16 seed_seven, OF this] show ?thesis by simp
qed

definition seven_recs :: "nat \<Rightarrow> bytes" where
  "seven_recs i = (if i = 1 then [] else [7])"

lemma seed_seven_seeds: "seeds seed_seven seven_recs"
  by (auto simp: seeds_def seed_seven_def seven_recs_def Suc_le_eq copy_prefix_def)

lemma wal_rotation_atomic_witness:
  "\<exists>w scratch s. rotate_seeded (names_fs [119]) 3 [119] 2 seed_seven
     (rotator_new, replicate 16 0, (), \<lparr>mn_live = [1, 2], mn_staged = None, mn_fenced = False\<rparr>)
     = ((w, scratch, (), s), RoRotated 6) \<and> mn_live s = record_frame [7]"
proof -
  let ?s0 = "\<lparr>mn_live = [1, 2 :: u8], mn_staged = None, mn_fenced = False\<rparr>"
  obtain w scratch s where r: "rotate_seeded (names_fs [119]) 3 [119] 2 seed_seven (rotator_new, replicate 16 0, (), ?s0)
     = ((w, scratch, (), s), RoRotated 6)"
    using seed_seven_run by blast
  have "ro_crash names_view s \<subseteq> {[1, 2], seeded seven_recs 2} \<and>
      (RoRotated 6 = RoSkipped \<longrightarrow> ro_crash names_view s = {[1, 2]}) \<and>
      ((\<exists>fd'. RoRotated 6 = RoRotated fd') \<or> RoRotated 6 = RoLost \<longrightarrow> ro_crash names_view s = {seeded seven_recs 2})"
    by (rule wal_rotation_atomic [OF names_fs_staging seed_seven_seeds rot_hist.polled [OF rot_hist.start r]])
       (simp_all add: fresh_rotator_def rotator_new_def creating_def opener_new_def names_view_def)
  moreover have "seeded seven_recs 2 = record_frame [7]"
    by (simp add: numeral_2_eq_2 seeded_Suc seven_recs_def) (simp add: seeded_def)
  ultimately show ?thesis using r by (auto simp: names_view_def)
qed

end
