(* ===== verification/Snapshot_File.thy ===== *)
theory Snapshot_File
  imports Loam_Hash WAL_Replay
begin

text \<open>
  \<open>modules/common/mechanics/loam_snapshot.rs\<close>, what reads a generation file: the fixed-width
  record, the names of the two generations, the tri-state reads, the opener of one file and
  of the better of two, and the two binary searches.  Search bounds are naturals: they stay
  within the 32-bit count.  The record's offset is the code's 32-bit arithmetic.
\<close>

section \<open>Records\<close>

definition SNAP_MAGIC :: u32 where "SNAP_MAGIC = from_le [76, 83, 78, 80]"
definition SNAP_HDR :: nat where "SNAP_HDR = 16"

definition REC_SIZE :: "profile \<Rightarrow> nat" where
  "REC_SIZE p = 1 + MAX_ROOT + 2 + MAX_PATH p + 8 + 1 + 1 + MAX_OBJECT_ID + 8 + 8 + 1 + CONTENT_TYPE_MAX + 1 + KEY_REF_MAX + 8 + 1"

record snap_record =
  sr_root_len :: u8
  sr_root_bytes :: bytes
  sr_path_len :: u16
  sr_path_bytes :: bytes
  sr_revision :: u64
  sr_kind :: u8
  sr_oid_len :: u8
  sr_oid_bytes :: bytes
  sr_stamp_ms :: u64
  sr_size :: u64
  sr_ctype_len :: u8
  sr_ctype_bytes :: bytes
  sr_key_ref_len :: u8
  sr_key_ref_bytes :: bytes
  sr_retain_until_ms :: u64
  sr_hold :: u8

definition snap_empty :: "profile \<Rightarrow> snap_record" where
  "snap_empty p = \<lparr>sr_root_len = 0, sr_root_bytes = replicate MAX_ROOT 0, sr_path_len = 0,
     sr_path_bytes = replicate (MAX_PATH p) 0, sr_revision = 0, sr_kind = 0, sr_oid_len = 0,
     sr_oid_bytes = replicate MAX_OBJECT_ID 0, sr_stamp_ms = 0, sr_size = 0, sr_ctype_len = 0,
     sr_ctype_bytes = replicate CONTENT_TYPE_MAX 0, sr_key_ref_len = 0,
     sr_key_ref_bytes = replicate KEY_REF_MAX 0, sr_retain_until_ms = 0, sr_hold = 0\<rparr>"

definition sr_root :: "snap_record \<Rightarrow> bytes" where
  "sr_root r = take (min (unat (sr_root_len r)) MAX_ROOT) (sr_root_bytes r)"

definition sr_path :: "profile \<Rightarrow> snap_record \<Rightarrow> bytes" where
  "sr_path p r = take (min (unat (sr_path_len r)) (MAX_PATH p)) (sr_path_bytes r)"

definition sr_oid :: "snap_record \<Rightarrow> bytes" where
  "sr_oid r = take (min (unat (sr_oid_len r)) MAX_OBJECT_ID) (sr_oid_bytes r)"

definition sr_content_type :: "snap_record \<Rightarrow> bytes" where
  "sr_content_type r = take (min (unat (sr_ctype_len r)) CONTENT_TYPE_MAX) (sr_ctype_bytes r)"

definition sr_key_ref :: "snap_record \<Rightarrow> bytes" where
  "sr_key_ref r = take (min (unat (sr_key_ref_len r)) KEY_REF_MAX) (sr_key_ref_bytes r)"

definition cmp_key :: "profile \<Rightarrow> snap_record \<Rightarrow> bytes \<Rightarrow> bytes \<Rightarrow> ordering" where
  "cmp_key p r root path = key_cmp (sr_root r) (sr_path p r) root path"

definition snap_bytes :: "snap_record \<Rightarrow> bytes" where
  \<comment> \<open>the bytes \<open>encode\<close> lays down, field after field\<close>
  "snap_bytes r =
     [sr_root_len r] @ sr_root_bytes r @ le_bytes 2 (sr_path_len r) @ sr_path_bytes r @
     le_bytes 8 (sr_revision r) @ [sr_kind r, sr_oid_len r] @ sr_oid_bytes r @
     le_bytes 8 (sr_stamp_ms r) @ le_bytes 8 (sr_size r) @ [sr_ctype_len r] @ sr_ctype_bytes r @
     [sr_key_ref_len r] @ sr_key_ref_bytes r @ le_bytes 8 (sr_retain_until_ms r) @ [sr_hold r]"

definition snap_encode :: "profile \<Rightarrow> snap_record \<Rightarrow> bytes \<Rightarrow> bytes \<times> bool" where
  "snap_encode p r out = (if length out < REC_SIZE p then (out, False) else (copy_prefix (snap_bytes r) out, True))"

definition snap_decode :: "profile \<Rightarrow> bytes \<Rightarrow> snap_record option" where
  "snap_decode p src =
     (if length src < REC_SIZE p then None
      else
        let o1 = 1 + MAX_ROOT; o2 = o1 + 2 + MAX_PATH p; o3 = o2 + 8; o4 = o3 + 2 + MAX_OBJECT_ID; o5 = o4 + 16;
            o6 = o5 + 1 + CONTENT_TYPE_MAX; o7 = o6 + 1 + KEY_REF_MAX;
            r = \<lparr>sr_root_len = src ! 0, sr_root_bytes = sub_slice src 1 MAX_ROOT,
                 sr_path_len = from_le (sub_slice src o1 2), sr_path_bytes = sub_slice src (o1 + 2) (MAX_PATH p),
                 sr_revision = from_le (sub_slice src o2 8), sr_kind = src ! o3, sr_oid_len = src ! (o3 + 1),
                 sr_oid_bytes = sub_slice src (o3 + 2) MAX_OBJECT_ID,
                 sr_stamp_ms = from_le (sub_slice src o4 8), sr_size = from_le (sub_slice src (o4 + 8) 8),
                 sr_ctype_len = src ! o5, sr_ctype_bytes = sub_slice src (o5 + 1) CONTENT_TYPE_MAX,
                 sr_key_ref_len = src ! o6, sr_key_ref_bytes = sub_slice src (o6 + 1) KEY_REF_MAX,
                 sr_retain_until_ms = from_le (sub_slice src o7 8), sr_hold = src ! (o7 + 8)\<rparr>
        in if unat (sr_key_ref_len r) > KEY_REF_MAX \<or> sr_hold r > 1 then None
           else if unat (sr_root_len r) > MAX_ROOT \<or> unat (sr_path_len r) > MAX_PATH p
                   \<or> unat (sr_oid_len r) > MAX_OBJECT_ID \<or> unat (sr_ctype_len r) > CONTENT_TYPE_MAX then None
           else Some r)"

text \<open>A record as the code's type has it: full arrays, with lengths inside them.\<close>

definition snap_ok :: "profile \<Rightarrow> snap_record \<Rightarrow> bool" where
  "snap_ok p r \<longleftrightarrow>
     length (sr_root_bytes r) = MAX_ROOT \<and> length (sr_path_bytes r) = MAX_PATH p \<and>
     length (sr_oid_bytes r) = MAX_OBJECT_ID \<and> length (sr_ctype_bytes r) = CONTENT_TYPE_MAX \<and>
     length (sr_key_ref_bytes r) = KEY_REF_MAX \<and>
     unat (sr_root_len r) \<le> MAX_ROOT \<and> unat (sr_path_len r) \<le> MAX_PATH p \<and> unat (sr_oid_len r) \<le> MAX_OBJECT_ID \<and>
     unat (sr_ctype_len r) \<le> CONTENT_TYPE_MAX \<and> unat (sr_key_ref_len r) \<le> KEY_REF_MAX \<and> sr_hold r \<le> 1"

lemma length_snap_bytes: "snap_ok p r \<Longrightarrow> length (snap_bytes r) = REC_SIZE p"
  by (simp add: snap_ok_def snap_bytes_def REC_SIZE_def)

lemma snap_decode_bytes:
  assumes "snap_ok p r"
  shows "snap_decode p (snap_bytes r @ rest) = Some r"
proof -
  note ok = assms [unfolded snap_ok_def]
  have "\<not> length (snap_bytes r @ rest) < REC_SIZE p" using length_snap_bytes [OF assms] by simp
  then show ?thesis
    using ok by (simp add: snap_decode_def Let_def snap_bytes_def nth_append le_simps not_less)
qed

text \<open>The other way: a record that decodes is the bytes it came from.\<close>

lemma sub_slice_split: "sub_slice xs a (m + n) = sub_slice xs a m @ sub_slice xs (a + m) n"
  by (simp add: sub_slice_def take_add add.commute)

lemma sub_slice_one: "a < length xs \<Longrightarrow> sub_slice xs a 1 = [xs ! a]"
  by (simp add: sub_slice_def take_Suc_conv_app_nth)

lemma sub_slice_first: "xs \<noteq> [] \<Longrightarrow> sub_slice xs 0 (Suc 0) = [xs ! 0]"
  using sub_slice_one [of 0 xs] by simp

lemma le_bytes_slice:
  "a + 2 \<le> length xs \<Longrightarrow> le_bytes 2 (from_le (sub_slice xs a 2) :: u16) = sub_slice xs a 2"
  "a + 8 \<le> length xs \<Longrightarrow> le_bytes 8 (from_le (sub_slice xs a 8) :: u64) = sub_slice xs a 8"
  by (simp_all add: le_bytes_from length_sub_slice)

lemma snap_decode_inv:
  assumes "snap_decode p src = Some r"
  shows "snap_ok p r" "snap_bytes r = take (REC_SIZE p) src" "REC_SIZE p \<le> length src"
proof -
  show len: "REC_SIZE p \<le> length src" using assms by (auto simp: snap_decode_def split: if_splits)
  note c = REC_SIZE_def
  have ne: "src \<noteq> []" using len by (auto simp: c)
  show "snap_ok p r"
    using assms len
    by (auto simp: snap_decode_def Let_def snap_ok_def c length_sub_slice not_less split: if_splits)
  have "take (REC_SIZE p) src = sub_slice src 0 (REC_SIZE p)" by (simp add: sub_slice_def)
  also have "\<dots> = sub_slice src 0 (1 + (MAX_ROOT + (2 + (MAX_PATH p + (8 + (1 + (1 + (MAX_OBJECT_ID + (8 + (8 + (1 +
      (CONTENT_TYPE_MAX + (1 + (KEY_REF_MAX + (8 + 1)))))))))))))))"
    by (simp add: c)
  also have "\<dots> = snap_bytes r"
    using assms len ne unfolding sub_slice_split
    by (auto simp: snap_decode_def Let_def c snap_bytes_def le_bytes_slice sub_slice_first sub_slice_one [unfolded One_nat_def]
        add.assoc split: if_splits)
  finally show "snap_bytes r = take (REC_SIZE p) src" by simp
qed

section \<open>Generation names\<close>

definition SNAP_SUFFIX_LEN :: nat where "SNAP_SUFFIX_LEN = 6"
definition SNAP_PATH_MAX :: nat where "SNAP_PATH_MAX = WAL_PATH_BUF + SNAP_SUFFIX_LEN"

definition snap_path :: "bytes \<Rightarrow> nat \<Rightarrow> bytes \<Rightarrow> bytes \<times> nat" where
  "snap_path wal_path which out =
     (let n = length wal_path + SNAP_SUFFIX_LEN
      in if length out < n then (out, 0)
         else (copy_prefix (wal_path @ [46, 115, 110, 97, 112, if which = 0 then 65 else 66]) out, n))"

section \<open>Reads\<close>

datatype 'a snap_read = SrReady 'a | SrPending | SrFailed

definition snap_seek :: "'s provider \<Rightarrow> int \<Rightarrow> u32 \<Rightarrow> 's \<Rightarrow> 's \<times> unit snap_read" where
  "snap_seek call fd off s =
     (let (s, rc, _) = call s fd FS_SEEK (le_bytes 4 off)
      in (s, if fs_pending rc then SrPending else if rc < 0 then SrFailed else SrReady ()))"

function read_exact_from :: "'s provider \<Rightarrow> int \<Rightarrow> nat \<Rightarrow> bytes \<Rightarrow> 's \<Rightarrow> bytes \<times> 's \<times> unit snap_read" where
  "read_exact_from call fd filled buf s =
     (if filled < length buf then
        let want = length buf - filled;
            (s, n, got) = call s fd FS_READ (sub_slice buf filled want);
            buf = take (length buf) (put_at filled got buf)
        in if fs_pending n then (buf, s, SrPending)
           else if n \<le> 0 then (buf, s, SrFailed)
           else read_exact_from call fd (filled + min (nat n) want) buf s
      else (buf, s, SrReady ()))"
  by pat_completeness auto
termination by (relation "measure (\<lambda>(call, fd, filled, buf, s). length buf - filled)") (auto simp: min_def put_at_def)

declare read_exact_from.simps [simp del]

definition read_exact :: "'s provider \<Rightarrow> int \<Rightarrow> nat \<Rightarrow> 's \<Rightarrow> bytes \<times> 's \<times> unit snap_read" where
  \<comment> \<open>into a zeroed buffer of \<open>n\<close> bytes\<close>
  "read_exact call fd n s = read_exact_from call fd 0 (replicate n 0) s"

record open_snapshot =
  on_fd :: int
  on_count :: u32
  on_generation :: u64

definition snapshot_none :: open_snapshot where
  "snapshot_none = \<lparr>on_fd = - 1, on_count = 0, on_generation = 0\<rparr>"

section \<open>Opening one generation\<close>

datatype snap_open_poll = SoPending | SoOpened open_snapshot | SoInvalid

datatype so_phase = SO_OPEN | SO_SEEK | SO_HDR | SO_STAT

record snap_opener =
  so_phase :: so_phase
  so_fd_plus1 :: int
  so_hdr :: bytes

definition snap_opener_new :: snap_opener where
  "snap_opener_new = \<lparr>so_phase = SO_OPEN, so_fd_plus1 = 0, so_hdr = replicate SNAP_HDR 0\<rparr>"

definition snap_abandon :: "'s provider \<Rightarrow> snap_opener \<Rightarrow> 's \<Rightarrow> snap_opener \<times> 's" where
  "snap_abandon call w s =
     (snap_opener_new, if so_fd_plus1 w > 0 then fst (wal_close call (so_fd_plus1 w - 1) s) else s)"

definition snap_invalid :: "'s provider \<Rightarrow> snap_opener \<Rightarrow> 's \<Rightarrow> snap_opener \<times> 's \<times> snap_open_poll option" where
  "snap_invalid call w s = (let (w, s) = snap_abandon call w s in (w, s, Some SoInvalid))"

definition snap_open_step ::
  "profile \<Rightarrow> 's provider \<Rightarrow> bytes \<Rightarrow> snap_opener \<Rightarrow> 's \<Rightarrow> snap_opener \<times> 's \<times> snap_open_poll option" where
  "snap_open_step p call path w s =
     (case so_phase w of
        SO_OPEN \<Rightarrow>
          let (s, fd, _) = call s (- 1) FS_OPEN path
          in if fs_pending fd then (w, s, Some SoPending)
             else if fd < 0 then (snap_opener_new, s, Some SoInvalid)
             else (w\<lparr>so_fd_plus1 := fd + 1, so_phase := SO_SEEK\<rparr>, s, None)
      | SO_SEEK \<Rightarrow>
          let (s, r) = snap_seek call (so_fd_plus1 w - 1) 0 s
          in (case r of
                SrReady _ \<Rightarrow> (w\<lparr>so_phase := SO_HDR\<rparr>, s, None)
              | SrPending \<Rightarrow> (w, s, Some SoPending)
              | SrFailed \<Rightarrow> snap_invalid call w s)
      | SO_HDR \<Rightarrow>
          let (hdr, s, r) = read_exact call (so_fd_plus1 w - 1) SNAP_HDR s
          in (case r of
                SrReady _ \<Rightarrow> (w\<lparr>so_hdr := hdr, so_phase := SO_STAT\<rparr>, s, None)
              | SrPending \<Rightarrow> (w\<lparr>so_phase := SO_SEEK\<rparr>, s, Some SoPending)
              | SrFailed \<Rightarrow> snap_invalid call w s)
      | SO_STAT \<Rightarrow>
          let h = so_hdr w; magic = from_le (sub_slice h 0 4); count = from_le (sub_slice h 4 4) :: u32;
              generation = from_le (sub_slice h 8 8)
          in if magic \<noteq> SNAP_MAGIC then snap_invalid call w s
             else
               let (s, rc, stat) = call s (so_fd_plus1 w - 1) FS_STAT (replicate 8 0)
               in if fs_pending rc then (w, s, Some SoPending)
                  else if rc < 0 then snap_invalid call w s
                  else
                    let size = ucast (from_le (take 4 stat) :: u32) :: u64;
                        expect = word_of_nat SNAP_HDR + ucast count * word_of_nat (REC_SIZE p) :: u64
                    in if size \<noteq> expect then snap_invalid call w s
                       else (snap_opener_new, s,
                             Some (SoOpened \<lparr>on_fd = so_fd_plus1 w - 1, on_count = count, on_generation = generation\<rparr>)))"

definition so_rank :: "so_phase \<Rightarrow> nat" where
  "so_rank ph = (case ph of SO_OPEN \<Rightarrow> 3 | SO_SEEK \<Rightarrow> 2 | SO_HDR \<Rightarrow> 1 | SO_STAT \<Rightarrow> 0)"

lemma snap_open_step_ranks:
  "snap_open_step p call path w s = (w', s', None) \<Longrightarrow> so_rank (so_phase w') < so_rank (so_phase w)"
  by (auto simp: snap_open_step_def so_rank_def snap_invalid_def snap_abandon_def Let_def
      split: so_phase.splits prod.splits if_splits snap_read.splits)

function snap_open_loop :: "profile \<Rightarrow> 's provider \<Rightarrow> bytes \<Rightarrow> snap_opener \<Rightarrow> 's \<Rightarrow> snap_opener \<times> 's \<times> snap_open_poll" where
  "snap_open_loop p call path w s =
     (case snap_open_step p call path w s of
        (w, s, Some r) \<Rightarrow> (w, s, r)
      | (w, s, None) \<Rightarrow> snap_open_loop p call path w s)"
  by pat_completeness auto
termination
  by (relation "measure (\<lambda>(p, call, path, w, s). so_rank (so_phase w))") (auto dest: snap_open_step_ranks [OF sym])

declare snap_open_loop.simps [simp del]

section \<open>The better of two generations\<close>

datatype best_poll = BestPending | BestDone "(open_snapshot \<times> nat) option"

record snap_best =
  be_which :: nat
  be_has_best :: bool
  be_best_slot :: nat
  be_best :: open_snapshot
  be_one :: snap_opener

definition snap_best_new :: snap_best where
  "snap_best_new = \<lparr>be_which = 0, be_has_best = False, be_best_slot = 0, be_best = snapshot_none, be_one = snap_opener_new\<rparr>"

definition snap_consider :: "'s provider \<Rightarrow> open_snapshot \<Rightarrow> snap_best \<Rightarrow> 's \<Rightarrow> snap_best \<times> 's" where
  "snap_consider call sn b s =
     (if be_has_best b \<and> on_generation (be_best b) \<ge> on_generation sn then (b, fst (wal_close call (on_fd sn) s))
      else
        let s = (if be_has_best b then fst (wal_close call (on_fd (be_best b)) s) else s)
        in (b\<lparr>be_best := sn, be_best_slot := be_which b, be_has_best := True\<rparr>, s))"

function snap_best_loop :: "profile \<Rightarrow> 's provider \<Rightarrow> bytes \<Rightarrow> snap_best \<Rightarrow> 's \<Rightarrow> snap_best \<times> 's \<times> best_poll" where
  "snap_best_loop p call wal_path b s =
     (if be_which b < 2 then
        let (buf, n) = snap_path wal_path (be_which b) (replicate SNAP_PATH_MAX 0);
            path = take n buf
        in if path = [] then snap_best_loop p call wal_path (b\<lparr>be_which := be_which b + 1\<rparr>) s
           else
             case snap_open_loop p call path (be_one b) s of
               (one, s, r) \<Rightarrow>
                 let b = b\<lparr>be_one := one\<rparr>
                 in (case r of
                       SoPending \<Rightarrow> (b, s, BestPending)
                     | SoInvalid \<Rightarrow> snap_best_loop p call wal_path (b\<lparr>be_which := be_which b + 1\<rparr>) s
                     | SoOpened sn \<Rightarrow>
                         (case snap_consider call sn b s of
                            (b, s) \<Rightarrow> snap_best_loop p call wal_path (b\<lparr>be_which := be_which b + 1\<rparr>) s))
      else (snap_best_new, s, BestDone (if be_has_best b then Some (be_best b, be_best_slot b) else None)))"
  by pat_completeness auto
termination
  by (relation "measure (\<lambda>(p, call, wal_path, b, s). 2 - be_which b)") (auto simp: snap_consider_def Let_def split: if_splits)

declare snap_best_loop.simps [simp del]

definition snap_best_abandon :: "'s provider \<Rightarrow> snap_best \<Rightarrow> 's \<Rightarrow> snap_best \<times> 's" where
  "snap_best_abandon call b s =
     (let (_, s) = snap_abandon call (be_one b) s
      in (snap_best_new, if be_has_best b then fst (wal_close call (on_fd (be_best b)) s) else s))"

section \<open>Records by index, searches by key\<close>

definition snap_read_at :: "profile \<Rightarrow> 's provider \<Rightarrow> open_snapshot \<Rightarrow> nat \<Rightarrow> 's \<Rightarrow> 's \<times> snap_record snap_read" where
  "snap_read_at p call snap idx s =
     (if idx \<ge> unat (on_count snap) then (s, SrFailed)
      else
        let (s, r) = snap_seek call (on_fd snap)
                       (word_of_nat SNAP_HDR + word_of_nat idx * word_of_nat (REC_SIZE p)) s
        in case r of
             SrPending \<Rightarrow> (s, SrPending)
           | SrFailed \<Rightarrow> (s, SrFailed)
           | SrReady _ \<Rightarrow>
               let (buf, s, r) = read_exact call (on_fd snap) (REC_SIZE p) s
               in case r of
                    SrPending \<Rightarrow> (s, SrPending)
                  | SrFailed \<Rightarrow> (s, SrFailed)
                  | SrReady _ \<Rightarrow> (s, case snap_decode p buf of Some r \<Rightarrow> SrReady r | None \<Rightarrow> SrFailed))"

function snap_search_loop ::
  "profile \<Rightarrow> 's provider \<Rightarrow> open_snapshot \<Rightarrow> bytes \<Rightarrow> bytes \<Rightarrow> nat \<Rightarrow> nat \<Rightarrow> 's \<Rightarrow> 's \<times> snap_record option snap_read" where
  "snap_search_loop p call snap root path lo hi s =
     (if lo < hi then
        let mid = lo + (hi - lo) div 2
        in case snap_read_at p call snap mid s of
             (s, SrPending) \<Rightarrow> (s, SrPending)
           | (s, SrFailed) \<Rightarrow> (s, SrFailed)
           | (s, SrReady r) \<Rightarrow>
               (case cmp_key p r root path of
                  Equal \<Rightarrow> (s, SrReady (Some r))
                | Less \<Rightarrow> snap_search_loop p call snap root path (mid + 1) hi s
                | Greater \<Rightarrow> snap_search_loop p call snap root path lo mid s)
      else (s, SrReady None))"
  by pat_completeness auto
termination by (relation "measure (\<lambda>(p, call, snap, root, path, lo, hi, s). hi - lo)") auto

declare snap_search_loop.simps [simp del]

definition snap_search ::
  "profile \<Rightarrow> 's provider \<Rightarrow> open_snapshot \<Rightarrow> bytes \<Rightarrow> bytes \<Rightarrow> 's \<Rightarrow> 's \<times> snap_record option snap_read" where
  "snap_search p call snap root path s = snap_search_loop p call snap root path 0 (unat (on_count snap)) s"

function snap_after_loop ::
  "profile \<Rightarrow> 's provider \<Rightarrow> open_snapshot \<Rightarrow> bytes \<Rightarrow> bytes \<Rightarrow> nat \<Rightarrow> nat \<Rightarrow> 's \<Rightarrow> 's \<times> nat snap_read" where
  "snap_after_loop p call snap root name lo hi s =
     (if lo < hi then
        let mid = lo + (hi - lo) div 2
        in case snap_read_at p call snap mid s of
             (s, SrPending) \<Rightarrow> (s, SrPending)
           | (s, SrFailed) \<Rightarrow> (s, SrFailed)
           | (s, SrReady r) \<Rightarrow>
               if cmp_key p r root name = Greater then snap_after_loop p call snap root name lo mid s
               else snap_after_loop p call snap root name (mid + 1) hi s
      else (s, SrReady lo))"
  by pat_completeness auto
termination by (relation "measure (\<lambda>(p, call, snap, root, path, lo, hi, s). hi - lo)") auto

declare snap_after_loop.simps [simp del]

definition snap_seek_after ::
  "profile \<Rightarrow> 's provider \<Rightarrow> open_snapshot \<Rightarrow> bytes \<Rightarrow> bytes \<Rightarrow> 's \<Rightarrow> 's \<times> nat snap_read" where
  "snap_seek_after p call snap root name s = snap_after_loop p call snap root name 0 (unat (on_count snap)) s"

end
