(* ===== verification/Snapshot_Write.thy ===== *)
theory Snapshot_Write
  imports Snapshot_File
begin

text \<open>
  \<open>modules/common/mechanics/loam_snapshot.rs\<close>, the resumable writer: a step machine that
  owns the bytes it has staged and asks the provider one call at a time.  Stage cursors are
  naturals bounded by the record size; the record count is the code's 32-bit word.
\<close>

section \<open>The writer\<close>

datatype write_poll = WrPending | WrReady | WrFailed

datatype sw_phase = W_IDLE | W_UNLINK | W_CREATE | W_PLACEHOLDER | W_RECORDS | W_FSYNC_RECORDS | W_SEEK
  | W_HEADER | W_FSYNC_HEADER | W_NAME | W_DONE

record snap_writer =
  sw_fd_plus1 :: int
  sw_count :: u32
  sw_generation :: u64
  sw_phase :: sw_phase
  sw_path_len :: u16
  sw_path_bytes :: bytes
  sw_stage_len :: nat
  sw_stage_written :: nat
  sw_stage :: bytes

definition snap_writer_new :: "profile \<Rightarrow> snap_writer" where
  "snap_writer_new p = \<lparr>sw_fd_plus1 = 0, sw_count = 0, sw_generation = 0, sw_phase = W_IDLE, sw_path_len = 0,
     sw_path_bytes = replicate SNAP_PATH_MAX 0, sw_stage_len = 0, sw_stage_written = 0,
     sw_stage = replicate (REC_SIZE p) 0\<rparr>"

definition sw_busy :: "snap_writer \<Rightarrow> bool" where
  "sw_busy w \<longleftrightarrow> sw_phase w \<noteq> W_IDLE"

definition sw_start :: "bytes \<Rightarrow> u64 \<Rightarrow> snap_writer \<Rightarrow> snap_writer \<times> bool" where
  "sw_start path generation w =
     (if sw_phase w \<noteq> W_IDLE \<or> path = [] \<or> length path > SNAP_PATH_MAX then (w, False)
      else (w\<lparr>sw_path_bytes := copy_prefix path (sw_path_bytes w), sw_path_len := word_of_nat (length path),
              sw_fd_plus1 := 0, sw_count := 0, sw_generation := generation, sw_stage_len := 0, sw_stage_written := 0,
              sw_phase := W_UNLINK\<rparr>, True))"

definition sw_path :: "snap_writer \<Rightarrow> bytes" where
  "sw_path w = take (min (unat (sw_path_len w)) SNAP_PATH_MAX) (sw_path_bytes w)"

definition sw_stage_bytes :: "profile \<Rightarrow> bytes \<Rightarrow> snap_writer \<Rightarrow> snap_writer" where
  "sw_stage_bytes p bs w =
     w\<lparr>sw_stage := copy_prefix (take (REC_SIZE p) bs) (sw_stage w), sw_stage_len := min (length bs) (REC_SIZE p),
       sw_stage_written := 0\<rparr>"

function drain_stage :: "profile \<Rightarrow> 's provider \<Rightarrow> snap_writer \<Rightarrow> 's \<Rightarrow> snap_writer \<times> 's \<times> write_poll" where
  "drain_stage p call w s =
     (let len = min (sw_stage_len w) (REC_SIZE p)
      in if sw_stage_written w < len then
           let off = sw_stage_written w; want = len - off;
               (s, rc, _) = call s (sw_fd_plus1 w - 1) FS_WRITE (sub_slice (sw_stage w) off want)
           in if fs_pending rc then (w, s, WrPending)
              else if rc \<le> 0 then (w, s, WrFailed)
              else drain_stage p call (w\<lparr>sw_stage_written := off + min (nat rc) want\<rparr>) s
         else (w\<lparr>sw_stage_len := 0, sw_stage_written := 0\<rparr>, s, WrReady))"
  by pat_completeness auto
termination
  by (relation "measure (\<lambda>(p, call, w, s). min (sw_stage_len w) (REC_SIZE p) - sw_stage_written w)") auto

declare drain_stage.simps [simp del]

section \<open>Opening\<close>

definition sw_open_step :: "profile \<Rightarrow> 's provider \<Rightarrow> snap_writer \<Rightarrow> 's \<Rightarrow> snap_writer \<times> 's \<times> write_poll option" where
  "sw_open_step p call w s =
     (case sw_phase w of
        W_UNLINK \<Rightarrow>
          let (s, rc) = fs_unlink call (sw_path w) s
          in if fs_pending rc then (w, s, Some WrPending) else (w\<lparr>sw_phase := W_CREATE\<rparr>, s, None)
      | W_CREATE \<Rightarrow>
          let (s, fd, _) = call s (- 1) FS_OPEN_CREATE (sw_path w)
          in if fs_pending fd then (w, s, Some WrPending)
             else if fd < 0 then (w\<lparr>sw_phase := W_IDLE\<rparr>, s, Some WrFailed)
             else ((sw_stage_bytes p (replicate SNAP_HDR 0) (w\<lparr>sw_fd_plus1 := fd + 1\<rparr>))\<lparr>sw_phase := W_PLACEHOLDER\<rparr>, s, None)
      | W_PLACEHOLDER \<Rightarrow>
          (case drain_stage p call w s of
             (w, s, WrReady) \<Rightarrow> (w\<lparr>sw_phase := W_RECORDS\<rparr>, s, Some WrReady)
           | (w, s, other) \<Rightarrow> (w, s, Some other))
      | W_RECORDS \<Rightarrow> (w, s, Some WrReady)
      | _ \<Rightarrow> (w, s, Some WrFailed))"

definition sw_rank :: "sw_phase \<Rightarrow> nat" where
  "sw_rank ph = (case ph of W_IDLE \<Rightarrow> 0 | W_UNLINK \<Rightarrow> 10 | W_CREATE \<Rightarrow> 9 | W_PLACEHOLDER \<Rightarrow> 8 | W_RECORDS \<Rightarrow> 7
     | W_FSYNC_RECORDS \<Rightarrow> 6 | W_SEEK \<Rightarrow> 5 | W_HEADER \<Rightarrow> 4 | W_FSYNC_HEADER \<Rightarrow> 3 | W_NAME \<Rightarrow> 2 | W_DONE \<Rightarrow> 1)"

lemma sw_stage_bytes_phase [simp]: "sw_phase (sw_stage_bytes p bs w) = sw_phase w"
  by (simp add: sw_stage_bytes_def)

lemma sw_open_step_ranks: "sw_open_step p call w s = (w', s', None) \<Longrightarrow> sw_rank (sw_phase w') < sw_rank (sw_phase w)"
  by (auto simp: sw_open_step_def sw_rank_def Let_def split: sw_phase.splits prod.splits if_splits write_poll.splits)

function sw_poll_open :: "profile \<Rightarrow> 's provider \<Rightarrow> snap_writer \<Rightarrow> 's \<Rightarrow> snap_writer \<times> 's \<times> write_poll" where
  "sw_poll_open p call w s =
     (case sw_open_step p call w s of
        (w, s, Some r) \<Rightarrow> (w, s, r)
      | (w, s, None) \<Rightarrow> sw_poll_open p call w s)"
  by pat_completeness auto
termination by (relation "measure (\<lambda>(p, call, w, s). sw_rank (sw_phase w))") (auto dest: sw_open_step_ranks [OF sym])

declare sw_poll_open.simps [simp del]

section \<open>Appending\<close>

definition sw_can_stage :: "snap_writer \<Rightarrow> bool" where
  "sw_can_stage w \<longleftrightarrow> sw_phase w = W_RECORDS \<and> sw_stage_len w = 0"

definition sw_stage_record :: "profile \<Rightarrow> snap_record \<Rightarrow> snap_writer \<Rightarrow> snap_writer \<times> bool" where
  "sw_stage_record p r w =
     (if \<not> sw_can_stage w then (w, False)
      else
        let (stage, ok) = snap_encode p r (sw_stage w)
        in if \<not> ok then (w, False)
           else (w\<lparr>sw_stage := stage, sw_stage_len := REC_SIZE p, sw_stage_written := 0, sw_count := sw_count w + 1\<rparr>, True))"

definition sw_flush :: "profile \<Rightarrow> 's provider \<Rightarrow> snap_writer \<Rightarrow> 's \<Rightarrow> snap_writer \<times> 's \<times> write_poll" where
  "sw_flush p call w s = (if sw_phase w \<noteq> W_RECORDS then (w, s, WrFailed) else drain_stage p call w s)"

section \<open>Finishing\<close>

definition sw_header :: "snap_writer \<Rightarrow> bytes" where
  "sw_header w = le_bytes 4 SNAP_MAGIC @ le_bytes 4 (sw_count w) @ le_bytes 8 (sw_generation w)"

definition sw_finish_step :: "profile \<Rightarrow> 's provider \<Rightarrow> snap_writer \<Rightarrow> 's \<Rightarrow> snap_writer \<times> 's \<times> write_poll option" where
  "sw_finish_step p call w s =
     (case sw_phase w of
        W_RECORDS \<Rightarrow>
          (case drain_stage p call w s of
             (w, s, WrReady) \<Rightarrow> (w\<lparr>sw_phase := W_FSYNC_RECORDS\<rparr>, s, None)
           | (w, s, other) \<Rightarrow> (w, s, Some other))
      | W_FSYNC_RECORDS \<Rightarrow>
          let (s, rc, _) = call s (sw_fd_plus1 w - 1) FS_FSYNC []
          in if fs_pending rc then (w, s, Some WrPending)
             else if rc < 0 then (w, s, Some WrFailed) else (w\<lparr>sw_phase := W_SEEK\<rparr>, s, None)
      | W_FSYNC_HEADER \<Rightarrow>
          let (s, rc, _) = call s (sw_fd_plus1 w - 1) FS_FSYNC []
          in if fs_pending rc then (w, s, Some WrPending)
             else if rc < 0 then (w, s, Some WrFailed) else (w\<lparr>sw_phase := W_NAME\<rparr>, s, None)
      | W_SEEK \<Rightarrow>
          let (s, r) = snap_seek call (sw_fd_plus1 w - 1) 0 s
          in (case r of
                SrReady _ \<Rightarrow> ((sw_stage_bytes p (sw_header w) w)\<lparr>sw_phase := W_HEADER\<rparr>, s, None)
              | SrPending \<Rightarrow> (w, s, Some WrPending)
              | SrFailed \<Rightarrow> (w, s, Some WrFailed))
      | W_HEADER \<Rightarrow>
          (case drain_stage p call w s of
             (w, s, WrReady) \<Rightarrow> (w\<lparr>sw_phase := W_FSYNC_HEADER\<rparr>, s, None)
           | (w, s, other) \<Rightarrow> (w, s, Some other))
      | W_NAME \<Rightarrow>
          let (s, rc) = fsync_name call (sw_path w) s
          in if fs_pending rc then (w, s, Some WrPending)
             else if rc < 0 then (w, s, Some WrFailed)
             else (w\<lparr>sw_fd_plus1 := 0, sw_phase := W_DONE\<rparr>, fst (wal_close call (sw_fd_plus1 w - 1) s), None)
      | W_DONE \<Rightarrow> (w\<lparr>sw_phase := W_IDLE\<rparr>, s, Some WrReady)
      | _ \<Rightarrow> (w, s, Some WrFailed))"

lemma sw_finish_step_ranks: "sw_finish_step p call w s = (w', s', None) \<Longrightarrow> sw_rank (sw_phase w') < sw_rank (sw_phase w)"
  by (auto simp: sw_finish_step_def sw_rank_def Let_def
      split: sw_phase.splits prod.splits if_splits write_poll.splits snap_read.splits)

function sw_poll_finish :: "profile \<Rightarrow> 's provider \<Rightarrow> snap_writer \<Rightarrow> 's \<Rightarrow> snap_writer \<times> 's \<times> write_poll" where
  "sw_poll_finish p call w s =
     (case sw_finish_step p call w s of
        (w, s, Some r) \<Rightarrow> (w, s, r)
      | (w, s, None) \<Rightarrow> sw_poll_finish p call w s)"
  by pat_completeness auto
termination by (relation "measure (\<lambda>(p, call, w, s). sw_rank (sw_phase w))") (auto dest: sw_finish_step_ranks [OF sym])

declare sw_poll_finish.simps [simp del]

definition sw_abandon :: "'s provider \<Rightarrow> snap_writer \<Rightarrow> 's \<Rightarrow> snap_writer \<times> 's" where
  "sw_abandon call w s =
     (w\<lparr>sw_fd_plus1 := 0, sw_stage_len := 0, sw_stage_written := 0, sw_phase := W_IDLE\<rparr>,
      if sw_fd_plus1 w > 0 then fst (wal_close call (sw_fd_plus1 w - 1) s) else s)"

end
