(* ===== verification/Snapshot_Search.thy ===== *)
theory Snapshot_Search
  imports Snapshot_File
begin

text \<open>
  What a generation file answers.  A file is a header and the records in key order; the
  searches are over the provider's reads, which may be cut short, be undecided or fail, and
  never answer an absence or a record that the file does not hold.
\<close>

section \<open>Files\<close>

definition snap_key :: "profile \<Rightarrow> snap_record \<Rightarrow> bytes \<times> bytes" where
  "snap_key p r = (sr_root r, sr_path p r)"

definition snap_header :: "u32 \<Rightarrow> u64 \<Rightarrow> bytes" where
  "snap_header count generation = le_bytes 4 SNAP_MAGIC @ le_bytes 4 count @ le_bytes 8 generation"

definition snap_file :: "u64 \<Rightarrow> snap_record list \<Rightarrow> bytes" where
  "snap_file generation recs = snap_header (word_of_nat (length recs)) generation @ concat (map snap_bytes recs)"

definition snap_fits :: "profile \<Rightarrow> snap_record list \<Rightarrow> bool" where
  "snap_fits p recs \<longleftrightarrow> (\<forall>r\<in>set recs. snap_ok p r) \<and> SNAP_HDR + length recs * REC_SIZE p < 2 ^ 32"

definition snap_sorted :: "profile \<Rightarrow> snap_record list \<Rightarrow> bool" where
  "snap_sorted p recs \<longleftrightarrow> sorted_wrt (\<lambda>a b. snap_key p a < snap_key p b) recs"

definition snap_find :: "profile \<Rightarrow> bytes \<times> bytes \<Rightarrow> snap_record list \<Rightarrow> snap_record option" where
  "snap_find p k recs = List.find (\<lambda>r. snap_key p r = k) recs"

lemma length_snap_header [simp]: "length (snap_header c g) = SNAP_HDR"
  by (simp add: snap_header_def SNAP_HDR_def)

lemma length_chunks: "\<forall>x\<in>set xs. length (f x) = n \<Longrightarrow> length (concat (map f xs)) = length xs * n"
  by (induction xs) auto

lemma take_drop_chunk:
  assumes "\<forall>x\<in>set xs. length (f x) = n" "i < length xs"
  shows "take n (drop (i * n) (concat (map f xs))) = f (xs ! i)"
  using assms
proof (induction xs arbitrary: i)
  case (Cons x xs)
  then show ?case by (cases i) auto
qed simp

section \<open>One record\<close>

lemma read_exact_from_reads:
  "log_reads call fd v \<Longrightarrow> read_exact_from call fd filled buf s = (buf', s', r) \<Longrightarrow>
   holds_from v q filled buf s \<Longrightarrow> filled \<le> length buf \<Longrightarrow>
   rv_content v s' = rv_content v s \<and> length buf' = length buf \<and>
   (r = SrReady () \<longrightarrow> holds_from v q (length buf) buf' s') \<and>
   (reads_answer call fd \<longrightarrow> q + length buf \<le> length (rv_content v s) \<longrightarrow> r = SrReady ())"
proof (induction call fd filled buf s rule: read_exact_from.induct)
  case (1 call fd filled buf s)
  show ?case
  proof (cases "filled < length buf")
    case False
    then have e: "filled = length buf" using 1(5) by simp
    show ?thesis using 1(3,4) by (auto simp: e read_exact_from.simps [of call fd "length buf" buf s])
  next
    case True
    define arg where "arg = sub_slice buf filled (length buf - filled)"
    obtain s1 n got where c: "call s fd FS_READ arg = (s1, n, got)" by (metis prod_cases3)
    have len: "length arg = length buf - filled" using True by (simp add: arg_def sub_slice_def)
    note rd = reads_read [OF 1(2) c refl, unfolded len]
    define buf1 where "buf1 = take (length buf) (put_at filled got buf)"
    have buf1: "length buf1 = length buf" "take filled buf1 = take filled buf"
      using rd True by (simp_all add: buf1_def take_put_at min_def)
    have unf: "read_exact_from call fd filled buf s =
        (if fs_pending n then (buf1, s1, SrPending)
         else if n \<le> 0 then (buf1, s1, SrFailed)
         else read_exact_from call fd (filled + min (nat n) (length buf - filled)) buf1 s1)"
      using True by (simp add: read_exact_from.simps [of call fd filled buf s] arg_def [symmetric] c buf1_def)
    have h: "rv_pos v s = q + filled" "q + filled \<le> length (rv_content v s)"
      "take filled buf = take filled (drop q (rv_content v s))"
      using 1(4) by (simp_all add: holds_from_def)
    show ?thesis
    proof (cases "n > 0")
      case False
      have "\<not> (reads_answer call fd \<and> q + length buf \<le> length (rv_content v s))"
      proof
        assume a: "reads_answer call fd \<and> q + length buf \<le> length (rv_content v s)"
        then have "\<not> n < 0" using answered(2) [of call fd s FS_READ arg s1 n got] c by simp
        then have "n = 0" using False by simp
        then have "length (rv_content v s) \<le> q + filled" using rd h(1) len True by (cases arg) auto
        then show False using a True by simp
      qed
      then show ?thesis using 1(3) rd buf1 False fs_pending_neg [of n] by (auto simp: unf split: if_splits)
    next
      case pos: True
      then have np: "\<not> fs_pending n" using fs_pending_neg by fastforce
      have n: "nat n \<le> length buf - filled" "take (nat n) got = take (nat n) (drop (q + filled) (rv_content v s))"
        "rv_pos v s1 = q + filled + nat n" "length got = length buf - filled"
        using rd pos h(1) by simp_all
      then have "length (take (nat n) (drop (q + filled) (rv_content v s))) = nat n" by (metis length_take min.absorb2)
      then have fits: "q + filled + nat n \<le> length (rv_content v s)" using h(2) by simp
      have b: "buf1 = put_at filled got buf" using True n(4) by (simp add: buf1_def put_at_def)
      have "take (filled + nat n) buf1 = take filled buf @ take (nat n) got"
        using n(1,4) True by (simp add: b take_put_more)
      then have "holds_from v q (filled + nat n) buf1 s1"
        using n rd h fits by (simp add: holds_from_def take_add add.commute)
      moreover have "filled + nat n \<le> length buf1" using n(1) True buf1 by linarith
      ultimately show ?thesis
        using 1(1) [OF True refl c [unfolded arg_def, symmetric] refl refl buf1_def np] 1(2,3) pos np n(1) rd buf1
        by (simp add: unf)
    qed
  qed
qed

lemma read_exact_reads:
  assumes "log_reads call fd v" "read_exact call fd n s = (buf, s', r)" "rv_pos v s \<le> length (rv_content v s)"
  shows "rv_content v s' = rv_content v s"
    and "r = SrReady () \<Longrightarrow> buf = take n (drop (rv_pos v s) (rv_content v s)) \<and> rv_pos v s + n \<le> length (rv_content v s)"
    and "reads_answer call fd \<Longrightarrow> rv_pos v s + n \<le> length (rv_content v s) \<Longrightarrow> r = SrReady ()"
proof -
  have "holds_from v (rv_pos v s) 0 (replicate n 0) s" using assms(3) by (simp add: holds_from_def)
  note rd = read_exact_from_reads [OF assms(1,2) [unfolded read_exact_def] this]
  show "rv_content v s' = rv_content v s" using rd by simp
  show "reads_answer call fd \<Longrightarrow> rv_pos v s + n \<le> length (rv_content v s) \<Longrightarrow> r = SrReady ()" using rd by simp
  show "buf = take n (drop (rv_pos v s) (rv_content v s)) \<and> rv_pos v s + n \<le> length (rv_content v s)" if "r = SrReady ()"
    using rd that by (auto simp: holds_from_def)
qed

text \<open>
  An opened snapshot over its file: the handle's count is the file's, and the records are
  those of the list, in strict key order.
\<close>

definition snap_backs :: "profile \<Rightarrow> 's read_view \<Rightarrow> u64 \<Rightarrow> snap_record list \<Rightarrow> open_snapshot \<Rightarrow> 's \<Rightarrow> bool" where
  "snap_backs p v g recs snap s \<longleftrightarrow>
     rv_content v s = snap_file g recs \<and> snap_fits p recs \<and> unat (on_count snap) = length recs"

lemma snap_offset:
  assumes "snap_fits p recs" "i < length recs"
  shows "unat (word_of_nat SNAP_HDR + word_of_nat i * word_of_nat (REC_SIZE p) :: u32) = SNAP_HDR + i * REC_SIZE p"
    and "SNAP_HDR + i * REC_SIZE p + REC_SIZE p \<le> SNAP_HDR + length recs * REC_SIZE p"
proof -
  have "(i + 1) * REC_SIZE p \<le> length recs * REC_SIZE p" using assms(2) by (intro mult_le_mono1) simp
  then show le: "SNAP_HDR + i * REC_SIZE p + REC_SIZE p \<le> SNAP_HDR + length recs * REC_SIZE p" by simp
  have "SNAP_HDR + i * REC_SIZE p < 2 ^ 32" using le assms(1) by (simp add: snap_fits_def)
  moreover have "(word_of_nat SNAP_HDR + word_of_nat i * word_of_nat (REC_SIZE p) :: u32)
      = word_of_nat (SNAP_HDR + i * REC_SIZE p)" by simp
  ultimately show "unat (word_of_nat SNAP_HDR + word_of_nat i * word_of_nat (REC_SIZE p) :: u32) = SNAP_HDR + i * REC_SIZE p"
    using unat_of_nat_small [where 'a = 32, of "SNAP_HDR + i * REC_SIZE p"] by simp
qed

lemma length_snap_file: "snap_fits p recs \<Longrightarrow> length (snap_file g recs) = SNAP_HDR + length recs * REC_SIZE p"
  by (simp add: snap_file_def snap_fits_def length_chunks length_snap_bytes)

lemma snap_file_record:
  assumes "snap_fits p recs" "i < length recs"
  shows "take (REC_SIZE p) (drop (SNAP_HDR + i * REC_SIZE p) (snap_file g recs)) = snap_bytes (recs ! i)"
proof -
  have "\<forall>r\<in>set recs. length (snap_bytes r) = REC_SIZE p" using assms(1) by (simp add: snap_fits_def length_snap_bytes)
  then show ?thesis using take_drop_chunk [of recs snap_bytes] assms(2) by (simp add: snap_file_def)
qed

lemma snap_read_at_reads:
  assumes rd: "log_reads call (on_fd snap) v" and run: "snap_read_at p call snap i s = (s', r)"
    and b: "snap_backs p v g recs snap s"
  shows "rv_content v s' = rv_content v s"
    and "r = SrReady a \<Longrightarrow> i < length recs \<and> a = recs ! i"
    and "reads_answer call (on_fd snap) \<Longrightarrow> i < length recs \<Longrightarrow> \<exists>a. r = SrReady a"
proof -
  note bk = b [unfolded snap_backs_def]
  define off :: u32 where "off = word_of_nat SNAP_HDR + word_of_nat i * word_of_nat (REC_SIZE p)"
  obtain s1 rc got where c: "call s (on_fd snap) FS_SEEK (le_bytes 4 off) = (s1, rc, got)" by (metis prod_cases3)
  note sk = reads_seek [OF rd c refl]
  obtain buf s2 q where x: "read_exact call (on_fd snap) (REC_SIZE p) s1 = (buf, s2, q)" by (metis prod_cases3)
  have unf: "snap_read_at p call snap i s =
      (if i \<ge> length recs then (s, SrFailed)
       else if fs_pending rc then (s1, SrPending) else if rc < 0 then (s1, SrFailed)
       else (s2, case q of SrPending \<Rightarrow> SrPending | SrFailed \<Rightarrow> SrFailed
                 | SrReady _ \<Rightarrow> case snap_decode p buf of Some a \<Rightarrow> SrReady a | None \<Rightarrow> SrFailed))"
    using bk by (simp add: snap_read_at_def snap_seek_def off_def [symmetric] c x split: snap_read.split)
  have main: "rv_content v s2 = rv_content v s1 \<and> (q = SrReady () \<longrightarrow> buf = snap_bytes (recs ! i)) \<and>
      (reads_answer call (on_fd snap) \<longrightarrow> q = SrReady ())" if i: "i < length recs" and ok: "rc \<ge> 0"
  proof -
    note o1 = snap_offset [OF bk [THEN conjunct2, THEN conjunct1] i]
    have pos: "rv_pos v s1 = SNAP_HDR + i * REC_SIZE p" "rv_content v s1 = snap_file g recs"
      using sk ok o1(1) bk by (simp_all add: off_def from_le_u32)
    have len: "rv_pos v s1 + REC_SIZE p \<le> length (rv_content v s1)" using pos o1(2) bk length_snap_file [of p recs g] by simp
    then have "rv_pos v s1 \<le> length (rv_content v s1)" by simp
    note rx = read_exact_reads [OF rd x this]
    show ?thesis using rx len pos snap_file_record [OF bk [THEN conjunct2, THEN conjunct1] i, of g] by auto
  qed
  have dec: "i < length recs \<Longrightarrow> snap_decode p (snap_bytes (recs ! i)) = Some (recs ! i)"
    using bk snap_decode_bytes [of p "recs ! i" "[]"] by (simp add: snap_fits_def)
  have np: "rc \<ge> 0 \<Longrightarrow> \<not> fs_pending rc" using fs_pending_neg [of rc] by fastforce
  show "rv_content v s' = rv_content v s" using run sk main by (auto simp: unf split: if_splits)
  show "i < length recs \<and> a = recs ! i" if "r = SrReady a"
    using run main dec that by (auto simp: unf split: if_splits snap_read.splits)
  show "\<exists>a. r = SrReady a" if ans: "reads_answer call (on_fd snap)" and i: "i < length recs"
    using run main [OF i] dec [OF i] ans i answered [OF ans c, simplified] by (auto simp: unf)
qed

section \<open>Searches\<close>

lemma snap_find_at:
  assumes "snap_sorted p recs" "i < length recs" "snap_key p (recs ! i) = k"
  shows "snap_find p k recs = Some (recs ! i)"
proof -
  have "\<forall>j < i. snap_key p (recs ! j) \<noteq> k"
    using assms by (fastforce simp: snap_sorted_def sorted_wrt_iff_nth_less)
  then show ?thesis using assms(2,3) by (auto simp: snap_find_def find_Some_iff)
qed

lemma sorted_below:
  assumes "snap_sorted p recs" "j \<le> i" "i < length recs"
  shows "snap_key p (recs ! j) \<le> snap_key p (recs ! i)"
  using assms by (cases "j = i") (auto simp: snap_sorted_def sorted_wrt_iff_nth_less order.strict_iff_order)

lemma snap_search_loop_finds:
  "log_reads call (on_fd snap) v \<Longrightarrow> snap_search_loop p call snap root path lo hi s = (s', r) \<Longrightarrow>
   snap_backs p v g recs snap s \<Longrightarrow> snap_sorted p recs \<Longrightarrow> lo \<le> hi \<Longrightarrow> hi \<le> length recs \<Longrightarrow>
   \<forall>i < lo. snap_key p (recs ! i) < (root, path) \<Longrightarrow>
   \<forall>i < length recs. hi \<le> i \<longrightarrow> (root, path) < snap_key p (recs ! i) \<Longrightarrow>
   rv_content v s' = rv_content v s \<and> (\<forall>a. r = SrReady a \<longrightarrow> a = snap_find p (root, path) recs) \<and>
   (reads_answer call (on_fd snap) \<longrightarrow> (\<exists>a. r = SrReady a))"
proof (induction p call snap root path lo hi s rule: snap_search_loop.induct)
  case (1 p call snap root path lo hi s)
  note unf = snap_search_loop.simps [of p call snap root path lo hi s]
  show ?case
  proof (cases "lo < hi")
    case False
    then have "\<forall>x\<in>set recs. snap_key p x \<noteq> (root, path)" using 1(7-10) by (auto simp: in_set_conv_nth) (metis less_irrefl not_less)
    then have "snap_find p (root, path) recs = None" by (simp add: snap_find_def find_None_iff)
    then show ?thesis using 1(4) False by (auto simp: unf)
  next
    case True
    define mid where "mid = lo + (hi - lo) div 2"
    have mid: "lo \<le> mid" "mid < hi" "mid < length recs" using True 1(8) by (auto simp: mid_def)
    obtain s1 q where c: "snap_read_at p call snap mid s = (s1, q)" by (metis surj_pair)
    note rd = snap_read_at_reads [OF 1(3) c 1(5)]
    have b1: "snap_backs p v g recs snap s1" using 1(5) rd(1) by (simp add: snap_backs_def)
    show ?thesis
    proof (cases q)
      case (SrReady a)
      have a: "a = recs ! mid" using rd(2) SrReady by blast
      have key: "cmp_key p a root path = cmp_of (snap_key p a) (root, path)"
        by (simp add: cmp_key_def key_cmp_lex snap_key_def)
      consider "snap_key p a = (root, path)" | "snap_key p a < (root, path)" | "(root, path) < snap_key p a"
        using less_linear by blast
      then show ?thesis
      proof cases
        case eq: 1
        then have "cmp_key p a root path = Equal" by (simp add: key cmp_of_def)
        then show ?thesis
          using 1(4) True rd(1) snap_find_at [OF 1(6) mid(3)] a eq by (auto simp: unf mid_def [symmetric] c SrReady)
      next
        case lt: 2
        then have k: "cmp_key p a root path = Less" by (auto simp: key cmp_of_def)
        have low: "\<forall>i < mid + 1. snap_key p (recs ! i) < (root, path)"
          using lt a sorted_below [OF 1(6) _ mid(3)] by (auto simp: less_Suc_eq_le intro: le_less_trans)
        have "snap_search_loop p call snap root path (mid + 1) hi s1 = (s', r)"
          using 1(4) True by (simp add: unf mid_def [symmetric] c SrReady k)
        then show ?thesis
          using 1(1) [OF True mid_def c [symmetric] SrReady k 1(3) _ b1 1(6) _ 1(8) low 1(10)] mid(2) rd(1) by simp
      next
        case gt: 3
        then have k: "cmp_key p a root path = Greater" by (auto simp: key cmp_of_def)
        have high: "\<forall>i < length recs. mid \<le> i \<longrightarrow> (root, path) < snap_key p (recs ! i)"
          using gt a sorted_below [OF 1(6)] by (auto intro: less_le_trans)
        have "snap_search_loop p call snap root path lo mid s1 = (s', r)"
          using 1(4) True by (simp add: unf mid_def [symmetric] c SrReady k)
        then show ?thesis
          using 1(2) [OF True mid_def c [symmetric] SrReady k 1(3) _ b1 1(6) mid(1) _ 1(9) high] mid rd(1) by simp
      qed
    qed (use 1(4) True rd mid in \<open>auto simp: unf mid_def [symmetric] c\<close>)
  qed
qed

lemma snap_search_finds:
  assumes "log_reads call (on_fd snap) v" "snap_search p call snap root path s = (s', r)"
    and "snap_backs p v g recs snap s" "snap_sorted p recs"
  shows "rv_content v s' = rv_content v s" "\<And>a. r = SrReady a \<Longrightarrow> a = snap_find p (root, path) recs"
    and "reads_answer call (on_fd snap) \<Longrightarrow> r = SrReady (snap_find p (root, path) recs)"
proof -
  have "snap_search_loop p call snap root path 0 (length recs) s = (s', r)"
    using assms(2,3) by (simp add: snap_search_def snap_backs_def)
  note fd = snap_search_loop_finds [OF assms(1) this assms(3,4)]
  show "rv_content v s' = rv_content v s" "\<And>a. r = SrReady a \<Longrightarrow> a = snap_find p (root, path) recs"
    and "reads_answer call (on_fd snap) \<Longrightarrow> r = SrReady (snap_find p (root, path) recs)"
    using fd by auto
qed

text \<open>The listing's cursor: the first record past \<open>(root, name)\<close>.\<close>

lemma snap_after_loop_counts:
  "log_reads call (on_fd snap) v \<Longrightarrow> snap_after_loop p call snap root name lo hi s = (s', r) \<Longrightarrow>
   snap_backs p v g recs snap s \<Longrightarrow> snap_sorted p recs \<Longrightarrow> lo \<le> hi \<Longrightarrow> hi \<le> length recs \<Longrightarrow>
   \<forall>i < lo. snap_key p (recs ! i) \<le> (root, name) \<Longrightarrow>
   \<forall>i < length recs. hi \<le> i \<longrightarrow> (root, name) < snap_key p (recs ! i) \<Longrightarrow>
   rv_content v s' = rv_content v s \<and>
   (\<forall>n. r = SrReady n \<longrightarrow> n \<le> length recs \<and> (\<forall>i < n. snap_key p (recs ! i) \<le> (root, name)) \<and>
      (\<forall>i < length recs. n \<le> i \<longrightarrow> (root, name) < snap_key p (recs ! i))) \<and>
   (reads_answer call (on_fd snap) \<longrightarrow> (\<exists>n. r = SrReady n))"
proof (induction p call snap root name lo hi s rule: snap_after_loop.induct)
  case (1 p call snap root name lo hi s)
  note unf = snap_after_loop.simps [of p call snap root name lo hi s]
  show ?case
  proof (cases "lo < hi")
    case False
    have "s' = s" "r = SrReady lo" using 1(4) False by (auto simp: unf)
    moreover have "lo = hi" using 1(7) False by simp
    ultimately show ?thesis using 1(8-10) by simp
  next
    case True
    define mid where "mid = lo + (hi - lo) div 2"
    have mid: "lo \<le> mid" "mid < hi" "mid < length recs" using True 1(8) by (auto simp: mid_def)
    obtain s1 q where c: "snap_read_at p call snap mid s = (s1, q)" by (metis surj_pair)
    note rd = snap_read_at_reads [OF 1(3) c 1(5)]
    have b1: "snap_backs p v g recs snap s1" using 1(5) rd(1) by (simp add: snap_backs_def)
    show ?thesis
    proof (cases q)
      case (SrReady a)
      have a: "a = recs ! mid" using rd(2) SrReady by blast
      have key: "(cmp_key p a root name = Greater) = ((root, name) < snap_key p a)"
        by (auto simp: cmp_key_def key_cmp_lex snap_key_def cmp_of_def)
      show ?thesis
      proof (cases "cmp_key p a root name = Greater")
        case gt: True
        have high: "\<forall>i < length recs. mid \<le> i \<longrightarrow> (root, name) < snap_key p (recs ! i)"
          using gt a key sorted_below [OF 1(6)] by (auto intro: less_le_trans)
        have "snap_after_loop p call snap root name lo mid s1 = (s', r)"
          using 1(4) True gt by (simp add: unf mid_def [symmetric] c SrReady)
        then show ?thesis
          using 1(1) [OF True mid_def c [symmetric] SrReady gt 1(3) _ b1 1(6) mid(1) _ 1(9) high] mid rd(1) by simp
      next
        case le: False
        have low: "\<forall>i < mid + 1. snap_key p (recs ! i) \<le> (root, name)"
          using le a key sorted_below [OF 1(6) _ mid(3)] by (auto simp: less_Suc_eq_le not_less intro: order_trans)
        have "snap_after_loop p call snap root name (mid + 1) hi s1 = (s', r)"
          using 1(4) True le by (simp add: unf mid_def [symmetric] c SrReady)
        then show ?thesis
          using 1(2) [OF True mid_def c [symmetric] SrReady le 1(3) _ b1 1(6) _ 1(8) low 1(10)] mid(2) rd(1) by simp
      qed
    qed (use 1(4) True rd mid in \<open>auto simp: unf mid_def [symmetric] c\<close>)
  qed
qed

lemma snap_seek_after_counts:
  assumes "log_reads call (on_fd snap) v" "snap_seek_after p call snap root name s = (s', r)"
    and "snap_backs p v g recs snap s" "snap_sorted p recs"
  shows "rv_content v s' = rv_content v s"
    and "r = SrReady n \<Longrightarrow> n \<le> length recs \<and> (\<forall>i < n. snap_key p (recs ! i) \<le> (root, name)) \<and>
      (\<forall>i < length recs. n \<le> i \<longrightarrow> (root, name) < snap_key p (recs ! i))"
    and "reads_answer call (on_fd snap) \<Longrightarrow> \<exists>n. r = SrReady n"
proof -
  have "snap_after_loop p call snap root name 0 (length recs) s = (s', r)"
    using assms(2,3) by (simp add: snap_seek_after_def snap_backs_def)
  note fd = snap_after_loop_counts [OF assms(1) this assms(3,4)]
  show "rv_content v s' = rv_content v s"
    and "r = SrReady n \<Longrightarrow> n \<le> length recs \<and> (\<forall>i < n. snap_key p (recs ! i) \<le> (root, name)) \<and>
      (\<forall>i < length recs. n \<le> i \<longrightarrow> (root, name) < snap_key p (recs ! i))"
    and "reads_answer call (on_fd snap) \<Longrightarrow> \<exists>n. r = SrReady n"
    using fd by auto
qed

end
