(* ===== verification/Snapshot_Durable.thy ===== *)
theory Snapshot_Durable
  imports Snapshot_Write Snapshot_Search
begin

text \<open>
  What a power cut may leave of a generation being written.  The provider enters through the
  fs contract on the file the writer owns: what each call does to its bytes, to the offset,
  and to the images a power cut may leave.  An image is any byte-wise mixture of the writes
  since the last fence, with zeros where nothing landed.
\<close>

section \<open>The fs contract on a generation file\<close>

record 's snap_view =
  sv_content :: "'s \<Rightarrow> bytes"
  sv_pos :: "'s \<Rightarrow> nat"
  sv_images :: "'s \<Rightarrow> bytes set"
  sv_fd :: "'s \<Rightarrow> int"
  sv_named :: "'s \<Rightarrow> bool"

definition mixed :: "bytes \<Rightarrow> bytes \<Rightarrow> bytes \<Rightarrow> bool" where
  \<comment> \<open>\<open>c\<close> holds some bytes of the image \<open>a\<close> and some of the content \<open>b\<close>\<close>
  "mixed a b c \<longleftrightarrow> length a \<le> length c \<and> length c \<le> max (length a) (length b) \<and>
     (\<forall>i < length c. (i < length a \<and> c ! i = a ! i) \<or> (i < length b \<and> c ! i = b ! i) \<or> (length a \<le> i \<and> c ! i = 0))"

definition sv_same :: "'s snap_view \<Rightarrow> 's \<Rightarrow> 's \<Rightarrow> bool" where
  "sv_same v s s' \<longleftrightarrow> sv_content v s' = sv_content v s \<and> sv_pos v s' = sv_pos v s \<and> sv_images v s' \<subseteq> sv_images v s \<and>
     sv_fd v s' = sv_fd v s \<and> sv_named v s' = sv_named v s"

definition snap_target :: "'s provider \<Rightarrow> bytes \<Rightarrow> 's snap_view \<Rightarrow> bool" where
  "snap_target call path v \<longleftrightarrow>
     (\<forall>s fd op arg s' rc buf. call s fd op arg = (s', rc, buf) \<longrightarrow>
        (op = FS_UNLINK \<and> arg = path \<and> \<not> fs_pending rc \<longrightarrow> sv_content v s' = [] \<and> sv_images v s' \<subseteq> {[]}) \<and>
        (op = FS_OPEN_CREATE \<and> arg = path \<and> sv_content v s = [] \<and> sv_images v s \<subseteq> {[]} \<longrightarrow>
           sv_content v s' = [] \<and> sv_images v s' \<subseteq> {[]} \<and> (rc \<ge> 0 \<longrightarrow> sv_fd v s' = rc \<and> sv_pos v s' = 0)) \<and>
        (op = FS_WRITE \<and> fd = sv_fd v s \<and> sv_pos v s \<le> length (sv_content v s) \<longrightarrow>
           rc \<le> int (length arg) \<and> (rc < 0 \<longrightarrow> sv_same v s s') \<and>
           (rc \<ge> 0 \<longrightarrow> sv_fd v s' = sv_fd v s \<and> sv_pos v s' = sv_pos v s + nat rc \<and>
              sv_content v s' = take (sv_pos v s) (sv_content v s) @ take (nat rc) arg
                                @ drop (sv_pos v s + nat rc) (sv_content v s) \<and>
              (\<forall>c\<in>sv_images v s'. \<exists>a\<in>sv_images v s. mixed a (sv_content v s') c))) \<and>
        (op = FS_FSYNC \<and> fd = sv_fd v s \<longrightarrow>
           sv_same v s s' \<and> (rc \<ge> 0 \<longrightarrow> sv_images v s' \<subseteq> {sv_content v s})) \<and>
        (op = FS_SEEK \<and> fd = sv_fd v s \<longrightarrow>
           sv_content v s' = sv_content v s \<and> sv_images v s' \<subseteq> sv_images v s \<and> sv_fd v s' = sv_fd v s \<and>
           (rc \<ge> 0 \<longrightarrow> sv_pos v s' = unat (from_le arg :: u32))) \<and>
        (op = FS_FSYNC_NAME \<and> arg = path \<longrightarrow>
           sv_content v s' = sv_content v s \<and> sv_images v s' \<subseteq> sv_images v s \<and> sv_fd v s' = sv_fd v s \<and>
           (rc \<ge> 0 \<longrightarrow> sv_named v s')) \<and>
        (op = FS_CLOSE \<longrightarrow>
           sv_content v s' = sv_content v s \<and> sv_images v s' \<subseteq> sv_images v s \<and> sv_named v s' = sv_named v s))"

lemma target_laws:
  assumes "snap_target call path v" "call s fd op arg = (s', rc, buf)"
  shows tg_unlink: "op = FS_UNLINK \<Longrightarrow> arg = path \<Longrightarrow> \<not> fs_pending rc \<Longrightarrow> sv_content v s' = [] \<and> sv_images v s' \<subseteq> {[]}"
    and tg_create: "op = FS_OPEN_CREATE \<Longrightarrow> arg = path \<Longrightarrow> sv_content v s = [] \<Longrightarrow> sv_images v s \<subseteq> {[]} \<Longrightarrow>
        sv_content v s' = [] \<and> sv_images v s' \<subseteq> {[]} \<and> (rc \<ge> 0 \<longrightarrow> sv_fd v s' = rc \<and> sv_pos v s' = 0)"
    and tg_write: "op = FS_WRITE \<Longrightarrow> fd = sv_fd v s \<Longrightarrow> sv_pos v s \<le> length (sv_content v s) \<Longrightarrow>
        rc \<le> int (length arg) \<and> (rc < 0 \<longrightarrow> sv_same v s s') \<and>
        (rc \<ge> 0 \<longrightarrow> sv_fd v s' = sv_fd v s \<and> sv_pos v s' = sv_pos v s + nat rc \<and>
           sv_content v s' = take (sv_pos v s) (sv_content v s) @ take (nat rc) arg @ drop (sv_pos v s + nat rc) (sv_content v s) \<and>
           (\<forall>c\<in>sv_images v s'. \<exists>a\<in>sv_images v s. mixed a (sv_content v s') c))"
    and tg_fsync: "op = FS_FSYNC \<Longrightarrow> fd = sv_fd v s \<Longrightarrow> sv_same v s s' \<and> (rc \<ge> 0 \<longrightarrow> sv_images v s' \<subseteq> {sv_content v s})"
    and tg_seek: "op = FS_SEEK \<Longrightarrow> fd = sv_fd v s \<Longrightarrow>
        sv_content v s' = sv_content v s \<and> sv_images v s' \<subseteq> sv_images v s \<and> sv_fd v s' = sv_fd v s \<and>
        (rc \<ge> 0 \<longrightarrow> sv_pos v s' = unat (from_le arg :: u32))"
    and tg_name: "op = FS_FSYNC_NAME \<Longrightarrow> arg = path \<Longrightarrow>
        sv_content v s' = sv_content v s \<and> sv_images v s' \<subseteq> sv_images v s \<and> sv_fd v s' = sv_fd v s \<and> (rc \<ge> 0 \<longrightarrow> sv_named v s')"
    and tg_close: "op = FS_CLOSE \<Longrightarrow>
        sv_content v s' = sv_content v s \<and> sv_images v s' \<subseteq> sv_images v s \<and> sv_named v s' = sv_named v s"
proof -
  note law = assms(1) [unfolded snap_target_def, THEN spec, THEN spec, THEN spec, THEN spec, THEN spec, THEN spec, THEN spec,
      THEN mp, OF assms(2)]
  show "op = FS_UNLINK \<Longrightarrow> arg = path \<Longrightarrow> \<not> fs_pending rc \<Longrightarrow> sv_content v s' = [] \<and> sv_images v s' \<subseteq> {[]}"
    using law [THEN conjunct1] by blast
  show "op = FS_OPEN_CREATE \<Longrightarrow> arg = path \<Longrightarrow> sv_content v s = [] \<Longrightarrow> sv_images v s \<subseteq> {[]} \<Longrightarrow>
        sv_content v s' = [] \<and> sv_images v s' \<subseteq> {[]} \<and> (rc \<ge> 0 \<longrightarrow> sv_fd v s' = rc \<and> sv_pos v s' = 0)"
    using law [THEN conjunct2, THEN conjunct1] by blast
  show "op = FS_WRITE \<Longrightarrow> fd = sv_fd v s \<Longrightarrow> sv_pos v s \<le> length (sv_content v s) \<Longrightarrow>
        rc \<le> int (length arg) \<and> (rc < 0 \<longrightarrow> sv_same v s s') \<and>
        (rc \<ge> 0 \<longrightarrow> sv_fd v s' = sv_fd v s \<and> sv_pos v s' = sv_pos v s + nat rc \<and>
           sv_content v s' = take (sv_pos v s) (sv_content v s) @ take (nat rc) arg @ drop (sv_pos v s + nat rc) (sv_content v s) \<and>
           (\<forall>c\<in>sv_images v s'. \<exists>a\<in>sv_images v s. mixed a (sv_content v s') c))"
    using law [THEN conjunct2, THEN conjunct2, THEN conjunct1] by blast
  show "op = FS_FSYNC \<Longrightarrow> fd = sv_fd v s \<Longrightarrow> sv_same v s s' \<and> (rc \<ge> 0 \<longrightarrow> sv_images v s' \<subseteq> {sv_content v s})"
    using law [THEN conjunct2, THEN conjunct2, THEN conjunct2, THEN conjunct1] by blast
  show "op = FS_SEEK \<Longrightarrow> fd = sv_fd v s \<Longrightarrow>
        sv_content v s' = sv_content v s \<and> sv_images v s' \<subseteq> sv_images v s \<and> sv_fd v s' = sv_fd v s \<and>
        (rc \<ge> 0 \<longrightarrow> sv_pos v s' = unat (from_le arg :: u32))"
    using law [THEN conjunct2, THEN conjunct2, THEN conjunct2, THEN conjunct2, THEN conjunct1] by blast
  show "op = FS_FSYNC_NAME \<Longrightarrow> arg = path \<Longrightarrow>
        sv_content v s' = sv_content v s \<and> sv_images v s' \<subseteq> sv_images v s \<and> sv_fd v s' = sv_fd v s \<and> (rc \<ge> 0 \<longrightarrow> sv_named v s')"
    using law [THEN conjunct2, THEN conjunct2, THEN conjunct2, THEN conjunct2, THEN conjunct2, THEN conjunct1] by blast
  show "op = FS_CLOSE \<Longrightarrow>
        sv_content v s' = sv_content v s \<and> sv_images v s' \<subseteq> sv_images v s \<and> sv_named v s' = sv_named v s"
    using law [THEN conjunct2, THEN conjunct2, THEN conjunct2, THEN conjunct2, THEN conjunct2, THEN conjunct2] by blast
qed

section \<open>Images\<close>

definition snap_body :: "snap_record list \<Rightarrow> bytes" where
  "snap_body recs = concat (map snap_bytes recs)"

definition unmarked :: "bytes \<Rightarrow> bool" where
  "unmarked b \<longleftrightarrow> (\<forall>i < 4. i < length b \<longrightarrow> b ! i = 0)"

definition half_headed :: "bytes \<Rightarrow> bytes \<Rightarrow> bytes \<Rightarrow> bool" where
  "half_headed hdr body b \<longleftrightarrow> length b = SNAP_HDR + length body \<and>
     (\<forall>i < length b. if i < SNAP_HDR then b ! i = 0 \<or> b ! i = hdr ! i else b ! i = body ! (i - SNAP_HDR))"

lemma unmarked_mixed: "unmarked a \<Longrightarrow> unmarked b \<Longrightarrow> mixed a b c \<Longrightarrow> unmarked c"
  unfolding unmarked_def mixed_def by metis

lemma half_headed_mixed:
  assumes a: "half_headed hdr body a" and b: "half_headed hdr body b" and m: "mixed a b c"
  shows "half_headed hdr body c"
proof -
  have len: "length c = SNAP_HDR + length body" "length a = length c" "length b = length c"
    using assms by (simp_all add: half_headed_def mixed_def)
  have "c ! i = a ! i \<or> c ! i = b ! i" if "i < length c" for i using m len that by (auto simp: mixed_def)
  then show ?thesis using a b len unfolding half_headed_def by metis
qed

lemma unmarked_prefix: "unmarked (a @ b) \<Longrightarrow> unmarked a"
  by (auto simp: unmarked_def nth_append)

lemma unmarked_zeros: "unmarked (replicate SNAP_HDR 0 @ b)"
  by (simp add: unmarked_def SNAP_HDR_def nth_append)

lemma half_headed_take:
  "length hdr = SNAP_HDR \<Longrightarrow> n \<le> SNAP_HDR \<Longrightarrow> half_headed hdr body (take n hdr @ replicate (SNAP_HDR - n) 0 @ body)"
  by (auto simp: half_headed_def nth_append)

section \<open>Histories of one generation\<close>

definition sw_wf :: "profile \<Rightarrow> snap_writer \<Rightarrow> bool" where
  "sw_wf p w \<longleftrightarrow> length (sw_stage w) = REC_SIZE p \<and> length (sw_path_bytes w) = SNAP_PATH_MAX"

inductive snap_hist :: "profile \<Rightarrow> 's provider \<Rightarrow> 's snap_view \<Rightarrow> bytes \<Rightarrow> u64 \<Rightarrow> snap_record list \<Rightarrow> snap_writer \<Rightarrow> 's \<Rightarrow> bool"
  for p call v path g where
  started: "sw_wf p w0 \<Longrightarrow> sw_start path g w0 = (w, True) \<Longrightarrow> snap_hist p call v path g [] w s"
| opened: "snap_hist p call v path g recs w s \<Longrightarrow> sw_poll_open p call w s = (w', s', r) \<Longrightarrow> snap_hist p call v path g recs w' s'"
| staged: "snap_hist p call v path g recs w s \<Longrightarrow> snap_ok p x \<Longrightarrow> sw_stage_record p x w = (w', True) \<Longrightarrow>
    snap_hist p call v path g (recs @ [x]) w' s"
| flushed: "snap_hist p call v path g recs w s \<Longrightarrow> sw_flush p call w s = (w', s', r) \<Longrightarrow> snap_hist p call v path g recs w' s'"
| finished: "snap_hist p call v path g recs w s \<Longrightarrow> sw_poll_finish p call w s = (w', s', r) \<Longrightarrow> snap_hist p call v path g recs w' s'"
| waited: "snap_hist p call v path g recs w s \<Longrightarrow> sv_same v s s' \<Longrightarrow> snap_hist p call v path g recs w s'"

text \<open>The invariant.  While records stream, what the file holds and what the stage still owes
  are together the placeholder and the records staged so far.\<close>

definition sw_owed :: "snap_writer \<Rightarrow> bytes" where
  "sw_owed w = sub_slice (sw_stage w) (sw_stage_written w) (sw_stage_len w - sw_stage_written w)"

definition placeholder :: bytes where "placeholder = replicate SNAP_HDR 0"

definition sw_streams :: "profile \<Rightarrow> 's snap_view \<Rightarrow> snap_record list \<Rightarrow> snap_writer \<Rightarrow> 's \<Rightarrow> bool" where
  "sw_streams p v recs w s \<longleftrightarrow>
     sw_stage_written w \<le> sw_stage_len w \<and> sw_stage_len w \<le> REC_SIZE p \<and> sv_pos v s = length (sv_content v s) \<and>
     sv_content v s @ sw_owed w = placeholder @ snap_body recs \<and> (\<forall>b\<in>sv_images v s. unmarked b)"

definition sw_heads :: "'s snap_view \<Rightarrow> snap_record list \<Rightarrow> snap_writer \<Rightarrow> 's \<Rightarrow> bool" where
  "sw_heads v recs w s \<longleftrightarrow>
     sw_stage_len w = SNAP_HDR \<and> sw_stage_written w \<le> SNAP_HDR \<and> take SNAP_HDR (sw_stage w) = sw_header w \<and>
     sv_pos v s = sw_stage_written w \<and>
     sv_content v s = take (sw_stage_written w) (sw_header w) @ replicate (SNAP_HDR - sw_stage_written w) 0 @ snap_body recs \<and>
     (\<forall>b\<in>sv_images v s. half_headed (sw_header w) (snap_body recs) b)"

definition sw_at :: "profile \<Rightarrow> 's snap_view \<Rightarrow> bytes \<Rightarrow> snap_record list \<Rightarrow> snap_writer \<Rightarrow> 's \<Rightarrow> bool" where
  "sw_at p v path recs w s =
     (case sw_phase w of
        W_IDLE \<Rightarrow> True
      | W_UNLINK \<Rightarrow> recs = [] \<and> sw_path w = path
      | W_CREATE \<Rightarrow> recs = [] \<and> sw_path w = path \<and> sv_content v s = [] \<and> sv_images v s \<subseteq> {[]}
      | W_PLACEHOLDER \<Rightarrow> recs = [] \<and> sw_streams p v recs w s
      | W_RECORDS \<Rightarrow> sw_streams p v recs w s
      | W_FSYNC_RECORDS \<Rightarrow> sv_content v s = placeholder @ snap_body recs \<and> (\<forall>b\<in>sv_images v s. unmarked b)
      | W_SEEK \<Rightarrow> sv_content v s = placeholder @ snap_body recs \<and> sv_images v s \<subseteq> {placeholder @ snap_body recs}
      | W_HEADER \<Rightarrow> sw_heads v recs w s
      | W_FSYNC_HEADER \<Rightarrow> sv_content v s = sw_header w @ snap_body recs \<and>
          (\<forall>b\<in>sv_images v s. half_headed (sw_header w) (snap_body recs) b)
      | W_NAME \<Rightarrow> sv_images v s \<subseteq> {sw_header w @ snap_body recs}
      | W_DONE \<Rightarrow> sv_images v s \<subseteq> {sw_header w @ snap_body recs} \<and> sv_named v s)"

definition sw_inv :: "profile \<Rightarrow> 's snap_view \<Rightarrow> bytes \<Rightarrow> u64 \<Rightarrow> snap_record list \<Rightarrow> snap_writer \<Rightarrow> 's \<Rightarrow> bool" where
  "sw_inv p v path g recs w s \<longleftrightarrow>
     sw_wf p w \<and> (sw_phase w \<noteq> W_IDLE \<longrightarrow> sw_path w = path \<and> sw_generation w = g \<and> sw_count w = word_of_nat (length recs)) \<and>
     (\<forall>x\<in>set recs. snap_ok p x) \<and>
     (sw_phase w \<in> {W_PLACEHOLDER, W_RECORDS, W_FSYNC_RECORDS, W_SEEK, W_HEADER, W_FSYNC_HEADER} \<longrightarrow>
        sv_fd v s = sw_fd_plus1 w - 1) \<and>
     sw_at p v path recs w s"

lemma phase_frames [simp]:
  "sw_streams p v recs (w\<lparr>sw_phase := ph\<rparr>) s = sw_streams p v recs w s"
  "sw_wf p (w\<lparr>sw_phase := ph\<rparr>) = sw_wf p w"
  "sw_path (w\<lparr>sw_phase := ph\<rparr>) = sw_path w"
  by (simp_all add: sw_streams_def sw_owed_def sw_wf_def sw_path_def)

lemma header_fits: "SNAP_HDR \<le> REC_SIZE p"
  by (simp add: SNAP_HDR_def REC_SIZE_def)

lemma length_sw_header [simp]: "length (sw_header w) = SNAP_HDR"
  by (simp add: sw_header_def SNAP_HDR_def)

lemma sw_start_inv:
  assumes "sw_wf p w0" "sw_start path g w0 = (w, True)"
  shows "sw_inv p v path g [] w s" "sw_phase w = W_UNLINK"
proof -
  have "length path \<le> SNAP_PATH_MAX" using assms(2) by (auto simp: sw_start_def split: if_splits)
  then have "unat (word_of_nat (length path) :: u16) = length path"
    by (intro unat_of_nat_small) (simp add: SNAP_PATH_MAX_def WAL_PATH_BUF_def SNAP_SUFFIX_LEN_def)
  then show "sw_inv p v path g [] w s" "sw_phase w = W_UNLINK"
    using assms \<open>length path \<le> SNAP_PATH_MAX\<close>
    by (auto simp: sw_start_def sw_inv_def sw_at_def sw_wf_def sw_path_def copy_prefix_def min_def split: if_splits)
qed

section \<open>Draining the stage\<close>

text \<open>One loop, two uses: bytes appended at the end of the file, and the header over the
  placeholder.  In both the invariant is kept after each call and nothing is owed at the end.\<close>

lemma drain_stage_keeps:
  assumes step: "\<And>w s s' rc buf. K w s \<Longrightarrow> sw_stage_written w < min (sw_stage_len w) (REC_SIZE p) \<Longrightarrow>
      call s (sw_fd_plus1 w - 1) FS_WRITE (sub_slice (sw_stage w) (sw_stage_written w)
         (min (sw_stage_len w) (REC_SIZE p) - sw_stage_written w)) = (s', rc, buf) \<Longrightarrow>
      (rc \<le> 0 \<longrightarrow> K w s') \<and>
      (rc > 0 \<longrightarrow> K (w\<lparr>sw_stage_written := sw_stage_written w
         + min (nat rc) (min (sw_stage_len w) (REC_SIZE p) - sw_stage_written w)\<rparr>) s')"
  shows "drain_stage p call w s = (w', s', r) \<Longrightarrow> K w s \<Longrightarrow>
    (r = WrReady \<longrightarrow> (\<exists>w1. K w1 s' \<and> min (sw_stage_len w1) (REC_SIZE p) \<le> sw_stage_written w1 \<and>
        w' = w1\<lparr>sw_stage_len := 0, sw_stage_written := 0\<rparr>)) \<and>
    (r \<noteq> WrReady \<longrightarrow> K w' s')"
proof (induction "min (sw_stage_len w) (REC_SIZE p) - sw_stage_written w" arbitrary: w s rule: less_induct)
  case less
  define n where "n = min (sw_stage_len w) (REC_SIZE p) - sw_stage_written w"
  obtain s1 rc buf where
    c: "call s (sw_fd_plus1 w - 1) FS_WRITE (sub_slice (sw_stage w) (sw_stage_written w) n) = (s1, rc, buf)"
    by (metis prod_cases3)
  define w1 where "w1 = w\<lparr>sw_stage_written := sw_stage_written w + min (nat rc) n\<rparr>"
  have unf: "drain_stage p call w s =
      (if 0 < n then if fs_pending rc then (w, s1, WrPending) else if rc \<le> 0 then (w, s1, WrFailed)
         else drain_stage p call w1 s1
       else (w\<lparr>sw_stage_len := 0, sw_stage_written := 0\<rparr>, s, WrReady))"
    using c by (simp add: drain_stage.simps [of p call w s] n_def w1_def Let_def)
  note st = step [OF less(3), folded n_def, OF _ c]
  show ?case
  proof (cases "0 < n \<and> rc > 0")
    case True
    have lt: "min (sw_stage_len w1) (REC_SIZE p) - sw_stage_written w1 < min (sw_stage_len w) (REC_SIZE p) - sw_stage_written w"
      using True by (auto simp: w1_def n_def)
    have "K w1 s1" using st True by (simp add: w1_def n_def)
    moreover have "\<not> fs_pending rc" using True fs_pending_neg [of rc] by auto
    then have "drain_stage p call w1 s1 = (w', s', r)" using less(2) True by (simp add: unf)
    ultimately show ?thesis using less(1) [OF lt] by blast
  next
    case False
    then consider "n = 0" | "0 < n" "rc \<le> 0" by linarith
    then show ?thesis
    proof cases
      case 1
      then show ?thesis using less(2,3) by (auto simp: unf n_def)
    next
      case 2
      then show ?thesis using less(2) st by (auto simp: unf n_def split: if_splits)
    qed
  qed
qed

lemma streams_step:
  assumes tg: "snap_target call path v" and k: "sw_streams p v recs w s" "sw_wf p w" "sv_fd v s = sw_fd_plus1 w - 1"
    and more: "sw_stage_written w < min (sw_stage_len w) (REC_SIZE p)"
    and c: "call s (sw_fd_plus1 w - 1) FS_WRITE (sub_slice (sw_stage w) (sw_stage_written w)
        (min (sw_stage_len w) (REC_SIZE p) - sw_stage_written w)) = (s', rc, buf)"
  defines "w' \<equiv> w\<lparr>sw_stage_written := sw_stage_written w + min (nat rc) (min (sw_stage_len w) (REC_SIZE p) - sw_stage_written w)\<rparr>"
  shows "sv_fd v s' = sv_fd v s" "rc \<le> 0 \<Longrightarrow> sw_streams p v recs w s'" "rc > 0 \<Longrightarrow> sw_streams p v recs w' s'"
proof -
  note st = k(1) [unfolded sw_streams_def]
  have len: "min (sw_stage_len w) (REC_SIZE p) = sw_stage_len w" using st by simp
  have c1: "call s (sv_fd v s) FS_WRITE (sw_owed w) = (s', rc, buf)" using c k(3) by (simp add: len sw_owed_def)
  have owed: "length (sw_owed w) = sw_stage_len w - sw_stage_written w"
    using st k(2) more by (simp add: sw_owed_def length_sub_slice sw_wf_def)
  note wr = tg_write [OF tg c1 refl refl, unfolded owed]
  have pos: "sv_pos v s \<le> length (sv_content v s)" using st by simp
  show fd: "sv_fd v s' = sv_fd v s" using wr [OF pos] by (cases "rc < 0") (simp_all add: sv_same_def)
  define n where "n = nat rc"
  have moved: "sv_content v s' = sv_content v s @ take n (sw_owed w)" "sv_pos v s' = length (sv_content v s')"
    "\<forall>c\<in>sv_images v s'. \<exists>a\<in>sv_images v s. mixed a (sv_content v s') c" "n \<le> length (sw_owed w)" if "rc \<ge> 0"
  proof -
    have "rc \<le> int (length (sw_owed w))" using wr [OF pos] by (simp add: owed)
    then show n: "n \<le> length (sw_owed w)" using that by (simp add: n_def nat_le_iff)
    note w = wr [OF pos, THEN conjunct2, THEN conjunct2, rule_format, OF that, folded n_def]
    show ct: "sv_content v s' = sv_content v s @ take n (sw_owed w)" using w st by simp
    show "sv_pos v s' = length (sv_content v s')" using w st n unfolding ct by simp
    show "\<forall>c\<in>sv_images v s'. \<exists>a\<in>sv_images v s. mixed a (sv_content v s') c" using w by blast
  qed
  have un: "\<forall>b\<in>sv_images v s'. unmarked b" if "rc \<ge> 0"
  proof -
    have "sv_content v s' @ drop n (sw_owed w) = placeholder @ snap_body recs" using moved(1) [OF that] st by simp
    then have "unmarked (sv_content v s')"
      using unmarked_zeros [of "snap_body recs"] unmarked_prefix by (metis placeholder_def)
    then show ?thesis using moved(3) [OF that] st unmarked_mixed by blast
  qed
  show "sw_streams p v recs w s'" if "rc \<le> 0"
  proof (cases "rc = 0")
    case True
    then show ?thesis using moved un st by (simp add: sw_streams_def n_def)
  next
    case False
    then show ?thesis using wr [OF pos] st that by (auto simp: sw_streams_def sv_same_def)
  qed
  show "sw_streams p v recs w' s'" if "rc > 0"
  proof -
    have w': "sw_stage_written w' = sw_stage_written w + n" "sw_stage_len w' = sw_stage_len w" "sw_stage w' = sw_stage w"
      using moved(4) that owed by (simp_all add: w'_def len n_def)
    have "sw_owed w' = drop n (sw_owed w)" by (simp add: sw_owed_def w' sub_slice_def drop_take add.commute)
    then have "sw_owed w = take n (sw_owed w) @ sw_owed w'" by simp
    then have "sv_content v s' @ sw_owed w' = sv_content v s @ sw_owed w" using moved(1) that by simp
    moreover have "sw_stage_written w + n \<le> sw_stage_len w"
      using moved(4) that owed more unfolding len by (simp add: le_diff_conv2 add.commute)
    ultimately show ?thesis using st moved that un by (simp add: sw_streams_def w')
  qed
qed

lemma heads_step:
  assumes tg: "snap_target call path v" and k: "sw_heads v recs w s" "sw_wf p w" "sv_fd v s = sw_fd_plus1 w - 1"
    and more: "sw_stage_written w < min (sw_stage_len w) (REC_SIZE p)"
    and c: "call s (sw_fd_plus1 w - 1) FS_WRITE (sub_slice (sw_stage w) (sw_stage_written w)
        (min (sw_stage_len w) (REC_SIZE p) - sw_stage_written w)) = (s', rc, buf)"
  defines "w' \<equiv> w\<lparr>sw_stage_written := sw_stage_written w + min (nat rc) (min (sw_stage_len w) (REC_SIZE p) - sw_stage_written w)\<rparr>"
  shows "sv_fd v s' = sv_fd v s" "rc \<le> 0 \<Longrightarrow> sw_heads v recs w s'" "rc > 0 \<Longrightarrow> sw_heads v recs w' s'"
proof -
  note st = k(1) [unfolded sw_heads_def]
  define f where "f = sw_stage_written w"
  define n where "n = nat rc"
  have len: "min (sw_stage_len w) (REC_SIZE p) = SNAP_HDR" using st header_fits [of p] by simp
  have f: "f < SNAP_HDR" using more len by (simp add: f_def)
  have "sub_slice (sw_stage w) f (SNAP_HDR - f) = drop f (take SNAP_HDR (sw_stage w))" by (simp add: sub_slice_def drop_take)
  then have owed: "sub_slice (sw_stage w) f (SNAP_HDR - f) = drop f (sw_header w)" using st by simp
  have c1: "call s (sv_fd v s) FS_WRITE (drop f (sw_header w)) = (s', rc, buf)"
    using c k(3) unfolding len f_def [symmetric] owed by simp
  have ct: "sv_content v s = take f (sw_header w) @ replicate (SNAP_HDR - f) 0 @ snap_body recs" "sv_pos v s = f"
    using st by (simp_all add: f_def)
  have pos: "sv_pos v s \<le> length (sv_content v s)" using f by (simp add: ct)
  note wr = tg_write [OF tg c1 refl refl pos]
  show "sv_fd v s' = sv_fd v s" using wr by (cases "rc < 0") (simp_all add: sv_same_def)
  have hd: "take (f + m) (sw_header w) = take f (sw_header w) @ take m (drop f (sw_header w))" for m by (rule take_add)
  have moved: "n \<le> SNAP_HDR - f" "sv_pos v s' = f + n"
    "sv_content v s' = take (f + n) (sw_header w) @ replicate (SNAP_HDR - (f + n)) 0 @ snap_body recs"
    "\<forall>b\<in>sv_images v s'. half_headed (sw_header w) (snap_body recs) b" if "rc \<ge> 0"
  proof -
    have "rc \<le> int (SNAP_HDR - f)" using wr by simp
    then show n: "n \<le> SNAP_HDR - f" using that by (simp add: n_def nat_le_iff)
    note w = wr [THEN conjunct2, THEN conjunct2, rule_format, OF that, folded n_def]
    show "sv_pos v s' = f + n" using w ct(2) by simp
    have "drop (f + n) (sv_content v s) = replicate (SNAP_HDR - (f + n)) 0 @ snap_body recs"
      using n f by (simp add: ct(1) min_def)
    then show c2: "sv_content v s' = take (f + n) (sw_header w) @ replicate (SNAP_HDR - (f + n)) 0 @ snap_body recs"
      using w f by (simp add: ct hd min_def)
    have "half_headed (sw_header w) (snap_body recs) (sv_content v s')"
      unfolding c2 using n f by (intro half_headed_take) simp_all
    then show "\<forall>b\<in>sv_images v s'. half_headed (sw_header w) (snap_body recs) b"
      using w st half_headed_mixed by blast
  qed
  show "sw_heads v recs w s'" if "rc \<le> 0"
  proof (cases "rc = 0")
    case True
    then show ?thesis using moved st ct by (simp add: sw_heads_def n_def f_def)
  next
    case False
    then show ?thesis using wr st that by (auto simp: sw_heads_def sv_same_def)
  qed
  show "sw_heads v recs w' s'" if "rc > 0"
  proof -
    have "w' = w\<lparr>sw_stage_written := f + n\<rparr>" using moved(1) that by (simp add: w'_def len n_def f_def)
    then show ?thesis using st moved that f by (simp add: sw_heads_def sw_header_def)
  qed
qed

lemma drain_streams:
  assumes tg: "snap_target call path v" and run: "drain_stage p call w s = (w', s', r)"
    and k: "sw_streams p v recs w s" "sw_wf p w" "sv_fd v s = sw_fd_plus1 w - 1"
  shows "sw_streams p v recs w' s'" "sw_wf p w'" "sv_fd v s' = sw_fd_plus1 w' - 1"
    and "sw_phase w' = sw_phase w" "sw_path w' = sw_path w" "sw_generation w' = sw_generation w" "sw_count w' = sw_count w"
    and "r = WrReady \<Longrightarrow> sw_stage_len w' = 0"
proof -
  define K where "K = (\<lambda>w1 s1. sw_streams p v recs w1 s1 \<and> sw_wf p w1 \<and> sv_fd v s1 = sw_fd_plus1 w1 - 1 \<and>
      sw_phase w1 = sw_phase w \<and> sw_path w1 = sw_path w \<and> sw_generation w1 = sw_generation w \<and> sw_count w1 = sw_count w)"
  have "(r = WrReady \<longrightarrow> (\<exists>w1. K w1 s' \<and> min (sw_stage_len w1) (REC_SIZE p) \<le> sw_stage_written w1 \<and>
        w' = w1\<lparr>sw_stage_len := 0, sw_stage_written := 0\<rparr>)) \<and> (r \<noteq> WrReady \<longrightarrow> K w' s')"
  proof (rule drain_stage_keeps [OF _ run])
    show "K w s" using k by (simp add: K_def)
    show "(rc \<le> 0 \<longrightarrow> K u t') \<and> (rc > 0 \<longrightarrow> K (u\<lparr>sw_stage_written := sw_stage_written u
         + min (nat rc) (min (sw_stage_len u) (REC_SIZE p) - sw_stage_written u)\<rparr>) t')"
      if "K u t" and more: "sw_stage_written u < min (sw_stage_len u) (REC_SIZE p)"
        and c: "call t (sw_fd_plus1 u - 1) FS_WRITE (sub_slice (sw_stage u) (sw_stage_written u)
         (min (sw_stage_len u) (REC_SIZE p) - sw_stage_written u)) = (t', rc, buf)" for u t t' rc buf
    proof -
      have ku: "sw_streams p v recs u t" "sw_wf p u" "sv_fd v t = sw_fd_plus1 u - 1" using that(1) by (simp_all add: K_def)
      show ?thesis using streams_step [OF tg ku more c] that(1) by (auto simp: K_def sw_wf_def sw_path_def)
    qed
  qed
  moreover have "K (w1\<lparr>sw_stage_len := 0, sw_stage_written := 0\<rparr>) s'"
    if "K w1 s'" "min (sw_stage_len w1) (REC_SIZE p) \<le> sw_stage_written w1" for w1
    using that by (auto simp: K_def sw_streams_def sw_wf_def sw_path_def sw_owed_def sub_slice_def)
  ultimately have "K w' s'" and "r = WrReady \<longrightarrow> sw_stage_len w' = 0" by (cases r; fastforce)+
  then show "sw_streams p v recs w' s'" "sw_wf p w'" "sv_fd v s' = sw_fd_plus1 w' - 1"
    "sw_phase w' = sw_phase w" "sw_path w' = sw_path w" "sw_generation w' = sw_generation w" "sw_count w' = sw_count w"
    "r = WrReady \<Longrightarrow> sw_stage_len w' = 0"
    by (simp_all add: K_def)
qed

lemma drain_heads:
  assumes tg: "snap_target call path v" and run: "drain_stage p call w s = (w', s', r)"
    and k: "sw_heads v recs w s" "sw_wf p w" "sv_fd v s = sw_fd_plus1 w - 1"
  shows "sw_wf p w'" "sv_fd v s' = sw_fd_plus1 w' - 1"
    and "sw_phase w' = sw_phase w" "sw_path w' = sw_path w" "sw_generation w' = sw_generation w" "sw_count w' = sw_count w"
    and "r \<noteq> WrReady \<Longrightarrow> sw_heads v recs w' s'"
    and "r = WrReady \<Longrightarrow> sv_content v s' = sw_header w' @ snap_body recs \<and>
      (\<forall>b\<in>sv_images v s'. half_headed (sw_header w') (snap_body recs) b)"
proof -
  define K where "K = (\<lambda>w1 s1. sw_heads v recs w1 s1 \<and> sw_wf p w1 \<and> sv_fd v s1 = sw_fd_plus1 w1 - 1 \<and>
      sw_phase w1 = sw_phase w \<and> sw_path w1 = sw_path w \<and> sw_generation w1 = sw_generation w \<and> sw_count w1 = sw_count w)"
  have main: "(r = WrReady \<longrightarrow> (\<exists>w1. K w1 s' \<and> min (sw_stage_len w1) (REC_SIZE p) \<le> sw_stage_written w1 \<and>
        w' = w1\<lparr>sw_stage_len := 0, sw_stage_written := 0\<rparr>)) \<and> (r \<noteq> WrReady \<longrightarrow> K w' s')"
  proof (rule drain_stage_keeps [OF _ run])
    show "K w s" using k by (simp add: K_def)
    show "(rc \<le> 0 \<longrightarrow> K u t') \<and> (rc > 0 \<longrightarrow> K (u\<lparr>sw_stage_written := sw_stage_written u
         + min (nat rc) (min (sw_stage_len u) (REC_SIZE p) - sw_stage_written u)\<rparr>) t')"
      if "K u t" and more: "sw_stage_written u < min (sw_stage_len u) (REC_SIZE p)"
        and c: "call t (sw_fd_plus1 u - 1) FS_WRITE (sub_slice (sw_stage u) (sw_stage_written u)
         (min (sw_stage_len u) (REC_SIZE p) - sw_stage_written u)) = (t', rc, buf)" for u t t' rc buf
    proof -
      have ku: "sw_heads v recs u t" "sw_wf p u" "sv_fd v t = sw_fd_plus1 u - 1" using that(1) by (simp_all add: K_def)
      show ?thesis using heads_step [OF tg ku more c] that(1) by (auto simp: K_def sw_wf_def sw_path_def)
    qed
  qed
  have "sw_wf p w' \<and> sv_fd v s' = sw_fd_plus1 w' - 1 \<and> sw_phase w' = sw_phase w \<and> sw_path w' = sw_path w \<and>
      sw_generation w' = sw_generation w \<and> sw_count w' = sw_count w \<and> (r \<noteq> WrReady \<longrightarrow> sw_heads v recs w' s') \<and>
      (r = WrReady \<longrightarrow> sv_content v s' = sw_header w' @ snap_body recs \<and>
      (\<forall>b\<in>sv_images v s'. half_headed (sw_header w') (snap_body recs) b))"
  proof (cases "r = WrReady")
    case True
    then obtain w1 where w1: "K w1 s'" "min (sw_stage_len w1) (REC_SIZE p) \<le> sw_stage_written w1"
      "w' = w1\<lparr>sw_stage_len := 0, sw_stage_written := 0\<rparr>" using main by blast
    have "sw_stage_written w1 = SNAP_HDR" using w1(1,2) header_fits [of p] by (simp add: K_def sw_heads_def)
    moreover have "sw_header w' = sw_header w1" by (simp add: w1(3) sw_header_def)
    ultimately show ?thesis using w1(1,3) True by (simp add: K_def sw_heads_def sw_wf_def sw_path_def)
  qed (use main in \<open>simp add: K_def\<close>)
  then show "sw_wf p w'" "sv_fd v s' = sw_fd_plus1 w' - 1"
    and "sw_phase w' = sw_phase w" "sw_path w' = sw_path w" "sw_generation w' = sw_generation w" "sw_count w' = sw_count w"
    and "r \<noteq> WrReady \<Longrightarrow> sw_heads v recs w' s'"
    and "r = WrReady \<Longrightarrow> sv_content v s' = sw_header w' @ snap_body recs \<and>
      (\<forall>b\<in>sv_images v s'. half_headed (sw_header w') (snap_body recs) b)"
    by blast+
qed

section \<open>Every step keeps the invariant\<close>

lemma placeholder_streams:
  assumes "sv_content v s = []" "sv_images v s \<subseteq> {[]}" "sv_pos v s = 0" "sw_wf p w"
  shows "sw_streams p v [] (sw_stage_bytes p placeholder w) s" "sw_wf p (sw_stage_bytes p placeholder w)"
proof -
  have "take (REC_SIZE p) placeholder = placeholder" "min SNAP_HDR (REC_SIZE p) = SNAP_HDR"
    using header_fits [of p] by (simp_all add: placeholder_def)
  then show "sw_streams p v [] (sw_stage_bytes p placeholder w) s" "sw_wf p (sw_stage_bytes p placeholder w)"
    using assms header_fits [of p]
    by (auto simp: sw_streams_def sw_stage_bytes_def sw_owed_def placeholder_def snap_body_def unmarked_def sw_wf_def
        copy_prefix_def sub_slice_def)
qed

lemma open_step_inv:
  assumes tg: "snap_target call path v" and inv: "sw_inv p v path g recs w s" and st: "sw_open_step p call w s = (w', s', r)"
  shows "sw_inv p v path g recs w' s'"
proof (cases "sw_phase w")
  case W_UNLINK
  note i = inv [unfolded sw_inv_def sw_at_def W_UNLINK, simplified]
  obtain s1 rc buf where c: "call s (- 1) FS_UNLINK path = (s1, rc, buf)" by (metis prod_cases3)
  note ul = tg_unlink [OF tg c refl refl]
  show ?thesis
  proof (cases "fs_pending rc")
    case True
    then have "w' = w" "s' = s1" using st i by (simp_all add: sw_open_step_def W_UNLINK fs_unlink_def c)
    then show ?thesis using i by (simp add: sw_inv_def sw_at_def W_UNLINK)
  next
    case False
    then have "w' = w\<lparr>sw_phase := W_CREATE\<rparr>" "s' = s1" using st i by (simp_all add: sw_open_step_def W_UNLINK fs_unlink_def c)
    then show ?thesis using i ul False by (simp add: sw_inv_def sw_at_def sw_wf_def sw_path_def)
  qed
next
  case W_CREATE
  note i = inv [unfolded sw_inv_def sw_at_def W_CREATE, simplified]
  obtain s1 fd buf where c: "call s (- 1) FS_OPEN_CREATE path = (s1, fd, buf)" by (metis prod_cases3)
  note cr = tg_create [OF tg c refl refl]
  have e: "sv_content v s1 = []" "sv_images v s1 \<subseteq> {[]}" "fd \<ge> 0 \<Longrightarrow> sv_fd v s1 = fd \<and> sv_pos v s1 = 0" using cr i by simp_all
  define w1 where "w1 = w\<lparr>sw_fd_plus1 := fd + 1\<rparr>"
  have w1: "sw_wf p w1" using i by (simp add: w1_def sw_wf_def)
  have unf: "sw_open_step p call w s =
      (if fs_pending fd then (w, s1, Some WrPending) else if fd < 0 then (w\<lparr>sw_phase := W_IDLE\<rparr>, s1, Some WrFailed)
       else ((sw_stage_bytes p placeholder w1)\<lparr>sw_phase := W_PLACEHOLDER\<rparr>, s1, None))"
    using i by (simp add: sw_open_step_def W_CREATE c w1_def placeholder_def)
  consider "fs_pending fd" | "\<not> fs_pending fd" "fd < 0" | "\<not> fs_pending fd" "fd \<ge> 0" by linarith
  then show ?thesis
  proof cases
    case 1
    then have "w' = w" "s' = s1" using st by (simp_all add: unf)
    then show ?thesis using i e by (simp add: sw_inv_def sw_at_def W_CREATE)
  next
    case 2
    then show ?thesis using st i by (auto simp: unf sw_inv_def sw_at_def sw_wf_def)
  next
    case 3
    have pl: "sw_streams p v [] (sw_stage_bytes p placeholder w1) s1" "sw_wf p (sw_stage_bytes p placeholder w1)"
      by (rule placeholder_streams [OF e(1,2) _ w1]; use e(3) 3 in simp)+
    have "w' = (sw_stage_bytes p placeholder w1)\<lparr>sw_phase := W_PLACEHOLDER\<rparr>" "s' = s1" using st 3 by (simp_all add: unf)
    then show ?thesis
      using pl i e(3) 3
      by (simp add: sw_inv_def sw_at_def) (simp add: sw_stage_bytes_def w1_def sw_path_def)
  qed
next
  case W_PLACEHOLDER
  note i = inv [unfolded sw_inv_def sw_at_def W_PLACEHOLDER, simplified]
  obtain w1 s1 q where d: "drain_stage p call w s = (w1, s1, q)" by (metis prod_cases3)
  have e: "recs = []" using i by blast
  have "sw_streams p v [] w s" using i e by blast
  note ds = drain_streams [OF tg d this i [THEN conjunct1]]
  have "sw_streams p v [] w1 s1" "sw_wf p w1" "sv_fd v s1 = sw_fd_plus1 w1 - 1" "sw_phase w1 = W_PLACEHOLDER" "sw_path w1 = path"
    "sw_generation w1 = g" "sw_count w1 = 0"
    using ds i e by (simp_all add: W_PLACEHOLDER)
  moreover have "s' = s1" "w' = w1 \<or> w' = w1\<lparr>sw_phase := W_RECORDS\<rparr>"
    using st by (auto simp: sw_open_step_def W_PLACEHOLDER d split: write_poll.splits)
  ultimately show ?thesis by (auto simp: e sw_inv_def sw_at_def)
qed (use st inv in \<open>simp_all add: sw_open_step_def\<close>)

lemma finish_step_inv:
  assumes tg: "snap_target call path v" and inv: "sw_inv p v path g recs w s" and st: "sw_finish_step p call w s = (w', s', r)"
  shows "sw_inv p v path g recs w' s'"
    and "r = Some WrReady \<Longrightarrow> sw_phase w = W_DONE \<and> s' = s"
proof -
  show "r = Some WrReady \<Longrightarrow> sw_phase w = W_DONE \<and> s' = s"
    using st by (auto simp: sw_finish_step_def Let_def split: sw_phase.splits prod.splits if_splits write_poll.splits snap_read.splits)
  show "sw_inv p v path g recs w' s'"
  proof (cases "sw_phase w")
    case W_RECORDS
    note i = inv [unfolded sw_inv_def sw_at_def W_RECORDS, simplified]
    obtain w1 s1 q where d: "drain_stage p call w s = (w1, s1, q)" by (metis prod_cases3)
    note ds = drain_streams [OF tg d _ i [THEN conjunct1], of recs]
    have k: "sw_streams p v recs w1 s1" "sw_wf p w1" "sv_fd v s1 = sw_fd_plus1 w1 - 1" "sw_phase w1 = W_RECORDS" "sw_path w1 = path"
      "sw_generation w1 = g" "sw_count w1 = word_of_nat (length recs)" "q = WrReady \<Longrightarrow> sw_stage_len w1 = 0"
      using ds i by (simp_all add: W_RECORDS)
    show ?thesis
    proof (cases "q = WrReady")
      case True
      have "sw_owed w1 = []" using k(8) [OF True] by (simp add: sw_owed_def sub_slice_def)
      then have "sv_content v s1 = placeholder @ snap_body recs" using k(1) by (simp add: sw_streams_def)
      moreover have "w' = w1\<lparr>sw_phase := W_FSYNC_RECORDS\<rparr>" "s' = s1" using st True by (simp_all add: sw_finish_step_def W_RECORDS d)
      ultimately show ?thesis using i k by (simp add: sw_inv_def sw_at_def sw_streams_def sw_wf_def sw_path_def)
    next
      case False
      then have "w' = w1" "s' = s1" using st by (auto simp: sw_finish_step_def W_RECORDS d split: write_poll.splits)
      then show ?thesis using i k by (simp add: sw_inv_def sw_at_def)
    qed
  next
    case W_FSYNC_RECORDS
    note i = inv [unfolded sw_inv_def sw_at_def W_FSYNC_RECORDS, simplified]
    obtain s1 rc buf where c: "call s (sv_fd v s) FS_FSYNC [] = (s1, rc, buf)" by (metis prod_cases3)
    note fs = tg_fsync [OF tg c refl refl]
    show ?thesis
    proof (cases "rc \<ge> 0")
      case True
      then have "w' = w\<lparr>sw_phase := W_SEEK\<rparr>" "s' = s1"
        using st i c fs_pending_neg [of rc] by (auto simp: sw_finish_step_def W_FSYNC_RECORDS split: if_splits)
      then show ?thesis using i fs True by (simp add: sw_inv_def sw_at_def sv_same_def sw_wf_def sw_path_def)
    next
      case False
      then have "w' = w" "s' = s1" using st i c by (auto simp: sw_finish_step_def W_FSYNC_RECORDS split: if_splits)
      then show ?thesis using i fs by (auto simp: sw_inv_def sw_at_def sv_same_def W_FSYNC_RECORDS)
    qed
  next
    case W_SEEK
    note i = inv [unfolded sw_inv_def sw_at_def W_SEEK, simplified]
    obtain s1 rc buf where c: "call s (sv_fd v s) FS_SEEK (le_bytes 4 (0 :: u32)) = (s1, rc, buf)" by (metis prod_cases3)
    note sk = tg_seek [OF tg c refl refl]
    have img: "sv_images v s1 \<subseteq> {placeholder @ snap_body recs}" using sk i by blast
    have half: "half_headed h (snap_body recs) (placeholder @ snap_body recs)" if "length h = SNAP_HDR" for h
      using half_headed_take [of h 0 "snap_body recs"] that by (simp add: placeholder_def)
    have fits: "min SNAP_HDR (REC_SIZE p) = SNAP_HDR" "take (REC_SIZE p) (sw_header w) = sw_header w"
      using header_fits [of p] by simp_all
    have hdr: "sw_header (w\<lparr>sw_stage := a, sw_stage_len := b, sw_stage_written := d, sw_phase := e\<rparr>) = sw_header w" for a b d e
      by (simp add: sw_header_def)
    have rc: "rc \<ge> 0 \<Longrightarrow> \<not> fs_pending rc" using fs_pending_neg [of rc] by fastforce
    have unf: "sw_finish_step p call w s = (if rc \<ge> 0 then ((sw_stage_bytes p (sw_header w) w)\<lparr>sw_phase := W_HEADER\<rparr>, s1, None)
        else (w, s1, Some (if fs_pending rc then WrPending else WrFailed)))"
    proof -
      have "snap_seek call (sw_fd_plus1 w - 1) 0 s
          = (s1, if rc \<ge> 0 then SrReady () else if fs_pending rc then SrPending else SrFailed)"
        using i c rc by (cases "rc \<ge> 0") (simp_all add: snap_seek_def)
      then show ?thesis by (simp add: sw_finish_step_def W_SEEK)
    qed
    show ?thesis
    proof (cases "rc \<ge> 0")
      case True
      have w': "w' = w\<lparr>sw_stage := copy_prefix (sw_header w) (sw_stage w), sw_stage_len := SNAP_HDR, sw_stage_written := 0, sw_phase := W_HEADER\<rparr>"
        "s' = s1" using st True by (simp_all add: unf sw_stage_bytes_def fits)
      have "sv_pos v s1 = 0" using sk True by (simp add: from_le_u32)
      then have "sw_heads v recs w' s1"
        using sk i img half [of "sw_header w"] by (auto simp: sw_heads_def w' hdr placeholder_def copy_prefix_def)
      then show ?thesis using i sk header_fits [of p]
        by (simp add: sw_inv_def sw_at_def w' sw_wf_def sw_path_def copy_prefix_def)
    next
      case False
      then have "w' = w" "s' = s1" using st by (simp_all add: unf)
      then show ?thesis using i sk img by (simp add: sw_inv_def sw_at_def W_SEEK)
    qed
  next
    case W_HEADER
    note i = inv [unfolded sw_inv_def sw_at_def W_HEADER, simplified]
    obtain w1 s1 q where d: "drain_stage p call w s = (w1, s1, q)" by (metis prod_cases3)
    note ds = drain_heads [OF tg d _ i [THEN conjunct1], of recs]
    have k: "sw_wf p w1" "sv_fd v s1 = sw_fd_plus1 w1 - 1" "sw_phase w1 = W_HEADER" "sw_path w1 = path"
      "sw_generation w1 = g" "sw_count w1 = word_of_nat (length recs)"
      using ds i by (simp_all add: W_HEADER)
    show ?thesis
    proof (cases "q = WrReady")
      case True
      have "w' = w1\<lparr>sw_phase := W_FSYNC_HEADER\<rparr>" "s' = s1" using st True by (simp_all add: sw_finish_step_def W_HEADER d)
      moreover have "sw_header (w1\<lparr>sw_phase := W_FSYNC_HEADER\<rparr>) = sw_header w1" by (simp add: sw_header_def)
      ultimately show ?thesis using i k ds(8) True by (simp add: sw_inv_def sw_at_def sw_wf_def sw_path_def)
    next
      case False
      then have "w' = w1" "s' = s1" using st by (auto simp: sw_finish_step_def W_HEADER d split: write_poll.splits)
      then show ?thesis using i k ds(7) False by (simp add: sw_inv_def sw_at_def)
    qed
  next
    case W_FSYNC_HEADER
    note i = inv [unfolded sw_inv_def sw_at_def W_FSYNC_HEADER, simplified]
    obtain s1 rc buf where c: "call s (sv_fd v s) FS_FSYNC [] = (s1, rc, buf)" by (metis prod_cases3)
    note fs = tg_fsync [OF tg c refl refl]
    have "sw_header (w\<lparr>sw_phase := W_NAME\<rparr>) = sw_header w" by (simp add: sw_header_def)
    moreover have "w' = (if rc \<ge> 0 then w\<lparr>sw_phase := W_NAME\<rparr> else w)" "s' = s1"
      using st i c fs_pending_neg [of rc] by (auto simp: sw_finish_step_def W_FSYNC_HEADER split: if_splits)
    ultimately show ?thesis
      using i fs by (cases "rc \<ge> 0") (auto simp: sw_inv_def sw_at_def sv_same_def sw_wf_def sw_path_def W_FSYNC_HEADER)
  next
    case W_NAME
    note i = inv [unfolded sw_inv_def sw_at_def W_NAME, simplified]
    obtain s1 rc buf where c: "call s (- 1) FS_FSYNC_NAME path = (s1, rc, buf)" by (metis prod_cases3)
    obtain s2 rc2 buf2 where c2: "call s1 (sw_fd_plus1 w - 1) FS_CLOSE [] = (s2, rc2, buf2)" by (metis prod_cases3)
    note nm = tg_name [OF tg c refl refl] and cl = tg_close [OF tg c2 refl]
    have "sw_header (w\<lparr>sw_fd_plus1 := 0, sw_phase := W_DONE\<rparr>) = sw_header w" by (simp add: sw_header_def)
    moreover have "w' = (if rc \<ge> 0 then w\<lparr>sw_fd_plus1 := 0, sw_phase := W_DONE\<rparr> else w)" "s' = (if rc \<ge> 0 then s2 else s1)"
      using st i c c2 fs_pending_neg [of rc]
      by (auto simp: sw_finish_step_def W_NAME fsync_name_def wal_close_def split: if_splits)
    ultimately show ?thesis
      using i nm cl by (cases "rc \<ge> 0") (auto simp: sw_inv_def sw_at_def sw_wf_def sw_path_def W_NAME)
  next
    case W_DONE
    then show ?thesis using st inv by (auto simp: sw_finish_step_def sw_inv_def sw_at_def sw_wf_def)
  qed (use st inv in \<open>simp_all add: sw_finish_step_def\<close>)
qed

lemma poll_open_inv:
  "snap_target call path v \<Longrightarrow> sw_inv p v path g recs w s \<Longrightarrow> sw_poll_open p call w s = (w', s', r) \<Longrightarrow>
   sw_inv p v path g recs w' s'"
proof (induction p call w s rule: sw_poll_open.induct)
  case (1 p call w s)
  obtain w1 s1 q where st: "sw_open_step p call w s = (w1, s1, q)" by (metis prod_cases3)
  note k = open_step_inv [OF 1(2,3) st]
  show ?case
  proof (cases q)
    case None
    then have "sw_poll_open p call w1 s1 = (w', s', r)" using 1(4) by (simp add: sw_poll_open.simps [of p call w s] st)
    then show ?thesis using 1(1) [OF st [symmetric] refl None 1(2) k] by blast
  next
    case (Some x)
    then show ?thesis using 1(4) k by (simp add: sw_poll_open.simps [of p call w s] st)
  qed
qed

lemma poll_finish_inv:
  "snap_target call path v \<Longrightarrow> sw_inv p v path g recs w s \<Longrightarrow> sw_poll_finish p call w s = (w', s', r) \<Longrightarrow>
   sw_inv p v path g recs w' s' \<and>
   (r = WrReady \<longrightarrow> sv_images v s' \<subseteq> {snap_file g recs} \<and> sv_named v s' \<and> sw_phase w' = W_IDLE)"
proof (induction p call w s rule: sw_poll_finish.induct)
  case (1 p call w s)
  obtain w1 s1 q where st: "sw_finish_step p call w s = (w1, s1, q)" by (metis prod_cases3)
  note k = finish_step_inv [OF 1(2,3) st]
  show ?case
  proof (cases q)
    case None
    then have "sw_poll_finish p call w1 s1 = (w', s', r)" using 1(4) by (simp add: sw_poll_finish.simps [of p call w s] st)
    then show ?thesis using 1(1) [OF st [symmetric] refl None 1(2) k(1)] by blast
  next
    case (Some x)
    then have e: "w' = w1" "s' = s1" "r = x" using 1(4) by (simp_all add: sw_poll_finish.simps [of p call w s] st)
    have "sv_images v s' \<subseteq> {snap_file g recs} \<and> sv_named v s' \<and> sw_phase w' = W_IDLE" if "r = WrReady"
    proof -
      have d: "sw_phase w = W_DONE" "s1 = s" using k(2) Some e that by simp_all
      then have "w1 = w\<lparr>sw_phase := W_IDLE\<rparr>" using st by (simp add: sw_finish_step_def)
      moreover have "sw_header w @ snap_body recs = snap_file g recs"
        using 1(3) by (simp add: sw_inv_def d sw_header_def snap_file_def snap_header_def snap_body_def)
      ultimately show ?thesis using 1(3) by (simp add: sw_inv_def sw_at_def d e)
    qed
    then show ?thesis using k(1) e by blast
  qed
qed

lemma stage_record_inv:
  assumes inv: "sw_inv p v path g recs w s" and ok: "snap_ok p x" and st: "sw_stage_record p x w = (w', True)"
  shows "sw_inv p v path g (recs @ [x]) w' s"
proof -
  have ph: "sw_phase w = W_RECORDS" "sw_stage_len w = 0" using st by (auto simp: sw_stage_record_def sw_can_stage_def split: if_splits)
  note i = inv [unfolded sw_inv_def sw_at_def ph, simplified]
  have len: "length (snap_bytes x) = REC_SIZE p" "length (sw_stage w) = REC_SIZE p"
    using ok i by (simp_all add: length_snap_bytes sw_wf_def)
  have w': "w' = w\<lparr>sw_stage := snap_bytes x, sw_stage_len := REC_SIZE p, sw_stage_written := 0, sw_count := sw_count w + 1\<rparr>"
    using st ph len by (simp add: sw_stage_record_def sw_can_stage_def snap_encode_def copy_prefix_def)
  have "sw_streams p v (recs @ [x]) w' s"
    using i len ph by (simp add: sw_streams_def w' sw_owed_def sub_slice_def snap_body_def)
  then show ?thesis using i ok len by (simp add: sw_inv_def sw_at_def w' ph sw_wf_def sw_path_def add.commute)
qed

lemma same_inv:
  assumes "sw_inv p v path g recs w s" "sv_same v s s'"
  shows "sw_inv p v path g recs w s'"
proof -
  have eq: "sv_content v s' = sv_content v s" "sv_pos v s' = sv_pos v s" "sv_fd v s' = sv_fd v s" "sv_named v s' = sv_named v s"
    and sub: "sv_images v s' \<subseteq> sv_images v s"
    using assms(2) by (simp_all add: sv_same_def)
  have "Ball (sv_images v s) unmarked \<Longrightarrow> Ball (sv_images v s') unmarked" using sub by blast
  moreover have "Ball (sv_images v s) (half_headed h b) \<Longrightarrow> Ball (sv_images v s') (half_headed h b)" for h b using sub by blast
  moreover have "sv_images v s \<subseteq> X \<Longrightarrow> sv_images v s' \<subseteq> X" for X using sub by (rule order_trans)
  ultimately have "sw_at p v path recs w s'"
    using assms(1) unfolding sw_inv_def
    by (cases "sw_phase w") (simp_all add: sw_at_def sw_streams_def sw_heads_def eq)
  then show ?thesis using assms(1) by (simp add: sw_inv_def eq)
qed

lemma snap_hist_inv:
  assumes "snap_hist p call v path g recs w s" "snap_target call path v"
  shows "sw_inv p v path g recs w s"
  using assms
proof induction
  case (started w0 w s)
  show ?case by (rule sw_start_inv(1) [OF started(1,2)])
next
  case (flushed recs w s w' s' r)
  then have inv: "sw_inv p v path g recs w s" by blast
  show ?case
  proof (cases "sw_phase w = W_RECORDS")
    case True
    note i = inv [unfolded sw_inv_def sw_at_def True, simplified]
    have d: "drain_stage p call w s = (w', s', r)" using flushed(2) True by (simp add: sw_flush_def)
    have "sw_streams p v recs w s" "sw_wf p w" "sv_fd v s = sw_fd_plus1 w - 1" using i by simp_all
    note ds = drain_streams [OF flushed(4) d this]
    show ?thesis using ds i by (simp add: sw_inv_def sw_at_def True)
  next
    case False
    then show ?thesis using flushed(2) inv by (simp add: sw_flush_def)
  qed
next
  case (opened recs w s w' s' r)
  then show ?case by (blast intro: poll_open_inv [OF opened(4)])
next
  case (staged recs w s x w')
  then show ?case by (blast intro: stage_record_inv)
next
  case (finished recs w s w' s' r)
  then show ?case using poll_finish_inv [OF finished(4) _ finished(2)] by blast
next
  case (waited recs w s s')
  then show ?case by (blast intro: same_inv)
qed

section \<open>What the opener may accept\<close>

definition snap_accepts :: "profile \<Rightarrow> bytes \<Rightarrow> bool" where
  \<comment> \<open>the checks of \<open>SnapOpener.poll\<close> on the bytes of a file\<close>
  "snap_accepts p b \<longleftrightarrow> SNAP_HDR \<le> length b \<and> (from_le (take 4 b) :: u32) = SNAP_MAGIC \<and>
     length b = SNAP_HDR + unat (from_le (sub_slice b 4 4) :: u32) * REC_SIZE p"

lemma magic_bytes: "le_bytes 4 SNAP_MAGIC = [76, 83, 78, 80]"
  using le_bytes_from [of "[76, 83, 78, 80]" 4, where 'a = 32] by (simp add: SNAP_MAGIC_def)

lemma accepts_magic:
  assumes "snap_accepts p b"
  shows "take 4 b = [76, 83, 78, 80]"
proof -
  have "length (take 4 b) = 4" using assms by (simp add: snap_accepts_def SNAP_HDR_def)
  then have "le_bytes 4 (from_le (take 4 b) :: u32) = take 4 b" by (intro le_bytes_from) simp_all
  then show ?thesis using assms magic_bytes by (simp add: snap_accepts_def)
qed

lemma unmarked_refused: "unmarked b \<Longrightarrow> \<not> snap_accepts p b"
proof
  assume "unmarked b" and a: "snap_accepts p b"
  then have "b ! 0 = 0" by (simp add: unmarked_def snap_accepts_def SNAP_HDR_def)
  moreover have "b ! 0 = (take 4 b) ! 0" by simp
  ultimately show False using accepts_magic [OF a] by simp
qed

lemma nat_from_le_mono:
  "length xs = length ys \<Longrightarrow> \<forall>i < length xs. xs ! i \<le> ys ! i \<Longrightarrow> nat_from_le xs \<le> nat_from_le (ys :: bytes)"
proof (induction xs ys rule: list_induct2)
  case (Cons x xs y ys)
  have "x \<le> y" "\<forall>i < length xs. xs ! i \<le> ys ! i" using Cons(3) by (auto simp: nth_Cons split: nat.splits)
  then show ?case using Cons(2) by (simp add: word_le_nat_alt add_mono)
qed simp

lemma half_headed_accepted:
  assumes fits: "snap_fits p recs" and half: "half_headed (snap_header (word_of_nat (length recs)) g) (snap_body recs) b"
    and acc: "snap_accepts p b"
  shows "\<exists>g'. b = snap_file g' recs \<and> g' \<le> g"
proof -
  define hdr where "hdr = snap_header (word_of_nat (length recs)) g"
  have body: "length (snap_body recs) = length recs * REC_SIZE p"
    using fits by (simp add: snap_body_def length_chunks snap_fits_def length_snap_bytes)
  have len: "length b = SNAP_HDR + length recs * REC_SIZE p" using half by (simp add: half_headed_def body)
  have cut: "b = take 4 b @ sub_slice b 4 4 @ sub_slice b 8 8 @ drop SNAP_HDR b"
    by (simp add: sub_slice_def SNAP_HDR_def) (metis append_take_drop_id drop_drop numeral_plus_numeral semiring_norm(2,6) take_add append.assoc)
  have "drop SNAP_HDR b = snap_body recs"
    using half by (intro nth_equalityI) (auto simp: half_headed_def)
  moreover have "sub_slice b 4 4 = le_bytes 4 (word_of_nat (length recs) :: u32)"
  proof -
    have "unat (from_le (sub_slice b 4 4) :: u32) * REC_SIZE p = length recs * REC_SIZE p"
      using acc len unfolding snap_accepts_def by linarith
    moreover have "REC_SIZE p \<noteq> 0" by (simp add: REC_SIZE_def)
    ultimately have "unat (from_le (sub_slice b 4 4) :: u32) = length recs" using mult_right_cancel by metis
    moreover have "word_of_nat (unat (x :: u32)) = x" for x by simp
    ultimately have "(from_le (sub_slice b 4 4) :: u32) = word_of_nat (length recs)" by metis
    moreover have "le_bytes 4 (from_le (sub_slice b 4 4) :: u32) = sub_slice b 4 4"
      using len by (intro le_bytes_from) (simp_all add: length_sub_slice SNAP_HDR_def)
    ultimately show ?thesis by simp
  qed
  moreover define g' :: u64 where "g' = from_le (sub_slice b 8 8)"
  have l8: "length (sub_slice b 8 8) = 8" using len by (simp add: length_sub_slice SNAP_HDR_def)
  then have bg: "sub_slice b 8 8 = le_bytes 8 g'" by (simp add: g'_def le_bytes_from)
  moreover have "g' \<le> g"
  proof -
    have "(sub_slice b 8 8) ! i \<le> (le_bytes 8 g) ! i" if "i < 8" for i
    proof -
      have "(sub_slice b 8 8) ! i = b ! (8 + i)" using that len by (simp add: sub_slice_def SNAP_HDR_def)
      moreover have "hdr ! (8 + i) = (le_bytes 8 g) ! i" using that by (simp add: hdr_def snap_header_def nth_append)
      moreover have "b ! (8 + i) = 0 \<or> b ! (8 + i) = hdr ! (8 + i)"
        using half that len unfolding half_headed_def hdr_def [symmetric] by (auto simp: SNAP_HDR_def)
      ultimately show ?thesis by auto
    qed
    then have "nat_from_le (sub_slice b 8 8) \<le> nat_from_le (le_bytes 8 g)" using l8 by (intro nat_from_le_mono) simp_all
    moreover have "nat_from_le (le_bytes 8 (x :: u64)) = unat x" for x
      using unsigned_less [where 'b = 64 and 'a = nat, of x] by (simp add: le_bytes_def nat_from_to_le)
    ultimately show ?thesis by (simp add: bg word_le_nat_alt)
  qed
  ultimately show ?thesis
    using cut accepts_magic [OF acc] magic_bytes by (auto simp: snap_file_def snap_header_def snap_body_def)
qed

lemma snap_hist_images:
  assumes "snap_hist p call v path g recs w s" "snap_target call path v" "sw_phase w \<notin> {W_IDLE, W_UNLINK}"
    and "snap_fits p recs" "b \<in> sv_images v s" "snap_accepts p b"
  shows "\<exists>g'. b = snap_file g' recs \<and> g' \<le> g" "sw_phase w \<in> {W_HEADER, W_FSYNC_HEADER, W_NAME, W_DONE}"
proof -
  note i = snap_hist_inv [OF assms(1,2), unfolded sw_inv_def]
  have refused: "\<not> unmarked b" using unmarked_refused assms(6) by blast
  have hdr: "sw_header w = snap_header (word_of_nat (length recs)) g"
    using i assms(3) by (simp add: sw_header_def snap_header_def)
  have ph: "half_headed (placeholder) (snap_body recs) (placeholder @ snap_body recs)"
    using half_headed_take [of placeholder SNAP_HDR "snap_body recs"] by (simp add: placeholder_def)
  have whole: "half_headed (sw_header w) (snap_body recs) (sw_header w @ snap_body recs)"
    using half_headed_take [of "sw_header w" SNAP_HDR "snap_body recs"] by simp
  have at: "sw_at p v path recs w s" using i by blast
  have "half_headed (sw_header w) (snap_body recs) b \<and> sw_phase w \<in> {W_HEADER, W_FSYNC_HEADER, W_NAME, W_DONE}"
  proof (cases "sw_phase w")
    case W_CREATE
    then show ?thesis using at assms(5) refused by (auto simp: sw_at_def unmarked_def)
  next
    case W_SEEK
    then have "b = placeholder @ snap_body recs" using at assms(5) by (auto simp: sw_at_def)
    then show ?thesis using refused unmarked_zeros by (simp add: placeholder_def)
  qed (use at assms(3,5) refused whole in \<open>auto simp: sw_at_def sw_streams_def sw_heads_def\<close>)
  then show "\<exists>g'. b = snap_file g' recs \<and> g' \<le> g" "sw_phase w \<in> {W_HEADER, W_FSYNC_HEADER, W_NAME, W_DONE}"
    using half_headed_accepted [OF assms(4) _ assms(6)] by (simp_all add: hdr)
qed

lemma snap_file_accepted:
  assumes "snap_fits p recs"
  shows "snap_accepts p (snap_file g recs)"
proof -
  define c :: u32 where "c = word_of_nat (length recs)"
  have "length recs \<le> length recs * REC_SIZE p" by (simp add: REC_SIZE_def)
  moreover have "SNAP_HDR + length recs * REC_SIZE p < 2 ^ 32" using assms unfolding snap_fits_def by blast
  ultimately have "length recs < 2 ^ 32" by linarith
  then have "unat c = length recs" by (simp add: c_def unat_of_nat_small)
  then show ?thesis
    using length_snap_file [OF assms, of g]
    by (simp add: snap_accepts_def snap_file_def snap_header_def c_def [symmetric] le_simps)
qed

end
