(* ===== verification/Snapshot_Open.thy ===== *)
theory Snapshot_Open
  imports Snapshot_Durable
begin

text \<open>
  What the opener of one generation accepts, over the provider's reads: exactly the bytes
  that carry the magic and have the size their count gives, with the count and the generation
  of the header.
\<close>

definition snap_readable :: "'s provider \<Rightarrow> bytes \<Rightarrow> int \<Rightarrow> 's read_view \<Rightarrow> bool" where
  \<comment> \<open>\<open>path\<close> opens as \<open>fd\<close>; \<open>FS_STAT\<close> answers the file's length\<close>
  "snap_readable call path fd v \<longleftrightarrow> log_reads call fd v \<and>
     (\<forall>s s' rc buf. call s (- 1) FS_OPEN path = (s', rc, buf) \<longrightarrow>
        rv_content v s' = rv_content v s \<and> (rc \<ge> 0 \<longrightarrow> rc = fd)) \<and>
     (\<forall>s arg s' rc buf. call s fd FS_STAT arg = (s', rc, buf) \<longrightarrow>
        rv_content v s' = rv_content v s \<and> (rc \<ge> 0 \<longrightarrow> unat (from_le (take 4 buf) :: u32) = length (rv_content v s)))"

definition so_inv :: "'s read_view \<Rightarrow> bytes \<Rightarrow> int \<Rightarrow> snap_opener \<Rightarrow> 's \<Rightarrow> bool" where
  "so_inv v b fd w s \<longleftrightarrow> rv_content v s = b \<and>
     (so_phase w \<noteq> SO_OPEN \<longrightarrow> so_fd_plus1 w = fd + 1) \<and>
     (so_phase w = SO_HDR \<longrightarrow> rv_pos v s = 0) \<and>
     (so_phase w = SO_STAT \<longrightarrow> so_hdr w = take SNAP_HDR b \<and> SNAP_HDR \<le> length b)"

definition snap_handle :: "bytes \<Rightarrow> int \<Rightarrow> open_snapshot" where
  "snap_handle b fd = \<lparr>on_fd = fd, on_count = from_le (sub_slice b 4 4), on_generation = from_le (sub_slice b 8 8)\<rparr>"

lemma so_inv_new: "rv_content v s = b \<Longrightarrow> so_inv v b fd snap_opener_new s"
  by (simp add: so_inv_def snap_opener_new_def)

lemma REC_SIZE_bound: "REC_SIZE p < 2048"
  by (simp add: REC_SIZE_def MAX_ROOT_def MAX_PATH_def MAX_OBJECT_ID_def CONTENT_TYPE_MAX_def KEY_REF_MAX_def)

lemma snap_expect:
  "unat (word_of_nat SNAP_HDR + ucast (c :: u32) * word_of_nat (REC_SIZE p) :: u64) = SNAP_HDR + unat c * REC_SIZE p"
proof -
  have "unat c < 2 ^ 32" using unsigned_less [where 'b = 32 and 'a = nat, of c] by simp
  then have "unat c * REC_SIZE p \<le> 2 ^ 32 * 2048" using REC_SIZE_bound [of p] by (intro mult_le_mono) simp_all
  then have "SNAP_HDR + unat c * REC_SIZE p < 2 ^ 64" by (simp add: SNAP_HDR_def)
  moreover have "(word_of_nat SNAP_HDR + ucast c * word_of_nat (REC_SIZE p) :: u64) = word_of_nat (SNAP_HDR + unat c * REC_SIZE p)"
    by simp
  ultimately show ?thesis using unat_of_nat_small [where 'a = 64, of "SNAP_HDR + unat c * REC_SIZE p"] by simp
qed

lemma sub_slice_take: "a + n \<le> m \<Longrightarrow> sub_slice (take m xs) a n = sub_slice xs a n"
  by (simp add: sub_slice_def drop_take min_def)

lemma open_step_accepts:
  assumes rd: "snap_readable call path fd v" and inv: "so_inv v b fd w s" and st: "snap_open_step p call path w s = (w', s', r)"
  shows "r = None \<Longrightarrow> so_inv v b fd w' s'"
    and "r = Some SoPending \<Longrightarrow> so_inv v b fd w' s'"
    and "r = Some (SoOpened sn) \<Longrightarrow> rv_content v s' = b \<and> snap_accepts p b \<and> length b < 2 ^ 32 \<and> sn = snap_handle b fd"
proof -
  note c = inv [unfolded so_inv_def] and law = rd [unfolded snap_readable_def]
  have "(r = None \<or> r = Some SoPending \<longrightarrow> so_inv v b fd w' s') \<and> (\<forall>sn. r = Some (SoOpened sn) \<longrightarrow>
      rv_content v s' = b \<and> snap_accepts p b \<and> length b < 2 ^ 32 \<and> sn = snap_handle b fd)"
  proof (cases "so_phase w")
    case SO_OPEN
    obtain s1 rc buf where k: "call s (- 1) FS_OPEN path = (s1, rc, buf)" by (metis prod_cases3)
    have o: "rv_content v s1 = b" "rc \<ge> 0 \<Longrightarrow> rc = fd" using law k c by blast+
    consider "fs_pending rc" | "\<not> fs_pending rc" "rc < 0" | "\<not> fs_pending rc" "rc \<ge> 0" by linarith
    then show ?thesis
    proof cases
      case 1
      then have "w' = w" "s' = s1" "r = Some SoPending" using st by (simp_all add: snap_open_step_def SO_OPEN k)
      then show ?thesis using o by (simp add: so_inv_def SO_OPEN)
    qed (use st o in \<open>auto simp: snap_open_step_def SO_OPEN k so_inv_def\<close>)
  next
    case SO_SEEK
    obtain s1 rc buf where k: "call s fd FS_SEEK (le_bytes 4 (0 :: u32)) = (s1, rc, buf)" by (metis prod_cases3)
    have o: "rv_content v s1 = b" "rc \<ge> 0 \<Longrightarrow> rv_pos v s1 = 0"
      using reads_seek [OF law [THEN conjunct1] k refl] c by (simp_all add: from_le_u32)
    have sk: "snap_seek call (so_fd_plus1 w - 1) 0 s = (s1, if fs_pending rc then SrPending else if rc < 0 then SrFailed else SrReady ())"
      using k c by (simp add: SO_SEEK snap_seek_def)
    consider "fs_pending rc" | "\<not> fs_pending rc" "rc < 0" | "\<not> fs_pending rc" "rc \<ge> 0" by linarith
    then show ?thesis
    proof cases
      case 1
      then have "w' = w" "s' = s1" "r = Some SoPending" using st by (simp_all add: snap_open_step_def SO_SEEK sk)
      then show ?thesis using o c by (simp add: so_inv_def SO_SEEK)
    next
      case 2
      then show ?thesis using st by (auto simp: snap_open_step_def SO_SEEK sk snap_invalid_def Let_def split: prod.splits)
    next
      case 3
      then have "w' = w\<lparr>so_phase := SO_HDR\<rparr>" "s' = s1" "r = None" using st by (simp_all add: snap_open_step_def SO_SEEK sk)
      then show ?thesis using o c 3 by (simp add: so_inv_def SO_SEEK)
    qed
  next
    case SO_HDR
    obtain hdr s1 q where k: "read_exact call fd SNAP_HDR s = (hdr, s1, q)" by (metis prod_cases3)
    have pos: "rv_pos v s = 0" using c SO_HDR by simp
    have "rv_pos v s \<le> length (rv_content v s)" by (simp add: pos)
    note re = read_exact_reads [OF law [THEN conjunct1] k this]
    have fdw: "so_fd_plus1 w - 1 = fd" using c SO_HDR by simp
    show ?thesis
    proof (cases q)
      case (SrReady x)
      then have "w' = w\<lparr>so_hdr := hdr, so_phase := SO_STAT\<rparr>" "s' = s1" "r = None"
        using st by (simp_all add: snap_open_step_def SO_HDR fdw k)
      then show ?thesis using re SrReady c pos by (simp add: so_inv_def SO_HDR)
    next
      case SrPending
      then have "w' = w\<lparr>so_phase := SO_SEEK\<rparr>" "s' = s1" "r = Some SoPending"
        using st by (simp_all add: snap_open_step_def SO_HDR fdw k)
      then show ?thesis using re c by (simp add: so_inv_def SO_HDR)
    next
      case SrFailed
      then show ?thesis using st by (auto simp: snap_open_step_def SO_HDR fdw k snap_invalid_def Let_def split: prod.splits)
    qed
  next
    case SO_STAT
    have fdw: "so_fd_plus1 w - 1 = fd" and hdr: "so_hdr w = take SNAP_HDR b" "SNAP_HDR \<le> length b" using c SO_STAT by simp_all
    obtain s1 rc buf where k: "call s fd FS_STAT (replicate 8 0) = (s1, rc, buf)" by (metis prod_cases3)
    have o: "rv_content v s1 = b" "rc \<ge> 0 \<Longrightarrow> unat (from_le (take 4 buf) :: u32) = length b" using law k c by blast+
    define cnt :: u32 where "cnt = from_le (sub_slice b 4 4)"
    have parts: "sub_slice (so_hdr w) 0 4 = take 4 b" "sub_slice (so_hdr w) 4 4 = sub_slice b 4 4"
      "sub_slice (so_hdr w) 8 8 = sub_slice b 8 8"
      using sub_slice_take [of 0 4 SNAP_HDR b] sub_slice_take [of 4 4 SNAP_HDR b] sub_slice_take [of 8 8 SNAP_HDR b]
      by (simp_all add: hdr SNAP_HDR_def sub_slice_def)
    have size: "((ucast (from_le (take 4 buf) :: u32) :: u64) = word_of_nat SNAP_HDR + ucast cnt * word_of_nat (REC_SIZE p)) \<longleftrightarrow>
        length b = SNAP_HDR + unat cnt * REC_SIZE p" if "rc \<ge> 0"
      using o(2) [OF that] snap_expect [of cnt p] by (simp add: word_unat_eq_iff unat_ucast_up)
    have len: "length b < 2 ^ 32" if "rc \<ge> 0"
      using o(2) [OF that] unsigned_less [where 'b = 32 and 'a = nat, of "from_le (take 4 buf)"] by simp
    have unf: "snap_open_step p call path w s =
        (if (from_le (take 4 b) :: u32) \<noteq> SNAP_MAGIC then snap_invalid call w s
         else if fs_pending rc then (w, s1, Some SoPending)
         else if rc < 0 then snap_invalid call w s1
         else if length b \<noteq> SNAP_HDR + unat cnt * REC_SIZE p then snap_invalid call w s1
         else (snap_opener_new, s1, Some (SoOpened (snap_handle b fd))))"
      using size by (simp add: snap_open_step_def SO_STAT parts k fdw Let_def cnt_def [symmetric] snap_handle_def)
    show ?thesis
    proof (cases "r = Some SoPending")
      case True
      then have "w' = w" "s' = s1" using st by (auto simp: unf snap_invalid_def Let_def split: if_splits prod.splits)
      then show ?thesis using True o c by (simp add: so_inv_def SO_STAT)
    next
      case False
      have "rv_content v s' = b \<and> snap_accepts p b \<and> length b < 2 ^ 32 \<and> sn = snap_handle b fd"
        if "r = Some (SoOpened sn)" for sn
      proof -
        have e: "rc \<ge> 0" "length b = SNAP_HDR + unat cnt * REC_SIZE p" "s' = s1" "sn = snap_handle b fd"
          "(from_le (take 4 b) :: u32) = SNAP_MAGIC"
          using st that by (auto simp: unf snap_invalid_def Let_def split: if_splits prod.splits)
        show ?thesis using o(1) len [OF e(1)] hdr(2) e(2,5) unfolding snap_accepts_def cnt_def e(3,4) by simp
      qed
      moreover have "r \<noteq> None" using st by (auto simp: unf snap_invalid_def Let_def split: if_splits prod.splits)
      ultimately show ?thesis using False by blast
    qed
  qed
  then show "r = None \<Longrightarrow> so_inv v b fd w' s'" "r = Some SoPending \<Longrightarrow> so_inv v b fd w' s'"
    "r = Some (SoOpened sn) \<Longrightarrow> rv_content v s' = b \<and> snap_accepts p b \<and> length b < 2 ^ 32 \<and> sn = snap_handle b fd"
    by simp_all
qed

lemma open_loop_accepts:
  "snap_readable call path fd v \<Longrightarrow> so_inv v b fd w s \<Longrightarrow> snap_open_loop p call path w s = (w', s', r) \<Longrightarrow>
   (r = SoPending \<longrightarrow> so_inv v b fd w' s') \<and>
   (\<forall>sn. r = SoOpened sn \<longrightarrow> rv_content v s' = b \<and> snap_accepts p b \<and> length b < 2 ^ 32 \<and> sn = snap_handle b fd)"
proof (induction p call path w s rule: snap_open_loop.induct)
  case (1 p call path w s)
  obtain w1 s1 q where st: "snap_open_step p call path w s = (w1, s1, q)" by (metis prod_cases3)
  note k = open_step_accepts [OF 1(2,3) st]
  show ?case
  proof (cases q)
    case None
    then have "snap_open_loop p call path w1 s1 = (w', s', r)" using 1(4) by (simp add: snap_open_loop.simps [of p call path w s] st)
    then show ?thesis using 1(1) [OF st [symmetric] refl None 1(2) k(1) [OF None]] by blast
  next
    case (Some x)
    then show ?thesis using 1(4) k by (auto simp: snap_open_loop.simps [of p call path w s] st)
  qed
qed

lemma handle_backs:
  assumes "snap_fits p recs" "rv_content v s = snap_file g recs"
  shows "snap_backs p v g recs (snap_handle (snap_file g recs) fd) s"
    and "on_generation (snap_handle (snap_file g recs) fd) = g"
proof -
  have "length recs \<le> length recs * REC_SIZE p" by (simp add: REC_SIZE_def)
  moreover have "SNAP_HDR + length recs * REC_SIZE p < 2 ^ 32" using assms(1) unfolding snap_fits_def by blast
  ultimately have "length recs < 2 ^ 32" by linarith
  then have "unat (word_of_nat (length recs) :: u32) = length recs" by (simp add: unat_of_nat_small)
  then show "snap_backs p v g recs (snap_handle (snap_file g recs) fd) s"
    using assms by (simp add: snap_backs_def snap_handle_def snap_file_def snap_header_def le_simps)
  show "on_generation (snap_handle (snap_file g recs) fd) = g"
    by (simp add: snap_handle_def snap_file_def snap_header_def le_simps)
qed

end
