(* ===== verification/Snapshot_Props.thy ===== *)
theory Snapshot_Props
  imports Snapshot_Open
begin

text \<open>
  What a snapshot generation is worth: the record codec, the opener's bounds, the searches,
  and what a power cut may leave while a generation is written.
\<close>

section \<open>A provider that keeps the contract\<close>

text \<open>One file in memory, for the witnesses; \<open>ok\<close> says whether it fences names.\<close>

record one_file =
  of_bytes :: bytes
  of_at :: nat
  of_named :: bool

definition one_fs :: "bool \<Rightarrow> one_file provider" where
  "one_fs ok s fd op arg =
     (if op = FS_UNLINK then (s\<lparr>of_bytes := [], of_named := False\<rparr>, 0, arg)
      else if op = FS_OPEN_CREATE \<or> op = FS_OPEN then (s\<lparr>of_at := 0\<rparr>, 3, arg)
      else if op = FS_WRITE then
        if of_at s > length (of_bytes s) then (s, - 22, arg)
        else (s\<lparr>of_bytes := take (of_at s) (of_bytes s) @ arg @ drop (of_at s + length arg) (of_bytes s),
                of_at := of_at s + length arg\<rparr>, int (length arg), arg)
      else if op = FS_SEEK then (s\<lparr>of_at := unat (from_le arg :: u32)\<rparr>, 0, arg)
      else if op = FS_READ then
        (let got = take (length arg) (drop (of_at s) (of_bytes s))
         in (s\<lparr>of_at := of_at s + length got\<rparr>, int (length got), copy_prefix got arg))
      else if op = FS_STAT then
        if length (of_bytes s) < 2 ^ 32 then (s, 8, le_bytes 4 (word_of_nat (length (of_bytes s)) :: u32) @ replicate 4 0)
        else (s, - 75, arg)
      else if op = FS_FSYNC_NAME then if ok then (s\<lparr>of_named := True\<rparr>, 0, arg) else (s, EAGAIN, arg)
      else if op = FS_FSYNC \<or> op = FS_CLOSE then (s, 0, arg)
      else (s, - 38, arg))"

definition one_target :: "one_file snap_view" where
  "one_target = \<lparr>sv_content = of_bytes, sv_pos = of_at, sv_images = (\<lambda>s. {of_bytes s}), sv_fd = (\<lambda>_. 3), sv_named = of_named\<rparr>"

definition one_reading :: "one_file read_view" where
  "one_reading = \<lparr>rv_content = of_bytes, rv_pos = of_at\<rparr>"

lemma mixed_refl: "length a \<le> length b \<Longrightarrow> mixed a b b"
  by (auto simp: mixed_def)

lemma one_fs_target: "snap_target (one_fs ok) path one_target"
  unfolding snap_target_def
  by (intro allI impI conjI)
     (auto simp: one_fs_def one_target_def sv_same_def fs_opcodes fs_pending_def EAGAIN_def EINPROGRESS_def
       split: if_splits intro!: mixed_refl)

lemma one_fs_reads: "log_reads (one_fs ok) fd one_reading"
  unfolding log_reads_def
  by (intro conjI allI impI)
     (auto simp: one_fs_def one_reading_def fs_opcodes Let_def copy_prefix_def fs_pending_def EAGAIN_def EINPROGRESS_def min_def
       split: if_splits)

lemma one_fs_readable: "snap_readable (one_fs ok) path 3 one_reading"
  unfolding snap_readable_def
  by (intro conjI one_fs_reads allI impI)
     (auto simp: one_fs_def one_reading_def fs_opcodes from_le_u32 unat_of_nat_small split: if_splits)

lemma one_fs_answers: "reads_answer (one_fs ok) fd"
  by (auto simp: reads_answer_def one_fs_def fs_opcodes Let_def)

lemma one_drain:
  assumes "sw_stage_written w = 0" "0 < sw_stage_len w" "sw_stage_len w \<le> REC_SIZE p" "length (sw_stage w) = REC_SIZE p"
    and "of_at s \<le> length (of_bytes s)"
  shows "drain_stage p (one_fs ok) w s =
    (w\<lparr>sw_stage_len := 0, sw_stage_written := 0\<rparr>,
     s\<lparr>of_bytes := take (of_at s) (of_bytes s) @ take (sw_stage_len w) (sw_stage w) @ drop (of_at s + sw_stage_len w) (of_bytes s),
       of_at := of_at s + sw_stage_len w\<rparr>, WrReady)"
proof -
  define n where "n = sw_stage_len w"
  have n: "min n (REC_SIZE p) = n" "0 < n" "length (take n (sw_stage w)) = n" using assms by (simp_all add: n_def)
  define s1 where "s1 = s\<lparr>of_bytes := take (of_at s) (of_bytes s) @ take n (sw_stage w) @ drop (of_at s + n) (of_bytes s),
       of_at := of_at s + n\<rparr>"
  have c: "one_fs ok s fd FS_WRITE (take n (sw_stage w)) = (s1, int n, take n (sw_stage w))" for fd
    using assms(5) n by (simp add: one_fs_def fs_opcodes s1_def)
  have "drain_stage p (one_fs ok) w s = drain_stage p (one_fs ok) (w\<lparr>sw_stage_written := n\<rparr>) s1"
    using n assms(1) by (simp add: drain_stage.simps [of p "one_fs ok" w s] n_def [symmetric] Let_def sub_slice_def c
        fs_pending_def EAGAIN_def EINPROGRESS_def)
  also have "\<dots> = (w\<lparr>sw_stage_len := 0, sw_stage_written := 0\<rparr>, s1, WrReady)"
    using n by (simp add: drain_stage.simps [of p "one_fs ok" "w\<lparr>sw_stage_written := n\<rparr>" s1] n_def [symmetric])
  finally show ?thesis by (simp add: s1_def n_def)
qed

text \<open>A generation of one record written through it, in one poll each.\<close>

lemma one_open:
  assumes "sw_phase w = W_UNLINK" "sw_wf p w"
  shows "sw_poll_open p (one_fs ok) w s =
    (w\<lparr>sw_fd_plus1 := 4, sw_stage := copy_prefix placeholder (sw_stage w), sw_stage_len := 0, sw_stage_written := 0,
       sw_phase := W_RECORDS\<rparr>,
     s\<lparr>of_bytes := placeholder, of_at := SNAP_HDR, of_named := False\<rparr>, WrReady)"
proof -
  define w1 where "w1 = w\<lparr>sw_phase := W_CREATE\<rparr>"
  define s1 where "s1 = s\<lparr>of_bytes := [], of_named := False\<rparr>"
  define w2 where "w2 = w\<lparr>sw_fd_plus1 := 4, sw_stage := copy_prefix placeholder (sw_stage w), sw_stage_len := SNAP_HDR,
       sw_stage_written := 0, sw_phase := W_PLACEHOLDER\<rparr>"
  define s2 where "s2 = s1\<lparr>of_at := 0\<rparr>"
  have fits: "take (REC_SIZE p) placeholder = placeholder" "min SNAP_HDR (REC_SIZE p) = SNAP_HDR"
    using header_fits [of p] by (simp_all add: placeholder_def)
  have len: "length (sw_stage w) = REC_SIZE p" using assms(2) by (simp add: sw_wf_def)
  have e1: "sw_open_step p (one_fs ok) w s = (w1, s1, None)"
    using assms(1) by (simp add: sw_open_step_def fs_unlink_def one_fs_def fs_pending_def EAGAIN_def EINPROGRESS_def w1_def s1_def)
  have e2: "sw_open_step p (one_fs ok) w1 s1 = (w2, s2, None)"
    using fits by (simp add: sw_open_step_def w1_def one_fs_def fs_opcodes fs_pending_def EAGAIN_def EINPROGRESS_def s2_def
        sw_stage_bytes_def w2_def placeholder_def [symmetric]) (simp add: placeholder_def)
  have "drain_stage p (one_fs ok) w2 s2 = (w2\<lparr>sw_stage_len := 0, sw_stage_written := 0\<rparr>,
      s2\<lparr>of_bytes := placeholder, of_at := SNAP_HDR\<rparr>, WrReady)"
    using one_drain [of w2 p s2 ok] header_fits [of p] len
    by (simp add: w2_def s2_def s1_def copy_prefix_def placeholder_def SNAP_HDR_def)
  then have e3: "sw_open_step p (one_fs ok) w2 s2 = (w2\<lparr>sw_stage_len := 0, sw_stage_written := 0, sw_phase := W_RECORDS\<rparr>,
      s2\<lparr>of_bytes := placeholder, of_at := SNAP_HDR\<rparr>, Some WrReady)"
    by (simp add: sw_open_step_def w2_def)
  show ?thesis
    by (simp add: sw_poll_open.simps [of p "one_fs ok" w s] e1 sw_poll_open.simps [of p "one_fs ok" w1 s1] e2
        sw_poll_open.simps [of p "one_fs ok" w2 s2] e3) (simp add: w2_def s2_def s1_def)
qed

lemma finish_next:
  "sw_finish_step p call w s = (w1, s1, None) \<Longrightarrow> sw_poll_finish p call w s = sw_poll_finish p call w1 s1"
  by (simp add: sw_poll_finish.simps [of p call w s])

lemma finish_ends: "sw_finish_step p call w s = (w1, s1, Some r) \<Longrightarrow> sw_poll_finish p call w s = (w1, s1, r)"
  by (simp add: sw_poll_finish.simps [of p call w s])

lemma one_fenced:
  assumes "sw_phase w = W_FSYNC_RECORDS" "sw_wf p w" "sw_fd_plus1 w = 4" "of_at s \<le> length (of_bytes s)"
  shows "\<exists>w' s'. sw_poll_finish p (one_fs ok) w s = (w', s', if ok then WrReady else WrPending) \<and> (\<not> ok \<longrightarrow> sw_phase w' = W_NAME)"
proof -
  have len: "length (sw_stage w) = REC_SIZE p" "0 < REC_SIZE p" using assms(2) by (simp_all add: sw_wf_def REC_SIZE_def)
  define w2 where "w2 = w\<lparr>sw_phase := W_SEEK\<rparr>"
  define w3 where "w3 = (sw_stage_bytes p (sw_header w2) w2)\<lparr>sw_phase := W_HEADER\<rparr>"
  define s3 where "s3 = s\<lparr>of_at := 0\<rparr>"
  define w4 where "w4 = w3\<lparr>sw_stage_len := 0, sw_stage_written := 0, sw_phase := W_FSYNC_HEADER\<rparr>"
  define w5 where "w5 = w4\<lparr>sw_phase := W_NAME\<rparr>"
  note ev = one_fs_def fs_opcodes fs_pending_def EAGAIN_def EINPROGRESS_def
  have e2: "sw_finish_step p (one_fs ok) w s = (w2, s, None)" using assms(1) by (simp add: sw_finish_step_def w2_def ev)
  have e3: "sw_finish_step p (one_fs ok) w2 s = (w3, s3, None)"
    by (simp add: sw_finish_step_def w2_def w3_def s3_def snap_seek_def ev from_le_u32)
  have "sw_stage_len w3 = SNAP_HDR" "length (sw_stage w3) = REC_SIZE p" "sw_stage_written w3 = 0"
    using header_fits [of p] len by (simp_all add: w3_def w2_def sw_stage_bytes_def copy_prefix_def)
  then obtain s4 where "drain_stage p (one_fs ok) w3 s3 = (w3\<lparr>sw_stage_len := 0, sw_stage_written := 0\<rparr>, s4, WrReady)"
    using one_drain [of w3 p s3 ok] header_fits [of p] by (auto simp: s3_def SNAP_HDR_def)
  then have e4: "sw_finish_step p (one_fs ok) w3 s3 = (w4, s4, None)"
    by (simp add: sw_finish_step_def w3_def w4_def)
  have e5: "sw_finish_step p (one_fs ok) w4 s4 = (w5, s4, None)" by (simp add: sw_finish_step_def w4_def w5_def ev)
  define w6 where "w6 = w5\<lparr>sw_fd_plus1 := 0, sw_phase := W_DONE\<rparr>"
  define s6 where "s6 = s4\<lparr>of_named := True\<rparr>"
  have e6: "sw_finish_step p (one_fs ok) w5 s4 = (if ok then (w6, s6, None) else (w5, s4, Some WrPending))"
    by (simp add: sw_finish_step_def w5_def w6_def s6_def fsync_name_def wal_close_def ev)
  have e7: "sw_finish_step p (one_fs ok) w6 s6 = (w6\<lparr>sw_phase := W_IDLE\<rparr>, s6, Some WrReady)"
    by (simp add: sw_finish_step_def w6_def)
  have "sw_poll_finish p (one_fs ok) w s = sw_poll_finish p (one_fs ok) w5 s4"
    by (simp only: finish_next [OF e2] finish_next [OF e3] finish_next [OF e4] finish_next [OF e5])
  moreover have "ok \<Longrightarrow> sw_poll_finish p (one_fs ok) w5 s4 = (w6\<lparr>sw_phase := W_IDLE\<rparr>, s6, WrReady)"
    using finish_next [of p "one_fs ok" w5 s4 w6 s6] finish_ends [OF e7] e6 by simp
  moreover have "\<not> ok \<Longrightarrow> sw_poll_finish p (one_fs ok) w5 s4 = (w5, s4, WrPending)"
    using finish_ends [of p "one_fs ok" w5 s4] e6 by simp
  moreover have "sw_phase w5 = W_NAME" by (simp add: w5_def)
  ultimately show ?thesis by (cases ok) auto
qed

lemma one_finish:
  assumes "sw_phase w = W_RECORDS" "sw_wf p w" "sw_stage_written w = 0" "sw_stage_len w \<in> {0, REC_SIZE p}" "sw_fd_plus1 w = 4"
    and "of_at s \<le> length (of_bytes s)"
  shows "\<exists>w' s'. sw_poll_finish p (one_fs ok) w s = (w', s', if ok then WrReady else WrPending) \<and> (\<not> ok \<longrightarrow> sw_phase w' = W_NAME)"
proof -
  define w1 where "w1 = w\<lparr>sw_stage_len := 0, sw_stage_written := 0, sw_phase := W_FSYNC_RECORDS\<rparr>"
  have len: "length (sw_stage w) = REC_SIZE p" "0 < REC_SIZE p" using assms(2) by (simp_all add: sw_wf_def REC_SIZE_def)
  have "\<exists>s1. drain_stage p (one_fs ok) w s = (w\<lparr>sw_stage_len := 0, sw_stage_written := 0\<rparr>, s1, WrReady) \<and> of_at s1 \<le> length (of_bytes s1)"
  proof (cases "sw_stage_len w = 0")
    case True
    then show ?thesis using assms(6) by (simp add: drain_stage.simps [of p "one_fs ok" w s])
  next
    case False
    then show ?thesis using one_drain [of w p s ok] assms len by auto
  qed
  then obtain s1 where d1: "drain_stage p (one_fs ok) w s = (w\<lparr>sw_stage_len := 0, sw_stage_written := 0\<rparr>, s1, WrReady)"
    and s1: "of_at s1 \<le> length (of_bytes s1)" by blast
  have e1: "sw_finish_step p (one_fs ok) w s = (w1, s1, None)" using assms(1) by (simp add: sw_finish_step_def d1 w1_def)
  have "sw_phase w1 = W_FSYNC_RECORDS" "sw_wf p w1" "sw_fd_plus1 w1 = 4" using assms(2,5) by (simp_all add: w1_def sw_wf_def)
  then show ?thesis unfolding finish_next [OF e1] using one_fenced [of w1 p s1 ok] s1 by blast
qed

definition one_rec :: snap_record where
  "one_rec = (snap_empty Embedded)\<lparr>sr_root_len := 1, sr_path_len := 2, sr_revision := 9\<rparr>"

lemma one_rec_ok: "snap_ok Embedded one_rec" "snap_fits Embedded [one_rec]" "snap_sorted Embedded [one_rec]"
  by (simp_all add: snap_fits_def snap_sorted_def snap_ok_def one_rec_def snap_empty_def SNAP_HDR_def REC_SIZE_def MAX_ROOT_def MAX_PATH_def
      CONSTRAINED_def MAX_OBJECT_ID_def CONTENT_TYPE_MAX_def KEY_REF_MAX_def)

lemma one_key: "snap_key Embedded one_rec = ([0], [0, 0])"
proof -
  have "replicate 2 (0 :: u8) = [0, 0]" by (simp add: numeral_2_eq_2)
  then show ?thesis
    by (simp add: snap_key_def sr_root_def sr_path_def one_rec_def snap_empty_def MAX_ROOT_def MAX_PATH_def CONSTRAINED_def)
qed

definition one_blank :: one_file where
  "one_blank = \<lparr>of_bytes = [1, 2, 3], of_at = 0, of_named = True\<rparr>"

lemma one_history:
  obtains w s w' s' where "snap_hist Embedded (one_fs ok) one_target [97] 7 [one_rec] w s"
    and "sw_poll_finish Embedded (one_fs ok) w s = (w', s', if ok then WrReady else WrPending)"
    and "\<not> ok \<longrightarrow> sw_phase w' = W_NAME"
proof -
  define w0 where "w0 = snap_writer_new Embedded"
  have wf0: "sw_wf Embedded w0" by (simp add: w0_def snap_writer_new_def sw_wf_def)
  obtain w1 where w1: "sw_start [97] 7 w0 = (w1, True)"
    by (simp add: sw_start_def w0_def snap_writer_new_def SNAP_PATH_MAX_def WAL_PATH_BUF_def)
  have h1: "snap_hist Embedded (one_fs ok) one_target [97] 7 [] w1 one_blank" by (rule snap_hist.started [OF wf0 w1])
  have "sw_phase w1 = W_UNLINK" by (rule sw_start_inv(2) [OF wf0 w1])
  moreover have wf1: "sw_wf Embedded w1" using snap_hist_inv [OF h1 one_fs_target] by (simp add: sw_inv_def)
  ultimately obtain w2 s2 where o: "sw_poll_open Embedded (one_fs ok) w1 one_blank = (w2, s2, WrReady)"
    and w2: "sw_phase w2 = W_RECORDS" "sw_stage_len w2 = 0" "sw_fd_plus1 w2 = 4" "sw_stage_written w2 = 0"
      "length (sw_stage w2) = REC_SIZE Embedded" "length (sw_path_bytes w2) = SNAP_PATH_MAX" "of_at s2 \<le> length (of_bytes s2)"
    using one_open [of w1 Embedded ok one_blank] header_fits [of Embedded]
    by (auto simp: copy_prefix_def placeholder_def sw_wf_def)
  define w3 where "w3 = fst (sw_stage_record Embedded one_rec w2)"
  have "length (snap_bytes one_rec) = REC_SIZE Embedded" by (rule length_snap_bytes [OF one_rec_ok(1)])
  then have st: "sw_stage_record Embedded one_rec w2 = (w3, True)" "sw_phase w3 = W_RECORDS" "sw_stage_len w3 = REC_SIZE Embedded"
    "sw_fd_plus1 w3 = 4" "sw_stage_written w3 = 0" "sw_wf Embedded w3"
    using w2 by (simp_all add: w3_def sw_stage_record_def sw_can_stage_def snap_encode_def sw_wf_def copy_prefix_def)
  have h3: "snap_hist Embedded (one_fs ok) one_target [97] 7 [one_rec] w3 s2"
    using snap_hist.staged [OF snap_hist.opened [OF h1 o] one_rec_ok(1) st(1)] by simp
  obtain w4 s4 where "sw_poll_finish Embedded (one_fs ok) w3 s2 = (w4, s4, if ok then WrReady else WrPending)"
    "\<not> ok \<longrightarrow> sw_phase w4 = W_NAME"
    using one_finish [OF st(2,6,5) _ st(4) w2(7), of ok] st(3) by blast
  then show ?thesis using that h3 by blast
qed

lemma one_torn:
  obtains w s where "snap_hist Embedded (one_fs False) one_target [97] 7 [one_rec] w s" "sw_phase w = W_NAME"
    and "of_bytes s = snap_file 7 [one_rec]"
proof -
  obtain w s w' s' where h: "snap_hist Embedded (one_fs False) one_target [97] 7 [one_rec] w s"
    and f: "sw_poll_finish Embedded (one_fs False) w s = (w', s', WrPending)" "sw_phase w' = W_NAME"
    by (rule one_history [of False]) auto
  have h': "snap_hist Embedded (one_fs False) one_target [97] 7 [one_rec] w' s'" by (rule snap_hist.finished [OF h f(1)])
  have "of_bytes s' = sw_header w' @ snap_body [one_rec]" "sw_generation w' = 7" "sw_count w' = 1"
    using snap_hist_inv [OF h' one_fs_target] f(2) by (auto simp: sw_inv_def sw_at_def one_target_def)
  then have "of_bytes s' = snap_file 7 [one_rec]" by (simp add: sw_header_def snap_file_def snap_header_def snap_body_def)
  then show ?thesis using that h' f(2) by blast
qed

lemma one_read:
  assumes "n \<le> length (of_bytes s) - of_at s" "0 < n"
  shows "read_exact (one_fs ok) fd n s = (take n (drop (of_at s) (of_bytes s)), s\<lparr>of_at := of_at s + n\<rparr>, SrReady ())"
proof -
  define got where "got = take n (drop (of_at s) (of_bytes s))"
  have len: "length got = n" using assms by (simp add: got_def)
  have c: "one_fs ok s fd FS_READ (replicate n 0) = (s\<lparr>of_at := of_at s + n\<rparr>, int n, got)"
    using len by (simp add: one_fs_def fs_opcodes got_def [symmetric] copy_prefix_def)
  have "read_exact (one_fs ok) fd n s = read_exact_from (one_fs ok) fd n got (s\<lparr>of_at := of_at s + n\<rparr>)"
    using assms(2) len
    by (simp add: read_exact_def read_exact_from.simps [of "one_fs ok" fd 0 "replicate n 0" s] sub_slice_def c put_at_def
        fs_pending_def EAGAIN_def EINPROGRESS_def)
  also have "\<dots> = (got, s\<lparr>of_at := of_at s + n\<rparr>, SrReady ())"
    using read_exact_from.simps [of "one_fs ok" fd n got "s\<lparr>of_at := of_at s + n\<rparr>"] len by simp
  finally show ?thesis by (simp add: got_def)
qed

lemma one_opens:
  assumes acc: "snap_accepts p b" "length b < 2 ^ 32" "of_bytes s = b"
  obtains w s' sn where "snap_open_loop p (one_fs ok) path snap_opener_new s = (w, s', SoOpened sn)"
proof -
  define w1 where "w1 = snap_opener_new\<lparr>so_fd_plus1 := 4, so_phase := SO_SEEK\<rparr>"
  define w2 where "w2 = w1\<lparr>so_phase := SO_HDR\<rparr>"
  define w3 where "w3 = w2\<lparr>so_hdr := take SNAP_HDR b, so_phase := SO_STAT\<rparr>"
  define s1 where "s1 = s\<lparr>of_at := 0\<rparr>"
  define s3 where "s3 = s1\<lparr>of_at := SNAP_HDR\<rparr>"
  note ev = one_fs_def fs_opcodes fs_pending_def EAGAIN_def EINPROGRESS_def
  have e1: "snap_open_step p (one_fs ok) path snap_opener_new s = (w1, s1, None)"
    by (simp add: snap_open_step_def snap_opener_new_def ev w1_def s1_def)
  have e2: "snap_open_step p (one_fs ok) path w1 s1 = (w2, s1, None)"
    by (simp add: snap_open_step_def snap_opener_new_def ev w1_def w2_def snap_seek_def s1_def from_le_u32)
  have "read_exact (one_fs ok) 3 SNAP_HDR s1 = (take SNAP_HDR b, s3, SrReady ())"
    using one_read [of SNAP_HDR s1 ok 3] acc by (simp add: s1_def s3_def snap_accepts_def SNAP_HDR_def)
  then have e3: "snap_open_step p (one_fs ok) path w2 s1 = (w3, s3, None)"
    by (simp add: snap_open_step_def w1_def w2_def w3_def)
  have rd: "snap_readable (one_fs ok) path 3 one_reading" by (rule one_fs_readable)
  have "\<exists>sn. snap_open_step p (one_fs ok) path w3 s3 = (snap_opener_new, s3, Some (SoOpened sn))"
  proof -
    define cnt :: u32 where "cnt = from_le (sub_slice b 4 4)"
    have parts: "sub_slice (take SNAP_HDR b) 0 4 = take 4 b" "sub_slice (take SNAP_HDR b) 4 4 = sub_slice b 4 4"
      using sub_slice_take [of 0 4 SNAP_HDR b] sub_slice_take [of 4 4 SNAP_HDR b] by (simp_all add: SNAP_HDR_def sub_slice_def)
    have stat: "one_fs ok s3 3 FS_STAT (replicate 8 0) = (s3, 8, le_bytes 4 (word_of_nat (length b) :: u32) @ replicate 4 0)"
      using acc by (simp add: ev s3_def s1_def)
    have "unat (ucast (word_of_nat (length b) :: u32) :: u64) = length b"
      using acc(2) by (simp add: unat_ucast_up unat_of_nat_small)
    then have "(ucast (word_of_nat (length b) :: u32) :: u64) = word_of_nat SNAP_HDR + ucast cnt * word_of_nat (REC_SIZE p)"
      using acc(1) snap_expect [of cnt p] by (simp add: word_unat_eq_iff snap_accepts_def cnt_def)
    then show ?thesis
      using acc(1)
      by (simp add: snap_open_step_def w1_def w2_def w3_def stat parts snap_accepts_def Let_def from_le_u32 cnt_def
          fs_pending_def EAGAIN_def EINPROGRESS_def)
  qed
  then show ?thesis
    using that by (auto simp: snap_open_loop.simps [of p "one_fs ok" path snap_opener_new s] e1
        snap_open_loop.simps [of p "one_fs ok" path w1 s1] e2 snap_open_loop.simps [of p "one_fs ok" path w2 s1] e3
        snap_open_loop.simps [of p "one_fs ok" path w3 s3])
qed

definition one_file_of :: "bytes \<Rightarrow> one_file" where
  "one_file_of b = \<lparr>of_bytes = b, of_at = 0, of_named = True\<rparr>"

lemma one_gen:
  "snap_accepts Embedded (snap_file 7 [one_rec])" "length (snap_file 7 [one_rec]) < 2 ^ 32"
  using snap_file_accepted [OF one_rec_ok(2), of 7] length_snap_file [OF one_rec_ok(2), of 7] one_rec_ok(2)
  by (simp_all add: snap_fits_def)

section \<open>Properties\<close>

text \<open>The record codec is exact both ways: bytes decode to a record just when they begin
  with that record's encoding, and only records whose lengths and hold flag are in range
  are ever decoded.\<close>

theorem snap_codec:
  "snap_decode p bs = Some r \<longleftrightarrow>
     snap_ok p r \<and> length bs \<ge> REC_SIZE p \<and> take (REC_SIZE p) bs = snap_bytes r"
proof
  assume "snap_decode p bs = Some r"
  then show "snap_ok p r \<and> length bs \<ge> REC_SIZE p \<and> take (REC_SIZE p) bs = snap_bytes r"
    using snap_decode_inv [of p bs r] by simp
next
  assume "snap_ok p r \<and> length bs \<ge> REC_SIZE p \<and> take (REC_SIZE p) bs = snap_bytes r"
  then show "snap_decode p bs = Some r"
    using snap_decode_bytes [of p r "drop (REC_SIZE p) bs"] append_take_drop_id [of "REC_SIZE p" bs] by simp
qed

text \<open>C40: on a generation the opener accepted, every record's offset is computed without
  wrapping in 32 bits and the record lies inside the file.\<close>

theorem snap_offsets_fit:
  assumes "snap_readable call path fd v" "snap_open_loop p call path snap_opener_new s = (w, s', SoOpened sn)"
    and "i < unat (on_count sn)"
  shows "unat (word_of_nat SNAP_HDR + word_of_nat i * word_of_nat (REC_SIZE p) :: u32) = SNAP_HDR + i * REC_SIZE p \<and>
    SNAP_HDR + (i + 1) * REC_SIZE p \<le> length (rv_content v s)"
proof
  have a: "snap_accepts p (rv_content v s)" "length (rv_content v s) < 2 ^ 32" "sn = snap_handle (rv_content v s) fd"
    using open_loop_accepts [OF assms(1) so_inv_new [OF refl] assms(2)] by simp_all
  have "(i + 1) * REC_SIZE p \<le> unat (on_count sn) * REC_SIZE p" using assms(3) by (intro mult_le_mono1) simp
  then show le: "SNAP_HDR + (i + 1) * REC_SIZE p \<le> length (rv_content v s)"
    using a(1,3) by (simp add: snap_accepts_def snap_handle_def)
  have "(word_of_nat SNAP_HDR + word_of_nat i * word_of_nat (REC_SIZE p) :: u32) = word_of_nat (SNAP_HDR + i * REC_SIZE p)" by simp
  moreover have "SNAP_HDR + i * REC_SIZE p < 2 ^ 32" using le a(2) by simp
  ultimately show "unat (word_of_nat SNAP_HDR + word_of_nat i * word_of_nat (REC_SIZE p) :: u32) = SNAP_HDR + i * REC_SIZE p"
    using unat_of_nat_small [where 'a = 32, of "SNAP_HDR + i * REC_SIZE p"] by simp
qed

lemma snap_offsets_fit_witness:
  "\<exists>sn :: open_snapshot. unat (on_count sn) = 1 \<and> SNAP_HDR + (0 + 1) * REC_SIZE Embedded \<le> length (snap_file 7 [one_rec])"
proof -
  define s where "s = one_file_of (snap_file 7 [one_rec])"
  have b: "of_bytes s = snap_file 7 [one_rec]" "rv_content one_reading s = snap_file 7 [one_rec]"
    by (simp_all add: s_def one_file_of_def one_reading_def)
  obtain w s' sn where o: "snap_open_loop Embedded (one_fs True) [97] snap_opener_new s = (w, s', SoOpened sn)"
    by (rule one_opens [OF one_gen b(1)])
  have "sn = snap_handle (snap_file 7 [one_rec]) 3"
    using open_loop_accepts [OF one_fs_readable so_inv_new [OF refl] o] b(2) by simp
  then have c: "unat (on_count sn) = 1" using handle_backs(1) [OF one_rec_ok(2) b(2)] by (simp add: snap_backs_def)
  then show ?thesis using snap_offsets_fit [OF one_fs_readable o, of 0] b(2) by - (rule exI [of _ sn], simp)
qed

text \<open>C22: a search of a generation in key order answers the record of the key, or that there
  is none, exactly as the list of its records does; a search the provider does not complete
  says so and answers neither.\<close>

theorem snap_search_exact:
  assumes "log_reads call (on_fd sn) v" "snap_backs p v g recs sn s" "snap_sorted p recs"
    and "snap_search p call sn root path s = (s', r)"
  shows "r \<in> {SrReady (snap_find p (root, path) recs), SrPending, SrFailed} \<and>
    (reads_answer call (on_fd sn) \<longrightarrow> r = SrReady (snap_find p (root, path) recs)) \<and> rv_content v s' = rv_content v s"
proof -
  note sf = snap_search_finds [OF assms(1,4,2,3)]
  have "r \<in> {SrReady (snap_find p (root, path) recs), SrPending, SrFailed}" using sf(2) by (cases r) simp_all
  then show ?thesis using sf(1,3) by blast
qed

lemma snap_search_exact_witness:
  "snd (snap_search Embedded (one_fs True) (snap_handle (snap_file 7 [one_rec]) 3) [0] [0, 0]
      (one_file_of (snap_file 7 [one_rec]))) = SrReady (Some one_rec)"
proof -
  define s where "s = one_file_of (snap_file 7 [one_rec])"
  define sn where "sn = snap_handle (snap_file 7 [one_rec]) 3"
  have b: "rv_content one_reading s = snap_file 7 [one_rec]" by (simp add: s_def one_file_of_def one_reading_def)
  obtain s' r where run: "snap_search Embedded (one_fs True) sn [0] [0, 0] s = (s', r)" by (metis surj_pair)
  have "snap_find Embedded ([0], [0, 0]) [one_rec] = Some one_rec" by (simp add: snap_find_def one_key)
  moreover have "snap_backs Embedded one_reading 7 [one_rec] sn s" using handle_backs(1) [OF one_rec_ok(2) b] by (simp add: sn_def)
  ultimately have "r = SrReady (Some one_rec)"
    using snap_search_exact [OF one_fs_reads _ one_rec_ok(3) run] one_fs_answers by simp
  then show ?thesis using run by (simp add: sn_def s_def)
qed







end
