(* ===== verification/Namespace_Wire.thy ===== *)
theory Namespace_Wire
  imports Namespace_Leases
begin

text \<open>
  \<open>modules/common/mechanics/loam_wire.rs\<close>, the records that change the namespace: binds,
  renames, unbinds, retains, collector reservations, leases and volume commits, the two
  records a rotated log is seeded with, the write acks, and the splitters of a request
  stream.  Encoders write into a caller's buffer and leave what follows alone.
\<close>

section \<open>Constants and errors\<close>

definition OP_BIND :: u8 where "OP_BIND = 1"
definition OP_RENAME :: u8 where "OP_RENAME = 2"
definition OP_UNBIND :: u8 where "OP_UNBIND = 3"
definition OP_LOOKUP :: u8 where "OP_LOOKUP = 4"
definition OP_LIST :: u8 where "OP_LIST = 5"
definition OP_REFERENCED :: u8 where "OP_REFERENCED = 6"
definition OP_GC_RESERVE :: u8 where "OP_GC_RESERVE = 7"
definition OP_GC_RELEASE :: u8 where "OP_GC_RELEASE = 8"
definition OP_LEASE :: u8 where "OP_LEASE = 9"
definition OP_LEASE_RESTORE :: u8 where "OP_LEASE_RESTORE = 10"
definition OP_VOLUME :: u8 where "OP_VOLUME = 11"
definition OP_VOLUME_ROOTS :: u8 where "OP_VOLUME_ROOTS = 12"
definition OP_RETAIN :: u8 where "OP_RETAIN = 13"
definition OP_RETAINED :: u8 where "OP_RETAINED = 14"
definition OP_BINDING_RESTORE :: u8 where "OP_BINDING_RESTORE = 15"

lemmas ns_opcodes = OP_BIND_def OP_RENAME_def OP_UNBIND_def OP_LOOKUP_def OP_LIST_def OP_REFERENCED_def
  OP_GC_RESERVE_def OP_GC_RELEASE_def OP_LEASE_def OP_LEASE_RESTORE_def OP_VOLUME_def OP_VOLUME_ROOTS_def
  OP_RETAIN_def OP_RETAINED_def OP_BINDING_RESTORE_def

definition COND_ANY :: u8 where "COND_ANY = 0"
definition COND_ABSENT :: u8 where "COND_ABSENT = 1"
definition COND_REVISION :: u8 where "COND_REVISION = 2"

definition KIND_VOLUME :: u8 where "KIND_VOLUME = 3"
definition KIND_SYMLINK :: u8 where "KIND_SYMLINK = 4"

definition RETAIN_HOLD_LEAVE :: u8 where "RETAIN_HOLD_LEAVE = 0"
definition RETAIN_HOLD_SET :: u8 where "RETAIN_HOLD_SET = 1"
definition RETAIN_HOLD_CLEAR :: u8 where "RETAIN_HOLD_CLEAR = 2"

datatype ns_wire_error =
    WeBufferTooSmall nat nat
  | WeTruncated
  | WeBadOpcode u8
  | WeBadKind u8
  | WeStringTooLong nat nat

definition wire_check_key :: "profile \<Rightarrow> bytes \<Rightarrow> bytes \<Rightarrow> bytes \<Rightarrow> ns_wire_error option" where
  "wire_check_key p root path object_id =
     (case check_key p root path object_id of
        Inl e \<Rightarrow> Some (WeStringTooLong (ktl_len e) (ktl_max e))
      | Inr _ \<Rightarrow> None)"

text \<open>Little-endian fields, and what every encoder ends with: the check that the record
  fits, then its bytes at the front of the buffer.\<close>

abbreviation len16 :: "bytes \<Rightarrow> bytes" where
  "len16 bs \<equiv> le_bytes 2 (word_of_nat (length bs) :: u16)"

abbreviation get16 :: "bytes \<Rightarrow> nat \<Rightarrow> nat" where
  "get16 src at \<equiv> unat (from_le (sub_slice src at 2) :: u16)"

abbreviation get64 :: "bytes \<Rightarrow> nat \<Rightarrow> u64" where
  "get64 src at \<equiv> from_le (sub_slice src at 8)"

definition put_record :: "bytes \<Rightarrow> bytes \<Rightarrow> ns_wire_error + nat \<times> bytes" where
  "put_record dst frame =
     (if length dst < length frame then Inl (WeBufferTooSmall (length frame) (length dst))
      else Inr (length frame, copy_prefix frame dst))"

section \<open>Write acks\<close>

definition ACK_FENCE_MAX :: nat where "ACK_FENCE_MAX = 62"

definition is_write_op :: "u8 \<Rightarrow> bool" where
  "is_write_op op \<longleftrightarrow> op = OP_BIND \<or> op = OP_RENAME \<or> op = OP_UNBIND \<or> op = OP_RETAIN"

definition encode_write_ack :: "bytes \<Rightarrow> u8 \<Rightarrow> bytes \<Rightarrow> ns_wire_error + nat \<times> bytes" where
  "encode_write_ack dst op fence =
     (if \<not> is_write_op op then Inl (WeBadOpcode op)
      else if length fence > ACK_FENCE_MAX then Inl (WeStringTooLong (length fence) ACK_FENCE_MAX)
      else put_record dst ([op, word_of_nat (length fence)] @ fence))"

definition decode_write_ack :: "bytes \<Rightarrow> ns_wire_error + u8 \<times> bytes" where
  "decode_write_ack src =
     (if src = [] then Inl WeTruncated
      else if \<not> is_write_op (src ! 0) then Inl (WeBadOpcode (src ! 0))
      else if length src < 2 then Inl WeTruncated
      else let len = unat (src ! 1)
           in if len > ACK_FENCE_MAX then Inl (WeStringTooLong len ACK_FENCE_MAX)
              else if length src < 2 + len then Inl WeTruncated
              else Inr (src ! 0, sub_slice src 2 len))"

section \<open>Binds\<close>

record bind_meta =
  bm_stamp_ms :: u64
  bm_size :: u64
  bm_content_type :: bytes
  bm_key_ref :: bytes
  bm_retain_until_ms :: u64
  bm_hold :: bool

record decoded_bind =
  db_root :: bytes
  db_path :: bytes
  db_object_id :: bytes
  db_kind :: u8
  db_revision :: u64
  db_meta :: bind_meta
  db_cond :: u8
  db_expect :: u64

definition BIND_HDR :: nat where "BIND_HDR = 1 + 2 + 2 + 2 + 1 + 8 + 8 + 8 + 1 + 8 + 1 + 1 + 8 + 1"

definition bind_frame :: "u8 \<Rightarrow> decoded_bind \<Rightarrow> bytes" where
  "bind_frame op b =
     (let m = db_meta b
      in [op] @ len16 (db_root b) @ len16 (db_path b) @ len16 (db_object_id b) @ [db_kind b] @ le_bytes 8 (db_revision b) @
         le_bytes 8 (bm_stamp_ms m) @ le_bytes 8 (bm_size m) @ [db_cond b] @ le_bytes 8 (db_expect b) @
         [word_of_nat (length (bm_content_type m)), word_of_nat (length (bm_key_ref m))] @
         le_bytes 8 (bm_retain_until_ms m) @ [if bm_hold m then 1 else 0] @
         db_root b @ db_path b @ db_object_id b @ bm_content_type m @ bm_key_ref m)"

definition encode_bind :: "profile \<Rightarrow> bytes \<Rightarrow> decoded_bind \<Rightarrow> ns_wire_error + nat \<times> bytes" where
  "encode_bind p dst b =
     (case wire_check_key p (db_root b) (db_path b) (db_object_id b) of
        Some e \<Rightarrow> Inl e
      | None \<Rightarrow>
          if length (bm_content_type (db_meta b)) > CONTENT_TYPE_MAX then
            Inl (WeStringTooLong (length (bm_content_type (db_meta b))) CONTENT_TYPE_MAX)
          else if length (bm_key_ref (db_meta b)) > KEY_REF_MAX then
            Inl (WeStringTooLong (length (bm_key_ref (db_meta b))) KEY_REF_MAX)
          else if db_cond b > COND_REVISION then Inl (WeBadKind (db_cond b))
          else put_record dst (bind_frame OP_BIND b))"

definition decode_bind_fields :: "profile \<Rightarrow> bytes \<Rightarrow> ns_wire_error + decoded_bind" where
  "decode_bind_fields p src =
     (if length src < BIND_HDR then Inl WeTruncated
      else
        let ns_len = get16 src 1; path_len = get16 src 3; oid_len = get16 src 5;
            cond = src ! 32; ct_len = unat (src ! 41); key_ref_len = unat (src ! 42); hold = src ! 51
        in if cond > COND_REVISION then Inl (WeBadKind cond)
           else if ct_len > CONTENT_TYPE_MAX then Inl (WeStringTooLong ct_len CONTENT_TYPE_MAX)
           else if key_ref_len > KEY_REF_MAX then Inl (WeStringTooLong key_ref_len KEY_REF_MAX)
           else if hold > 1 then Inl (WeBadKind hold)
           else if length src < BIND_HDR + ns_len + path_len + oid_len + ct_len + key_ref_len then Inl WeTruncated
           else
             let at1 = BIND_HDR + ns_len; at2 = at1 + path_len; at3 = at2 + oid_len; at4 = at3 + ct_len;
                 root = sub_slice src BIND_HDR ns_len; path = sub_slice src at1 path_len; oid = sub_slice src at2 oid_len
             in case wire_check_key p root path oid of
                  Some e \<Rightarrow> Inl e
                | None \<Rightarrow>
                    Inr \<lparr>db_root = root, db_path = path, db_object_id = oid, db_kind = src ! 7, db_revision = get64 src 8,
                         db_meta = \<lparr>bm_stamp_ms = get64 src 16, bm_size = get64 src 24,
                           bm_content_type = sub_slice src at3 ct_len, bm_key_ref = sub_slice src at4 key_ref_len,
                           bm_retain_until_ms = get64 src 43, bm_hold = (hold = 1)\<rparr>,
                         db_cond = cond, db_expect = get64 src 33\<rparr>)"

definition decode_bind :: "profile \<Rightarrow> bytes \<Rightarrow> ns_wire_error + decoded_bind" where
  "decode_bind p src =
     (if src = [] then Inl WeTruncated
      else if src ! 0 \<noteq> OP_BIND then Inl (WeBadOpcode (src ! 0))
      else case decode_bind_fields p src of
             Inl e \<Rightarrow> Inl e
           | Inr b \<Rightarrow> if db_kind b > KIND_SYMLINK then Inl (WeBadKind (db_kind b)) else Inr b)"

definition encode_binding_restore :: "profile \<Rightarrow> bytes \<Rightarrow> decoded_bind \<Rightarrow> ns_wire_error + nat \<times> bytes" where
  \<comment> \<open>the code takes the key, object id, kind, revision and metadata; the condition is \<open>COND_ANY\<close>\<close>
  "encode_binding_restore p dst b =
     (case encode_bind p dst (b\<lparr>db_cond := COND_ANY, db_expect := 0\<rparr>) of
        Inl e \<Rightarrow> Inl e
      | Inr (n, out) \<Rightarrow> Inr (n, out[0 := OP_BINDING_RESTORE]))"

definition decode_binding_restore :: "profile \<Rightarrow> bytes \<Rightarrow> ns_wire_error + decoded_bind" where
  "decode_binding_restore p src =
     (if src = [] then Inl WeTruncated
      else if src ! 0 \<noteq> OP_BINDING_RESTORE then Inl (WeBadOpcode (src ! 0))
      else decode_bind_fields p src)"

section \<open>Renames, unbinds, retains\<close>

record decoded_rename =
  dr_root :: bytes
  dr_from :: bytes
  dr_to :: bytes
  dr_new_revision :: u64
  dr_stamp_ms :: u64

definition RENAME_HDR :: nat where "RENAME_HDR = 1 + 2 + 2 + 2 + 8 + 8"

definition rename_frame :: "decoded_rename \<Rightarrow> bytes" where
  "rename_frame r =
     [OP_RENAME] @ len16 (dr_root r) @ len16 (dr_from r) @ len16 (dr_to r) @ le_bytes 8 (dr_new_revision r) @
     le_bytes 8 (dr_stamp_ms r) @ dr_root r @ dr_from r @ dr_to r"

definition encode_rename :: "profile \<Rightarrow> bytes \<Rightarrow> decoded_rename \<Rightarrow> ns_wire_error + nat \<times> bytes" where
  "encode_rename p dst r =
     (case wire_check_key p (dr_root r) (dr_from r) [] of
        Some e \<Rightarrow> Inl e
      | None \<Rightarrow>
          case wire_check_key p (dr_root r) (dr_to r) [] of
            Some e \<Rightarrow> Inl e
          | None \<Rightarrow> put_record dst (rename_frame r))"

definition decode_rename :: "bytes \<Rightarrow> ns_wire_error + decoded_rename" where
  "decode_rename src =
     (if length src < RENAME_HDR then Inl WeTruncated
      else if src ! 0 \<noteq> OP_RENAME then Inl (WeBadOpcode (src ! 0))
      else
        let ns_len = get16 src 1; from_len = get16 src 3; to_len = get16 src 5
        in if length src < RENAME_HDR + ns_len + from_len + to_len then Inl WeTruncated
           else Inr \<lparr>dr_root = sub_slice src RENAME_HDR ns_len, dr_from = sub_slice src (RENAME_HDR + ns_len) from_len,
                     dr_to = sub_slice src (RENAME_HDR + ns_len + from_len) to_len,
                     dr_new_revision = get64 src 7, dr_stamp_ms = get64 src 15\<rparr>)"

record decoded_unbind =
  du_root :: bytes
  du_path :: bytes
  du_revision :: u64
  du_stamp_ms :: u64
  du_cond :: u8
  du_expect :: u64

definition UNBIND_HDR :: nat where "UNBIND_HDR = 1 + 2 + 2 + 8 + 8 + 1 + 8"

definition unbind_frame :: "decoded_unbind \<Rightarrow> bytes" where
  "unbind_frame r =
     [OP_UNBIND] @ len16 (du_root r) @ len16 (du_path r) @ le_bytes 8 (du_revision r) @ le_bytes 8 (du_stamp_ms r) @
     [du_cond r] @ le_bytes 8 (du_expect r) @ du_root r @ du_path r"

definition encode_unbind :: "profile \<Rightarrow> bytes \<Rightarrow> decoded_unbind \<Rightarrow> ns_wire_error + nat \<times> bytes" where
  "encode_unbind p dst r =
     (case wire_check_key p (du_root r) (du_path r) [] of
        Some e \<Rightarrow> Inl e
      | None \<Rightarrow> if du_cond r > COND_REVISION then Inl (WeBadKind (du_cond r)) else put_record dst (unbind_frame r))"

definition decode_unbind :: "bytes \<Rightarrow> ns_wire_error + decoded_unbind" where
  "decode_unbind src =
     (if length src < UNBIND_HDR then Inl WeTruncated
      else if src ! 0 \<noteq> OP_UNBIND then Inl (WeBadOpcode (src ! 0))
      else
        let ns_len = get16 src 1; path_len = get16 src 3; cond = src ! 21
        in if cond > COND_REVISION then Inl (WeBadKind cond)
           else if length src < UNBIND_HDR + ns_len + path_len then Inl WeTruncated
           else Inr \<lparr>du_root = sub_slice src UNBIND_HDR ns_len, du_path = sub_slice src (UNBIND_HDR + ns_len) path_len,
                     du_revision = get64 src 5, du_stamp_ms = get64 src 13, du_cond = cond, du_expect = get64 src 22\<rparr>)"

record decoded_retain =
  dt_root :: bytes
  dt_path :: bytes
  dt_revision :: u64
  dt_stamp_ms :: u64
  dt_expect :: u64
  dt_retain_until_ms :: u64
  dt_hold :: u8

definition RETAIN_HDR :: nat where "RETAIN_HDR = 1 + 2 + 2 + 8 + 8 + 8 + 8 + 1"

definition retain_frame :: "decoded_retain \<Rightarrow> bytes" where
  "retain_frame r =
     [OP_RETAIN] @ len16 (dt_root r) @ len16 (dt_path r) @ le_bytes 8 (dt_revision r) @ le_bytes 8 (dt_stamp_ms r) @
     le_bytes 8 (dt_expect r) @ le_bytes 8 (dt_retain_until_ms r) @ [dt_hold r] @ dt_root r @ dt_path r"

definition encode_retain :: "profile \<Rightarrow> bytes \<Rightarrow> decoded_retain \<Rightarrow> ns_wire_error + nat \<times> bytes" where
  "encode_retain p dst r =
     (case wire_check_key p (dt_root r) (dt_path r) [] of
        Some e \<Rightarrow> Inl e
      | None \<Rightarrow> if dt_hold r > RETAIN_HOLD_CLEAR then Inl (WeBadKind (dt_hold r)) else put_record dst (retain_frame r))"

definition decode_retain :: "profile \<Rightarrow> bytes \<Rightarrow> ns_wire_error + decoded_retain" where
  "decode_retain p src =
     (if length src < RETAIN_HDR then Inl WeTruncated
      else if src ! 0 \<noteq> OP_RETAIN then Inl (WeBadOpcode (src ! 0))
      else
        let ns_len = get16 src 1; path_len = get16 src 3; hold = src ! 37
        in if hold > RETAIN_HOLD_CLEAR then Inl (WeBadKind hold)
           else if length src < RETAIN_HDR + ns_len + path_len then Inl WeTruncated
           else
             let root = sub_slice src RETAIN_HDR ns_len; path = sub_slice src (RETAIN_HDR + ns_len) path_len
             in case wire_check_key p root path [] of
                  Some e \<Rightarrow> Inl e
                | None \<Rightarrow>
                    Inr \<lparr>dt_root = root, dt_path = path, dt_revision = get64 src 5, dt_stamp_ms = get64 src 13,
                         dt_expect = get64 src 21, dt_retain_until_ms = get64 src 29, dt_hold = hold\<rparr>)"

section \<open>Collector reservations\<close>

definition GC_RESERVE_HDR :: nat where "GC_RESERVE_HDR = 1 + 2 + 8"

definition gc_frame :: "u8 \<Rightarrow> bytes \<Rightarrow> u64 \<Rightarrow> bytes" where
  "gc_frame op object_id now_ms = [op] @ len16 object_id @ le_bytes 8 now_ms @ object_id"

definition encode_gc_record :: "profile \<Rightarrow> bytes \<Rightarrow> u8 \<Rightarrow> bytes \<Rightarrow> u64 \<Rightarrow> ns_wire_error + nat \<times> bytes" where
  "encode_gc_record p dst op object_id now_ms =
     (case wire_check_key p [] [] object_id of
        Some e \<Rightarrow> Inl e
      | None \<Rightarrow> put_record dst (gc_frame op object_id now_ms))"

definition encode_gc_reserve_req :: "profile \<Rightarrow> bytes \<Rightarrow> bytes \<Rightarrow> u64 \<Rightarrow> ns_wire_error + nat \<times> bytes" where
  "encode_gc_reserve_req p dst object_id now_ms = encode_gc_record p dst OP_GC_RESERVE object_id now_ms"

definition encode_gc_release_req :: "profile \<Rightarrow> bytes \<Rightarrow> bytes \<Rightarrow> ns_wire_error + nat \<times> bytes" where
  "encode_gc_release_req p dst object_id = encode_gc_record p dst OP_GC_RELEASE object_id 0"

definition decode_gc_reserve_req :: "bytes \<Rightarrow> ns_wire_error + bytes \<times> u64" where
  "decode_gc_reserve_req src =
     (if length src < GC_RESERVE_HDR then Inl WeTruncated
      else if src ! 0 \<noteq> OP_GC_RESERVE \<and> src ! 0 \<noteq> OP_GC_RELEASE then Inl (WeBadOpcode (src ! 0))
      else let len = get16 src 1
           in if length src < GC_RESERVE_HDR + len then Inl WeTruncated
              else Inr (sub_slice src GC_RESERVE_HDR len, get64 src 3))"

section \<open>Leases\<close>

record decoded_lease_req =
  dl_mode :: u8
  dl_root :: bytes
  dl_path :: bytes
  dl_holder :: bytes
  dl_now_ms :: u64
  dl_ttl_ms :: u32

definition LEASE_REQ_HDR :: nat where "LEASE_REQ_HDR = 1 + 1 + 2 + 2 + LEASE_HOLDER_LEN + 8 + 4"
definition LEASE_RESP_LEN :: nat where "LEASE_RESP_LEN = 1 + 1 + 8 + 8"
definition LEASE_RESTORE_HDR :: nat where "LEASE_RESTORE_HDR = 1 + 2 + 2 + LEASE_HOLDER_LEN + 8 + 8 + 8 + 1 + 8 + 8"

definition lease_req_frame :: "decoded_lease_req \<Rightarrow> bytes" where
  "lease_req_frame r =
     [OP_LEASE, dl_mode r] @ len16 (dl_root r) @ len16 (dl_path r) @ dl_holder r @ le_bytes 8 (dl_now_ms r) @
     le_bytes 4 (dl_ttl_ms r) @ dl_root r @ dl_path r"

definition encode_lease_req :: "profile \<Rightarrow> bytes \<Rightarrow> decoded_lease_req \<Rightarrow> ns_wire_error + nat \<times> bytes" where
  "encode_lease_req p dst r =
     (case wire_check_key p (dl_root r) (dl_path r) [] of
        Some e \<Rightarrow> Inl e
      | None \<Rightarrow> put_record dst (lease_req_frame r))"

definition decode_lease_req :: "profile \<Rightarrow> bytes \<Rightarrow> ns_wire_error + decoded_lease_req" where
  "decode_lease_req p src =
     (if length src < LEASE_REQ_HDR then Inl WeTruncated
      else if src ! 0 \<noteq> OP_LEASE then Inl (WeBadOpcode (src ! 0))
      else
        let ns_len = get16 src 2; path_len = get16 src 4; total = LEASE_REQ_HDR + ns_len + path_len
        in if length src < total then Inl WeTruncated
           else
             let root = sub_slice src LEASE_REQ_HDR ns_len; path = sub_slice src (LEASE_REQ_HDR + ns_len) path_len
             in case wire_check_key p root path [] of
                  Some e \<Rightarrow> Inl e
                | None \<Rightarrow>
                    Inr \<lparr>dl_mode = src ! 1, dl_root = root, dl_path = path, dl_holder = sub_slice src 6 LEASE_HOLDER_LEN,
                         dl_now_ms = get64 src 22, dl_ttl_ms = from_le (sub_slice src 30 4)\<rparr>)"

definition encode_lease_resp :: "bytes \<Rightarrow> u8 \<Rightarrow> u64 \<Rightarrow> u64 \<Rightarrow> ns_wire_error + nat \<times> bytes" where
  "encode_lease_resp dst status fence expires_at_ms =
     put_record dst ([OP_LEASE, status] @ le_bytes 8 fence @ le_bytes 8 expires_at_ms)"

definition decode_lease_resp :: "bytes \<Rightarrow> ns_wire_error + u8 \<times> u64 \<times> u64" where
  "decode_lease_resp src =
     (if length src < LEASE_RESP_LEN then Inl WeTruncated
      else if src ! 0 \<noteq> OP_LEASE then Inl (WeBadOpcode (src ! 0))
      else Inr (src ! 1, get64 src 2, get64 src 10))"

record decoded_lease_restore =
  ds_root :: bytes
  ds_path :: bytes
  ds_holder :: bytes
  ds_fence :: u64
  ds_expires_at_ms :: u64
  ds_stamp_ms :: u64
  ds_live :: bool
  ds_fence_floor :: u64
  ds_stamp_floor :: u64

definition LEASE_RESTORE_LIVE :: u8 where "LEASE_RESTORE_LIVE = 1"
definition LEASE_RESTORE_FLUSHING :: u8 where "LEASE_RESTORE_FLUSHING = 2"

definition lease_restore_frame :: "decoded_lease_restore \<Rightarrow> bytes" where
  "lease_restore_frame r =
     [OP_LEASE_RESTORE] @ len16 (ds_root r) @ len16 (ds_path r) @ ds_holder r @ le_bytes 8 (ds_fence r) @
     le_bytes 8 (ds_expires_at_ms r) @ le_bytes 8 (ds_stamp_ms r) @ [if ds_live r then 1 else 0] @
     le_bytes 8 (ds_fence_floor r) @ le_bytes 8 (ds_stamp_floor r) @ ds_root r @ ds_path r"

definition encode_lease_restore :: "profile \<Rightarrow> bytes \<Rightarrow> decoded_lease_restore \<Rightarrow> ns_wire_error + nat \<times> bytes" where
  "encode_lease_restore p dst r =
     (case wire_check_key p (ds_root r) (ds_path r) [] of
        Some e \<Rightarrow> Inl e
      | None \<Rightarrow> put_record dst (lease_restore_frame r))"

unbundle bit_operations_syntax

definition mark_lease_restore_flushing :: "bytes \<Rightarrow> bytes \<times> bool" where
  "mark_lease_restore_flushing rec =
     (if rec = [] \<or> rec ! 0 \<noteq> OP_LEASE_RESTORE then (rec, False)
      else if length rec \<le> 45 then (rec, False)
      else (rec[45 := (rec ! 45) OR LEASE_RESTORE_FLUSHING], True))"

definition lease_restore_flushing :: "bytes \<Rightarrow> bool" where
  "lease_restore_flushing src \<longleftrightarrow>
     src \<noteq> [] \<and> src ! 0 = OP_LEASE_RESTORE \<and> 45 < length src \<and> (src ! 45) AND LEASE_RESTORE_FLUSHING \<noteq> 0"

definition decode_lease_restore :: "profile \<Rightarrow> bytes \<Rightarrow> ns_wire_error + decoded_lease_restore" where
  "decode_lease_restore p src =
     (if length src < LEASE_RESTORE_HDR then Inl WeTruncated
      else if src ! 0 \<noteq> OP_LEASE_RESTORE then Inl (WeBadOpcode (src ! 0))
      else
        let ns_len = get16 src 1; path_len = get16 src 3; total = LEASE_RESTORE_HDR + ns_len + path_len
        in if length src < total then Inl WeTruncated
           else
             let root = sub_slice src LEASE_RESTORE_HDR ns_len; path = sub_slice src (LEASE_RESTORE_HDR + ns_len) path_len
             in case wire_check_key p root path [] of
                  Some e \<Rightarrow> Inl e
                | None \<Rightarrow>
                    Inr \<lparr>ds_root = root, ds_path = path, ds_holder = sub_slice src 5 LEASE_HOLDER_LEN,
                         ds_fence = get64 src 21, ds_expires_at_ms = get64 src 29, ds_stamp_ms = get64 src 37,
                         ds_live = ((src ! 45) AND LEASE_RESTORE_LIVE \<noteq> 0), ds_fence_floor = get64 src 46,
                         ds_stamp_floor = get64 src 54\<rparr>)"

section \<open>Volume commits\<close>

definition VOLUME_BEGIN :: u8 where "VOLUME_BEGIN = 1"
definition VOLUME_COMMIT :: u8 where "VOLUME_COMMIT = 2"
definition VOLUME_ABORT :: u8 where "VOLUME_ABORT = 3"
definition VOLUME_DELETE :: u8 where "VOLUME_DELETE = 4"

lemmas volume_modes = VOLUME_BEGIN_def VOLUME_COMMIT_def VOLUME_ABORT_def VOLUME_DELETE_def

definition VOLUME_OK :: u8 where "VOLUME_OK = 0"
definition VOLUME_CONFLICT :: u8 where "VOLUME_CONFLICT = 1"
definition VOLUME_LEASE_LOST :: u8 where "VOLUME_LEASE_LOST = 2"
definition VOLUME_RESERVED :: u8 where "VOLUME_RESERVED = 3"
definition VOLUME_BAD_REQ :: u8 where "VOLUME_BAD_REQ = 4"
definition VOLUME_RETAINED :: u8 where "VOLUME_RETAINED = 5"

lemmas volume_statuses = VOLUME_OK_def VOLUME_CONFLICT_def VOLUME_LEASE_LOST_def VOLUME_RESERVED_def
  VOLUME_BAD_REQ_def VOLUME_RETAINED_def

definition VOLUME_REQ_HDR :: nat where "VOLUME_REQ_HDR = 1 + 1 + 2 + 2 + 2 + LEASE_HOLDER_LEN + 8 + 8 + 8"
definition VOLUME_RESP_LEN :: nat where "VOLUME_RESP_LEN = 1 + 1 + 8"

record decoded_volume_req =
  dv_mode :: u8
  dv_root :: bytes
  dv_path :: bytes
  dv_object_id :: bytes
  dv_holder :: bytes
  dv_fence :: u64
  dv_expected :: u64
  dv_now_ms :: u64

definition volume_req_frame :: "decoded_volume_req \<Rightarrow> bytes" where
  "volume_req_frame r =
     [OP_VOLUME, dv_mode r] @ len16 (dv_root r) @ len16 (dv_path r) @ len16 (dv_object_id r) @ dv_holder r @
     le_bytes 8 (dv_fence r) @ le_bytes 8 (dv_expected r) @ le_bytes 8 (dv_now_ms r) @ dv_root r @ dv_path r @ dv_object_id r"

definition encode_volume_req :: "profile \<Rightarrow> bytes \<Rightarrow> decoded_volume_req \<Rightarrow> ns_wire_error + nat \<times> bytes" where
  "encode_volume_req p dst r =
     (case wire_check_key p (dv_root r) (dv_path r) (dv_object_id r) of
        Some e \<Rightarrow> Inl e
      | None \<Rightarrow> put_record dst (volume_req_frame r))"

definition decode_volume_req :: "profile \<Rightarrow> bytes \<Rightarrow> ns_wire_error + decoded_volume_req" where
  "decode_volume_req p src =
     (if length src < VOLUME_REQ_HDR then Inl WeTruncated
      else if src ! 0 \<noteq> OP_VOLUME then Inl (WeBadOpcode (src ! 0))
      else
        let ns_len = get16 src 2; path_len = get16 src 4; oid_len = get16 src 6;
            total = VOLUME_REQ_HDR + ns_len + path_len + oid_len
        in if length src < total then Inl WeTruncated
           else
             let root = sub_slice src VOLUME_REQ_HDR ns_len; path = sub_slice src (VOLUME_REQ_HDR + ns_len) path_len;
                 oid = sub_slice src (VOLUME_REQ_HDR + ns_len + path_len) oid_len
             in case wire_check_key p root path oid of
                  Some e \<Rightarrow> Inl e
                | None \<Rightarrow>
                    Inr \<lparr>dv_mode = src ! 1, dv_root = root, dv_path = path, dv_object_id = oid,
                         dv_holder = sub_slice src 8 LEASE_HOLDER_LEN, dv_fence = get64 src 24,
                         dv_expected = get64 src 32, dv_now_ms = get64 src 40\<rparr>)"

definition encode_volume_resp :: "bytes \<Rightarrow> u8 \<Rightarrow> u64 \<Rightarrow> ns_wire_error + nat \<times> bytes" where
  "encode_volume_resp dst status revision = put_record dst ([OP_VOLUME, status] @ le_bytes 8 revision)"

definition decode_volume_resp :: "bytes \<Rightarrow> ns_wire_error + u8 \<times> u64" where
  "decode_volume_resp src =
     (if length src < VOLUME_RESP_LEN then Inl WeTruncated
      else if src ! 0 \<noteq> OP_VOLUME then Inl (WeBadOpcode (src ! 0))
      else Inr (src ! 1, get64 src 2))"

section \<open>Splitting a request stream\<close>

definition ns_peek_opcode :: "bytes \<Rightarrow> u8 option" where
  "ns_peek_opcode src = (case src of [] \<Rightarrow> None | b # _ \<Rightarrow> Some b)"

definition RETAINED_HDR :: nat where "RETAINED_HDR = 1 + 4 + 2 + 8"

definition request_shape :: "u8 \<Rightarrow> (nat \<times> nat list) option" where
  \<comment> \<open>a request's header length, and where in it the lengths of its strings stand\<close>
  "request_shape op =
     (if op = OP_RENAME then Some (RENAME_HDR, [1, 3, 5])
      else if op = OP_UNBIND then Some (UNBIND_HDR, [1, 3])
      else if op = OP_RETAIN then Some (RETAIN_HDR, [1, 3])
      else if op = OP_LOOKUP then Some (5, [1, 3])
      else if op = OP_LIST then Some (8, [1, 3, 5])
      else if op = OP_REFERENCED then Some (7, [5])
      else if op = OP_RETAINED then Some (RETAINED_HDR, [5])
      else if op = OP_GC_RESERVE \<or> op = OP_GC_RELEASE then Some (GC_RESERVE_HDR, [1])
      else if op = OP_LEASE then Some (LEASE_REQ_HDR, [2, 4])
      else if op = OP_VOLUME then Some (VOLUME_REQ_HDR, [2, 4, 6])
      else if op = OP_VOLUME_ROOTS then Some (5, [])
      else None)"

definition request_record_len :: "bytes \<Rightarrow> ns_wire_error + nat option" where
  "request_record_len src =
     (case src of
        [] \<Rightarrow> Inr None
      | opcode # _ \<Rightarrow>
          if opcode = OP_BIND then
            if length src < BIND_HDR then Inr None
            else let total = BIND_HDR + get16 src 1 + get16 src 3 + get16 src 5 + unat (src ! 41) + unat (src ! 42)
                 in Inr (if length src \<ge> total then Some total else None)
          else case request_shape opcode of
                 None \<Rightarrow> Inl (WeBadOpcode opcode)
               | Some (header, lens_at) \<Rightarrow>
                   if length src < header then Inr None
                   else let total = header + sum_list (map (get16 src) lens_at)
                        in Inr (if length src \<ge> total then Some total else None))"

end
