(* ===== verification/Namespace_Apply.thy ===== *)
theory Namespace_Apply
  imports Namespace_Wire Namespace_Ops Snapshot_File
begin

text \<open>
  \<open>apply_op\<close> of \<open>modules/common/mechanics/namespace_pic_body.rs\<close> and what it calls: one record
  of the ordered log decided against the arena, the on-disk snapshot, the lease table and the
  collector's reservations.  The storage provider is threaded, as the snapshot may be read;
  a fault is \<open>Inl\<close>, and \<open>AfPending\<close> is a record not yet decided.
\<close>

section \<open>State and faults\<close>

record ns_module =
  nm_bindings :: ns_state
  nm_leases :: lease_table
  nm_gc_reserved :: "u64 list"
  nm_snap_active :: bool
  nm_snap :: open_snapshot
  nm_evictions :: u32
  nm_lease_resp :: bytes
  nm_volume_resp :: bytes

datatype apply_fault = AfReserved | AfFenced | AfCondition | AfStale | AfRetained | AfRejected | AfPending

type_synonym 'a applied = "apply_fault + 'a"

datatype current = CurArena binding_slot | CurSnapshot snap_record | CurUnreadable | CurPending

definition current ::
  "profile \<Rightarrow> 's provider \<Rightarrow> ns_module \<Rightarrow> bytes \<Rightarrow> bytes \<Rightarrow> 's \<Rightarrow> 's \<times> current option" where
  "current p call m root path s =
     (let (ns_h, p_h) = key_hash root path
      in case lookup_hashed (nm_bindings m) ns_h p_h root path of
           Some slot \<Rightarrow> (s, Some (CurArena slot))
         | None \<Rightarrow>
             if \<not> nm_snap_active m then (s, None)
             else case snap_search p call (nm_snap m) root path s of
                    (s, SrReady found) \<Rightarrow> (s, map_option CurSnapshot found)
                  | (s, SrPending) \<Rightarrow> (s, Some CurPending)
                  | (s, SrFailed) \<Rightarrow> (s, Some CurUnreadable))"

definition state_meta :: "bind_meta \<Rightarrow> meta" where
  "state_meta b = \<lparr>m_stamp_ms = bm_stamp_ms b, m_size = bm_size b, m_content_type = bm_content_type b,
     m_key_ref = bm_key_ref b, m_retain_until_ms = bm_retain_until_ms b, m_hold = bm_hold b\<rparr>"

definition wire_meta :: "meta \<Rightarrow> bind_meta" where
  "wire_meta m = \<lparr>bm_stamp_ms = m_stamp_ms m, bm_size = m_size m, bm_content_type = m_content_type m,
     bm_key_ref = m_key_ref m, bm_retain_until_ms = m_retain_until_ms m, bm_hold = m_hold m\<rparr>"

definition snap_retained_at :: "snap_record \<Rightarrow> u64 \<Rightarrow> bool" where
  "snap_retained_at r now \<longleftrightarrow> sr_kind r \<noteq> KIND_TOMBSTONE \<and> retained_at (sr_retain_until_ms r) (sr_hold r \<noteq> 0) now"

definition key_retained ::
  "profile \<Rightarrow> 's provider \<Rightarrow> ns_module \<Rightarrow> bytes \<Rightarrow> bytes \<Rightarrow> u64 \<Rightarrow> 's \<Rightarrow> 's \<times> (bool \<times> bool) applied" where
  "key_retained p call m root path now s =
     (case current p call m root path s of
        (s, Some (CurArena slot)) \<Rightarrow> (s, Inr (slot_retained_at slot now, bs_kind slot \<noteq> KIND_TOMBSTONE))
      | (s, Some (CurSnapshot r)) \<Rightarrow> (s, Inr (snap_retained_at r now, sr_kind r \<noteq> KIND_TOMBSTONE))
      | (s, Some CurUnreadable) \<Rightarrow> (s, Inl AfRejected)
      | (s, Some CurPending) \<Rightarrow> (s, Inl AfPending)
      | (s, None) \<Rightarrow> (s, Inr (False, False)))"

section \<open>Writes behind one eviction\<close>

definition evict_counted :: "profile \<Rightarrow> (bytes \<times> bytes) option \<Rightarrow> ns_module \<Rightarrow> ns_module option" where
  \<comment> \<open>\<open>evict_one_snapshotted_sparing\<close> and the counter, when a slot was freed\<close>
  "evict_counted p spare m =
     (case ns_evict p (nm_bindings m) spare of
        (st, True) \<Rightarrow> Some (m\<lparr>nm_bindings := st, nm_evictions := nm_evictions m + 1\<rparr>)
      | (st, False) \<Rightarrow> None)"

definition write_evicting ::
  "profile \<Rightarrow> bool \<Rightarrow> (ns_state \<Rightarrow> ns_state \<times> ns_result) \<Rightarrow> ns_module \<Rightarrow> ns_module \<times> ns_result" where
  \<comment> \<open>the write, and once more behind an eviction when the arena is full\<close>
  "write_evicting p may_evict write m =
     (case write (nm_bindings m) of
        (st, Inl OutOfCapacity) \<Rightarrow>
          (case (if may_evict then evict_counted p None m else None) of
             None \<Rightarrow> (m\<lparr>nm_bindings := st\<rparr>, Inl OutOfCapacity)
           | Some m' \<Rightarrow> (case write (nm_bindings m') of (st, r) \<Rightarrow> (m'\<lparr>nm_bindings := st\<rparr>, r)))
      | (st, r) \<Rightarrow> (m\<lparr>nm_bindings := st\<rparr>, r))"

definition rejecting :: "ns_result \<Rightarrow> 'a \<Rightarrow> 'a applied" where
  \<comment> \<open>\<open>res.map(|_| x).map_err(|_| Rejected)\<close>\<close>
  "rejecting r x = (case r of Inl _ \<Rightarrow> Inl AfRejected | Inr _ \<Rightarrow> Inr x)"

definition commit_binding ::
  "profile \<Rightarrow> bytes \<Rightarrow> bytes \<Rightarrow> bytes \<Rightarrow> u8 \<Rightarrow> u64 \<Rightarrow> meta \<Rightarrow> ns_module \<Rightarrow> ns_module \<times> unit applied" where
  "commit_binding p root path object_id kind revision meta m =
     (case write_evicting p (nm_snap_active m)
             (\<lambda>st. ns_commit_bind p st root path object_id kind revision meta) m of
        (m, r) \<Rightarrow> (m, rejecting r ()))"

definition remove_binding :: "profile \<Rightarrow> bytes \<Rightarrow> bytes \<Rightarrow> u64 \<Rightarrow> ns_module \<Rightarrow> ns_module \<times> unit applied" where
  "remove_binding p root path revision m =
     (case write_evicting p True (\<lambda>st. ns_tombstone p st root path revision) m of
        (m, r) \<Rightarrow> (m, rejecting r ()))"

section \<open>Volume bindings\<close>

definition volume_binding ::
  "profile \<Rightarrow> 's provider \<Rightarrow> ns_module \<Rightarrow> bytes \<Rightarrow> bytes \<Rightarrow> bytes \<Rightarrow> 's \<Rightarrow>
   's \<times> (u64 \<times> bool \<times> bool) option snap_read" where
  "volume_binding p call m root path object_id s =
     (let (ns_h, p_h) = key_hash root path
      in case lookup_hashed (nm_bindings m) ns_h p_h root path of
           Some slot \<Rightarrow>
             (s, SrReady (if bs_kind slot = KIND_TOMBSTONE then None
                else let volume = (bs_kind slot = KIND_VOLUME)
                     in Some (bs_revision slot, volume, volume \<and> slot_object_id slot = object_id)))
         | None \<Rightarrow>
             if \<not> nm_snap_active m then (s, SrReady None)
             else case snap_search p call (nm_snap m) root path s of
                    (s, SrReady None) \<Rightarrow> (s, SrReady None)
                  | (s, SrPending) \<Rightarrow> (s, SrPending)
                  | (s, SrFailed) \<Rightarrow> (s, SrFailed)
                  | (s, SrReady (Some r)) \<Rightarrow>
                      (s, SrReady (if sr_kind r = KIND_TOMBSTONE then None
                         else let volume = (sr_kind r = KIND_VOLUME)
                              in Some (sr_revision r, volume, volume \<and> sr_oid r = object_id))))"

definition is_volume_binding ::
  "profile \<Rightarrow> 's provider \<Rightarrow> ns_module \<Rightarrow> bytes \<Rightarrow> bytes \<Rightarrow> 's \<Rightarrow> 's \<times> bool snap_read" where
  "is_volume_binding p call m root path s =
     (case volume_binding p call m root path [] s of
        (s, SrReady v) \<Rightarrow> (s, SrReady (case v of Some (_, True, _) \<Rightarrow> True | _ \<Rightarrow> False))
      | (s, SrPending) \<Rightarrow> (s, SrPending)
      | (s, SrFailed) \<Rightarrow> (s, SrFailed))"

definition volume_gate ::
  "profile \<Rightarrow> 's provider \<Rightarrow> ns_module \<Rightarrow> bytes \<Rightarrow> bytes \<Rightarrow> 's \<Rightarrow> 's \<times> bool applied" where
  "volume_gate p call m root path s =
     (case is_volume_binding p call m root path s of
        (s, SrReady v) \<Rightarrow> (s, Inr v)
      | (s, SrPending) \<Rightarrow> (s, Inl AfPending)
      | (s, SrFailed) \<Rightarrow> (s, Inl AfRejected))"

definition flush_set :: "profile \<Rightarrow> decoded_volume_req \<Rightarrow> bool \<Rightarrow> ns_module \<Rightarrow> ns_module" where
  "flush_set p req on m =
     m\<lparr>nm_leases := fst (set_flushing p (nm_leases m) (dv_root req) (dv_path req) (dv_holder req) on)\<rparr>"

definition judge_commit ::
  "profile \<Rightarrow> decoded_volume_req \<Rightarrow> (u64 \<times> bool \<times> bool) option \<Rightarrow> bool \<Rightarrow> bool \<Rightarrow> bool \<Rightarrow> u64 \<Rightarrow> ns_module \<Rightarrow>
   ns_module \<times> u8 \<times> u64" where
  \<comment> \<open>the \<open>VOLUME_COMMIT\<close> arm of \<open>judge_volume_at\<close>\<close>
  "judge_commit p req cur retained same_generation holds cur_rev m =
     (if dv_object_id req = [] then (m, VOLUME_BAD_REQ, cur_rev)
      else case checked_add (dv_expected req) 1 of
             None \<Rightarrow> (m, VOLUME_BAD_REQ, cur_rev)
           | Some nxt \<Rightarrow>
               if (case cur of Some (rv, _, True) \<Rightarrow> rv = nxt | _ \<Rightarrow> False) then (m, VOLUME_OK, nxt)
               else if \<not> holds then
                 ((if same_generation then flush_set p req False m else m), VOLUME_LEASE_LOST, cur_rev)
               else if cur_rev \<noteq> dv_expected req then (flush_set p req False m, VOLUME_CONFLICT, cur_rev)
               else if \<not> is_flushing p (nm_leases m) (dv_root req) (dv_path req) (dv_holder req) then
                 (m, VOLUME_BAD_REQ, cur_rev)
               else
                 let m = flush_set p req False m
                 in if retained then (m, VOLUME_RETAINED, cur_rev)
                    else
                      case write_evicting p (nm_snap_active m)
                             (\<lambda>st. ns_commit_bind p st (dv_root req) (dv_path req) (dv_object_id req) KIND_VOLUME nxt
                                (meta_none\<lparr>m_stamp_ms := dv_now_ms req\<rparr>)) m of
                        (m, Inr _) \<Rightarrow> (m, VOLUME_OK, nxt)
                      | (m, Inl _) \<Rightarrow> (m, VOLUME_BAD_REQ, cur_rev))"

definition judge_delete ::
  "profile \<Rightarrow> decoded_volume_req \<Rightarrow> (u64 \<times> bool \<times> bool) option \<Rightarrow> bool \<Rightarrow> u64 \<Rightarrow> ns_module \<Rightarrow> ns_module \<times> u8 \<times> u64" where
  \<comment> \<open>the \<open>VOLUME_DELETE\<close> arm\<close>
  "judge_delete p req cur holds cur_rev m =
     (if \<not> holds then (m, VOLUME_LEASE_LOST, cur_rev)
      else
        let m = flush_set p req False m
        in case cur of
             Some (_, False, _) \<Rightarrow> (m, VOLUME_BAD_REQ, cur_rev)
           | None \<Rightarrow> (m, VOLUME_CONFLICT, cur_rev)
           | Some (rv, True, _) \<Rightarrow>
               if rv \<noteq> dv_expected req then (m, VOLUME_CONFLICT, cur_rev)
               else case remove_binding p (dv_root req) (dv_path req) (dv_expected req + 1) m of
                      (m, Inr _) \<Rightarrow> (m, VOLUME_OK, dv_expected req)
                    | (m, Inl _) \<Rightarrow> (m, VOLUME_BAD_REQ, cur_rev))"

definition judge_volume_at ::
  "profile \<Rightarrow> decoded_volume_req \<Rightarrow> (u64 \<times> bool \<times> bool) option \<Rightarrow> bool \<Rightarrow> ns_module \<Rightarrow> ns_module \<times> u8 \<times> u64" where
  "judge_volume_at p req cur retained m =
     (let root = dv_root req; path = dv_path req; cur_rev = (case cur of None \<Rightarrow> 0 | Some (rv, _) \<Rightarrow> rv)
      in if dv_now_ms req = 0 \<or> path = [] then (m, VOLUME_BAD_REQ, cur_rev)
         else
           case lease_touch p (nm_leases m) root path (dv_now_ms req) of
             (lt, Some True) \<Rightarrow>
               let m = m\<lparr>nm_leases := lt\<rparr>;
                   same_generation = (case lease p lt root path of
                                        Some e \<Rightarrow> le_holder e = dv_holder req \<and> le_fence e = dv_fence req | None \<Rightarrow> False);
                   holds = lease_holds p lt root path (dv_holder req) (dv_fence req) (dv_now_ms req)
               in if dv_mode req = VOLUME_BEGIN then
                    if \<not> holds then (m, VOLUME_LEASE_LOST, cur_rev)
                    else if list_ex (\<lambda>r. r \<noteq> 0) (nm_gc_reserved m) then (m, VOLUME_RESERVED, cur_rev)
                    else (flush_set p req True m, VOLUME_OK, cur_rev)
                  else if dv_mode req = VOLUME_ABORT then
                    if \<not> same_generation then (m, VOLUME_LEASE_LOST, cur_rev)
                    else (flush_set p req False m, VOLUME_OK, cur_rev)
                  else if dv_mode req = VOLUME_COMMIT then judge_commit p req cur retained same_generation holds cur_rev m
                  else if dv_mode req = VOLUME_DELETE then judge_delete p req cur holds cur_rev m
                  else (m, VOLUME_BAD_REQ, cur_rev)
           | (lt, _) \<Rightarrow> (m\<lparr>nm_leases := lt\<rparr>, VOLUME_LEASE_LOST, cur_rev))"

definition judge_volume ::
  "profile \<Rightarrow> 's provider \<Rightarrow> decoded_volume_req \<Rightarrow> ns_module \<Rightarrow> 's \<Rightarrow> ns_module \<times> 's \<times> (u8 \<times> u64) applied" where
  "judge_volume p call req m s =
     (case volume_binding p call m (dv_root req) (dv_path req) (dv_object_id req) s of
        (s, SrPending) \<Rightarrow> (m, s, Inl AfPending)
      | (s, SrFailed) \<Rightarrow> (m, s, Inl AfRejected)
      | (s, SrReady cur) \<Rightarrow>
          (case key_retained p call m (dv_root req) (dv_path req) (dv_now_ms req) s of
             (s, Inl e) \<Rightarrow> (m, s, Inl e)
           | (s, Inr (retained, _)) \<Rightarrow>
               (case judge_volume_at p req cur retained m of (m, st, rv) \<Rightarrow> (m, s, Inr (st, rv)))))"

section \<open>Retention and restores\<close>

definition hold_after :: "u8 \<Rightarrow> bool \<Rightarrow> bool" where
  "hold_after h hold = (if h = RETAIN_HOLD_SET then True else if h = RETAIN_HOLD_CLEAR then False else hold)"

definition retain_at ::
  "profile \<Rightarrow> decoded_retain \<Rightarrow> u64 \<Rightarrow> u8 \<Rightarrow> bytes \<Rightarrow> meta \<Rightarrow> ns_module \<Rightarrow> ns_module \<times> unit applied" where
  \<comment> \<open>\<open>apply_retain\<close> from the fields it has read of the current binding\<close>
  "retain_at p r rv kind oid cur m =
     (if dt_revision r \<le> rv then (m, Inl AfStale)
      else if rv \<noteq> dt_expect r \<or> kind = KIND_TOMBSTONE then (m, Inl AfCondition)
      else if kind = KIND_VOLUME then (m, Inl AfFenced)
      else if dt_retain_until_ms r \<noteq> 0 \<and> dt_retain_until_ms r < m_retain_until_ms cur then (m, Inl AfRetained)
      else
        let new_until = (if dt_retain_until_ms r \<noteq> 0 then dt_retain_until_ms r else m_retain_until_ms cur);
            new_hold = hold_after (dt_hold r) (m_hold cur)
        in if new_until = m_retain_until_ms cur \<and> new_hold = m_hold cur then (m, Inr ())
           else commit_binding p (dt_root r) (dt_path r) oid kind (dt_revision r)
                  (cur\<lparr>m_retain_until_ms := new_until, m_hold := new_hold\<rparr>) m)"

definition snap_meta :: "snap_record \<Rightarrow> meta" where
  "snap_meta r = \<lparr>m_stamp_ms = sr_stamp_ms r, m_size = sr_size r, m_content_type = sr_content_type r,
     m_key_ref = sr_key_ref r, m_retain_until_ms = sr_retain_until_ms r, m_hold = (sr_hold r \<noteq> 0)\<rparr>"

definition apply_retain ::
  "profile \<Rightarrow> 's provider \<Rightarrow> decoded_retain \<Rightarrow> ns_module \<Rightarrow> 's \<Rightarrow> ns_module \<times> 's \<times> unit applied" where
  "apply_retain p call r m s =
     (case current p call m (dt_root r) (dt_path r) s of
        (s, Some CurUnreadable) \<Rightarrow> (m, s, Inl AfRejected)
      | (s, Some CurPending) \<Rightarrow> (m, s, Inl AfPending)
      | (s, None) \<Rightarrow> (m, s, Inl AfCondition)
      | (s, Some (CurArena slot)) \<Rightarrow>
          (case retain_at p r (bs_revision slot) (bs_kind slot) (slot_object_id slot) (slot_meta slot) m of
             (m, res) \<Rightarrow> (m, s, res))
      | (s, Some (CurSnapshot x)) \<Rightarrow>
          (case retain_at p r (sr_revision x) (sr_kind x) (sr_oid x) (snap_meta x) m of (m, res) \<Rightarrow> (m, s, res)))"

definition restore_binding ::
  "profile \<Rightarrow> 's provider \<Rightarrow> decoded_bind \<Rightarrow> ns_module \<Rightarrow> 's \<Rightarrow> ns_module \<times> 's \<times> unit applied" where
  "restore_binding p call b m s =
     (let go = (\<lambda>cur_rev s.
            if db_revision b \<le> cur_rev then (m, s, Inr ())
            else if db_kind b = KIND_TOMBSTONE then
              (case remove_binding p (db_root b) (db_path b) (db_revision b) m of (m, r) \<Rightarrow> (m, s, r))
            else
              (case commit_binding p (db_root b) (db_path b) (db_object_id b) (db_kind b) (db_revision b)
                      (state_meta (db_meta b)) m of (m, r) \<Rightarrow> (m, s, r)))
      in case current p call m (db_root b) (db_path b) s of
           (s, Some (CurArena slot)) \<Rightarrow> go (bs_revision slot) s
         | (s, Some (CurSnapshot x)) \<Rightarrow> go (sr_revision x) s
         | (s, Some CurUnreadable) \<Rightarrow> (m, s, Inl AfRejected)
         | (s, Some CurPending) \<Rightarrow> (m, s, Inl AfPending)
         | (s, None) \<Rightarrow> go 0 s)"

section \<open>Binds, renames, unbinds\<close>

definition bind_at ::
  "profile \<Rightarrow> decoded_bind \<Rightarrow> u64 \<Rightarrow> bool \<Rightarrow> bool \<Rightarrow> bool \<Rightarrow> ns_module \<Rightarrow> ns_module \<times> unit applied" where
  \<comment> \<open>the \<open>OP_BIND\<close> arm from the key's current revision, liveness, sameness and retention\<close>
  "bind_at p b cur_rev live same retained m =
     (if db_revision b \<le> cur_rev then
        if live \<and> db_revision b = cur_rev \<and> same then (m, Inr ()) else (m, Inl AfStale)
      else if db_cond b = COND_ABSENT \<and> live then (m, Inl AfCondition)
      else if db_cond b = COND_REVISION \<and> cur_rev \<noteq> db_expect b then (m, Inl AfCondition)
      else if retained then (m, Inl AfRetained)
      else
        case write_evicting p (nm_snap_active m)
               (\<lambda>st. ns_bind p st (db_root b) (db_path b) (db_object_id b) (db_kind b) (db_revision b)
                       (state_meta (db_meta b))) m of
          (m, r) \<Rightarrow> (m, rejecting r ()))"

definition apply_bind ::
  "profile \<Rightarrow> 's provider \<Rightarrow> decoded_bind \<Rightarrow> ns_module \<Rightarrow> 's \<Rightarrow> ns_module \<times> 's \<times> unit applied" where
  "apply_bind p call b m s =
     (if fnv1a64 (db_object_id b) \<in> set (nm_gc_reserved m) then (m, s, Inl AfReserved)
      else if db_kind b = KIND_VOLUME then (m, s, Inl AfFenced)
      else
        case volume_gate p call m (db_root b) (db_path b) s of
          (s, Inl e) \<Rightarrow> (m, s, Inl e)
        | (s, Inr True) \<Rightarrow> (m, s, Inl AfFenced)
        | (s, Inr False) \<Rightarrow>
            (case current p call m (db_root b) (db_path b) s of
               (s, Some (CurArena slot)) \<Rightarrow>
                 (case bind_at p b (bs_revision slot) (bs_kind slot \<noteq> KIND_TOMBSTONE)
                         (bs_kind slot = db_kind b \<and> slot_object_id slot = db_object_id b)
                         (slot_retained_at slot (bm_stamp_ms (db_meta b))) m of (m, r) \<Rightarrow> (m, s, r))
             | (s, Some (CurSnapshot x)) \<Rightarrow>
                 (case bind_at p b (sr_revision x) (sr_kind x \<noteq> KIND_TOMBSTONE)
                         (sr_kind x = db_kind b \<and> sr_oid x = db_object_id b)
                         (snap_retained_at x (bm_stamp_ms (db_meta b))) m of (m, r) \<Rightarrow> (m, s, r))
             | (s, Some CurUnreadable) \<Rightarrow> (m, s, Inl AfRejected)
             | (s, Some CurPending) \<Rightarrow> (m, s, Inl AfPending)
             | (s, None) \<Rightarrow> (case bind_at p b 0 False False False m of (m, r) \<Rightarrow> (m, s, r))))"

definition rename_arena :: "profile \<Rightarrow> decoded_rename \<Rightarrow> ns_module \<Rightarrow> ns_module \<times> unit applied" where
  \<comment> \<open>\<open>apply_to_arena\<close>, and once more behind an eviction that spares the binding being moved\<close>
  "rename_arena p r m =
     (case ns_rename p (nm_bindings m) (dr_root r) (dr_from r) (dr_to r) (dr_new_revision r) of
        (st, Inr _) \<Rightarrow> (m\<lparr>nm_bindings := st\<rparr>, Inr ())
      | (st, Inl _) \<Rightarrow>
          (let m = m\<lparr>nm_bindings := st\<rparr>
           in case (if nm_snap_active m \<and> ns_len (nm_bindings m) = length (ns_slots (nm_bindings m))
                    then evict_counted p (Some (dr_root r, dr_from r)) m else None) of
                None \<Rightarrow> (m, Inl AfRejected)
              | Some m \<Rightarrow>
                  (case ns_rename p (nm_bindings m) (dr_root r) (dr_from r) (dr_to r) (dr_new_revision r) of
                     (st, res) \<Rightarrow> (m\<lparr>nm_bindings := st\<rparr>, rejecting res ()))))"

definition apply_rename ::
  "profile \<Rightarrow> 's provider \<Rightarrow> decoded_rename \<Rightarrow> ns_module \<Rightarrow> 's \<Rightarrow> ns_module \<times> 's \<times> unit applied" where
  "apply_rename p call r m s =
     (case volume_gate p call m (dr_root r) (dr_from r) s of
        (s, Inl e) \<Rightarrow> (m, s, Inl e)
      | (s, Inr True) \<Rightarrow> (m, s, Inl AfFenced)
      | (s, Inr False) \<Rightarrow>
          (case volume_gate p call m (dr_root r) (dr_to r) s of
             (s, Inl e) \<Rightarrow> (m, s, Inl e)
           | (s, Inr True) \<Rightarrow> (m, s, Inl AfFenced)
           | (s, Inr False) \<Rightarrow>
               (case key_retained p call m (dr_root r) (dr_from r) (dr_stamp_ms r) s of
                  (s, Inl e) \<Rightarrow> (m, s, Inl e)
                | (s, Inr (from_kept, _)) \<Rightarrow>
                    (case key_retained p call m (dr_root r) (dr_to r) (dr_stamp_ms r) s of
                       (s, Inl e) \<Rightarrow> (m, s, Inl e)
                     | (s, Inr (to_kept, to_live)) \<Rightarrow>
                         if from_kept \<or> to_kept then (m, s, Inl AfRetained)
                         else if to_live then (m, s, Inl AfRejected)
                         else (case rename_arena p r m of (m, res) \<Rightarrow> (m, s, res))))))"

definition unbind_at ::
  "profile \<Rightarrow> decoded_unbind \<Rightarrow> u64 \<Rightarrow> bool \<Rightarrow> bool \<Rightarrow> ns_module \<Rightarrow> ns_module \<times> unit applied" where
  "unbind_at p u cur_rev live retained m =
     (if \<not> live then
        if cur_rev = du_revision u \<and> du_revision u \<noteq> 0 then (m, Inr ()) else (m, Inl AfRejected)
      else if du_revision u \<le> cur_rev then (m, Inl AfStale)
      else if du_cond u = COND_REVISION \<and> cur_rev \<noteq> du_expect u then (m, Inl AfCondition)
      else if retained then (m, Inl AfRetained)
      else remove_binding p (du_root u) (du_path u) (du_revision u) m)"

definition apply_unbind ::
  "profile \<Rightarrow> 's provider \<Rightarrow> decoded_unbind \<Rightarrow> ns_module \<Rightarrow> 's \<Rightarrow> ns_module \<times> 's \<times> unit applied" where
  "apply_unbind p call u m s =
     (case volume_gate p call m (du_root u) (du_path u) s of
        (s, Inl e) \<Rightarrow> (m, s, Inl e)
      | (s, Inr True) \<Rightarrow> (m, s, Inl AfFenced)
      | (s, Inr False) \<Rightarrow>
          (case current p call m (du_root u) (du_path u) s of
             (s, Some (CurArena slot)) \<Rightarrow>
               (case unbind_at p u (bs_revision slot) (bs_kind slot \<noteq> KIND_TOMBSTONE)
                       (slot_retained_at slot (du_stamp_ms u)) m of (m, r) \<Rightarrow> (m, s, r))
           | (s, Some (CurSnapshot x)) \<Rightarrow>
               (case unbind_at p u (sr_revision x) (sr_kind x \<noteq> KIND_TOMBSTONE)
                       (snap_retained_at x (du_stamp_ms u)) m of (m, r) \<Rightarrow> (m, s, r))
           | (s, Some CurUnreadable) \<Rightarrow> (m, s, Inl AfRejected)
           | (s, Some CurPending) \<Rightarrow> (m, s, Inl AfPending)
           | (s, None) \<Rightarrow> (case unbind_at p u 0 False False m of (m, r) \<Rightarrow> (m, s, r))))"

section \<open>Reservations, leases, and the dispatch\<close>

definition gc_release :: "u64 \<Rightarrow> u64 list \<Rightarrow> u64 list" where
  "gc_release h rs = map (\<lambda>x. if x = h then 0 else x) rs"

definition gc_reserve :: "u64 \<Rightarrow> u64 list \<Rightarrow> u64 list" where
  "gc_reserve h rs =
     (if h \<in> set rs then rs
      else case first_index (\<lambda>x. x = 0) rs of None \<Rightarrow> rs | Some i \<Rightarrow> rs[i := h])"

definition apply_gc :: "u8 \<Rightarrow> bytes \<Rightarrow> u64 \<Rightarrow> ns_module \<Rightarrow> ns_module" where
  "apply_gc op object_id now m =
     (let h = fnv1a64 object_id
      in if op = OP_GC_RESERVE then
           m\<lparr>nm_leases := fst (end_expired_flushes (nm_leases m) now), nm_gc_reserved := gc_reserve h (nm_gc_reserved m)\<rparr>
         else m\<lparr>nm_gc_reserved := gc_release h (nm_gc_reserved m)\<rparr>)"

fun lease_status_byte :: "lease_status \<Rightarrow> u8" where
  "lease_status_byte Granted = 0"
| "lease_status_byte Held = 1"
| "lease_status_byte Lost = 2"
| "lease_status_byte Busy = 3"
| "lease_status_byte BadRequest = 4"
| "lease_status_byte Stale = 5"

definition apply_lease :: "profile \<Rightarrow> decoded_lease_req \<Rightarrow> ns_module \<Rightarrow> ns_module \<times> unit applied" where
  "apply_lease p r m =
     (let (lt, out) = lease_apply p (nm_leases m) (dl_mode r) (dl_root r) (dl_path r) (dl_holder r) (dl_now_ms r) (dl_ttl_ms r);
          m = m\<lparr>nm_leases := lt\<rparr>
      in case encode_lease_resp (nm_lease_resp m) (lease_status_byte (lo_status out)) (lo_fence out) (lo_expires_at out) of
           Inl _ \<Rightarrow> (m, Inl AfRejected)
         | Inr (_, resp) \<Rightarrow> (m\<lparr>nm_lease_resp := resp\<rparr>, Inr ()))"

definition apply_lease_restore :: "profile \<Rightarrow> decoded_lease_restore \<Rightarrow> bool \<Rightarrow> ns_module \<Rightarrow> ns_module \<times> unit applied" where
  "apply_lease_restore p r flushing m =
     (case lease_restore p (nm_leases m) (ds_root r) (ds_path r) (ds_holder r) (ds_fence r) (ds_expires_at_ms r)
             (ds_stamp_ms r) (ds_live r) (ds_fence_floor r) (ds_stamp_floor r) of
        (lt, False) \<Rightarrow> (m\<lparr>nm_leases := lt\<rparr>, Inl AfRejected)
      | (lt, True) \<Rightarrow>
          (m\<lparr>nm_leases := if flushing then fst (set_flushing p lt (ds_root r) (ds_path r) (ds_holder r) True) else lt\<rparr>, Inr ()))"

definition apply_volume ::
  "profile \<Rightarrow> 's provider \<Rightarrow> decoded_volume_req \<Rightarrow> ns_module \<Rightarrow> 's \<Rightarrow> ns_module \<times> 's \<times> unit applied" where
  "apply_volume p call req m s =
     (case judge_volume p call req m s of
        (m, s, Inl e) \<Rightarrow> (m, s, Inl e)
      | (m, s, Inr (status, rv)) \<Rightarrow>
          (case encode_volume_resp (nm_volume_resp m) status rv of
             Inl _ \<Rightarrow> (m, s, Inl AfRejected)
           | Inr (_, resp) \<Rightarrow> (m\<lparr>nm_volume_resp := resp\<rparr>, s, Inr ())))"

definition with_decoded ::
  "ns_wire_error + 'a \<Rightarrow> ('a \<Rightarrow> ns_module \<times> 's \<times> unit applied) \<Rightarrow> ns_module \<Rightarrow> 's \<Rightarrow> ns_module \<times> 's \<times> unit applied" where
  \<comment> \<open>\<open>decode(..).map_err(|_| Rejected)?\<close>, then the arm\<close>
  "with_decoded d k m s = (case d of Inl _ \<Rightarrow> (m, s, Inl AfRejected) | Inr x \<Rightarrow> k x)"

definition apply_op :: "profile \<Rightarrow> 's provider \<Rightarrow> bytes \<Rightarrow> ns_module \<Rightarrow> 's \<Rightarrow> ns_module \<times> 's \<times> unit applied" where
  \<comment> \<open>a success answers the payload's own opcode, which is left out\<close>
  "apply_op p call payload m s =
     (case ns_peek_opcode payload of
        None \<Rightarrow> (m, s, Inl AfRejected)
      | Some op \<Rightarrow>
          if op = OP_GC_RESERVE \<or> op = OP_GC_RELEASE then
            with_decoded (decode_gc_reserve_req payload) (\<lambda>(oid, now). (apply_gc op oid now m, s, Inr ())) m s
          else if op = OP_LEASE then
            with_decoded (decode_lease_req p payload) (\<lambda>r. case apply_lease p r m of (m, res) \<Rightarrow> (m, s, res)) m s
          else if op = OP_LEASE_RESTORE then
            with_decoded (decode_lease_restore p payload)
              (\<lambda>r. case apply_lease_restore p r (lease_restore_flushing payload) m of (m, res) \<Rightarrow> (m, s, res)) m s
          else if op = OP_BINDING_RESTORE then
            with_decoded (decode_binding_restore p payload) (\<lambda>b. restore_binding p call b m s) m s
          else if op = OP_RETAIN then with_decoded (decode_retain p payload) (\<lambda>r. apply_retain p call r m s) m s
          else if op = OP_VOLUME then with_decoded (decode_volume_req p payload) (\<lambda>r. apply_volume p call r m s) m s
          else if op = OP_BIND then with_decoded (decode_bind p payload) (\<lambda>b. apply_bind p call b m s) m s
          else if op = OP_RENAME then with_decoded (decode_rename payload) (\<lambda>r. apply_rename p call r m s) m s
          else if op = OP_UNBIND then with_decoded (decode_unbind payload) (\<lambda>u. apply_unbind p call u m s) m s
          else
            \<comment> \<open>\<open>apply_to_arena\<close> refuses it; a full arena is still relieved of one slot\<close>
            (case (if nm_snap_active m \<and> ns_len (nm_bindings m) = length (ns_slots (nm_bindings m))
                   then evict_counted p None m else None) of
               None \<Rightarrow> (m, s, Inl AfRejected)
             | Some m \<Rightarrow> (m, s, Inl AfRejected)))"

end
