(* ===== verification/Namespace_View.thy ===== *)
theory Namespace_View
  imports Namespace_Apply Snapshot_Search
begin

text \<open>
  What the namespace says of a key, wherever it lives: the arena's entry, else the snapshot's
  record.  Eviction does not change it, \<open>current\<close> reads it, and each write of \<open>apply_op\<close>
  changes it at the keys it names and nowhere else.
\<close>

section \<open>One map over arena and snapshot\<close>

record kview =
  k_object_id :: bytes
  k_kind :: u8
  k_revision :: u64
  k_meta :: meta

definition slot_kview :: "binding_slot \<Rightarrow> kview" where
  "slot_kview s = \<lparr>k_object_id = slot_object_id s, k_kind = bs_kind s, k_revision = bs_revision s, k_meta = slot_meta s\<rparr>"

definition snap_kview :: "snap_record \<Rightarrow> kview" where
  "snap_kview r = \<lparr>k_object_id = sr_oid r, k_kind = sr_kind r, k_revision = sr_revision r, k_meta = snap_meta r\<rparr>"

definition k_live :: "kview \<Rightarrow> bool" where
  "k_live v \<longleftrightarrow> k_kind v \<noteq> KIND_TOMBSTONE"

definition k_retained :: "u64 \<Rightarrow> kview \<Rightarrow> bool" where
  "k_retained now v \<longleftrightarrow> k_live v \<and> retained_at (m_retain_until_ms (k_meta v)) (m_hold (k_meta v)) now"

definition tomb_view :: "u64 \<Rightarrow> kview" where
  "tomb_view revision = \<lparr>k_object_id = [], k_kind = KIND_TOMBSTONE, k_revision = revision, k_meta = meta_none\<rparr>"

type_synonym kmap = "bytes \<times> bytes \<Rightarrow> kview option"

definition below_view :: "profile \<Rightarrow> snap_record list \<Rightarrow> ns_module \<Rightarrow> kmap" where
  "below_view p recs m k = (if nm_snap_active m then map_option snap_kview (snap_find p k recs) else None)"

definition arena_over :: "ns_state \<Rightarrow> kmap \<Rightarrow> kmap" where
  "arena_over st below k = (case ns_map st k of Some s \<Rightarrow> Some (slot_kview s) | None \<Rightarrow> below k)"

definition module_view :: "profile \<Rightarrow> snap_record list \<Rightarrow> ns_module \<Rightarrow> kmap" where
  "module_view p recs m = arena_over (nm_bindings m) (below_view p recs m)"

text \<open>The invariant: the arena is well formed, no slot is locked, its hold flag is one bit, and the
  snapshot covers every slot marked as in it.\<close>

definition arena_covered :: "profile \<Rightarrow> kmap \<Rightarrow> ns_state \<Rightarrow> bool" where
  "arena_covered p below st \<longleftrightarrow> ns_ok p st \<and>
     (\<forall>k s. ns_map st k = Some s \<longrightarrow> bs_locked s = 0 \<and> bs_hold s \<le> 1 \<and> (bs_snapshotted s \<noteq> 0 \<longrightarrow> below k = Some (slot_kview s)))"

definition nm_ok :: "profile \<Rightarrow> snap_record list \<Rightarrow> ns_module \<Rightarrow> bool" where
  "nm_ok p recs m \<longleftrightarrow> arena_covered p (below_view p recs m) (nm_bindings m)"

definition same_but_arena :: "ns_module \<Rightarrow> ns_module \<Rightarrow> bool" where
  "same_but_arena m m' \<longleftrightarrow> nm_leases m' = nm_leases m \<and> nm_gc_reserved m' = nm_gc_reserved m \<and>
     nm_snap_active m' = nm_snap_active m \<and> nm_snap m' = nm_snap m \<and>
     nm_lease_resp m' = nm_lease_resp m \<and> nm_volume_resp m' = nm_volume_resp m"

lemma same_but_arena_refl [simp]: "same_but_arena m m"
  by (simp add: same_but_arena_def)

lemma same_but_arena_upd [simp]: "same_but_arena m (m\<lparr>nm_bindings := st\<rparr>)"
  by (simp add: same_but_arena_def)

lemma same_but_arena_trans: "same_but_arena m m' \<Longrightarrow> same_but_arena m' m'' \<Longrightarrow> same_but_arena m m''"
  by (simp add: same_but_arena_def)

lemma below_view_same: "same_but_arena m m' \<Longrightarrow> below_view p recs m' = below_view p recs m"
  by (auto simp: same_but_arena_def below_view_def fun_eq_iff)

section \<open>How an arena may move\<close>

definition fresh_slot :: "binding_slot \<Rightarrow> bool" where
  "fresh_slot s \<longleftrightarrow> bs_locked s = 0 \<and> bs_hold s \<le> 1 \<and> bs_snapshotted s = 0 \<and> bs_cmp_emitted s = 0"

text \<open>Entries are put fresh, and only slots the snapshot covers are dropped.\<close>

inductive moves :: "ns_state \<Rightarrow> ns_state \<Rightarrow> bool" where
  moves_refl: "moves st st"
| moves_put: "moves st st1 \<Longrightarrow> ns_map st2 = (ns_map st1)(k \<mapsto> s) \<Longrightarrow> fresh_slot s \<Longrightarrow> moves st st2"
| moves_evict: "moves st st1 \<Longrightarrow> ns_map st1 k = Some s \<Longrightarrow> bs_snapshotted s \<noteq> 0 \<Longrightarrow> ns_map st2 = (ns_map st1)(k := None) \<Longrightarrow> moves st st2"

lemma moves_trans: "moves st1 st2 \<Longrightarrow> moves st st1 \<Longrightarrow> moves st st2"
  by (induction rule: moves.induct) (auto intro: moves_put moves_evict)

lemmas moves_one = moves_put [OF moves_refl] moves_evict [OF moves_refl]

section \<open>Eviction changes nothing\<close>

lemma evict_covered:
  assumes cov: "arena_covered p below st" and ev: "ns_evict p st spare = (st', True)"
  shows "arena_covered p below st'" "arena_over st' below = arena_over st below"
    and "\<And>k s. ns_map st' k = Some s \<Longrightarrow> ns_map st k = Some s" "moves st st'"
proof -
  have ok: "ns_ok p st" using cov by (simp add: arena_covered_def)
  obtain k s where e: "ns_ok p st'" "ns_map st k = Some s" "ns_map st' = (ns_map st)(k := None)" "bs_snapshotted s \<noteq> 0"
    using evict_ok [OF ok ev] by auto
  have b: "below k = Some (slot_kview s)" using cov e(2,4) unfolding arena_covered_def by blast
  show "arena_covered p below st'" using cov e by (auto simp: arena_covered_def split: if_splits)
  show "arena_over st' below = arena_over st below" using e b by (auto simp: arena_over_def fun_eq_iff)
  show "\<And>k s. ns_map st' k = Some s \<Longrightarrow> ns_map st k = Some s" using e by (auto split: if_splits)
  show "moves st st'" by (rule moves_one(2) [OF e(2,4,3)])
qed

lemma evict_counted_view:
  assumes "nm_ok p recs m" "evict_counted p spare m = Some m'"
  shows "nm_ok p recs m'" "module_view p recs m' = module_view p recs m" "same_but_arena m m'"
    and "\<And>k s. ns_map (nm_bindings m') k = Some s \<Longrightarrow> ns_map (nm_bindings m) k = Some s"
    and "moves (nm_bindings m) (nm_bindings m')"
proof -
  obtain st' where e: "ns_evict p (nm_bindings m) spare = (st', True)"
    "m' = m\<lparr>nm_bindings := st', nm_evictions := nm_evictions m + 1\<rparr>"
    using assms(2) by (auto simp: evict_counted_def split: prod.splits bool.splits)
  show same: "same_but_arena m m'" by (simp add: e same_but_arena_def)
  note ec = evict_covered [OF assms(1) [unfolded nm_ok_def] e(1)]
  show "nm_ok p recs m'" using ec(1) by (simp add: nm_ok_def below_view_same [OF same]) (simp add: e)
  show "module_view p recs m' = module_view p recs m"
    using ec(2) by (simp add: module_view_def below_view_same [OF same]) (simp add: e)
  show "\<And>k s. ns_map (nm_bindings m') k = Some s \<Longrightarrow> ns_map (nm_bindings m) k = Some s" using ec(3) by (simp add: e)
  show "moves (nm_bindings m) (nm_bindings m')" using ec(4) by (simp add: e)
qed

section \<open>Writes\<close>

definition writes :: "profile \<Rightarrow> bool \<Rightarrow> bytes \<times> bytes \<Rightarrow> kview \<Rightarrow> ns_state \<Rightarrow> ns_state \<times> ns_result \<Rightarrow> bool" where
  \<comment> \<open>a refusal changes nothing; a success puts an unlocked slot the snapshot does not cover; what
    fits is written when a slot is free\<close>
  "writes p fits k v st out \<longleftrightarrow>
     (case out of
        (st', Inl _) \<Rightarrow> st' = st \<and> (fits \<longrightarrow> ns_full st)
      | (st', Inr _) \<Rightarrow> ns_ok p st' \<and>
          (\<exists>s. ns_map st' = (ns_map st)(k \<mapsto> s) \<and> slot_kview s = v \<and> fresh_slot s))"

definition target_fits :: "profile \<Rightarrow> bytes \<times> bytes \<Rightarrow> bytes \<Rightarrow> meta \<Rightarrow> bool" where
  "target_fits p k d m \<longleftrightarrow> key_fits p (fst k) (snd k) d \<and>
     length (m_content_type m) \<le> CONTENT_TYPE_MAX \<and> length (m_key_ref m) \<le> KEY_REF_MAX"

lemma writes_puts:
  assumes "ns_ok p st" "puts p st k i s" "slot_kview s = v" "fresh_slot s"
  shows "writes p fits k v st (set_slot st i s seq, Inr r)"
  using puts_ok [OF assms(1,2)] assms(3-) by (auto simp: writes_def)

lemma kview_of_view:
  "slot_kview s = \<lparr>k_object_id = v_object_id (slot_view s), k_kind = v_kind (slot_view s),
     k_revision = v_revision (slot_view s), k_meta = v_meta (slot_view s)\<rparr>"
  by (simp add: slot_kview_def)

lemma slot_flags [simp]:
  "fresh_slot (rebound d kind revision m seq s) \<longleftrightarrow> bs_locked s = 0"
  "fresh_slot ((rebound d kind revision m seq s)\<lparr>bs_expires_at := 0\<rparr>) \<longleftrightarrow> bs_locked s = 0"
  "fresh_slot (fresh p r q d kind revision m seq)" "fresh_slot (fresh_tomb p r q revision seq)"
  "fresh_slot (entomb revision seq s) \<longleftrightarrow> bs_locked s = 0"
  "fresh_slot ((entomb revision seq s)\<lparr>bs_expires_at := 0\<rparr>) \<longleftrightarrow> bs_locked s = 0"
  "fresh_slot (move_slot p to revision seq s) \<longleftrightarrow> bs_locked s = 0 \<and> bs_hold s \<le> 1"
  by (simp_all add: fresh_slot_def rebound_def fresh_def fresh_tomb_def entomb_def move_slot_def set_meta_def put_object_id_def put_root_def
      put_path_def empty_slot_def Let_def)

lemma unlocked_at:
  assumes "arena_covered p below st" "i < length (ns_slots st)" "slot_key (ns_slots st ! i) = Some k"
  shows "bs_locked (ns_slots st ! i) = 0" "ns_map st k = Some (ns_slots st ! i)"
proof -
  show m: "ns_map st k = Some (ns_slots st ! i)" using assms ns_map_at [of p st i k] by (simp add: arena_covered_def)
  show "bs_locked (ns_slots st ! i) = 0" using assms(1) m unfolding arena_covered_def by blast
qed

lemma no_free_full: "first_index (\<lambda>s. \<not> bs_occupied s) (ns_slots st) = None \<Longrightarrow> ns_full st"
  by (simp add: free_slot)

lemma bind_writes:
  assumes cov: "arena_covered p below st" and newer: "\<And>s. ns_map st (r, q) = Some s \<Longrightarrow> bs_revision s < revision"
  shows "writes p (target_fits p (r, q) d m) (r, q) \<lparr>k_object_id = d, k_kind = kind, k_revision = revision, k_meta = m\<rparr> st
    (ns_bind p st r q d kind revision m)"
proof (cases "target_fits p (r, q) d m")
  case False
  then show ?thesis by (auto simp: ns_bind_eq writes_def target_fits_def not_le)
next
  case True
  have ok: "ns_ok p st" using cov by (simp add: arena_covered_def)
  have fits: "key_fits p r q d" "length (m_content_type m) \<le> CONTENT_TYPE_MAX" "length (m_key_ref m) \<le> KEY_REF_MAX"
    using True by (simp_all add: target_fits_def)
  then have lens: "length d \<le> MAX_OBJECT_ID" by (simp add: key_fits_def)
  show ?thesis
  proof (cases "first_index (slot_matches (fnv1a64 r) (fnv1a64 q) r q) (ns_slots st)")
    case (Some i)
    have i: "i < length (ns_slots st)" "slot_key (ns_slots st ! i) = Some (r, q)" using scan_keyD(1) [OF ok Some] by auto
    note u = unlocked_at [OF cov i]
    have "bs_revision (ns_slots st ! i) < revision" "revision \<noteq> bs_revision (ns_slots st ! i)" using newer [OF u(2)] by auto
    moreover have "writes p f (r, q) \<lparr>k_object_id = d, k_kind = kind, k_revision = revision, k_meta = m\<rparr> st
        (set_slot st i (rebound d kind revision m (ns_change_seq st + 1) (ns_slots st ! i)) (ns_change_seq st + 1), Inr (Bound revision))" for f
      by (rule writes_puts [OF ok puts_rebound [OF ok i lens]])
        (use fits lens u in \<open>simp_all add: kview_of_view rebound_view target_at_def\<close>)
    ultimately show ?thesis using fits Some u by (simp add: ns_bind_eq)
  next
    case None
    note none = scan_keyD(2) [OF ok None]
    show ?thesis
    proof (cases "first_index (\<lambda>s. \<not> bs_occupied s) (ns_slots st)")
      case None2: None
      then show ?thesis using fits None no_free_full [OF None2] by (simp add: ns_bind_eq writes_def)
    next
      case (Some i)
      have "writes p f (r, q) \<lparr>k_object_id = d, k_kind = kind, k_revision = revision, k_meta = m\<rparr> st
        (set_slot st i (fresh p r q d kind revision m (ns_change_seq st + 1)) (ns_change_seq st + 1), Inr (Bound revision))" for f
        by (rule writes_puts [OF ok puts_fresh [OF fits(1) none Some]])
          (use fits lens in \<open>simp_all add: kview_of_view fresh_view new_view_def\<close>)
      then show ?thesis using fits None Some by (simp add: ns_bind_eq)
    qed
  qed
qed

lemma commit_writes:
  assumes cov: "arena_covered p below st"
  shows "writes p (target_fits p (r, q) d m) (r, q) \<lparr>k_object_id = d, k_kind = kind, k_revision = revision, k_meta = m\<rparr> st
    (ns_commit_bind p st r q d kind revision m)"
proof (cases "target_fits p (r, q) d m")
  case False
  then show ?thesis by (auto simp: ns_commit_bind_eq writes_def target_fits_def not_le)
next
  case True
  have ok: "ns_ok p st" using cov by (simp add: arena_covered_def)
  have fits: "key_fits p r q d" "length (m_content_type m) \<le> CONTENT_TYPE_MAX" "length (m_key_ref m) \<le> KEY_REF_MAX"
    using True by (simp_all add: target_fits_def)
  then have lens: "length d \<le> MAX_OBJECT_ID" by (simp add: key_fits_def)
  show ?thesis
  proof (cases "first_index (slot_matches (fnv1a64 r) (fnv1a64 q) r q) (ns_slots st)")
    case (Some i)
    have i: "i < length (ns_slots st)" "slot_key (ns_slots st ! i) = Some (r, q)" using scan_keyD(1) [OF ok Some] by auto
    note u = unlocked_at [OF cov i]
    have "puts p st (r, q) i ((rebound d kind revision m (ns_change_seq st + 1) (ns_slots st ! i))\<lparr>bs_expires_at := 0\<rparr>)"
      using puts_rebound [OF ok i lens] by (simp add: puts_def)
    then have "writes p f (r, q) \<lparr>k_object_id = d, k_kind = kind, k_revision = revision, k_meta = m\<rparr> st
        (set_slot st i ((rebound d kind revision m (ns_change_seq st + 1) (ns_slots st ! i))\<lparr>bs_expires_at := 0\<rparr>) (ns_change_seq st + 1), Inr (Bound revision))" for f
      by (rule writes_puts [OF ok]) (use fits lens u in \<open>simp_all add: kview_of_view rebound_view target_at_def\<close>)
    then show ?thesis using fits Some u by (simp add: ns_commit_bind_eq)
  next
    case None
    note none = scan_keyD(2) [OF ok None]
    have "writes p (target_fits p (r, q) d m) (r, q) \<lparr>k_object_id = d, k_kind = kind, k_revision = revision, k_meta = m\<rparr> st
      (ns_bind p st r q d kind revision m)"
      by (rule bind_writes [OF cov]) (simp add: none)
    then show ?thesis using fits None by (simp add: ns_commit_bind_eq)
  qed
qed

lemma tombstone_writes:
  assumes cov: "arena_covered p below st"
  shows "writes p (key_fits p r q []) (r, q) (tomb_view revision) st (ns_tombstone p st r q revision)"
proof (cases "key_fits p r q []")
  case False
  then show ?thesis by (simp add: ns_tombstone_eq writes_def)
next
  case fits: True
  have ok: "ns_ok p st" using cov by (simp add: arena_covered_def)
  show ?thesis
  proof (cases "first_index (slot_matches (fnv1a64 r) (fnv1a64 q) r q) (ns_slots st)")
    case (Some i)
    have i: "i < length (ns_slots st)" "slot_key (ns_slots st ! i) = Some (r, q)" using scan_keyD(1) [OF ok Some] by auto
    note u = unlocked_at [OF cov i]
    have "writes p f (r, q) (tomb_view revision) st
        (set_slot st i (entomb revision (ns_change_seq st + 1) (ns_slots st ! i)) (ns_change_seq st + 1), Inr Unbound)" for f
      by (rule writes_puts [OF ok puts_entomb [OF ok i]])
        (use u in \<open>simp_all add: kview_of_view entomb_view target_at_def tomb_view_def\<close>)
    then show ?thesis using fits Some u by (simp add: ns_tombstone_eq)
  next
    case None
    note none = scan_keyD(2) [OF ok None]
    show ?thesis
    proof (cases "first_index (\<lambda>s. \<not> bs_occupied s) (ns_slots st)")
      case None2: None
      then show ?thesis using fits None no_free_full [OF None2] by (simp add: ns_tombstone_eq writes_def)
    next
      case (Some i)
      have "writes p f (r, q) (tomb_view revision) st
        (set_slot st i (fresh_tomb p r q revision (ns_change_seq st + 1)) (ns_change_seq st + 1), Inr Unbound)" for f
        by (rule writes_puts [OF ok puts_fresh_tomb [OF fits none Some]])
          (simp_all add: kview_of_view fresh_tomb_view new_view_def tomb_view_def)
      then show ?thesis using fits None Some by (simp add: ns_tombstone_eq)
    qed
  qed
qed

end
