(* ===== verification/Namespace_Effects.thy ===== *)
theory Namespace_Effects
  imports Namespace_View
begin

text \<open>
  The reads and the writes of \<open>apply_op\<close> over that map: \<open>current\<close> and the volume gate answer
  what it holds, a write behind an eviction changes it at its key alone, and a rename moves one
  live binding.
\<close>

section \<open>A write, and the eviction before it\<close>

lemma covered_puts:
  assumes "arena_covered p below st" "ns_ok p st'" "ns_map st' = (ns_map st)(k \<mapsto> s)" "fresh_slot s"
  shows "arena_covered p below st'" "arena_over st' below = (arena_over st below)(k \<mapsto> slot_kview s)"
proof -
  have "\<forall>k' s'. ns_map st' k' = Some s' \<longrightarrow> bs_locked s' = 0 \<and> bs_hold s' \<le> 1 \<and> (bs_snapshotted s' \<noteq> 0 \<longrightarrow> below k' = Some (slot_kview s'))"
  proof (intro allI impI)
    fix k' s' assume m: "ns_map st' k' = Some s'"
    have "s' = s \<or> ns_map st k' = Some s'" using m assms(3) by (auto split: if_splits)
    moreover have "ns_map st k' = Some s' \<Longrightarrow> bs_locked s' = 0 \<and> bs_hold s' \<le> 1 \<and> (bs_snapshotted s' \<noteq> 0 \<longrightarrow> below k' = Some (slot_kview s'))"
      using assms(1) unfolding arena_covered_def by blast
    ultimately show "bs_locked s' = 0 \<and> bs_hold s' \<le> 1 \<and> (bs_snapshotted s' \<noteq> 0 \<longrightarrow> below k' = Some (slot_kview s'))"
      using assms(4) by (auto simp: fresh_slot_def)
  qed
  then show "arena_covered p below st'" using assms(2) by (simp add: arena_covered_def)
  show "arena_over st' below = (arena_over st below)(k \<mapsto> slot_kview s)"
    using assms(3) by (auto simp: arena_over_def fun_eq_iff)
qed

lemma writes_effect:
  assumes ok: "nm_ok p recs m" and w: "writes p fits k v (nm_bindings m) (st', r)"
  shows "nm_ok p recs (m\<lparr>nm_bindings := st'\<rparr>)"
    and "module_view p recs (m\<lparr>nm_bindings := st'\<rparr>) =
      (case r of Inl _ \<Rightarrow> module_view p recs m | Inr _ \<Rightarrow> (module_view p recs m)(k \<mapsto> v))"
    and "moves (nm_bindings m) st'"
proof -
  note [simp] = below_view_same [OF same_but_arena_upd]
  have cov: "arena_covered p (below_view p recs m) (nm_bindings m)" using ok by (simp add: nm_ok_def)
  have "nm_ok p recs (m\<lparr>nm_bindings := st'\<rparr>) \<and> module_view p recs (m\<lparr>nm_bindings := st'\<rparr>) =
      (case r of Inl _ \<Rightarrow> module_view p recs m | Inr _ \<Rightarrow> (module_view p recs m)(k \<mapsto> v)) \<and>
      moves (nm_bindings m) st'"
  proof (cases r)
    case (Inl e)
    then show ?thesis using w ok moves_refl by (simp add: writes_def)
  next
    case (Inr x)
    obtain s where s: "ns_ok p st'" "ns_map st' = (ns_map (nm_bindings m))(k \<mapsto> s)" "slot_kview s = v" "fresh_slot s"
      using w Inr by (auto simp: writes_def)
    show ?thesis using covered_puts [OF cov s(1,2,4)] s(3) Inr moves_one(1) [OF s(2,4)] by (simp add: nm_ok_def module_view_def)
  qed
  then show "nm_ok p recs (m\<lparr>nm_bindings := st'\<rparr>)"
    "module_view p recs (m\<lparr>nm_bindings := st'\<rparr>) =
      (case r of Inl _ \<Rightarrow> module_view p recs m | Inr _ \<Rightarrow> (module_view p recs m)(k \<mapsto> v))"
    "moves (nm_bindings m) st'" by simp_all
qed

definition kept_slots :: "ns_module \<Rightarrow> ns_state \<Rightarrow> bool" where
  "kept_slots m st \<longleftrightarrow> (\<forall>k s. ns_map st k = Some s \<longrightarrow> ns_map (nm_bindings m) k = Some s)"

lemma write_evicting_effect:
  assumes ok: "nm_ok p recs m"
    and w: "\<And>st. arena_covered p (below_view p recs m) st \<Longrightarrow> kept_slots m st \<Longrightarrow> writes p fits k v st (write st)"
    and run: "write_evicting p may_evict write m = (m', r)"
  shows "nm_ok p recs m' \<and> same_but_arena m m' \<and> moves (nm_bindings m) (nm_bindings m') \<and> (fits \<and> \<not> ns_full (nm_bindings m) \<longrightarrow> (\<exists>x. r = Inr x)) \<and>
    module_view p recs m' = (case r of Inl _ \<Rightarrow> module_view p recs m | Inr _ \<Rightarrow> (module_view p recs m)(k \<mapsto> v))"
proof -
  obtain st1 r1 where w1: "write (nm_bindings m) = (st1, r1)" by (cases "write (nm_bindings m)")
  have wr: "writes p fits k v (nm_bindings m) (st1, r1)"
    using w [of "nm_bindings m"] ok w1 by (simp add: nm_ok_def kept_slots_def)
  note eff = writes_effect [OF ok wr]
  show ?thesis
  proof (cases "r1 = Inl OutOfCapacity")
    case False
    then have e: "m' = m\<lparr>nm_bindings := st1\<rparr>" "r = r1"
      using run w1 by (auto simp: write_evicting_def split: sum.splits ns_error.splits)
    have "fits \<and> \<not> ns_full (nm_bindings m) \<longrightarrow> (\<exists>x. r = Inr x)" using wr e(2) by (auto simp: writes_def split: sum.splits)
    then show ?thesis using eff e by simp
  next
    case True
    have st1: "st1 = nm_bindings m" using wr True by (simp add: writes_def)
    have full: "\<not> (fits \<and> \<not> ns_full (nm_bindings m))" using wr True by (auto simp: writes_def)
    show ?thesis
    proof (cases "if may_evict then evict_counted p None m else None")
      case None
      then have "m' = m" "r = Inl OutOfCapacity" using run w1 True st1 by (auto simp: write_evicting_def)
      then show ?thesis using ok full moves_refl by simp
    next
      case (Some m1)
      then have ev: "evict_counted p None m = Some m1" by (auto split: if_splits)
      note e1 = evict_counted_view [OF ok ev]
      obtain st2 where w2: "write (nm_bindings m1) = (st2, r)" and m': "m' = m1\<lparr>nm_bindings := st2\<rparr>"
        using run w1 True Some by (auto simp: write_evicting_def split: prod.splits)
      have "kept_slots m (nm_bindings m1)" using e1(4) unfolding kept_slots_def by blast
      then have "writes p fits k v (nm_bindings m1) (st2, r)"
        using w [of "nm_bindings m1"] e1(1) w2 by (simp add: nm_ok_def below_view_same [OF e1(3)])
      note e2 = writes_effect [OF e1(1) this]
      have "moves (nm_bindings m) st2" by (rule moves_trans [OF e2(3) e1(5)])
      then show ?thesis using e2(1,2) e1(2) full m' same_but_arena_trans [OF e1(3) same_but_arena_upd] by (auto split: sum.split)
    qed
  qed
qed

section \<open>Rename\<close>

lemma ns_rename_same:
  assumes "\<And>s. s \<in> set (ns_slots st) \<Longrightarrow> slot_matches (fnv1a64 r) (fnv1a64 q) r q s \<Longrightarrow> bs_kind s = KIND_TOMBSTONE"
  shows "\<exists>e. ns_rename p st r q q revision = (st, Inl e)"
proof -
  have scan: "rename_scan F F ss i (sa, da, fa) = Inr (sa', da', fa') \<Longrightarrow>
      sa' = sa \<or> (\<exists>j < length ss. sa' = Some (i + j) \<and> F (ss ! j))" for F ss i sa da fa sa' da' fa'
  proof (induction ss arbitrary: i sa da fa)
    case (Cons s ss)
    have "rename_scan F F ss (Suc i) (if F s then Some i else sa, da, if F s \<or> bs_occupied s \<or> fa \<noteq> None then fa else Some i)
        = Inr (sa', da', fa')" using Cons.prems by (auto split: if_splits)
    from Cons.IH [OF this] show ?case
    proof
      assume "\<exists>j < length ss. sa' = Some (Suc i + j) \<and> F (ss ! j)"
      then obtain j where "j < length ss" "sa' = Some (Suc i + j)" "F (ss ! j)" by blast
      then show ?thesis by (intro disjI2 exI [of _ "Suc j"]) simp
    qed (auto split: if_splits)
  qed auto
  show ?thesis
  proof (cases "rename_scan (slot_matches (fnv1a64 r) (fnv1a64 q) r q) (slot_matches (fnv1a64 r) (fnv1a64 q) r q)
      (ns_slots st) 0 (None, None, None)")
    case (Inl e)
    then show ?thesis by (simp add: ns_rename_def key_hash_def)
  next
    case (Inr a)
    obtain sa da fa where a: "a = (sa, da, fa)" by (cases a)
    from scan [OF Inr [unfolded a]] show ?thesis
    proof
      assume "sa = None"
      then show ?thesis using Inr a by (simp add: ns_rename_def key_hash_def)
    next
      assume "\<exists>j < length (ns_slots st). sa = Some (0 + j) \<and> slot_matches (fnv1a64 r) (fnv1a64 q) r q (ns_slots st ! j)"
      then obtain j where "j < length (ns_slots st)" "sa = Some j" "slot_matches (fnv1a64 r) (fnv1a64 q) r q (ns_slots st ! j)" by auto
      moreover from this have "bs_kind (ns_slots st ! j) = KIND_TOMBSTONE" using assms [OF nth_mem] by blast
      ultimately show ?thesis using Inr a by (simp add: ns_rename_def key_hash_def Let_def)
    qed
  qed
qed

lemma ns_rename_refused: "ns_rename p st r from to revision = (st', Inl e) \<Longrightarrow> st' = st"
  by (auto simp: ns_rename_def Let_def key_hash_def split: if_splits sum.splits option.splits prod.splits)

lemma ns_rename_success:
  assumes ok: "ns_ok p st" and ne: "from \<noteq> to" and run: "ns_rename p st r from to revision = (st', Inr x)"
  obtains si dst where "key_fits p r from []" "key_fits p r to []"
    "si < length (ns_slots st)" "slot_key (ns_slots st ! si) = Some (r, from)" "bs_kind (ns_slots st ! si) \<noteq> KIND_TOMBSTONE"
    "bs_locked (ns_slots st ! si) = 0" "\<not> (\<exists>w. ns_view st (r, to) = Some w \<and> v_kind w \<noteq> KIND_TOMBSTONE)"
    "(case first_index (slot_matches (fnv1a64 r) (fnv1a64 to) r to) (ns_slots st) of
        Some d \<Rightarrow> Some d | None \<Rightarrow> first_index (\<lambda>s. \<not> bs_occupied s) (ns_slots st)) = Some dst"
proof -
  have fits: "key_fits p r from []" "key_fits p r to []" using run by (auto simp: ns_rename_def split: if_splits)
  have free: "\<not> (\<exists>w. ns_view st (r, to) = Some w \<and> v_kind w \<noteq> KIND_TOMBSTONE)"
    using run by (auto simp: ns_rename_def key_hash_def rename_scan_ok [OF ok ne] split: if_splits)
  obtain si where si: "first_index (slot_matches (fnv1a64 r) (fnv1a64 from) r from) (ns_slots st) = Some si"
    using run free by (auto simp: ns_rename_def key_hash_def rename_scan_ok [OF ok ne] split: if_splits option.splits)
  have live: "bs_kind (ns_slots st ! si) \<noteq> KIND_TOMBSTONE" "bs_locked (ns_slots st ! si) = 0"
    using run free si by (auto simp: ns_rename_def key_hash_def rename_scan_ok [OF ok ne] Let_def split: if_splits)
  obtain dst where "(case first_index (slot_matches (fnv1a64 r) (fnv1a64 to) r to) (ns_slots st) of
        Some d \<Rightarrow> Some d | None \<Rightarrow> first_index (\<lambda>s. \<not> bs_occupied s) (ns_slots st)) = Some dst"
    using run free si live fits
    by (auto simp: ns_rename_def key_hash_def rename_scan_ok [OF ok ne] Let_def split: if_splits option.splits)
  then show ?thesis using that fits free live scan_keyD(1) [OF ok si] by blast
qed

definition moved_rev :: "u64 \<Rightarrow> kview option \<Rightarrow> u64 \<Rightarrow> bool" where
  \<comment> \<open>the record's revision, or one past the tombstone the move lands on\<close>
  "moved_rev revision dest rv \<longleftrightarrow>
     rv = revision \<or> (\<exists>t. dest = Some t \<and> \<not> k_live t \<and> revision \<le> k_revision t \<and> rv = k_revision t + 1)"

lemma move_slot_kview:
  assumes "slot_ok p s" "bs_occupied s" "slot_key s = Some (r, q)" "length to \<le> MAX_PATH p"
  shows "slot_kview (move_slot p to v seq s) = (slot_kview s)\<lparr>k_revision := v\<rparr>"
  using move_slot_ok(3) [OF assms, of v seq] by (simp add: kview_of_view)

lemma ns_rename_moves:
  assumes cov: "arena_covered p below st" and ne: "from \<noteq> to" and run: "ns_rename p st r from to revision = (st', Inr x)"
  shows "arena_covered p below st' \<and> moves st st' \<and>
    (\<exists>s rv. ns_map st (r, from) = Some s \<and> bs_kind s \<noteq> KIND_TOMBSTONE \<and> moved_rev revision (map_option slot_kview (ns_map st (r, to))) rv \<and>
       arena_over st' below = (arena_over st below)((r, to) \<mapsto> (slot_kview s)\<lparr>k_revision := rv\<rparr>, (r, from) \<mapsto> tomb_view revision))"
proof -
  have ok: "ns_ok p st" using cov by (simp add: arena_covered_def)
  obtain si dst where r: "key_fits p r from []" "key_fits p r to []"
    "si < length (ns_slots st)" "slot_key (ns_slots st ! si) = Some (r, from)" "bs_kind (ns_slots st ! si) \<noteq> KIND_TOMBSTONE"
    "bs_locked (ns_slots st ! si) = 0" "\<not> (\<exists>w. ns_view st (r, to) = Some w \<and> v_kind w \<noteq> KIND_TOMBSTONE)"
    "(case first_index (slot_matches (fnv1a64 r) (fnv1a64 to) r to) (ns_slots st) of
        Some d \<Rightarrow> Some d | None \<Rightarrow> first_index (\<lambda>s. \<not> bs_occupied s) (ns_slots st)) = Some dst"
    by (rule ns_rename_success [OF ok ne run])
  define to_rev where "to_rev = (case ns_view st (r, to) of
      Some w \<Rightarrow> if revision \<le> v_revision w then v_revision w + 1 else revision | None \<Rightarrow> revision)"
  define s where "s = ns_slots st ! si"
  let ?seq = "ns_change_seq st + 1"
  let ?mv = "move_slot p to to_rev ?seq s"
  let ?st1 = "set_slot st dst ?mv ?seq"
  let ?tomb = "(entomb revision (?seq + 1) s)\<lparr>bs_expires_at := 0\<rparr>"
  have at: "ns_map st (r, from) = Some s" using ns_map_at [OF ok r(3,4)] by (simp add: s_def)
  have st': "st' = set_slot ?st1 si ?tomb (?seq + 1)" and p1: "puts p st (r, to) dst ?mv"
    using ns_rename_eq [OF ok ne r(1,2) r(4,3) r(5,6) r(7) r(8) to_rev_def] run by (simp_all add: Let_def s_def)
  note k1 = puts_ok [OF ok p1, of ?seq]
  have "dst \<noteq> si" using p1 r(4) ne by (auto simp: puts_def)
  then have s1: "ns_slots ?st1 ! si = s" "si < length (ns_slots ?st1)" using r(3) by (simp_all add: set_slot_def s_def)
  have p2: "puts p ?st1 (r, from) si ?tomb"
    using puts_entomb [OF k1(1) s1(2), of "(r, from)" revision "?seq + 1"] r(4) s1 by (simp add: puts_def s_def)
  note k2 = puts_ok [OF k1(1) p2, of "?seq + 1"]
  have "bs_hold s \<le> 1" using cov at unfolding arena_covered_def by blast
  then have unl: "bs_locked s = 0" "bs_hold s \<le> 1" using r(6) by (simp_all add: s_def)
  have f1: "fresh_slot ?mv" and f2: "fresh_slot ?tomb" using unl by simp_all
  have mv: "moves st st'" unfolding st' by (rule moves_put [OF moves_one(1) [OF k1(2) f1] k2(2) f2])
  have lto: "length to \<le> MAX_PATH p" using r(2) by (simp add: key_fits_def)
  have v1: "slot_kview ?mv = (slot_kview s)\<lparr>k_revision := to_rev\<rparr>"
    using move_slot_kview [OF ns_map_key(2,3) [OF ok at] _ lto] r(4) by (simp add: s_def)
  have v2: "slot_kview ?tomb = tomb_view revision"
    by (simp add: kview_of_view entomb_view target_at_def tomb_view_def)
  have mr: "moved_rev revision (map_option slot_kview (ns_map st (r, to))) to_rev"
    using r(7) by (auto simp: to_rev_def ns_view_def moved_rev_def k_live_def slot_kview_def slot_view_def split: option.splits)
  note c1 = covered_puts [OF cov k1(1) k1(2) f1]
  note c2 = covered_puts [OF c1(1) k2(1) k2(2) f2]
  have live: "bs_kind s \<noteq> KIND_TOMBSTONE" using r(5) by (simp add: s_def)
  have "arena_over st' below = (arena_over st below)((r, to) \<mapsto> (slot_kview s)\<lparr>k_revision := to_rev\<rparr>, (r, from) \<mapsto> tomb_view revision)"
    using c1(2) c2(2) v1 v2 by (simp add: st')
  then show ?thesis using c2(1) st' at mr live mv by blast
qed

end
