(* ===== verification/Namespace_Verdict.thy ===== *)
theory Namespace_Verdict
  imports Namespace_Effects
begin

text \<open>
  The namespace as a map and each operation as a verdict on it: refuse, keep, put one key, move
  one binding.  The reads of \<open>apply_op\<close> answer that map, and each arm obeys its verdict.
\<close>

section \<open>Serving\<close>

definition serving ::
  "profile \<Rightarrow> 's provider \<Rightarrow> 's read_view \<Rightarrow> u64 \<Rightarrow> snap_record list \<Rightarrow> ns_module \<Rightarrow> 's \<Rightarrow> bool" where
  \<comment> \<open>the invariant, and the open snapshot is the file of \<open>recs\<close>\<close>
  "serving p call v g recs m s \<longleftrightarrow> nm_ok p recs m \<and>
     (nm_snap_active m \<longrightarrow> log_reads call (on_fd (nm_snap m)) v \<and> snap_backs p v g recs (nm_snap m) s \<and> snap_sorted p recs)"

definition prompt :: "'s provider \<Rightarrow> ns_module \<Rightarrow> bool" where
  "prompt call m \<longleftrightarrow> (nm_snap_active m \<longrightarrow> reads_answer call (on_fd (nm_snap m)))"

definition same_below :: "ns_module \<Rightarrow> ns_module \<Rightarrow> bool" where
  "same_below m m' \<longleftrightarrow> nm_snap_active m' = nm_snap_active m \<and> nm_snap m' = nm_snap m"

lemma same_below_arena: "same_but_arena m m' \<Longrightarrow> same_below m m'"
  by (simp add: same_but_arena_def same_below_def)

lemma serving_after: "serving p call v g recs m s \<Longrightarrow> nm_ok p recs m' \<Longrightarrow> same_below m m' \<Longrightarrow> serving p call v g recs m' s"
  by (simp add: serving_def same_below_def)

lemma serving_ok: "serving p call v g recs m s \<Longrightarrow> nm_ok p recs m"
  by (simp add: serving_def)

section \<open>Reads of the map\<close>

definition volume_at :: "kmap \<Rightarrow> bytes \<times> bytes \<Rightarrow> bool" where
  "volume_at V k = (case V k of Some v \<Rightarrow> k_kind v = KIND_VOLUME | None \<Rightarrow> False)"

definition live_at :: "kmap \<Rightarrow> bytes \<times> bytes \<Rightarrow> bool" where
  "live_at V k = (case V k of Some v \<Rightarrow> k_live v | None \<Rightarrow> False)"

definition rev_at :: "kmap \<Rightarrow> bytes \<times> bytes \<Rightarrow> u64" where
  "rev_at V k = (case V k of Some v \<Rightarrow> k_revision v | None \<Rightarrow> 0)"

definition kept_at :: "kmap \<Rightarrow> bytes \<times> bytes \<Rightarrow> u64 \<Rightarrow> bool" where
  "kept_at V k now = (case V k of Some v \<Rightarrow> k_retained now v | None \<Rightarrow> False)"

definition bound_at :: "kmap \<Rightarrow> bytes \<times> bytes \<Rightarrow> u8 \<Rightarrow> bytes \<Rightarrow> bool" where
  "bound_at V k kind oid = (case V k of Some v \<Rightarrow> k_kind v = kind \<and> k_object_id v = oid | None \<Rightarrow> False)"

lemmas reads_at = volume_at_def live_at_def rev_at_def kept_at_def bound_at_def

lemma slot_retained_view: "bs_occupied s \<Longrightarrow> slot_retained_at s now = k_retained now (slot_kview s)"
  by (simp add: slot_retained_at_def k_retained_def k_live_def slot_kview_def slot_meta_def)

lemma snap_retained_view: "snap_retained_at r now = k_retained now (snap_kview r)"
  by (simp add: snap_retained_at_def k_retained_def k_live_def snap_kview_def snap_meta_def)

lemma snap_search_view:
  assumes sv: "serving p call v g recs m s" and act: "nm_snap_active m"
    and none: "ns_map (nm_bindings m) (r, q) = None"
    and run: "snap_search p call (nm_snap m) r q s = (s', res)"
  shows "serving p call v g recs m s' \<and> (prompt call m \<longrightarrow> (\<exists>a. res = SrReady a)) \<and>
    (\<forall>a. res = SrReady a \<longrightarrow> module_view p recs m (r, q) = map_option snap_kview a)"
proof -
  have h: "log_reads call (on_fd (nm_snap m)) v" "snap_backs p v g recs (nm_snap m) s" "snap_sorted p recs"
    using sv act by (simp_all add: serving_def)
  note f = snap_search_finds [OF h(1) run h(2,3)]
  have "serving p call v g recs m s'" using sv f(1) by (simp add: serving_def snap_backs_def)
  moreover have "module_view p recs m (r, q) = map_option snap_kview (snap_find p (r, q) recs)"
    using act none by (simp add: module_view_def arena_over_def below_view_def)
  moreover have "prompt call m \<longrightarrow> (\<exists>a. res = SrReady a)" using f(3) act by (auto simp: prompt_def)
  ultimately show ?thesis using f(2) by simp
qed

lemma lookup_hashed_map: "key_hash r q = (nh, ph) \<Longrightarrow> lookup_hashed st nh ph r q = ns_map st (r, q)"
  using ns_lookup_map [of st r q] by (simp add: ns_lookup_def)

lemma current_view:
  assumes sv: "serving p call v g recs m s" and run: "current p call m r q s = (s', c)"
  shows "serving p call v g recs m s' \<and>
    (case c of
       None \<Rightarrow> module_view p recs m (r, q) = None
     | Some (CurArena b) \<Rightarrow> module_view p recs m (r, q) = Some (slot_kview b) \<and> bs_occupied b
     | Some (CurSnapshot x) \<Rightarrow> module_view p recs m (r, q) = Some (snap_kview x)
     | Some _ \<Rightarrow> \<not> prompt call m)"
proof (cases "ns_map (nm_bindings m) (r, q)")
  case (Some b)
  have ok: "ns_ok p (nm_bindings m)" using sv by (simp add: serving_def nm_ok_def arena_covered_def)
  have "bs_occupied b" using ns_map_key [OF ok Some] by simp
  then show ?thesis using run sv Some
    by (auto simp: current_def lookup_hashed_map module_view_def arena_over_def split: prod.splits)
next
  case None
  note none = this
  show ?thesis
  proof (cases "nm_snap_active m")
    case False
    then show ?thesis using run sv none
      by (auto simp: current_def lookup_hashed_map module_view_def arena_over_def below_view_def split: prod.splits)
  next
    case True
    obtain s1 res where ss: "snap_search p call (nm_snap m) r q s = (s1, res)" by (cases "snap_search p call (nm_snap m) r q s")
    note f = snap_search_view [OF sv True none ss]
    show ?thesis using run none True ss f
      by (auto simp: current_def lookup_hashed_map split: prod.splits snap_read.splits option.splits)
  qed
qed

definition asked :: "'s provider \<Rightarrow> ns_module \<Rightarrow> 'a applied \<Rightarrow> 'a \<Rightarrow> bool" where
  \<comment> \<open>an answer of \<open>x\<close>, or a fault the snapshot's provider is to blame for\<close>
  "asked call m res x \<longleftrightarrow> (case res of Inr y \<Rightarrow> y = x | Inl e \<Rightarrow> e \<in> {AfPending, AfRejected} \<and> \<not> prompt call m)"

lemma key_retained_view:
  assumes sv: "serving p call v g recs m s" and run: "key_retained p call m r q now s = (s', res)"
  shows "serving p call v g recs m s' \<and>
    asked call m res (kept_at (module_view p recs m) (r, q) now, live_at (module_view p recs m) (r, q))"
proof -
  obtain s1 c where c: "current p call m r q s = (s1, c)" by (cases "current p call m r q s")
  note cv = current_view [OF sv c]
  have live: "k_live (slot_kview b) \<longleftrightarrow> bs_kind b \<noteq> KIND_TOMBSTONE" "k_live (snap_kview x) \<longleftrightarrow> sr_kind x \<noteq> KIND_TOMBSTONE" for b x
    by (simp_all add: k_live_def slot_kview_def snap_kview_def)
  show ?thesis using run c cv
    by (auto simp: key_retained_def reads_at slot_retained_view snap_retained_view asked_def live split: option.splits current.splits)
qed

definition volume_read :: "kmap \<Rightarrow> bytes \<times> bytes \<Rightarrow> bytes \<Rightarrow> (u64 \<times> bool \<times> bool) option" where
  "volume_read V k oid =
     (case V k of
        None \<Rightarrow> None
      | Some v \<Rightarrow> if k_live v then Some (k_revision v, k_kind v = KIND_VOLUME, k_kind v = KIND_VOLUME \<and> k_object_id v = oid) else None)"

lemma volume_binding_view:
  assumes sv: "serving p call v g recs m s" and run: "volume_binding p call m r q oid s = (s', res)"
  shows "serving p call v g recs m s' \<and> (prompt call m \<longrightarrow> (\<exists>a. res = SrReady a)) \<and>
    (\<forall>a. res = SrReady a \<longrightarrow> a = volume_read (module_view p recs m) (r, q) oid)"
proof (cases "ns_map (nm_bindings m) (r, q)")
  case (Some b)
  then show ?thesis using run sv
    by (auto simp: volume_binding_def lookup_hashed_map module_view_def arena_over_def volume_read_def k_live_def slot_kview_def Let_def
        split: prod.splits)
next
  case None
  note none = this
  show ?thesis
  proof (cases "nm_snap_active m")
    case False
    then show ?thesis using run sv none
      by (auto simp: volume_binding_def lookup_hashed_map module_view_def arena_over_def below_view_def volume_read_def split: prod.splits)
  next
    case True
    obtain s1 got where ss: "snap_search p call (nm_snap m) r q s = (s1, got)" by (cases "snap_search p call (nm_snap m) r q s")
    note f = snap_search_view [OF sv True none ss]
    show ?thesis using run none True ss f
      by (auto simp: volume_binding_def lookup_hashed_map volume_read_def k_live_def snap_kview_def Let_def
          split: prod.splits snap_read.splits option.splits)
  qed
qed

lemma volume_gate_view:
  assumes sv: "serving p call v g recs m s" and run: "volume_gate p call m r q s = (s', res)"
  shows "serving p call v g recs m s' \<and> asked call m res (volume_at (module_view p recs m) (r, q))"
proof -
  obtain s1 got where b: "volume_binding p call m r q [] s = (s1, got)" by (cases "volume_binding p call m r q [] s")
  note f = volume_binding_view [OF sv b]
  have "volume_at V k \<longleftrightarrow> (case volume_read V k [] of Some (_, True, _) \<Rightarrow> True | _ \<Rightarrow> False)" for V k
    by (auto simp: volume_at_def volume_read_def k_live_def KIND_VOLUME_def KIND_TOMBSTONE_def split: option.splits bool.splits)
  then show ?thesis using run b f
    by (auto simp: volume_gate_def is_volume_binding_def asked_def split: snap_read.splits)
qed

section \<open>Verdicts\<close>

datatype verdict =
    Refuse apply_fault
  | Keep
  | Put "bytes \<times> bytes" kview
  | Move "bytes \<times> bytes" "bytes \<times> bytes" u64

fun outcome :: "verdict \<Rightarrow> kmap \<Rightarrow> kmap \<Rightarrow> bool" where
  "outcome (Refuse e) V V' \<longleftrightarrow> False"
| "outcome Keep V V' \<longleftrightarrow> V' = V"
| "outcome (Put k v) V V' \<longleftrightarrow> V' = V(k \<mapsto> v)"
| "outcome (Move a b revision) V V' \<longleftrightarrow>
     (\<exists>v rv. V a = Some v \<and> k_live v \<and> \<not> live_at V b \<and> moved_rev revision (V b) rv \<and>
        V' = V(b \<mapsto> v\<lparr>k_revision := rv\<rparr>, a \<mapsto> tomb_view revision))"

fun answer :: "verdict \<Rightarrow> unit applied" where
  "answer (Refuse e) = Inl e"
| "answer _ = Inr ()"

definition obeys :: "profile \<Rightarrow> snap_record list \<Rightarrow> bool \<Rightarrow> verdict \<Rightarrow> ns_module \<Rightarrow> ns_module \<times> unit applied \<Rightarrow> bool" where
  \<comment> \<open>a success is the verdict's outcome, a fault the verdict's or the provider's and without
    effect; \<open>sure\<close> rules the provider's out\<close>
  "obeys p recs sure vd m out \<longleftrightarrow>
     (case out of (m', res) \<Rightarrow>
        nm_ok p recs m' \<and> same_but_arena m m' \<and> moves (nm_bindings m) (nm_bindings m') \<and> (sure \<longrightarrow> res = answer vd) \<and>
        (case res of
           Inr _ \<Rightarrow> outcome vd (module_view p recs m) (module_view p recs m')
         | Inl e \<Rightarrow> module_view p recs m' = module_view p recs m \<and> (vd = Refuse e \<or> e \<in> {AfPending, AfRejected})))"

lemma obeys_refuse: "nm_ok p recs m \<Longrightarrow> obeys p recs sure (Refuse e) m (m, Inl e)"
  by (simp add: obeys_def moves_refl)

lemma obeys_keep: "nm_ok p recs m \<Longrightarrow> obeys p recs sure Keep m (m, Inr ())"
  by (simp add: obeys_def moves_refl)

lemma obeys_blocked: "nm_ok p recs m \<Longrightarrow> \<not> sure \<Longrightarrow> e \<in> {AfPending, AfRejected} \<Longrightarrow> obeys p recs sure vd m (m, Inl e)"
  by (simp add: obeys_def moves_refl)

lemma obeys_put:
  assumes ok: "nm_ok p recs m"
    and w: "\<And>st. arena_covered p (below_view p recs m) st \<Longrightarrow> kept_slots m st \<Longrightarrow> writes p fits k v st (write st)"
    and run: "write_evicting p may_evict write m = (m', r)"
    and sure: "sure \<Longrightarrow> fits \<and> \<not> ns_full (nm_bindings m)"
  shows "obeys p recs sure (Put k v) m (m', rejecting r ())"
  using write_evicting_effect [OF ok w run] sure
  by (auto simp: obeys_def rejecting_def split: sum.splits)

end
