(* ===== verification/Namespace_Refine.thy ===== *)
theory Namespace_Refine
  imports Namespace_Verdict
begin

text \<open>
  Each arm of \<open>apply_op\<close> that moves bindings obeys the verdict of its record on the map.
\<close>

section \<open>Bind\<close>

definition bind_view :: "decoded_bind \<Rightarrow> kview" where
  "bind_view b = \<lparr>k_object_id = db_object_id b, k_kind = db_kind b, k_revision = db_revision b, k_meta = state_meta (db_meta b)\<rparr>"

definition bind_at_verdict :: "decoded_bind \<Rightarrow> u64 \<Rightarrow> bool \<Rightarrow> bool \<Rightarrow> bool \<Rightarrow> verdict" where
  "bind_at_verdict b cur_rev live same kept =
     (if db_revision b \<le> cur_rev then (if live \<and> db_revision b = cur_rev \<and> same then Keep else Refuse AfStale)
      else if db_cond b = COND_ABSENT \<and> live then Refuse AfCondition
      else if db_cond b = COND_REVISION \<and> cur_rev \<noteq> db_expect b then Refuse AfCondition
      else if kept then Refuse AfRetained
      else Put (db_root b, db_path b) (bind_view b))"

definition bind_verdict :: "u64 list \<Rightarrow> kmap \<Rightarrow> decoded_bind \<Rightarrow> verdict" where
  "bind_verdict reserved V b =
     (let k = (db_root b, db_path b)
      in if fnv1a64 (db_object_id b) \<in> set reserved then Refuse AfReserved
         else if db_kind b = KIND_VOLUME \<or> volume_at V k then Refuse AfFenced
         else bind_at_verdict b (rev_at V k) (live_at V k) (bound_at V k (db_kind b) (db_object_id b))
                (kept_at V k (bm_stamp_ms (db_meta b))))"

definition bind_sure :: "profile \<Rightarrow> 's provider \<Rightarrow> ns_module \<Rightarrow> decoded_bind \<Rightarrow> bool" where
  "bind_sure p call m b \<longleftrightarrow> prompt call m \<and> \<not> ns_full (nm_bindings m) \<and>
     target_fits p (db_root b, db_path b) (db_object_id b) (state_meta (db_meta b))"

lemma map_rev_at: "ns_map (nm_bindings m) k = Some s \<Longrightarrow> bs_revision s = rev_at (module_view p recs m) k"
  by (simp add: module_view_def arena_over_def rev_at_def slot_kview_def)

lemma bind_at_obeys:
  assumes ok: "nm_ok p recs m" and cur: "cur_rev = rev_at (module_view p recs m) (db_root b, db_path b)"
  shows "obeys p recs (bind_sure p call m b) (bind_at_verdict b cur_rev live same kept) m (bind_at p b cur_rev live same kept m)"
proof (cases "bind_at_verdict b cur_rev live same kept")
  case (Put k v)
  then have k: "k = (db_root b, db_path b)" "v = bind_view b" and newer: "cur_rev < db_revision b"
    by (auto simp: bind_at_verdict_def split: if_splits)
  define put where "put = (\<lambda>st. ns_bind p st (db_root b) (db_path b) (db_object_id b) (db_kind b) (db_revision b) (state_meta (db_meta b)))"
  obtain m' r where run: "write_evicting p (nm_snap_active m) put m = (m', r)"
    by (cases "write_evicting p (nm_snap_active m) put m")
  have "obeys p recs (bind_sure p call m b) (Put k v) m (m', rejecting r ())"
  proof (rule obeys_put [OF ok _ run])
    fix st assume cov: "arena_covered p (below_view p recs m) st" and kept: "kept_slots m st"
    have "bs_revision s < db_revision b" if "ns_map st (db_root b, db_path b) = Some s" for s
    proof -
      have "ns_map (nm_bindings m) (db_root b, db_path b) = Some s" using kept that unfolding kept_slots_def by blast
      from map_rev_at [OF this, of p recs] show ?thesis using newer by (simp add: cur)
    qed
    then show "writes p (target_fits p k (db_object_id b) (state_meta (db_meta b))) k v st (put st)"
      unfolding k bind_view_def put_def by (intro bind_writes [OF cov])
  qed (simp add: bind_sure_def k)
  moreover have "bind_at p b cur_rev live same kept m = (m', rejecting r ())"
    using Put run by (auto simp: bind_at_def bind_at_verdict_def put_def split: if_splits)
  ultimately show ?thesis using Put by simp
next
  case (Refuse e)
  then have "bind_at p b cur_rev live same kept m = (m, Inl e)"
    by (auto simp: bind_at_def bind_at_verdict_def split: if_splits)
  then show ?thesis using Refuse obeys_refuse [OF ok] by simp
next
  case Keep
  then have "bind_at p b cur_rev live same kept m = (m, Inr ())"
    by (auto simp: bind_at_def bind_at_verdict_def split: if_splits)
  then show ?thesis using Keep obeys_keep [OF ok] by simp
qed (auto simp: bind_at_verdict_def split: if_splits)

definition does ::
  "profile \<Rightarrow> 's provider \<Rightarrow> 's read_view \<Rightarrow> u64 \<Rightarrow> snap_record list \<Rightarrow> bool \<Rightarrow> verdict \<Rightarrow> ns_module \<Rightarrow>
   ns_module \<times> 's \<times> unit applied \<Rightarrow> bool" where
  "does p call v g recs sure vd m out \<longleftrightarrow>
     (case out of (m', s', res) \<Rightarrow> serving p call v g recs m' s' \<and> obeys p recs sure vd m (m', res))"

lemma does_obeys:
  assumes "serving p call v g recs m s" "obeys p recs sure vd m out"
  shows "does p call v g recs sure vd m (case out of (m', res) \<Rightarrow> (m', s, res))"
  using assms by (auto simp: does_def obeys_def intro: serving_after same_below_arena)

lemma does_refuse: "serving p call v g recs m s \<Longrightarrow> does p call v g recs sure (Refuse e) m (m, s, Inl e)"
  by (simp add: does_def obeys_refuse serving_ok)

lemma does_keep: "serving p call v g recs m s \<Longrightarrow> does p call v g recs sure Keep m (m, s, Inr ())"
  by (simp add: does_def obeys_keep serving_ok)

lemma does_blocked:
  "serving p call v g recs m s \<Longrightarrow> \<not> sure \<Longrightarrow> e \<in> {AfPending, AfRejected} \<Longrightarrow> does p call v g recs sure vd m (m, s, Inl e)"
  by (simp add: does_def obeys_blocked serving_ok)

text \<open>An arm that asks the snapshot first: a fault ends it, and an answer is the map's.\<close>

lemma does_asked:
  assumes "serving p call v g recs m s1" "asked call m res x" "sure \<Longrightarrow> prompt call m"
    and "does p call v g recs sure vd m (k x)"
  shows "does p call v g recs sure vd m (case res of Inl e \<Rightarrow> (m, s1, Inl e) | Inr y \<Rightarrow> k y)"
proof (cases res)
  case (Inl e)
  then have "\<not> sure" "e \<in> {AfPending, AfRejected}" using assms(2,3) by (auto simp: asked_def)
  from does_blocked [OF assms(1) this] show ?thesis using Inl by simp
next
  case (Inr y)
  then show ?thesis using assms(2,4) by (simp add: asked_def)
qed

lemma does_gated:
  assumes "serving p call v g recs m s" "sure \<Longrightarrow> prompt call m"
    and "volume_at (module_view p recs m) (r, q) \<Longrightarrow> vd = Refuse AfFenced"
    and "\<And>s'. \<not> volume_at (module_view p recs m) (r, q) \<Longrightarrow> serving p call v g recs m s' \<Longrightarrow>
      does p call v g recs sure vd m (k s')"
  shows "does p call v g recs sure vd m
    (case volume_gate p call m r q s of
       (s, Inl e) \<Rightarrow> (m, s, Inl e) | (s, Inr True) \<Rightarrow> (m, s, Inl AfFenced) | (s, Inr False) \<Rightarrow> k s)"
proof -
  obtain s1 gate where vg: "volume_gate p call m r q s = (s1, gate)" by (cases "volume_gate p call m r q s")
  have gt: "serving p call v g recs m s1" "asked call m gate (volume_at (module_view p recs m) (r, q))"
    using volume_gate_view [OF assms(1) vg] by simp_all
  have "does p call v g recs sure vd m
      (case gate of Inl e \<Rightarrow> (m, s1, Inl e) | Inr f \<Rightarrow> if f then (m, s1, Inl AfFenced) else k s1)"
    by (rule does_asked [OF gt assms(2)]) (use assms(3,4) gt does_refuse [OF gt(1)] in auto)
  moreover have "(case gate of Inl e \<Rightarrow> (m, s1, Inl e) | Inr f \<Rightarrow> if f then (m, s1, Inl AfFenced) else k s1) =
      (case gate of Inl e \<Rightarrow> (m, s1, Inl e) | Inr True \<Rightarrow> (m, s1, Inl AfFenced) | Inr False \<Rightarrow> k s1)"
    by (auto split: sum.split bool.split)
  ultimately show ?thesis by (simp add: vg)
qed

text \<open>An arm that reads the key.\<close>

lemma does_current:
  assumes "serving p call v g recs m s" "sure \<Longrightarrow> prompt call m"
    and A: "\<And>b s'. serving p call v g recs m s' \<Longrightarrow> module_view p recs m (r, q) = Some (slot_kview b) \<Longrightarrow> bs_occupied b \<Longrightarrow>
      does p call v g recs sure vd m (A b s')"
    and B: "\<And>x s'. serving p call v g recs m s' \<Longrightarrow> module_view p recs m (r, q) = Some (snap_kview x) \<Longrightarrow>
      does p call v g recs sure vd m (B x s')"
    and N: "\<And>s'. serving p call v g recs m s' \<Longrightarrow> module_view p recs m (r, q) = None \<Longrightarrow> does p call v g recs sure vd m (N s')"
  shows "does p call v g recs sure vd m
    (case current p call m r q s of
       (s, Some (CurArena slot)) \<Rightarrow> A slot s
     | (s, Some (CurSnapshot x)) \<Rightarrow> B x s
     | (s, Some CurUnreadable) \<Rightarrow> (m, s, Inl AfRejected)
     | (s, Some CurPending) \<Rightarrow> (m, s, Inl AfPending)
     | (s, None) \<Rightarrow> N s)"
proof -
  obtain s2 c where c: "current p call m r q s = (s2, c)" by (cases "current p call m r q s")
  note cv = current_view [OF assms(1) c]
  have sv: "serving p call v g recs m s2" using cv by simp
  have blocked: "does p call v g recs sure vd m (m, s2, Inl e)" if "\<not> prompt call m" "e \<in> {AfPending, AfRejected}" for e
    by (rule does_blocked [OF sv _ that(2)]) (use that(1) assms(2) in auto)
  consider "c = None" | b where "c = Some (CurArena b)" | x where "c = Some (CurSnapshot x)"
    | "c = Some CurUnreadable" | "c = Some CurPending"
    by (metis current.exhaust option.exhaust)
  then show ?thesis
  proof cases
    case 1
    then show ?thesis using c cv N [OF sv] by simp
  next
    case 2
    then show ?thesis using c cv A [OF sv] by simp
  next
    case 3
    then show ?thesis using c cv B [OF sv] by simp
  qed (use c cv blocked in simp_all)
qed

lemma seen_at:
  "V k = Some (slot_kview b) \<Longrightarrow> rev_at V k = bs_revision b"
  "V k = Some (slot_kview b) \<Longrightarrow> live_at V k \<longleftrightarrow> bs_kind b \<noteq> KIND_TOMBSTONE"
  "V k = Some (slot_kview b) \<Longrightarrow> bound_at V k kind oid \<longleftrightarrow> bs_kind b = kind \<and> slot_object_id b = oid"
  "V k = Some (slot_kview b) \<Longrightarrow> bs_occupied b \<Longrightarrow> kept_at V k now \<longleftrightarrow> slot_retained_at b now"
  "V k = Some (snap_kview x) \<Longrightarrow> rev_at V k = sr_revision x"
  "V k = Some (snap_kview x) \<Longrightarrow> live_at V k \<longleftrightarrow> sr_kind x \<noteq> KIND_TOMBSTONE"
  "V k = Some (snap_kview x) \<Longrightarrow> bound_at V k kind oid \<longleftrightarrow> sr_kind x = kind \<and> sr_oid x = oid"
  "V k = Some (snap_kview x) \<Longrightarrow> kept_at V k now \<longleftrightarrow> snap_retained_at x now"
  "V k = None \<Longrightarrow> rev_at V k = 0" "V k = None \<Longrightarrow> \<not> live_at V k" "V k = None \<Longrightarrow> \<not> bound_at V k kind oid"
  "V k = None \<Longrightarrow> \<not> kept_at V k now"
  by (simp_all add: reads_at slot_retained_view snap_retained_view k_live_def slot_kview_def snap_kview_def)

lemma apply_bind_does:
  assumes sv: "serving p call v g recs m s"
  shows "does p call v g recs (bind_sure p call m b) (bind_verdict (nm_gc_reserved m) (module_view p recs m) b) m (apply_bind p call b m s)"
proof (cases "fnv1a64 (db_object_id b) \<in> set (nm_gc_reserved m) \<or> db_kind b = KIND_VOLUME")
  case True
  then show ?thesis using does_refuse [OF sv] by (auto simp: apply_bind_def bind_verdict_def Let_def)
next
  case False
  let ?V = "module_view p recs m" and ?k = "(db_root b, db_path b)"
  let ?vd = "bind_verdict (nm_gc_reserved m) ?V b" and ?sure = "bind_sure p call m b"
  have at: "does p call v g recs ?sure ?vd m (case bind_at p b rv live same kept m of (m', r) \<Rightarrow> (m', s', r))"
    if "serving p call v g recs m s'" "\<not> volume_at ?V ?k" "rv = rev_at ?V ?k" "live = live_at ?V ?k"
      "same = bound_at ?V ?k (db_kind b) (db_object_id b)" "kept = kept_at ?V ?k (bm_stamp_ms (db_meta b))" for s' rv live same kept
    using does_obeys [OF that(1) bind_at_obeys [OF serving_ok [OF sv] refl]] that(2-) False by (simp add: bind_verdict_def Let_def)
  have "does p call v g recs ?sure ?vd m
      (case volume_gate p call m (db_root b) (db_path b) s of
         (s, Inl e) \<Rightarrow> (m, s, Inl e) | (s, Inr True) \<Rightarrow> (m, s, Inl AfFenced)
       | (s, Inr False) \<Rightarrow>
           (case current p call m (db_root b) (db_path b) s of
             (s, Some (CurArena slot)) \<Rightarrow>
               (case bind_at p b (bs_revision slot) (bs_kind slot \<noteq> KIND_TOMBSTONE)
                       (bs_kind slot = db_kind b \<and> slot_object_id slot = db_object_id b)
                       (slot_retained_at slot (bm_stamp_ms (db_meta b))) m of (m, r) \<Rightarrow> (m, s, r))
           | (s, Some (CurSnapshot x)) \<Rightarrow>
               (case bind_at p b (sr_revision x) (sr_kind x \<noteq> KIND_TOMBSTONE)
                       (sr_kind x = db_kind b \<and> sr_oid x = db_object_id b)
                       (snap_retained_at x (bm_stamp_ms (db_meta b))) m of (m, r) \<Rightarrow> (m, s, r))
           | (s, Some CurUnreadable) \<Rightarrow> (m, s, Inl AfRejected)
           | (s, Some CurPending) \<Rightarrow> (m, s, Inl AfPending)
           | (s, None) \<Rightarrow> (case bind_at p b 0 False False False m of (m, r) \<Rightarrow> (m, s, r))))"
    by (rule does_gated [OF sv], simp add: bind_sure_def, use False in \<open>simp add: bind_verdict_def Let_def\<close>,
        rule does_current, assumption, simp add: bind_sure_def) (rule at; simp add: seen_at)+
  then show ?thesis using False by (simp add: apply_bind_def)
qed

section \<open>Unbind\<close>

definition unbind_at_verdict :: "decoded_unbind \<Rightarrow> u64 \<Rightarrow> bool \<Rightarrow> bool \<Rightarrow> verdict" where
  "unbind_at_verdict u cur_rev live kept =
     (if \<not> live then (if cur_rev = du_revision u \<and> du_revision u \<noteq> 0 then Keep else Refuse AfRejected)
      else if du_revision u \<le> cur_rev then Refuse AfStale
      else if du_cond u = COND_REVISION \<and> cur_rev \<noteq> du_expect u then Refuse AfCondition
      else if kept then Refuse AfRetained
      else Put (du_root u, du_path u) (tomb_view (du_revision u)))"

definition unbind_verdict :: "kmap \<Rightarrow> decoded_unbind \<Rightarrow> verdict" where
  "unbind_verdict V u =
     (let k = (du_root u, du_path u)
      in if volume_at V k then Refuse AfFenced
         else unbind_at_verdict u (rev_at V k) (live_at V k) (kept_at V k (du_stamp_ms u)))"

definition unbind_sure :: "profile \<Rightarrow> 's provider \<Rightarrow> ns_module \<Rightarrow> decoded_unbind \<Rightarrow> bool" where
  "unbind_sure p call m u \<longleftrightarrow> prompt call m \<and> \<not> ns_full (nm_bindings m) \<and> key_fits p (du_root u) (du_path u) []"

lemma remove_binding_obeys:
  assumes ok: "nm_ok p recs m" and sure: "sure \<Longrightarrow> \<not> ns_full (nm_bindings m) \<and> key_fits p r q []"
  shows "obeys p recs sure (Put (r, q) (tomb_view revision)) m (remove_binding p r q revision m)"
proof -
  obtain m' res where run: "write_evicting p True (\<lambda>st. ns_tombstone p st r q revision) m = (m', res)"
    by (cases "write_evicting p True (\<lambda>st. ns_tombstone p st r q revision) m")
  have "obeys p recs sure (Put (r, q) (tomb_view revision)) m (m', rejecting res ())"
    by (rule obeys_put [OF ok tombstone_writes run]) (use sure in auto)
  then show ?thesis by (simp add: remove_binding_def run)
qed

lemma unbind_at_obeys:
  assumes ok: "nm_ok p recs m"
  shows "obeys p recs (unbind_sure p call m u) (unbind_at_verdict u cur_rev live kept) m (unbind_at p u cur_rev live kept m)"
  using remove_binding_obeys [OF ok, of "unbind_sure p call m u" "du_root u" "du_path u" "du_revision u"]
    obeys_refuse [OF ok] obeys_keep [OF ok]
  by (simp add: unbind_at_def unbind_at_verdict_def unbind_sure_def)

lemma apply_unbind_does:
  assumes sv: "serving p call v g recs m s"
  shows "does p call v g recs (unbind_sure p call m u) (unbind_verdict (module_view p recs m) u) m (apply_unbind p call u m s)"
proof -
  let ?V = "module_view p recs m" and ?k = "(du_root u, du_path u)"
  have at: "does p call v g recs (unbind_sure p call m u) (unbind_verdict ?V u) m (case unbind_at p u rv live kept m of (m', r) \<Rightarrow> (m', s', r))"
    if "serving p call v g recs m s'" "\<not> volume_at ?V ?k" "rv = rev_at ?V ?k" "live = live_at ?V ?k" "kept = kept_at ?V ?k (du_stamp_ms u)"
    for s' rv live kept
    using does_obeys [OF that(1) unbind_at_obeys [OF serving_ok [OF sv]]] that(2-) by (simp add: unbind_verdict_def Let_def)
  show ?thesis unfolding apply_unbind_def
    by (rule does_gated [OF sv], simp add: unbind_sure_def, simp add: unbind_verdict_def Let_def,
        rule does_current, assumption, simp add: unbind_sure_def) (rule at; simp add: seen_at)+
qed

section \<open>Retain and restore\<close>

definition retain_verdict :: "kmap \<Rightarrow> decoded_retain \<Rightarrow> verdict" where
  "retain_verdict V r =
     (case V (dt_root r, dt_path r) of
        None \<Rightarrow> Refuse AfCondition
      | Some v \<Rightarrow>
          if dt_revision r \<le> k_revision v then Refuse AfStale
          else if k_revision v \<noteq> dt_expect r \<or> \<not> k_live v then Refuse AfCondition
          else if k_kind v = KIND_VOLUME then Refuse AfFenced
          else if dt_retain_until_ms r \<noteq> 0 \<and> dt_retain_until_ms r < m_retain_until_ms (k_meta v) then Refuse AfRetained
          else
            let till = (if dt_retain_until_ms r \<noteq> 0 then dt_retain_until_ms r else m_retain_until_ms (k_meta v));
                hold = hold_after (dt_hold r) (m_hold (k_meta v))
            in if till = m_retain_until_ms (k_meta v) \<and> hold = m_hold (k_meta v) then Keep
               else Put (dt_root r, dt_path r)
                      (v\<lparr>k_revision := dt_revision r,
                         k_meta := (k_meta v)\<lparr>m_retain_until_ms := till, m_hold := hold\<rparr>\<rparr>))"

lemma commit_binding_obeys:
  assumes ok: "nm_ok p recs m" and sure: "sure \<Longrightarrow> \<not> ns_full (nm_bindings m) \<and> target_fits p (r, q) oid meta"
  shows "obeys p recs sure (Put (r, q) \<lparr>k_object_id = oid, k_kind = kind, k_revision = revision, k_meta = meta\<rparr>) m
    (commit_binding p r q oid kind revision meta m)"
proof -
  obtain m' res where run: "write_evicting p (nm_snap_active m) (\<lambda>st. ns_commit_bind p st r q oid kind revision meta) m = (m', res)"
    by (cases "write_evicting p (nm_snap_active m) (\<lambda>st. ns_commit_bind p st r q oid kind revision meta) m")
  have "obeys p recs sure (Put (r, q) \<lparr>k_object_id = oid, k_kind = kind, k_revision = revision, k_meta = meta\<rparr>) m (m', rejecting res ())"
    by (rule obeys_put [OF ok commit_writes run]) (use sure in auto)
  then show ?thesis by (simp add: commit_binding_def run)
qed

lemma retain_at_obeys:
  assumes ok: "nm_ok p recs m" and at: "module_view p recs m (dt_root r, dt_path r) = Some v"
  shows "obeys p recs False (retain_verdict (module_view p recs m) r) m
    (retain_at p r (k_revision v) (k_kind v) (k_object_id v) (k_meta v) m)"
proof -
  define till where "till = (if dt_retain_until_ms r \<noteq> 0 then dt_retain_until_ms r else m_retain_until_ms (k_meta v))"
  define hold where "hold = hold_after (dt_hold r) (m_hold (k_meta v))"
  define meta where "meta = (k_meta v)\<lparr>m_retain_until_ms := till, m_hold := hold\<rparr>"
  have put: "obeys p recs False (Put (dt_root r, dt_path r) (v\<lparr>k_revision := dt_revision r, k_meta := meta\<rparr>)) m
      (commit_binding p (dt_root r) (dt_path r) (k_object_id v) (k_kind v) (dt_revision r) meta m)"
    using commit_binding_obeys [OF ok, of False "dt_root r" "dt_path r" "k_object_id v" meta "k_kind v" "dt_revision r"]
    by (cases v) simp
  show ?thesis
    unfolding retain_at_def retain_verdict_def at option.case Let_def till_def [symmetric] hold_def [symmetric] meta_def [symmetric]
    using put obeys_refuse [OF ok] obeys_keep [OF ok] by (simp add: k_live_def)
qed

lemma apply_retain_does:
  assumes sv: "serving p call v g recs m s"
  shows "does p call v g recs False (retain_verdict (module_view p recs m) r) m (apply_retain p call r m s)"
proof -
  let ?V = "module_view p recs m" and ?k = "(dt_root r, dt_path r)"
  have at: "does p call v g recs False (retain_verdict ?V r) m (case retain_at p r rv kind oid meta m of (m', res) \<Rightarrow> (m', s', res))"
    if "serving p call v g recs m s'" "?V ?k = Some w" "rv = k_revision w" "kind = k_kind w" "oid = k_object_id w" "meta = k_meta w"
    for s' w rv kind oid meta
    using does_obeys [OF that(1) retain_at_obeys [OF serving_ok [OF sv] that(2)]] that(3-) by simp
  have "does p call v g recs False (retain_verdict ?V r) m
    (case current p call m (dt_root r) (dt_path r) s of
        (s, Some (CurArena slot)) \<Rightarrow>
          (case retain_at p r (bs_revision slot) (bs_kind slot) (slot_object_id slot) (slot_meta slot) m of (m, res) \<Rightarrow> (m, s, res))
      | (s, Some (CurSnapshot x)) \<Rightarrow>
          (case retain_at p r (sr_revision x) (sr_kind x) (sr_oid x) (snap_meta x) m of (m, res) \<Rightarrow> (m, s, res))
      | (s, Some CurUnreadable) \<Rightarrow> (m, s, Inl AfRejected)
      | (s, Some CurPending) \<Rightarrow> (m, s, Inl AfPending)
      | (s, None) \<Rightarrow> (m, s, Inl AfCondition))"
    by (rule does_current [OF sv], simp)
      ((rule at, assumption, assumption; simp add: slot_kview_def snap_kview_def), (rule at, assumption, assumption; simp add: slot_kview_def
        snap_kview_def), simp add: retain_verdict_def does_refuse)
  moreover have "apply_retain p call r m s = \<dots>"
    by (simp add: apply_retain_def split: prod.split option.split current.split)
  ultimately show ?thesis by simp
qed

definition restore_verdict :: "kmap \<Rightarrow> decoded_bind \<Rightarrow> verdict" where
  "restore_verdict V b =
     (if db_revision b \<le> rev_at V (db_root b, db_path b) then Keep
      else Put (db_root b, db_path b) (if db_kind b = KIND_TOMBSTONE then tomb_view (db_revision b) else bind_view b))"

lemma restore_binding_does:
  assumes sv: "serving p call v g recs m s"
  shows "does p call v g recs False (restore_verdict (module_view p recs m) b) m (restore_binding p call b m s)"
proof -
  let ?V = "module_view p recs m" and ?k = "(db_root b, db_path b)"
  define go where "go = (\<lambda>cur_rev (s' :: 'a).
            if db_revision b \<le> cur_rev then (m, s', Inr ())
            else if db_kind b = KIND_TOMBSTONE then
              (case remove_binding p (db_root b) (db_path b) (db_revision b) m of (m, r) \<Rightarrow> (m, s', r))
            else
              (case commit_binding p (db_root b) (db_path b) (db_object_id b) (db_kind b) (db_revision b)
                      (state_meta (db_meta b)) m of (m, r) \<Rightarrow> (m, s', r)))"
  have at: "does p call v g recs False (restore_verdict ?V b) m (go rv s')"
    if sv': "serving p call v g recs m s'" and rv: "rv = rev_at ?V ?k" for s' rv
  proof -
    note ok = serving_ok [OF sv]
    have "obeys p recs False (Put ?k (tomb_view (db_revision b))) m (remove_binding p (db_root b) (db_path b) (db_revision b) m)"
      by (rule remove_binding_obeys [OF ok]) simp
    note r1 = does_obeys [OF sv' this]
    have "obeys p recs False (Put ?k (bind_view b)) m (commit_binding p (db_root b) (db_path b) (db_object_id b) (db_kind b)
        (db_revision b) (state_meta (db_meta b)) m)"
      unfolding bind_view_def by (rule commit_binding_obeys [OF ok]) simp
    note r2 = does_obeys [OF sv' this]
    show ?thesis using r1 r2 does_keep [OF sv'] by (simp add: go_def restore_verdict_def rv)
  qed
  have "does p call v g recs False (restore_verdict ?V b) m
     (case current p call m (db_root b) (db_path b) s of
        (s, Some (CurArena slot)) \<Rightarrow> go (bs_revision slot) s
      | (s, Some (CurSnapshot x)) \<Rightarrow> go (sr_revision x) s
      | (s, Some CurUnreadable) \<Rightarrow> (m, s, Inl AfRejected)
      | (s, Some CurPending) \<Rightarrow> (m, s, Inl AfPending)
      | (s, None) \<Rightarrow> go 0 s)"
    by (rule does_current [OF sv], simp) (rule at; simp add: seen_at)+
  then show ?thesis by (simp only: restore_binding_def go_def Let_def)
qed

section \<open>Rename\<close>

definition rename_verdict :: "kmap \<Rightarrow> decoded_rename \<Rightarrow> verdict" where
  "rename_verdict V r =
     (let a = (dr_root r, dr_from r); b = (dr_root r, dr_to r)
      in if volume_at V a \<or> volume_at V b then Refuse AfFenced
         else if kept_at V a (dr_stamp_ms r) \<or> kept_at V b (dr_stamp_ms r) then Refuse AfRetained
         else if live_at V b \<or> \<not> live_at V a then Refuse AfRejected
         else Move a b (dr_new_revision r))"

lemma moved_rev_over: "moved_rev revision (map_option slot_kview (ns_map st k)) rv \<Longrightarrow> moved_rev revision (arena_over st below k) rv"
  by (auto simp: moved_rev_def arena_over_def)

lemma ns_rename_outcome:
  assumes ok: "nm_ok p recs m" and dest: "\<not> live_at (module_view p recs m) (r, to)"
    and run: "ns_rename p (nm_bindings m) r from to revision = (st', Inr x)"
  shows "nm_ok p recs (m\<lparr>nm_bindings := st'\<rparr>) \<and> moves (nm_bindings m) st' \<and> live_at (module_view p recs m) (r, from) \<and>
    outcome (Move (r, from) (r, to) revision) (module_view p recs m) (module_view p recs (m\<lparr>nm_bindings := st'\<rparr>))"
proof -
  have cov: "arena_covered p (below_view p recs m) (nm_bindings m)" using ok by (simp add: nm_ok_def)
  then have nok: "ns_ok p (nm_bindings m)" by (simp add: arena_covered_def)
  have ne: "from \<noteq> to"
  proof
    assume eq: "from = to"
    have dead: "bs_kind s = KIND_TOMBSTONE" if s: "s \<in> set (ns_slots (nm_bindings m))" "slot_matches (fnv1a64 r) (fnv1a64 to) r to s" for s
    proof (rule ccontr)
      assume "bs_kind s \<noteq> KIND_TOMBSTONE"
      then obtain w where "ns_view (nm_bindings m) (r, to) = Some w" "v_kind w \<noteq> KIND_TOMBSTONE"
        using live_at_view [OF nok, of r to] s by blast
      then show False using dest
        by (auto simp: ns_view_def module_view_def arena_over_def live_at_def k_live_def slot_kview_def slot_view_def)
    qed
    then obtain e where "ns_rename p (nm_bindings m) r to to revision = (nm_bindings m, Inl e)" using ns_rename_same by blast
    then show False using run eq by simp
  qed
  obtain s rv where mv: "arena_covered p (below_view p recs m) st' \<and> moves (nm_bindings m) st'" "ns_map (nm_bindings m) (r, from) = Some s" "bs_kind s \<noteq> KIND_TOMBSTONE"
    "moved_rev revision (map_option slot_kview (ns_map (nm_bindings m) (r, to))) rv"
    "arena_over st' (below_view p recs m) = (arena_over (nm_bindings m) (below_view p recs m))
       ((r, to) \<mapsto> (slot_kview s)\<lparr>k_revision := rv\<rparr>, (r, from) \<mapsto> tomb_view revision)"
    using ns_rename_moves [OF cov ne run] by blast
  have V: "module_view p recs m (r, from) = Some (slot_kview s)" "k_live (slot_kview s)"
    using mv(2,3) by (simp_all add: module_view_def arena_over_def k_live_def slot_kview_def)
  have "moved_rev revision (module_view p recs m (r, to)) rv" using moved_rev_over [OF mv(4)] by (simp add: module_view_def)
  moreover have "module_view p recs (m\<lparr>nm_bindings := st'\<rparr>) = (module_view p recs m)
      ((r, to) \<mapsto> (slot_kview s)\<lparr>k_revision := rv\<rparr>, (r, from) \<mapsto> tomb_view revision)"
    using mv(5) by (simp add: module_view_def below_view_same [OF same_but_arena_upd])
  ultimately have "outcome (Move (r, from) (r, to) revision) (module_view p recs m) (module_view p recs (m\<lparr>nm_bindings := st'\<rparr>))"
    using V dest by auto
  then show ?thesis using V mv(1) by (simp add: nm_ok_def live_at_def below_view_same [OF same_but_arena_upd])
qed

lemma rename_arena_obeys:
  assumes ok: "nm_ok p recs m" and dest: "\<not> live_at (module_view p recs m) (dr_root r, dr_to r)"
  shows "obeys p recs False (if live_at (module_view p recs m) (dr_root r, dr_from r)
      then Move (dr_root r, dr_from r) (dr_root r, dr_to r) (dr_new_revision r) else Refuse AfRejected) m (rename_arena p r m)"
proof -
  let ?run = "\<lambda>m. ns_rename p (nm_bindings m) (dr_root r) (dr_from r) (dr_to r) (dr_new_revision r)"
  let ?V = "module_view p recs"
  let ?vd = "if live_at (?V m) (dr_root r, dr_from r) then Move (dr_root r, dr_from r) (dr_root r, dr_to r) (dr_new_revision r) else Refuse AfRejected"
  have step: "obeys p recs False ?vd m (m1\<lparr>nm_bindings := st'\<rparr>, rejecting res ())"
    if "nm_ok p recs m1" "?V m1 = ?V m" "same_but_arena m m1" "?run m1 = (st', res)" "moves (nm_bindings m) (nm_bindings m1)" for m1 st' res
  proof (cases res)
    case (Inl e)
    then have "st' = nm_bindings m1" using ns_rename_refused that(4) by blast
    then show ?thesis using that Inl by (simp add: obeys_def rejecting_def)
  next
    case (Inr x)
    have "\<not> live_at (?V m1) (dr_root r, dr_to r)" using dest that(2) by simp
    note o = ns_rename_outcome [OF that(1) this that(4) [unfolded Inr]]
    have "moves (nm_bindings m) st'" using moves_trans o that(5) by blast
    then show ?thesis using o Inr that(2) same_but_arena_trans [OF that(3) same_but_arena_upd, of st'] by (simp add: obeys_def rejecting_def)
  qed
  obtain st res where run: "?run m = (st, res)" by (cases "?run m")
  show ?thesis
  proof (cases res)
    case (Inr x)
    then show ?thesis using step [OF ok refl same_but_arena_refl run moves_refl] run by (simp add: rename_arena_def rejecting_def)
  next
    case (Inl e)
    then have st: "st = nm_bindings m" using ns_rename_refused run by blast
    show ?thesis
    proof (cases "if nm_snap_active m \<and> ns_len (nm_bindings m) = length (ns_slots (nm_bindings m))
        then evict_counted p (Some (dr_root r, dr_from r)) m else None")
      case None
      then have "rename_arena p r m = (m, Inl AfRejected)" using run Inl st by (auto simp: rename_arena_def Let_def)
      then show ?thesis using ok by (simp add: obeys_def moves_refl)
    next
      case (Some m1)
      then have ev: "evict_counted p (Some (dr_root r, dr_from r)) m = Some m1" by (auto split: if_splits)
      note e1 = evict_counted_view [OF ok ev]
      obtain st2 res2 where run2: "?run m1 = (st2, res2)" by (cases "?run m1")
      have "rename_arena p r m = (m1\<lparr>nm_bindings := st2\<rparr>, rejecting res2 ())"
        using run Inl st Some run2 by (auto simp: rename_arena_def Let_def)
      then show ?thesis using step [OF e1(1,2,3) run2 e1(5)] by simp
    qed
  qed
qed

lemma apply_rename_does:
  assumes sv: "serving p call v g recs m s"
  shows "does p call v g recs False (rename_verdict (module_view p recs m) r) m (apply_rename p call r m s)"
proof -
  let ?V = "module_view p recs m" and ?a = "(dr_root r, dr_from r)" and ?b = "(dr_root r, dr_to r)"
  let ?vd = "rename_verdict ?V r" and ?now = "dr_stamp_ms r"
  have fin: "does p call v g recs False ?vd m
      (if ka \<or> kb then (m, s', Inl AfRetained) else if lb then (m, s', Inl AfRejected)
       else case rename_arena p r m of (m, res) \<Rightarrow> (m, s', res))"
    if sv': "serving p call v g recs m s'" and eq: "ka = kept_at ?V ?a ?now" "kb = kept_at ?V ?b ?now" "lb = live_at ?V ?b"
      and vol: "\<not> volume_at ?V ?a" "\<not> volume_at ?V ?b" for s' ka kb lb
  proof (cases "ka \<or> kb \<or> lb")
    case True
    then show ?thesis using eq vol does_refuse [OF sv'] by (auto simp: rename_verdict_def Let_def)
  next
    case False
    then show ?thesis
      using does_obeys [OF sv' rename_arena_obeys [OF serving_ok [OF sv], of r]] eq vol by (simp add: rename_verdict_def Let_def split: if_splits)
  qed
  have kept: "does p call v g recs False ?vd m
      (case key_retained p call m (dr_root r) (dr_from r) ?now s' of
         (s, Inl e) \<Rightarrow> (m, s, Inl e)
       | (s, Inr (from_kept, _)) \<Rightarrow>
           (case key_retained p call m (dr_root r) (dr_to r) ?now s of
              (s, Inl e) \<Rightarrow> (m, s, Inl e)
            | (s, Inr (to_kept, to_live)) \<Rightarrow>
                if from_kept \<or> to_kept then (m, s, Inl AfRetained)
                else if to_live then (m, s, Inl AfRejected)
                else (case rename_arena p r m of (m, res) \<Rightarrow> (m, s, res))))"
    if sv': "serving p call v g recs m s'" and vol: "\<not> volume_at ?V ?a" "\<not> volume_at ?V ?b" for s'
  proof -
    obtain s1 x where k1: "key_retained p call m (dr_root r) (dr_from r) ?now s' = (s1, x)"
      by (cases "key_retained p call m (dr_root r) (dr_from r) ?now s'")
    note v1 = key_retained_view [OF sv' k1]
    then have sv1: "serving p call v g recs m s1" by simp
    obtain s2 y where k2: "key_retained p call m (dr_root r) (dr_to r) ?now s1 = (s2, y)"
      by (cases "key_retained p call m (dr_root r) (dr_to r) ?now s1")
    note v2 = key_retained_view [OF sv1 k2]
    then have sv2: "serving p call v g recs m s2" by simp
    have blocked: "does p call v g recs False ?vd m (m, t, Inl e)" if "serving p call v g recs m t" "asked call m (Inl e) z" for t e and z :: 'z
      using does_blocked [OF that(1), of False e ?vd] that(2) by (simp add: asked_def)
    show ?thesis
    proof (cases x)
      case (Inl e)
      then show ?thesis using k1 v1 blocked [OF sv1] by auto
    next
      case x: (Inr a)
      then have a: "a = (kept_at ?V ?a ?now, live_at ?V ?a)" using v1 by (simp add: asked_def)
      show ?thesis
      proof (cases y)
        case (Inl e)
        then show ?thesis using k1 k2 x a v2 blocked [OF sv2] by auto
      next
        case (Inr b)
        then have b: "b = (kept_at ?V ?b ?now, live_at ?V ?b)" using v2 by (simp add: asked_def)
        show ?thesis using k1 k2 x a b Inr fin [OF sv2 refl refl refl vol] by simp
      qed
    qed
  qed
  show ?thesis unfolding apply_rename_def
    by (rule does_gated [OF sv], simp, simp add: rename_verdict_def Let_def, rule does_gated, assumption, simp,
        simp add: rename_verdict_def Let_def, rule kept)
qed

end
