(* ===== verification/Namespace_Wire_Props.thy ===== *)
theory Namespace_Wire_Props
  imports Namespace_Wire
begin

text \<open>
  The namespace wire is exact: every record an encoder writes is read back, by the decoder
  and by the stream splitter, whatever follows it in the buffer.
\<close>

section \<open>Shared facts\<close>

lemma put_record_Inr:
  assumes "put_record dst frame = Inr (n, out)"
  shows "n = length frame" "take n out = frame" "drop n out = drop n dst" "length out = length dst"
  using assms by (auto simp: put_record_def copy_prefix_def split: if_splits)

lemma wire_check_key_None: "wire_check_key p root path oid = None \<longleftrightarrow> key_fits p root path oid"
  by (auto simp: wire_check_key_def check_key_def key_fits_def)

lemma len16_back:
  assumes "length bs \<le> 1024"
  shows "unat (word_of_nat (length bs) :: u16) = length bs"
  using assms by (intro unat_of_nat_small) simp

lemma key_lens:
  assumes "key_fits p root path oid"
  shows "unat (word_of_nat (length root) :: u16) = length root" "unat (word_of_nat (length path) :: u16) = length path"
    "unat (word_of_nat (length oid) :: u16) = length oid"
  using assms by (auto simp: key_fits_def MAX_ROOT_def MAX_PATH_def MAX_OBJECT_ID_def intro!: len16_back split: if_splits)

lemmas hdr_defs = BIND_HDR_def RENAME_HDR_def UNBIND_HDR_def RETAIN_HDR_def GC_RESERVE_HDR_def LEASE_REQ_HDR_def
  LEASE_RESP_LEN_def LEASE_RESTORE_HDR_def VOLUME_REQ_HDR_def VOLUME_RESP_LEN_def LEASE_HOLDER_LEN_def RETAINED_HDR_def

section \<open>Each record\<close>

lemma rename_frame_back:
  assumes "key_fits p (dr_root r) (dr_from r) []" "key_fits p (dr_root r) (dr_to r) []"
  shows "decode_rename (rename_frame r @ rest) = Inr r"
    and "request_record_len (rename_frame r @ rest) = Inr (Some (length (rename_frame r)))"
  using key_lens [OF assms(1)] key_lens [OF assms(2)]
  by (simp_all add: decode_rename_def rename_frame_def hdr_defs le_simps Let_def request_record_len_def request_shape_def ns_opcodes)

lemma unbind_frame_back:
  assumes "key_fits p (du_root r) (du_path r) []" "du_cond r \<le> COND_REVISION"
  shows "decode_unbind (unbind_frame r @ rest) = Inr r"
    and "request_record_len (unbind_frame r @ rest) = Inr (Some (length (unbind_frame r)))"
  using key_lens [OF assms(1)] assms(2)
  by (simp_all add: decode_unbind_def unbind_frame_def hdr_defs le_simps Let_def request_record_len_def request_shape_def ns_opcodes
      nth_append)

lemma retain_frame_back:
  assumes "key_fits p (dt_root r) (dt_path r) []" "dt_hold r \<le> RETAIN_HOLD_CLEAR"
  shows "decode_retain p (retain_frame r @ rest) = Inr r"
    and "request_record_len (retain_frame r @ rest) = Inr (Some (length (retain_frame r)))"
  using key_lens [OF assms(1)] assms
  by (simp_all add: decode_retain_def retain_frame_def hdr_defs le_simps Let_def request_record_len_def request_shape_def ns_opcodes
      nth_append wire_check_key_None [THEN iffD2])

lemma gc_frame_back:
  assumes "key_fits p [] [] oid" "op = OP_GC_RESERVE \<or> op = OP_GC_RELEASE"
  shows "decode_gc_reserve_req (gc_frame op oid now @ rest) = Inr (oid, now)"
    and "request_record_len (gc_frame op oid now @ rest) = Inr (Some (length (gc_frame op oid now)))"
  using key_lens [OF assms(1)] assms(2)
  by (auto simp: decode_gc_reserve_req_def gc_frame_def hdr_defs le_simps Let_def request_record_len_def request_shape_def
      ns_opcodes)

lemma lease_req_frame_back:
  assumes "key_fits p (dl_root r) (dl_path r) []" "length (dl_holder r) = LEASE_HOLDER_LEN"
  shows "decode_lease_req p (lease_req_frame r @ rest) = Inr r"
    and "request_record_len (lease_req_frame r @ rest) = Inr (Some (length (lease_req_frame r)))"
  using key_lens [OF assms(1)] assms
  by (simp_all add: decode_lease_req_def lease_req_frame_def hdr_defs le_simps Let_def request_record_len_def request_shape_def
      ns_opcodes wire_check_key_None [THEN iffD2])

lemma volume_req_frame_back:
  assumes "key_fits p (dv_root r) (dv_path r) (dv_object_id r)" "length (dv_holder r) = LEASE_HOLDER_LEN"
  shows "decode_volume_req p (volume_req_frame r @ rest) = Inr r"
    and "request_record_len (volume_req_frame r @ rest) = Inr (Some (length (volume_req_frame r)))"
  using key_lens [OF assms(1)] assms
  by (simp_all add: decode_volume_req_def volume_req_frame_def hdr_defs le_simps Let_def request_record_len_def request_shape_def
      ns_opcodes wire_check_key_None [THEN iffD2])

definition bind_fits :: "profile \<Rightarrow> decoded_bind \<Rightarrow> bool" where
  "bind_fits p b \<longleftrightarrow> key_fits p (db_root b) (db_path b) (db_object_id b) \<and> length (bm_content_type (db_meta b)) \<le> CONTENT_TYPE_MAX \<and>
     length (bm_key_ref (db_meta b)) \<le> KEY_REF_MAX \<and> db_cond b \<le> COND_REVISION"

lemma bind_record_len:
  assumes "src \<noteq> []" "hd src = OP_BIND"
  shows "request_record_len src =
    (if length src < BIND_HDR then Inr None
     else let total = BIND_HDR + get16 src 1 + get16 src 3 + get16 src 5 + unat (src ! 41) + unat (src ! 42)
          in Inr (if length src \<ge> total then Some total else None))"
  using assms by (cases src) (simp_all add: request_record_len_def)

lemma bind_frame_back:
  assumes "bind_fits p b"
  shows "decode_bind_fields p (bind_frame op b @ rest) = Inr b"
    and "op = OP_BIND \<Longrightarrow> request_record_len (bind_frame op b @ rest) = Inr (Some (length (bind_frame op b)))"
proof -
  note k = assms [unfolded bind_fits_def]
  have u8: "unat (word_of_nat (length (bm_content_type (db_meta b))) :: u8) = length (bm_content_type (db_meta b))"
    "unat (word_of_nat (length (bm_key_ref (db_meta b))) :: u8) = length (bm_key_ref (db_meta b))"
    using k by (simp_all add: CONTENT_TYPE_MAX_def KEY_REF_MAX_def unat_of_nat_small)
  have at: "(bind_frame op b @ rest) ! 7 = db_kind b" "(bind_frame op b @ rest) ! 32 = db_cond b"
    "(bind_frame op b @ rest) ! 41 = word_of_nat (length (bm_content_type (db_meta b)))"
    "(bind_frame op b @ rest) ! 42 = word_of_nat (length (bm_key_ref (db_meta b)))"
    "(bind_frame op b @ rest) ! 51 = (if bm_hold (db_meta b) then 1 else 0)"
    by (simp_all add: bind_frame_def Let_def nth_append)
  have f: "get64 (bind_frame op b @ rest) 8 = db_revision b" "get64 (bind_frame op b @ rest) 16 = bm_stamp_ms (db_meta b)"
    "get64 (bind_frame op b @ rest) 24 = bm_size (db_meta b)" "get64 (bind_frame op b @ rest) 33 = db_expect b"
    "get64 (bind_frame op b @ rest) 43 = bm_retain_until_ms (db_meta b)"
    by (simp_all add: bind_frame_def Let_def le_simps)
  have l: "get16 (bind_frame op b @ rest) 1 = length (db_root b)" "get16 (bind_frame op b @ rest) 3 = length (db_path b)"
    "get16 (bind_frame op b @ rest) 5 = length (db_object_id b)"
    using key_lens [OF k [THEN conjunct1]] by (simp_all add: bind_frame_def Let_def le_simps)
  define n1 where "n1 = BIND_HDR + length (db_root b)"
  define n2 where "n2 = n1 + length (db_path b)"
  define n3 where "n3 = n2 + length (db_object_id b)"
  define n4 where "n4 = n3 + length (bm_content_type (db_meta b))"
  have parts: "sub_slice (bind_frame op b @ rest) BIND_HDR (length (db_root b)) = db_root b"
    "sub_slice (bind_frame op b @ rest) n1 (length (db_path b)) = db_path b"
    "sub_slice (bind_frame op b @ rest) n2 (length (db_object_id b)) = db_object_id b"
    "sub_slice (bind_frame op b @ rest) n3 (length (bm_content_type (db_meta b))) = bm_content_type (db_meta b)"
    "sub_slice (bind_frame op b @ rest) n4 (length (bm_key_ref (db_meta b))) = bm_key_ref (db_meta b)"
    by (simp_all add: bind_frame_def Let_def le_simps n1_def n2_def n3_def n4_def BIND_HDR_def)
  have len: "length (bind_frame op b) = n4 + length (bm_key_ref (db_meta b))"
    by (simp add: bind_frame_def Let_def n1_def n2_def n3_def n4_def BIND_HDR_def)
  have ck: "wire_check_key p (db_root b) (db_path b) (db_object_id b) = None" using k by (simp add: wire_check_key_None)
  show "decode_bind_fields p (bind_frame op b @ rest) = Inr b"
    unfolding decode_bind_fields_def Let_def at f l u8
    using k len parts ck by (simp add: n1_def n2_def n3_def n4_def add.assoc not_less)
  show "request_record_len (bind_frame op b @ rest) = Inr (Some (length (bind_frame op b)))" if "op = OP_BIND"
  proof -
    have ne: "bind_frame op b @ rest \<noteq> []" "hd (bind_frame op b @ rest) = OP_BIND"
      using that by (simp_all add: bind_frame_def Let_def)
    have "request_record_len (bind_frame op b @ rest) =
       (let total = BIND_HDR + get16 (bind_frame op b @ rest) 1 + get16 (bind_frame op b @ rest) 3 + get16 (bind_frame op b @ rest) 5
          + unat ((bind_frame op b @ rest) ! 41) + unat ((bind_frame op b @ rest) ! 42)
        in Inr (if length (bind_frame op b @ rest) \<ge> total then Some total else None))"
      unfolding bind_record_len [OF ne] using len by (simp add: n1_def n2_def n3_def n4_def)
    then show ?thesis unfolding at l u8 using len by (simp add: n1_def n2_def n3_def n4_def add.assoc)
  qed
qed

lemma lease_restore_frame_back:
  assumes "key_fits p (ds_root r) (ds_path r) []" "length (ds_holder r) = LEASE_HOLDER_LEN"
  shows "decode_lease_restore p (lease_restore_frame r @ rest) = Inr r"
    and "mark_lease_restore_flushing (lease_restore_frame r) = (rec', True) \<Longrightarrow>
      decode_lease_restore p (rec' @ rest) = Inr r \<and> lease_restore_flushing (rec' @ rest)"
    and "\<not> lease_restore_flushing (lease_restore_frame r @ rest)"
proof -
  define a where "a = [OP_LEASE_RESTORE] @ len16 (ds_root r) @ len16 (ds_path r) @ ds_holder r @ le_bytes 8 (ds_fence r) @
     le_bytes 8 (ds_expires_at_ms r) @ le_bytes 8 (ds_stamp_ms r)"
  define b where "b = le_bytes 8 (ds_fence_floor r) @ le_bytes 8 (ds_stamp_floor r) @ ds_root r @ ds_path r"
  have la: "length a = 45" using assms(2) by (simp add: a_def LEASE_HOLDER_LEN_def)
  have dec: "decode_lease_restore p ((a @ [flag] @ b) @ rest) = Inr r"
    if "(flag AND LEASE_RESTORE_LIVE \<noteq> 0) = ds_live r" for flag
    using key_lens [OF assms(1)] assms that la
    by (simp add: decode_lease_restore_def a_def b_def hdr_defs le_simps Let_def ns_opcodes wire_check_key_None [THEN iffD2] nth_append)
  have fr: "lease_restore_frame r = a @ [if ds_live r then 1 else 0] @ b"
    by (simp add: lease_restore_frame_def a_def b_def)
  show "decode_lease_restore p (lease_restore_frame r @ rest) = Inr r"
    unfolding fr by (rule dec) (simp add: LEASE_RESTORE_LIVE_def)
  have head: "(a @ x) ! 0 = OP_LEASE_RESTORE" "(a @ c # y) ! 45 = c" for x y c
    by (simp add: a_def, simp add: nth_append la)
  show "\<not> lease_restore_flushing (lease_restore_frame r @ rest)"
    unfolding fr lease_restore_flushing_def by (simp add: head LEASE_RESTORE_FLUSHING_def)
  show "decode_lease_restore p (rec' @ rest) = Inr r \<and> lease_restore_flushing (rec' @ rest)"
    if m: "mark_lease_restore_flushing (lease_restore_frame r) = (rec', True)"
  proof -
    have "rec' = a @ [(if ds_live r then 1 else 0) OR LEASE_RESTORE_FLUSHING] @ b"
      using m unfolding fr mark_lease_restore_flushing_def
      by (auto simp: head la list_update_append split: if_splits)
    then show ?thesis
      using dec [of "(if ds_live r then 1 else 0) OR LEASE_RESTORE_FLUSHING"]
      by (simp add: lease_restore_flushing_def head la LEASE_RESTORE_LIVE_def LEASE_RESTORE_FLUSHING_def)
  qed
qed

section \<open>Every request\<close>

datatype ns_request =
    RqBind decoded_bind
  | RqRename decoded_rename
  | RqUnbind decoded_unbind
  | RqRetain decoded_retain
  | RqReserve bytes u64
  | RqRelease bytes
  | RqLease decoded_lease_req
  | RqVolume decoded_volume_req

fun encode_request :: "profile \<Rightarrow> bytes \<Rightarrow> ns_request \<Rightarrow> ns_wire_error + nat \<times> bytes" where
  "encode_request p dst (RqBind b) = encode_bind p dst b"
| "encode_request p dst (RqRename r) = encode_rename p dst r"
| "encode_request p dst (RqUnbind r) = encode_unbind p dst r"
| "encode_request p dst (RqRetain r) = encode_retain p dst r"
| "encode_request p dst (RqReserve oid now) = encode_gc_reserve_req p dst oid now"
| "encode_request p dst (RqRelease oid) = encode_gc_release_req p dst oid"
| "encode_request p dst (RqLease r) = encode_lease_req p dst r"
| "encode_request p dst (RqVolume r) = encode_volume_req p dst r"

definition decoded :: "('a \<Rightarrow> ns_request) \<Rightarrow> ns_wire_error + 'a \<Rightarrow> ns_request option" where
  "decoded f r = (case r of Inl _ \<Rightarrow> None | Inr x \<Rightarrow> Some (f x))"

definition decode_request :: "profile \<Rightarrow> bytes \<Rightarrow> ns_request option" where
  \<comment> \<open>the record at the front, by its opcode\<close>
  "decode_request p src =
     (case ns_peek_opcode src of
        None \<Rightarrow> None
      | Some op \<Rightarrow>
          if op = OP_BIND then decoded RqBind (decode_bind p src)
          else if op = OP_RENAME then decoded RqRename (decode_rename src)
          else if op = OP_UNBIND then decoded RqUnbind (decode_unbind src)
          else if op = OP_RETAIN then decoded RqRetain (decode_retain p src)
          else if op = OP_GC_RESERVE then decoded (\<lambda>(oid, now). RqReserve oid now) (decode_gc_reserve_req src)
          else if op = OP_GC_RELEASE then decoded (\<lambda>(oid, now). RqRelease oid) (decode_gc_reserve_req src)
          else if op = OP_LEASE then decoded RqLease (decode_lease_req p src)
          else if op = OP_VOLUME then decoded RqVolume (decode_volume_req p src)
          else None)"

fun request_typed :: "ns_request \<Rightarrow> bool" where
  \<comment> \<open>what the Rust types and the decoder's kind check fix: a sixteen-byte holder, a known kind\<close>
  "request_typed (RqBind b) = (db_kind b \<le> KIND_SYMLINK)"
| "request_typed (RqLease r) = (length (dl_holder r) = LEASE_HOLDER_LEN)"
| "request_typed (RqVolume r) = (length (dv_holder r) = LEASE_HOLDER_LEN)"
| "request_typed _ = True"

lemma frame_opcodes:
  "ns_peek_opcode (bind_frame op b @ rest) = Some op" "ns_peek_opcode (rename_frame r @ rest) = Some OP_RENAME"
  "ns_peek_opcode (unbind_frame u @ rest) = Some OP_UNBIND" "ns_peek_opcode (retain_frame t @ rest) = Some OP_RETAIN"
  "ns_peek_opcode (gc_frame op oid now @ rest) = Some op" "ns_peek_opcode (lease_req_frame l @ rest) = Some OP_LEASE"
  "ns_peek_opcode (volume_req_frame v @ rest) = Some OP_VOLUME"
  by (simp_all add: ns_peek_opcode_def bind_frame_def Let_def rename_frame_def unbind_frame_def retain_frame_def gc_frame_def
      lease_req_frame_def volume_req_frame_def)

lemma encoded_frame:
  assumes "encode_request p dst r = Inr (n, out)" "request_typed r"
  shows "\<exists>frame. put_record dst frame = Inr (n, out) \<and>
    (\<forall>rest. decode_request p (frame @ rest) = Some r \<and> request_record_len (frame @ rest) = Inr (Some (length frame)))"
proof (cases r)
  case (RqBind b)
  have e: "put_record dst (bind_frame OP_BIND b) = Inr (n, out)" "bind_fits p b"
    using assms RqBind
    by (auto simp: encode_bind_def bind_fits_def wire_check_key_None not_less split: option.splits if_splits)
  have "bind_frame OP_BIND b @ rest \<noteq> [] \<and> (bind_frame OP_BIND b @ rest) ! 0 = OP_BIND" for rest
    by (simp add: bind_frame_def Let_def)
  then show ?thesis
    using e bind_frame_back [OF e(2)] assms(2) RqBind
    by (intro exI [of _ "bind_frame OP_BIND b"]) (simp add: decode_request_def frame_opcodes decode_bind_def decoded_def not_less)
next
  case (RqRename d)
  have e: "put_record dst (rename_frame d) = Inr (n, out)" "key_fits p (dr_root d) (dr_from d) []" "key_fits p (dr_root d) (dr_to d) []"
    using assms RqRename by (auto simp: encode_rename_def wire_check_key_None split: option.splits if_splits)
  then show ?thesis using rename_frame_back [OF e(2,3)] RqRename
    by (intro exI [of _ "rename_frame d"]) (simp add: decode_request_def frame_opcodes decoded_def ns_opcodes)
next
  case (RqUnbind d)
  have e: "put_record dst (unbind_frame d) = Inr (n, out)" "key_fits p (du_root d) (du_path d) []" "du_cond d \<le> COND_REVISION"
    using assms RqUnbind by (auto simp: encode_unbind_def wire_check_key_None not_less split: option.splits if_splits)
  then show ?thesis using unbind_frame_back [OF e(2,3)] RqUnbind
    by (intro exI [of _ "unbind_frame d"]) (simp add: decode_request_def frame_opcodes decoded_def ns_opcodes)
next
  case (RqRetain d)
  have e: "put_record dst (retain_frame d) = Inr (n, out)" "key_fits p (dt_root d) (dt_path d) []" "dt_hold d \<le> RETAIN_HOLD_CLEAR"
    using assms RqRetain by (auto simp: encode_retain_def wire_check_key_None not_less split: option.splits if_splits)
  then show ?thesis using retain_frame_back [OF e(2,3)] RqRetain
    by (intro exI [of _ "retain_frame d"]) (simp add: decode_request_def frame_opcodes decoded_def ns_opcodes)
next
  case (RqReserve oid now)
  have e: "put_record dst (gc_frame OP_GC_RESERVE oid now) = Inr (n, out)" "key_fits p [] [] oid"
    using assms RqReserve
    by (auto simp: encode_gc_reserve_req_def encode_gc_record_def wire_check_key_None split: option.splits if_splits)
  then show ?thesis using gc_frame_back [OF e(2), of OP_GC_RESERVE now] RqReserve
    by (intro exI [of _ "gc_frame OP_GC_RESERVE oid now"]) (simp add: decode_request_def frame_opcodes decoded_def ns_opcodes)
next
  case (RqRelease oid)
  have e: "put_record dst (gc_frame OP_GC_RELEASE oid 0) = Inr (n, out)" "key_fits p [] [] oid"
    using assms RqRelease
    by (auto simp: encode_gc_release_req_def encode_gc_record_def wire_check_key_None split: option.splits if_splits)
  then show ?thesis using gc_frame_back [OF e(2), of OP_GC_RELEASE 0] RqRelease
    by (intro exI [of _ "gc_frame OP_GC_RELEASE oid 0"]) (simp add: decode_request_def frame_opcodes decoded_def ns_opcodes)
next
  case (RqLease d)
  have e: "put_record dst (lease_req_frame d) = Inr (n, out)" "key_fits p (dl_root d) (dl_path d) []"
    using assms RqLease by (auto simp: encode_lease_req_def wire_check_key_None split: option.splits if_splits)
  then show ?thesis using lease_req_frame_back [OF e(2)] assms(2) RqLease
    by (intro exI [of _ "lease_req_frame d"]) (simp add: decode_request_def frame_opcodes decoded_def ns_opcodes)
next
  case (RqVolume d)
  have e: "put_record dst (volume_req_frame d) = Inr (n, out)" "key_fits p (dv_root d) (dv_path d) (dv_object_id d)"
    using assms RqVolume by (auto simp: encode_volume_req_def wire_check_key_None split: option.splits if_splits)
  then show ?thesis using volume_req_frame_back [OF e(2)] assms(2) RqVolume
    by (intro exI [of _ "volume_req_frame d"]) (simp add: decode_request_def frame_opcodes decoded_def ns_opcodes)
qed

text \<open>C21: whatever request a producer encodes, and whatever follows it in the stream, the
  splitter cuts the stream right after it and the decoder reads the same request back.\<close>

theorem request_roundtrip:
  assumes "encode_request p dst r = Inr (n, out)" "request_typed r"
  shows "decode_request p (take n out @ rest) = Some r \<and> request_record_len (take n out @ rest) = Inr (Some n)"
proof -
  obtain frame where f: "put_record dst frame = Inr (n, out)"
    and d: "\<forall>rest. decode_request p (frame @ rest) = Some r \<and> request_record_len (frame @ rest) = Inr (Some (length frame))"
    using encoded_frame [OF assms] by blast
  show ?thesis using put_record_Inr(1,2) [OF f] d by simp
qed

lemma request_roundtrip_witness:
  "\<exists>n out. encode_request Minimal (replicate 64 0) (RqReserve [1, 2] 5) = Inr (n, out) \<and>
     decode_request Minimal (take n out @ [9, 9]) = Some (RqReserve [1, 2] 5)"
proof -
  define dst :: bytes where "dst = replicate 64 0"
  have "length dst = 64" by (simp add: dst_def)
  then obtain n out where e: "encode_request Minimal dst (RqReserve [1, 2] 5) = Inr (n, out)"
    by (simp add: encode_gc_reserve_req_def encode_gc_record_def wire_check_key_def check_key_def
        put_record_def gc_frame_def MAX_ROOT_def MAX_OBJECT_ID_def)
  then show ?thesis using request_roundtrip [OF e, of "[9, 9]"] by (auto simp: dst_def)
qed

end
