(* ===== verification/Namespace_Volume.thy ===== *)
theory Namespace_Volume
  imports Namespace_Refine Namespace_Wire_Props
begin

text \<open>
  Volume records, leases and reservations in \<open>apply_op\<close>: a volume record changes the map at its
  volume alone, and only as a fenced commit or a fenced delete.
\<close>

section \<open>Frames\<close>

lemma nm_ok_frame [simp]:
  "nm_ok p recs (m\<lparr>nm_leases := lt\<rparr>) = nm_ok p recs m" "nm_ok p recs (m\<lparr>nm_gc_reserved := rs\<rparr>) = nm_ok p recs m"
  "nm_ok p recs (m\<lparr>nm_lease_resp := b\<rparr>) = nm_ok p recs m" "nm_ok p recs (m\<lparr>nm_volume_resp := b\<rparr>) = nm_ok p recs m"
  by (simp_all add: nm_ok_def below_view_def [abs_def])

lemma module_view_frame [simp]:
  "module_view p recs (m\<lparr>nm_leases := lt\<rparr>) = module_view p recs m"
  "module_view p recs (m\<lparr>nm_gc_reserved := rs\<rparr>) = module_view p recs m"
  "module_view p recs (m\<lparr>nm_lease_resp := b\<rparr>) = module_view p recs m"
  "module_view p recs (m\<lparr>nm_volume_resp := b\<rparr>) = module_view p recs m"
  by (simp_all add: module_view_def below_view_def [abs_def])

lemma flush_set_frame [simp]:
  "nm_ok p recs (flush_set p req on m) = nm_ok p recs m" "module_view p recs (flush_set p req on m) = module_view p recs m"
  "nm_gc_reserved (flush_set p req on m) = nm_gc_reserved m" "nm_snap_active (flush_set p req on m) = nm_snap_active m"
  "nm_snap (flush_set p req on m) = nm_snap m" "nm_volume_resp (flush_set p req on m) = nm_volume_resp m"
  "nm_lease_resp (flush_set p req on m) = nm_lease_resp m" "nm_bindings (flush_set p req on m) = nm_bindings m"
  by (simp_all add: flush_set_def)

section \<open>What a volume record may do\<close>

definition volume_key :: "decoded_volume_req \<Rightarrow> bytes \<times> bytes" where
  "volume_key req = (dv_root req, dv_path req)"

definition volume_root :: "decoded_volume_req \<Rightarrow> kview" where
  "volume_root req = \<lparr>k_object_id = dv_object_id req, k_kind = KIND_VOLUME, k_revision = dv_expected req + 1,
     k_meta = meta_none\<lparr>m_stamp_ms := dv_now_ms req\<rparr>\<rparr>"

definition live_rev_at :: "kmap \<Rightarrow> bytes \<times> bytes \<Rightarrow> u64" where
  "live_rev_at V k = (if live_at V k then rev_at V k else 0)"

definition touched :: "profile \<Rightarrow> decoded_volume_req \<Rightarrow> lease_table \<Rightarrow> lease_table" where
  "touched p req lt = fst (lease_touch p lt (dv_root req) (dv_path req) (dv_now_ms req))"

definition lease_held :: "profile \<Rightarrow> decoded_volume_req \<Rightarrow> lease_table \<Rightarrow> bool" where
  "lease_held p req lt \<longleftrightarrow>
     lease_holds p (touched p req lt) (dv_root req) (dv_path req) (dv_holder req) (dv_fence req) (dv_now_ms req)"

definition flush_open :: "profile \<Rightarrow> decoded_volume_req \<Rightarrow> lease_table \<Rightarrow> bool" where
  "flush_open p req lt \<longleftrightarrow> is_flushing p (touched p req lt) (dv_root req) (dv_path req) (dv_holder req)"

definition may_commit :: "profile \<Rightarrow> lease_table \<Rightarrow> kmap \<Rightarrow> decoded_volume_req \<Rightarrow> bool" where
  "may_commit p lt V req \<longleftrightarrow> dv_mode req = VOLUME_COMMIT \<and> dv_object_id req \<noteq> [] \<and> dv_expected req \<noteq> 2 ^ 64 - 1 \<and>
     lease_held p req lt \<and> flush_open p req lt \<and> live_rev_at V (volume_key req) = dv_expected req \<and>
     \<not> kept_at V (volume_key req) (dv_now_ms req)"

definition may_delete :: "profile \<Rightarrow> lease_table \<Rightarrow> kmap \<Rightarrow> decoded_volume_req \<Rightarrow> bool" where
  "may_delete p lt V req \<longleftrightarrow> dv_mode req = VOLUME_DELETE \<and> lease_held p req lt \<and>
     volume_at V (volume_key req) \<and> rev_at V (volume_key req) = dv_expected req"

definition volume_effect :: "profile \<Rightarrow> lease_table \<Rightarrow> decoded_volume_req \<Rightarrow> kmap \<Rightarrow> kmap \<Rightarrow> bool" where
  "volume_effect p lt req V V' \<longleftrightarrow> V' = V \<or>
     may_commit p lt V req \<and> V' = V(volume_key req \<mapsto> volume_root req) \<or>
     may_delete p lt V req \<and> V' = V(volume_key req \<mapsto> tomb_view (dv_expected req + 1))"

definition volume_answer :: "decoded_volume_req \<Rightarrow> u8 \<Rightarrow> u64 \<Rightarrow> kmap \<Rightarrow> kmap \<Rightarrow> bool" where
  \<comment> \<open>what the status says of the map afterwards\<close>
  "volume_answer req status rv V V' \<longleftrightarrow>
     (status \<noteq> VOLUME_OK \<longrightarrow> V' = V) \<and>
     (status = VOLUME_OK \<and> dv_mode req = VOLUME_COMMIT \<longrightarrow> rv = dv_expected req + 1 \<and>
        volume_read V' (volume_key req) (dv_object_id req) = Some (rv, True, True)) \<and>
     (status = VOLUME_OK \<and> dv_mode req = VOLUME_DELETE \<longrightarrow> \<not> live_at V' (volume_key req))"

definition volume_judged :: "profile \<Rightarrow> snap_record list \<Rightarrow> decoded_volume_req \<Rightarrow> ns_module \<Rightarrow> lease_table \<Rightarrow>
    ns_module \<times> u8 \<times> u64 \<Rightarrow> bool" where
  "volume_judged p recs req m lt out \<longleftrightarrow>
     (case out of (m', status, rv) \<Rightarrow>
        nm_ok p recs m' \<and> same_below m m' \<and> moves (nm_bindings m) (nm_bindings m') \<and> nm_gc_reserved m' = nm_gc_reserved m \<and>
        nm_lease_resp m' = nm_lease_resp m \<and> nm_volume_resp m' = nm_volume_resp m \<and>
        volume_effect p lt req (module_view p recs m) (module_view p recs m') \<and>
        volume_answer req status rv (module_view p recs m) (module_view p recs m'))"

lemma volume_statuses [simp]:
  "VOLUME_OK \<noteq> VOLUME_BAD_REQ" "VOLUME_OK \<noteq> VOLUME_LEASE_LOST" "VOLUME_OK \<noteq> VOLUME_CONFLICT"
  "VOLUME_OK \<noteq> VOLUME_RESERVED" "VOLUME_OK \<noteq> VOLUME_RETAINED"
  "VOLUME_BAD_REQ \<noteq> VOLUME_OK" "VOLUME_LEASE_LOST \<noteq> VOLUME_OK" "VOLUME_CONFLICT \<noteq> VOLUME_OK"
  "VOLUME_RESERVED \<noteq> VOLUME_OK" "VOLUME_RETAINED \<noteq> VOLUME_OK"
  "VOLUME_COMMIT \<noteq> VOLUME_DELETE" "VOLUME_DELETE \<noteq> VOLUME_COMMIT" "VOLUME_BEGIN \<noteq> VOLUME_COMMIT" "VOLUME_BEGIN \<noteq> VOLUME_DELETE"
  "VOLUME_ABORT \<noteq> VOLUME_COMMIT" "VOLUME_ABORT \<noteq> VOLUME_DELETE"
  by (simp_all add: VOLUME_OK_def VOLUME_BAD_REQ_def VOLUME_LEASE_LOST_def VOLUME_CONFLICT_def VOLUME_RESERVED_def
      VOLUME_RETAINED_def VOLUME_COMMIT_def VOLUME_DELETE_def VOLUME_BEGIN_def VOLUME_ABORT_def)

text \<open>A verdict that touches leases at most leaves the map alone.\<close>

lemma judged_refused:
  assumes "nm_ok p recs m" "module_view p recs m' = module_view p recs m" "nm_ok p recs m'" "same_below m m'"
    "nm_gc_reserved m' = nm_gc_reserved m" "nm_lease_resp m' = nm_lease_resp m" "nm_volume_resp m' = nm_volume_resp m"
    "status = VOLUME_OK \<longrightarrow> dv_mode req \<noteq> VOLUME_COMMIT \<and> dv_mode req \<noteq> VOLUME_DELETE"
    and "moves (nm_bindings m) (nm_bindings m')"
  shows "volume_judged p recs req m lt (m', status, rv)"
  using assms by (auto simp: volume_judged_def volume_effect_def volume_answer_def)

lemma same_below_refl [simp]: "same_below m m"
  by (simp add: same_below_def)

lemma flush_set_below [simp]: "same_below m (flush_set p req on m0) = same_below m m0" "same_below (m\<lparr>nm_leases := lt\<rparr>) m' = same_below m m'"
  "same_below m (m\<lparr>nm_leases := lt\<rparr>)"
  by (simp_all add: same_below_def)

lemma judged_written:
  assumes ok: "nm_ok p recs m" and m1: "m1 = flush_set p req False (m\<lparr>nm_leases := touched p req lt\<rparr>)"
    and put: "obeys p recs False (Put (volume_key req) v) m1 (m2, res)"
    and gate: "may_commit p lt (module_view p recs m) req \<and> v = volume_root req \<and> r1 = dv_expected req + 1 \<or>
      may_delete p lt (module_view p recs m) req \<and> v = tomb_view (dv_expected req + 1)"
  shows "volume_judged p recs req m lt (case res of Inr _ \<Rightarrow> (m2, VOLUME_OK, r1) | Inl _ \<Rightarrow> (m2, VOLUME_BAD_REQ, r2))"
proof -
  let ?V = "module_view p recs m"
  have o: "nm_ok p recs m2" "same_but_arena m1 m2 \<and> moves (nm_bindings m) (nm_bindings m2)"
    "case res of Inr _ \<Rightarrow> module_view p recs m2 = ?V(volume_key req \<mapsto> v) | Inl _ \<Rightarrow> module_view p recs m2 = ?V"
    using put by (auto simp: obeys_def m1 split: sum.splits)
  have fr: "same_below m m2" "nm_gc_reserved m2 = nm_gc_reserved m" "nm_lease_resp m2 = nm_lease_resp m" "nm_volume_resp m2 = nm_volume_resp m"
    using o(2) by (simp_all add: same_but_arena_def same_below_def m1)
  show ?thesis
  proof (cases res)
    case (Inl e)
    then show ?thesis using o fr ok by (auto intro!: judged_refused moves_refl)
  next
    case (Inr x)
    have live: "k_live (volume_root req)" "\<not> k_live (tomb_view r)" for r
      by (simp_all add: volume_root_def k_live_def tomb_view_def KIND_VOLUME_def KIND_TOMBSTONE_def)
    have root: "k_kind (volume_root req) = KIND_VOLUME" "k_object_id (volume_root req) = dv_object_id req" "k_revision (volume_root req) = dv_expected req + 1"
      by (simp_all add: volume_root_def)
    from gate show ?thesis
    proof
      assume g: "may_commit p lt ?V req \<and> v = volume_root req \<and> r1 = dv_expected req + 1"
      then have "dv_mode req = VOLUME_COMMIT" by (simp add: may_commit_def)
      then show ?thesis using Inr o fr g live root
        by (simp add: volume_judged_def volume_effect_def volume_answer_def volume_read_def)
    next
      assume g: "may_delete p lt ?V req \<and> v = tomb_view (dv_expected req + 1)"
      then have "dv_mode req = VOLUME_DELETE" by (simp add: may_delete_def)
      then show ?thesis using Inr o fr g live
        by (simp add: volume_judged_def volume_effect_def volume_answer_def live_at_def)
    qed
  qed
qed

section \<open>The arms\<close>

lemma checked_next: "checked_add (x :: u64) 1 = (if x = 2 ^ 64 - 1 then None else Some (x + 1))"
proof -
  have "unat x + 1 < 2 ^ 64 \<longleftrightarrow> x \<noteq> - 1"
    using unsigned_less [where 'b = 64 and 'a = nat, of x] by (simp add: word_unat_eq_iff unat_minus_one_max) linarith
  then show ?thesis by (simp add: checked_add_def)
qed

lemma live_rev_read: "live_rev_at V k = (case volume_read V k oid of None \<Rightarrow> 0 | Some (rv, _) \<Rightarrow> rv)"
  by (auto simp: live_rev_at_def volume_read_def live_at_def rev_at_def split: option.splits)

lemma judge_commit_judged:
  assumes ok: "nm_ok p recs m" and m0: "m0 = m\<lparr>nm_leases := touched p req lt\<rparr>" and mode: "dv_mode req = VOLUME_COMMIT"
    and cur: "cur = volume_read (module_view p recs m) (volume_key req) (dv_object_id req)"
    and kept: "retained = kept_at (module_view p recs m) (volume_key req) (dv_now_ms req)"
    and rv: "cur_rev = live_rev_at (module_view p recs m) (volume_key req)" and holds: "holds = lease_held p req lt"
  shows "volume_judged p recs req m lt (judge_commit p req cur retained same holds cur_rev m0)"
proof -
  let ?V = "module_view p recs m"
  have ref: "volume_judged p recs req m lt (m', status, r)"
    if "m' = m0 \<or> m' = flush_set p req False m0" "status \<noteq> VOLUME_OK" for m' status r
    using that ok by (auto simp: m0 intro!: judged_refused moves_refl)
  have fo: "is_flushing p (nm_leases m0) (dv_root req) (dv_path req) (dv_holder req) \<longleftrightarrow> flush_open p req lt"
    by (simp add: m0 flush_open_def)
  show ?thesis
  proof (cases "dv_object_id req = [] \<or> dv_expected req = 2 ^ 64 - 1")
    case True
    then show ?thesis using ref [of m0 VOLUME_BAD_REQ cur_rev] by (auto simp: judge_commit_def checked_next)
  next
    case False
    then have nx: "checked_add (dv_expected req) 1 = Some (dv_expected req + 1)" by (simp add: checked_next)
    show ?thesis
    proof (cases "case cur of Some (r, _, True) \<Rightarrow> r = dv_expected req + 1 | _ \<Rightarrow> False")
      case True
      then have rd: "volume_read ?V (volume_key req) (dv_object_id req) = Some (dv_expected req + 1, True, True)"
        unfolding cur by (auto simp: volume_read_def split: option.splits bool.splits if_splits)
      have "judge_commit p req cur retained same holds cur_rev m0 = (m0, VOLUME_OK, dv_expected req + 1)"
        using False True nx by (simp add: judge_commit_def)
      then show ?thesis using rd ok mode
        by (simp add: volume_judged_def volume_effect_def volume_answer_def m0 moves_refl)
    next
      case fresh: False
      show ?thesis
      proof (cases "holds \<and> cur_rev = dv_expected req \<and> flush_open p req lt \<and> \<not> retained")
        case False2: False
        have "\<exists>m' status. (m' = m0 \<or> m' = flush_set p req False m0) \<and> status \<noteq> VOLUME_OK \<and>
            judge_commit p req cur retained same holds cur_rev m0 = (m', status, cur_rev)"
          using False False2 fresh nx fo by (auto simp: judge_commit_def Let_def)
        then show ?thesis using ref by auto
      next
        case True
        then have may: "may_commit p lt ?V req"
          using False mode holds rv kept by (simp add: may_commit_def)
        define m1 where "m1 = flush_set p req False m0"
        let ?w = "\<lambda>st. ns_commit_bind p st (dv_root req) (dv_path req) (dv_object_id req) KIND_VOLUME (dv_expected req + 1)
              (meta_none\<lparr>m_stamp_ms := dv_now_ms req\<rparr>)"
        obtain m2 r where w: "write_evicting p (nm_snap_active m1) ?w m1 = (m2, r)" by (cases "write_evicting p (nm_snap_active m1) ?w m1")
        have ok1: "nm_ok p recs m1" using ok by (simp add: m1_def m0)
        have put: "obeys p recs False (Put (volume_key req) (volume_root req)) m1 (m2, rejecting r ())"
          unfolding volume_key_def volume_root_def by (rule obeys_put [OF ok1 commit_writes w]) simp_all
        have "volume_judged p recs req m lt
            (case rejecting r () of Inr _ \<Rightarrow> (m2, VOLUME_OK, dv_expected req + 1) | Inl _ \<Rightarrow> (m2, VOLUME_BAD_REQ, cur_rev))"
          by (rule judged_written [OF ok _ put]) (use may in \<open>simp_all add: m1_def m0\<close>)
        moreover have "judge_commit p req cur retained same holds cur_rev m0 =
            (case r of Inr _ \<Rightarrow> (m2, VOLUME_OK, dv_expected req + 1) | Inl _ \<Rightarrow> (m2, VOLUME_BAD_REQ, cur_rev))"
          using False fresh True nx fo w by (auto simp: judge_commit_def Let_def m1_def [symmetric] split: sum.splits)
        ultimately show ?thesis by (cases r) (simp_all add: rejecting_def)
      qed
    qed
  qed
qed

lemma judge_delete_judged:
  assumes ok: "nm_ok p recs m" and m0: "m0 = m\<lparr>nm_leases := touched p req lt\<rparr>" and mode: "dv_mode req = VOLUME_DELETE"
    and cur: "cur = volume_read (module_view p recs m) (volume_key req) (dv_object_id req)" and holds: "holds = lease_held p req lt"
  shows "volume_judged p recs req m lt (judge_delete p req cur holds cur_rev m0)"
proof -
  let ?V = "module_view p recs m"
  have ref: "volume_judged p recs req m lt (m', status, r)"
    if "m' = m0 \<or> m' = flush_set p req False m0" "status \<noteq> VOLUME_OK" for m' status r
    using that ok by (auto simp: m0 intro!: judged_refused moves_refl)
  show ?thesis
  proof (cases "holds \<and> (case cur of Some (r, True, _) \<Rightarrow> r = dv_expected req | _ \<Rightarrow> False)")
    case False
    have "\<exists>m' status. (m' = m0 \<or> m' = flush_set p req False m0) \<and> status \<noteq> VOLUME_OK \<and>
        judge_delete p req cur holds cur_rev m0 = (m', status, cur_rev)"
      using False by (auto simp: judge_delete_def Let_def split: option.splits bool.splits)
    then show ?thesis using ref by auto
  next
    case True
    then obtain z where z: "cur = Some (dv_expected req, True, z)" by (auto split: option.splits bool.splits)
    have vol: "volume_at ?V (volume_key req) \<and> rev_at ?V (volume_key req) = dv_expected req"
      using z unfolding cur by (auto simp: volume_read_def volume_at_def rev_at_def split: option.splits if_splits)
    then have may: "may_delete p lt ?V req" using mode True holds by (simp add: may_delete_def)
    define m1 where "m1 = flush_set p req False m0"
    have ok1: "nm_ok p recs m1" using ok by (simp add: m1_def m0)
    obtain m2 r where w: "remove_binding p (dv_root req) (dv_path req) (dv_expected req + 1) m1 = (m2, r)"
      by (cases "remove_binding p (dv_root req) (dv_path req) (dv_expected req + 1) m1")
    have put: "obeys p recs False (Put (volume_key req) (tomb_view (dv_expected req + 1))) m1 (m2, r)"
      using remove_binding_obeys [OF ok1, of False "dv_root req" "dv_path req" "dv_expected req + 1"] w by (simp add: volume_key_def)
    have "volume_judged p recs req m lt (case r of Inr _ \<Rightarrow> (m2, VOLUME_OK, dv_expected req) | Inl _ \<Rightarrow> (m2, VOLUME_BAD_REQ, cur_rev))"
      by (rule judged_written [OF ok _ put]) (use may in \<open>simp_all add: m1_def m0\<close>)
    moreover have "judge_delete p req cur holds cur_rev m0 =
        (case r of Inr _ \<Rightarrow> (m2, VOLUME_OK, dv_expected req) | Inl _ \<Rightarrow> (m2, VOLUME_BAD_REQ, cur_rev))"
      using True z w by (auto simp: judge_delete_def Let_def m1_def [symmetric] split: sum.splits)
    ultimately show ?thesis by simp
  qed
qed

lemma judge_volume_at_judged:
  assumes ok: "nm_ok p recs m"
    and cur: "cur = volume_read (module_view p recs m) (volume_key req) (dv_object_id req)"
    and kept: "retained = kept_at (module_view p recs m) (volume_key req) (dv_now_ms req)"
  shows "volume_judged p recs req m (nm_leases m) (judge_volume_at p req cur retained m)"
proof -
  let ?lt = "nm_leases m"
  define cur_rev where "cur_rev = (case cur of None \<Rightarrow> 0 | Some (rv, _) \<Rightarrow> rv)"
  define m0 where "m0 = m\<lparr>nm_leases := touched p req ?lt\<rparr>"
  have rv: "cur_rev = live_rev_at (module_view p recs m) (volume_key req)"
    unfolding cur_rev_def cur by (simp add: live_rev_read [of _ _ "dv_object_id req"])
  have ref: "volume_judged p recs req m ?lt (m', status, r)"
    if "m' = m \<or> m' = m0 \<or> (\<exists>on. m' = flush_set p req on m0)"
      "status = VOLUME_OK \<longrightarrow> dv_mode req \<noteq> VOLUME_COMMIT \<and> dv_mode req \<noteq> VOLUME_DELETE" for m' status r
    using that ok by (auto simp: m0_def intro!: judged_refused moves_refl)
  show ?thesis
  proof (cases "dv_now_ms req = 0 \<or> dv_path req = []")
    case True
    then show ?thesis using ref [of m VOLUME_BAD_REQ] by (simp add: judge_volume_at_def)
  next
    case False
    obtain lt out where t: "lease_touch p ?lt (dv_root req) (dv_path req) (dv_now_ms req) = (lt, out)"
      by (cases "lease_touch p ?lt (dv_root req) (dv_path req) (dv_now_ms req)")
    then have lt: "lt = touched p req ?lt" by (simp add: touched_def)
    show ?thesis
    proof (cases "out = Some True")
      case bad: False
      then have "judge_volume_at p req cur retained m = (m0, VOLUME_LEASE_LOST, cur_rev)"
        using False t lt unfolding judge_volume_at_def Let_def t prod.case cur_rev_def [symmetric] m0_def
        by (cases out) (auto split: bool.split)
      then show ?thesis using ref [of m0 VOLUME_LEASE_LOST] by simp
    next
      case True
      define same where "same = (case lease p lt (dv_root req) (dv_path req) of
          Some e \<Rightarrow> le_holder e = dv_holder req \<and> le_fence e = dv_fence req | None \<Rightarrow> False)"
      define holds where "holds = lease_holds p lt (dv_root req) (dv_path req) (dv_holder req) (dv_fence req) (dv_now_ms req)"
      have held: "holds = lease_held p req ?lt" by (simp add: holds_def lease_held_def lt)
      have eq: "judge_volume_at p req cur retained m =
         (if dv_mode req = VOLUME_BEGIN then
            if \<not> holds then (m0, VOLUME_LEASE_LOST, cur_rev)
            else if list_ex (\<lambda>r. r \<noteq> 0) (nm_gc_reserved m0) then (m0, VOLUME_RESERVED, cur_rev)
            else (flush_set p req True m0, VOLUME_OK, cur_rev)
          else if dv_mode req = VOLUME_ABORT then
            if \<not> same then (m0, VOLUME_LEASE_LOST, cur_rev) else (flush_set p req False m0, VOLUME_OK, cur_rev)
          else if dv_mode req = VOLUME_COMMIT then judge_commit p req cur retained same holds cur_rev m0
          else if dv_mode req = VOLUME_DELETE then judge_delete p req cur holds cur_rev m0
          else (m0, VOLUME_BAD_REQ, cur_rev))"
        unfolding judge_volume_at_def Let_def t prod.case True option.case if_True cur_rev_def [symmetric] same_def holds_def m0_def lt [symmetric]
        using False by simp
      consider "dv_mode req = VOLUME_COMMIT" | "dv_mode req = VOLUME_DELETE" | "dv_mode req \<noteq> VOLUME_COMMIT" "dv_mode req \<noteq> VOLUME_DELETE" by blast
      then show ?thesis
      proof cases
        case 1
        then have "judge_volume_at p req cur retained m = judge_commit p req cur retained same holds cur_rev m0"
          unfolding eq by (simp add: VOLUME_COMMIT_def VOLUME_BEGIN_def VOLUME_ABORT_def)
        then show ?thesis using judge_commit_judged [OF ok m0_def 1 cur kept rv held] by simp
      next
        case 2
        then have "judge_volume_at p req cur retained m = judge_delete p req cur holds cur_rev m0"
          unfolding eq by (simp add: VOLUME_COMMIT_def VOLUME_DELETE_def VOLUME_BEGIN_def VOLUME_ABORT_def)
        then show ?thesis using judge_delete_judged [OF ok m0_def 2 cur held] by simp
      next
        case 3
        then have "\<exists>m' status. (m' = m \<or> m' = m0 \<or> (\<exists>on. m' = flush_set p req on m0)) \<and>
            judge_volume_at p req cur retained m = (m', status, cur_rev)"
          unfolding eq by auto
        then obtain m' status where w: "m' = m \<or> m' = m0 \<or> (\<exists>on. m' = flush_set p req on m0)"
          "judge_volume_at p req cur retained m = (m', status, cur_rev)" by blast
        then show ?thesis using ref [OF w(1)] 3 by simp
      qed
    qed
  qed
qed

section \<open>The record\<close>

lemma judge_volume_judged:
  assumes sv: "serving p call v g recs m s" and run: "judge_volume p call req m s = (m', s', res)"
  shows "serving p call v g recs m' s' \<and>
    (case res of
       Inl e \<Rightarrow> m' = m \<and> e \<in> {AfPending, AfRejected} \<and> \<not> prompt call m
     | Inr (status, rv) \<Rightarrow> volume_judged p recs req m (nm_leases m) (m', status, rv))"
proof -
  let ?V = "module_view p recs m"
  obtain s1 got where b: "volume_binding p call m (dv_root req) (dv_path req) (dv_object_id req) s = (s1, got)"
    by (cases "volume_binding p call m (dv_root req) (dv_path req) (dv_object_id req) s")
  note vb = volume_binding_view [OF sv b]
  then have sv1: "serving p call v g recs m s1" by simp
  show ?thesis
  proof (cases got)
    case (SrReady cur)
    then have cur: "cur = volume_read ?V (volume_key req) (dv_object_id req)" using vb by (simp add: volume_key_def)
    obtain s2 x where k: "key_retained p call m (dv_root req) (dv_path req) (dv_now_ms req) s1 = (s2, x)"
      by (cases "key_retained p call m (dv_root req) (dv_path req) (dv_now_ms req) s1")
    note kr = key_retained_view [OF sv1 k]
    then have sv2: "serving p call v g recs m s2" by simp
    show ?thesis
    proof (cases x)
      case (Inl e)
      then show ?thesis using run b SrReady k kr by (auto simp: judge_volume_def asked_def)
    next
      case (Inr y)
      then obtain live where y: "x = Inr (kept_at ?V (volume_key req) (dv_now_ms req), live)"
        using kr by (auto simp: asked_def volume_key_def)
      note j = judge_volume_at_judged [OF serving_ok [OF sv] cur refl]
      obtain m1 status rv where jv: "judge_volume_at p req cur (kept_at ?V (volume_key req) (dv_now_ms req)) m = (m1, status, rv)"
        by (cases "judge_volume_at p req cur (kept_at ?V (volume_key req) (dv_now_ms req)) m")
      have e: "m' = m1" "s' = s2" "res = Inr (status, rv)" using run b SrReady k y jv by (simp_all add: judge_volume_def)
      have "nm_ok p recs m1 \<and> same_below m m1" using j jv by (simp add: volume_judged_def)
      then have "serving p call v g recs m1 s2" using serving_after [OF sv2] by blast
      then show ?thesis using e j jv by simp
    qed
  qed (use run b vb in \<open>auto simp: judge_volume_def\<close>)
qed

lemma volume_resp_back:
  assumes "encode_volume_resp dst status rv = Inr (n, resp)"
  shows "decode_volume_resp resp = Inr (status, rv)"
  using assms by (auto simp: encode_volume_resp_def decode_volume_resp_def put_record_def VOLUME_RESP_LEN_def OP_VOLUME_def
      copy_prefix_def nth_append le_simps hdr_defs split: if_splits)

lemma apply_volume_judged:
  assumes sv: "serving p call v g recs m s" and run: "apply_volume p call req m s = (m', s', res)"
  shows "serving p call v g recs m' s' \<and> moves (nm_bindings m) (nm_bindings m') \<and> nm_gc_reserved m' = nm_gc_reserved m \<and>
    volume_effect p (nm_leases m) req (module_view p recs m) (module_view p recs m') \<and>
    (res = Inr () \<longrightarrow> (\<exists>status rv. decode_volume_resp (nm_volume_resp m') = Inr (status, rv) \<and>
        volume_answer req status rv (module_view p recs m) (module_view p recs m')))"
proof -
  obtain m1 s1 r where j: "judge_volume p call req m s = (m1, s1, r)" by (cases "judge_volume p call req m s")
  note jv = judge_volume_judged [OF sv j]
  show ?thesis
  proof (cases r)
    case (Inl e)
    then show ?thesis using run j jv by (auto simp: apply_volume_def volume_effect_def moves_refl)
  next
    case (Inr z)
    obtain status rv where z: "z = (status, rv)" by (cases z)
    have vj: "volume_judged p recs req m (nm_leases m) (m1, status, rv)" and sv1: "serving p call v g recs m1 s1" using jv Inr z by simp_all
    show ?thesis
    proof (cases "encode_volume_resp (nm_volume_resp m1) status rv")
      case e: (Inl e)
      then show ?thesis using run j Inr z vj sv1 by (auto simp: apply_volume_def volume_judged_def)
    next
      case e: (Inr out)
      obtain n resp where out: "out = (n, resp)" by (cases out)
      have m': "m' = m1\<lparr>nm_volume_resp := resp\<rparr>" "s' = s1" "res = Inr ()" using run j Inr z e out by (auto simp: apply_volume_def)
      have "same_below m1 m'" by (simp add: m' same_below_def)
      moreover have "nm_ok p recs m'" using serving_ok [OF sv1] by (simp add: m')
      ultimately have sv': "serving p call v g recs m' s'" using serving_after [OF sv1] m' by blast
      have "decode_volume_resp (nm_volume_resp m') = Inr (status, rv)" using volume_resp_back [OF e [unfolded out]] by (simp add: m')
      then show ?thesis using vj sv' by (auto simp: volume_judged_def m')
    qed
  qed
qed

end
