(* ===== verification/Namespace_Record.thy ===== *)
theory Namespace_Record
  imports Namespace_Volume
begin

text \<open>
  One payload of the log through \<open>apply_op\<close>, whatever its opcode: the verdict a binding record
  obeys, what a volume record may do, and what every record keeps.
\<close>

section \<open>The verdict of a payload\<close>

definition judged :: "ns_wire_error + 'a \<Rightarrow> ('a \<Rightarrow> verdict) \<Rightarrow> verdict" where
  "judged d f = (case d of Inl _ \<Rightarrow> Refuse AfRejected | Inr x \<Rightarrow> f x)"

definition op_verdict :: "profile \<Rightarrow> u64 list \<Rightarrow> kmap \<Rightarrow> bytes \<Rightarrow> verdict" where
  "op_verdict p reserved V payload =
     (case ns_peek_opcode payload of
        None \<Rightarrow> Refuse AfRejected
      | Some op \<Rightarrow>
          if op = OP_BINDING_RESTORE then judged (decode_binding_restore p payload) (restore_verdict V)
          else if op = OP_RETAIN then judged (decode_retain p payload) (retain_verdict V)
          else if op = OP_BIND then judged (decode_bind p payload) (bind_verdict reserved V)
          else if op = OP_RENAME then judged (decode_rename payload) (rename_verdict V)
          else if op = OP_UNBIND then judged (decode_unbind payload) (unbind_verdict V)
          else Refuse AfRejected)"

definition side_op :: "bytes \<Rightarrow> bool" where
  \<comment> \<open>records of the leases, the reservations and the volumes\<close>
  "side_op payload \<longleftrightarrow>
     (case ns_peek_opcode payload of
        None \<Rightarrow> False
      | Some op \<Rightarrow> op \<in> {OP_GC_RESERVE, OP_GC_RELEASE, OP_LEASE, OP_LEASE_RESTORE, OP_VOLUME})"

lemma does_decoded:
  assumes "serving p call v g recs m s" "\<And>x. d = Inr x \<Longrightarrow> does p call v g recs False (f x) m (k x)"
  shows "does p call v g recs False (judged d f) m (with_decoded d k m s)"
  using assms by (cases d) (simp_all add: judged_def with_decoded_def does_refuse)

lemma does_weaken: "does p call v g recs sure vd m out \<Longrightarrow> does p call v g recs False vd m out"
  by (auto simp: does_def obeys_def split: sum.splits)

lemma apply_op_does:
  assumes sv: "serving p call v g recs m s" and op: "\<not> side_op payload"
  shows "does p call v g recs False (op_verdict p (nm_gc_reserved m) (module_view p recs m) payload) m (apply_op p call payload m s)"
proof (cases "ns_peek_opcode payload")
  case None
  then show ?thesis using does_refuse [OF sv] by (simp add: apply_op_def op_verdict_def)
next
  case (Some b)
  have other: "b \<notin> {OP_GC_RESERVE, OP_GC_RELEASE, OP_LEASE, OP_LEASE_RESTORE, OP_VOLUME}" using op Some by (simp add: side_op_def)
  note simps = apply_op_def op_verdict_def Some
  consider "b = OP_BINDING_RESTORE" | "b = OP_RETAIN" | "b = OP_BIND" | "b = OP_RENAME" | "b = OP_UNBIND"
    | "b \<notin> {OP_BINDING_RESTORE, OP_RETAIN, OP_BIND, OP_RENAME, OP_UNBIND}" by blast
  then show ?thesis
  proof cases
    case 1
    then show ?thesis using other does_decoded [OF sv restore_binding_does [OF sv]] by (simp add: simps)
  next
    case 2
    then show ?thesis using other does_decoded [OF sv apply_retain_does [OF sv]] by (simp add: simps ns_opcodes)
  next
    case 3
    then show ?thesis using other does_decoded [OF sv does_weaken [OF apply_bind_does [OF sv]]] by (simp add: simps ns_opcodes)
  next
    case 4
    then show ?thesis using other does_decoded [OF sv apply_rename_does [OF sv]] by (simp add: simps ns_opcodes)
  next
    case 5
    then show ?thesis using other does_decoded [OF sv does_weaken [OF apply_unbind_does [OF sv]]] by (simp add: simps ns_opcodes)
  next
    case 6
    have vd: "op_verdict p (nm_gc_reserved m) (module_view p recs m) payload = Refuse AfRejected"
      using 6 by (simp add: op_verdict_def Some)
    show ?thesis
    proof (cases "if nm_snap_active m \<and> ns_len (nm_bindings m) = length (ns_slots (nm_bindings m)) then evict_counted p None m else None")
      case None
      then have "apply_op p call payload m s = (m, s, Inl AfRejected)" using 6 other by (simp add: apply_op_def Some)
      then show ?thesis using does_refuse [OF sv] vd by simp
    next
      case ev: (Some m1)
      then have e: "evict_counted p None m = Some m1" by (auto split: if_splits)
      note e1 = evict_counted_view [OF serving_ok [OF sv] e]
      have "apply_op p call payload m s = (m1, s, Inl AfRejected)" using 6 other ev by (simp add: apply_op_def Some)
      then show ?thesis using vd e1 serving_after [OF sv e1(1) same_below_arena [OF e1(3)]] by (simp add: does_def obeys_def)
    qed
  qed
qed

section \<open>Leases and reservations\<close>

definition same_bindings :: "ns_module \<Rightarrow> ns_module \<Rightarrow> bool" where
  "same_bindings m m' \<longleftrightarrow> nm_bindings m' = nm_bindings m \<and> same_below m m'"

lemma same_bindings_view:
  assumes "same_bindings m m'"
  shows "nm_ok p recs m' = nm_ok p recs m" "module_view p recs m' = module_view p recs m"
proof -
  have "below_view p recs m' = below_view p recs m" using assms by (simp add: below_view_def fun_eq_iff same_bindings_def same_below_def)
  then show "nm_ok p recs m' = nm_ok p recs m" "module_view p recs m' = module_view p recs m"
    using assms by (simp_all add: nm_ok_def module_view_def same_bindings_def)
qed

lemma side_frame:
  assumes b: "ns_peek_opcode payload = Some b" "b \<in> {OP_GC_RESERVE, OP_GC_RELEASE, OP_LEASE, OP_LEASE_RESTORE, OP_VOLUME}"
    and "b \<noteq> OP_VOLUME" and run: "apply_op p call payload m s = (m', s', res)"
  shows "same_bindings m m' \<and> s' = s"
proof -
  note d = same_bindings_def same_below_def
  have gc: "same_bindings m (apply_gc op oid now m)" for op oid now by (simp add: apply_gc_def d Let_def)
  have lease: "apply_lease p r m = (m1, x) \<Longrightarrow> same_bindings m m1" for r m1 x
    by (auto simp: apply_lease_def d Let_def split: prod.splits sum.splits)
  have restore: "apply_lease_restore p r on m = (m1, x) \<Longrightarrow> same_bindings m m1" for r on m1 x
    by (auto simp: apply_lease_restore_def d split: prod.splits bool.splits)
  have refl: "same_bindings m m" by (simp add: d)
  consider "b = OP_GC_RESERVE \<or> b = OP_GC_RELEASE" | "b = OP_LEASE" | "b = OP_LEASE_RESTORE" using assms by blast
  then show ?thesis
  proof cases
    case 1
    then show ?thesis using run b gc refl by (auto simp: apply_op_def with_decoded_def split: sum.splits prod.splits)
  next
    case 2
    then show ?thesis using run b lease refl
      by (auto simp: apply_op_def with_decoded_def ns_opcodes split: sum.splits prod.splits)
  next
    case 3
    then show ?thesis using run b restore refl
      by (auto simp: apply_op_def with_decoded_def ns_opcodes split: sum.splits prod.splits)
  qed
qed

lemma apply_op_side:
  assumes sv: "serving p call v g recs m s" and op: "side_op payload" and run: "apply_op p call payload m s = (m', s', res)"
  shows "serving p call v g recs m' s' \<and>
    (case (if ns_peek_opcode payload = Some OP_VOLUME then decode_volume_req p payload else Inl WeTruncated) of
       Inr req \<Rightarrow> nm_gc_reserved m' = nm_gc_reserved m \<and> apply_volume p call req m s = (m', s', res) \<and>
         volume_effect p (nm_leases m) req (module_view p recs m) (module_view p recs m')
     | Inl _ \<Rightarrow> module_view p recs m' = module_view p recs m)"
proof -
  obtain b where b: "ns_peek_opcode payload = Some b" "b \<in> {OP_GC_RESERVE, OP_GC_RELEASE, OP_LEASE, OP_LEASE_RESTORE, OP_VOLUME}"
    using op by (auto simp: side_op_def split: option.splits)
  consider "b = OP_VOLUME" | "b \<noteq> OP_VOLUME" by blast
  then show ?thesis
  proof cases
    case 1
    show ?thesis
    proof (cases "decode_volume_req p payload")
      case (Inl e)
      then show ?thesis using run b 1 sv by (auto simp: apply_op_def with_decoded_def ns_opcodes)
    next
      case (Inr req)
      then have r: "apply_volume p call req m s = (m', s', res)" using run b 1 by (simp add: apply_op_def with_decoded_def ns_opcodes)
      show ?thesis using apply_volume_judged [OF sv r] r Inr b 1 by simp
    qed
  next
    case 2
    have f: "same_bindings m m'" "s' = s" using side_frame [OF b 2 run] by simp_all
    have "serving p call v g recs m' s'"
      using serving_after [OF sv, of m'] f serving_ok [OF sv] by (simp add: same_bindings_view(1) same_bindings_def)
    then have "serving p call v g recs m' s' \<and> module_view p recs m' = module_view p recs m" using same_bindings_view(2) [OF f(1)] by simp
    then show ?thesis using b 2 by simp
  qed
qed

text \<open>Over any log: the invariant survives every record, decided or not.\<close>

lemma apply_op_serving:
  assumes sv: "serving p call v g recs m s" and run: "apply_op p call payload m s = (m', s', res)"
  shows "serving p call v g recs m' s'"
proof (cases "side_op payload")
  case True
  then show ?thesis using apply_op_side [OF sv True run] by simp
next
  case False
  then show ?thesis using apply_op_does [OF sv False] run by (simp add: does_def)
qed

lemma apply_op_moves:
  assumes sv: "serving p call v g recs m s" and run: "apply_op p call payload m s = (m', s', res)"
  shows "moves (nm_bindings m) (nm_bindings m')"
proof (cases "side_op payload")
  case False
  then show ?thesis using apply_op_does [OF sv False] run by (simp add: does_def obeys_def)
next
  case True
  obtain b where b: "ns_peek_opcode payload = Some b" "b \<in> {OP_GC_RESERVE, OP_GC_RELEASE, OP_LEASE, OP_LEASE_RESTORE, OP_VOLUME}"
    using True by (auto simp: side_op_def split: option.splits)
  show ?thesis
  proof (cases "b = OP_VOLUME")
    case False
    then have "nm_bindings m' = nm_bindings m" using side_frame [OF b False run] by (simp add: same_bindings_def)
    then show ?thesis by (simp add: moves_refl)
  next
    case vol: True
    show ?thesis
    proof (cases "decode_volume_req p payload")
      case (Inl e)
      then show ?thesis using run b vol by (auto simp: apply_op_def with_decoded_def ns_opcodes moves_refl)
    next
      case (Inr req)
      then have "apply_volume p call req m s = (m', s', res)" using run b vol by (simp add: apply_op_def with_decoded_def ns_opcodes)
      then show ?thesis using apply_volume_judged [OF sv] by blast
    qed
  qed
qed

fun apply_log :: "profile \<Rightarrow> 's provider \<Rightarrow> bytes list \<Rightarrow> ns_module \<times> 's \<Rightarrow> ns_module \<times> 's" where
  \<comment> \<open>the records one after another, whatever each answers\<close>
  "apply_log p call [] w = w"
| "apply_log p call (x # xs) w = (case apply_op p call x (fst w) (snd w) of (m, s, _) \<Rightarrow> apply_log p call xs (m, s))"

lemma apply_log_inv:
  assumes "I m" "serving p call v g recs m s"
    and step: "\<And>x m s m' s' res. x \<in> set xs \<Longrightarrow> serving p call v g recs m s \<Longrightarrow> I m \<Longrightarrow>
      apply_op p call x m s = (m', s', res) \<Longrightarrow> I m'"
  shows "I (fst (apply_log p call xs (m, s))) \<and> serving p call v g recs (fst (apply_log p call xs (m, s))) (snd (apply_log p call xs (m, s)))"
  using assms
proof (induction xs arbitrary: m s)
  case (Cons x xs)
  obtain m1 s1 res where r: "apply_op p call x m s = (m1, s1, res)" by (cases "apply_op p call x m s")
  have "I m1" using Cons.prems(3) [OF _ Cons.prems(2,1) r] by simp
  moreover have "serving p call v g recs m1 s1" by (rule apply_op_serving [OF Cons.prems(2) r])
  moreover have "\<And>y m s m' s' res. y \<in> set xs \<Longrightarrow> serving p call v g recs m s \<Longrightarrow> I m \<Longrightarrow>
      apply_op p call y m s = (m', s', res) \<Longrightarrow> I m'" by (rule Cons.prems(3)) auto
  ultimately have "I (fst (apply_log p call xs (m1, s1))) \<and>
      serving p call v g recs (fst (apply_log p call xs (m1, s1))) (snd (apply_log p call xs (m1, s1)))"
    by (rule Cons.IH)
  then show ?case by (simp add: r)
qed simp

end
