(* ===== verification/Namespace_Idle.thy ===== *)
theory Namespace_Idle
  imports Namespace_Record
begin

text \<open>
  No flush opens while an id is reserved: what each record does to the open flushes and to the
  reservations, and to which object ids live bindings name.
\<close>

section \<open>Lease operations open no flush\<close>

definition flushing :: "lease_entry \<Rightarrow> bool" where
  "flushing e \<longleftrightarrow> le_used e \<noteq> 0 \<and> le_flushing e \<noteq> 0"

lemma any_flushing_set: "any_flushing t \<longleftrightarrow> (\<exists>e\<in>set (lt_entries t). flushing e)"
  by (simp add: any_flushing_def flushing_def list_ex_iff)

definition idle :: "lease_table \<Rightarrow> bool" where
  "idle t \<longleftrightarrow> \<not> any_flushing t"

lemma idle_set: "idle t \<longleftrightarrow> (\<forall>e\<in>set (lt_entries t). \<not> flushing e)"
  by (simp add: idle_def any_flushing_set)

lemma idle_set_entry: "idle t \<Longrightarrow> \<not> flushing e \<Longrightarrow> idle (set_entry t i e)"
  using set_update_subset_insert [of "lt_entries t" i e] by (auto simp: idle_set set_entry_def)

lemma idle_raise [simp]: "idle (raise_floors f st t) = idle t"
  by (simp add: idle_set raise_floors_def)

lemma idle_at: "idle t \<Longrightarrow> i < length (lt_entries t) \<Longrightarrow> \<not> flushing (lt_entries t ! i)"
  by (simp add: idle_set)

lemma idle_new [simp]: "\<not> flushing (new_entry p r q h f x st live)" "\<not> flushing (empty_entry p)"
  by (simp_all add: flushing_def new_entry_def empty_entry_def)

lemma idle_claim: "idle t \<Longrightarrow> claim_slot p t now = (t1, out) \<Longrightarrow> idle t1"
  by (auto simp: claim_slot_def idle_set_entry Let_def split: option.splits)

lemma idle_judge: "\<not> flushing e \<Longrightarrow> \<not> flushing (fst (judge_entry op h now x e))"
  by (auto simp: judge_entry_def flushing_def Let_def split: lease_op.splits option.splits)

lemma find_bound: "lease_find p t r q = Some i \<Longrightarrow> i < length (lt_entries t)"
  by (auto simp: lease_find_def dest: first_index_SomeD)

lemma flushing_stamp [simp]: "flushing (e\<lparr>le_stamp := x\<rparr>) = flushing e"
  by (simp add: flushing_def)

lemma idle_lease_apply:
  assumes idle: "idle t" and run: "lease_apply p t mode r q h now ttl = (t', out)"
  shows "idle t'"
proof (cases "t' = t")
  case False
  then obtain op where op: "lease_op_from_u8 mode = Some op" using run by (auto simp: lease_apply_def split: option.splits)
  define x where "x = sat_add now (ucast ttl :: u64)"
  show ?thesis
  proof (cases "lease_find p t r q")
    case None
    then have "apply_absent p t op r q h now x = (t', out)"
      using run False op by (auto simp: lease_apply_def Let_def x_def split: if_splits)
    then show ?thesis using idle_claim [OF idle] idle
      by (auto simp: apply_absent_def intro!: idle_set_entry split: if_splits prod.splits option.splits)
  next
    case (Some i)
    have "t' = set_entry t i (fst (judge_entry op h now x ((lt_entries t ! i)\<lparr>le_stamp := now\<rparr>)))"
      using run False op Some by (auto simp: lease_apply_def Let_def x_def split: if_splits prod.splits)
    then show ?thesis using idle_set_entry [OF idle idle_judge] idle_at [OF idle find_bound [OF Some]] by simp
  qed
qed (use idle in simp)

lemma idle_touch: "idle t \<Longrightarrow> idle (fst (lease_touch p t r q now))"
  using idle_at [of t] find_bound [of p t r q]
  by (auto simp: lease_touch_def Let_def intro!: idle_set_entry split: option.splits)

lemma idle_clear: "idle t \<Longrightarrow> idle (fst (set_flushing p t r q h False))"
  by (auto simp: set_flushing_def Let_def flushing_def intro!: idle_set_entry split: option.splits)

lemma idle_end: "idle t \<Longrightarrow> idle (fst (end_expired_flushes t now))"
  by (auto simp: idle_set end_expired_flushes_def flushing_def)

lemma idle_not_flushing: "idle t \<Longrightarrow> \<not> is_flushing p t r q h"
  using find_Some_iff [of "lease_names p r q" "lt_entries t"]
  by (auto simp: is_flushing_def idle_set flushing_def lease_def lease_names_def find_Some_iff split: option.splits)

section \<open>Leases of a module\<close>

lemma write_evicting_leases: "write_evicting p ev w m = (m', r) \<Longrightarrow> nm_leases m' = nm_leases m"
  by (auto simp: write_evicting_def evict_counted_def split: prod.splits sum.splits ns_error.splits option.splits if_splits bool.splits)

lemma remove_binding_leases: "remove_binding p r q revision m = (m', res) \<Longrightarrow> nm_leases m' = nm_leases m"
  by (auto simp: remove_binding_def dest: write_evicting_leases split: prod.splits)

definition stays_idle :: "ns_module \<Rightarrow> ns_module \<Rightarrow> bool" where
  "stays_idle m m' \<longleftrightarrow> (idle (nm_leases m) \<longrightarrow> idle (nm_leases m'))"

lemma stays_idle_refl [simp]: "stays_idle m m"
  by (simp add: stays_idle_def)

lemma stays_idle_clear: "stays_idle m m0 \<Longrightarrow> stays_idle m (flush_set p req False m0)"
  by (simp add: stays_idle_def flush_set_def idle_clear)

lemma stays_idle_same: "stays_idle m m0 \<Longrightarrow> nm_leases m' = nm_leases m0 \<Longrightarrow> stays_idle m m'"
  by (simp add: stays_idle_def)

lemma judge_commit_idle:
  assumes "stays_idle m m0" "judge_commit p req cur kept same holds rv m0 = (m', st, r)"
  shows "stays_idle m m'"
proof -
  have w: "write_evicting p ev put (flush_set p req False m0) = (m1, x) \<Longrightarrow> stays_idle m m1" for ev put m1 x
    using stays_idle_same [OF stays_idle_clear [OF assms(1)] write_evicting_leases] by blast
  show ?thesis using assms stays_idle_clear [OF assms(1)]
    by (auto simp: judge_commit_def Let_def dest: w split: if_splits option.splits prod.splits sum.splits)
qed

lemma judge_delete_idle:
  assumes "stays_idle m m0" "judge_delete p req cur holds rv m0 = (m', st, r)"
  shows "stays_idle m m'"
proof -
  have w: "remove_binding p r q x (flush_set p req False m0) = (m1, z) \<Longrightarrow> stays_idle m m1" for r q x m1 z
    using stays_idle_same [OF stays_idle_clear [OF assms(1)] remove_binding_leases] by blast
  show ?thesis using assms stays_idle_clear [OF assms(1)]
    by (auto simp: judge_delete_def Let_def dest: w split: if_splits option.splits prod.splits sum.splits bool.splits)
qed

lemma judge_volume_at_idle:
  assumes res: "\<exists>h\<in>set (nm_gc_reserved m). h \<noteq> 0" and run: "judge_volume_at p req cur kept m = (m', st, rv)"
  shows "stays_idle m m'"
proof -
  obtain lt out where t: "lease_touch p (nm_leases m) (dv_root req) (dv_path req) (dv_now_ms req) = (lt, out)"
    by (cases "lease_touch p (nm_leases m) (dv_root req) (dv_path req) (dv_now_ms req)")
  define m0 where "m0 = m\<lparr>nm_leases := lt\<rparr>"
  have i0: "stays_idle m m0" using idle_touch [of "nm_leases m"] t by (metis fst_conv m0_def ns_module.select_convs(2) ns_module.surjective ns_module.update_convs(2) stays_idle_def)
  have held: "list_ex (\<lambda>r. r \<noteq> 0) (nm_gc_reserved m0)" using res by (simp add: m0_def list_ex_iff)
  have "m' = m \<or> m' = m0 \<or> m' = flush_set p req False m0 \<or>
      (\<exists>k sa ho r. judge_commit p req cur kept sa ho r m0 = (m', st, rv)) \<or> (\<exists>ho r. judge_delete p req cur ho r m0 = (m', st, rv))"
    using run held unfolding judge_volume_at_def Let_def t prod.case m0_def [symmetric]
    by (auto split: if_splits option.splits bool.splits)
  then show ?thesis using i0 judge_commit_idle [OF i0] judge_delete_idle [OF i0] stays_idle_clear [OF i0] by auto
qed

end
