(* ===== verification/Namespace_Steps.thy ===== *)
theory Namespace_Steps
  imports Namespace_Idle
begin

text \<open>
  What one verdict may change: volumes only by volume records, retained bindings not at all,
  revisions upward, and no new object id behind a reservation.
\<close>

lemma volume_kinds [simp]: "KIND_TOMBSTONE \<noteq> KIND_VOLUME" "KIND_VOLUME \<noteq> KIND_TOMBSTONE"
  by (simp_all add: KIND_VOLUME_def KIND_TOMBSTONE_def)

lemma tomb_sel [simp]:
  "k_kind (tomb_view r) = KIND_TOMBSTONE" "k_revision (tomb_view r) = r" "k_object_id (tomb_view r) = []" "\<not> k_live (tomb_view r)"
  by (simp_all add: tomb_view_def k_live_def)

lemma bind_view_sel [simp]:
  "k_kind (bind_view b) = db_kind b" "k_revision (bind_view b) = db_revision b" "k_object_id (bind_view b) = db_object_id b"
  by (simp_all add: bind_view_def)

text \<open>The four verdicts that write, by their records.\<close>

lemma bind_outcome:
  assumes "outcome (bind_verdict reserved V b) V V'"
  shows "V' = V \<or> (V' = V((db_root b, db_path b) \<mapsto> bind_view b) \<and> fnv1a64 (db_object_id b) \<notin> set reserved \<and>
      db_kind b \<noteq> KIND_VOLUME \<and> \<not> volume_at V (db_root b, db_path b) \<and> rev_at V (db_root b, db_path b) < db_revision b \<and>
      \<not> kept_at V (db_root b, db_path b) (bm_stamp_ms (db_meta b)))"
  using assms by (auto simp: bind_verdict_def bind_at_verdict_def Let_def split: if_splits)

lemma unbind_outcome:
  assumes "outcome (unbind_verdict V u) V V'"
  shows "V' = V \<or> (V' = V((du_root u, du_path u) \<mapsto> tomb_view (du_revision u)) \<and> live_at V (du_root u, du_path u) \<and>
      \<not> volume_at V (du_root u, du_path u) \<and> rev_at V (du_root u, du_path u) < du_revision u \<and>
      \<not> kept_at V (du_root u, du_path u) (du_stamp_ms u))"
  using assms by (auto simp: unbind_verdict_def unbind_at_verdict_def Let_def split: if_splits)

lemma retain_outcome:
  assumes "outcome (retain_verdict V r) V V'"
  shows "V' = V \<or> (\<exists>w m. V (dt_root r, dt_path r) = Some w \<and> V' = V((dt_root r, dt_path r) \<mapsto> w\<lparr>k_revision := dt_revision r, k_meta := m\<rparr>) \<and>
      k_live w \<and> k_kind w \<noteq> KIND_VOLUME \<and> k_revision w < dt_revision r \<and> m_retain_until_ms (k_meta w) \<le> m_retain_until_ms m)"
proof (cases "V (dt_root r, dt_path r)")
  case (Some w)
  define till where "till = (if dt_retain_until_ms r \<noteq> 0 then dt_retain_until_ms r else m_retain_until_ms (k_meta w))"
  define hold where "hold = hold_after (dt_hold r) (m_hold (k_meta w))"
  have le: "\<not> (dt_retain_until_ms r \<noteq> 0 \<and> dt_retain_until_ms r < m_retain_until_ms (k_meta w)) \<Longrightarrow> m_retain_until_ms (k_meta w) \<le> till"
    by (auto simp: till_def)
  show ?thesis using assms Some le
    unfolding retain_verdict_def Some option.case Let_def till_def [symmetric] hold_def [symmetric]
    by (auto split: if_splits)
qed (use assms in \<open>simp add: retain_verdict_def\<close>)

lemma rename_outcome:
  assumes "outcome (rename_verdict V r) V V'"
  shows "\<exists>w rv. V (dr_root r, dr_from r) = Some w \<and> k_live w \<and> \<not> live_at V (dr_root r, dr_to r) \<and>
      V' = V((dr_root r, dr_to r) \<mapsto> w\<lparr>k_revision := rv\<rparr>, (dr_root r, dr_from r) \<mapsto> tomb_view (dr_new_revision r)) \<and>
      \<not> volume_at V (dr_root r, dr_from r) \<and> \<not> volume_at V (dr_root r, dr_to r) \<and>
      \<not> kept_at V (dr_root r, dr_from r) (dr_stamp_ms r) \<and> \<not> kept_at V (dr_root r, dr_to r) (dr_stamp_ms r)"
  using assms by (auto simp: rename_verdict_def Let_def split: if_splits)

lemma restore_outcome:
  assumes "outcome (restore_verdict V b) V V'"
  shows "V' = V \<or> (\<exists>v. V' = V((db_root b, db_path b) \<mapsto> v) \<and> k_revision v = db_revision b \<and> rev_at V (db_root b, db_path b) < db_revision b)"
  using assms by (auto simp: restore_verdict_def split: if_splits)

text \<open>The outcome of a payload, as one of these.\<close>

lemma judged_outcome: "outcome (judged d f) V V' \<Longrightarrow> \<exists>x. d = Inr x \<and> outcome (f x) V V'"
  by (cases d) (simp_all add: judged_def)

lemma op_outcome_cases:
  assumes "outcome (op_verdict p reserved V payload) V V'"
  obtains
    (restore) b where "ns_peek_opcode payload = Some OP_BINDING_RESTORE" "decode_binding_restore p payload = Inr b"
      "outcome (restore_verdict V b) V V'"
  | (retain) r where "ns_peek_opcode payload = Some OP_RETAIN" "decode_retain p payload = Inr r" "outcome (retain_verdict V r) V V'"
  | (bind) b where "ns_peek_opcode payload = Some OP_BIND" "decode_bind p payload = Inr b" "outcome (bind_verdict reserved V b) V V'"
  | (rename) r where "ns_peek_opcode payload = Some OP_RENAME" "decode_rename payload = Inr r" "outcome (rename_verdict V r) V V'"
  | (unbind) u where "ns_peek_opcode payload = Some OP_UNBIND" "decode_unbind payload = Inr u" "outcome (unbind_verdict V u) V V'"
  using assms by (auto simp: op_verdict_def split: option.splits if_splits dest!: judged_outcome)

text \<open>One record of any kind, from the map's side.\<close>

lemma apply_op_cases:
  assumes sv: "serving p call v g recs m s" and run: "apply_op p call payload m s = (m', s', res)"
  obtains
    (still) "module_view p recs m' = module_view p recs m"
  | (volume) req where "ns_peek_opcode payload = Some OP_VOLUME" "decode_volume_req p payload = Inr req"
      "volume_effect p (nm_leases m) req (module_view p recs m) (module_view p recs m')"
  | (verdict) "\<not> side_op payload" "res = Inr ()"
      "outcome (op_verdict p (nm_gc_reserved m) (module_view p recs m) payload) (module_view p recs m) (module_view p recs m')"
proof (cases "side_op payload")
  case True
  note ap = apply_op_side [OF sv True run]
  show ?thesis
  proof (cases "ns_peek_opcode payload = Some OP_VOLUME")
    case vol: True
    then show ?thesis using ap that(1,2) by (cases "decode_volume_req p payload") auto
  next
    case False
    then show ?thesis using ap that(1) by simp
  qed
next
  case False
  have "obeys p recs False (op_verdict p (nm_gc_reserved m) (module_view p recs m) payload) m (m', res)"
    using apply_op_does [OF sv False] run by (simp add: does_def)
  then show ?thesis using that(1) that(3) [OF False] by (cases res) (auto simp: obeys_def)
qed

lemma volume_effect_at:
  "volume_effect p lt req V V' \<Longrightarrow> V' k \<noteq> V k \<Longrightarrow> k = volume_key req \<and> (may_commit p lt V req \<or> may_delete p lt V req)"
  by (auto simp: volume_effect_def split: if_splits)

end
