(* ===== verification/Namespace_Apply_Props.thy ===== *)
theory Namespace_Apply_Props
  imports Namespace_Steps Namespace_Props Namespace_Stream
begin

text \<open>
  What the ordered log may do to the namespace, one record at a time and over whole logs.
\<close>

section \<open>A module to apply records to\<close>

definition module_on :: "ns_state \<Rightarrow> u64 list \<Rightarrow> ns_module" where
  "module_on st rs = \<lparr>nm_bindings = st, nm_leases = lease_new Minimal 2, nm_gc_reserved = rs, nm_snap_active = False,
     nm_snap = snapshot_none, nm_evictions = 0, nm_lease_resp = replicate LEASE_RESP_LEN 0, nm_volume_resp = replicate VOLUME_RESP_LEN 0\<rparr>"

definition no_fs :: "unit provider" where
  "no_fs s fd op arg = (s, - 38, arg)"

definition no_view :: "unit read_view" where
  "no_view = \<lparr>rv_content = (\<lambda>_. []), rv_pos = (\<lambda>_. 0)\<rparr>"

lemma module_on_below [simp]: "below_view p recs (module_on st rs) = Map.empty"
  by (simp add: below_view_def module_on_def fun_eq_iff)

lemma module_on_serving: "arena_covered p Map.empty st \<Longrightarrow> serving p no_fs no_view 0 [] (module_on st rs) ()"
  by (simp add: serving_def nm_ok_def) (simp add: module_on_def)

lemma module_on_view: "module_view p recs (module_on st rs) = arena_over st Map.empty"
  by (simp add: module_view_def) (simp add: module_on_def)

lemma ns_map_new [simp]: "ns_map (ns_new p n) k = None"
proof -
  have "ns_view (ns_new p n) k = None" by simp
  then show ?thesis by (simp add: ns_view_def del: ns_view_new)
qed

lemma empty_covered: "arena_covered p Map.empty (ns_new p n)"
  by (simp add: arena_covered_def ns_new_ok)

definition one_in :: "nat \<Rightarrow> u8 \<Rightarrow> meta \<Rightarrow> ns_state" where
  "one_in n kind m = set_slot (ns_new Minimal n) 0 (fresh Minimal [1] [2] [7] kind 5 m 1) 1"

definition one_binding :: "u8 \<Rightarrow> meta \<Rightarrow> ns_state" where
  "one_binding = one_in 2"

definition the_binding :: "u8 \<Rightarrow> meta \<Rightarrow> kview" where
  "the_binding kind m = \<lparr>k_object_id = [7], k_kind = kind, k_revision = 5, k_meta = m\<rparr>"

lemma one_in_view:
  assumes m: "length (m_content_type m) \<le> CONTENT_TYPE_MAX" "length (m_key_ref m) \<le> KEY_REF_MAX" and n: "0 < n"
  shows "arena_covered Minimal Map.empty (one_in n kind m)"
    and "arena_over (one_in n kind m) Map.empty = [([1], [2]) \<mapsto> the_binding kind m]"
proof -
  have ok: "ns_ok Minimal (ns_new Minimal n)" by (rule ns_new_ok)
  have fits: "key_fits Minimal [1] [2] [7]" by (simp add: key_fits_def MAX_ROOT_def MAX_PATH_def MAX_OBJECT_ID_def)
  have free: "first_index (\<lambda>s. \<not> bs_occupied s) (ns_slots (ns_new Minimal n)) = Some 0"
    using n by (cases n) (simp_all add: ns_new_def first_index.simps empty_slot_def)
  have "puts Minimal (ns_new Minimal n) ([1], [2]) 0 (fresh Minimal [1] [2] [7] kind 5 m 1)"
    by (rule puts_fresh [OF fits ns_map_new free])
  note put = puts_ok [OF ok this, of 1]
  note cov = covered_puts [OF empty_covered put(1) put(2)]
  have "slot_kview (fresh Minimal [1] [2] [7] kind 5 m 1) = the_binding kind m"
    by (simp add: kview_of_view fresh_view [OF fits m] new_view_def the_binding_def)
  moreover have "arena_over (ns_new Minimal n) Map.empty = Map.empty" by (simp add: arena_over_def fun_eq_iff)
  ultimately show "arena_covered Minimal Map.empty (one_in n kind m)"
    "arena_over (one_in n kind m) Map.empty = [([1], [2]) \<mapsto> the_binding kind m]"
    using cov by (simp_all add: one_in_def)
qed

lemma one_binding_view:
  assumes "length (m_content_type m) \<le> CONTENT_TYPE_MAX" "length (m_key_ref m) \<le> KEY_REF_MAX"
  shows "arena_covered Minimal Map.empty (one_binding kind m)"
    and "arena_over (one_binding kind m) Map.empty = [([1], [2]) \<mapsto> the_binding kind m]"
  using one_in_view [OF assms, of 2 kind] by (simp_all add: one_binding_def)

lemma one_serving:
  assumes "length (m_content_type m) \<le> CONTENT_TYPE_MAX" "length (m_key_ref m) \<le> KEY_REF_MAX"
  shows "serving Minimal no_fs no_view 0 [] (module_on (one_binding kind m) rs) ()"
    and "module_view Minimal [] (module_on (one_binding kind m) rs) = [([1], [2]) \<mapsto> the_binding kind m]"
  using module_on_serving [OF one_binding_view(1) [OF assms]] module_on_view one_binding_view(2) [OF assms] by auto

section \<open>Refinement\<close>


lemma unbind_payload:
  assumes "key_fits p (du_root u) (du_path u) []" "du_cond u \<le> COND_REVISION"
  shows "decode_unbind (unbind_frame u) = Inr u" "ns_peek_opcode (unbind_frame u) = Some OP_UNBIND"
  using unbind_frame_back(1) [OF assms, of "[]"] frame_opcodes(3) [of u "[]"] by simp_all

definition late_unbind :: decoded_unbind where
  "late_unbind = \<lparr>du_root = [1], du_path = [2], du_revision = 5, du_stamp_ms = 9, du_cond = COND_ANY, du_expect = 0\<rparr>"

lemma late_unbind_payload:
  "decode_unbind (unbind_frame late_unbind) = Inr late_unbind" "ns_peek_opcode (unbind_frame late_unbind) = Some OP_UNBIND"
  by (rule unbind_payload [of Minimal]; simp add: late_unbind_def key_fits_def MAX_ROOT_def MAX_PATH_def COND_ANY_def COND_REVISION_def)+

lemma meta_none_fits [simp]: "length (m_content_type meta_none) \<le> CONTENT_TYPE_MAX" "length (m_key_ref meta_none) \<le> KEY_REF_MAX"
  by (simp_all add: meta_none_def)


lemma decode_bind_fits:
  assumes "decode_bind p src = Inr b"
  shows "ns_peek_opcode src = Some OP_BIND" "bind_fits p b"
proof -
  have f: "decode_bind_fields p src = Inr b" "src \<noteq> []" "src ! 0 = OP_BIND"
    using assms by (auto simp: decode_bind_def split: if_splits sum.splits)
  show "ns_peek_opcode src = Some OP_BIND" using f(2,3) by (cases src) (simp_all add: ns_peek_opcode_def)
  have len: "\<not> k < n \<Longrightarrow> length (sub_slice src i n) \<le> k" for i n k by (simp add: sub_slice_def)
  show "bind_fits p b" using f(1)
    by (auto simp: decode_bind_fields_def bind_fits_def Let_def wire_check_key_None split: if_splits option.splits
        intro: len)
qed

text \<open>C15: a bind is decided exactly: with a free slot and a snapshot that answers, its answer is the
  verdict's word for word (reserved, fenced, stale, condition, retained, kept or bound), and the
  map changes at its key when it is bound and nowhere when it is not.\<close>

theorem bind_answers_exact:
  assumes "serving p call v g recs m s" "prompt call m" "\<not> ns_full (nm_bindings m)"
    and "decode_bind p payload = Inr b" "apply_op p call payload m s = (m', s', res)"
  shows "res = answer (bind_verdict (nm_gc_reserved m) (module_view p recs m) b) \<and>
    module_view p recs m' = (case bind_verdict (nm_gc_reserved m) (module_view p recs m) b of
      Put k w \<Rightarrow> (module_view p recs m)(k \<mapsto> w) | _ \<Rightarrow> module_view p recs m)"
proof -
  let ?vd = "bind_verdict (nm_gc_reserved m) (module_view p recs m) b"
  note d = decode_bind_fits [OF assms(4)]
  have "apply_bind p call b m s = (m', s', res)"
    using assms(4,5) d(1) by (simp add: apply_op_def with_decoded_def ns_opcodes)
  moreover have "bind_sure p call m b = True"
    using assms(2,3) d(2) by (simp add: bind_sure_def target_fits_def bind_fits_def state_meta_def)
  ultimately have o: "obeys p recs True ?vd m (m', res)"
    using apply_bind_does [OF assms(1), of b] by (simp add: does_def)
  have "\<not> (\<exists>x y z. ?vd = Move x y z)" by (simp add: bind_verdict_def bind_at_verdict_def Let_def)
  then have "(\<exists>e. ?vd = Refuse e) \<or> ?vd = Keep \<or> (\<exists>k w. ?vd = Put k w)" by (cases ?vd) blast+
  then show ?thesis using o by (auto simp: obeys_def)
qed

definition demo_bind :: "u64 \<Rightarrow> bytes \<Rightarrow> decoded_bind" where
  "demo_bind revision oid = \<lparr>db_root = [1], db_path = [2], db_object_id = oid, db_kind = 2, db_revision = revision,
     db_meta = wire_meta meta_none, db_cond = COND_ANY, db_expect = 0\<rparr>"

lemma demo_bind_payload:
  assumes "length oid \<le> 4"
  shows "decode_bind Minimal (bind_frame OP_BIND (demo_bind revision oid)) = Inr (demo_bind revision oid)"
proof -
  have "bind_fits Minimal (demo_bind revision oid)" using assms
    by (simp add: bind_fits_def demo_bind_def key_fits_def wire_meta_def meta_none_def MAX_ROOT_def MAX_PATH_def MAX_OBJECT_ID_def
        COND_ANY_def COND_REVISION_def)
  from bind_frame_back(1) [OF this, of OP_BIND "[]"]
  have "decode_bind_fields Minimal (bind_frame OP_BIND (demo_bind revision oid)) = Inr (demo_bind revision oid)" by simp
  moreover have "bind_frame OP_BIND (demo_bind revision oid) \<noteq> [] \<and> bind_frame OP_BIND (demo_bind revision oid) ! 0 = OP_BIND"
    by (simp add: bind_frame_def Let_def)
  moreover have "db_kind (demo_bind revision oid) \<le> KIND_SYMLINK" by (simp add: demo_bind_def KIND_SYMLINK_def)
  ultimately show ?thesis by (simp add: decode_bind_def not_less)
qed

theorem bind_answers_exact_witness:
  "\<exists>m'. apply_op Minimal no_fs (bind_frame OP_BIND (demo_bind 6 [9])) (module_on (one_binding 2 meta_none) [0]) () = (m', (), Inr ()) \<and>
     module_view Minimal [] m' = [([1], [2]) \<mapsto> bind_view (demo_bind 6 [9])]"
proof -
  let ?m = "module_on (one_binding 2 meta_none) [0]" and ?x = "bind_frame OP_BIND (demo_bind 6 [9])"
  obtain m' s' res where run: "apply_op Minimal no_fs ?x ?m () = (m', s', res)" by (cases "apply_op Minimal no_fs ?x ?m ()")
  have free: "\<not> ns_full (nm_bindings ?m)"
    by (simp add: module_on_def one_binding_def one_in_def set_slot_def ns_full_def ns_new_def numeral_2_eq_2 empty_slot_def)
  have hash: "fnv1a64 [9] \<noteq> 0" by code_simp
  have "retained_at 0 False now \<longleftrightarrow> False" for now by (simp add: retained_at_def)
  then have vd: "bind_verdict (nm_gc_reserved ?m) [([1], [2]) \<mapsto> the_binding 2 meta_none] (demo_bind 6 [9])
      = Put ([1], [2]) (bind_view (demo_bind 6 [9]))"
    using hash by (simp add: bind_verdict_def bind_at_verdict_def Let_def demo_bind_def reads_at the_binding_def module_on_def
        k_live_def k_retained_def meta_none_def KIND_VOLUME_def COND_ANY_def COND_ABSENT_def COND_REVISION_def)
  have "prompt no_fs ?m" by (simp add: prompt_def module_on_def)
  note x = bind_answers_exact [OF one_serving(1) [OF meta_none_fits] this free demo_bind_payload run]
  have "res = Inr ()" "module_view Minimal [] m' = [([1], [2]) \<mapsto> bind_view (demo_bind 6 [9])]"
    using x by (simp_all add: one_serving(2) vd)
  then show ?thesis using run by simp
qed

section \<open>Whole logs\<close>

text \<open>C13: the table's type: whatever payloads a log holds, malformed ones included, and however the
  storage provider answers meanwhile, every slot stays a well-formed, unlocked slot with a one-bit
  hold flag, no two slots hold one key, and a slot marked as snapshotted is exactly what the open snapshot says of its key.\<close>

theorem apply_log_wellformed:
  assumes "serving p call v g recs m s"
  shows "ns_ok p (nm_bindings (fst (apply_log p call log (m, s)))) \<and>
    (\<forall>k b. ns_map (nm_bindings (fst (apply_log p call log (m, s)))) k = Some b \<longrightarrow>
       bs_locked b = 0 \<and> bs_hold b \<le> 1 \<and> (bs_snapshotted b \<noteq> 0 \<longrightarrow>
         below_view p recs (fst (apply_log p call log (m, s))) k = Some (slot_kview b)))"
proof -
  have "serving p call v g recs (fst (apply_log p call log (m, s))) (snd (apply_log p call log (m, s)))"
    using apply_log_inv [of "\<lambda>_. True", OF _ assms] by simp
  then show ?thesis unfolding serving_def nm_ok_def arena_covered_def by blast
qed

theorem apply_log_wellformed_witness:
  "ns_ok Minimal (nm_bindings (fst (apply_log Minimal no_fs [[9, 9], unbind_frame late_unbind] (module_on (one_binding 2 meta_none) [0], ()))))"
  using apply_log_wellformed [OF one_serving(1) [OF meta_none_fits, of 2 "[0]"], of "[[9, 9], unbind_frame late_unbind]"] by blast

end
