(* ===== verification/Namespace_Log_Props.thy ===== *)
theory Namespace_Log_Props
  imports Namespace_Apply_Props
begin

text \<open>
  What records cannot do: take a volume's root outside a fenced commit or delete, overwrite or
  remove a retained binding, bring a deleted key back, or name an id reserved for deletion.
\<close>

section \<open>Volumes\<close>

lemma outcome_no_volume:
  assumes "outcome (op_verdict p reserved V payload) V V'" "ns_peek_opcode payload \<noteq> Some OP_BINDING_RESTORE" "V' k \<noteq> V k"
  shows "\<not> volume_at V k \<and> \<not> volume_at V' k"
  using assms(1)
proof (cases rule: op_outcome_cases)
  case (retain r)
  show ?thesis using retain_outcome [OF retain(3)] assms(3) by (auto simp: volume_at_def split: if_splits)
next
  case (bind b)
  show ?thesis using bind_outcome [OF bind(3)] assms(3) by (auto simp: volume_at_def split: if_splits)
next
  case (rename r)
  show ?thesis using rename_outcome [OF rename(3)] assms(3) by (auto simp: volume_at_def split: if_splits)
next
  case (unbind u)
  show ?thesis using unbind_outcome [OF unbind(3)] assms(3) by (auto simp: volume_at_def split: if_splits)
qed (use assms(2) in auto)

text \<open>C6: a volume's root moves only under its lease: when a record other than a restore changes a
  key that is a volume's before or after it, the record is a volume record for that key, and
  either a commit by the holder of the lease at its fence and not past its expiry, with the flush
  it opened still open, from exactly the revision the key is at, over nothing retained, or a
  delete by that holder at exactly that revision.\<close>

theorem volume_root_fenced:
  assumes "serving p call v g recs m s" "apply_op p call payload m s = (m', s', res)"
    and "ns_peek_opcode payload \<noteq> Some OP_BINDING_RESTORE" "module_view p recs m' k \<noteq> module_view p recs m k"
    and "volume_at (module_view p recs m) k \<or> volume_at (module_view p recs m') k"
  shows "\<exists>req. decode_volume_req p payload = Inr req \<and> volume_key req = k \<and>
    (may_commit p (nm_leases m) (module_view p recs m) req \<or> may_delete p (nm_leases m) (module_view p recs m) req)"
  using assms(1,2)
proof (cases rule: apply_op_cases)
  case (volume req)
  show ?thesis using volume(2) volume_effect_at [OF volume(3) assms(4)] by auto
next
  case verdict
  show ?thesis using outcome_no_volume [OF verdict(3) assms(3,4)] assms(5) by simp
qed (use assms(4) in simp)

definition demo_leases :: lease_table where
  "demo_leases = fst (lease_apply Minimal (lease_new Minimal 2) 1 [1] [2] (replicate 16 9) 10 1000)"

definition demo_module :: "u8 \<Rightarrow> ns_module" where
  "demo_module kind = (module_on (one_binding kind meta_none) [0])\<lparr>nm_leases := demo_leases\<rparr>"

definition demo_volume_op :: "u8 \<Rightarrow> u64 \<Rightarrow> u64 \<Rightarrow> decoded_volume_req" where
  "demo_volume_op mode expected now = \<lparr>dv_mode = mode, dv_root = [1], dv_path = [2], dv_object_id = [7], dv_holder = replicate 16 9,
     dv_fence = 1, dv_expected = expected, dv_now_ms = now\<rparr>"

lemma demo_serving:
  "serving Minimal no_fs no_view 0 [] (demo_module kind) ()" "module_view Minimal [] (demo_module kind) = [([1], [2]) \<mapsto> the_binding kind meta_none]"
proof -
  note sv = one_serving [OF meta_none_fits, of kind "[0]"]
  have "same_below (module_on (one_binding kind meta_none) [0]) (demo_module kind)" by (simp add: demo_module_def)
  moreover have "nm_ok Minimal [] (demo_module kind)" using serving_ok [OF sv(1)] by (simp add: demo_module_def)
  ultimately show "serving Minimal no_fs no_view 0 [] (demo_module kind) ()" using serving_after [OF sv(1)] by blast
  show "module_view Minimal [] (demo_module kind) = [([1], [2]) \<mapsto> the_binding kind meta_none]" using sv(2) by (simp add: demo_module_def)
qed

lemma map_view: "ns_lookup (nm_bindings m) r q = Some b \<Longrightarrow> module_view p recs m (r, q) = Some (slot_kview b)"
  by (simp add: ns_lookup_map module_view_def arena_over_def)

theorem volume_root_fenced_witness:
  "\<exists>req. decode_volume_req Minimal (volume_req_frame (demo_volume_op VOLUME_DELETE 5 20)) = Inr req \<and> volume_key req = ([1], [2]) \<and>
     (may_commit Minimal demo_leases [([1], [2]) \<mapsto> the_binding KIND_VOLUME meta_none] req \<or>
      may_delete Minimal demo_leases [([1], [2]) \<mapsto> the_binding KIND_VOLUME meta_none] req)"
proof -
  let ?m = "demo_module KIND_VOLUME" and ?x = "volume_req_frame (demo_volume_op VOLUME_DELETE 5 20)"
  obtain m' s' res where run: "apply_op Minimal no_fs ?x ?m () = (m', s', res)" by (cases "apply_op Minimal no_fs ?x ?m ()")
  have "map_option bs_kind (ns_lookup (nm_bindings (fst (apply_op Minimal no_fs ?x ?m ()))) [1] [2]) = Some 254" by code_simp
  then obtain b where "ns_lookup (nm_bindings m') [1] [2] = Some b" "bs_kind b = 254" using run by auto
  then have V': "module_view Minimal [] m' ([1], [2]) = Some (slot_kview b)" "k_kind (slot_kview b) = 254"
    using map_view by (simp_all add: slot_kview_def)
  have "k_kind (the_binding KIND_VOLUME meta_none) = 3" by (simp add: the_binding_def KIND_VOLUME_def)
  then have ne: "module_view Minimal [] m' ([1], [2]) \<noteq> module_view Minimal [] ?m ([1], [2])"
    using V' by (auto simp: demo_serving(2))
  have op: "ns_peek_opcode ?x \<noteq> Some OP_BINDING_RESTORE"
    using frame_opcodes(7) [of "demo_volume_op VOLUME_DELETE 5 20" "[]"] by (simp add: ns_opcodes)
  have vol: "volume_at (module_view Minimal [] ?m) ([1], [2]) \<or> volume_at (module_view Minimal [] m') ([1], [2])"
    by (simp add: demo_serving(2) volume_at_def the_binding_def)
  have lt: "nm_leases ?m = demo_leases" by (simp add: demo_module_def)
  show ?thesis using volume_root_fenced [OF demo_serving(1) run op ne vol] by (simp add: demo_serving(2) lt)
qed

text \<open>A commit that expects no volume lays its root at revision 1 over a tombstone of any revision,
  here 5, which a later bind was to exceed.\<close>

definition demo_flushing :: ns_module where
  "demo_flushing = (demo_module KIND_TOMBSTONE)\<lparr>nm_leases := fst (set_flushing Minimal demo_leases [1] [2] (replicate 16 9) True)\<rparr>"

lemma volume_commit_below_tombstone:
  "module_view Minimal [] demo_flushing ([1], [2]) = Some (the_binding KIND_TOMBSTONE meta_none) \<and>
   map_option (\<lambda>b. (bs_kind b, bs_revision b)) (ns_lookup (nm_bindings (fst (apply_op Minimal no_fs
      (volume_req_frame (demo_volume_op VOLUME_COMMIT 0 22)) demo_flushing ()))) [1] [2]) = Some (KIND_VOLUME, 1)"
proof -
  have "map_option (\<lambda>b. (bs_kind b, bs_revision b)) (ns_lookup (nm_bindings (fst (apply_op Minimal no_fs
      (volume_req_frame (demo_volume_op VOLUME_COMMIT 0 22)) demo_flushing ()))) [1] [2]) = Some (KIND_VOLUME, 1)"
    by code_simp
  then show ?thesis by (simp add: demo_flushing_def demo_serving(2))
qed

section \<open>Retention\<close>

definition payload_stamp :: "profile \<Rightarrow> bytes \<Rightarrow> u64 option" where
  \<comment> \<open>the time a record that could overwrite or remove a binding is judged at\<close>
  "payload_stamp p payload =
     (case ns_peek_opcode payload of
        None \<Rightarrow> None
      | Some op \<Rightarrow>
          if op = OP_BIND then (case decode_bind p payload of Inr b \<Rightarrow> Some (bm_stamp_ms (db_meta b)) | _ \<Rightarrow> None)
          else if op = OP_UNBIND then (case decode_unbind payload of Inr u \<Rightarrow> Some (du_stamp_ms u) | _ \<Rightarrow> None)
          else if op = OP_RENAME then (case decode_rename payload of Inr r \<Rightarrow> Some (dr_stamp_ms r) | _ \<Rightarrow> None)
          else if op = OP_VOLUME then
            (case decode_volume_req p payload of Inr r \<Rightarrow> if dv_mode r = VOLUME_COMMIT then Some (dv_now_ms r) else None | _ \<Rightarrow> None)
          else None)"

lemma outcome_retained:
  assumes "outcome (op_verdict p reserved V payload) V V'" "payload_stamp p payload = Some now" "V k = Some w" "k_retained now w"
  shows "V' k = V k"
proof -
  have kept: "kept_at V k now" using assms(3,4) by (simp add: kept_at_def)
  have live: "live_at V k" using assms(3,4) by (simp add: live_at_def k_retained_def)
  from assms(1) show ?thesis
  proof (cases rule: op_outcome_cases)
    case (restore b)
    then show ?thesis using assms(2) by (simp add: payload_stamp_def ns_opcodes)
  next
    case (retain r)
    then show ?thesis using assms(2) by (simp add: payload_stamp_def ns_opcodes)
  next
    case (bind b)
    then have "bm_stamp_ms (db_meta b) = now" using assms(2) by (simp add: payload_stamp_def)
    then show ?thesis using bind_outcome [OF bind(3)] kept by auto
  next
    case (rename r)
    then have "dr_stamp_ms r = now" using assms(2) by (simp add: payload_stamp_def ns_opcodes)
    then show ?thesis using rename_outcome [OF rename(3)] kept by auto
  next
    case (unbind u)
    then have "du_stamp_ms u = now" using assms(2) by (simp add: payload_stamp_def ns_opcodes)
    then show ?thesis using unbind_outcome [OF unbind(3)] kept by auto
  qed
qed

lemma outcome_retain_keeps:
  assumes "outcome (op_verdict p reserved V payload) V V'" "ns_peek_opcode payload = Some OP_RETAIN" "V k = Some w"
  shows "\<exists>w'. V' k = Some w' \<and> k_object_id w' = k_object_id w \<and> k_kind w' = k_kind w \<and>
    m_retain_until_ms (k_meta w) \<le> m_retain_until_ms (k_meta w')"
  using assms(1)
proof (cases rule: op_outcome_cases)
  case (retain r)
  show ?thesis using retain_outcome [OF retain(3)] assms(3) by auto
qed (use assms(2) in \<open>auto simp: ns_opcodes\<close>)

text \<open>C10: retention holds against every record: a binding retained at the time a bind, an unbind, a
  rename or a volume commit is stamped with is left exactly as it was, whichever end of the
  rename it is, and a retain record never moves a binding to another object or kind and never
  brings its retention date forward.\<close>

theorem retention_holds:
  assumes "serving p call v g recs m s" "apply_op p call payload m s = (m', s', res)" "module_view p recs m k = Some w"
    and "payload_stamp p payload = Some now \<and> k_retained now w \<or> ns_peek_opcode payload = Some OP_RETAIN"
  shows "\<exists>w'. module_view p recs m' k = Some w' \<and> (ns_peek_opcode payload \<noteq> Some OP_RETAIN \<longrightarrow> w' = w) \<and>
    k_object_id w' = k_object_id w \<and> k_kind w' = k_kind w \<and> m_retain_until_ms (k_meta w) \<le> m_retain_until_ms (k_meta w')"
  using assms(1,2)
proof (cases rule: apply_op_cases)
  case (volume req)
  then have stamp: "payload_stamp p payload = Some now \<and> k_retained now w" using assms(4) by (simp add: ns_opcodes)
  then have req: "dv_mode req = VOLUME_COMMIT" "dv_now_ms req = now"
    using volume(1,2) by (auto simp: payload_stamp_def ns_opcodes split: if_splits)
  have "\<not> may_delete p (nm_leases m) (module_view p recs m) req" using req by (simp add: may_delete_def)
  moreover have "\<not> may_commit p (nm_leases m) (module_view p recs m) req" if "volume_key req = k"
    using that req stamp assms(3) by (simp add: may_commit_def kept_at_def)
  ultimately have "module_view p recs m' k = module_view p recs m k" using volume_effect_at [OF volume(3), of k] by blast
  then show ?thesis using assms(3) by simp
next
  case verdict
  then show ?thesis using outcome_retained [OF verdict(3) _ assms(3)] outcome_retain_keeps [OF verdict(3) _ assms(3)] assms(3,4) by fastforce
qed (use assms(3) in simp)

theorem retention_holds_witness:
  "\<exists>m' res. apply_op Minimal no_fs (unbind_frame late_unbind) (module_on (one_binding 2 (meta_none\<lparr>m_hold := True\<rparr>)) [0]) () = (m', (), res) \<and>
     module_view Minimal [] m' ([1], [2]) = Some (the_binding 2 (meta_none\<lparr>m_hold := True\<rparr>))"
proof -
  let ?meta = "meta_none\<lparr>m_hold := True\<rparr>"
  let ?m = "module_on (one_binding 2 ?meta) [0]" and ?x = "unbind_frame late_unbind"
  obtain m' s' res where run: "apply_op Minimal no_fs ?x ?m () = (m', s', res)" by (cases "apply_op Minimal no_fs ?x ?m ()")
  have fits: "length (m_content_type ?meta) \<le> CONTENT_TYPE_MAX" "length (m_key_ref ?meta) \<le> KEY_REF_MAX" by (simp_all add: meta_none_def)
  note sv = one_serving [OF fits, of 2 "[0]"]
  have at: "module_view Minimal [] ?m ([1], [2]) = Some (the_binding 2 ?meta)" by (simp add: sv(2))
  have st: "payload_stamp Minimal ?x = Some 9 \<and> k_retained 9 (the_binding 2 ?meta) \<or> ns_peek_opcode ?x = Some OP_RETAIN"
    by (simp add: payload_stamp_def late_unbind_payload ns_opcodes)
      (simp add: late_unbind_def k_retained_def k_live_def the_binding_def retained_at_def KIND_TOMBSTONE_def)
  have "ns_peek_opcode ?x \<noteq> Some OP_RETAIN" by (simp add: late_unbind_payload ns_opcodes)
  then show ?thesis using retention_holds [OF sv(1) run at st] run by auto
qed

section \<open>Revisions\<close>

lemma outcome_raises:
  assumes "outcome (op_verdict p reserved V payload) V V'" "ns_peek_opcode payload \<noteq> Some OP_RENAME" "V' k \<noteq> V k"
  shows "rev_at V k < rev_at V' k"
  using assms(1)
proof (cases rule: op_outcome_cases)
  case (restore b)
  show ?thesis using restore_outcome [OF restore(3)] assms(3) by (auto simp: rev_at_def split: if_splits)
next
  case (retain r)
  show ?thesis using retain_outcome [OF retain(3)] assms(3) by (auto simp: rev_at_def split: if_splits)
next
  case (bind b)
  show ?thesis using bind_outcome [OF bind(3)] assms(3) by (auto simp: rev_at_def split: if_splits)
next
  case (unbind u)
  show ?thesis using unbind_outcome [OF unbind(3)] assms(3) by (auto simp: rev_at_def split: if_splits)
qed (use assms(2) in auto)

definition raising :: "bytes \<Rightarrow> bool" where
  \<comment> \<open>records that set a key's revision from its current one: all but renames and volume records\<close>
  "raising payload \<longleftrightarrow> ns_peek_opcode payload \<notin> {Some OP_RENAME, Some OP_VOLUME}"

lemma apply_op_raises:
  assumes "serving p call v g recs m s" "apply_op p call payload m s = (m', s', res)" "raising payload"
  shows "rev_at (module_view p recs m) k \<le> rev_at (module_view p recs m') k"
  using assms(1,2)
proof (cases rule: apply_op_cases)
  case verdict
  then show ?thesis using outcome_raises [OF verdict(3), of k] assms(3)
    by (cases "module_view p recs m' k = module_view p recs m k") (auto simp: raising_def rev_at_def order_less_imp_le)
qed (use assms(3) in \<open>auto simp: raising_def\<close>)

text \<open>C14: a late bind is harmless: after any log without renames and volume records a key's revision
  is at least what it was, tombstones counted, so a bind whose revision the key had already
  passed before the log (redelivered from before a delete, say) changes nothing after it.\<close>

theorem late_bind_changes_nothing:
  assumes "serving p call v g recs m s" "\<forall>x\<in>set log. raising x"
    and "decode_bind p payload = Inr b" "db_revision b < rev_at (module_view p recs m) (db_root b, db_path b)"
    and "apply_log p call log (m, s) = (m1, s1)" "apply_op p call payload m1 s1 = (m2, s2, res)"
  shows "rev_at (module_view p recs m) k \<le> rev_at (module_view p recs m1) k \<and> module_view p recs m2 = module_view p recs m1"
proof -
  have mono: "rev_at (module_view p recs m) k \<le> rev_at (module_view p recs m1) k \<and> serving p call v g recs m1 s1" for k
  proof -
    let ?I = "\<lambda>a. rev_at (module_view p recs m) k \<le> rev_at (module_view p recs a) k"
    have "?I (fst (apply_log p call log (m, s))) \<and>
        serving p call v g recs (fst (apply_log p call log (m, s))) (snd (apply_log p call log (m, s)))"
    proof (rule apply_log_inv [OF _ assms(1)])
      fix x a sa a' sa' r
      assume "x \<in> set log" "serving p call v g recs a sa" "?I a" "apply_op p call x a sa = (a', sa', r)"
      then show "?I a'" using apply_op_raises [of p call v g recs a sa x a' sa' r k] assms(2) by (meson order_trans)
    qed simp
    then show ?thesis using assms(5) by simp
  qed
  have sv1: "serving p call v g recs m1 s1" using mono by blast
  have "db_revision b < rev_at (module_view p recs m1) (db_root b, db_path b)"
    using assms(4) mono [of "(db_root b, db_path b)"] by (simp add: less_le_trans)
  moreover from sv1 assms(6) have "module_view p recs m2 = module_view p recs m1"
  proof (cases rule: apply_op_cases)
    case (volume req)
    then show ?thesis using decode_bind_fits(1) [OF assms(3)] by (simp add: ns_opcodes)
  next
    case verdict
    from verdict(3) show ?thesis
    proof (cases rule: op_outcome_cases)
      case (bind b')
      then show ?thesis using bind_outcome [OF bind(3)] assms(3) calculation by auto
    qed (use decode_bind_fits(1) [OF assms(3)] in \<open>simp_all add: ns_opcodes\<close>)
  qed
  ultimately show ?thesis using mono by blast
qed

theorem late_bind_changes_nothing_witness:
  "module_view Minimal [] (fst (apply_op Minimal no_fs (bind_frame OP_BIND (demo_bind 4 [9]))
      (fst (apply_log Minimal no_fs [unbind_frame late_unbind] (module_on (one_binding 2 meta_none) [0], ()))) ())) =
   module_view Minimal [] (fst (apply_log Minimal no_fs [unbind_frame late_unbind] (module_on (one_binding 2 meta_none) [0], ())))"
proof -
  let ?m = "module_on (one_binding 2 meta_none) [0]" and ?x = "bind_frame OP_BIND (demo_bind 4 [9])"
  obtain m1 s1 where log: "apply_log Minimal no_fs [unbind_frame late_unbind] (?m, ()) = (m1, s1)"
    by (cases "apply_log Minimal no_fs [unbind_frame late_unbind] (?m, ())")
  obtain m2 s2 res where run: "apply_op Minimal no_fs ?x m1 s1 = (m2, s2, res)" by (cases "apply_op Minimal no_fs ?x m1 s1")
  have raise: "\<forall>x\<in>set [unbind_frame late_unbind]. raising x" by (simp add: raising_def late_unbind_payload ns_opcodes)
  have dec: "decode_bind Minimal ?x = Inr (demo_bind 4 [9])" by (rule demo_bind_payload) simp
  have old: "db_revision (demo_bind 4 [9]) < rev_at (module_view Minimal [] ?m) (db_root (demo_bind 4 [9]), db_path (demo_bind 4 [9]))"
    by (simp add: one_serving(2) demo_bind_def rev_at_def the_binding_def)
  have "module_view Minimal [] m2 = module_view Minimal [] m1"
    using late_bind_changes_nothing [OF one_serving(1) [OF meta_none_fits] raise dec old log run] by blast
  then show ?thesis using log run by simp
qed

section \<open>Reservations\<close>

definition references :: "kmap \<Rightarrow> u64 \<Rightarrow> bool" where
  "references V h \<longleftrightarrow> (\<exists>k w. V k = Some w \<and> k_live w \<and> fnv1a64 (k_object_id w) = h)"

definition keeps_reserved :: "u64 \<Rightarrow> bytes \<Rightarrow> bool" where
  \<comment> \<open>no restore, and no release of the id\<close>
  "keeps_reserved h payload \<longleftrightarrow>
     ns_peek_opcode payload \<notin> {Some OP_BINDING_RESTORE, Some OP_LEASE_RESTORE} \<and>
     (ns_peek_opcode payload = Some OP_GC_RELEASE \<longrightarrow>
       (case decode_gc_reserve_req payload of Inr (oid, _) \<Rightarrow> fnv1a64 oid \<noteq> h | Inl _ \<Rightarrow> True))"

lemma reserve_keeps: "h \<in> set rs \<Longrightarrow> h \<noteq> 0 \<Longrightarrow> h \<in> set (gc_reserve x rs)"
proof -
  assume h: "h \<in> set rs" "h \<noteq> 0"
  show ?thesis
  proof (cases "first_index (\<lambda>x. x = 0) rs")
    case (Some i)
    then have i: "i < length rs" "rs ! i = 0" by (auto dest!: first_index_SomeD)
    obtain j where j: "j < length rs" "rs ! j = h" using h(1) by (auto simp: in_set_conv_nth)
    then have "i \<noteq> j" using i h(2) by metis
    then have "rs[i := x] ! j = h" using j by simp
    then have "h \<in> set (rs[i := x])" using j(1) by (metis length_list_update nth_mem)
    then show ?thesis using h Some by (simp add: gc_reserve_def)
  qed (use h in \<open>simp add: gc_reserve_def\<close>)
qed

lemma release_keeps: "h \<in> set rs \<Longrightarrow> x \<noteq> h \<Longrightarrow> h \<in> set (gc_release x rs)"
  by (auto simp: gc_release_def image_iff)

lemma apply_op_keeps_guard:
  assumes sv: "serving p call v g recs m s" and run: "apply_op p call payload m s = (m', s', res)"
    and h: "h \<noteq> 0" "h \<in> set (nm_gc_reserved m)" and idle: "idle (nm_leases m)" and ok: "keeps_reserved h payload"
  shows "h \<in> set (nm_gc_reserved m') \<and> idle (nm_leases m')"
proof (cases "side_op payload")
  case False
  then have "same_but_arena m m'" using apply_op_does [OF sv False] run by (simp add: does_def obeys_def)
  then show ?thesis using h idle by (simp add: same_but_arena_def)
next
  case True
  then obtain b where b: "ns_peek_opcode payload = Some b" "b \<in> {OP_GC_RESERVE, OP_GC_RELEASE, OP_LEASE, OP_VOLUME}"
    using ok by (auto simp: side_op_def keeps_reserved_def split: option.splits)
  then consider "b = OP_GC_RESERVE" | "b = OP_GC_RELEASE" | "b = OP_LEASE" | "b = OP_VOLUME" by blast
  then show ?thesis
  proof cases
    case 1
    then show ?thesis using run b(1) h idle reserve_keeps [OF h(2,1)] idle_end [OF idle]
      by (auto simp: apply_op_def with_decoded_def apply_gc_def Let_def split: sum.splits)
  next
    case 2
    then show ?thesis using run b(1) h idle ok release_keeps [OF h(2)]
      by (auto simp: apply_op_def with_decoded_def apply_gc_def keeps_reserved_def ns_opcodes Let_def split: sum.splits)
  next
    case 3
    have "apply_lease p r m = (m1, x) \<Longrightarrow> nm_gc_reserved m1 = nm_gc_reserved m \<and> idle (nm_leases m1)" for r m1 x
      using idle_lease_apply [OF idle]
      by (auto simp: apply_lease_def Let_def split: prod.splits sum.splits)
    then show ?thesis using 3 run b(1) h idle
      by (auto simp: apply_op_def with_decoded_def ns_opcodes split: sum.splits prod.splits)
  next
    case 4
    have si: "judge_volume_at p req cur kept m = (m1, st, rv) \<Longrightarrow> idle (nm_leases m1)" for req cur kept m1 st rv
      using judge_volume_at_idle [of m p req cur kept m1 st rv] h idle by (auto simp: stays_idle_def idle_def)
    have "judge_volume p call req m s = (m1, s1, r) \<Longrightarrow> idle (nm_leases m1)" for req m1 s1 r
      using si idle by (auto simp: judge_volume_def split: prod.splits sum.splits snap_read.splits)
    then have "apply_volume p call req m s = (m1, s1, r) \<Longrightarrow> idle (nm_leases m1)" for req m1 s1 r
      by (auto simp: apply_volume_def split: prod.splits sum.splits)
    moreover have "apply_volume p call req m s = (m1, s1, r) \<Longrightarrow> nm_gc_reserved m1 = nm_gc_reserved m" for req m1 s1 r
      using apply_volume_judged [OF sv] by blast
    ultimately show ?thesis using 4 run b(1) h idle
      by (auto simp: apply_op_def with_decoded_def ns_opcodes split: sum.splits)
  qed
qed

lemma references_upd:
  "\<not> references W h \<Longrightarrow> (k_live w \<Longrightarrow> fnv1a64 (k_object_id w) \<noteq> h) \<Longrightarrow> \<not> references (W(k \<mapsto> w)) h"
  unfolding references_def by (metis fun_upd_apply option.sel)

lemma outcome_unreferenced:
  assumes "outcome (op_verdict p reserved V payload) V V'" "ns_peek_opcode payload \<noteq> Some OP_BINDING_RESTORE"
    and h: "h \<in> set reserved" and un: "\<not> references V h"
  shows "\<not> references V' h"
proof -
  have tomb: "\<not> k_live (tomb_view r)" for r by simp
  note upd = references_upd
  from assms(1) show ?thesis
  proof (cases rule: op_outcome_cases)
    case (retain r)
    from retain_outcome [OF retain(3)] show ?thesis
    proof
      assume "\<exists>w m. V (dt_root r, dt_path r) = Some w \<and> V' = V((dt_root r, dt_path r) \<mapsto> w\<lparr>k_revision := dt_revision r, k_meta := m\<rparr>) \<and>
        k_live w \<and> k_kind w \<noteq> KIND_VOLUME \<and> k_revision w < dt_revision r \<and> m_retain_until_ms (k_meta w) \<le> m_retain_until_ms m"
      then obtain w m where w: "V (dt_root r, dt_path r) = Some w" "k_live w"
        "V' = V((dt_root r, dt_path r) \<mapsto> w\<lparr>k_revision := dt_revision r, k_meta := m\<rparr>)" by blast
      have "fnv1a64 (k_object_id w) \<noteq> h" using un w(1,2) unfolding references_def by blast
      then show ?thesis unfolding w(3) by (intro upd [OF un]) simp
    qed (use un in simp)
  next
    case (bind b)
    from bind_outcome [OF bind(3)] show ?thesis
    proof
      assume "V' = V((db_root b, db_path b) \<mapsto> bind_view b) \<and> fnv1a64 (db_object_id b) \<notin> set reserved \<and>
        db_kind b \<noteq> KIND_VOLUME \<and> \<not> volume_at V (db_root b, db_path b) \<and> rev_at V (db_root b, db_path b) < db_revision b \<and>
        \<not> kept_at V (db_root b, db_path b) (bm_stamp_ms (db_meta b))"
      then show ?thesis using upd [OF un, of "bind_view b"] h by auto
    qed (use un in simp)
  next
    case (rename r)
    obtain w rv where w: "V (dr_root r, dr_from r) = Some w" "k_live w"
      "V' = V((dr_root r, dr_to r) \<mapsto> w\<lparr>k_revision := rv\<rparr>, (dr_root r, dr_from r) \<mapsto> tomb_view (dr_new_revision r))"
      using rename_outcome [OF rename(3)] by blast
    have "fnv1a64 (k_object_id w) \<noteq> h" using un w(1,2) unfolding references_def by blast
    then show ?thesis unfolding w(3) by (intro upd [OF upd [OF un]]) simp_all
  next
    case (unbind u)
    show ?thesis using unbind_outcome [OF unbind(3)] un upd [OF un, of "tomb_view (du_revision u)"] by auto
  qed (use assms(2) in auto)
qed

lemma volume_unreferenced:
  assumes "volume_effect p lt req V V'" "idle lt" "\<not> references V h"
  shows "\<not> references V' h"
proof -
  have "\<not> may_commit p lt V req"
    using idle_not_flushing [OF idle_touch [OF assms(2)]] by (simp add: may_commit_def flush_open_def touched_def)
  then have "V' = V \<or> V' = V(volume_key req \<mapsto> tomb_view (dv_expected req + 1))" using assms(1) by (auto simp: volume_effect_def)
  then show ?thesis using assms(3) references_upd [OF assms(3), of "tomb_view (dv_expected req + 1)" "volume_key req"] by auto
qed

text \<open>C5: the collector may trust a reservation: once an id is reserved, unreferenced and no flush is
  open, no log without a release of it or a restore makes any live binding name it, whatever it
  binds, renames, retains, leases, begins or commits, and the reservation itself stays.\<close>

theorem reserved_id_stays_unreferenced:
  assumes "serving p call v g recs m s" "h \<noteq> 0" "h \<in> set (nm_gc_reserved m)"
    and "\<not> any_flushing (nm_leases m)" "\<not> references (module_view p recs m) h"
    and "\<forall>x\<in>set log. keeps_reserved h x" "apply_log p call log (m, s) = (m', s')"
  shows "h \<in> set (nm_gc_reserved m') \<and> \<not> references (module_view p recs m') h"
proof -
  let ?I = "\<lambda>a. h \<in> set (nm_gc_reserved a) \<and> idle (nm_leases a) \<and> \<not> references (module_view p recs a) h"
  have "?I (fst (apply_log p call log (m, s))) \<and>
      serving p call v g recs (fst (apply_log p call log (m, s))) (snd (apply_log p call log (m, s)))"
  proof (rule apply_log_inv [OF _ assms(1)])
    fix x a sa a' sa' r
    assume st: "x \<in> set log" "serving p call v g recs a sa" "?I a" "apply_op p call x a sa = (a', sa', r)"
    then have ok: "keeps_reserved h x" using assms(6) by blast
    have "h \<in> set (nm_gc_reserved a') \<and> idle (nm_leases a')"
      by (rule apply_op_keeps_guard [OF st(2,4) assms(2) _ _ ok]) (use st(3) in simp_all)
    moreover from st(2,4) have "\<not> references (module_view p recs a') h"
    proof (cases rule: apply_op_cases)
      case (volume req)
      then show ?thesis using volume_unreferenced st(3) by blast
    next
      case verdict
      have "ns_peek_opcode x \<noteq> Some OP_BINDING_RESTORE" using ok by (auto simp: keeps_reserved_def)
      then show ?thesis using outcome_unreferenced [OF verdict(3)] st(3) by blast
    qed (use st(3) in simp)
    ultimately show "?I a'" by blast
  qed (use assms in \<open>simp add: idle_def\<close>)
  then show ?thesis using assms(7) by simp
qed

theorem reserved_id_stays_unreferenced_witness:
  "\<not> references (module_view Minimal [] (fst (apply_log Minimal no_fs [bind_frame OP_BIND (demo_bind 6 [9])]
      (module_on (one_binding 2 meta_none) [fnv1a64 [9]], ())))) (fnv1a64 [9])"
proof -
  let ?m = "module_on (one_binding 2 meta_none) [fnv1a64 [9]]" and ?x = "bind_frame OP_BIND (demo_bind 6 [9])"
  obtain m' s' where log: "apply_log Minimal no_fs [?x] (?m, ()) = (m', s')" by (cases "apply_log Minimal no_fs [?x] (?m, ())")
  have h: "fnv1a64 [9] \<noteq> 0" "fnv1a64 [7] \<noteq> fnv1a64 [9]" by code_simp+
  have idle: "\<not> any_flushing (nm_leases ?m)"
    by (simp add: module_on_def any_flushing_def lease_new_def numeral_2_eq_2 empty_entry_def)
  have un: "\<not> references (module_view Minimal [] ?m) (fnv1a64 [9])"
    using h(2) by (simp add: one_serving(2) references_def the_binding_def)
  have "ns_peek_opcode ?x = Some OP_BIND" using frame_opcodes(1) [of OP_BIND "demo_bind 6 [9]" "[]"] by simp
  then have keep: "\<forall>x\<in>set [?x]. keeps_reserved (fnv1a64 [9]) x" by (simp add: keeps_reserved_def ns_opcodes)
  have mem: "fnv1a64 [9] \<in> set (nm_gc_reserved ?m)" by (simp add: module_on_def)
  show ?thesis
    using reserved_id_stays_unreferenced [OF one_serving(1) [OF meta_none_fits] h(1) mem idle un keep log] log by simp
qed

section \<open>Where the code falls short\<close>

text \<open>A rename moves only what the arena holds: a binding answered from the snapshot alone, an
  evicted one, is refused.\<close>

lemma rename_needs_arena:
  assumes "nm_ok p recs m" "\<not> live_at (module_view p recs m) (dr_root r, dr_to r)" "ns_map (nm_bindings m) (dr_root r, dr_from r) = None"
  shows "\<exists>m' e. rename_arena p r m = (m', Inl e)"
proof -
  have no: "\<exists>e. ns_rename p (nm_bindings a) (dr_root r) (dr_from r) (dr_to r) (dr_new_revision r) = (nm_bindings a, Inl e)"
    if "nm_ok p recs a" "ns_map (nm_bindings a) (dr_root r, dr_from r) = None" "\<not> live_at (module_view p recs a) (dr_root r, dr_to r)" for a
  proof (cases "ns_rename p (nm_bindings a) (dr_root r) (dr_from r) (dr_to r) (dr_new_revision r)")
    case (Pair st' x)
    have ok: "ns_ok p (nm_bindings a)" using that(1) by (simp add: nm_ok_def arena_covered_def)
    show ?thesis
    proof (cases x)
      case (Inl e)
      then show ?thesis using Pair ns_rename_refused by metis
    next
      case (Inr y)
      show ?thesis
      proof (cases "dr_from r = dr_to r")
        case True
        have "bs_kind b = KIND_TOMBSTONE" if "b \<in> set (ns_slots (nm_bindings a))"
          "slot_matches (fnv1a64 (dr_root r)) (fnv1a64 (dr_to r)) (dr_root r) (dr_to r) b" for b
          using live_at_view [OF ok, of "dr_root r" "dr_to r"] that \<open>ns_map (nm_bindings a) (dr_root r, dr_from r) = None\<close> True
          by (auto simp: ns_view_def)
        then show ?thesis using ns_rename_same True by metis
      next
        case False
        then obtain si dst where "si < length (ns_slots (nm_bindings a))" "slot_key (ns_slots (nm_bindings a) ! si) = Some (dr_root r, dr_from r)"
          using ns_rename_success [OF ok False Pair [unfolded Inr]] by blast
        then show ?thesis using ns_map_at [OF ok] that(2) by simp
      qed
    qed
  qed
  obtain e where e: "ns_rename p (nm_bindings m) (dr_root r) (dr_from r) (dr_to r) (dr_new_revision r) = (nm_bindings m, Inl e)"
    using no [OF assms(1,3,2)] by blast
  show ?thesis
  proof (cases "if nm_snap_active m \<and> ns_len (nm_bindings m) = length (ns_slots (nm_bindings m))
      then evict_counted p (Some (dr_root r, dr_from r)) m else None")
    case None
    then show ?thesis using e by (auto simp: rename_arena_def Let_def)
  next
    case (Some m1)
    then have ev: "evict_counted p (Some (dr_root r, dr_from r)) m = Some m1" by (auto split: if_splits)
    note e1 = evict_counted_view [OF assms(1) ev]
    have "ns_map (nm_bindings m1) (dr_root r, dr_from r) = None"
      using e1(4) [of "(dr_root r, dr_from r)"] assms(3) by (cases "ns_map (nm_bindings m1) (dr_root r, dr_from r)") auto
    moreover have "\<not> live_at (module_view p recs m1) (dr_root r, dr_to r)" using assms(2) e1(2) by simp
    ultimately obtain e' where "ns_rename p (nm_bindings m1) (dr_root r) (dr_from r) (dr_to r) (dr_new_revision r) = (nm_bindings m1, Inl e')"
      using no [OF e1(1)] by blast
    then show ?thesis using e Some by (auto simp: rename_arena_def rejecting_def Let_def)
  qed
qed

text \<open>The reservation table marks a free slot with hash 0, which is also the hash of this id: a bind
  of it is refused as reserved while any slot is free.\<close>

lemma zero_hash_refused:
  "fnv1a64 [0xd5, 0x6b, 0xb9, 0x53, 0x42, 0x87, 0x08, 0x36] = 0 \<and>
   (0 \<in> set (nm_gc_reserved m) \<and> db_object_id b = [0xd5, 0x6b, 0xb9, 0x53, 0x42, 0x87, 0x08, 0x36] \<longrightarrow>
      apply_bind p call b m s = (m, s, Inl AfReserved))"
proof -
  have h: "fnv1a64 [0xd5, 0x6b, 0xb9, 0x53, 0x42, 0x87, 0x08, 0x36] = 0" by code_simp
  then show ?thesis by (simp add: apply_bind_def)
qed

end
