(* ===== verification/Namespace_Compact.thy ===== *)
theory Namespace_Compact
  imports Namespace_Record Snapshot_Open WAL_Rotate
begin

text \<open>
  The compactor of \<open>modules/common/mechanics/namespace_pic_body.rs\<close>: the merge of the arena with
  the snapshot generation in use into the next generation, the switch to it, and the rotation of
  the log behind it.  \<open>compactor\<close> holds the fields of \<open>ModuleState\<close> it keeps beside those of
  \<open>ns_module\<close>; the merge cursor's fixed arrays are the key they hold, or \<open>None\<close> while invalid.
\<close>

section \<open>State\<close>

datatype cmp_phase = CMP_IDLE | CMP_OPEN | CMP_MERGE | CMP_FINISH | CMP_REOPEN | CMP_ROTATE

definition CMP_RECORDS_PER_STEP :: nat where "CMP_RECORDS_PER_STEP = 32"
definition CMP_TRIGGER_NUM :: nat where "CMP_TRIGGER_NUM = 3"
definition CMP_TRIGGER_DEN :: nat where "CMP_TRIGGER_DEN = 4"

record compactor =
  cp_phase :: cmp_phase
  cp_running :: bool
  cp_target_slot :: u8
  cp_snap_idx :: nat
  cp_last :: "(bytes \<times> bytes) option"
  cp_writer :: snap_writer
  cp_reopen :: snap_opener
  cp_snap_slot :: u8
  cp_snapshots_written :: u32
  cp_wal_path :: bytes
  cp_wal_fd :: int
  cp_appender :: wal_appender
  cp_rotator :: wal_rotator
  cp_scratch :: bytes

type_synonym 's compacting = "ns_module \<times> compactor \<times> 's"

unbundle bit_operations_syntax

definition emit_tag :: "u64 \<Rightarrow> u8" where
  "emit_tag generation = ucast (generation mod 251 + 1)"

definition snap_record_from_slot :: "profile \<Rightarrow> binding_slot \<Rightarrow> snap_record" where
  "snap_record_from_slot p s =
     (snap_empty p)\<lparr>sr_root_len := bs_root_len s, sr_root_bytes := bs_root_bytes s, sr_path_len := bs_path_len s,
       sr_path_bytes := bs_path_bytes s, sr_revision := bs_revision s, sr_kind := bs_kind s,
       sr_oid_len := bs_object_id_len s, sr_oid_bytes := bs_object_id_bytes s, sr_stamp_ms := bs_stamp_ms s,
       sr_size := bs_size s, sr_ctype_len := bs_ctype_len s, sr_ctype_bytes := bs_ctype_bytes s,
       sr_key_ref_len := bs_key_ref_len s, sr_key_ref_bytes := bs_key_ref_bytes s,
       sr_retain_until_ms := bs_retain_until_ms s, sr_hold := bs_hold s\<rparr>"

definition compaction_abort :: "'s provider \<Rightarrow> compactor \<Rightarrow> 's \<Rightarrow> compactor \<times> 's" where
  "compaction_abort call c s =
     (let (w, s) = sw_abandon call (cp_writer c) s;
          (o1, s) = snap_abandon call (cp_reopen c) s
      in (c\<lparr>cp_writer := w, cp_reopen := o1, cp_phase := CMP_IDLE, cp_running := False\<rparr>, s))"

definition target_path :: "compactor \<Rightarrow> bytes" where
  \<comment> \<open>\<open>snap_path(wal_path, cmp_target_slot, ..)\<close> as both its callers cut it\<close>
  "target_path c = (let (buf, n) = snap_path (cp_wal_path c) (unat (cp_target_slot c)) (replicate SNAP_PATH_MAX 0) in take n buf)"

definition compaction_start :: "ns_module \<Rightarrow> compactor \<Rightarrow> compactor \<times> bool" where
  "compaction_start m c =
     (let st = nm_bindings m; occupied = ns_len st; cap = length (ns_slots st); dirty = dirty_count st;
          meaningful_dirt = dirty * 8 \<ge> cap; wedged = (occupied = cap \<and> dirty > 0);
          c1 = c\<lparr>cp_target_slot := (if nm_snap_active m then cp_snap_slot c XOR 1 else 0)\<rparr>;
          gen = (if nm_snap_active m then on_generation (nm_snap m) + 1 else 1);
          path = target_path c1
      in if cp_wal_path c = [] then (c, False)
         else if occupied * CMP_TRIGGER_DEN < cap * CMP_TRIGGER_NUM then (c, False)
         else if nm_snap_active m \<and> \<not> meaningful_dirt \<and> \<not> wedged then (c, False)
         else
           case sw_start path gen (cp_writer c) of
             (w, False) \<Rightarrow> (c, False)
           | (w, True) \<Rightarrow>
               (c1\<lparr>cp_writer := w, cp_running := True, cp_phase := CMP_OPEN, cp_snap_idx := 0, cp_last := None\<rparr>, True))"

section \<open>The merge\<close>

datatype merge_turn = MtHeld | MtStaged | MtMerged

definition merge_abort :: "'s provider \<Rightarrow> 's compacting \<Rightarrow> 's compacting \<times> merge_turn" where
  "merge_abort call x = (case x of (m, c, s) \<Rightarrow> (case compaction_abort call c s of (c, s) \<Rightarrow> ((m, c, s), MtHeld)))"

definition merge_emit ::
  "profile \<Rightarrow> 's provider \<Rightarrow> snap_record \<Rightarrow> nat option \<Rightarrow> bool \<Rightarrow> bytes \<times> bytes \<Rightarrow> 's compacting \<Rightarrow>
   's compacting \<times> merge_turn" where
  \<comment> \<open>stage the record; tag the slot it is from, pass the old record it is or supersedes, move the cursor\<close>
  "merge_emit p call r from_slot consumed key x =
     (case x of (m, c, s) \<Rightarrow>
        case sw_stage_record p r (cp_writer c) of
          (w, False) \<Rightarrow> merge_abort call (m, c\<lparr>cp_writer := w\<rparr>, s)
        | (w, True) \<Rightarrow>
            ((case from_slot of
                None \<Rightarrow> m
              | Some i \<Rightarrow> m\<lparr>nm_bindings := mark_emitted (nm_bindings m) i (emit_tag (sw_generation w))\<rparr>,
              c\<lparr>cp_writer := w, cp_snap_idx := (if consumed then cp_snap_idx c + 1 else cp_snap_idx c),
                cp_last := Some key\<rparr>, s), MtStaged))"

definition merge_pick ::
  "profile \<Rightarrow> 's provider \<Rightarrow> nat option \<Rightarrow> snap_record option \<Rightarrow> 's compacting \<Rightarrow> 's compacting \<times> merge_turn" where
  \<comment> \<open>the \<open>match (arena_next, old_next)\<close>\<close>
  "merge_pick p call arena_next old x =
     (case x of (m, c, s) \<Rightarrow>
        case arena_next of
          None \<Rightarrow>
            (case old of
               None \<Rightarrow> ((m, c\<lparr>cp_phase := CMP_FINISH\<rparr>, s), MtMerged)
             | Some r \<Rightarrow> merge_emit p call r None True (sr_root r, sr_path p r) x)
        | Some i \<Rightarrow>
            if i \<ge> length (ns_slots (nm_bindings m)) then merge_abort call x
            else
              let slot = ns_slots (nm_bindings m) ! i;
                  order = (case old of Some r \<Rightarrow> cmp_key p r (slot_root slot) (slot_path slot) | None \<Rightarrow> Greater)
              in if order \<noteq> Less then
                   merge_emit p call (snap_record_from_slot p slot) (Some i) (order = Equal) (slot_root slot, slot_path slot) x
                 else case old of
                        Some r \<Rightarrow> merge_emit p call r None True (sr_root r, sr_path p r) x
                      | None \<Rightarrow> (x, MtStaged))"

definition merge_old :: "profile \<Rightarrow> 's provider \<Rightarrow> 's compacting \<Rightarrow> 's \<times> snap_record option snap_read" where
  \<comment> \<open>the next record of the generation in use\<close>
  "merge_old p call x =
     (case x of (m, c, s) \<Rightarrow>
        if nm_snap_active m \<and> cp_snap_idx c < unat (on_count (nm_snap m)) then
          (case snap_read_at p call (nm_snap m) (cp_snap_idx c) s of
             (s, SrReady r) \<Rightarrow> (s, SrReady (Some r))
           | (s, SrPending) \<Rightarrow> (s, SrPending)
           | (s, SrFailed) \<Rightarrow> (s, SrFailed))
        else (s, SrReady None))"

definition merge_one :: "profile \<Rightarrow> 's provider \<Rightarrow> 's compacting \<Rightarrow> 's compacting \<times> merge_turn" where
  \<comment> \<open>one turn of the loop of \<open>merge_slice\<close>\<close>
  "merge_one p call x =
     (case x of (m, c, s) \<Rightarrow>
        case sw_flush p call (cp_writer c) s of
          (w, s, WrPending) \<Rightarrow> ((m, c\<lparr>cp_writer := w\<rparr>, s), MtHeld)
        | (w, s, WrFailed) \<Rightarrow> merge_abort call (m, c\<lparr>cp_writer := w\<rparr>, s)
        | (w, s, WrReady) \<Rightarrow>
            let c = c\<lparr>cp_writer := w\<rparr>;
                arena_next = min_key_above (nm_bindings m) (cp_last c)
            in case merge_old p call (m, c, s) of
                 (s, SrPending) \<Rightarrow> ((m, c, s), MtHeld)
               | (s, SrFailed) \<Rightarrow> merge_abort call (m, c, s)
               | (s, SrReady old) \<Rightarrow> merge_pick p call arena_next old (m, c, s))"

fun merge_turns :: "profile \<Rightarrow> 's provider \<Rightarrow> nat \<Rightarrow> 's compacting \<Rightarrow> 's compacting \<times> bool" where
  "merge_turns p call 0 (m, c, s) =
     (case sw_flush p call (cp_writer c) s of
        (w, s, WrFailed) \<Rightarrow> (fst (merge_abort call (m, c\<lparr>cp_writer := w\<rparr>, s)), False)
      | (w, s, _) \<Rightarrow> ((m, c\<lparr>cp_writer := w\<rparr>, s), False))"
| "merge_turns p call (Suc n) x =
     (case merge_one p call x of
        (x, MtHeld) \<Rightarrow> (x, False)
      | (x, MtMerged) \<Rightarrow> (x, True)
      | (x, MtStaged) \<Rightarrow> merge_turns p call n x)"

definition merge_slice :: "profile \<Rightarrow> 's provider \<Rightarrow> 's compacting \<Rightarrow> 's compacting \<times> bool" where
  "merge_slice p call x = merge_turns p call CMP_RECORDS_PER_STEP x"

section \<open>The seeds of the rotated log\<close>

definition seed_binding :: "profile \<Rightarrow> ns_state \<Rightarrow> nat \<Rightarrow> bytes \<Rightarrow> bytes \<times> nat option" where
  "seed_binding p st i buf =
     (if i \<ge> length (ns_slots st) then (buf, None)
      else
        let slot = ns_slots st ! i
        in if \<not> bs_occupied slot \<or> bs_snapshotted slot \<noteq> 0 then (buf, Some 0)
           else
             case encode_binding_restore p buf
                    \<lparr>db_root = slot_root slot, db_path = slot_path slot, db_object_id = slot_object_id slot,
                     db_kind = bs_kind slot, db_revision = bs_revision slot,
                     db_meta = wire_meta (slot_meta slot), db_cond = COND_ANY, db_expect = 0\<rparr> of
               Inl _ \<Rightarrow> (buf, None)
             | Inr (n, out) \<Rightarrow> (out, Some n))"

definition seed_lease :: "profile \<Rightarrow> lease_table \<Rightarrow> nat \<Rightarrow> bytes \<Rightarrow> bytes \<times> nat option" where
  "seed_lease p t i buf =
     (if i \<ge> length (lt_entries t) then (buf, None)
      else
        let e = lt_entries t ! i
        in if le_used e = 0 then (buf, Some 0)
           else
             case encode_lease_restore p buf
                    \<lparr>ds_root = lease_root e, ds_path = lease_path p e, ds_holder = le_holder e, ds_fence = le_fence e,
                     ds_expires_at_ms = le_expires_at e, ds_stamp_ms = le_stamp e, ds_live = (le_live e \<noteq> 0),
                     ds_fence_floor = lt_fence_floor t, ds_stamp_floor = lt_stamp_floor t\<rparr> of
               Inl _ \<Rightarrow> (buf, None)
             | Inr (n, out) \<Rightarrow>
                 if le_flushing e \<noteq> 0 then
                   (case mark_lease_restore_flushing (take n out) of (r, ok) \<Rightarrow> (r @ drop n out, if ok then Some n else None))
                 else (out, Some n))"

definition rotation_seed :: "profile \<Rightarrow> ns_module \<Rightarrow> unit seeder" where
  \<comment> \<open>the closure handed to \<open>rotate_seeded\<close>: the leases, then the bindings\<close>
  "rotation_seed p m u i buf =
     (let n = length (lt_entries (nm_leases m));
          (buf, res) = (if i < n then seed_lease p (nm_leases m) i buf else seed_binding p (nm_bindings m) (i - n) buf)
      in (u, buf, res))"

definition rotation_count :: "ns_module \<Rightarrow> nat" where
  "rotation_count m = length (lt_entries (nm_leases m)) + length (ns_slots (nm_bindings m))"

section \<open>The step\<close>

definition switch_to :: "'s provider \<Rightarrow> open_snapshot \<Rightarrow> 's compacting \<Rightarrow> 's compacting \<times> bool" where
  \<comment> \<open>the \<open>CMP_REOPEN\<close> arm once the new generation has opened\<close>
  "switch_to call sn x =
     (case x of (m, c, s) \<Rightarrow>
        let s = (if on_fd (nm_snap m) \<ge> 0 then fst (wal_close call (on_fd (nm_snap m)) s) else s);
            m = m\<lparr>nm_snap_active := True, nm_snap := sn,
                  nm_bindings := finalize_emitted (nm_bindings m) (emit_tag (sw_generation (cp_writer c)))\<rparr>;
            c = c\<lparr>cp_snap_slot := cp_target_slot c, cp_snapshots_written := cp_snapshots_written c + 1\<rparr>
        in if cp_wal_fd c < 0 then ((m, c\<lparr>cp_phase := CMP_IDLE, cp_running := False\<rparr>, s), False)
           else ((m, c\<lparr>cp_phase := CMP_ROTATE\<rparr>, s), True))"

definition rotate_turn :: "profile \<Rightarrow> 's provider \<Rightarrow> 's compacting \<Rightarrow> 's compacting \<times> bool" where
  \<comment> \<open>the \<open>CMP_ROTATE\<close> arm\<close>
  "rotate_turn p call x =
     (case x of (m, c, s) \<Rightarrow>
        case rotate_seeded call (cp_wal_fd c) (cp_wal_path c) (rotation_count m) (rotation_seed p m)
               (cp_rotator c, cp_scratch c, (), s) of
          ((w, scratch, _, s), res) \<Rightarrow>
            let c = c\<lparr>cp_rotator := w, cp_scratch := scratch\<rparr>; ended = c\<lparr>cp_phase := CMP_IDLE, cp_running := False\<rparr>
            in case res of
                 RoPending \<Rightarrow> ((m, c, s), False)
               | RoRotated fd \<Rightarrow> ((m, ended\<lparr>cp_wal_fd := fd, cp_appender := appender_reset (cp_appender c)\<rparr>, s), False)
               | RoSkipped \<Rightarrow> ((m, ended, s), False)
               | RoLost \<Rightarrow> ((m, ended\<lparr>cp_wal_fd := - 1, cp_appender := appender_reset (cp_appender c)\<rparr>, s), False))"

definition compaction_turn :: "profile \<Rightarrow> 's provider \<Rightarrow> 's compacting \<Rightarrow> 's compacting \<times> bool" where
  \<comment> \<open>one turn of the loop of \<open>compaction_step\<close>, and whether it goes on\<close>
  "compaction_turn p call x =
     (case x of (m, c, s) \<Rightarrow>
        case cp_phase c of
          CMP_IDLE \<Rightarrow> (case compaction_start m c of (c, go) \<Rightarrow> ((m, c, s), go))
        | CMP_OPEN \<Rightarrow>
            (case sw_poll_open p call (cp_writer c) s of
               (w, s, WrPending) \<Rightarrow> ((m, c\<lparr>cp_writer := w\<rparr>, s), False)
             | (w, s, WrFailed) \<Rightarrow> (fst (merge_abort call (m, c\<lparr>cp_writer := w\<rparr>, s)), False)
             | (w, s, WrReady) \<Rightarrow> ((m, c\<lparr>cp_writer := w, cp_phase := CMP_MERGE\<rparr>, s), True))
        | CMP_MERGE \<Rightarrow> merge_slice p call x
        | CMP_FINISH \<Rightarrow>
            (case sw_poll_finish p call (cp_writer c) s of
               (w, s, WrPending) \<Rightarrow> ((m, c\<lparr>cp_writer := w\<rparr>, s), False)
             | (w, s, WrFailed) \<Rightarrow> (fst (merge_abort call (m, c\<lparr>cp_writer := w\<rparr>, s)), False)
             | (w, s, WrReady) \<Rightarrow> ((m, c\<lparr>cp_writer := w, cp_phase := CMP_REOPEN\<rparr>, s), True))
        | CMP_REOPEN \<Rightarrow>
            (case snap_open_loop p call (target_path c) (cp_reopen c) s of
               (w, s, SoPending) \<Rightarrow> ((m, c\<lparr>cp_reopen := w\<rparr>, s), False)
             | (w, s, SoInvalid) \<Rightarrow> (fst (merge_abort call (m, c\<lparr>cp_reopen := w\<rparr>, s)), False)
             | (w, s, SoOpened sn) \<Rightarrow> switch_to call sn (m, c\<lparr>cp_reopen := w\<rparr>, s))
        | CMP_ROTATE \<Rightarrow> rotate_turn p call x)"

definition cmp_rank :: "cmp_phase \<Rightarrow> nat" where
  "cmp_rank ph = (case ph of CMP_IDLE \<Rightarrow> 6 | CMP_OPEN \<Rightarrow> 5 | CMP_MERGE \<Rightarrow> 4 | CMP_FINISH \<Rightarrow> 3 | CMP_REOPEN \<Rightarrow> 2 | CMP_ROTATE \<Rightarrow> 1)"

lemma merge_one_merged: "merge_one p call x = (x', MtMerged) \<Longrightarrow> cp_phase (fst (snd x')) = CMP_FINISH"
  by (auto simp: merge_one_def merge_pick_def merge_emit_def merge_abort_def Let_def
      split: prod.splits write_poll.splits snap_read.splits option.splits if_splits bool.splits)

lemma merge_turns_true: "merge_turns p call n x = (x', True) \<Longrightarrow> cp_phase (fst (snd x')) = CMP_FINISH"
proof (induction n arbitrary: x)
  case 0
  then show ?case by (cases x) (auto split: prod.splits write_poll.splits)
next
  case (Suc n)
  then show ?case by (auto split: prod.splits merge_turn.splits dest: merge_one_merged)
qed

lemma compaction_turn_ranks:
  assumes "compaction_turn p call x = (x', True)"
  shows "cmp_rank (cp_phase (fst (snd x'))) < cmp_rank (cp_phase (fst (snd x)))"
proof -
  obtain m c s where x: "x = (m, c, s)" by (cases x)
  show ?thesis
  proof (cases "cp_phase c")
    case CMP_MERGE
    then show ?thesis using assms by (simp add: compaction_turn_def x merge_slice_def merge_turns_true cmp_rank_def)
  qed (use assms in \<open>auto simp: compaction_turn_def x cmp_rank_def compaction_start_def switch_to_def rotate_turn_def Let_def
      split: prod.splits bool.splits write_poll.splits snap_open_poll.splits rotate_outcome.splits if_splits\<close>)
qed

function compaction_step :: "profile \<Rightarrow> 's provider \<Rightarrow> 's compacting \<Rightarrow> 's compacting" where
  "compaction_step p call x =
     (case compaction_turn p call x of
        (x, True) \<Rightarrow> compaction_step p call x
      | (x, False) \<Rightarrow> x)"
  by pat_completeness auto
termination
  by (relation "measure (\<lambda>(p, call, x). cmp_rank (cp_phase (fst (snd x))))") (auto dest: compaction_turn_ranks [OF sym])

declare compaction_step.simps [simp del]

end
