(* ===== verification/Namespace_Merge.thy ===== *)
theory Namespace_Merge
  imports Namespace_Compact Namespace_Scan
begin

text \<open>
  What the merge writes.  The records staged so far carry every key the cursor has passed: a
  slot marked as in a generation, the old one or the new, has its view there, and a key without
  a slot has what the old generation says.  Records applied between two slices keep that.
\<close>

section \<open>Records from slots\<close>

lemma record_from_slot:
  assumes "slot_ok p s" "bs_hold s \<le> 1"
  shows "snap_ok p (snap_record_from_slot p s)" "snap_key p (snap_record_from_slot p s) = (slot_root s, slot_path s)"
    and "snap_kview (snap_record_from_slot p s) = slot_kview s"
proof -
  have len: "length (bs_path_bytes s) = MAX_PATH p" using assms(1) by (simp add: slot_ok_def)
  show "snap_ok p (snap_record_from_slot p s)"
    using assms by (simp add: snap_ok_def snap_record_from_slot_def snap_empty_def slot_ok_def)
  show "snap_key p (snap_record_from_slot p s) = (slot_root s, slot_path s)"
    using assms by (simp add: snap_key_def sr_root_def sr_path_def snap_record_from_slot_def slot_root_def slot_path_def slot_ok_def)
  show "snap_kview (snap_record_from_slot p s) = slot_kview s"
    using assms by (simp add: snap_kview_def slot_kview_def snap_meta_def slot_meta_def sr_oid_def sr_content_type_def sr_key_ref_def
        snap_record_from_slot_def slot_object_id_def slot_content_type_def slot_key_ref_def slot_ok_def Let_def)
qed

lemma emit_tag_nonzero: "emit_tag g \<noteq> 0"
proof -
  have m: "unat (g mod 251) < 251" by (simp add: unat_mod)
  then have "unat (g mod 251 + 1) = unat (g mod 251) + 1" by (subst unat_plus_exact) simp_all
  then have "unat (emit_tag g) = unat (g mod 251) + 1"
    using m by (simp add: emit_tag_def unsigned_ucast_eq take_bit_nat_eq_self)
  then show ?thesis by auto
qed

section \<open>Marks in the table\<close>

lemma marked_slot [simp]:
  "slot_key (s\<lparr>bs_cmp_emitted := t\<rparr>) = slot_key s" "slot_kview (s\<lparr>bs_cmp_emitted := t\<rparr>) = slot_kview s"
  "slot_key (s\<lparr>bs_snapshotted := n\<rparr>) = slot_key s" "slot_kview (s\<lparr>bs_snapshotted := n\<rparr>) = slot_kview s"
  by (simp_all add: slot_key_def slot_root_def slot_path_def slot_kview_def slot_object_id_def slot_meta_def slot_content_type_def
      slot_key_ref_def Let_def)

lemma mark_emitted_map:
  assumes ok: "ns_ok p st" and i: "i < length (ns_slots st)" "slot_key (ns_slots st ! i) = Some k"
  shows "ns_map (mark_emitted st i tag) = (ns_map st)(k \<mapsto> (ns_slots st ! i)\<lparr>bs_cmp_emitted := tag\<rparr>)"
proof -
  have g: "slot_ok p (ns_slots st ! i)" using ok i(1) arena_ok_wf unfolding ns_ok_def by blast
  have "slot_ok p ((ns_slots st ! i)\<lparr>bs_cmp_emitted := tag\<rparr>)"
    using g by (simp add: slot_ok_def slot_root_def slot_path_def slot_object_id_def Let_def)
  moreover have "slot_key ((ns_slots st ! i)\<lparr>bs_cmp_emitted := tag\<rparr>) = Some k"
    using i(2) by simp
  ultimately show ?thesis
    using ns.put_map [OF ok [unfolded ns_ok_def] i(1)] i by (simp add: mark_emitted_def ns_map_def)
qed

lemma finalize_emitted_map:
  assumes ok: "ns_ok p st"
  shows "ns_map (finalize_emitted st tag) k =
    map_option (\<lambda>s. if bs_cmp_emitted s = tag then s\<lparr>bs_snapshotted := 1, bs_cmp_emitted := 0\<rparr> else s) (ns_map st k)"
proof -
  note ok' = finalize_emitted_ok(1) [OF ok, of tag]
  have len: "length (ns_slots (finalize_emitted st tag)) = length (ns_slots st)" by (simp add: finalize_emitted_def)
  have nth: "ns_slots (finalize_emitted st tag) ! i =
      (if bs_occupied (ns_slots st ! i) \<and> bs_cmp_emitted (ns_slots st ! i) = tag
       then (ns_slots st ! i)\<lparr>bs_snapshotted := 1, bs_cmp_emitted := 0\<rparr> else ns_slots st ! i)" if "i < length (ns_slots st)" for i
    using that by (simp add: finalize_emitted_def)
  have key: "slot_key (ns_slots (finalize_emitted st tag) ! i) = slot_key (ns_slots st ! i)" if "i < length (ns_slots st)" for i
    using that by (simp add: nth)
  show ?thesis
  proof (cases "ns_map st k")
    case None
    then have "ns_map (finalize_emitted st tag) k = None"
      using ok ok' len key by (simp add: ns_map_def ns_ok_def ns.map_None)
    with None show ?thesis by simp
  next
    case (Some s)
    then obtain i where i: "i < length (ns_slots st)" "slot_key (ns_slots st ! i) = Some k" "ns_slots st ! i = s"
      by (rule ns_map_SomeE [OF ok])
    then have "bs_occupied s" by (auto simp: slot_key_def split: if_splits)
    moreover have "ns_map (finalize_emitted st tag) k = Some (ns_slots (finalize_emitted st tag) ! i)"
      using ns_map_at [OF ok', of i k] i len key by simp
    ultimately show ?thesis using Some i nth by simp
  qed
qed

section \<open>What the staged records say\<close>

definition out_view :: "profile \<Rightarrow> snap_record list \<Rightarrow> kmap" where
  "out_view p out k = map_option snap_kview (snap_find p k out)"

definition in_use :: "ns_module \<Rightarrow> snap_record list \<Rightarrow> snap_record list" where
  "in_use m recs = (if nm_snap_active m then recs else [])"

lemma below_in_use: "below_view p recs m = out_view p (in_use m recs)"
  by (auto simp: below_view_def out_view_def in_use_def snap_find_def fun_eq_iff)

lemma out_view_snoc:
  "out_view p (out @ [r]) k =
     (case out_view p out k of Some v \<Rightarrow> Some v | None \<Rightarrow> if snap_key p r = k then Some (snap_kview r) else None)"
  by (induction out) (auto simp: out_view_def snap_find_def)

lemma out_view_None: "out_view p out k = None \<longleftrightarrow> (\<forall>r\<in>set out. snap_key p r \<noteq> k)"
  by (auto simp: out_view_def snap_find_def find_None_iff)

lemma out_view_at: "snap_sorted p out \<Longrightarrow> i < length out \<Longrightarrow> out_view p out (snap_key p (out ! i)) = Some (snap_kview (out ! i))"
  using snap_find_at by (simp add: out_view_def)

definition carried :: "kmap \<Rightarrow> kmap \<Rightarrow> u8 \<Rightarrow> ns_state \<Rightarrow> bytes \<times> bytes \<Rightarrow> bool" where
  "carried below new tag st k \<longleftrightarrow>
     (case ns_map st k of
        Some s \<Rightarrow> bs_snapshotted s \<noteq> 0 \<or> bs_cmp_emitted s = tag \<longrightarrow> new k = Some (slot_kview s)
      | None \<Rightarrow> new k = below k)"

definition marks_covered :: "kmap \<Rightarrow> ns_state \<Rightarrow> bool" where
  "marks_covered below st \<longleftrightarrow> (\<forall>k s. ns_map st k = Some s \<longrightarrow> bs_snapshotted s \<noteq> 0 \<longrightarrow> below k = Some (slot_kview s))"

lemma covered_marks: "arena_covered p below st \<Longrightarrow> marks_covered below st"
  unfolding arena_covered_def marks_covered_def by blast

lemma carried_moves:
  assumes "moves st st'" "tag \<noteq> 0" "marks_covered below st" "carried below new tag st k"
  shows "carried below new tag st' k"
proof -
  have "marks_covered below st' \<and> carried below new tag st' k"
    using assms
  proof (induction rule: moves.induct)
    case (moves_put st st1 st2 k' s)
    then have "marks_covered below st1" "carried below new tag st1 k" by simp_all
    then show ?case
      using moves_put(2,3,5) unfolding marks_covered_def carried_def fresh_slot_def by (auto split: if_splits)
  next
    case (moves_evict st st1 k' s st2)
    then have c: "marks_covered below st1" "carried below new tag st1 k" by simp_all
    then have b: "below k' = Some (slot_kview s)" using moves_evict(2,3) unfolding marks_covered_def by blast
    have "marks_covered below st2"
      using c(1) moves_evict(4) unfolding marks_covered_def by simp
    then show ?case using c(2) b moves_evict(2-4) by (auto simp: carried_def)
  qed simp
  then show ?thesis by simp
qed

section \<open>The invariant of the merge\<close>

definition passed :: "compactor \<Rightarrow> bytes \<times> bytes \<Rightarrow> bool" where
  "passed c k \<longleftrightarrow> (case cp_last c of None \<Rightarrow> False | Some a \<Rightarrow> k \<le> a)"

definition merge_inv :: "profile \<Rightarrow> snap_record list \<Rightarrow> ns_module \<Rightarrow> compactor \<Rightarrow> snap_record list \<Rightarrow> bool" where
  "merge_inv p recs m c out \<longleftrightarrow>
     snap_sorted p out \<and> (\<forall>r\<in>set out. snap_ok p r \<and> passed c (snap_key p r)) \<and>
     cp_snap_idx c \<le> length (in_use m recs) \<and>
     (\<forall>i < length (in_use m recs). i < cp_snap_idx c \<longleftrightarrow> passed c (snap_key p (in_use m recs ! i))) \<and>
     (\<forall>k. passed c k \<longrightarrow>
        carried (below_view p recs m) (out_view p out) (emit_tag (sw_generation (cp_writer c))) (nm_bindings m) k)"

definition merged_inv :: "profile \<Rightarrow> snap_record list \<Rightarrow> ns_module \<Rightarrow> compactor \<Rightarrow> snap_record list \<Rightarrow> bool" where
  "merged_inv p recs m c out \<longleftrightarrow> snap_sorted p out \<and> (\<forall>r\<in>set out. snap_ok p r) \<and>
     (\<forall>k. carried (below_view p recs m) (out_view p out) (emit_tag (sw_generation (cp_writer c))) (nm_bindings m) k)"

lemma merge_inv_start: "cp_last c = None \<Longrightarrow> cp_snap_idx c = 0 \<Longrightarrow> merge_inv p recs m c []"
  by (simp add: merge_inv_def passed_def snap_sorted_def)

lemma unpassed_unstaged:
  assumes "merge_inv p recs m c out" "\<not> passed c k"
  shows "out_view p out k = None"
proof -
  have "\<forall>r\<in>set out. passed c (snap_key p r)" using assms(1) by (simp add: merge_inv_def)
  then show ?thesis using assms(2) unfolding out_view_None by metis
qed

lemma unpassed_below:
  assumes inv: "merge_inv p recs m c out" and sorted: "snap_sorted p (in_use m recs)" and "\<not> passed c k"
    and ahead: "cp_snap_idx c < length (in_use m recs) \<Longrightarrow> k < snap_key p (in_use m recs ! cp_snap_idx c)"
  shows "below_view p recs m k = None"
  unfolding below_in_use out_view_None
proof
  fix r assume "r \<in> set (in_use m recs)"
  then obtain j where j: "j < length (in_use m recs)" "in_use m recs ! j = r" by (auto simp: in_set_conv_nth)
  show "snap_key p r \<noteq> k"
  proof (cases "j < cp_snap_idx c")
    case True
    then have "passed c (snap_key p r)" using inv j unfolding merge_inv_def by blast
    then show ?thesis using assms(3) by blast
  next
    case False
    then have "snap_key p (in_use m recs ! cp_snap_idx c) \<le> snap_key p r" using sorted_below [OF sorted _ j(1)] j by simp
    then show ?thesis using ahead False j(1) by auto
  qed
qed

text \<open>One record: the least key not yet passed, from either side.\<close>

lemma merge_advance:
  assumes inv: "merge_inv p recs m c out" and sorted: "snap_sorted p (in_use m recs)"
    and r: "snap_ok p r" "snap_key p r = k" "\<not> passed c k"
    and arena: "\<And>k'. \<not> passed c k' \<Longrightarrow> k' < k \<Longrightarrow> ns_map (nm_bindings m) k' = None"
    and ahead: "cp_snap_idx c < length (in_use m recs) \<Longrightarrow> k \<le> snap_key p (in_use m recs ! cp_snap_idx c)"
    and m': "same_below m m'" "\<And>k'. k' \<noteq> k \<Longrightarrow> ns_map (nm_bindings m') k' = ns_map (nm_bindings m) k'"
    and here: "carried (below_view p recs m) (out_view p (out @ [r])) (emit_tag (sw_generation (cp_writer c'))) (nm_bindings m') k"
    and c': "cp_last c' = Some k" "sw_generation (cp_writer c') = sw_generation (cp_writer c)"
      "cp_snap_idx c' = (if cp_snap_idx c < length (in_use m recs) \<and> snap_key p (in_use m recs ! cp_snap_idx c) = k
         then cp_snap_idx c + 1 else cp_snap_idx c)"
  shows "merge_inv p recs m' c' (out @ [r])"
proof -
  note i = inv [unfolded merge_inv_def]
  have same: "in_use m' recs = in_use m recs" "below_view p recs m' = below_view p recs m"
    using m'(1) by (simp_all add: in_use_def same_below_def below_in_use)
  have above: "a < k" if "passed c a" for a
    using that r(3) by (auto simp: passed_def split: option.splits)
  have p': "passed c' a \<longleftrightarrow> a \<le> k" for a by (simp add: passed_def c'(1))
  have "snap_sorted p (out @ [r])" using i above r(2) by (auto simp: snap_sorted_def sorted_wrt_append)
  moreover have "\<forall>x\<in>set (out @ [r]). snap_ok p x \<and> passed c' (snap_key p x)"
  proof -
    have "passed c' (snap_key p x)" if "x \<in> set out" for x
      using i that above [of "snap_key p x"] p' [of "snap_key p x"] by (simp add: less_imp_le)
    then show ?thesis using i r p' [of k] by auto
  qed
  moreover have "j < cp_snap_idx c' \<longleftrightarrow> passed c' (snap_key p (in_use m recs ! j))" if j: "j < length (in_use m recs)" for j
  proof (cases "j < cp_snap_idx c")
    case True
    then have "passed c (snap_key p (in_use m recs ! j))" using i j by blast
    then have "snap_key p (in_use m recs ! j) < k" by (rule above)
    then show ?thesis using True p' c'(3) by (simp add: less_imp_le)
  next
    case False
    then have le: "k \<le> snap_key p (in_use m recs ! cp_snap_idx c)" "snap_key p (in_use m recs ! cp_snap_idx c) \<le> snap_key p (in_use m recs ! j)"
      using ahead sorted_below [OF sorted _ j] j by simp_all
    have "snap_key p (in_use m recs ! cp_snap_idx c) < snap_key p (in_use m recs ! j)" if "j \<noteq> cp_snap_idx c"
      using False that sorted j by (simp add: snap_sorted_def sorted_wrt_iff_nth_less)
    then have "snap_key p (in_use m recs ! j) \<le> k \<longleftrightarrow> j = cp_snap_idx c \<and> snap_key p (in_use m recs ! j) = k"
      using le by fastforce
    then show ?thesis using False p' [of "snap_key p (in_use m recs ! j)"] c'(3) j by (auto simp: less_Suc_eq)
  qed
  moreover have "cp_snap_idx c' \<le> length (in_use m recs)" using i c'(3) by auto
  moreover have "carried (below_view p recs m) (out_view p (out @ [r])) (emit_tag (sw_generation (cp_writer c'))) (nm_bindings m') a"
    if a: "passed c' a" for a
  proof (cases "a = k")
    case False
    then have lt: "a < k" using a p' by auto
    have new: "out_view p (out @ [r]) a = out_view p out a" using False r(2) by (simp add: out_view_snoc split: option.split)
    show ?thesis
    proof (cases "passed c a")
      case True
      then have "carried (below_view p recs m) (out_view p out) (emit_tag (sw_generation (cp_writer c))) (nm_bindings m) a"
        using i by blast
      then show ?thesis by (auto simp: carried_def new m'(2) [OF False] c'(2) split: option.splits)
    next
      case np: False
      have "out_view p out a = None" by (rule unpassed_unstaged [OF inv np])
      moreover have "below_view p recs m a = None"
        by (rule unpassed_below [OF inv sorted np]) (use lt ahead in \<open>auto intro: less_le_trans\<close>)
      ultimately show ?thesis using arena [OF np lt] m'(2) [OF False] new by (simp add: carried_def)
    qed
  qed (use here in simp)
  ultimately show ?thesis by (simp add: merge_inv_def same)
qed

section \<open>Marks and the view\<close>

lemma mark_covered:
  assumes cov: "arena_covered p below st" and i: "i < length (ns_slots st)" "slot_key (ns_slots st ! i) = Some k"
  shows "arena_covered p below (mark_emitted st i tag)" "arena_over (mark_emitted st i tag) below = arena_over st below"
proof -
  have ok: "ns_ok p st" using cov by (simp add: arena_covered_def)
  note m = mark_emitted_map [OF ok i, of tag]
  have at: "ns_map st k = Some (ns_slots st ! i)" by (rule ns_map_at [OF ok i])
  show "arena_covered p below (mark_emitted st i tag)"
    using cov at mark_emitted_ok(1) [OF ok, of i tag] unfolding arena_covered_def m by (auto split: if_splits)
  show "arena_over (mark_emitted st i tag) below = arena_over st below"
    using at by (auto simp: arena_over_def m fun_eq_iff)
qed

lemma finalize_covered:
  assumes cov: "arena_covered p below st" and carried: "\<And>k. carried below new tag st k"
  shows "arena_covered p new (finalize_emitted st tag)" "arena_over (finalize_emitted st tag) new = arena_over st below"
proof -
  have ok: "ns_ok p st" using cov by (simp add: arena_covered_def)
  note m = finalize_emitted_map [OF ok, of tag]
  have "bs_locked s = 0 \<and> bs_hold s \<le> 1 \<and> (bs_snapshotted s \<noteq> 0 \<longrightarrow> new k = Some (slot_kview s))"
    if "ns_map (finalize_emitted st tag) k = Some s" for k s
  proof -
    obtain s0 where s0: "ns_map st k = Some s0"
      "s = (if bs_cmp_emitted s0 = tag then s0\<lparr>bs_snapshotted := 1, bs_cmp_emitted := 0\<rparr> else s0)"
      using \<open>ns_map (finalize_emitted st tag) k = Some s\<close> by (auto simp: m)
    moreover have "bs_locked s0 = 0" "bs_hold s0 \<le> 1" using cov s0(1) unfolding arena_covered_def by blast+
    ultimately show ?thesis using carried [of k] by (auto simp: carried_def)
  qed
  then show "arena_covered p new (finalize_emitted st tag)"
    using finalize_emitted_ok(1) [OF ok] by (simp add: arena_covered_def)
  have "arena_over (finalize_emitted st tag) new k = arena_over st below k" for k
    using carried [of k] by (auto simp: arena_over_def m carried_def split: option.splits)
  then show "arena_over (finalize_emitted st tag) new = arena_over st below" ..
qed

section \<open>One turn of the merge\<close>

lemma unpassed_iff: "\<not> passed c k \<longleftrightarrow> (\<forall>a. cp_last c = Some a \<longrightarrow> a < k)"
  by (auto simp: passed_def split: option.split)

definition old_next :: "ns_module \<Rightarrow> snap_record list \<Rightarrow> compactor \<Rightarrow> snap_record option" where
  "old_next m recs c = (if cp_snap_idx c < length (in_use m recs) then Some (in_use m recs ! cp_snap_idx c) else None)"

definition staged_turn ::
  "profile \<Rightarrow> snap_record list \<Rightarrow> ns_module \<Rightarrow> compactor \<Rightarrow> snap_record list \<Rightarrow> ns_module \<Rightarrow> compactor \<Rightarrow> bool" where
  "staged_turn p recs m c out m' c' \<longleftrightarrow>
     (\<exists>r w from_slot. snap_ok p r \<and> sw_stage_record p r (cp_writer c) = (w, True) \<and>
        merge_inv p recs m' c' (out @ [r]) \<and> nm_ok p recs m' \<and> module_view p recs m' = module_view p recs m \<and>
        m' = m\<lparr>nm_bindings := from_slot\<rparr> \<and> c' = c\<lparr>cp_writer := w, cp_snap_idx := cp_snap_idx c', cp_last := cp_last c'\<rparr>)"

lemma stage_record_generation: "sw_stage_record p r w = (w', ok) \<Longrightarrow> sw_generation w' = sw_generation w \<and> (\<not> ok \<longrightarrow> w' = w)"
  by (auto simp: sw_stage_record_def split: if_splits prod.splits)

lemma emit_old:
  assumes inv: "merge_inv p recs m c out" and sorted: "snap_sorted p (in_use m recs)" and nm: "nm_ok p recs m"
    and old: "old_next m recs c = Some r" and r: "snap_ok p r"
    and arena: "\<And>k. \<not> passed c k \<Longrightarrow> k \<le> snap_key p r \<Longrightarrow> ns_map (nm_bindings m) k = None"
    and run: "merge_emit p call r None True (sr_root r, sr_path p r) (m, c, s) = ((m', c', s'), t)"
  shows "(t = MtStaged \<and> s' = s \<and> staged_turn p recs m c out m' c') \<or> ((m', c', s'), t) = merge_abort call (m, c, s)"
proof -
  obtain w ok where st: "sw_stage_record p r (cp_writer c) = (w, ok)" by (cases "sw_stage_record p r (cp_writer c)")
  note g = stage_record_generation [OF st]
  have key: "(sr_root r, sr_path p r) = snap_key p r" by (simp add: snap_key_def)
  have idx: "cp_snap_idx c < length (in_use m recs)" "in_use m recs ! cp_snap_idx c = r"
    using old by (simp_all add: old_next_def split: if_splits)
  then have np: "\<not> passed c (snap_key p r)" using inv unfolding merge_inv_def by blast
  show ?thesis
  proof (cases ok)
    case False
    then show ?thesis using run st g by (simp add: merge_emit_def)
  next
    case True
    define c1 where "c1 = c\<lparr>cp_writer := w, cp_snap_idx := cp_snap_idx c + 1, cp_last := Some (snap_key p r)\<rparr>"
    have r1: "m' = m" "c' = c1" "s' = s" "t = MtStaged" using run st True by (simp_all add: merge_emit_def c1_def key)
    have none: "ns_map (nm_bindings m) (snap_key p r) = None" by (rule arena [OF np order_refl])
    have "below_view p recs m (snap_key p r) = Some (snap_kview r)"
      using out_view_at [OF sorted idx(1)] idx(2) by (simp add: below_in_use)
    moreover note unpassed_unstaged [OF inv np]
    ultimately have here: "carried (below_view p recs m) (out_view p (out @ [r])) tag (nm_bindings m) (snap_key p r)" for tag
      by (simp add: carried_def none out_view_snoc)
    have "merge_inv p recs m c1 (out @ [r])"
      by (rule merge_advance [OF inv sorted r refl np arena _ _ _ here])
        (use idx g in \<open>simp_all add: c1_def same_below_def\<close>)
    then have "staged_turn p recs m c out m c1"
      unfolding staged_turn_def using r st True nm by (intro exI [of _ r] exI [of _ w] exI [of _ "nm_bindings m"]) (simp add: c1_def)
    then show ?thesis using r1 by simp
  qed
qed

lemma emit_slot:
  assumes inv: "merge_inv p recs m c out" and sorted: "snap_sorted p (in_use m recs)" and nm: "nm_ok p recs m"
    and i: "i < length (ns_slots (nm_bindings m))" "bs_occupied (ns_slots (nm_bindings m) ! i)"
    and k: "k = occ_key (nm_bindings m) i" "\<not> passed c k"
    and least: "\<And>k'. \<not> passed c k' \<Longrightarrow> k' < k \<Longrightarrow> ns_map (nm_bindings m) k' = None"
    and ahead: "\<And>x. old_next m recs c = Some x \<Longrightarrow> k \<le> snap_key p x"
    and run: "merge_emit p call (snap_record_from_slot p (ns_slots (nm_bindings m) ! i)) (Some i)
        (\<exists>x. old_next m recs c = Some x \<and> snap_key p x = k) k (m, c, s) = ((m', c', s'), t)"
  shows "(t = MtStaged \<and> s' = s \<and> staged_turn p recs m c out m' c') \<or> ((m', c', s'), t) = merge_abort call (m, c, s)"
proof -
  define sl where "sl = ns_slots (nm_bindings m) ! i"
  define r where "r = snap_record_from_slot p sl"
  obtain w ok where st: "sw_stage_record p r (cp_writer c) = (w, ok)" by (cases "sw_stage_record p r (cp_writer c)")
  note g = stage_record_generation [OF st]
  have cov: "arena_covered p (below_view p recs m) (nm_bindings m)" using nm by (simp add: nm_ok_def)
  then have nsok: "ns_ok p (nm_bindings m)" by (simp add: arena_covered_def)
  have at: "ns_map (nm_bindings m) k = Some sl" using occ_key_map [OF nsok i] k by (simp add: sl_def)
  have sk: "slot_key sl = Some k" "slot_ok p sl" using ns_map_key [OF nsok at] by simp_all
  have hold: "bs_hold sl \<le> 1" using cov at unfolding arena_covered_def by blast
  note rec = record_from_slot [OF sk(2) hold, folded r_def]
  have rk: "snap_key p r = k" using rec(2) k by (simp add: occ_key_def sl_def)
  show ?thesis
  proof (cases ok)
    case False
    then show ?thesis using run st g by (simp add: merge_emit_def r_def sl_def)
  next
    case True
    let ?st = "mark_emitted (nm_bindings m) i (emit_tag (sw_generation (cp_writer c)))"
    define c1 where "c1 = c\<lparr>cp_writer := w, cp_snap_idx := (if \<exists>x. old_next m recs c = Some x \<and> snap_key p x = k
        then cp_snap_idx c + 1 else cp_snap_idx c), cp_last := Some k\<rparr>"
    have r1: "m' = m\<lparr>nm_bindings := ?st\<rparr>" "c' = c1" "s' = s" "t = MtStaged"
      using run st True g by (simp_all add: merge_emit_def c1_def r_def sl_def)
    note mm = mark_emitted_map [OF nsok i(1), of k, folded sl_def, OF sk(1)]
    note mc = mark_covered [OF cov i(1), of k, folded sl_def, OF sk(1)]
    have "out_view p out k = None" by (rule unpassed_unstaged [OF inv k(2)])
    then have here: "carried (below_view p recs m) (out_view p (out @ [r])) tag (nm_bindings m') k" for tag
      by (simp add: carried_def r1 mm out_view_snoc rk rec(3))
    have same: "same_below m m'" "below_view p recs m' = below_view p recs m"
      by (simp_all add: r1 same_below_def below_in_use in_use_def)
    have "merge_inv p recs m' c1 (out @ [r])"
    proof (rule merge_advance [OF inv sorted rec(1) rk k(2) least _ same(1) _ here])
      show "k \<le> snap_key p (in_use m recs ! cp_snap_idx c)" if "cp_snap_idx c < length (in_use m recs)"
        using ahead that by (simp add: old_next_def)
    qed (simp_all add: c1_def g r1 mm old_next_def)
    moreover have "nm_ok p recs m'" using mc(1) by (simp add: nm_ok_def same) (simp add: r1)
    moreover have "module_view p recs m' = module_view p recs m" using mc(2) by (simp add: module_view_def same) (simp add: r1)
    ultimately have "staged_turn p recs m c out m' c1"
      unfolding staged_turn_def using rec(1) st True r1 by (intro exI [of _ r] exI [of _ w] exI [of _ ?st]) (simp add: c1_def)
    then show ?thesis using r1 by simp
  qed
qed

lemma merge_ends:
  assumes inv: "merge_inv p recs m c out" and sorted: "snap_sorted p (in_use m recs)"
    and arena: "\<And>k. \<not> passed c k \<Longrightarrow> ns_map (nm_bindings m) k = None" and old: "old_next m recs c = None"
  shows "merged_inv p recs m c out"
proof -
  have "carried (below_view p recs m) (out_view p out) (emit_tag (sw_generation (cp_writer c))) (nm_bindings m) k" for k
  proof (cases "passed c k")
    case True
    then show ?thesis using inv unfolding merge_inv_def by blast
  next
    case False
    have "below_view p recs m k = None"
      by (rule unpassed_below [OF inv sorted False]) (use old in \<open>simp add: old_next_def split: if_splits\<close>)
    then show ?thesis using unpassed_unstaged [OF inv False] arena [OF False] by (simp add: carried_def)
  qed
  then show ?thesis using inv by (simp add: merged_inv_def merge_inv_def)
qed

lemma cmp_key_of: "cmp_key p r root path = cmp_of (snap_key p r) (root, path)"
  by (simp add: cmp_key_def key_cmp_lex snap_key_def)

lemma merge_pick_turn:
  assumes inv: "merge_inv p recs m c out" and sorted: "snap_sorted p (in_use m recs)" and nm: "nm_ok p recs m"
    and recs: "\<forall>r\<in>set (in_use m recs). snap_ok p r"
    and run: "merge_pick p call (min_key_above (nm_bindings m) (cp_last c)) (old_next m recs c) (m, c, s) = ((m', c', s'), t)"
  shows "(t = MtMerged \<and> m' = m \<and> c' = c\<lparr>cp_phase := CMP_FINISH\<rparr> \<and> s' = s \<and> merged_inv p recs m c out) \<or>
    (t = MtStaged \<and> s' = s \<and> staged_turn p recs m c out m' c') \<or> ((m', c', s'), t) = merge_abort call (m, c, s)"
proof -
  have nsok: "ns_ok p (nm_bindings m)" using nm by (simp add: nm_ok_def arena_covered_def)
  note least = min_key_above_least [OF nsok, of "cp_last c"]
  have above: "k \<in> keys_above (nm_bindings m) (cp_last c) \<longleftrightarrow> ns_map (nm_bindings m) k \<noteq> None \<and> \<not> passed c k" for k
    by (auto simp: keys_above_def unpassed_iff)
  have okr: "snap_ok p r" if "old_next m recs c = Some r" for r
    using that recs by (auto simp: old_next_def split: if_splits)
  show ?thesis
  proof (cases "min_key_above (nm_bindings m) (cp_last c)")
    case None
    then have empty: "\<And>k. \<not> passed c k \<Longrightarrow> ns_map (nm_bindings m) k = None" using least above by auto
    show ?thesis
    proof (cases "old_next m recs c")
      case o: None
      then show ?thesis using run None merge_ends [OF inv sorted empty o] by (simp add: merge_pick_def)
    next
      case o: (Some r)
      have "merge_emit p call r None True (sr_root r, sr_path p r) (m, c, s) = ((m', c', s'), t)"
        using run None o by (simp add: merge_pick_def)
      from emit_old [OF inv sorted nm o okr [OF o] empty this] show ?thesis by blast
    qed
  next
    case (Some i)
    define k where "k = occ_key (nm_bindings m) i"
    have l: "k \<in> keys_above (nm_bindings m) (cp_last c)" "\<forall>a\<in>keys_above (nm_bindings m) (cp_last c). k \<le> a"
      "i < length (ns_slots (nm_bindings m))" "bs_occupied (ns_slots (nm_bindings m) ! i)"
      using least Some by (simp_all add: k_def)
    have np: "\<not> passed c k" using l(1) above by blast
    have low: "ns_map (nm_bindings m) a = None" if "\<not> passed c a" "a < k" for a
      using that l(2) above [of a] by (metis not_less)
    have kk: "k = (slot_root (ns_slots (nm_bindings m) ! i), slot_path (ns_slots (nm_bindings m) ! i))"
      by (simp add: k_def occ_key_def)
    define order where "order = (case old_next m recs c of
        Some r \<Rightarrow> cmp_key p r (slot_root (ns_slots (nm_bindings m) ! i)) (slot_path (ns_slots (nm_bindings m) ! i)) | None \<Rightarrow> Greater)"
    have ord: "order = (case old_next m recs c of Some r \<Rightarrow> cmp_of (snap_key p r) k | None \<Rightarrow> Greater)"
      by (simp add: order_def kk cmp_key_of split: option.split)
    have run': "(if order \<noteq> Less then
          merge_emit p call (snap_record_from_slot p (ns_slots (nm_bindings m) ! i)) (Some i) (order = Equal) k (m, c, s)
        else case old_next m recs c of
             Some r \<Rightarrow> merge_emit p call r None True (sr_root r, sr_path p r) (m, c, s) | None \<Rightarrow> ((m, c, s), MtStaged)) = ((m', c', s'), t)"
      using run l(3) unfolding merge_pick_def prod.case Some option.case Let_def order_def [symmetric] kk by simp
    show ?thesis
    proof (cases "order = Less")
      case True
      then obtain r where o: "old_next m recs c = Some r" and lt: "snap_key p r < k"
        by (auto simp: ord cmp_of_def split: option.splits if_splits)
      have low': "ns_map (nm_bindings m) a = None" if "\<not> passed c a" "a \<le> snap_key p r" for a
        using low that lt by (meson le_less_trans)
      have "merge_emit p call r None True (sr_root r, sr_path p r) (m, c, s) = ((m', c', s'), t)"
        using run' True o by simp
      from emit_old [OF inv sorted nm o okr [OF o] low' this] show ?thesis by blast
    next
      case False
      have eq: "(order = Equal) = (\<exists>x. old_next m recs c = Some x \<and> snap_key p x = k)"
        by (auto simp: ord cmp_of_def split: option.splits)
      have ahead: "k \<le> snap_key p x" if "old_next m recs c = Some x" for x
        using False that by (auto simp: ord cmp_of_def split: if_splits)
      have "merge_emit p call (snap_record_from_slot p (ns_slots (nm_bindings m) ! i)) (Some i)
          (\<exists>x. old_next m recs c = Some x \<and> snap_key p x = k) k (m, c, s) = ((m', c', s'), t)"
        using run' False unfolding eq by simp
      from emit_slot [OF inv sorted nm l(3,4) k_def np low ahead this] show ?thesis by blast
    qed
  qed
qed

end
