(* ===== verification/Provider_Calls.thy ===== *)
theory Provider_Calls
  imports Namespace_Compact
begin

text \<open>
  Which calls an operation may make of the storage provider: \<open>made call P s s'\<close> says that \<open>s'\<close>
  is what calls allowed by \<open>P\<close> leave of \<open>s\<close>.  Applying a record only reads the open snapshot; the
  writer and the opener of the next generation stay off the one in use.
\<close>

section \<open>Sequences of calls\<close>

definition made :: "'s provider \<Rightarrow> (int \<Rightarrow> u32 \<Rightarrow> bytes \<Rightarrow> bool) \<Rightarrow> 's \<Rightarrow> 's \<Rightarrow> bool" where
  "made call P = (\<lambda>s s'. \<exists>fd op arg rc buf. P fd op arg \<and> call s fd op arg = (s', rc, buf))\<^sup>*\<^sup>*"

lemma made_refl [simp]: "made call P s s"
  by (simp add: made_def)

lemma made_trans: "made call P s s1 \<Longrightarrow> made call P s1 s2 \<Longrightarrow> made call P s s2"
  unfolding made_def by (rule rtranclp_trans)

lemma made_one: "call s fd op arg = (s', rc, buf) \<Longrightarrow> P fd op arg \<Longrightarrow> made call P s s'"
  unfolding made_def by (rule r_into_rtranclp) blast

lemma made_keeps:
  assumes "made call P s s'" "I s"
    and "\<And>s fd op arg s' rc buf. P fd op arg \<Longrightarrow> call s fd op arg = (s', rc, buf) \<Longrightarrow> I s \<Longrightarrow> I s'"
  shows "I s'"
  using assms(1,2) unfolding made_def by (induction rule: rtranclp_induct) (use assms(3) in blast)+

section \<open>Reads\<close>

definition reading :: "int \<Rightarrow> int \<Rightarrow> u32 \<Rightarrow> bytes \<Rightarrow> bool" where
  "reading fd fd' op arg \<longleftrightarrow> fd' = fd \<and> (op = FS_SEEK \<or> op = FS_READ)"

lemma snap_seek_made: "snap_seek call fd off s = (s', r) \<Longrightarrow> made call (reading fd) s s'"
  by (auto simp: snap_seek_def reading_def intro: made_one split: prod.splits)

lemma read_exact_from_made: "read_exact_from call fd filled buf s = (buf', s', r) \<Longrightarrow> made call (reading fd) s s'"
proof (induction call fd filled buf s rule: read_exact_from.induct)
  case (1 call fd filled buf s)
  note unf = read_exact_from.simps [of call fd filled buf s]
  show ?case
  proof (cases "filled < length buf")
    case True
    define want where "want = length buf - filled"
    obtain s1 n got where c: "call s fd FS_READ (sub_slice buf filled want) = (s1, n, got)" by (metis prod_cases3)
    have m: "made call (reading fd) s s1" by (rule made_one, rule c) (simp add: reading_def)
    define b1 where "b1 = take (length buf) (put_at filled got buf)"
    show ?thesis
    proof (cases "fs_pending n \<or> n \<le> 0")
      case stop: True
      then show ?thesis using 1(2) True c m by (auto simp: unf want_def [symmetric] Let_def split: if_splits)
    next
      case go: False
      then have np: "\<not> fs_pending n" "\<not> n \<le> 0" by simp_all
      have "read_exact_from call fd (filled + min (nat n) want) b1 s1 = (buf', s', r)"
        using 1(2) True np c by (simp add: unf want_def [symmetric] b1_def)
      from 1(1) [OF True want_def c [symmetric] refl refl b1_def np this] show ?thesis using made_trans [OF m] by blast
    qed
  qed (use 1(2) unf in auto)
qed

lemma read_exact_made: "read_exact call fd n s = (buf, s', r) \<Longrightarrow> made call (reading fd) s s'"
  unfolding read_exact_def by (rule read_exact_from_made)

lemma snap_read_at_made: "snap_read_at p call snap i s = (s', r) \<Longrightarrow> made call (reading (on_fd snap)) s s'"
  by (auto simp: snap_read_at_def Let_def split: if_splits prod.splits snap_read.splits
      intro: made_trans dest!: snap_seek_made read_exact_made)

lemma snap_search_loop_made:
  "snap_search_loop p call snap root path lo hi s = (s', r) \<Longrightarrow> made call (reading (on_fd snap)) s s'"
proof (induction p call snap root path lo hi s rule: snap_search_loop.induct)
  case (1 p call snap root path lo hi s)
  note unf = snap_search_loop.simps [of p call snap root path lo hi s]
  show ?case
  proof (cases "lo < hi")
    case True
    define mid where "mid = lo + (hi - lo) div 2"
    obtain s1 q where c: "snap_read_at p call snap mid s = (s1, q)" by (metis surj_pair)
    note m = snap_read_at_made [OF c]
    show ?thesis
    proof (cases q)
      case (SrReady a)
      show ?thesis
      proof (cases "cmp_key p a root path")
        case Less
        then have "snap_search_loop p call snap root path (mid + 1) hi s1 = (s', r)"
          using 1(3) True by (simp add: unf mid_def [symmetric] c SrReady)
        from 1(1) [OF True mid_def c [symmetric] SrReady Less this] show ?thesis using made_trans [OF m] by blast
      next
        case Equal
        then show ?thesis using 1(3) True m by (simp add: unf mid_def [symmetric] c SrReady)
      next
        case Greater
        then have "snap_search_loop p call snap root path lo mid s1 = (s', r)"
          using 1(3) True by (simp add: unf mid_def [symmetric] c SrReady)
        from 1(2) [OF True mid_def c [symmetric] SrReady Greater this] show ?thesis using made_trans [OF m] by blast
      qed
    qed (use 1(3) True m in \<open>simp_all add: unf mid_def [symmetric] c\<close>)
  qed (use 1(3) unf in simp)
qed

lemma snap_search_made: "snap_search p call snap root path s = (s', r) \<Longrightarrow> made call (reading (on_fd snap)) s s'"
  unfolding snap_search_def by (rule snap_search_loop_made)

section \<open>Applying a record only reads\<close>

lemma current_made: "current p call m r q s = (s', c) \<Longrightarrow> made call (reading (on_fd (nm_snap m))) s s'"
  by (auto simp: current_def Let_def split: prod.splits option.splits if_splits snap_read.splits dest: snap_search_made)

lemma key_retained_made: "key_retained p call m r q now s = (s', c) \<Longrightarrow> made call (reading (on_fd (nm_snap m))) s s'"
  by (auto simp: key_retained_def split: prod.splits option.splits current.splits dest: current_made)

lemma volume_binding_made: "volume_binding p call m r q oid s = (s', c) \<Longrightarrow> made call (reading (on_fd (nm_snap m))) s s'"
  by (auto simp: volume_binding_def Let_def split: prod.splits option.splits if_splits snap_read.splits dest: snap_search_made)

lemma volume_gate_made: "volume_gate p call m r q s = (s', c) \<Longrightarrow> made call (reading (on_fd (nm_snap m))) s s'"
  by (auto simp: volume_gate_def is_volume_binding_def split: prod.splits snap_read.splits dest: volume_binding_made)

lemma apply_retain_made: "apply_retain p call r m s = (m', s', c) \<Longrightarrow> made call (reading (on_fd (nm_snap m))) s s'"
  by (auto simp: apply_retain_def split: prod.splits option.splits current.splits dest: current_made)

lemma restore_binding_made: "restore_binding p call b m s = (m', s', c) \<Longrightarrow> made call (reading (on_fd (nm_snap m))) s s'"
  by (auto simp: restore_binding_def Let_def split: prod.splits option.splits current.splits if_splits dest: current_made)

lemma apply_bind_made: "apply_bind p call b m s = (m', s', c) \<Longrightarrow> made call (reading (on_fd (nm_snap m))) s s'"
  by (auto simp: apply_bind_def split: prod.splits option.splits current.splits if_splits sum.splits bool.splits
      intro: made_trans dest!: current_made volume_gate_made)

lemma apply_unbind_made: "apply_unbind p call u m s = (m', s', c) \<Longrightarrow> made call (reading (on_fd (nm_snap m))) s s'"
  by (auto simp: apply_unbind_def split: prod.splits option.splits current.splits if_splits sum.splits bool.splits
      intro: made_trans dest!: current_made volume_gate_made)

lemma judge_volume_made: "judge_volume p call q m s = (m', s', c) \<Longrightarrow> made call (reading (on_fd (nm_snap m))) s s'"
  by (auto simp: judge_volume_def split: prod.splits snap_read.splits sum.splits
      intro: made_trans dest!: volume_binding_made key_retained_made)

lemma apply_volume_made: "apply_volume p call q m s = (m', s', c) \<Longrightarrow> made call (reading (on_fd (nm_snap m))) s s'"
  by (auto simp: apply_volume_def split: prod.splits sum.splits dest: judge_volume_made)

lemma apply_rename_made:
  assumes "apply_rename p call r m s = (m', s', c)"
  shows "made call (reading (on_fd (nm_snap m))) s s'"
proof -
  let ?M = "made call (reading (on_fd (nm_snap m)))"
  obtain s1 g1 where g1: "volume_gate p call m (dr_root r) (dr_from r) s = (s1, g1)" by (metis surj_pair)
  obtain s2 g2 where g2: "volume_gate p call m (dr_root r) (dr_to r) s1 = (s2, g2)" by (metis surj_pair)
  obtain s3 k1 where k1: "key_retained p call m (dr_root r) (dr_from r) (dr_stamp_ms r) s2 = (s3, k1)" by (metis surj_pair)
  obtain s4 k2 where k2: "key_retained p call m (dr_root r) (dr_to r) (dr_stamp_ms r) s3 = (s4, k2)" by (metis surj_pair)
  have m: "?M s s1" "?M s s2" "?M s s3" "?M s s4"
    using volume_gate_made [OF g1] volume_gate_made [OF g2] key_retained_made [OF k1] key_retained_made [OF k2]
    by (meson made_trans)+
  have "s' \<in> {s1, s2, s3, s4}"
    using assms by (auto simp: apply_rename_def g1 g2 k1 k2 split: sum.splits bool.splits prod.splits if_splits)
  then show ?thesis using m by auto
qed

lemma apply_op_made:
  assumes "apply_op p call payload m s = (m', s', res)"
  shows "made call (reading (on_fd (nm_snap m))) s s'"
proof (cases "ns_peek_opcode payload")
  case (Some b)
  have arms: "apply_op p call payload m s = (m', s', res) \<Longrightarrow> s' = s \<or>
      (\<exists>x. restore_binding p call x m s = (m', s', res)) \<or> (\<exists>x. apply_retain p call x m s = (m', s', res)) \<or>
      (\<exists>x. apply_volume p call x m s = (m', s', res)) \<or> (\<exists>x. apply_bind p call x m s = (m', s', res)) \<or>
      (\<exists>x. apply_rename p call x m s = (m', s', res)) \<or> (\<exists>x. apply_unbind p call x m s = (m', s', res))"
    by (auto simp: apply_op_def Some with_decoded_def split: if_splits sum.splits prod.splits option.splits)
  show ?thesis
    using arms [OF assms] restore_binding_made apply_retain_made apply_volume_made apply_bind_made apply_rename_made apply_unbind_made
    by fastforce
qed (use assms in \<open>simp add: apply_op_def\<close>)

section \<open>The writer and the opener stay off the generation in use\<close>

definition sparing :: "int \<Rightarrow> bytes \<Rightarrow> int \<Rightarrow> u32 \<Rightarrow> bytes \<Rightarrow> bool" where
  "sparing old path fd op arg \<longleftrightarrow>
     (fd \<noteq> old \<or> op \<in> {FS_UNLINK, FS_OPEN_CREATE, FS_OPEN, FS_FSYNC_NAME}) \<and>
     (op \<in> {FS_UNLINK, FS_OPEN_CREATE} \<longrightarrow> arg = path)"

definition new_fds :: "'s provider \<Rightarrow> int \<Rightarrow> bool" where
  "new_fds call old \<longleftrightarrow>
     (\<forall>s fd op arg s' rc buf. call s fd op arg = (s', rc, buf) \<longrightarrow> op \<in> {FS_OPEN_CREATE, FS_OPEN} \<longrightarrow> rc \<ge> 0 \<longrightarrow> rc \<noteq> old)"

definition writer_off :: "int \<Rightarrow> snap_writer \<Rightarrow> bool" where
  "writer_off old w \<longleftrightarrow> (sw_fd_plus1 w > 0 \<longrightarrow> sw_fd_plus1 w - 1 \<noteq> old) \<and>
     (sw_phase w \<notin> {W_IDLE, W_UNLINK, W_CREATE, W_DONE} \<longrightarrow> sw_fd_plus1 w > 0)"

definition opener_off :: "int \<Rightarrow> snap_opener \<Rightarrow> bool" where
  "opener_off old w \<longleftrightarrow> (so_fd_plus1 w > 0 \<longrightarrow> so_fd_plus1 w - 1 \<noteq> old) \<and> (so_phase w \<noteq> SO_OPEN \<longrightarrow> so_fd_plus1 w > 0)"

lemma made_call:
  assumes "call s fd op arg = (s', rc, buf)" "fd \<noteq> old" "op \<notin> {FS_UNLINK, FS_OPEN_CREATE}"
  shows "made call (sparing old path) s s'"
  by (rule made_one, rule assms(1)) (use assms(2,3) in \<open>simp add: sparing_def\<close>)

lemma made_reading: "made call (reading fd) s s' \<Longrightarrow> fd \<noteq> old \<Longrightarrow> made call (sparing old path) s s'"
  by (erule made_keeps [where I = "made call (sparing old path) s"])
     (auto simp: reading_def fs_opcodes intro: made_trans [OF _ made_call])

lemma wal_close_made: "fd \<noteq> old \<Longrightarrow> made call (sparing old path) s (fst (wal_close call fd s))"
  by (auto simp: wal_close_def fs_opcodes split: prod.splits intro: made_call)

definition same_writer :: "snap_writer \<Rightarrow> snap_writer \<Rightarrow> bool" where
  "same_writer w w' \<longleftrightarrow> sw_path w' = sw_path w \<and> sw_generation w' = sw_generation w \<and> length (sw_path_bytes w') = length (sw_path_bytes w)"

lemma same_writer_frames [simp]:
  "same_writer w (w1\<lparr>sw_stage_written := n\<rparr>) = same_writer w w1" "same_writer w (w1\<lparr>sw_stage_len := l\<rparr>) = same_writer w w1"
  "same_writer w (w1\<lparr>sw_phase := ph\<rparr>) = same_writer w w1" "same_writer w (w1\<lparr>sw_fd_plus1 := fd\<rparr>) = same_writer w w1"
  "same_writer w (w1\<lparr>sw_stage := b\<rparr>) = same_writer w w1" "same_writer w w"
  by (simp_all add: same_writer_def sw_path_def sw_stage_bytes_def)

lemma drain_stage_made:
  assumes run: "drain_stage p call w s = (w', s', r)" and fd: "sw_fd_plus1 w - 1 \<noteq> old"
  shows "made call (sparing old path) s s' \<and> same_writer w w' \<and> sw_fd_plus1 w' = sw_fd_plus1 w \<and> sw_phase w' = sw_phase w"
proof -
  define K where "K w1 s1 \<longleftrightarrow> made call (sparing old path) s s1 \<and> same_writer w w1 \<and> sw_fd_plus1 w1 = sw_fd_plus1 w \<and> sw_phase w1 = sw_phase w"
    for w1 s1
  have adv: "K (w1\<lparr>sw_stage_written := n\<rparr>) s1 = K w1 s1" for w1 s1 n
    by (simp add: K_def)
  have "K w1 s2" if k: "K w1 s1" and c: "call s1 (sw_fd_plus1 w1 - 1) FS_WRITE arg = (s2, rc, buf)" for w1 s1 arg s2 rc buf
  proof -
    have "made call (sparing old path) s1 s2"
      by (rule made_call, rule c) (use k fd in \<open>simp_all add: K_def fs_opcodes\<close>)
    with k show ?thesis by (auto simp: K_def elim: made_trans)
  qed
  then have "(r = WrReady \<longrightarrow> (\<exists>w1. K w1 s' \<and> min (sw_stage_len w1) (REC_SIZE p) \<le> sw_stage_written w1 \<and>
        w' = w1\<lparr>sw_stage_len := 0, sw_stage_written := 0\<rparr>)) \<and> (r \<noteq> WrReady \<longrightarrow> K w' s')"
    by (intro drain_stage_keeps [OF _ run]) (auto simp: adv K_def [of w s])
  then show ?thesis by (cases "r = WrReady") (auto simp: K_def)
qed

lemma open_step_made:
  assumes run: "sw_open_step p call w s = (w', s', r)" and off: "writer_off old w" and path: "sw_path w = path" and new: "new_fds call old"
  shows "made call (sparing old path) s s' \<and> same_writer w w' \<and> writer_off old w'"
proof (cases "sw_phase w")
  case W_UNLINK
  obtain s1 rc buf where c: "call s (- 1) FS_UNLINK path = (s1, rc, buf)" by (metis prod_cases3)
  have "made call (sparing old path) s s1" by (rule made_one, rule c) (simp add: sparing_def)
  then show ?thesis using run off path c W_UNLINK
    by (auto simp: sw_open_step_def fs_unlink_def writer_off_def split: if_splits)
next
  case W_CREATE
  obtain s1 rc buf where c: "call s (- 1) FS_OPEN_CREATE path = (s1, rc, buf)" by (metis prod_cases3)
  have m: "made call (sparing old path) s s1" by (rule made_one, rule c) (simp add: sparing_def)
  have "rc \<ge> 0 \<longrightarrow> rc \<noteq> old" using new c unfolding new_fds_def by blast
  then show ?thesis using run off path c m W_CREATE
    by (auto simp: sw_open_step_def writer_off_def sw_stage_bytes_def Let_def split: if_splits)
next
  case W_PLACEHOLDER
  then have fd: "sw_fd_plus1 w - 1 \<noteq> old" using off by (auto simp: writer_off_def)
  obtain w1 s1 q where d: "drain_stage p call w s = (w1, s1, q)" by (metis prod_cases3)
  show ?thesis using run drain_stage_made [OF d fd, of path] off
    by (auto simp: sw_open_step_def W_PLACEHOLDER d writer_off_def split: write_poll.splits)
qed (use run off in \<open>auto simp: sw_open_step_def\<close>)

lemma poll_open_made:
  "sw_poll_open p call w s = (w', s', r) \<Longrightarrow> writer_off old w \<Longrightarrow> sw_path w = path \<Longrightarrow> new_fds call old \<Longrightarrow>
   made call (sparing old path) s s' \<and> same_writer w w' \<and> writer_off old w'"
proof (induction p call w s rule: sw_poll_open.induct)
  case (1 p call w s)
  obtain w1 s1 q where st: "sw_open_step p call w s = (w1, s1, q)" by (metis prod_cases3)
  note k = open_step_made [OF st 1(3-5)]
  show ?case
  proof (cases q)
    case None
    then have "sw_poll_open p call w1 s1 = (w', s', r)" using 1(2) st by (simp add: sw_poll_open.simps [of p call w s])
    then have "made call (sparing old path) s1 s' \<and> same_writer w1 w' \<and> writer_off old w'"
      using 1(1) [OF st [symmetric] refl None] k 1(4,5) by (simp add: same_writer_def)
    then show ?thesis using k by (auto simp: same_writer_def elim: made_trans)
  next
    case (Some x)
    then show ?thesis using 1(2) st k by (simp add: sw_poll_open.simps [of p call w s])
  qed
qed

lemma flush_made:
  assumes "sw_flush p call w s = (w', s', r)" "writer_off old w"
  shows "made call (sparing old path) s s' \<and> same_writer w w' \<and> writer_off old w'"
proof (cases "sw_phase w = W_RECORDS")
  case True
  then have fd: "sw_fd_plus1 w - 1 \<noteq> old" using assms(2) by (auto simp: writer_off_def)
  have "drain_stage p call w s = (w', s', r)" using assms(1) True by (simp add: sw_flush_def)
  from drain_stage_made [OF this fd, of path] show ?thesis using assms(2) by (simp add: writer_off_def)
qed (use assms in \<open>auto simp: sw_flush_def\<close>)

lemma finish_step_made:
  assumes run: "sw_finish_step p call w s = (w', s', r)" and off: "writer_off old w" and path: "sw_path w = path"
  shows "made call (sparing old path) s s' \<and> same_writer w w' \<and> writer_off old w'"
proof -
  have fd: "sw_fd_plus1 w - 1 \<noteq> old" if "sw_phase w \<notin> {W_IDLE, W_UNLINK, W_CREATE, W_DONE}"
    using off that by (auto simp: writer_off_def)
  have fsync: "made call (sparing old path) s s1"
    if "call s (sw_fd_plus1 w - 1) FS_FSYNC [] = (s1, rc, buf)" "sw_phase w \<notin> {W_IDLE, W_UNLINK, W_CREATE, W_DONE}" for s1 rc buf
    by (rule made_call, rule that(1)) (use fd that(2) in \<open>auto simp: fs_opcodes\<close>)
  show ?thesis
  proof (cases "sw_phase w")
    case W_RECORDS
    obtain w1 s1 q where d: "drain_stage p call w s = (w1, s1, q)" by (metis prod_cases3)
    show ?thesis using run drain_stage_made [OF d fd, of path] off W_RECORDS
      by (auto simp: sw_finish_step_def d writer_off_def split: write_poll.splits)
  next
    case W_HEADER
    obtain w1 s1 q where d: "drain_stage p call w s = (w1, s1, q)" by (metis prod_cases3)
    show ?thesis using run drain_stage_made [OF d fd, of path] off W_HEADER
      by (auto simp: sw_finish_step_def d writer_off_def split: write_poll.splits)
  next
    case W_FSYNC_RECORDS
    then show ?thesis using run off fsync
      by (auto simp: sw_finish_step_def writer_off_def Let_def split: prod.splits if_splits)
  next
    case W_FSYNC_HEADER
    then show ?thesis using run off fsync
      by (auto simp: sw_finish_step_def writer_off_def Let_def split: prod.splits if_splits)
  next
    case W_SEEK
    obtain s1 q where k: "snap_seek call (sw_fd_plus1 w - 1) 0 s = (s1, q)" by (metis surj_pair)
    have "made call (sparing old path) s s1" using made_reading [OF snap_seek_made [OF k] fd] W_SEEK by simp
    then show ?thesis using run off W_SEEK k
      by (auto simp: sw_finish_step_def writer_off_def sw_stage_bytes_def split: snap_read.splits)
  next
    case W_NAME
    obtain s1 rc buf where c: "call s (- 1) FS_FSYNC_NAME path = (s1, rc, buf)" by (metis prod_cases3)
    have m: "made call (sparing old path) s s1" by (rule made_one, rule c) (simp add: sparing_def fs_opcodes)
    have "made call (sparing old path) s (fst (wal_close call (sw_fd_plus1 w - 1) s1))"
      using made_trans [OF m wal_close_made [OF fd]] W_NAME by simp
    then show ?thesis using run off path c m W_NAME
      by (auto simp: sw_finish_step_def fsync_name_def writer_off_def split: if_splits)
  qed (use run off in \<open>auto simp: sw_finish_step_def writer_off_def\<close>)
qed

lemma poll_finish_made:
  "sw_poll_finish p call w s = (w', s', r) \<Longrightarrow> writer_off old w \<Longrightarrow> sw_path w = path \<Longrightarrow>
   made call (sparing old path) s s' \<and> same_writer w w' \<and> writer_off old w'"
proof (induction p call w s rule: sw_poll_finish.induct)
  case (1 p call w s)
  obtain w1 s1 q where st: "sw_finish_step p call w s = (w1, s1, q)" by (metis prod_cases3)
  note k = finish_step_made [OF st 1(3,4)]
  show ?case
  proof (cases q)
    case None
    then have "sw_poll_finish p call w1 s1 = (w', s', r)" using 1(2) st by (simp add: sw_poll_finish.simps [of p call w s])
    then have "made call (sparing old path) s1 s' \<and> same_writer w1 w' \<and> writer_off old w'"
      using 1(1) [OF st [symmetric] refl None] k 1(4) by (simp add: same_writer_def)
    then show ?thesis using k by (auto simp: same_writer_def elim: made_trans)
  next
    case (Some x)
    then show ?thesis using 1(2) st k by (simp add: sw_poll_finish.simps [of p call w s])
  qed
qed

lemma writer_abandon_made:
  assumes "sw_abandon call w s = (w', s')" "writer_off old w"
  shows "made call (sparing old path) s s' \<and> writer_off old w' \<and> length (sw_stage w') = length (sw_stage w) \<and>
    length (sw_path_bytes w') = length (sw_path_bytes w)"
  using assms by (cases "sw_fd_plus1 w > 0") (auto simp: sw_abandon_def writer_off_def wal_close_made)

lemma opener_abandon_made:
  assumes "snap_abandon call w s = (w', s')" "opener_off old w"
  shows "made call (sparing old path) s s' \<and> w' = snap_opener_new"
  using assms by (cases "so_fd_plus1 w > 0") (auto simp: snap_abandon_def opener_off_def wal_close_made)

lemma opener_new_off [simp]: "opener_off old snap_opener_new"
  by (simp add: opener_off_def snap_opener_new_def)

lemma open_step_off:
  assumes run: "snap_open_step p call target w s = (w', s', r)" and off: "opener_off old w" and new: "new_fds call old"
  shows "made call (sparing old path) s s' \<and> opener_off old w'"
proof -
  let ?fd = "so_fd_plus1 w - 1"
  have fd: "?fd \<noteq> old" if "so_phase w \<noteq> SO_OPEN" using off that by (auto simp: opener_off_def)
  have bad: "made call (sparing old path) s1 s' \<and> opener_off old w'" if "snap_invalid call w1 s1 = (w', s', r)" "opener_off old w1" for w1 s1
  proof -
    obtain w2 s2 where a: "snap_abandon call w1 s1 = (w2, s2)" by (metis surj_pair)
    show ?thesis using opener_abandon_made [OF a that(2)] that(1) by (auto simp: snap_invalid_def a)
  qed
  show ?thesis
  proof (cases "so_phase w")
    case SO_OPEN
    obtain s1 rc buf where c: "call s (- 1) FS_OPEN target = (s1, rc, buf)" by (metis prod_cases3)
    have m: "made call (sparing old path) s s1" by (rule made_one, rule c) (simp add: sparing_def fs_opcodes)
    have "rc \<ge> 0 \<longrightarrow> rc \<noteq> old" using new c unfolding new_fds_def by blast
    then show ?thesis using run off m SO_OPEN by (auto simp: snap_open_step_def c opener_off_def snap_opener_new_def split: if_splits)
  next
    case SO_SEEK
    obtain s1 q where k: "snap_seek call ?fd 0 s = (s1, q)" by (metis surj_pair)
    have m: "made call (sparing old path) s s1" using made_reading [OF snap_seek_made [OF k] fd] SO_SEEK by simp
    show ?thesis
    proof (cases q)
      case SrFailed
      then have "snap_invalid call w s1 = (w', s', r)" using run SO_SEEK k by (simp add: snap_open_step_def)
      from bad [OF this off] show ?thesis using made_trans [OF m] by blast
    qed (use run off m SO_SEEK k in \<open>auto simp: snap_open_step_def opener_off_def\<close>)
  next
    case SO_HDR
    obtain hdr s1 q where k: "read_exact call ?fd SNAP_HDR s = (hdr, s1, q)" by (metis prod_cases3)
    have m: "made call (sparing old path) s s1" using made_reading [OF read_exact_made [OF k] fd] SO_HDR by simp
    show ?thesis
    proof (cases q)
      case SrFailed
      then have "snap_invalid call w s1 = (w', s', r)" using run SO_HDR k by (simp add: snap_open_step_def)
      from bad [OF this off] show ?thesis using made_trans [OF m] by blast
    qed (use run off m SO_HDR k in \<open>auto simp: snap_open_step_def opener_off_def\<close>)
  next
    case SO_STAT
    obtain s1 rc stat where k: "call s ?fd FS_STAT (replicate 8 0) = (s1, rc, stat)" by (metis prod_cases3)
    have m: "made call (sparing old path) s s1" by (rule made_call, rule k) (use fd SO_STAT in \<open>simp_all add: fs_opcodes\<close>)
    consider "snap_invalid call w s = (w', s', r)" | "snap_invalid call w s1 = (w', s', r)"
      | "s' = s1" "w' = w \<or> w' = snap_opener_new"
      using run SO_STAT by (auto simp: snap_open_step_def k Let_def split: if_splits)
    then show ?thesis
    proof cases
      case 1
      then show ?thesis using bad off by blast
    next
      case 2
      from bad [OF this off] show ?thesis using made_trans [OF m] by blast
    qed (use m off in auto)
  qed
qed

lemma open_loop_off:
  "snap_open_loop p call target w s = (w', s', r) \<Longrightarrow> opener_off old w \<Longrightarrow> new_fds call old \<Longrightarrow>
   made call (sparing old path) s s' \<and> opener_off old w'"
proof (induction p call target w s rule: snap_open_loop.induct)
  case (1 p call target w s)
  obtain w1 s1 q where st: "snap_open_step p call target w s = (w1, s1, q)" by (metis prod_cases3)
  note k = open_step_off [OF st 1(3,4), of path]
  show ?case
  proof (cases q)
    case None
    then have "snap_open_loop p call target w1 s1 = (w', s', r)" using 1(2) st by (simp add: snap_open_loop.simps [of p call target w s])
    then have "made call (sparing old path) s1 s' \<and> opener_off old w'"
      using 1(1) [OF st [symmetric] refl None] k 1(4) by blast
    then show ?thesis using k by (auto elim: made_trans)
  next
    case (Some x)
    then show ?thesis using 1(2) st k by (simp add: snap_open_loop.simps [of p call target w s])
  qed
qed

end
