(* ===== verification/Compaction.thy ===== *)
theory Compaction
  imports Namespace_Merge Provider_Calls
begin

text \<open>
  A compaction from its trigger to the switch, over the provider: however the records applied
  meanwhile fall between its slices, and whatever fails, the namespace says the same of every
  key before and after each turn, by the old generation until the switch and by the new one from
  there.
\<close>

section \<open>Two generations beside each other\<close>

definition snap_store ::
  "'s provider \<Rightarrow> bytes \<Rightarrow> int \<Rightarrow> 's read_view \<Rightarrow> 's snap_view \<Rightarrow> int \<Rightarrow> 's read_view \<Rightarrow> bool" where
  \<comment> \<open>\<open>path\<close> names the file being written, and read back on \<open>new\<close>; the file open on \<open>old\<close> is another
    one: neither file sees the calls made on the other\<close>
  "snap_store call path old v sv new v' \<longleftrightarrow>
     snap_target call path sv \<and> snap_readable call path new v' \<and> new_fds call old \<and>
     (\<forall>s. rv_content v' s \<in> sv_images sv s) \<and>
     (\<forall>s fd op arg s' rc buf. call s fd op arg = (s', rc, buf) \<longrightarrow>
        (fd = old \<and> op \<in> {FS_SEEK, FS_READ, FS_CLOSE} \<longrightarrow>
           sv_same sv s s' \<and> rv_content v' s' = rv_content v' s \<and> rv_pos v' s' = rv_pos v' s) \<and>
        (sparing old path fd op arg \<longrightarrow> rv_content v s' = rv_content v s))"

lemma sv_same_refl [simp]: "sv_same v s s"
  by (simp add: sv_same_def)

lemma sv_same_trans: "sv_same v s s1 \<Longrightarrow> sv_same v s1 s2 \<Longrightarrow> sv_same v s s2"
  by (auto simp: sv_same_def)

lemma store_reading:
  assumes st: "snap_store call path old v sv new v'" and m: "made call (reading old) s s'"
  shows "sv_same sv s s' \<and> rv_content v' s' = rv_content v' s \<and> rv_pos v' s' = rv_pos v' s"
proof (rule made_keeps [OF m])
  fix s1 fd op arg s2 rc buf
  assume "reading old fd op arg" "call s1 fd op arg = (s2, rc, buf)"
    and i: "sv_same sv s s1 \<and> rv_content v' s1 = rv_content v' s \<and> rv_pos v' s1 = rv_pos v' s"
  then have "sv_same sv s1 s2 \<and> rv_content v' s2 = rv_content v' s1 \<and> rv_pos v' s2 = rv_pos v' s1"
    using st unfolding snap_store_def reading_def by blast
  then show "sv_same sv s s2 \<and> rv_content v' s2 = rv_content v' s \<and> rv_pos v' s2 = rv_pos v' s"
    using i by (auto elim: sv_same_trans)
qed simp

lemma store_sparing:
  assumes st: "snap_store call path old v sv new v'" and m: "made call (sparing old path) s s'"
  shows "rv_content v s' = rv_content v s"
proof (rule made_keeps [OF m])
  fix s1 fd op arg s2 rc buf
  assume "sparing old path fd op arg" "call s1 fd op arg = (s2, rc, buf)" "rv_content v s1 = rv_content v s"
  then show "rv_content v s2 = rv_content v s" using st unfolding snap_store_def by metis
qed simp

lemma serving_spared:
  assumes "snap_store call path (on_fd (nm_snap m)) v sv new v'" "made call (sparing (on_fd (nm_snap m)) path) s s'"
    and "serving p call v g recs m s"
  shows "serving p call v g recs m s'"
  using assms(3) store_sparing [OF assms(1,2)] by (simp add: serving_def snap_backs_def)

lemma serving_in_use:
  assumes "serving p call v g recs m s"
  shows "snap_sorted p (in_use m recs)" "\<forall>r\<in>set (in_use m recs). snap_ok p r"
  using assms by (auto simp: serving_def in_use_def snap_backs_def snap_fits_def snap_sorted_def)

section \<open>The invariant of a compaction\<close>

definition next_path :: "ns_module \<Rightarrow> compactor \<Rightarrow> bytes" where
  "next_path m c = target_path (c\<lparr>cp_target_slot := (if nm_snap_active m then cp_snap_slot c XOR 1 else 0)\<rparr>)"

lemma path_cong:
  "cp_wal_path c = cp_wal_path c' \<Longrightarrow> cp_target_slot c = cp_target_slot c' \<Longrightarrow> target_path c = target_path c'"
  "cp_wal_path c = cp_wal_path c' \<Longrightarrow> cp_snap_slot c = cp_snap_slot c' \<Longrightarrow> next_path m c = next_path m c'"
  by (simp_all add: next_path_def target_path_def)

definition next_generation :: "ns_module \<Rightarrow> u64" where
  "next_generation m = (if nm_snap_active m then on_generation (nm_snap m) + 1 else 1)"

definition idle_compactor :: "profile \<Rightarrow> compactor \<Rightarrow> bool" where
  "idle_compactor p c \<longleftrightarrow> cp_phase c = CMP_IDLE \<and> cp_reopen c = snap_opener_new \<and> sw_wf p (cp_writer c)"

definition writing ::
  "profile \<Rightarrow> 's snap_view \<Rightarrow> bytes \<Rightarrow> ns_module \<Rightarrow> compactor \<Rightarrow> 's \<Rightarrow> snap_record list \<Rightarrow> bool" where
  \<comment> \<open>the writer has staged \<open>out\<close> for the target, away from the generation in use\<close>
  "writing p sv path m c s out \<longleftrightarrow> target_path c = path \<and> sw_generation (cp_writer c) = next_generation m \<and> writer_off (on_fd (nm_snap m)) (cp_writer c) \<and>
     sw_path (cp_writer c) = path \<and> sw_inv p sv path (next_generation m) out (cp_writer c) s"

definition reopening ::
  "profile \<Rightarrow> bytes \<Rightarrow> int \<Rightarrow> 's read_view \<Rightarrow> ns_module \<Rightarrow> compactor \<Rightarrow> 's \<Rightarrow> snap_record list \<Rightarrow> bool" where
  \<comment> \<open>the target holds \<open>out\<close> whole, and is being opened\<close>
  "reopening p path new v' m c s out \<longleftrightarrow> target_path c = path \<and> sw_generation (cp_writer c) = next_generation m \<and> sw_wf p (cp_writer c) \<and>
     writer_off (on_fd (nm_snap m)) (cp_writer c) \<and> opener_off (on_fd (nm_snap m)) (cp_reopen c) \<and>
     so_inv v' (snap_file (next_generation m) out) new (cp_reopen c) s"

definition cmp_inv ::
  "profile \<Rightarrow> 's snap_view \<Rightarrow> bytes \<Rightarrow> int \<Rightarrow> 's read_view \<Rightarrow> snap_record list \<Rightarrow> 's compacting \<Rightarrow> bool" where
  "cmp_inv p sv path new v' recs x \<longleftrightarrow>
     (case x of (m, c, s) \<Rightarrow>
        next_path m c = path \<and> (cp_phase c \<noteq> CMP_REOPEN \<longrightarrow> cp_reopen c = snap_opener_new) \<and>
        (case cp_phase c of
           CMP_IDLE \<Rightarrow> sw_wf p (cp_writer c)
         | CMP_OPEN \<Rightarrow> writing p sv path m c s [] \<and> cp_last c = None \<and> cp_snap_idx c = 0
         | CMP_MERGE \<Rightarrow> \<exists>out. writing p sv path m c s out \<and> merge_inv p recs m c out
         | CMP_FINISH \<Rightarrow> \<exists>out. writing p sv path m c s out \<and> merged_inv p recs m c out
         | CMP_REOPEN \<Rightarrow> \<exists>out. reopening p path new v' m c s out \<and> merged_inv p recs m c out
         | CMP_ROTATE \<Rightarrow> False))"

lemma merge_inv_moves:
  assumes "merge_inv p recs m c out" "moves (nm_bindings m) (nm_bindings m')" "same_below m m'" "nm_ok p recs m"
  shows "merge_inv p recs m' c out"
proof -
  have same: "in_use m' recs = in_use m recs" "below_view p recs m' = below_view p recs m"
    using assms(3) by (simp_all add: in_use_def same_below_def below_in_use)
  note cm = carried_moves [OF assms(2) emit_tag_nonzero covered_marks [OF assms(4) [unfolded nm_ok_def]]]
  show ?thesis using assms(1) cm by (simp add: merge_inv_def same)
qed

lemma merged_inv_moves:
  assumes "merged_inv p recs m c out" "moves (nm_bindings m) (nm_bindings m')" "same_below m m'" "nm_ok p recs m"
  shows "merged_inv p recs m' c out"
proof -
  have "below_view p recs m' = below_view p recs m"
    using assms(3) by (simp add: in_use_def same_below_def below_in_use)
  with carried_moves [OF assms(2) emit_tag_nonzero covered_marks [OF assms(4) [unfolded nm_ok_def]]] assms(1)
  show ?thesis by (simp add: merged_inv_def)
qed

lemma same_below_upd [simp]:
  "same_below m (m1\<lparr>nm_bindings := st\<rparr>) = same_below m m1" "same_below m (m1\<lparr>nm_leases := lt\<rparr>) = same_below m m1"
  "same_below m (m1\<lparr>nm_volume_resp := b\<rparr>) = same_below m m1" "same_below m (flush_set p req f m1) = same_below m m1"
  by (simp_all add: same_below_def flush_set_def)

lemma write_evicting_below: "write_evicting p e w m = (m', r) \<Longrightarrow> same_below m m'"
  by (auto simp: write_evicting_def evict_counted_def same_below_def split: prod.splits sum.splits ns_error.splits if_splits option.splits bool.splits)

lemma same_below_trans: "same_below m m1 \<Longrightarrow> same_below m1 m2 \<Longrightarrow> same_below m m2"
  by (simp add: same_below_def)

lemma judge_commit_below: "judge_commit p req cur kept g h rv m = (m', out) \<Longrightarrow> same_below m m'"
  using write_evicting_below
  by (fastforce simp: judge_commit_def Let_def elim!: same_below_trans [rotated] split: if_splits option.splits prod.splits sum.splits)

lemma judge_delete_below: "judge_delete p req cur h rv m = (m', out) \<Longrightarrow> same_below m m'"
  using write_evicting_below
  by (fastforce simp: judge_delete_def remove_binding_def Let_def elim!: same_below_trans [rotated]
      split: if_splits option.splits prod.splits sum.splits bool.splits)

lemma judge_below: "judge_volume_at p req cur kept m = (m', out) \<Longrightarrow> same_below m m'"
proof -
  have leased: "same_below (m\<lparr>nm_leases := lt\<rparr>) m1 \<Longrightarrow> same_below m m1" for lt m1 by (simp add: same_below_def)
  show "judge_volume_at p req cur kept m = (m', out) \<Longrightarrow> same_below m m'"
    by (auto simp: judge_volume_at_def Let_def split: if_splits option.splits prod.splits bool.splits
        dest!: judge_commit_below judge_delete_below leased)
qed

lemma apply_volume_below: "apply_volume p call req m s = (m', s', res) \<Longrightarrow> same_below m m'"
  by (auto simp: apply_volume_def judge_volume_def split: prod.splits sum.splits snap_read.splits dest: judge_below)

lemma apply_op_below:
  assumes "apply_op p call payload m s = (m', s', res)" "serving p call v g recs m s"
  shows "same_below m m'"
proof (cases "side_op payload")
  case False
  then show ?thesis using apply_op_does [OF assms(2) False] assms(1) by (auto simp: does_def obeys_def intro: same_below_arena)
next
  case True
  obtain b where b: "ns_peek_opcode payload = Some b" "b \<in> {OP_GC_RESERVE, OP_GC_RELEASE, OP_LEASE, OP_LEASE_RESTORE, OP_VOLUME}"
    using True by (auto simp: side_op_def split: option.splits)
  show ?thesis
  proof (cases "b = OP_VOLUME")
    case False
    then show ?thesis using side_frame [OF b False assms(1)] by (simp add: same_bindings_def)
  next
    case vol: True
    show ?thesis
    proof (cases "decode_volume_req p payload")
      case (Inl e)
      then show ?thesis using assms(1) b vol by (auto simp: apply_op_def with_decoded_def ns_opcodes same_below_def)
    next
      case (Inr req)
      then have "apply_volume p call req m s = (m', s', res)" using assms(1) b vol by (simp add: apply_op_def with_decoded_def ns_opcodes)
      then show ?thesis by (rule apply_volume_below)
    qed
  qed
qed

section \<open>Records between the turns\<close>

definition carries_on ::
  "profile \<Rightarrow> 's provider \<Rightarrow> 's read_view \<Rightarrow> u64 \<Rightarrow> snap_record list \<Rightarrow> 's snap_view \<Rightarrow> bytes \<Rightarrow> int \<Rightarrow> 's read_view \<Rightarrow>
   's compacting \<Rightarrow> 's compacting \<Rightarrow> bool" where
  \<comment> \<open>still the old generation, still the same view\<close>
  "carries_on p call v g recs sv path new v' x x' \<longleftrightarrow>
     (case x of (m, c, s) \<Rightarrow> case x' of (m', c', s') \<Rightarrow>
        serving p call v g recs m' s' \<and> cmp_inv p sv path new v' recs x' \<and> module_view p recs m' = module_view p recs m \<and>
        same_below m m' \<and> nm_leases m' = nm_leases m \<and> nm_gc_reserved m' = nm_gc_reserved m \<and>
        cp_snapshots_written c' = cp_snapshots_written c)"

lemma next_path_below:
  "same_below m m' \<Longrightarrow> next_path m' c = next_path m c" "same_below m m' \<Longrightarrow> next_generation m' = next_generation m"
  by (simp_all add: next_path_def next_generation_def same_below_def)

lemma record_inv:
  assumes store: "snap_store call path (on_fd (nm_snap m)) v sv new v'" and sv: "serving p call v g recs m s"
    and inv: "cmp_inv p sv path new v' recs (m, c, s)" and run: "apply_op p call payload m s = (m', s', res)"
  shows "cmp_inv p sv path new v' recs (m', c, s')" "serving p call v g recs m' s'" "same_below m m'"
proof -
  show sb: "same_below m m'" by (rule apply_op_below [OF run sv])
  show "serving p call v g recs m' s'" by (rule apply_op_serving [OF sv run])
  have same: "sv_same sv s s'" "rv_content v' s' = rv_content v' s" "rv_pos v' s' = rv_pos v' s"
    using store_reading [OF store apply_op_made [OF run]] by simp_all
  have fd: "on_fd (nm_snap m') = on_fd (nm_snap m)" "next_path m' c = next_path m c" "next_generation m' = next_generation m"
    using sb next_path_below [OF sb] by (simp_all add: same_below_def)
  note mv = apply_op_moves [OF sv run] and nm = serving_ok [OF sv]
  have wi: "writing p sv path m' c s' out" if "writing p sv path m c s out" for out
    using that same_inv [OF _ same(1)] by (simp add: writing_def fd)
  have oi: "reopening p path new v' m' c s' out" if "reopening p path new v' m c s out" for out
    using that same(2,3) by (simp add: reopening_def so_inv_def fd)
  note mi = merge_inv_moves [OF _ mv sb nm] merged_inv_moves [OF _ mv sb nm]
  show "cmp_inv p sv path new v' recs (m', c, s')"
  proof (cases "cp_phase c")
    case CMP_MERGE
    then obtain out where o: "writing p sv path m c s out" "merge_inv p recs m c out" using inv by (auto simp: cmp_inv_def)
    have "writing p sv path m' c s' out" "merge_inv p recs m' c out" using wi [OF o(1)] mi(1) [OF o(2)] by simp_all
    then show ?thesis using inv CMP_MERGE by (auto simp: cmp_inv_def fd)
  next
    case CMP_FINISH
    then obtain out where o: "writing p sv path m c s out" "merged_inv p recs m c out" using inv by (auto simp: cmp_inv_def)
    have "writing p sv path m' c s' out" "merged_inv p recs m' c out" using wi [OF o(1)] mi(2) [OF o(2)] by simp_all
    then show ?thesis using inv CMP_FINISH by (auto simp: cmp_inv_def fd)
  next
    case CMP_REOPEN
    then obtain out where o: "reopening p path new v' m c s out" "merged_inv p recs m c out" using inv by (auto simp: cmp_inv_def)
    have "reopening p path new v' m' c s' out" "merged_inv p recs m' c out" using oi [OF o(1)] mi(2) [OF o(2)] by simp_all
    then show ?thesis using inv CMP_REOPEN by (auto simp: cmp_inv_def fd)
  qed (use inv wi in \<open>simp_all add: cmp_inv_def fd\<close>)
qed

section \<open>The turns\<close>

lemma abort_carries:
  assumes store: "snap_store call path (on_fd (nm_snap m)) v sv new v'" and sv: "serving p call v g recs m s"
    and c: "next_path m c = path" "sw_wf p (cp_writer c)" "writer_off (on_fd (nm_snap m)) (cp_writer c)"
      "opener_off (on_fd (nm_snap m)) (cp_reopen c)"
  shows "carries_on p call v g recs sv path new v' (m, c, s) (fst (merge_abort call (m, c, s)))"
proof -
  obtain w s1 where a: "sw_abandon call (cp_writer c) s = (w, s1)" by (metis surj_pair)
  obtain o1 s2 where b: "snap_abandon call (cp_reopen c) s1 = (o1, s2)" by (metis surj_pair)
  note ka = writer_abandon_made [OF a c(3), of path] and kb = opener_abandon_made [OF b c(4), of path]
  have "serving p call v g recs m s2"
    by (rule serving_spared [OF store made_trans [OF ka [THEN conjunct1] kb [THEN conjunct1]] sv])
  moreover have "next_path m (c\<lparr>cp_writer := w, cp_reopen := o1, cp_phase := CMP_IDLE, cp_running := False\<rparr>) = path"
    by (subst path_cong(2) [of _ c]) (simp_all add: c(1))
  moreover have "sw_wf p w" using ka c(2) by (simp add: sw_wf_def)
  ultimately show ?thesis using kb
    by (simp add: carries_on_def merge_abort_def compaction_abort_def a b cmp_inv_def)
qed

lemma start_carries:
  assumes sv: "serving p call v g recs m s" and inv: "cmp_inv p sv path new v' recs (m, c, s)" and idle: "cp_phase c = CMP_IDLE"
    and run: "compaction_start m c = (c', go)"
  shows "carries_on p call v g recs sv path new v' (m, c, s) (m, c', s)"
proof (cases go)
  case False
  then have "c' = c" using run by (auto simp: compaction_start_def Let_def split: if_splits prod.splits bool.splits)
  then show ?thesis using sv inv by (simp add: carries_on_def)
next
  case True
  define c1 where "c1 = c\<lparr>cp_target_slot := (if nm_snap_active m then cp_snap_slot c XOR 1 else 0)\<rparr>"
  have path: "target_path c1 = path" using inv by (simp add: cmp_inv_def next_path_def c1_def)
  define gen where "gen = next_generation m"
  obtain w where st: "sw_start path gen (cp_writer c) = (w, True)"
    and c': "c' = c1\<lparr>cp_writer := w, cp_running := True, cp_phase := CMP_OPEN, cp_snap_idx := 0, cp_last := None\<rparr>"
    using run True path unfolding c1_def gen_def next_generation_def
    by (auto simp: compaction_start_def Let_def split: if_splits prod.splits bool.splits)
  have wf: "sw_wf p (cp_writer c)" using inv idle by (simp add: cmp_inv_def)
  note w = sw_start_inv(1) [OF wf st, where v = sv and s = s] sw_start_inv(2) [OF wf st]
  then have g: "sw_generation w = gen" "sw_path w = path" by (simp_all add: sw_inv_def)
  have "sw_fd_plus1 w = 0" using st by (auto simp: sw_start_def split: if_splits)
  then have "writer_off old w" for old using w(2) by (simp add: writer_off_def)
  moreover have "target_path c' = path" "next_path m c' = path"
    using path path_cong(1) [of c' c1] path_cong(2) [of c' c] inv by (simp_all add: c' c1_def cmp_inv_def)
  moreover have "cp_writer c' = w" "cp_phase c' = CMP_OPEN" "cp_snap_idx c' = 0" "cp_last c' = None"
    "cp_snapshots_written c' = cp_snapshots_written c" "cp_reopen c' = cp_reopen c" by (simp_all add: c' c1_def)
  ultimately show ?thesis using sv inv idle w(1) g by (simp add: carries_on_def cmp_inv_def writing_def gen_def)
qed

lemma flush_inv:
  assumes tg: "snap_target call path v" and inv: "sw_inv p v path g recs w s" and run: "sw_flush p call w s = (w', s', r)"
  shows "sw_inv p v path g recs w' s'" "sw_phase w' = sw_phase w"
proof -
  have "sw_inv p v path g recs w' s' \<and> sw_phase w' = sw_phase w"
  proof (cases "sw_phase w = W_RECORDS")
    case True
    note i = inv [unfolded sw_inv_def sw_at_def True, simplified]
    have d: "drain_stage p call w s = (w', s', r)" using run True by (simp add: sw_flush_def)
    have "sw_streams p v recs w s" "sw_wf p w" "sv_fd v s = sw_fd_plus1 w - 1" using i by simp_all
    note ds = drain_streams [OF tg d this]
    show ?thesis using ds i by (simp add: sw_inv_def sw_at_def True)
  qed (use run inv in \<open>simp add: sw_flush_def\<close>)
  then show "sw_inv p v path g recs w' s'" "sw_phase w' = sw_phase w" by simp_all
qed

lemma merge_inv_writer:
  "sw_generation w = sw_generation (cp_writer c) \<Longrightarrow> merge_inv p recs m (c\<lparr>cp_writer := w\<rparr>) out = merge_inv p recs m c out"
  "sw_generation w = sw_generation (cp_writer c) \<Longrightarrow> merged_inv p recs m (c\<lparr>cp_writer := w\<rparr>) out = merged_inv p recs m c out"
  by (simp_all add: merge_inv_def merged_inv_def passed_def)

lemma writing_same:
  assumes "writing p sv path m c s out" "sv_same sv s s'"
  shows "writing p sv path m c s' out"
  using assms same_inv by (auto simp: writing_def)

lemma writing_moved:
  assumes w: "writing p sv path m c s out" and i: "sw_inv p sv path (next_generation m) out' w s'"
    and k: "same_writer (cp_writer c) w" "writer_off (on_fd (nm_snap m)) w"
  shows "writing p sv path m (c\<lparr>cp_writer := w\<rparr>) s' out'"
proof -
  have "target_path (c\<lparr>cp_writer := w\<rparr>) = target_path c" by (rule path_cong) simp_all
  then show ?thesis using assms by (simp add: writing_def same_writer_def)
qed

lemma merge_old_reads:
  assumes sv: "serving p call v g recs m s" and run: "merge_old p call (m, c, s) = (s', r)"
  shows "serving p call v g recs m s'" "made call (reading (on_fd (nm_snap m))) s s'"
    and "r = SrReady old \<Longrightarrow> old = old_next m recs c"
proof -
  have "serving p call v g recs m s' \<and> made call (reading (on_fd (nm_snap m))) s s' \<and> (r = SrReady old \<longrightarrow> old = old_next m recs c)"
  proof (cases "nm_snap_active m \<and> cp_snap_idx c < unat (on_count (nm_snap m))")
    case True
    then have b: "snap_backs p v g recs (nm_snap m) s" "log_reads call (on_fd (nm_snap m)) v"
      using sv by (simp_all add: serving_def)
    obtain s1 q where k: "snap_read_at p call (nm_snap m) (cp_snap_idx c) s = (s1, q)" by (metis surj_pair)
    note rd = snap_read_at_reads [OF b(2) k b(1)]
    have s': "s' = s1" and r: "r = (case q of SrReady a \<Rightarrow> SrReady (Some a) | SrPending \<Rightarrow> SrPending | SrFailed \<Rightarrow> SrFailed)"
      using run True k by (auto simp: merge_old_def split: snap_read.splits)
    have "serving p call v g recs m s1" using sv rd(1) by (simp add: serving_def snap_backs_def)
    moreover have "old = old_next m recs c" if "r = SrReady old"
    proof -
      have "\<exists>a. q = SrReady a \<and> old = Some a" using r that by (cases q) simp_all
      then obtain a where a: "q = SrReady a" "old = Some a" by blast
      show ?thesis using rd(2) [OF a(1)] True by (simp add: a(2) old_next_def in_use_def)
    qed
    ultimately show ?thesis using snap_read_at_made [OF k] s' by simp
  next
    case False
    then have e: "s' = s" "r = SrReady None" using run by (auto simp: merge_old_def)
    have "old_next m recs c = None"
      using False sv by (auto simp: old_next_def in_use_def serving_def snap_backs_def)
    then show ?thesis using e sv by simp
  qed
  then show "serving p call v g recs m s'" "made call (reading (on_fd (nm_snap m))) s s'"
    "r = SrReady old \<Longrightarrow> old = old_next m recs c" by simp_all
qed

lemma carries_trans:
  "carries_on p call v g recs sv path new v' x x1 \<Longrightarrow> carries_on p call v g recs sv path new v' x1 x2 \<Longrightarrow>
   carries_on p call v g recs sv path new v' x x2"
  by (auto simp: carries_on_def same_below_def)

lemma carries_here:
  "serving p call v g recs m s' \<Longrightarrow> cmp_inv p sv path new v' recs (m, c', s') \<Longrightarrow>
   cp_snapshots_written c' = cp_snapshots_written c \<Longrightarrow> carries_on p call v g recs sv path new v' (m, c, s) (m, c', s')"
  by (simp add: carries_on_def)

lemma merge_abort_writing:
  assumes store: "snap_store call path (on_fd (nm_snap m)) v sv new v'" and sv: "serving p call v g recs m s"
    and w: "writing p sv path m c s out" "next_path m c = path" "cp_reopen c = snap_opener_new"
    and run: "merge_abort call (m, c, s) = (x', t)"
  shows "carries_on p call v g recs sv path new v' (m, c, s) x'" "t = MtHeld"
proof -
  show "carries_on p call v g recs sv path new v' (m, c, s) x'"
    using abort_carries [OF store sv w(2)] w run by (simp add: writing_def sw_inv_def)
  show "t = MtHeld" using run by (auto simp: merge_abort_def split: prod.splits)
qed

lemma stage_record_off: "sw_stage_record p r w = (w', ok) \<Longrightarrow> writer_off old w \<Longrightarrow> same_writer w w' \<and> writer_off old w'"
  by (auto simp: sw_stage_record_def writer_off_def same_writer_def sw_path_def split: if_splits prod.splits)

lemma merge_pick_carries:
  assumes store: "snap_store call path (on_fd (nm_snap m)) v sv new v'" and sv: "serving p call v g recs m s"
    and w: "writing p sv path m c s out" "next_path m c = path" "cp_reopen c = snap_opener_new" "cp_phase c = CMP_MERGE"
    and mi: "merge_inv p recs m c out"
    and run: "merge_pick p call (min_key_above (nm_bindings m) (cp_last c)) (old_next m recs c) (m, c, s) = ((m', c', s'), t)"
  shows "carries_on p call v g recs sv path new v' (m, c, s) (m', c', s')" "t = MtStaged \<Longrightarrow> cp_phase c' = CMP_MERGE"
proof -
  let ?C = "carries_on p call v g recs sv path new v' (m, c, s) (m', c', s') \<and> (t = MtStaged \<longrightarrow> cp_phase c' = CMP_MERGE)"
  note use = serving_in_use [OF sv]
  from merge_pick_turn [OF mi use(1) serving_ok [OF sv] use(2) run] have ?C
  proof (elim disjE conjE)
    assume e: "t = MtMerged" "m' = m" "c' = c\<lparr>cp_phase := CMP_FINISH\<rparr>" "s' = s" "merged_inv p recs m c out"
    have "target_path c' = target_path c" "next_path m c' = next_path m c"
      by (rule path_cong, simp_all add: e)+
    then have "writing p sv path m c' s out" "next_path m c' = path" "merged_inv p recs m c' out"
      using w e by (simp_all add: writing_def merged_inv_def)
    then show ?C using sv w by (auto simp: carries_on_def cmp_inv_def e)
  next
    assume e: "t = MtStaged" "s' = s" and st: "staged_turn p recs m c out m' c'"
    then obtain r w1 f where
      r: "snap_ok p r" "sw_stage_record p r (cp_writer c) = (w1, True)" "merge_inv p recs m' c' (out @ [r])" "nm_ok p recs m'"
      "module_view p recs m' = module_view p recs m" "m' = m\<lparr>nm_bindings := f\<rparr>"
      "c' = c\<lparr>cp_writer := w1, cp_snap_idx := cp_snap_idx c', cp_last := cp_last c'\<rparr>"
      unfolding staged_turn_def by metis
    have c': "cp_writer c' = w1" "cp_phase c' = CMP_MERGE" "cp_reopen c' = snap_opener_new"
      "cp_snapshots_written c' = cp_snapshots_written c" "cp_wal_path c' = cp_wal_path c" "cp_target_slot c' = cp_target_slot c"
      "cp_snap_slot c' = cp_snap_slot c"
      by (subst r(7), use w in simp)+
    have same: "same_below m m'" by (simp add: r(6) same_below_def)
    have i: "sw_inv p sv path (next_generation m) (out @ [r]) w1 s"
      by (rule stage_record_inv [OF _ r(1,2)]) (use w in \<open>simp add: writing_def\<close>)
    have k: "same_writer (cp_writer c) w1" "writer_off (on_fd (nm_snap m)) w1"
      using stage_record_off [OF r(2), of "on_fd (nm_snap m)"] w by (simp_all add: writing_def)
    have wr: "writing p sv path m (c\<lparr>cp_writer := w1\<rparr>) s (out @ [r])" by (rule writing_moved [OF w(1) i k])
    have "target_path c' = target_path (c\<lparr>cp_writer := w1\<rparr>)" "next_path m' c' = path"
      using next_path_below(1) [OF same, of c'] path_cong(2) [of c' c] w path_cong(1) [of c' "c\<lparr>cp_writer := w1\<rparr>"]
      by (simp_all add: c')
    then have "writing p sv path m' c' s (out @ [r])" "next_path m' c' = path"
      using wr next_path_below(2) [OF same] by (simp_all add: writing_def c' r(6))
    moreover have "serving p call v g recs m' s" by (rule serving_after [OF sv r(4) same])
    ultimately show ?C using r same by (auto simp: carries_on_def cmp_inv_def e c')
  next
    assume "((m', c', s'), t) = merge_abort call (m, c, s)"
    from merge_abort_writing [OF store sv w(1-3) this [symmetric]] show ?C by simp
  qed
  then show "carries_on p call v g recs sv path new v' (m, c, s) (m', c', s')" "t = MtStaged \<Longrightarrow> cp_phase c' = CMP_MERGE"
    by simp_all
qed

lemma writer_moved_path:
  "next_path m (c\<lparr>cp_writer := w\<rparr>) = next_path m c" "next_path m (c\<lparr>cp_reopen := o1\<rparr>) = next_path m c"
  "next_path m (c\<lparr>cp_phase := ph\<rparr>) = next_path m c"
  "target_path (c\<lparr>cp_writer := w\<rparr>) = target_path c" "target_path (c\<lparr>cp_reopen := o1\<rparr>) = target_path c"
  "target_path (c\<lparr>cp_phase := ph\<rparr>) = target_path c"
  by (rule path_cong; simp)+

text \<open>A poll of the writer, whatever it answered: the old generation is not touched.\<close>

lemma flush_carries:
  assumes store: "snap_store call path (on_fd (nm_snap m)) v sv new v'" and sv: "serving p call v g recs m s"
    and w: "writing p sv path m c s out" "next_path m c = path" and run: "sw_flush p call (cp_writer c) s = (w1, s1, q)"
  shows "serving p call v g recs m s1" "writing p sv path m (c\<lparr>cp_writer := w1\<rparr>) s1 out" "next_path m (c\<lparr>cp_writer := w1\<rparr>) = path"
    and "sw_generation w1 = sw_generation (cp_writer c)"
proof -
  have off: "writer_off (on_fd (nm_snap m)) (cp_writer c)" and i: "sw_inv p sv path (next_generation m) out (cp_writer c) s"
    using w(1) by (simp_all add: writing_def)
  note k = flush_made [OF run off, of path]
  show "serving p call v g recs m s1" using serving_spared [OF store _ sv] k by blast
  have tg: "snap_target call path sv" using store by (simp add: snap_store_def)
  show "writing p sv path m (c\<lparr>cp_writer := w1\<rparr>) s1 out"
    by (rule writing_moved [OF w(1) flush_inv(1) [OF tg i run]]) (use k in blast)+
  show "next_path m (c\<lparr>cp_writer := w1\<rparr>) = path" "sw_generation w1 = sw_generation (cp_writer c)"
    using w(2) k by (simp_all add: writer_moved_path same_writer_def)
qed

lemma merge_one_carries:
  assumes store: "snap_store call path (on_fd (nm_snap m)) v sv new v'" and sv: "serving p call v g recs m s"
    and inv: "cmp_inv p sv path new v' recs (m, c, s)" and ph: "cp_phase c = CMP_MERGE"
    and run: "merge_one p call (m, c, s) = ((m', c', s'), t)"
  shows "carries_on p call v g recs sv path new v' (m, c, s) (m', c', s') \<and> (t = MtStaged \<longrightarrow> cp_phase c' = CMP_MERGE)"
proof -
  obtain out where w: "writing p sv path m c s out" and mi: "merge_inv p recs m c out"
    and np: "next_path m c = path" and re: "cp_reopen c = snap_opener_new"
    using inv ph by (auto simp: cmp_inv_def)
  obtain w1 s1 q where f: "sw_flush p call (cp_writer c) s = (w1, s1, q)" by (metis prod_cases3)
  define c1 where "c1 = c\<lparr>cp_writer := w1\<rparr>"
  note k = flush_carries [OF store sv w np f, folded c1_def]
  have c1: "cp_phase c1 = CMP_MERGE" "cp_reopen c1 = snap_opener_new" "cp_last c1 = cp_last c" using ph re by (simp_all add: c1_def)
  have mi1: "merge_inv p recs m c1 out" using mi merge_inv_writer(1) [OF k(4)] by (simp add: c1_def)
  have held: "carries_on p call v g recs sv path new v' (m, c, s) (m, c1, s2)"
    if "serving p call v g recs m s2" "writing p sv path m c1 s2 out" for s2
    using that c1 k(3) mi1 by (intro carries_here) (auto simp: cmp_inv_def c1_def)
  show ?thesis
  proof (cases q)
    case WrPending
    then show ?thesis using run f held [OF k(1,2)] by (simp add: merge_one_def c1_def)
  next
    case WrFailed
    then have "merge_abort call (m, c1, s1) = ((m', c', s'), t)" using run f by (simp add: merge_one_def c1_def)
    from merge_abort_writing [OF store k(1,2,3) c1(2) this] show ?thesis using carries_trans [OF held [OF k(1,2)]] by simp
  next
    case WrReady
    obtain s2 o2 where o2: "merge_old p call (m, c1, s1) = (s2, o2)" by (metis surj_pair)
    note rd = merge_old_reads [OF k(1) o2]
    have wr: "writing p sv path m c1 s2 out" using writing_same [OF k(2)] store_reading [OF store rd(2)] by blast
    have run1: "(case o2 of SrPending \<Rightarrow> ((m, c1, s2), MtHeld) | SrFailed \<Rightarrow> merge_abort call (m, c1, s2)
        | SrReady old \<Rightarrow> merge_pick p call (min_key_above (nm_bindings m) (cp_last c1)) old (m, c1, s2)) = ((m', c', s'), t)"
      using run f WrReady o2 by (simp add: merge_one_def c1_def [symmetric] Let_def c1(3) split: snap_read.splits)
    show ?thesis
    proof (cases o2)
      case SrPending
      then show ?thesis using run1 held [OF rd(1) wr] by simp
    next
      case SrFailed
      then have "merge_abort call (m, c1, s2) = ((m', c', s'), t)" using run1 by simp
      from merge_abort_writing [OF store rd(1) wr k(3) c1(2) this] show ?thesis using carries_trans [OF held [OF rd(1) wr]] by simp
    next
      case (SrReady old)
      then have "merge_pick p call (min_key_above (nm_bindings m) (cp_last c1)) (old_next m recs c1) (m, c1, s2) = ((m', c', s'), t)"
        using run1 rd(3) by simp
      from merge_pick_carries [OF store rd(1) wr k(3) c1(2,1) mi1 this] show ?thesis
        using carries_trans [OF held [OF rd(1) wr]] by blast
    qed
  qed
qed

lemma store_below: "same_below m m' \<Longrightarrow> snap_store call path (on_fd (nm_snap m)) v sv new v' \<Longrightarrow> snap_store call path (on_fd (nm_snap m')) v sv new v'"
  by (simp add: same_below_def)

lemma merge_turns_carries:
  assumes "snap_store call path (on_fd (nm_snap m)) v sv new v'" "serving p call v g recs m s"
    and "cmp_inv p sv path new v' recs (m, c, s)" "cp_phase c = CMP_MERGE" "merge_turns p call n (m, c, s) = (x', go)"
  shows "carries_on p call v g recs sv path new v' (m, c, s) x'"
  using assms
proof (induction n arbitrary: m c s)
  case 0
  note store = 0(1) and sv = 0(2)
  obtain out where w: "writing p sv path m c s out" and mi: "merge_inv p recs m c out"
    and np: "next_path m c = path" and re: "cp_reopen c = snap_opener_new"
    using 0(3,4) by (auto simp: cmp_inv_def)
  obtain w1 s1 q where f: "sw_flush p call (cp_writer c) s = (w1, s1, q)" by (metis prod_cases3)
  define c1 where "c1 = c\<lparr>cp_writer := w1\<rparr>"
  note k = flush_carries [OF store sv w np f, folded c1_def]
  have c1: "cp_phase c1 = CMP_MERGE" "cp_reopen c1 = snap_opener_new" using 0(4) re by (simp_all add: c1_def)
  have "merge_inv p recs m c1 out" using mi merge_inv_writer(1) [OF k(4)] by (simp add: c1_def)
  then have held: "carries_on p call v g recs sv path new v' (m, c, s) (m, c1, s1)"
    using k c1 by (intro carries_here) (auto simp: cmp_inv_def c1_def)
  show ?case
  proof (cases "q = WrFailed")
    case True
    obtain x1 t where a: "merge_abort call (m, c1, s1) = (x1, t)" by (metis surj_pair)
    have "x' = x1" using 0(5) f True a by (simp add: c1_def)
    then show ?thesis using carries_trans [OF held merge_abort_writing(1) [OF store k(1,2,3) c1(2) a]] by simp
  next
    case False
    then have "x' = (m, c1, s1)" using 0(5) f by (cases q) (simp_all add: c1_def)
    then show ?thesis using held by simp
  qed
next
  case (Suc n)
  obtain m1 c1 s1 t where o1: "merge_one p call (m, c, s) = ((m1, c1, s1), t)" by (metis prod_cases3 surj_pair)
  note k = merge_one_carries [OF Suc(2-5) o1]
  show ?case
  proof (cases "t = MtStaged")
    case True
    then have "merge_turns p call n (m1, c1, s1) = (x', go)" using Suc(6) o1 by simp
    moreover have "serving p call v g recs m1 s1" "cmp_inv p sv path new v' recs (m1, c1, s1)" "same_below m m1"
      using k by (simp_all add: carries_on_def)
    ultimately have "carries_on p call v g recs sv path new v' (m1, c1, s1) x'"
      using Suc(1) [OF store_below [OF _ Suc(2)]] k True by blast
    then show ?thesis using carries_trans k by blast
  next
    case False
    then have "x' = (m1, c1, s1)" using Suc(6) o1 by (cases t) simp_all
    then show ?thesis using k by simp
  qed
qed

lemma open_carries:
  assumes store: "snap_store call path (on_fd (nm_snap m)) v sv new v'" and sv: "serving p call v g recs m s"
    and inv: "cmp_inv p sv path new v' recs (m, c, s)" and ph: "cp_phase c = CMP_OPEN"
    and run: "compaction_turn p call (m, c, s) = (x', go)"
  shows "carries_on p call v g recs sv path new v' (m, c, s) x'"
proof -
  have w: "writing p sv path m c s []" and np: "next_path m c = path" and re: "cp_reopen c = snap_opener_new"
    and fresh: "cp_last c = None" "cp_snap_idx c = 0"
    using inv ph by (auto simp: cmp_inv_def)
  obtain w1 s1 q where f: "sw_poll_open p call (cp_writer c) s = (w1, s1, q)" by (metis prod_cases3)
  define c1 where "c1 = c\<lparr>cp_writer := w1\<rparr>"
  have tg: "snap_target call path sv" and nf: "new_fds call (on_fd (nm_snap m))" using store by (simp_all add: snap_store_def)
  have off: "writer_off (on_fd (nm_snap m)) (cp_writer c)" "sw_path (cp_writer c) = path"
    and i: "sw_inv p sv path (next_generation m) [] (cp_writer c) s"
    using w by (simp_all add: writing_def)
  note k = poll_open_made [OF f off nf]
  have sv1: "serving p call v g recs m s1" using serving_spared [OF store _ sv] k by blast
  have w1: "writing p sv path m c1 s1 []" unfolding c1_def
    by (rule writing_moved [OF w poll_open_inv [OF tg i f]]) (use k in blast)+
  have c1: "next_path m c1 = path" "cp_reopen c1 = snap_opener_new" "cp_last c1 = None" "cp_snap_idx c1 = 0" "cp_phase c1 = CMP_OPEN"
    using np re fresh ph by (simp_all add: c1_def writer_moved_path)
  have held: "carries_on p call v g recs sv path new v' (m, c, s) (m, c1, s1)"
    using sv1 w1 c1 by (intro carries_here) (auto simp: cmp_inv_def c1_def)
  show ?thesis
  proof (cases q)
    case WrPending
    then show ?thesis using run f held ph by (simp add: compaction_turn_def c1_def)
  next
    case WrFailed
    obtain x1 t where a: "merge_abort call (m, c1, s1) = (x1, t)" by (metis surj_pair)
    have "x' = x1" using run f WrFailed a ph by (simp add: compaction_turn_def c1_def)
    then show ?thesis using carries_trans [OF held merge_abort_writing(1) [OF store sv1 w1 c1(1,2) a]] by simp
  next
    case WrReady
    define c2 where "c2 = c1\<lparr>cp_phase := CMP_MERGE\<rparr>"
    have x': "x' = (m, c2, s1)" using run f WrReady ph by (simp add: compaction_turn_def c1_def c2_def)
    have "writing p sv path m c2 s1 []" using w1 by (simp add: writing_def c2_def writer_moved_path)
    moreover have "merge_inv p recs m c2 []" by (rule merge_inv_start) (use c1 in \<open>simp_all add: c2_def\<close>)
    ultimately show ?thesis using sv1 c1 unfolding x'
      by (intro carries_here) (auto simp: cmp_inv_def c2_def c1_def writer_moved_path)
  qed
qed

lemma finish_carries:
  assumes store: "snap_store call path (on_fd (nm_snap m)) v sv new v'" and sv: "serving p call v g recs m s"
    and inv: "cmp_inv p sv path new v' recs (m, c, s)" and ph: "cp_phase c = CMP_FINISH"
    and run: "compaction_turn p call (m, c, s) = (x', go)"
  shows "carries_on p call v g recs sv path new v' (m, c, s) x'"
proof -
  obtain out where w: "writing p sv path m c s out" and mi: "merged_inv p recs m c out"
    and np: "next_path m c = path" and re: "cp_reopen c = snap_opener_new"
    using inv ph by (auto simp: cmp_inv_def)
  obtain w1 s1 q where f: "sw_poll_finish p call (cp_writer c) s = (w1, s1, q)" by (metis prod_cases3)
  define c1 where "c1 = c\<lparr>cp_writer := w1\<rparr>"
  have tg: "snap_target call path sv" and image: "rv_content v' s1 \<in> sv_images sv s1" using store by (simp_all add: snap_store_def)
  have off: "writer_off (on_fd (nm_snap m)) (cp_writer c)" "sw_path (cp_writer c) = path"
    and i: "sw_inv p sv path (next_generation m) out (cp_writer c) s"
    using w by (simp_all add: writing_def)
  note k = poll_finish_made [OF f off] and fi = poll_finish_inv [OF tg i f]
  have sv1: "serving p call v g recs m s1" using serving_spared [OF store _ sv] k by blast
  have gen: "sw_generation w1 = sw_generation (cp_writer c)" using k by (simp add: same_writer_def)
  have w1: "writing p sv path m c1 s1 out" unfolding c1_def
    by (rule writing_moved [OF w fi [THEN conjunct1]]) (use k in blast)+
  have mi1: "merged_inv p recs m c1 out" using mi merge_inv_writer(2) [OF gen] by (simp add: c1_def)
  have c1: "next_path m c1 = path" "cp_reopen c1 = snap_opener_new" "cp_phase c1 = CMP_FINISH"
    using np re ph by (simp_all add: c1_def writer_moved_path)
  have held: "carries_on p call v g recs sv path new v' (m, c, s) (m, c1, s1)"
    using sv1 w1 c1 mi1 by (intro carries_here) (auto simp: cmp_inv_def c1_def)
  show ?thesis
  proof (cases q)
    case WrPending
    then show ?thesis using run f held ph by (simp add: compaction_turn_def c1_def)
  next
    case WrFailed
    obtain x1 t where a: "merge_abort call (m, c1, s1) = (x1, t)" by (metis surj_pair)
    have "x' = x1" using run f WrFailed a ph by (simp add: compaction_turn_def c1_def)
    then show ?thesis using carries_trans [OF held merge_abort_writing(1) [OF store sv1 w1 c1(1,2) a]] by simp
  next
    case WrReady
    define c2 where "c2 = c1\<lparr>cp_phase := CMP_REOPEN\<rparr>"
    have x': "x' = (m, c2, s1)" using run f WrReady ph by (simp add: compaction_turn_def c1_def c2_def)
    have "rv_content v' s1 = snap_file (next_generation m) out"
      using fi WrReady image by auto
    then have "reopening p path new v' m c2 s1 out"
      using w1 c1(2) so_inv_new by (simp add: reopening_def writing_def sw_inv_def c2_def writer_moved_path)
    moreover have "merged_inv p recs m c2 out" using mi1 by (simp add: merged_inv_def c2_def)
    ultimately show ?thesis using sv1 c1 unfolding x'
      by (intro carries_here) (auto simp: cmp_inv_def c2_def c1_def writer_moved_path)
  qed
qed

section \<open>The switch\<close>

definition switched ::
  "profile \<Rightarrow> 's provider \<Rightarrow> int \<Rightarrow> 's read_view \<Rightarrow> snap_record list \<Rightarrow> 's compacting \<Rightarrow> 's compacting \<Rightarrow> bool" where
  \<comment> \<open>the next generation is the one in use, on \<open>new\<close>, and the view is the same\<close>
  "switched p call new v' recs x x' \<longleftrightarrow>
     (case x of (m, c, s) \<Rightarrow> case x' of (m', c', s') \<Rightarrow>
        (\<exists>out. serving p call v' (next_generation m) out m' s' \<and> module_view p out m' = module_view p recs m) \<and>
        nm_snap_active m' \<and> on_fd (nm_snap m') = new \<and> on_generation (nm_snap m') = next_generation m \<and>
        nm_leases m' = nm_leases m \<and> nm_gc_reserved m' = nm_gc_reserved m \<and>
        target_path (c'\<lparr>cp_target_slot := cp_snap_slot c'\<rparr>) = next_path m c \<and> cp_snapshots_written c' = cp_snapshots_written c + 1 \<and>
        cp_phase c' \<in> {CMP_IDLE, CMP_ROTATE} \<and> cp_reopen c' = snap_opener_new \<and> sw_wf p (cp_writer c'))"

lemma open_step_ends: "snap_open_step p call target w s = (w', s', Some (SoOpened sn)) \<Longrightarrow> w' = snap_opener_new"
  by (auto simp: snap_open_step_def snap_invalid_def Let_def split: so_phase.splits prod.splits if_splits snap_read.splits)

lemma open_loop_ends: "snap_open_loop p call target w s = (w', s', SoOpened sn) \<Longrightarrow> w' = snap_opener_new"
proof (induction p call target w s rule: snap_open_loop.induct)
  case (1 p call target w s)
  obtain w1 s1 q where st: "snap_open_step p call target w s = (w1, s1, q)" by (metis prod_cases3)
  show ?case
  proof (cases q)
    case None
    then have "snap_open_loop p call target w1 s1 = (w', s', SoOpened sn)" using 1(2) st by (simp add: snap_open_loop.simps [of p call target w s])
    then show ?thesis using 1(1) [OF st [symmetric] refl None] by blast
  next
    case (Some x)
    then show ?thesis using 1(2) st open_step_ends by (simp add: snap_open_loop.simps [of p call target w s])
  qed
qed

lemma file_fits: "\<forall>r\<in>set out. snap_ok p r \<Longrightarrow> length (snap_file g out) < 2 ^ 32 \<Longrightarrow> snap_fits p out"
  using length_chunks [of out snap_bytes "REC_SIZE p"] by (simp add: snap_file_def snap_fits_def length_snap_bytes)

lemma switch_serves:
  assumes store: "snap_store call path (on_fd (nm_snap m)) v sv new v'" and nm: "nm_ok p recs m"
    and c: "sw_generation (cp_writer c) = next_generation m" "cp_reopen c = snap_opener_new" "sw_wf p (cp_writer c)"
      "target_path c = next_path m c"
    and mi: "merged_inv p recs m c out"
    and fl: "rv_content v' s = snap_file (next_generation m) out" "length (snap_file (next_generation m) out) < 2 ^ 32"
    and sn: "sn = snap_handle (snap_file (next_generation m) out) new" and run: "switch_to call sn (m, c, s) = (x', go)"
  shows "switched p call new v' recs (m, c, s) x'"
proof -
  let ?g = "next_generation m" and ?st = "finalize_emitted (nm_bindings m) (emit_tag (sw_generation (cp_writer c)))"
  define s1 where "s1 = (if on_fd (nm_snap m) \<ge> 0 then fst (wal_close call (on_fd (nm_snap m)) s) else s)"
  define m1 where "m1 = m\<lparr>nm_snap_active := True, nm_snap := sn, nm_bindings := ?st\<rparr>"
  define c0 where "c0 = c\<lparr>cp_snap_slot := cp_target_slot c, cp_snapshots_written := cp_snapshots_written c + 1\<rparr>"
  define c1 where "c1 = (if cp_wal_fd c < 0 then c0\<lparr>cp_phase := CMP_IDLE, cp_running := False\<rparr> else c0\<lparr>cp_phase := CMP_ROTATE\<rparr>)"
  have x': "x' = (m1, c1, s1)"
    using run by (auto simp: switch_to_def Let_def s1_def m1_def c1_def c0_def split: if_splits)
  have mg: "snap_sorted p out" "\<forall>r\<in>set out. snap_ok p r"
    "\<And>k. carried (below_view p recs m) (out_view p out) (emit_tag (sw_generation (cp_writer c))) (nm_bindings m) k"
    using mi unfolding merged_inv_def by blast+
  have "rv_content v' s1 = rv_content v' s"
  proof (cases "on_fd (nm_snap m) \<ge> 0")
    case True
    obtain s2 rc buf where k: "call s (on_fd (nm_snap m)) FS_CLOSE [] = (s2, rc, buf)" by (metis prod_cases3)
    have "rv_content v' s2 = rv_content v' s" using store k unfolding snap_store_def by blast
    then show ?thesis using True k by (simp add: s1_def wal_close_def)
  qed (simp add: s1_def)
  then have content: "rv_content v' s1 = snap_file ?g out" using fl(1) by simp
  note hb = handle_backs [OF file_fits [OF mg(2) fl(2)] content]
  have below: "below_view p out m1 = out_view p out" by (simp add: below_in_use in_use_def m1_def)
  note fin = finalize_covered [OF nm [unfolded nm_ok_def] mg(3)]
  have ok: "nm_ok p out m1" using fin(1) by (simp add: nm_ok_def below) (simp add: m1_def)
  have view: "module_view p out m1 = module_view p recs m" using fin(2) by (simp add: module_view_def below) (simp add: m1_def)
  have "log_reads call new v'" using store by (simp add: snap_store_def snap_readable_def)
  then have "serving p call v' ?g out m1 s1"
    using ok hb(1) [of new] mg(1) by (simp add: serving_def m1_def sn snap_handle_def)
  moreover have "target_path (c1\<lparr>cp_target_slot := cp_snap_slot c1\<rparr>) = next_path m c"
    unfolding c(4) [symmetric] by (rule path_cong(1)) (simp_all add: c1_def c0_def)
  moreover have "cp_snapshots_written c1 = cp_snapshots_written c + 1" "cp_phase c1 \<in> {CMP_IDLE, CMP_ROTATE}"
    "cp_reopen c1 = snap_opener_new" "sw_wf p (cp_writer c1)"
    using c by (simp_all add: c1_def c0_def)
  moreover have "on_fd (nm_snap m1) = new" "on_generation (nm_snap m1) = ?g" "nm_snap_active m1" "nm_leases m1 = nm_leases m"
    "nm_gc_reserved m1 = nm_gc_reserved m"
    using hb(2) by (simp_all add: m1_def sn) (simp add: snap_handle_def)
  ultimately show ?thesis using view by (auto simp: switched_def x')
qed

lemma reopen_carries:
  assumes store: "snap_store call path (on_fd (nm_snap m)) v sv new v'" and sv: "serving p call v g recs m s"
    and inv: "cmp_inv p sv path new v' recs (m, c, s)" and ph: "cp_phase c = CMP_REOPEN"
    and run: "compaction_turn p call (m, c, s) = (x', go)"
  shows "carries_on p call v g recs sv path new v' (m, c, s) x' \<or> switched p call new v' recs (m, c, s) x'"
proof -
  obtain out where r: "reopening p path new v' m c s out" and mi: "merged_inv p recs m c out" and np: "next_path m c = path"
    using inv ph by (auto simp: cmp_inv_def)
  have rr: "target_path c = path" "sw_generation (cp_writer c) = next_generation m" "sw_wf p (cp_writer c)"
    "writer_off (on_fd (nm_snap m)) (cp_writer c)" "opener_off (on_fd (nm_snap m)) (cp_reopen c)"
    "so_inv v' (snap_file (next_generation m) out) new (cp_reopen c) s"
    using r by (simp_all add: reopening_def)
  obtain o1 s1 q where f: "snap_open_loop p call path (cp_reopen c) s = (o1, s1, q)" by (metis prod_cases3)
  define c1 where "c1 = c\<lparr>cp_reopen := o1\<rparr>"
  have rd: "snap_readable call path new v'" and nf: "new_fds call (on_fd (nm_snap m))" using store by (simp_all add: snap_store_def)
  note k = open_loop_off [OF f rr(5) nf, of path] and acc = open_loop_accepts [OF rd rr(6) f]
  have sv1: "serving p call v g recs m s1" using serving_spared [OF store _ sv] k by blast
  have mi1: "merged_inv p recs m c1 out" using mi by (simp add: merged_inv_def c1_def)
  have c1: "next_path m c1 = path" "target_path c1 = path" "cp_writer c1 = cp_writer c" "cp_reopen c1 = o1" "cp_phase c1 = CMP_REOPEN"
    "cp_snapshots_written c1 = cp_snapshots_written c"
    using np rr(1) ph by (simp_all add: c1_def writer_moved_path)
  show ?thesis
  proof (cases q)
    case SoPending
    then have "x' = (m, c1, s1)" using run f ph rr(1) by (simp add: compaction_turn_def c1_def)
    moreover have "reopening p path new v' m c1 s1 out" using rr k acc SoPending c1 by (simp add: reopening_def)
    ultimately show ?thesis using sv1 mi1 c1 by (intro disjI1) (auto simp: carries_on_def cmp_inv_def)
  next
    case SoInvalid
    have "x' = fst (merge_abort call (m, c1, s1))" using run f ph rr(1) SoInvalid by (simp add: compaction_turn_def c1_def)
    moreover have "carries_on p call v g recs sv path new v' (m, c1, s1) (fst (merge_abort call (m, c1, s1)))"
      by (rule abort_carries [OF store sv1]) (use rr k c1 in simp_all)
    ultimately show ?thesis using c1 by (intro disjI1) (simp add: carries_on_def split: prod.splits)
  next
    case (SoOpened sn)
    have run1: "switch_to call sn (m, c1, s1) = (x', go)" using run f ph rr(1) SoOpened by (simp add: compaction_turn_def c1_def)
    have o1: "o1 = snap_opener_new" by (rule open_loop_ends [OF f [unfolded SoOpened]])
    have "switched p call new v' recs (m, c1, s1) x'"
      by (rule switch_serves [OF store serving_ok [OF sv1] _ _ _ _ mi1 _ _ _ run1]) (use acc SoOpened rr c1 o1 in auto)
    then show ?thesis using c1(6) by (intro disjI2) (auto simp: switched_def c1(1) np)
  qed
qed

lemma turn_carries:
  assumes store: "snap_store call path (on_fd (nm_snap m)) v sv new v'" and sv: "serving p call v g recs m s"
    and inv: "cmp_inv p sv path new v' recs (m, c, s)" and run: "compaction_turn p call (m, c, s) = (x', go)"
  shows "carries_on p call v g recs sv path new v' (m, c, s) x' \<or> switched p call new v' recs (m, c, s) x'"
proof (cases "cp_phase c")
  case CMP_IDLE
  obtain c1 go1 where st: "compaction_start m c = (c1, go1)" by (metis surj_pair)
  have "x' = (m, c1, s)" using run CMP_IDLE st by (simp add: compaction_turn_def)
  then show ?thesis using start_carries [OF sv inv CMP_IDLE st] by simp
next
  case CMP_MERGE
  then have "merge_turns p call CMP_RECORDS_PER_STEP (m, c, s) = (x', go)"
    using run by (simp add: compaction_turn_def merge_slice_def)
  from merge_turns_carries [OF store sv inv CMP_MERGE this] show ?thesis ..
next
  case CMP_ROTATE
  then show ?thesis using inv by (simp add: cmp_inv_def)
qed (use open_carries [OF store sv inv _ run] finish_carries [OF store sv inv _ run] reopen_carries [OF store sv inv _ run] in blast)+

section \<open>Steps and records\<close>

lemma rotate_keeps:
  assumes "rotate_turn p call (m, c, s) = ((m', c', s'), go)"
  shows "m' = m" "cp_snapshots_written c' = cp_snapshots_written c" "\<not> go"
  using assms by (auto simp: rotate_turn_def Let_def split: prod.splits rotate_outcome.splits)

lemma turn_goes: "compaction_turn p call x = ((m, c, s), True) \<Longrightarrow> cp_phase c \<noteq> CMP_IDLE"
  using compaction_turn_ranks [of p call x "(m, c, s)"] by (auto simp: cmp_rank_def split: cmp_phase.splits)

lemma step_carries:
  "snap_store call path (on_fd (nm_snap m)) v sv new v' \<Longrightarrow> serving p call v g recs m s \<Longrightarrow>
   cmp_inv p sv path new v' recs (m, c, s) \<Longrightarrow> compaction_step p call (m, c, s) = x' \<Longrightarrow>
   carries_on p call v g recs sv path new v' (m, c, s) x' \<or>
   (\<exists>x1. switched p call new v' recs (m, c, s) x1 \<and> (x' = x1 \<or> x' = fst (rotate_turn p call x1)))"
proof (induction p call "(m, c, s)" arbitrary: m c s rule: compaction_step.induct)
  case (1 p call m c s)
  obtain m1 c1 s1 go where t: "compaction_turn p call (m, c, s) = ((m1, c1, s1), go)" by (metis prod_cases3 surj_pair)
  note unf = compaction_step.simps [of p call "(m, c, s)"]
  from turn_carries [OF 1(2-4) t]
  consider (old) "carries_on p call v g recs sv path new v' (m, c, s) (m1, c1, s1)"
    | (new) "switched p call new v' recs (m, c, s) (m1, c1, s1)" by blast
  then show ?case
  proof cases
    case old
    show ?thesis
    proof (cases go)
      case True
      have k: "serving p call v g recs m1 s1" "cmp_inv p sv path new v' recs (m1, c1, s1)" "same_below m m1"
        "module_view p recs m1 = module_view p recs m" "cp_snapshots_written c1 = cp_snapshots_written c"
        "next_path m1 c1 = next_path m c" "nm_leases m1 = nm_leases m" "nm_gc_reserved m1 = nm_gc_reserved m"
        using old 1(4) by (simp_all add: carries_on_def cmp_inv_def)
      note s1 = store_below [OF k(3) 1(2)]
      have "compaction_step p call (m1, c1, s1) = x'" using 1(5) t True by (simp add: unf)
      have "go = True" using True by simp
      from 1(1) [OF t [symmetric] this s1 k(1,2) \<open>compaction_step p call (m1, c1, s1) = x'\<close>] show ?thesis
      proof (elim disjE exE)
        assume "carries_on p call v g recs sv path new v' (m1, c1, s1) x'"
        then show ?thesis using carries_trans [OF old] by blast
      next
        fix x1 assume "switched p call new v' recs (m1, c1, s1) x1 \<and> (x' = x1 \<or> x' = fst (rotate_turn p call x1))"
        moreover have "switched p call new v' recs (m, c, s) x1" if "switched p call new v' recs (m1, c1, s1) x1"
          using that k next_path_below(2) [OF k(3)] by (simp add: switched_def split: prod.splits)
        ultimately show ?thesis by blast
      qed
    next
      case False
      then show ?thesis using old 1(5) t by (simp add: unf)
    qed
  next
    case new
    show ?thesis
    proof (cases go)
      case True
      have "cp_phase c1 \<noteq> CMP_IDLE" using turn_goes [of p call "(m, c, s)" m1 c1 s1] t True by simp
      then have ph: "cp_phase c1 = CMP_ROTATE" using new by (simp add: switched_def)
      obtain x2 g2 where r: "rotate_turn p call (m1, c1, s1) = (x2, g2)" by (metis surj_pair)
      have "\<not> g2" using r rotate_keeps(3) [of p call m1 c1 s1] by (cases x2) blast
      then have "x' = x2"
        using 1(5) t True r ph by (simp add: unf compaction_step.simps [of p call "(m1, c1, s1)"]) (simp add: compaction_turn_def)
      then show ?thesis using new r by (intro disjI2 exI [of _ "(m1, c1, s1)"]) simp
    qed (use new 1(5) t in \<open>auto simp: unf\<close>)
  qed
qed

text \<open>Steps of the compactor that have not switched, and records applied between them.\<close>

inductive compacts :: "profile \<Rightarrow> 's provider \<Rightarrow> 's compacting \<Rightarrow> 's compacting \<Rightarrow> bool" for p call x0 where
  compacts_rest: "compacts p call x0 x0"
| compacts_step: "compacts p call x0 (m, c, s) \<Longrightarrow> compaction_step p call (m, c, s) = (m', c', s') \<Longrightarrow>
    cp_snapshots_written c' = cp_snapshots_written c \<Longrightarrow> compacts p call x0 (m', c', s')"
| compacts_apply: "compacts p call x0 (m, c, s) \<Longrightarrow> apply_op p call payload m s = (m', s', res) \<Longrightarrow> compacts p call x0 (m', c, s')"

lemma switched_counts:
  assumes "switched p call new v' recs (m, c, s) x1" "(m', c', s') = x1 \<or> (m', c', s') = fst (rotate_turn p call x1)"
  shows "cp_snapshots_written c' \<noteq> cp_snapshots_written c"
proof -
  obtain m1 c1 s1 where x1: "x1 = (m1, c1, s1)" by (cases x1)
  have c1: "cp_snapshots_written c1 = cp_snapshots_written c + 1" using assms(1) by (simp add: switched_def x1)
  obtain x2 g2 where r: "rotate_turn p call (m1, c1, s1) = (x2, g2)" by (metis surj_pair)
  have "cp_snapshots_written c' = cp_snapshots_written c1"
    using assms(2) rotate_keeps(2) [of p call m1 c1 s1 m' c' s' g2] r by (auto simp: x1)
  then show ?thesis using c1 by simp
qed

lemma compacts_carries:
  assumes "compacts p call x0 x" "x0 = (m0, c0, s0)" "snap_store call (next_path m0 c0) (on_fd (nm_snap m0)) v sv new v'"
    and "serving p call v g recs m0 s0" "idle_compactor p c0" "x = (m, c, s)"
  shows "serving p call v g recs m s" "cmp_inv p sv (next_path m0 c0) new v' recs (m, c, s)"
    "snap_store call (next_path m0 c0) (on_fd (nm_snap m)) v sv new v'"
proof -
  have "serving p call v g recs m s \<and> cmp_inv p sv (next_path m0 c0) new v' recs (m, c, s) \<and>
      snap_store call (next_path m0 c0) (on_fd (nm_snap m)) v sv new v'"
    using assms
  proof (induction arbitrary: m c s rule: compacts.induct)
    case compacts_rest
    then show ?case by (simp add: cmp_inv_def idle_compactor_def)
  next
    case (compacts_step m1 c1 s1 m2 c2 s2)
    then have k: "serving p call v g recs m1 s1" "cmp_inv p sv (next_path m0 c0) new v' recs (m1, c1, s1)"
      "snap_store call (next_path m0 c0) (on_fd (nm_snap m1)) v sv new v'" by blast+
    have "carries_on p call v g recs sv (next_path m0 c0) new v' (m1, c1, s1) (m2, c2, s2)"
      using step_carries [OF k(3,1,2) compacts_step(2)] compacts_step(3)
        switched_counts [of p call new v' recs m1 c1 s1 _ m2 c2 s2] by blast
    then show ?case using compacts_step(9) store_below [OF _ k(3)] by (simp add: carries_on_def)
  next
    case (compacts_apply m1 c1 s1 payload m2 s2 res)
    then have k: "serving p call v g recs m1 s1" "cmp_inv p sv (next_path m0 c0) new v' recs (m1, c1, s1)"
      "snap_store call (next_path m0 c0) (on_fd (nm_snap m1)) v sv new v'" by blast+
    note r = record_inv [OF k(3,1,2) compacts_apply(2)]
    show ?case using r store_below [OF r(3) k(3)] compacts_apply(8) by simp
  qed
  then show "serving p call v g recs m s" "cmp_inv p sv (next_path m0 c0) new v' recs (m, c, s)"
    "snap_store call (next_path m0 c0) (on_fd (nm_snap m)) v sv new v'" by simp_all
qed

end
