(* ===== verification/Compaction_Props.thy ===== *)
theory Compaction_Props
  imports Compaction Namespace_Apply_Props Snapshot_Props
begin

text \<open>
  What a compaction is worth: no key's binding changes, whichever generation answers.
\<close>

section \<open>A compaction from start to switch\<close>

text \<open>The file in memory of the snapshot witnesses, with no file open on the descriptor \<open>-1\<close>.\<close>

definition side_fs :: "one_file provider" where
  "side_fs s fd op arg = (if fd = - 1 \<and> (op = FS_SEEK \<or> op = FS_READ) then (s, - 9, arg) else one_fs True s fd op arg)"

definition blank_view :: "one_file read_view" where
  "blank_view = \<lparr>rv_content = (\<lambda>_. []), rv_pos = (\<lambda>_. 0)\<rparr>"

lemma side_store: "snap_store side_fs path (- 1) blank_view one_target 3 one_reading"
proof -
  note ev = side_fs_def one_fs_def fs_opcodes fs_pending_def EAGAIN_def EINPROGRESS_def
  have "snap_target side_fs path one_target"
    unfolding snap_target_def
    by (intro allI impI conjI) (auto simp: ev one_target_def sv_same_def split: if_splits intro!: mixed_refl)
  moreover have "log_reads side_fs 3 one_reading"
    unfolding log_reads_def
    by (intro conjI allI impI) (auto simp: ev one_reading_def Let_def copy_prefix_def min_def split: if_splits)
  then have "snap_readable side_fs path 3 one_reading"
    unfolding snap_readable_def
    by (intro conjI allI impI) (auto simp: ev one_reading_def from_le_u32 unat_of_nat_small split: if_splits)
  moreover have "new_fds side_fs (- 1)" by (auto simp: new_fds_def)
  moreover have "rv_content one_reading s \<in> sv_images one_target s" for s by (simp add: one_reading_def one_target_def)
  moreover have "sv_same one_target s s' \<and> rv_content one_reading s' = rv_content one_reading s \<and> rv_pos one_reading s' = rv_pos one_reading s"
    if "side_fs s (- 1) op arg = (s', rc, buf)" "op \<in> {FS_SEEK, FS_READ, FS_CLOSE}" for s op arg s' rc buf
    using that by (auto simp: side_fs_def one_fs_def fs_opcodes)
  ultimately show ?thesis unfolding snap_store_def by (simp add: blank_view_def) blast
qed

lemma side_close: "wal_close side_fs fd s = wal_close (one_fs True) fd s" "snap_abandon side_fs o1 s = snap_abandon (one_fs True) o1 s"
  "snap_invalid side_fs o1 s = snap_invalid (one_fs True) o1 s"
proof -
  show c: "wal_close side_fs fd s = wal_close (one_fs True) fd s" for fd s by (simp add: wal_close_def side_fs_def fs_opcodes)
  show a: "snap_abandon side_fs o1 s = snap_abandon (one_fs True) o1 s" by (simp add: snap_abandon_def c)
  show "snap_invalid side_fs o1 s = snap_invalid (one_fs True) o1 s" by (simp add: snap_invalid_def a)
qed

lemma side_drain: "drain_stage p side_fs w s = drain_stage p (one_fs True) w s"
proof (induction "min (sw_stage_len w) (REC_SIZE p) - sw_stage_written w" arbitrary: w s rule: less_induct)
  case less
  have "side_fs s fd FS_WRITE arg = one_fs True s fd FS_WRITE arg" for fd arg by (simp add: side_fs_def fs_opcodes)
  moreover have "drain_stage p side_fs (w\<lparr>sw_stage_written := sw_stage_written w + min (nat rc)
        (min (sw_stage_len w) (REC_SIZE p) - sw_stage_written w)\<rparr>) s1 =
      drain_stage p (one_fs True) (w\<lparr>sw_stage_written := sw_stage_written w + min (nat rc)
        (min (sw_stage_len w) (REC_SIZE p) - sw_stage_written w)\<rparr>) s1"
    if "\<not> rc \<le> 0" "sw_stage_written w < min (sw_stage_len w) (REC_SIZE p)" for rc s1
    using that by (intro less) auto
  ultimately show ?case
    by (simp add: drain_stage.simps [of p side_fs w s] drain_stage.simps [of p "one_fs True" w s] Let_def split: prod.split)
qed

lemma side_open_step: "sw_open_step p side_fs w s = sw_open_step p (one_fs True) w s"
  by (cases "sw_phase w") (simp_all add: sw_open_step_def side_drain fs_unlink_def side_fs_def fs_opcodes)

lemma side_open: "sw_poll_open p side_fs w s = sw_poll_open p (one_fs True) w s"
proof (induction p "one_fs True" w s rule: sw_poll_open.induct)
  case (1 p w s)
  then show ?case
    by (simp add: sw_poll_open.simps [of p side_fs w s] sw_poll_open.simps [of p "one_fs True" w s] side_open_step split: prod.split option.split)
qed

lemma side_finish: "writer_off (- 1) w \<Longrightarrow> sw_poll_finish p side_fs w s = sw_poll_finish p (one_fs True) w s"
proof (induction p "one_fs True" w s rule: sw_poll_finish.induct)
  case (1 p w s)
  have st: "sw_finish_step p side_fs w s = sw_finish_step p (one_fs True) w s"
    using 1(2) by (cases "sw_phase w")
      (simp_all add: sw_finish_step_def side_drain side_close fsync_name_def snap_seek_def side_fs_def fs_opcodes writer_off_def cong: if_cong)
  obtain w1 s1 q where k: "sw_finish_step p (one_fs True) w s = (w1, s1, q)" by (metis prod_cases3)
  have "writer_off (- 1) w1" using finish_step_made [OF k 1(2) refl] by blast
  then show ?case using 1(1) k st
    by (simp add: sw_poll_finish.simps [of p side_fs w s] sw_poll_finish.simps [of p "one_fs True" w s] split: option.split)
qed

lemma side_read: "fd \<noteq> - 1 \<Longrightarrow> read_exact_from side_fs fd filled buf s = read_exact_from (one_fs True) fd filled buf s"
proof (induction "one_fs True" fd filled buf s rule: read_exact_from.induct)
  case (1 fd filled buf s)
  have "side_fs s fd FS_READ arg = one_fs True s fd FS_READ arg" for arg using 1(2) by (simp add: side_fs_def)
  then show ?case using 1
    by (simp add: read_exact_from.simps [of side_fs fd filled buf s] read_exact_from.simps [of "one_fs True" fd filled buf s] Let_def split: prod.split)
qed

lemma side_open_loop: "opener_off (- 1) w \<Longrightarrow> snap_open_loop p side_fs path w s = snap_open_loop p (one_fs True) path w s"
proof (induction p "one_fs True" path w s rule: snap_open_loop.induct)
  case (1 p path w s)
  have st: "snap_open_step p side_fs path w s = snap_open_step p (one_fs True) path w s"
    using 1(2) by (cases "so_phase w")
      (simp_all add: snap_open_step_def side_read read_exact_def snap_seek_def side_close side_fs_def fs_opcodes opener_off_def Let_def cong: if_cong)
  obtain w1 s1 q where k: "snap_open_step p (one_fs True) path w s = (w1, s1, q)" by (metis prod_cases3)
  have "new_fds (one_fs True) (- 1)" by (auto simp: new_fds_def)
  then have "opener_off (- 1) w1" using open_step_off [OF k 1(2)] by blast
  then show ?case using 1(1) k st
    by (simp add: snap_open_loop.simps [of p side_fs path w s] snap_open_loop.simps [of p "one_fs True" path w s] split: option.split)
qed

text \<open>An arena with its one slot taken, and a compactor that has not run yet.\<close>

definition full_module :: ns_module where
  "full_module = module_on (one_in 1 2 meta_none) [0]"

definition first_compactor :: compactor where
  "first_compactor = \<lparr>cp_phase = CMP_IDLE, cp_running = False, cp_target_slot = 0, cp_snap_idx = 0, cp_last = None,
     cp_writer = snap_writer_new Minimal, cp_reopen = snap_opener_new, cp_snap_slot = 0, cp_snapshots_written = 0,
     cp_wal_path = [97], cp_wal_fd = - 1, cp_appender = appender_new, cp_rotator = rotator_new, cp_scratch = []\<rparr>"

definition first_path :: bytes where
  "first_path = [97, 46, 115, 110, 97, 112, 65]"

definition full_slot :: binding_slot where
  "full_slot = fresh Minimal [1] [2] [7] 2 5 meta_none 1"

lemma full_slots: "ns_slots (nm_bindings full_module) = [full_slot]"
  by (simp add: full_module_def module_on_def one_in_def set_slot_def ns_new_def full_slot_def)

lemma full_slot_ok:
  "slot_ok Minimal full_slot" "bs_hold full_slot \<le> 1" "bs_occupied full_slot" "bs_snapshotted full_slot = 0"
proof -
  have cov: "arena_covered Minimal Map.empty (one_in 1 2 meta_none)" by (rule one_in_view(1) [OF meta_none_fits]) simp
  have sl: "ns_slots (one_in 1 2 meta_none) = [full_slot]" using full_slots by (simp add: full_module_def module_on_def)
  then have "slot_ok Minimal ([full_slot] ! 0)" using cov arena_ok_wf by (metis arena_covered_def length_greater_0_conv list.distinct(1) ns_ok_def)
  then show "slot_ok Minimal full_slot" by simp
  show "bs_hold full_slot \<le> 1" "bs_occupied full_slot" "bs_snapshotted full_slot = 0"
    by (simp_all add: full_slot_def fresh_def set_meta_def put_object_id_def put_root_def put_path_def empty_slot_def meta_none_def Let_def)
qed

lemma first_path_next: "next_path full_module first_compactor = first_path"
  by (simp add: next_path_def target_path_def snap_path_def first_compactor_def full_module_def module_on_def first_path_def
      SNAP_PATH_MAX_def SNAP_SUFFIX_LEN_def WAL_PATH_BUF_def copy_prefix_def Let_def)

lemma full_serving:
  "serving Minimal side_fs blank_view 0 [] full_module s" "module_view Minimal [] full_module = [([1], [2]) \<mapsto> the_binding 2 meta_none]"
  "idle_compactor Minimal first_compactor"
proof -
  note sv = one_in_view [OF meta_none_fits, of 1 2]
  show "serving Minimal side_fs blank_view 0 [] full_module s"
    using sv(1) by (simp add: serving_def nm_ok_def full_module_def) (simp add: module_on_def)
  show "module_view Minimal [] full_module = [([1], [2]) \<mapsto> the_binding 2 meta_none]"
    using sv(2) by (simp add: full_module_def module_on_view)
  show "idle_compactor Minimal first_compactor"
    by (simp add: idle_compactor_def first_compactor_def sw_wf_def snap_writer_new_def)
qed

lemma step_goes: "compaction_turn p call x = (x1, True) \<Longrightarrow> compaction_step p call x = compaction_step p call x1"
  and step_stops: "compaction_turn p call x = (x1, False) \<Longrightarrow> compaction_step p call x = x1"
  by (simp_all add: compaction_step.simps [of p call x])

definition full_rec :: snap_record where
  "full_rec = snap_record_from_slot Minimal full_slot"

lemma full_rec_ok: "snap_ok Minimal full_rec" "snap_fits Minimal [full_rec]" "length (snap_bytes full_rec) = REC_SIZE Minimal"
proof -
  show ok: "snap_ok Minimal full_rec" using record_from_slot(1) full_slot_ok by (simp add: full_rec_def)
  then show "length (snap_bytes full_rec) = REC_SIZE Minimal" by (rule length_snap_bytes)
  show "snap_fits Minimal [full_rec]" using ok REC_SIZE_bound [of Minimal] by (simp add: snap_fits_def SNAP_HDR_def)
qed

lemma full_min: "min_key_above (nm_bindings full_module) None = Some 0"
  "min_key_above (mark_emitted (nm_bindings full_module) 0 t) (Some (slot_root full_slot, slot_path full_slot)) = None"
proof -
  note sl = full_slots full_slot_ok(3)
  show "min_key_above (nm_bindings full_module) None = Some 0" by (simp add: min_key_above_def sl)
  have "key_cmp r q r q \<noteq> Greater" for r q :: bytes by (simp add: key_cmp_lex cmp_of_def)
  then show "min_key_above (mark_emitted (nm_bindings full_module) 0 t) (Some (slot_root full_slot, slot_path full_slot)) = None"
    by (simp add: min_key_above_def mark_emitted_def sl) (simp add: slot_root_def slot_path_def Let_def)
qed

text \<open>The merge: one record staged, then drained, then nothing left.\<close>

lemma full_merge:
  assumes w: "sw_phase w = W_RECORDS" "sw_stage_len w = 0" "sw_wf Minimal w" "sw_fd_plus1 w = 4"
    and s: "of_at s = length (of_bytes s)" and c: "cp_writer c = w" "cp_last c = None"
    and inv: "sw_inv Minimal one_target path g [] w s"
  obtains m' w' s' idx key where "merge_slice Minimal side_fs (full_module, c, s) =
      ((m', c\<lparr>cp_writer := w', cp_snap_idx := idx, cp_last := key, cp_phase := CMP_FINISH\<rparr>, s'), True)"
    and "sw_phase w' = W_RECORDS" "sw_stage_len w' = 0" "sw_stage_written w' = 0" "sw_wf Minimal w'" "sw_fd_plus1 w' = 4"
    and "of_at s' \<le> length (of_bytes s')" "sw_inv Minimal one_target path g [full_rec] w' s'" "on_fd (nm_snap m') = - 1"
proof -
  let ?key = "(slot_root full_slot, slot_path full_slot)"
  have tg: "snap_target (one_fs True) path one_target" by (rule one_fs_target)
  have flush: "sw_flush Minimal side_fs u t = drain_stage Minimal (one_fs True) u t" if "sw_phase u = W_RECORDS" for u t
    using that by (simp add: sw_flush_def side_drain)
  have flush1: "sw_flush Minimal (one_fs True) u t = drain_stage Minimal (one_fs True) u t" if "sw_phase u = W_RECORDS" for u t
    using that by (simp add: sw_flush_def)
  define w1 where "w1 = w\<lparr>sw_stage_len := 0, sw_stage_written := 0\<rparr>"
  have d1: "drain_stage Minimal (one_fs True) w s = (w1, s, WrReady)"
    using w by (simp add: drain_stage.simps [of Minimal "one_fs True" w s] w1_def)
  have i1: "sw_inv Minimal one_target path g [] w1 s" using flush_inv(1) [OF tg inv] flush1 [OF w(1)] d1 by simp
  define w2 where "w2 = w1\<lparr>sw_stage := snap_bytes full_rec, sw_stage_len := REC_SIZE Minimal, sw_stage_written := 0, sw_count := sw_count w1 + 1\<rparr>"
  have "sw_stage_record Minimal full_rec w1 = (w2, True)"
    using w full_rec_ok(3) by (simp add: sw_stage_record_def sw_can_stage_def snap_encode_def sw_wf_def copy_prefix_def w1_def w2_def)
  note st = this and i2 = stage_record_inv [OF i1 full_rec_ok(1) this]
  define m1 where "m1 = full_module\<lparr>nm_bindings := mark_emitted (nm_bindings full_module) 0 (emit_tag (sw_generation w2))\<rparr>"
  define c1 where "c1 = c\<lparr>cp_writer := w2, cp_last := Some ?key\<rparr>"
  have inactive: "\<not> nm_snap_active full_module" "\<not> nm_snap_active m1" "on_fd (nm_snap m1) = - 1"
    by (simp_all add: m1_def) (simp_all add: full_module_def module_on_def snapshot_none_def)
  have o1: "merge_one Minimal side_fs (full_module, c, s) = ((m1, c1, s), MtStaged)"
    using w st c inactive full_min(1)
    by (simp add: merge_one_def flush d1 merge_old_def merge_pick_def full_slots merge_emit_def full_rec_def [symmetric] m1_def c1_def)
  have len: "length (sw_stage w2) = REC_SIZE Minimal" "0 < REC_SIZE Minimal" using full_rec_ok(3) by (simp_all add: w2_def REC_SIZE_def)
  have ph2: "sw_phase w2 = W_RECORDS" "sw_fd_plus1 w2 = 4" "length (sw_path_bytes w2) = SNAP_PATH_MAX" using w by (simp_all add: w2_def w1_def sw_wf_def)
  define w3 where "w3 = w2\<lparr>sw_stage_len := 0, sw_stage_written := 0\<rparr>"
  obtain s2 where d2: "drain_stage Minimal (one_fs True) w2 s = (w3, s2, WrReady)" and s2: "of_at s2 \<le> length (of_bytes s2)"
    using one_drain [of w2 Minimal s True] len s by (auto simp: w3_def w2_def)
  have i3: "sw_inv Minimal one_target path g [full_rec] w3 s2" using flush_inv(1) [OF tg i2] flush1 [OF ph2(1)] d2 by simp
  define c2 where "c2 = c1\<lparr>cp_writer := w3, cp_phase := CMP_FINISH\<rparr>"
  have o2: "merge_one Minimal side_fs (m1, c1, s) = ((m1, c2, s2), MtMerged)"
    using inactive full_min(2) ph2
    by (simp add: merge_one_def flush d2 merge_old_def merge_pick_def c1_def c2_def) (simp add: m1_def)
  have "merge_slice Minimal side_fs (full_module, c, s) = ((m1, c2, s2), True)"
    using o1 o2 by (simp add: merge_slice_def CMP_RECORDS_PER_STEP_def numeral_eq_Suc)
  moreover have "c2 = c\<lparr>cp_writer := w3, cp_snap_idx := cp_snap_idx c, cp_last := Some ?key, cp_phase := CMP_FINISH\<rparr>"
    by (simp add: c2_def c1_def)
  moreover have "sw_phase w3 = W_RECORDS" "sw_stage_len w3 = 0" "sw_stage_written w3 = 0" "sw_wf Minimal w3" "sw_fd_plus1 w3 = 4"
    using ph2 len by (simp_all add: w3_def sw_wf_def)
  ultimately show ?thesis using that s2 i3 inactive(3) by metis
qed

lemma first_run:
  obtains m' c' s' where "compaction_step Minimal side_fs (full_module, first_compactor, one_blank) = (m', c', s')" "cp_snapshots_written c' = 1"
proof -
  let ?p = Minimal
  obtain w1 where w1: "sw_start first_path 1 (snap_writer_new ?p) = (w1, True)"
    by (simp add: sw_start_def snap_writer_new_def first_path_def SNAP_PATH_MAX_def WAL_PATH_BUF_def)
  define c1 where "c1 = first_compactor\<lparr>cp_writer := w1, cp_running := True, cp_phase := CMP_OPEN\<rparr>"
  have wf0: "sw_wf ?p (snap_writer_new ?p)" by (simp add: sw_wf_def snap_writer_new_def)
  note i1 = sw_start_inv(1) [OF wf0 w1, where v = one_target and s = one_blank] sw_start_inv(2) [OF wf0 w1]
  have wf1: "sw_wf ?p w1" using i1(1) by (simp add: sw_inv_def)
  have path: "target_path first_compactor = first_path"
    using first_path_next by (simp add: next_path_def full_module_def module_on_def first_compactor_def)
  have "compaction_start full_module first_compactor = (c1, True)"
  proof -
    have "\<not> nm_snap_active full_module" by (simp add: full_module_def module_on_def)
    moreover have "first_compactor\<lparr>cp_target_slot := 0\<rparr> = first_compactor" "cp_wal_path first_compactor \<noteq> []"
      "cp_writer first_compactor = snap_writer_new ?p"
      by (simp_all add: first_compactor_def)
    ultimately show ?thesis
      using w1 path
      by (simp add: compaction_start_def ns_len_def dirty_count_def full_slots full_slot_ok CMP_TRIGGER_NUM_def CMP_TRIGGER_DEN_def Let_def c1_def)
        (simp add: first_compactor_def)
  qed
  then have t1: "compaction_turn ?p side_fs (full_module, first_compactor, one_blank) = ((full_module, c1, one_blank), True)"
    by (simp add: compaction_turn_def) (simp add: first_compactor_def)
  obtain w2 s2 where o: "sw_poll_open ?p (one_fs True) w1 one_blank = (w2, s2, WrReady)"
    and w2: "sw_phase w2 = W_RECORDS" "sw_stage_len w2 = 0" "sw_wf ?p w2" "sw_fd_plus1 w2 = 4" "of_at s2 = length (of_bytes s2)"
    using one_open [OF i1(2) wf1, of True one_blank] wf1 header_fits [of ?p]
    by (auto simp: sw_wf_def copy_prefix_def placeholder_def)
  define c2 where "c2 = c1\<lparr>cp_writer := w2, cp_phase := CMP_MERGE\<rparr>"
  have t2: "compaction_turn ?p side_fs (full_module, c1, one_blank) = ((full_module, c2, s2), True)"
    using o by (simp add: compaction_turn_def c1_def side_open c2_def)
  have i2: "sw_inv ?p one_target first_path 1 [] w2 s2" by (rule poll_open_inv [OF one_fs_target i1(1) o])
  have "cp_writer c2 = w2" "cp_last c2 = None" by (simp_all add: c2_def c1_def first_compactor_def)
  from full_merge [OF w2 this i2] obtain m' w3 s3 idx key where
    mg: "merge_slice ?p side_fs (full_module, c2, s2) =
      ((m', c2\<lparr>cp_writer := w3, cp_snap_idx := idx, cp_last := key, cp_phase := CMP_FINISH\<rparr>, s3), True)"
    and w3: "sw_phase w3 = W_RECORDS" "sw_stage_len w3 = 0" "sw_stage_written w3 = 0" "sw_wf ?p w3" "sw_fd_plus1 w3 = 4"
      "of_at s3 \<le> length (of_bytes s3)" "sw_inv ?p one_target first_path 1 [full_rec] w3 s3" "on_fd (nm_snap m') = - 1"
    by metis
  define c3 where "c3 = c2\<lparr>cp_writer := w3, cp_snap_idx := idx, cp_last := key, cp_phase := CMP_FINISH\<rparr>"
  have t3: "compaction_turn ?p side_fs (full_module, c2, s2) = ((m', c3, s3), True)"
    using mg by (simp add: compaction_turn_def c2_def c3_def)
  obtain w4 s4 where f: "sw_poll_finish ?p (one_fs True) w3 s3 = (w4, s4, WrReady)"
    using one_finish [OF w3(1,4,3) _ w3(5,6), of True] w3(2) by auto
  have "writer_off (- 1) w3" using w3(5) by (simp add: writer_off_def)
  note fs = side_finish [OF this]
  define c4 where "c4 = c3\<lparr>cp_writer := w4, cp_phase := CMP_REOPEN\<rparr>"
  have t4: "compaction_turn ?p side_fs (m', c3, s3) = ((m', c4, s4), True)"
    using f by (simp add: compaction_turn_def c3_def fs c4_def)
  have b: "of_bytes s4 = snap_file 1 [full_rec]"
    using poll_finish_inv [OF one_fs_target w3(7) f] by (simp add: one_target_def)
  have acc: "snap_accepts ?p (snap_file 1 [full_rec])" "length (snap_file 1 [full_rec]) < 2 ^ 32"
    using snap_file_accepted [OF full_rec_ok(2)] length_snap_file [OF full_rec_ok(2)] full_rec_ok(2) by (simp_all add: snap_fits_def)
  obtain w5 s5 sn where op: "snap_open_loop ?p (one_fs True) (target_path c4) snap_opener_new s4 = (w5, s5, SoOpened sn)"
    by (rule one_opens [OF acc b])
  have re: "cp_phase c4 = CMP_REOPEN" "cp_reopen c4 = snap_opener_new" "cp_wal_fd c4 = - 1" "cp_snapshots_written c4 = 0"
    by (simp_all add: c4_def c3_def c2_def c1_def first_compactor_def)
  obtain m5 c5 s6 go where t5': "compaction_turn ?p side_fs (m', c4, s4) = ((m5, c5, s6), go)" by (metis prod_cases3 surj_pair)
  then have n5: "\<not> go \<and> cp_snapshots_written c5 = 1"
    using op re w3(8) by (auto simp: compaction_turn_def side_open_loop switch_to_def Let_def)
  then have t5: "compaction_turn ?p side_fs (m', c4, s4) = ((m5, c5, s6), False)" "cp_snapshots_written c5 = 1"
    using t5' by simp_all
  have "compaction_step ?p side_fs (full_module, first_compactor, one_blank) = (m5, c5, s6)"
    by (simp only: step_goes [OF t1] step_goes [OF t2] step_goes [OF t3] step_goes [OF t4] step_stops [OF t5(1)])
  then show ?thesis using that t5(2) by blast
qed

section \<open>The namespace across a compaction\<close>



end
