(* ===== verification/Rotation_Restore.thy ===== *)
theory Rotation_Restore
  imports Compaction_Props Namespace_Log_Props Lease_Props WAL_Props
begin

text \<open>
  A rotation and a restart.  The new log holds what the compactor seeds it with; replayed over
  the new generation and empty tables, it gives back every binding the generation does not hold
  and every lease.
\<close>

section \<open>The seeds\<close>

definition slot_bind :: "binding_slot \<Rightarrow> decoded_bind" where
  "slot_bind s =
     \<lparr>db_root = slot_root s, db_path = slot_path s, db_object_id = slot_object_id s, db_kind = bs_kind s,
      db_revision = bs_revision s, db_meta = wire_meta (slot_meta s), db_cond = COND_ANY, db_expect = 0\<rparr>"

definition uncovered :: "binding_slot \<Rightarrow> bool" where
  "uncovered s \<longleftrightarrow> bs_occupied s \<and> bs_snapshotted s = 0"

definition binding_seed :: "binding_slot \<Rightarrow> bytes" where
  "binding_seed s = (if uncovered s then bind_frame OP_BINDING_RESTORE (slot_bind s) else [])"

definition entry_record :: "profile \<Rightarrow> lease_table \<Rightarrow> lease_entry \<Rightarrow> decoded_lease_restore" where
  "entry_record p t e =
     \<lparr>ds_root = lease_root e, ds_path = lease_path p e, ds_holder = le_holder e, ds_fence = le_fence e,
      ds_expires_at_ms = le_expires_at e, ds_stamp_ms = le_stamp e, ds_live = (le_live e \<noteq> 0),
      ds_fence_floor = lt_fence_floor t, ds_stamp_floor = lt_stamp_floor t\<rparr>"

definition lease_seed :: "profile \<Rightarrow> lease_table \<Rightarrow> lease_entry \<Rightarrow> bytes" where
  "lease_seed p t e =
     (if le_used e = 0 then []
      else let f = lease_restore_frame (entry_record p t e)
           in if le_flushing e \<noteq> 0 then fst (mark_lease_restore_flushing f) else f)"

definition seed_of :: "profile \<Rightarrow> ns_module \<Rightarrow> nat \<Rightarrow> bytes" where
  \<comment> \<open>record \<open>i\<close> of the rotated log\<close>
  "seed_of p m i =
     (let n = length (lt_entries (nm_leases m))
      in if i < n then lease_seed p (nm_leases m) (lt_entries (nm_leases m) ! i)
         else binding_seed (ns_slots (nm_bindings m) ! (i - n)))"

lemma bind_frame_op: "(bind_frame op b)[0 := op'] = bind_frame op' b" "bind_frame op b \<noteq> []"
  by (simp_all add: bind_frame_def Let_def)

lemma seed_binding_gives:
  assumes "seed_binding p st i buf = (buf', res)"
  shows "length buf' = length buf"
    and "res = Some n \<Longrightarrow> n = length (binding_seed (ns_slots st ! i)) \<and> take n buf' = binding_seed (ns_slots st ! i)"
proof -
  let ?s = "ns_slots st ! i"
  have "length buf' = length buf \<and> (res = Some n \<longrightarrow> n = length (binding_seed ?s) \<and> take n buf' = binding_seed ?s)"
  proof (cases "i < length (ns_slots st) \<and> uncovered ?s")
    case False
    then have "buf' = buf" "res = Some n \<longrightarrow> n = 0 \<and> binding_seed ?s = []"
      using assms by (auto simp: seed_binding_def uncovered_def binding_seed_def split: if_splits)
    then show ?thesis by auto
  next
    case True
    then have e: "(case encode_binding_restore p buf (slot_bind ?s) of Inl _ \<Rightarrow> (buf, None) | Inr (n, out) \<Rightarrow> (out, Some n)) = (buf', res)"
      using assms by (simp add: seed_binding_def uncovered_def slot_bind_def Let_def)
    have any: "(slot_bind ?s)\<lparr>db_cond := COND_ANY, db_expect := 0\<rparr> = slot_bind ?s" by (simp add: slot_bind_def)
    show ?thesis
    proof (cases "encode_bind p buf (slot_bind ?s)")
      case (Inl e1)
      then show ?thesis using e by (auto simp: encode_binding_restore_def any)
    next
      case (Inr no)
      obtain k out where no: "no = (k, out)" by (cases no)
      then have r: "buf' = out[0 := OP_BINDING_RESTORE]" "res = Some k" using e Inr by (simp_all add: encode_binding_restore_def any)
      have "put_record buf (bind_frame OP_BIND (slot_bind ?s)) = Inr (k, out)"
        using Inr no by (auto simp: encode_bind_def split: option.splits if_splits)
      note pr = put_record_Inr [OF this]
      have "take k buf' = bind_frame OP_BINDING_RESTORE (slot_bind ?s)"
        using pr(2) bind_frame_op(1) by (simp add: r take_update_swap)
      moreover have "length (bind_frame OP_BINDING_RESTORE (slot_bind ?s)) = k"
        using pr(1) bind_frame_op(1) [of OP_BIND "slot_bind ?s"] by (metis length_list_update)
      ultimately show ?thesis using True pr(4) r by (auto simp: binding_seed_def)
    qed
  qed
  then show "length buf' = length buf" "res = Some n \<Longrightarrow> n = length (binding_seed ?s) \<and> take n buf' = binding_seed ?s"
    by blast+
qed

lemma seed_lease_gives:
  assumes "seed_lease p t i buf = (buf', res)"
  shows "length buf' = length buf"
    and "res = Some n \<Longrightarrow> n = length (lease_seed p t (lt_entries t ! i)) \<and> take n buf' = lease_seed p t (lt_entries t ! i)"
proof -
  let ?e = "lt_entries t ! i"
  let ?f = "lease_restore_frame (entry_record p t ?e)"
  have "length buf' = length buf \<and> (res = Some n \<longrightarrow> n = length (lease_seed p t ?e) \<and> take n buf' = lease_seed p t ?e)"
  proof (cases "i < length (lt_entries t) \<and> le_used ?e \<noteq> 0 \<and> wire_check_key p (lease_root ?e) (lease_path p ?e) [] = None")
    case False
    then have "buf' = buf" "res = Some n \<longrightarrow> n = 0 \<and> lease_seed p t ?e = []"
      using assms by (auto simp: seed_lease_def lease_seed_def encode_lease_restore_def Let_def split: if_splits option.splits)
    then show ?thesis by auto
  next
    case True
    show ?thesis
    proof (cases "put_record buf ?f")
      case (Inl e1)
      then show ?thesis using assms True
        by (simp add: seed_lease_def encode_lease_restore_def entry_record_def [symmetric] Let_def) (auto simp: entry_record_def)
    next
      case (Inr no)
      obtain k out where no: "no = (k, out)" by (cases no)
      note pr = put_record_Inr [OF Inr [unfolded no]]
      obtain f' ok where mk: "mark_lease_restore_flushing ?f = (f', ok)" by (metis surj_pair)
      have len: "length f' = length ?f" using mk by (auto simp: mark_lease_restore_flushing_def split: if_splits)
      have run: "(buf', res) = (if le_flushing ?e \<noteq> 0 then (f' @ drop k out, if ok then Some k else None) else (out, Some k))"
        using assms True Inr no pr(2) mk
        by (simp add: seed_lease_def encode_lease_restore_def entry_record_def [symmetric] Let_def) (auto simp: entry_record_def)
      have "length ?f \<le> length buf" using Inr by (auto simp: put_record_def split: if_splits)
      then have "length (f' @ drop k out) = length buf" using pr len by simp
      then show ?thesis using run pr len mk True by (auto simp: lease_seed_def Let_def split: if_splits)
    qed
  qed
  then show "length buf' = length buf" "res = Some n \<Longrightarrow> n = length (lease_seed p t ?e) \<and> take n buf' = lease_seed p t ?e"
    by blast+
qed

lemma rotation_seeds: "seeds (rotation_seed p m) (seed_of p m)"
  using seed_lease_gives seed_binding_gives
  by (fastforce simp: seeds_def rotation_seed_def seed_of_def Let_def split: prod.splits option.splits)

section \<open>Replaying them\<close>

lemma apply_log_append: "apply_log p call (xs @ ys) w = apply_log p call ys (apply_log p call xs w)"
  by (induction xs arbitrary: w) (auto split: prod.split)

definition typed_leases :: "lease_table \<Rightarrow> bool" where
  \<comment> \<open>the holder is an array of sixteen bytes\<close>
  "typed_leases t \<longleftrightarrow> (\<forall>e\<in>set (lt_entries t). length (le_holder e) = LEASE_HOLDER_LEN)"

lemma lease_frame_head: "ns_peek_opcode (lease_restore_frame r) = Some OP_LEASE_RESTORE" "45 < length (lease_restore_frame r) \<or> length (ds_holder r) \<noteq> LEASE_HOLDER_LEN"
  "lease_restore_frame r ! 0 = OP_LEASE_RESTORE" "lease_restore_frame r \<noteq> []"
  by (auto simp: ns_peek_opcode_def lease_restore_frame_def LEASE_HOLDER_LEN_def)

lemma apply_lease_seed:
  assumes used: "le_used e \<noteq> 0" and fits: "key_fits p (lease_root e) (lease_path p e) []" and typed: "length (le_holder e) = LEASE_HOLDER_LEN"
    and ok: "lease_restore p (nm_leases m) (lease_root e) (lease_path p e) (le_holder e) (le_fence e) (le_expires_at e) (le_stamp e)
        (le_live e \<noteq> 0) (lt_fence_floor t) (lt_stamp_floor t) = (t1, True)"
  shows "apply_op p call (lease_seed p t e) m s =
      (m\<lparr>nm_leases := if le_flushing e \<noteq> 0 then fst (set_flushing p t1 (lease_root e) (lease_path p e) (le_holder e) True) else t1\<rparr>, s, Inr ())"
    and "lease_seed p t e \<noteq> []"
proof -
  let ?r = "entry_record p t e" and ?f = "lease_restore_frame (entry_record p t e)"
  have bk: "key_fits p (ds_root ?r) (ds_path ?r) []" "length (ds_holder ?r) = LEASE_HOLDER_LEN"
    using fits typed by (simp_all add: entry_record_def)
  note fb = lease_restore_frame_back [OF bk, where rest = "[]", simplified]
  obtain f' b where mk: "mark_lease_restore_flushing ?f = (f', b)" by (metis surj_pair)
  have b: "b" "ns_peek_opcode f' = Some OP_LEASE_RESTORE"
    using mk lease_frame_head [of ?r] bk(2)
    by (auto simp: mark_lease_restore_flushing_def ns_peek_opcode_def split: if_splits list.splits)
  have dec: "decode_lease_restore p (lease_seed p t e) = Inr ?r" "lease_restore_flushing (lease_seed p t e) = (le_flushing e \<noteq> 0)"
    "ns_peek_opcode (lease_seed p t e) = Some OP_LEASE_RESTORE"
    using fb mk b lease_frame_head(1) [of ?r] used by (auto simp: lease_seed_def Let_def)
  then show "apply_op p call (lease_seed p t e) m s =
      (m\<lparr>nm_leases := if le_flushing e \<noteq> 0 then fst (set_flushing p t1 (lease_root e) (lease_path p e) (le_holder e) True) else t1\<rparr>, s, Inr ())"
    using ok by (simp add: apply_op_def with_decoded_def ns_opcodes apply_lease_restore_def entry_record_def)
  show "lease_seed p t e \<noteq> []" using dec(3) by (auto simp: ns_peek_opcode_def)
qed

lemma replay_leases:
  assumes "restore_entries p (lt_fence_floor t) (lt_stamp_floor t) (nm_leases m) es = (t', True)"
    and "\<forall>e\<in>set es. entry_ok p e \<and> length (le_holder e) = LEASE_HOLDER_LEN"
  shows "apply_log p call (filter (\<lambda>x. x \<noteq> []) (map (lease_seed p t) es)) (m, s) = (m\<lparr>nm_leases := t'\<rparr>, s)"
  using assms
proof (induction es arbitrary: m)
  case (Cons e es)
  show ?case
  proof (cases "le_used e = 0")
    case True
    then show ?thesis using Cons by (simp add: lease_seed_def)
  next
    case used: False
    then obtain t1 where t1: "lease_restore p (nm_leases m) (lease_root e) (lease_path p e) (le_holder e) (le_fence e) (le_expires_at e) (le_stamp e)
        (le_live e \<noteq> 0) (lt_fence_floor t) (lt_stamp_floor t) = (t1, True)"
      and rest: "restore_entries p (lt_fence_floor t) (lt_stamp_floor t)
         (if le_flushing e \<noteq> 0 then fst (set_flushing p t1 (lease_root e) (lease_path p e) (le_holder e) True) else t1) es = (t', True)"
      using Cons.prems(1) by (auto split: prod.splits bool.splits)
    have "key_fits p (lease_root e) (lease_path p e) []" "length (le_holder e) = LEASE_HOLDER_LEN"
      using Cons.prems(2) used by (auto simp: entry_ok_def)
    note a = apply_lease_seed [OF used this t1]
    define t2 where "t2 = (if le_flushing e \<noteq> 0 then fst (set_flushing p t1 (lease_root e) (lease_path p e) (le_holder e) True) else t1)"
    have "apply_log p call (filter (\<lambda>x. x \<noteq> []) (map (lease_seed p t) es)) (m\<lparr>nm_leases := t2\<rparr>, s) = (m\<lparr>nm_leases := t'\<rparr>, s)"
      using Cons.IH [of "m\<lparr>nm_leases := t2\<rparr>"] rest Cons.prems(2) by (simp add: t2_def)
    then show ?thesis using a(2) by (simp add: a(1) t2_def [symmetric])
  qed
qed simp

section \<open>One binding\<close>

definition slot_at :: "binding_slot \<Rightarrow> bytes \<times> bytes" where
  "slot_at s = (slot_root s, slot_path s)"

definition restores :: "profile \<Rightarrow> kmap \<Rightarrow> binding_slot \<Rightarrow> bool" where
  \<comment> \<open>a slot whose record \<open>restore_binding\<close> takes over what is bound: a newer revision, a tombstone with nothing else\<close>
  "restores p V s \<longleftrightarrow> slot_ok p s \<and> bs_occupied s \<and> rev_at V (slot_at s) < bs_revision s \<and>
     (bs_kind s = KIND_TOMBSTONE \<longrightarrow> slot_kview s = tomb_view (bs_revision s))"

lemma slot_bind_fits: "slot_ok p s \<Longrightarrow> bind_fits p (slot_bind s)"
  by (auto simp: bind_fits_def slot_bind_def key_fits_def slot_ok_def slot_root_def slot_path_def slot_object_id_def
      slot_content_type_def slot_key_ref_def wire_meta_def slot_meta_def COND_ANY_def COND_REVISION_def Let_def)

lemma slot_bind_fields:
  "db_root (slot_bind s) = slot_root s" "db_path (slot_bind s) = slot_path s" "db_object_id (slot_bind s) = slot_object_id s"
  "db_kind (slot_bind s) = bs_kind s" "db_revision (slot_bind s) = bs_revision s"
  by (simp_all add: slot_bind_def)

lemma slot_bind_meta: "state_meta (db_meta (slot_bind s)) = slot_meta s"
  by (simp add: slot_bind_def state_meta_def wire_meta_def)

lemma write_with_room:
  assumes "nm_ok p recs m" "\<not> ns_full (nm_bindings m)" "fits" "writes p fits k v (nm_bindings m) (w (nm_bindings m))"
  shows "\<exists>st r t. write_evicting p e w m = (m\<lparr>nm_bindings := st\<rparr>, Inr r) \<and> w (nm_bindings m) = (st, Inr r) \<and>
     ns_map st = (ns_map (nm_bindings m))(k \<mapsto> t) \<and> slot_kview t = v"
  using assms by (cases "w (nm_bindings m)") (auto simp: write_evicting_def writes_def split: sum.splits)

definition restore_write :: "profile \<Rightarrow> binding_slot \<Rightarrow> ns_module \<Rightarrow> ns_module \<times> unit applied" where
  "restore_write p sl m =
     (if bs_kind sl = KIND_TOMBSTONE then remove_binding p (slot_root sl) (slot_path sl) (bs_revision sl) m
      else commit_binding p (slot_root sl) (slot_path sl) (slot_object_id sl) (bs_kind sl) (bs_revision sl) (slot_meta sl) m)"

lemma restore_runs:
  assumes sv: "serving p call v g recs m s" and pr: "prompt call m" and sok: "slot_ok p sl"
  shows "\<exists>s'. serving p call v g recs m s' \<and>
     apply_op p call (bind_frame OP_BINDING_RESTORE (slot_bind sl)) m s =
       (if bs_revision sl \<le> rev_at (module_view p recs m) (slot_at sl) then (m, s', Inr ())
        else case restore_write p sl m of (m', r) \<Rightarrow> (m', s', r))"
proof -
  let ?b = "slot_bind sl"
  obtain s' c where cur: "current p call m (slot_root sl) (slot_path sl) s = (s', c)" by (metis surj_pair)
  note cv = current_view [OF sv cur]
  have head: "bind_frame OP_BINDING_RESTORE ?b \<noteq> []" "bind_frame OP_BINDING_RESTORE ?b ! 0 = OP_BINDING_RESTORE"
    by (simp_all add: bind_frame_def Let_def)
  have "apply_op p call (bind_frame OP_BINDING_RESTORE ?b) m s = restore_binding p call ?b m s"
    using frame_opcodes(1) [of OP_BINDING_RESTORE ?b "[]"] bind_frame_back(1) [OF slot_bind_fits [OF sok], of OP_BINDING_RESTORE "[]"]
      head by (simp add: apply_op_def with_decoded_def ns_opcodes decode_binding_restore_def)
  also have "\<dots> = (if bs_revision sl \<le> rev_at (module_view p recs m) (slot_at sl) then (m, s', Inr ())
      else case restore_write p sl m of (m', r) \<Rightarrow> (m', s', r))"
    using cv cur pr
    by (auto simp: restore_binding_def restore_write_def slot_bind_fields slot_bind_meta slot_at_def rev_at_def slot_kview_def snap_kview_def
        split: option.splits current.splits)
  finally show ?thesis using cv by blast
qed

text \<open>What is not newer than the generation is dropped: a volume root written at revision 1 over a
  tombstone the generation holds does not survive the rotation.\<close>

lemma older_seed_dropped:
  assumes "serving p call v g recs m s" "prompt call m" "slot_ok p sl" "bs_revision sl \<le> rev_at (module_view p recs m) (slot_at sl)"
  shows "\<exists>s'. apply_op p call (bind_frame OP_BINDING_RESTORE (slot_bind sl)) m s = (m, s', Inr ())"
  using restore_runs [OF assms(1-3)] assms(4) by auto

lemma restore_step:
  assumes sv: "serving p call v g recs m s" and pr: "prompt call m" and room: "\<not> ns_full (nm_bindings m)"
    and sl: "restores p (module_view p recs m) sl"
  shows "\<exists>st s' t. apply_op p call (bind_frame OP_BINDING_RESTORE (slot_bind sl)) m s = (m\<lparr>nm_bindings := st\<rparr>, s', Inr ()) \<and>
     serving p call v g recs (m\<lparr>nm_bindings := st\<rparr>) s' \<and> ns_map st = (ns_map (nm_bindings m))(slot_at sl \<mapsto> t) \<and>
     slot_kview t = slot_kview sl \<and> length (ns_slots st) = length (ns_slots (nm_bindings m))"
proof -
  have ok: "nm_ok p recs m" using serving_ok [OF sv] .
  have cov: "arena_covered p (below_view p recs m) (nm_bindings m)" using ok by (simp add: nm_ok_def)
  have nso: "ns_ok p (nm_bindings m)" using cov by (simp add: arena_covered_def)
  have sok: "slot_ok p sl" using sl by (simp add: restores_def)
  have fit: "key_fits p (slot_root sl) (slot_path sl) (slot_object_id sl)" using slot_bind_fits [OF sok]
    by (simp add: bind_fits_def slot_bind_def)
  have tf: "target_fits p (slot_root sl, slot_path sl) (slot_object_id sl) (slot_meta sl)" using slot_bind_fits [OF sok]
    by (simp add: target_fits_def bind_fits_def slot_bind_def wire_meta_def)
  obtain s' where s': "serving p call v g recs m s'"
    "apply_op p call (bind_frame OP_BINDING_RESTORE (slot_bind sl)) m s = (case restore_write p sl m of (m', r) \<Rightarrow> (m', s', r))"
    using restore_runs [OF sv pr sok] sl by (auto simp: restores_def not_le [symmetric])
  have "\<exists>st t. restore_write p sl m = (m\<lparr>nm_bindings := st\<rparr>, Inr ()) \<and> ns_map st = (ns_map (nm_bindings m))(slot_at sl \<mapsto> t) \<and>
     slot_kview t = slot_kview sl \<and> ns_step p (nm_bindings m) st \<and> nm_ok p recs (m\<lparr>nm_bindings := st\<rparr>)"
  proof (cases "bs_kind sl = KIND_TOMBSTONE")
    case True
    let ?w = "\<lambda>st. ns_tombstone p st (slot_root sl) (slot_path sl) (bs_revision sl)"
    have fits: "key_fits p (slot_root sl) (slot_path sl) []" using fit by (simp add: key_fits_def)
    obtain st r t where w: "write_evicting p True ?w m = (m\<lparr>nm_bindings := st\<rparr>, Inr r)" "?w (nm_bindings m) = (st, Inr r)"
      "ns_map st = (ns_map (nm_bindings m))((slot_root sl, slot_path sl) \<mapsto> t)" "slot_kview t = tomb_view (bs_revision sl)"
      using write_with_room [where w = ?w and e = True, OF ok room fits tombstone_writes [OF cov]] by blast
    have "nm_ok p recs (m\<lparr>nm_bindings := st\<rparr>)" using write_evicting_effect [OF ok _ w(1)] tombstone_writes by blast
    then show ?thesis using w sl True ns_step.step_tombstone [OF w(2)]
      by (auto simp: restore_write_def remove_binding_def rejecting_def slot_at_def restores_def)
  next
    case False
    let ?w = "\<lambda>st. ns_commit_bind p st (slot_root sl) (slot_path sl) (slot_object_id sl) (bs_kind sl) (bs_revision sl) (slot_meta sl)"
    obtain st r t where w: "write_evicting p (nm_snap_active m) ?w m = (m\<lparr>nm_bindings := st\<rparr>, Inr r)" "?w (nm_bindings m) = (st, Inr r)"
      "ns_map st = (ns_map (nm_bindings m))((slot_root sl, slot_path sl) \<mapsto> t)"
      "slot_kview t = \<lparr>k_object_id = slot_object_id sl, k_kind = bs_kind sl, k_revision = bs_revision sl, k_meta = slot_meta sl\<rparr>"
      using write_with_room [where w = ?w and e = "nm_snap_active m", OF ok room tf commit_writes [OF cov]] by blast
    have "nm_ok p recs (m\<lparr>nm_bindings := st\<rparr>)" using write_evicting_effect [OF ok _ w(1)] commit_writes by blast
    then show ?thesis using w sl False ns_step.step_commit [OF w(2)]
      by (auto simp: restore_write_def commit_binding_def rejecting_def slot_at_def slot_kview_def)
  qed
  then obtain st t where st: "restore_write p sl m = (m\<lparr>nm_bindings := st\<rparr>, Inr ())" "ns_map st = (ns_map (nm_bindings m))(slot_at sl \<mapsto> t)"
     "slot_kview t = slot_kview sl" "ns_step p (nm_bindings m) st" "nm_ok p recs (m\<lparr>nm_bindings := st\<rparr>)" by blast
  moreover have "serving p call v g recs (m\<lparr>nm_bindings := st\<rparr>) s'"
    using serving_after [OF s'(1) st(5)] by (simp add: same_below_def)
  ultimately show ?thesis using s'(2) ns_step_ok [OF st(4) nso] by fastforce
qed

section \<open>All of them\<close>

lemma not_full_card:
  assumes "ns_ok p st" "card (dom (ns_map st)) < length (ns_slots st)"
  shows "\<not> ns_full st"
proof -
  have "dom (ns_view st) = dom (ns_map st)" by (auto simp: ns_view_def dom_def)
  then show ?thesis using ns_full_card [OF assms(1)] assms(2) by simp
qed

definition over_view :: "binding_slot list \<Rightarrow> kmap \<Rightarrow> kmap" where
  "over_view ss V k = (case List.find (\<lambda>s. slot_at s = k) ss of Some s \<Rightarrow> Some (slot_kview s) | None \<Rightarrow> V k)"

lemma replay_bindings:
  assumes "serving p call v g recs m s" "prompt call m" "distinct (map slot_at ss)"
    and "\<forall>x\<in>set ss. restores p (module_view p recs m) x"
    and "card (dom (ns_map (nm_bindings m))) + length ss \<le> length (ns_slots (nm_bindings m))"
  shows "\<exists>st s'. apply_log p call (map (\<lambda>x. bind_frame OP_BINDING_RESTORE (slot_bind x)) ss) (m, s) = (m\<lparr>nm_bindings := st\<rparr>, s') \<and>
     serving p call v g recs (m\<lparr>nm_bindings := st\<rparr>) s' \<and> module_view p recs (m\<lparr>nm_bindings := st\<rparr>) = over_view ss (module_view p recs m)"
  using assms
proof (induction ss arbitrary: m s)
  case Nil
  have "over_view [] V = V" for V by (rule ext) (simp add: over_view_def)
  moreover have "m\<lparr>nm_bindings := nm_bindings m\<rparr> = m" by simp
  ultimately show ?case using Nil(1) by (metis apply_log.simps(1) list.map(1))
next
  case (Cons x ss)
  have nso: "ns_ok p (nm_bindings m)" using serving_ok [OF Cons.prems(1)] by (simp add: nm_ok_def arena_covered_def)
  have room: "\<not> ns_full (nm_bindings m)" using not_full_card [OF nso] Cons.prems(5) by simp
  obtain st s1 t where st: "apply_op p call (bind_frame OP_BINDING_RESTORE (slot_bind x)) m s = (m\<lparr>nm_bindings := st\<rparr>, s1, Inr ())"
    "serving p call v g recs (m\<lparr>nm_bindings := st\<rparr>) s1" "ns_map st = (ns_map (nm_bindings m))(slot_at x \<mapsto> t)"
    "slot_kview t = slot_kview x" "length (ns_slots st) = length (ns_slots (nm_bindings m))"
    using restore_step [OF Cons.prems(1,2) room] Cons.prems(4) by force
  let ?m = "m\<lparr>nm_bindings := st\<rparr>"
  have view: "module_view p recs ?m = (module_view p recs m)(slot_at x \<mapsto> slot_kview x)"
    by (rule ext) (simp add: module_view_def arena_over_def below_view_same [OF same_but_arena_upd] st(3,4))
  have rs: "\<forall>y\<in>set ss. restores p (module_view p recs ?m) y"
  proof
    fix y assume y: "y \<in> set ss"
    then have "slot_at y \<noteq> slot_at x" using Cons.prems(3) by (metis distinct.simps(2) image_eqI list.set_map list.simps(9))
    then show "restores p (module_view p recs ?m) y" using Cons.prems(4) y by (simp add: restores_def rev_at_def view)
  qed
  have "card (dom (ns_map st)) \<le> Suc (card (dom (ns_map (nm_bindings m))))"
    using card_Un_le [of "{slot_at x}" "dom (ns_map (nm_bindings m))"] by (simp add: st(3))
  then have "card (dom (ns_map (nm_bindings ?m))) + length ss \<le> length (ns_slots (nm_bindings ?m))" using Cons.prems(5) st(5) by simp
  from Cons.IH [OF st(2) _ _ rs this] Cons.prems(2,3) obtain st' s' where
    s': "apply_log p call (map (\<lambda>x. bind_frame OP_BINDING_RESTORE (slot_bind x)) ss) (?m, s1) = (m\<lparr>nm_bindings := st'\<rparr>, s')"
    "serving p call v g recs (m\<lparr>nm_bindings := st'\<rparr>) s'" "module_view p recs (m\<lparr>nm_bindings := st'\<rparr>) = over_view ss (module_view p recs ?m)"
    by (auto simp: prompt_def)
  have "slot_at x \<notin> slot_at ` set ss" using Cons.prems(3) by simp
  then have none: "List.find (\<lambda>s. slot_at s = slot_at x) ss = None" unfolding find_None_iff by (metis imageI)
  have "over_view ss (module_view p recs ?m) = over_view (x # ss) (module_view p recs m)"
  proof (rule ext)
    fix k show "over_view ss (module_view p recs ?m) k = over_view (x # ss) (module_view p recs m) k"
      using none by (cases "k = slot_at x") (auto simp add: over_view_def view split: option.split)
  qed
  then show ?case using s' st(1) by auto
qed

section \<open>The log of seeds\<close>

lemma map_nth_fun: "map (\<lambda>i. f (xs ! i)) [0..<length xs] = map f xs"
  by (rule nth_equalityI) simp_all

lemma seed_list:
  "filter (\<lambda>x. x \<noteq> []) (map (seed_of p m) [0..<rotation_count m]) =
     filter (\<lambda>x. x \<noteq> []) (map (lease_seed p (nm_leases m)) (lt_entries (nm_leases m))) @
     map (\<lambda>x. bind_frame OP_BINDING_RESTORE (slot_bind x)) (filter uncovered (ns_slots (nm_bindings m)))"
proof -
  let ?es = "lt_entries (nm_leases m)" and ?ss = "ns_slots (nm_bindings m)"
  have "[0..<length ?es + length ?ss] = [0..<length ?es] @ map (\<lambda>i. i + length ?es) [0..<length ?ss]"
    by (metis upt_add_eq_append le0 map_add_upt add.commute)
  then have "map (seed_of p m) [0..<rotation_count m] = map (\<lambda>i. lease_seed p (nm_leases m) (?es ! i)) [0..<length ?es] @
      map (\<lambda>i. binding_seed (?ss ! i)) [0..<length ?ss]"
    by (simp add: rotation_count_def seed_of_def Let_def o_def)
  also have "\<dots> = map (lease_seed p (nm_leases m)) ?es @ map binding_seed ?ss"
    by (simp add: map_nth_fun)
  moreover have "filter (\<lambda>x. x \<noteq> []) (map binding_seed ss) = map (\<lambda>x. bind_frame OP_BINDING_RESTORE (slot_bind x)) (filter uncovered ss)" for ss
    by (induction ss) (auto simp: binding_seed_def bind_frame_op(2))
  ultimately show ?thesis by simp
qed

lemma bind_frame_writable: "bind_fits p b \<Longrightarrow> writable_record (bind_frame op b)"
  using bind_frame_op(2) [of op b]
  by (simp add: writable_record_def bind_frame_def Let_def bind_fits_def key_fits_def MAX_WAL_REC_def MAX_ROOT_def MAX_PATH_def
      MAX_OBJECT_ID_def CONTENT_TYPE_MAX_def KEY_REF_MAX_def split: if_splits)

lemma lease_seed_writable:
  assumes "entry_ok p e" "length (le_holder e) = LEASE_HOLDER_LEN" "lease_seed p t e \<noteq> []"
  shows "writable_record (lease_seed p t e)"
proof -
  have used: "le_used e \<noteq> 0" using assms(3) by (auto simp: lease_seed_def)
  have "length (fst (mark_lease_restore_flushing f)) = length f" for f
    by (simp add: mark_lease_restore_flushing_def)
  moreover have "length (lease_restore_frame (entry_record p t e)) \<le> MAX_WAL_REC"
    using assms(1,2) used by (simp add: lease_restore_frame_def entry_record_def entry_ok_def key_fits_def MAX_WAL_REC_def MAX_ROOT_def
        MAX_PATH_def LEASE_HOLDER_LEN_def split: if_splits)
  ultimately show ?thesis using assms(3) used by (simp add: lease_seed_def writable_record_def Let_def)
qed

lemma parse_seeded:
  assumes "\<forall>x\<in>set (filter (\<lambda>x. x \<noteq> []) (map recs [0..<n])). writable_record x" "MAX_WAL_REC \<le> cap"
  shows "parse_log cap (seeded recs n) = filter (\<lambda>x. x \<noteq> []) (map recs [0..<n])"
  using parse_records [of "filter (\<lambda>x. x \<noteq> []) (map recs [0..<n])" cap "[]"] assms
  by (force simp: seeded_def writable_record_def)

section \<open>The next boot\<close>

definition restorable :: "profile \<Rightarrow> snap_record list \<Rightarrow> ns_module \<Rightarrow> bool" where
  \<comment> \<open>a binding the generation does not hold is newer than what it holds of the key\<close>
  "restorable p recs m \<longleftrightarrow>
     (\<forall>x\<in>set (ns_slots (nm_bindings m)). uncovered x \<longrightarrow> rev_at (below_view p recs m) (slot_at x) < bs_revision x \<and>
        (bs_kind x = KIND_TOMBSTONE \<longrightarrow> slot_kview x = tomb_view (bs_revision x)))"

definition booted :: "profile \<Rightarrow> ns_module \<Rightarrow> ns_module \<Rightarrow> bool" where
  \<comment> \<open>\<open>m0\<close> is \<open>m\<close>'s successor before its log is replayed: the generation, and empty tables\<close>
  "booted p m m0 \<longleftrightarrow> nm_snap_active m0 = nm_snap_active m \<and>
     nm_bindings m0 = ns_new p (length (ns_slots (nm_bindings m))) \<and>
     nm_leases m0 = lease_new p (length (lt_entries (nm_leases m)))"

lemma booted_arena: "booted p m m0 \<Longrightarrow> ns_map (nm_bindings m0) = Map.empty"
  by (rule ext) (simp add: booted_def)

lemma booted_view: "booted p m m0 \<Longrightarrow> module_view p recs m0 = below_view p recs m"
  using booted_arena [of p m m0] by (simp add: module_view_def arena_over_def below_view_def booted_def fun_eq_iff)

lemma uncovered_over:
  assumes ok: "nm_ok p recs m"
  shows "over_view (filter uncovered (ns_slots (nm_bindings m))) (below_view p recs m) = module_view p recs m"
proof (rule ext)
  fix k
  let ?ss = "ns_slots (nm_bindings m)"
  have nso: "ns_ok p (nm_bindings m)" using ok by (simp add: nm_ok_def arena_covered_def)
  show "over_view (filter uncovered ?ss) (below_view p recs m) k = module_view p recs m k"
  proof (cases "List.find (\<lambda>s. slot_at s = k) (filter uncovered ?ss)")
    case (Some x)
    then have x: "x \<in> set ?ss" "uncovered x" "slot_at x = k" by (auto simp: find_Some_iff dest: nth_mem)
    then obtain i where "i < length ?ss" "?ss ! i = x" by (auto simp: in_set_conv_nth)
    then have "ns_map (nm_bindings m) k = Some x"
      using ns_map_at [OF nso, of i k] x by (simp add: slot_key_def uncovered_def slot_at_def)
    then show ?thesis using Some by (simp add: over_view_def module_view_def arena_over_def)
  next
    case None
    note none = this
    show ?thesis
    proof (cases "ns_map (nm_bindings m) k")
      case (Some s)
      obtain i where i: "i < length ?ss" "?ss ! i = s" "slot_key s = Some k" using ns_map_SomeE [OF nso Some] by metis
      then have "slot_at s = k" "bs_occupied s" "s \<in> set ?ss" by (auto simp: slot_key_def slot_at_def split: if_splits)
      then have "bs_snapshotted s \<noteq> 0" using none by (auto simp: find_None_iff uncovered_def)
      then have "below_view p recs m k = Some (slot_kview s)" using ok [unfolded nm_ok_def arena_covered_def] Some by blast
      then show ?thesis using none Some by (simp add: over_view_def module_view_def arena_over_def)
    next
      case None
      then show ?thesis using none by (simp add: over_view_def module_view_def arena_over_def)
    qed
  qed
qed

lemma replay_seeds:
  assumes ok: "nm_ok p recs m" "lease_ok p (nm_leases m)" "typed_leases (nm_leases m)" "restorable p recs m"
    and m0: "booted p m m0" "serving p call v g recs m0 s" "prompt call m0"
  shows "\<exists>m1 s1. apply_log p call (filter (\<lambda>x. x \<noteq> []) (map (seed_of p m) [0..<rotation_count m])) (m0, s) = (m1, s1) \<and>
     module_view p recs m1 = module_view p recs m \<and> (\<forall>r q. lease p (nm_leases m1) r q = lease p (nm_leases m) r q) \<and>
     ((\<exists>e\<in>set (lt_entries (nm_leases m)). le_used e \<noteq> 0) \<longrightarrow>
        lt_fence_floor (nm_leases m1) = lt_fence_floor (nm_leases m) \<and> lt_stamp_floor (nm_leases m1) = lt_stamp_floor (nm_leases m))"
proof -
  let ?t = "nm_leases m" and ?ss = "filter uncovered (ns_slots (nm_bindings m))"
  have nso: "ns_ok p (nm_bindings m)" using ok(1) by (simp add: nm_ok_def arena_covered_def)
  obtain t' where t': "restore_entries p (lt_fence_floor ?t) (lt_stamp_floor ?t) (nm_leases m0) (lt_entries ?t) = (t', True)"
    "\<forall>r q. lease p t' r q = lease p ?t r q"
    "(\<exists>e\<in>set (lt_entries ?t). le_used e \<noteq> 0) \<longrightarrow> lt_fence_floor t' = lt_fence_floor ?t \<and> lt_stamp_floor t' = lt_stamp_floor ?t"
    using restored_leases [OF ok(2)] m0(1) by (auto simp: booted_def)
  have "\<forall>e\<in>set (lt_entries ?t). entry_ok p e \<and> length (le_holder e) = LEASE_HOLDER_LEN"
    using ok(2,3) by (simp add: lease_ok_def arena_ok_def typed_leases_def)
  note leases = replay_leases [OF t'(1) this, of call s]
  let ?m = "m0\<lparr>nm_leases := t'\<rparr>"
  have mok: "nm_ok p recs ?m" using serving_ok [OF m0(2)] by (simp add: nm_ok_def below_view_def [abs_def])
  have sv: "serving p call v g recs ?m s" using serving_after [OF m0(2) mok] by (simp add: same_below_def)
  have view: "module_view p recs ?m = below_view p recs m"
    using booted_view [OF m0(1), of recs] by (simp add: module_view_def below_view_def [abs_def])
  have dist: "distinct (map slot_at ?ss)"
  proof -
    have "distinct (map slot_key ?ss)"
      using arena_ok_distinct [OF nso [unfolded ns_ok_def], of uncovered] by (simp add: slot_key_def uncovered_def)
    moreover have "map slot_key ?ss = map Some (map slot_at ?ss)" by (auto simp: slot_key_def uncovered_def slot_at_def)
    ultimately show ?thesis using distinct_map [of Some "map slot_at ?ss"] by simp
  qed
  have "\<forall>x\<in>set ?ss. restores p (module_view p recs ?m) x"
    using ok(4) nso by (auto simp: restores_def restorable_def booted_view [OF m0(1)] uncovered_def ns_ok_def arena_ok_def)
  moreover have "card (dom (ns_map (nm_bindings ?m))) + length ?ss \<le> length (ns_slots (nm_bindings ?m))"
  proof -
    have "ns_map (nm_bindings m0) = Map.empty"
      by (rule booted_arena [OF m0(1)])
    then show ?thesis using m0(1) by (simp add: booted_def ns_new_def length_filter_le)
  qed
  moreover have "prompt call ?m" using m0(3) by (simp add: prompt_def)
  ultimately obtain st s' where st: "apply_log p call (map (\<lambda>x. bind_frame OP_BINDING_RESTORE (slot_bind x)) ?ss) (?m, s) = (?m\<lparr>nm_bindings := st\<rparr>, s')"
     "module_view p recs (?m\<lparr>nm_bindings := st\<rparr>) = over_view ?ss (module_view p recs ?m)"
    using replay_bindings [OF sv _ dist] by blast
  have "module_view p recs (?m\<lparr>nm_bindings := st\<rparr>) = module_view p recs m"
    unfolding st(2) view by (rule uncovered_over [OF ok(1)])
  then show ?thesis using leases st(1) t' by (auto simp: seed_list apply_log_append)
qed

lemma seeds_writable:
  assumes "ns_ok p (nm_bindings m)" "lease_ok p (nm_leases m)" "typed_leases (nm_leases m)"
  shows "\<forall>x\<in>set (filter (\<lambda>x. x \<noteq> []) (map (seed_of p m) [0..<rotation_count m])). writable_record x"
proof -
  have "writable_record x" if "x \<in> lease_seed p (nm_leases m) ` set (lt_entries (nm_leases m))" "x \<noteq> []" for x
    using that assms(2,3) lease_seed_writable by (auto simp: lease_ok_def arena_ok_def typed_leases_def)
  moreover have "writable_record (bind_frame OP_BINDING_RESTORE (slot_bind x))" if "x \<in> set (ns_slots (nm_bindings m))" for x
    using that assms(1) bind_frame_writable [OF slot_bind_fits] unfolding ns_ok_def arena_ok_def by blast
  ultimately show ?thesis unfolding seed_list by auto
qed

section \<open>No seed is refused\<close>

lemma encode_binding_seed:
  assumes "slot_ok p s" "MAX_WAL_REC \<le> length buf"
  shows "\<exists>n out. encode_binding_restore p buf (slot_bind s) = Inr (n, out)"
proof -
  have any: "(slot_bind s)\<lparr>db_cond := COND_ANY, db_expect := 0\<rparr> = slot_bind s" by (simp add: slot_bind_def)
  note fits = slot_bind_fits [OF assms(1)]
  have "length (bind_frame OP_BIND (slot_bind s)) \<le> length buf"
    using bind_frame_writable [OF fits, of OP_BIND] assms(2) by (simp add: writable_record_def)
  then have "\<exists>n out. encode_bind p buf (slot_bind s) = Inr (n, out)"
    using fits by (auto simp: encode_bind_def put_record_def bind_fits_def wire_check_key_None [THEN iffD2] not_less [symmetric])
  then show ?thesis by (auto simp: encode_binding_restore_def any)
qed

lemma encode_lease_seed:
  assumes "entry_ok p e" "le_used e \<noteq> 0" "length (le_holder e) = LEASE_HOLDER_LEN" "MAX_WAL_REC \<le> length buf"
  shows "\<exists>n out. encode_lease_restore p buf (entry_record p t e) = Inr (n, out) \<and> take n out = lease_restore_frame (entry_record p t e)"
proof -
  let ?f = "lease_restore_frame (entry_record p t e)"
  have fits: "key_fits p (lease_root e) (lease_path p e) []" using assms(1,2) by (simp add: entry_ok_def)
  have "length ?f \<le> length buf"
    using fits assms(3,4) by (simp add: lease_restore_frame_def entry_record_def key_fits_def MAX_WAL_REC_def MAX_ROOT_def
        MAX_PATH_def LEASE_HOLDER_LEN_def split: if_splits)
  then show ?thesis using fits
    by (simp add: encode_lease_restore_def entry_record_def wire_check_key_None [THEN iffD2] put_record_def not_less copy_prefix_def)
qed

lemma seeds_accepted:
  assumes "ns_ok p (nm_bindings m)" "lease_ok p (nm_leases m)" "typed_leases (nm_leases m)" "i < rotation_count m"
    and buf: "MAX_WAL_REC \<le> length buf"
  shows "\<exists>buf' n. rotation_seed p m c i buf = (c, buf', Some n)"
proof (cases "i < length (lt_entries (nm_leases m))")
  case True
  let ?e = "lt_entries (nm_leases m) ! i"
  have e: "entry_ok p ?e" "length (le_holder ?e) = LEASE_HOLDER_LEN"
    using assms(2,3) True by (simp_all add: lease_ok_def arena_ok_def typed_leases_def)
  show ?thesis
  proof (cases "le_used ?e = 0")
    case used: False
    obtain n out where r: "encode_lease_restore p buf (entry_record p (nm_leases m) ?e) = Inr (n, out)"
      "take n out = lease_restore_frame (entry_record p (nm_leases m) ?e)"
      using encode_lease_seed [OF e(1) used e(2) buf] by blast
    have "snd (mark_lease_restore_flushing (take n out))"
      using lease_frame_head [of "entry_record p (nm_leases m) ?e"] e(2)
      by (auto simp: r(2) mark_lease_restore_flushing_def entry_record_def)
    then show ?thesis using True used r(1)
      by (auto simp: rotation_seed_def seed_lease_def entry_record_def Let_def split: prod.split)
  qed (use True in \<open>simp add: rotation_seed_def seed_lease_def\<close>)
next
  case False
  let ?s = "ns_slots (nm_bindings m) ! (i - length (lt_entries (nm_leases m)))"
  have i: "i - length (lt_entries (nm_leases m)) < length (ns_slots (nm_bindings m))" using False assms(4) by (simp add: rotation_count_def)
  then have "slot_ok p ?s" using assms(1) by (simp add: ns_ok_def arena_ok_def)
  from encode_binding_seed [OF this buf] show ?thesis using False i
    by (auto simp: rotation_seed_def seed_binding_def slot_bind_def Let_def)
qed

lemma seeds_framed:
  assumes "ns_ok p (nm_bindings m)" "lease_ok p (nm_leases m)" "typed_leases (nm_leases m)" "i < rotation_count m"
    and "length scratch = APPEND_SCRATCH"
  shows "\<exists>scratch' c' n. frame_seed_record (rotation_seed p m) i scratch c = (scratch', c', Some n) \<and> length scratch' = APPEND_SCRATCH \<and> n \<le> APPEND_SCRATCH"
proof -
  have len: "MAX_WAL_REC \<le> length (drop 8 scratch)" using assms(5) by (simp add: APPEND_SCRATCH_def)
  obtain buf n where r: "rotation_seed p m c i (drop 8 scratch) = (c, buf, Some n)"
    using seeds_accepted [OF assms(1-4) len] by blast
  have s: "n = length (seed_of p m i)" "length buf = MAX_WAL_REC"
    using rotation_seeds [of p m, unfolded seeds_def, THEN spec [of _ c], THEN spec [of _ i], THEN spec [of _ "drop 8 scratch"]] r assms(5)
    by (simp_all add: APPEND_SCRATCH_def)
  have "seed_of p m i \<in> set (map (seed_of p m) [0..<rotation_count m])" using assms(4) by simp
  then have "n \<le> MAX_WAL_REC" using seeds_writable [OF assms(1-3)] s(1)
    by (cases "seed_of p m i = []") (auto simp: writable_record_def)
  then show ?thesis using r s assms(5) by (auto simp: frame_seed_record_def Let_def APPEND_SCRATCH_def)
qed

section \<open>The property\<close>


definition rotating_module :: ns_module where
  "rotating_module = (module_on (one_in 2 2 meta_none) [])\<lparr>nm_leases := demo_flush\<rparr>"

definition rebooted_module :: ns_module where
  "rebooted_module = module_on (ns_new Minimal 2) []"

lemma rotating_module_ok:
  "nm_ok Minimal [] rotating_module" "lease_ok Minimal (nm_leases rotating_module)" "typed_leases (nm_leases rotating_module)"
  "restorable Minimal [] rotating_module" "booted Minimal rotating_module rebooted_module"
  "serving Minimal no_fs no_view 0 [] rebooted_module ()" "prompt no_fs rebooted_module"
proof -
  note one = one_in_view [OF meta_none_fits, of 2 2, simplified]
  have inactive: "\<not> nm_snap_active rotating_module" "\<not> nm_snap_active rebooted_module"
    by (simp_all add: rotating_module_def rebooted_module_def module_on_def)
  have below: "below_view Minimal [] rotating_module = Map.empty" using inactive by (simp add: below_view_def fun_eq_iff)
  show "nm_ok Minimal [] rotating_module" using one(1) unfolding nm_ok_def below
    by (simp add: rotating_module_def module_on_def)
  have reach: "lease_reach Minimal 2 demo_flush"
    unfolding demo_flush_def by (rule lease_reach_all [OF lease_reach_new])
  then show "lease_ok Minimal (nm_leases rotating_module)" by (simp add: rotating_module_def lease_reach_ok)
  have "list_all (\<lambda>e. length (le_holder e) = LEASE_HOLDER_LEN) (lt_entries demo_flush)" by code_simp
  then show "typed_leases (nm_leases rotating_module)" by (simp add: rotating_module_def typed_leases_def list_all_iff)
  have slots: "ns_slots (nm_bindings rotating_module) = [fresh Minimal [1] [2] [7] 2 5 meta_none 1, empty_slot Minimal]"
    by (simp add: rotating_module_def module_on_def one_in_def set_slot_def ns_new_def numeral_2_eq_2)
  have live: "(2 :: u8) \<noteq> KIND_TOMBSTONE" by (simp add: KIND_TOMBSTONE_def)
  show "restorable Minimal [] rotating_module"
    by (simp add: restorable_def below slots uncovered_def rev_at_def fresh_def empty_slot_def live)
  have "length (lt_entries demo_flush) = 2" by code_simp
  then show "booted Minimal rotating_module rebooted_module"
    by (simp add: booted_def rotating_module_def rebooted_module_def module_on_def one_in_def set_slot_def ns_new_def)
  show "serving Minimal no_fs no_view 0 [] rebooted_module ()"
    unfolding rebooted_module_def by (rule module_on_serving [OF empty_covered])
  show "prompt no_fs rebooted_module" using inactive by (simp add: prompt_def)
qed


end
